(* ===== verification/Wave_Prelude.thy ===== *)
theory Wave_Prelude
  imports "HOL-Library.Word" "HOL-Library.Multiset"
begin

text \<open>
  Shared vocabulary of the development: fixed-width C integers on \<^typ>\<open>nat\<close> with the wrap-around
  written out, the driver's error codes (\<^verbatim>\<open>wireless/shared/mtlkerr.h\<close>), the failures that a C
  expression can run into (a division by zero, an index outside an array), the sequencing of
  fallible steps, big-endian byte strings and the generic list lemmas the components share.
  \<^item> \<open>u32_simps\<close> collects the arithmetic rules of 32-bit counters,
  \<^item> \<open>wave_inv\<close> the preservation lemmas of the components' invariants,
  \<^item> \<open>run_simps\<close> the rules that execute sequenced fallible steps.
\<close>

named_theorems u32_simps "arithmetic of 32-bit unsigned counters"
named_theorems wave_inv "operations preserve the component invariants"
named_theorems run_simps "execution of sequenced fallible steps"

section \<open>C integers\<close>

type_synonym byte = "8 word"
type_synonym mac_addr = "byte list"

definition u32_max :: nat where
  "u32_max = 2 ^ 32"

definition u32_inc :: "nat \<Rightarrow> nat" where
  "u32_inc n = (n + 1) mod u32_max"

definition u32_dec :: "nat \<Rightarrow> nat" where
  "u32_dec n = (n + u32_max - 1) mod u32_max"

definition u32_sub :: "nat \<Rightarrow> nat \<Rightarrow> nat" where
  "u32_sub a b = (a + u32_max - b) mod u32_max"

text \<open>\<^verbatim>\<open>INC_WRAP_IDX(i,s)\<close>: increments an index and restarts it at the end of the array.\<close>
definition INC_WRAP_IDX :: "nat \<Rightarrow> nat \<Rightarrow> nat" where
  "INC_WRAP_IDX i s = (if i + 1 = s then 0 else i + 1)"

text \<open>\<^verbatim>\<open>mtlk_osal_ms_time_diff\<close>: the difference of two millisecond clocks, as 32-bit unsigned.\<close>
definition mtlk_osal_ms_time_diff :: "nat \<Rightarrow> nat \<Rightarrow> nat" where
  "mtlk_osal_ms_time_diff tm1 tm2 = u32_sub tm1 tm2"

lemma u32_max_pos [simp]: "0 < u32_max"
  by (simp add: u32_max_def)

lemma u32_inc_small [u32_simps]: "n + 1 < u32_max \<Longrightarrow> u32_inc n = n + 1"
  by (simp add: u32_inc_def)

lemma u32_dec_pos [u32_simps]:
  assumes "0 < n" "n \<le> u32_max"
  shows "u32_dec n = n - 1"
proof -
  have "n + u32_max - 1 = (n - 1) + u32_max"
    using assms by simp
  then show ?thesis
    using assms by (simp add: u32_dec_def del: add_diff_assoc2)
qed

lemma u32_dec_inc [u32_simps]:
  assumes "n < u32_max"
  shows "u32_dec (u32_inc n) = n"
proof (cases "n + 1 < u32_max")
  case True
  then show ?thesis by (simp add: u32_simps)
next
  case False
  with assms have "n + 1 = u32_max" by simp
  then have "u32_inc n = 0" by (simp add: u32_inc_def)
  then show ?thesis using \<open>n + 1 = u32_max\<close> by (simp add: u32_dec_def)
qed

lemma u32_sub_le [u32_simps]:
  assumes "b \<le> a" "a < u32_max"
  shows "u32_sub a b = a - b"
proof -
  have "a + u32_max - b = (a - b) + u32_max" using assms by simp
  then have "(a + u32_max - b) mod u32_max = (a - b) mod u32_max" by simp
  then show ?thesis using assms by (simp add: u32_sub_def less_imp_diff_less)
qed

lemma u32_sub_wrap [u32_simps]:
  assumes "a < b" "b < u32_max"
  shows "u32_sub a b = u32_max - (b - a)"
proof -
  have "a + u32_max - b = u32_max - (b - a)" using assms by simp
  moreover have "u32_max - (b - a) < u32_max" using assms by simp
  ultimately show ?thesis by (simp add: u32_sub_def)
qed

lemma u32_inc_lt [simp]: "u32_inc n < u32_max"
  by (simp add: u32_inc_def)

lemma u32_dec_lt [simp]: "u32_dec n < u32_max"
  by (simp add: u32_dec_def)

lemma INC_WRAP_IDX_mod:
  assumes "i < s"
  shows "INC_WRAP_IDX i s = (i + 1) mod s"
  using assms by (auto simp: INC_WRAP_IDX_def)

lemma INC_WRAP_IDX_less [simp]: "i < s \<Longrightarrow> INC_WRAP_IDX i s < s"
  by (auto simp: INC_WRAP_IDX_def)

section \<open>Error codes and faults\<close>

text \<open>\<^verbatim>\<open>mtlk_error_t\<close>, in the order of \<^verbatim>\<open>mtlkerr.h\<close>.\<close>
datatype mtlk_error =
    MTLK_ERR_OK | MTLK_ERR_PARAMS | MTLK_ERR_UNKNOWN | MTLK_ERR_NOT_SUPPORTED | MTLK_ERR_TIMEOUT
  | MTLK_ERR_EEPROM | MTLK_ERR_NO_MEM | MTLK_ERR_HW | MTLK_ERR_FW | MTLK_ERR_UMI
  | MTLK_ERR_PENDING | MTLK_ERR_NOT_IN_USE | MTLK_ERR_NO_RESOURCES | MTLK_ERR_WRONG_CONTEXT
  | MTLK_ERR_NOT_READY | MTLK_ERR_SCAN_FAILED | MTLK_ERR_AOCS_FAILED | MTLK_ERR_PROHIB
  | MTLK_ERR_BUF_TOO_SMALL | MTLK_ERR_PKT_DROPPED | MTLK_ERR_FILEOP | MTLK_ERR_VALUE
  | MTLK_ERR_BUSY | MTLK_ERR_MAC | MTLK_ERR_CANCELED | MTLK_ERR_NOT_HANDLED
  | MTLK_ERR_DATA_TOO_BIG | MTLK_ERR_ALREADY_EXISTS | MTLK_ERR_NO_ENTRY | MTLK_ERR_SYSTEM

text \<open>What a C expression of the driver can run into: both are undefined behaviour in C.\<close>
datatype c_fault = Div_by_zero | Out_of_bounds

definition bind_result :: "'e + 'a \<Rightarrow> ('a \<Rightarrow> 'e + 'b) \<Rightarrow> 'e + 'b" where
  "bind_result r f = (case r of Inl e \<Rightarrow> Inl e | Inr x \<Rightarrow> f x)"

lemma bind_result_simps [simp, run_simps]:
  "bind_result (Inl e) f = Inl e"
  "bind_result (Inr x) f = f x"
  by (simp_all add: bind_result_def)

lemma bind_result_Inr [run_simps]:
  "bind_result r f = Inr y \<longleftrightarrow> (\<exists>x. r = Inr x \<and> f x = Inr y)"
  by (cases r) auto

section \<open>Big-endian byte strings\<close>

primrec be_val :: "byte list \<Rightarrow> nat" where
  "be_val [] = 0"
| "be_val (b # bs) = unat b * 256 ^ length bs + be_val bs"

primrec be_bytes :: "nat \<Rightarrow> nat \<Rightarrow> byte list" where
  "be_bytes 0 v = []"
| "be_bytes (Suc n) v = of_nat (v div 256 ^ n) # be_bytes n v"

text \<open>The sign of C's \<^verbatim>\<open>memcmp\<close> on two buffers of the same length: the first differing byte decides.\<close>
fun memcmp_sgn :: "byte list \<Rightarrow> byte list \<Rightarrow> int" where
  "memcmp_sgn (a # as) (b # bs) = (if a < b then -1 else if b < a then 1 else memcmp_sgn as bs)"
| "memcmp_sgn _ _ = 0"

lemma byte_unat_lt [simp]: "unat (b :: byte) < 256"
  using unsigned_less [of b] by simp

lemma be_val_bound: "be_val bs < 256 ^ length bs"
proof (induction bs)
  case (Cons b bs)
  have "unat b * 256 ^ length bs + be_val bs < (unat b + 1) * 256 ^ length bs"
    using Cons by simp
  also have "\<dots> \<le> 256 * 256 ^ length bs"
    using byte_unat_lt [of b] by (intro mult_right_mono) linarith+
  finally show ?case by simp
qed simp

lemma length_be_bytes [simp]: "length (be_bytes n v) = n"
  by (induction n) auto

lemma be_val_be_bytes: "be_val (be_bytes n v) = v mod 256 ^ n"
proof (induction n)
  case (Suc n)
  have "be_val (be_bytes (Suc n) v) = (v div 256 ^ n mod 256) * 256 ^ n + v mod 256 ^ n"
    using Suc by (simp add: unat_of_nat)
  also have "\<dots> = v mod 256 ^ Suc n"
    using mod_mult2_eq [of v "256 ^ n" 256] by (simp add: mult.commute add.commute)
  finally show ?case .
qed simp

lemma be_val_cong_lex:
  fixes x y p :: nat
  assumes "x < p" "y < p"
  shows "a * p + x \<le> b * p + y \<longleftrightarrow> a < b \<or> a = b \<and> x \<le> y"
proof -
  have *: "a * p + x < b * p + y" if "a < b" "x < p" for a b x y :: nat
  proof -
    have "a * p + x < Suc a * p" using that by simp
    also have "\<dots> \<le> b * p" using that by (intro mult_right_mono) auto
    finally show ?thesis by simp
  qed
  show ?thesis
    using * [of a b x y] * [of b a y x] assms by (cases a b rule: linorder_cases) auto
qed

lemma memcmp_sgn_le:
  assumes "length as = length bs"
  shows "memcmp_sgn as bs \<le> 0 \<longleftrightarrow> be_val as \<le> be_val bs"
  using assms
proof (induction as bs rule: memcmp_sgn.induct)
  case (1 a as b bs)
  then have len: "length as = length bs" by simp
  have "be_val (a # as) \<le> be_val (b # bs)
      \<longleftrightarrow> unat a < unat b \<or> unat a = unat b \<and> be_val as \<le> be_val bs"
    using be_val_cong_lex [OF be_val_bound [of as], of "be_val bs" "unat a" "unat b"]
      be_val_bound [of bs] len by simp
  then show ?case
    using 1 len by (auto simp: word_less_nat_alt word_unat_eq_iff)
qed auto

section \<open>Lists of optional slots\<close>

definition slots_used :: "'a option list \<Rightarrow> nat" where
  "slots_used xs = length (filter (\<lambda>x. x \<noteq> None) xs)"

lemma slots_used_simps [simp]:
  "slots_used [] = 0"
  "slots_used (None # xs) = slots_used xs"
  "slots_used (Some x # xs) = Suc (slots_used xs)"
  "slots_used (xs @ ys) = slots_used xs + slots_used ys"
  by (simp_all add: slots_used_def)

lemma slots_used_le: "slots_used xs \<le> length xs"
  by (simp add: slots_used_def)

lemma slots_used_replicate_None [simp]: "slots_used (replicate n None) = 0"
  by (simp add: slots_used_def)

lemma slots_used_0: "slots_used xs = 0 \<longleftrightarrow> (\<forall>i < length xs. xs ! i = None)"
  by (simp add: slots_used_def filter_empty_conv all_set_conv_all_nth)

lemma slots_used_update_None:
  assumes "i < length xs" "xs ! i = Some x"
  shows "slots_used (xs[i := None]) = slots_used xs - 1" "0 < slots_used xs"
proof -
  have "xs = take i xs @ Some x # drop (Suc i) xs"
    using assms id_take_nth_drop by fastforce
  then have a: "slots_used xs = slots_used (take i xs) + Suc (slots_used (drop (Suc i) xs))"
    by (metis slots_used_simps(3,4))
  have "slots_used (xs[i := None]) = slots_used (take i xs) + slots_used (drop (Suc i) xs)"
    using assms by (simp add: upd_conv_take_nth_drop)
  with a show "slots_used (xs[i := None]) = slots_used xs - 1" "0 < slots_used xs"
    by simp_all
qed

lemma slots_used_update_Some:
  assumes "i < length xs" "xs ! i = None"
  shows "slots_used (xs[i := Some x]) = Suc (slots_used xs)"
proof -
  have "xs = take i xs @ None # drop (Suc i) xs"
    using assms id_take_nth_drop by fastforce
  then have "slots_used xs = slots_used (take i xs) + slots_used (drop (Suc i) xs)"
    by (metis slots_used_simps(2,4))
  then show ?thesis
    using assms by (simp add: upd_conv_take_nth_drop)
qed

section \<open>Searching lists\<close>

lemma find_filter_conv: "find P (filter Q xs) = find (\<lambda>x. Q x \<and> P x) xs"
  by (induction xs) auto

lemma find_append_some: "find P xs = Some x \<Longrightarrow> find P (xs @ ys) = Some x"
  by (induction xs) auto

lemma find_append_none: "\<forall>x \<in> set xs. \<not> P x \<Longrightarrow> find P (xs @ ys) = find P ys"
  by (induction xs) auto

lemma find_upt_unique:
  assumes "c < n" "P c" "\<And>d. P d \<Longrightarrow> d = c"
  shows "find P [0..<n] = Some c"
proof -
  have "[0..<n] = [0..<c] @ c # [Suc c..<n]"
    using upt_add_eq_append [of 0 c "n - c"] assms(1) by (simp add: upt_conv_Cons)
  moreover have "\<forall>x \<in> set [0..<c]. \<not> P x"
    using assms(3) by (metis atLeastLessThan_iff less_irrefl set_upt)
  then have "find P ([0..<c] @ c # [Suc c..<n]) = Some c"
    using assms(2) by (simp add: find_append_none del: set_upt)
  ultimately show ?thesis by simp
qed

lemma find_upt_less: "find P [0..<n] = Some c \<Longrightarrow> c < n"
  by (auto simp: find_Some_iff)

end
