(* ===== verification/Txmm.thy ===== *)
theory Txmm
  imports Wave_Prelude
begin

text \<open>
  The management message serializer, \<^verbatim>\<open>driver/shared/txmm.c\<close> and \<^verbatim>\<open>txmm.h\<close>, over the pool of hardware
  message slots of \<^verbatim>\<open>hw_mmb.c\<close>.  A fixed set of \<^verbatim>\<open>max_msgs\<close> blocks moves between four ring queues
  (free, queued, sent, timed out) or belongs to the user (\<^verbatim>\<open>MTLK_TXMMB_NONE\<close>).  Blocks, messages and
  slots are identified by numbers.  A function that holds the object's lock is one atomic step; the confirmation and the timer release
  it on their way, and their locked sections are definitions of their own (\<open>on_cfm_take\<close>, \<open>on_cfm_finish\<close>, \<open>timer_collect\<close> and the
  rounds of \<open>timer_report\<close>).  This theory has the operations, the invariant and runs of whole calls one after another; the interleaving of the
  locked sections is the subject of \<open>Txmm_Locked\<close>.  The
  user's callback decides by its return value only: it is the argument \<open>user\<close>.  The optional
  message history is compiled out.
\<close>

section \<open>Data\<close>

datatype txmm_block_e =
    MTLK_TXMMB_FREE | MTLK_TXMMB_QUEUED | MTLK_TXMMB_SENT | MTLK_TXMMB_TIMED_OUT | MTLK_TXMMB_NONE

datatype txmm_clb_reason =
    MTLK_TXMM_CLBR_CONFIRMED | MTLK_TXMM_CLBR_TIMEOUT_UNSENT | MTLK_TXMM_CLBR_TIMEOUT_SENT

datatype txmm_clb_action = MTLK_TXMM_CLBA_FREE | MTLK_TXMM_CLBA_SEND | MTLK_TXMM_CLBA_KEEP

text \<open>\<^verbatim>\<open>mtlk_txmm_block_t\<close>: \<open>b_clb\<close> is the callback with its user data, \<open>b_msg\<close> the owning message.\<close>
record txmm_block =
  b_msg_id :: nat
  b_payload :: "byte list"
  b_payload_size :: nat
  b_slot :: "nat option"
  b_clb :: "nat option"
  b_que :: txmm_block_e
  b_idx :: nat
  b_send_time :: nat
  b_timeout :: nat
  b_msg :: "nat option"
  b_vap :: nat

record txmm_que =
  q_ptr :: "nat list"
  q_from :: nat
  q_to :: nat
  q_total :: nat

text \<open>\<^verbatim>\<open>mtlk_txmm_msg_t\<close>: the attached block and the (per-VAP) serializer it belongs to.\<close>
record txmm_msg =
  m_data :: "nat option"
  m_obj :: "nat option"

record txmm_slot =
  slot_id :: nat
  slot_payload :: "byte list"

datatype txmm_event =
    Msg_send nat nat
  | Msg_timed_out nat
  | Clb_called nat txmm_clb_reason

record txmm =
  max_payload_size :: nat
  max_msgs :: nat
  ques :: "txmm_block_e \<Rightarrow> txmm_que"
  blocks :: "nat \<Rightarrow> txmm_block"
  msgs :: "nat \<Rightarrow> txmm_msg"
  hw_pool :: "nat list"
  hw_slots :: "nat \<Rightarrow> txmm_slot"
  nof_sent :: nat
  nof_cfmed :: nat
  used_peak :: nat
  tx_active :: bool
  tx_log :: "txmm_event list"

definition upd_block :: "nat \<Rightarrow> (txmm_block \<Rightarrow> txmm_block) \<Rightarrow> txmm \<Rightarrow> txmm" where
  "upd_block b f s = s\<lparr>blocks := (blocks s)(b := f (blocks s b))\<rparr>"

definition upd_que :: "txmm_block_e \<Rightarrow> (txmm_que \<Rightarrow> txmm_que) \<Rightarrow> txmm \<Rightarrow> txmm" where
  "upd_que k f s = s\<lparr>ques := (ques s)(k := f (ques s k))\<rparr>"

definition tx_emit :: "txmm_event \<Rightarrow> txmm \<Rightarrow> txmm" where
  "tx_emit e s = s\<lparr>tx_log := tx_log s @ [e]\<rparr>"

section \<open>Ring queues\<close>

text \<open>The pointer moves of \<^verbatim>\<open>_mtlk_txmm_put_buf\<close> and \<^verbatim>\<open>_mtlk_txmm_get_buf\<close> on a ring of \<open>n\<close> entries.\<close>
definition que_put :: "nat \<Rightarrow> nat \<Rightarrow> txmm_que \<Rightarrow> txmm_que" where
  "que_put n b q = q\<lparr>q_ptr := (q_ptr q)[q_to q := b], q_to := INC_WRAP_IDX (q_to q) n,
     q_total := q_total q + 1\<rparr>"

definition que_get :: "nat \<Rightarrow> txmm_que \<Rightarrow> (nat \<times> txmm_que) option" where
  "que_get n q =
     (if q_total q \<noteq> 0
      then Some (q_ptr q ! q_from q, q\<lparr>q_from := INC_WRAP_IDX (q_from q) n, q_total := q_total q - 1\<rparr>)
      else None)"

definition mtlk_txmm_get_buf :: "txmm_block_e \<Rightarrow> txmm \<Rightarrow> (nat \<times> txmm) option" where
  "mtlk_txmm_get_buf k s =
     (if k = MTLK_TXMMB_NONE then None
      else case que_get (max_msgs s) (ques s k) of
        None \<Rightarrow> None
      | Some (b, q) \<Rightarrow> Some (b, upd_que k (\<lambda>_. q) s))"

definition mtlk_txmm_put_buf :: "txmm_block_e \<Rightarrow> nat \<Rightarrow> txmm \<Rightarrow> txmm" where
  "mtlk_txmm_put_buf k b s =
     (if k = MTLK_TXMMB_NONE then s
      else upd_que k (que_put (max_msgs s) b)
             (upd_block b (\<lambda>x. x\<lparr>b_que := k, b_idx := q_to (ques s k)\<rparr>) s))"

text \<open>The entry before \<open>i\<close> in the ring.\<close>
definition prev_idx :: "nat \<Rightarrow> nat \<Rightarrow> nat" where
  "prev_idx n i = (if i = 0 then n - 1 else i - 1)"

text \<open>One assignment \<^verbatim>\<open>que->ptr[i] = x; que->ptr[i]->idx = i\<close>.\<close>
definition move_entry :: "txmm_block_e \<Rightarrow> nat \<Rightarrow> nat \<Rightarrow> txmm \<Rightarrow> txmm" where
  "move_entry k i x s =
     upd_block x (\<lambda>y. y\<lparr>b_idx := i\<rparr>) (upd_que k (\<lambda>q. q\<lparr>q_ptr := (q_ptr q)[i := x]\<rparr>) s)"

text \<open>
  The loop of \<^verbatim>\<open>_mtlk_txmm_del_buf_from_que\<close> that shifts the foregoing entries right until it reaches
  the first one.  The first argument bounds the rounds; a ring of \<^verbatim>\<open>max_msgs\<close> entries needs fewer.
\<close>
fun shift_loop :: "nat \<Rightarrow> txmm_block_e \<Rightarrow> nat \<Rightarrow> txmm \<Rightarrow> txmm" where
  "shift_loop 0 k i s = s"
| "shift_loop (Suc f) k i s =
     (let prev = prev_idx (max_msgs s) i;
          s' = move_entry k i (q_ptr (ques s k) ! prev) s
      in if prev = q_from (ques s k) then s' else shift_loop f k prev s')"

text \<open>Result \<^verbatim>\<open>0\<close> is True, \<^verbatim>\<open>-1\<close> is False.\<close>
definition mtlk_txmm_del_buf_from_que :: "txmm_block_e \<Rightarrow> nat \<Rightarrow> bool \<Rightarrow> txmm \<Rightarrow> bool \<times> txmm" where
  "mtlk_txmm_del_buf_from_que k b preserve_order s =
     (if k \<noteq> MTLK_TXMMB_NONE \<and> q_ptr (ques s k) ! b_idx (blocks s b) = b then
        (let i = b_idx (blocks s b);
             s1 = (if i \<noteq> q_from (ques s k) then
                     (if preserve_order then shift_loop (max_msgs s) k i s
                      else move_entry k i (q_ptr (ques s k) ! q_from (ques s k)) s)
                   else s);
             s2 = upd_que k (\<lambda>q. q\<lparr>q_from := INC_WRAP_IDX (q_from q) (max_msgs s),
                                   q_total := q_total q - 1\<rparr>) s1
         in (True, upd_block b (\<lambda>x. x\<lparr>b_que := MTLK_TXMMB_NONE\<rparr>) s2))
      else (False, s))"

text \<open>\<^verbatim>\<open>_mtlk_txmm_zero_block\<close>: everything but the payload buffer, which follows the header, is cleared.\<close>
definition zero_block :: "txmm_block \<Rightarrow> txmm_block" where
  "zero_block x = \<lparr>b_msg_id = 0, b_payload = b_payload x, b_payload_size = 0, b_slot = None, b_clb = None,
     b_que = MTLK_TXMMB_FREE, b_idx = 0, b_send_time = 0, b_timeout = 0, b_msg = None, b_vap = 0\<rparr>"

definition mtlk_txmm_free_buf :: "nat \<Rightarrow> bool \<Rightarrow> bool \<Rightarrow> txmm \<Rightarrow> txmm" where
  "mtlk_txmm_free_buf b del_from_current_queue preserve_order s =
     (if b_que (blocks s b) \<noteq> MTLK_TXMMB_FREE then
        (let s1 = (if del_from_current_queue
                   then snd (mtlk_txmm_del_buf_from_que (b_que (blocks s b)) b preserve_order s) else s)
         in mtlk_txmm_put_buf MTLK_TXMMB_FREE b (upd_block b zero_block s1))
      else s)"

definition mtlk_txmm_adjust_usage_stats :: "txmm \<Rightarrow> txmm" where
  "mtlk_txmm_adjust_usage_stats s =
     (let n = max_msgs s - q_total (ques s MTLK_TXMMB_FREE)
      in if used_peak s < n then s\<lparr>used_peak := n\<rparr> else s)"

section \<open>Sending\<close>

text \<open>The hardware pool: \<^verbatim>\<open>_txm_msg_get_from_pool\<close> pops the front, \<^verbatim>\<open>_txm_msg_free_to_pool\<close> pushes the back.\<close>
definition msg_get_from_pool :: "txmm \<Rightarrow> nat option \<times> txmm" where
  "msg_get_from_pool s =
     (case hw_pool s of [] \<Rightarrow> (None, s) | p # ps \<Rightarrow> (Some p, s\<lparr>hw_pool := ps\<rparr>))"

definition msg_free_to_pool :: "nat \<Rightarrow> txmm \<Rightarrow> txmm" where
  "msg_free_to_pool p s = s\<lparr>hw_pool := hw_pool s @ [p]\<rparr>"

definition mtlk_txmm_send_block_prepare :: "nat \<Rightarrow> nat \<Rightarrow> txmm \<Rightarrow> txmm" where
  "mtlk_txmm_send_block_prepare b p s =
     (let s1 = (if b_payload_size (blocks s b) = 0 \<or> b_payload_size (blocks s b) > max_payload_size s
                then upd_block b (\<lambda>x. x\<lparr>b_payload_size := max_payload_size s\<rparr>) s else s);
          s2 = upd_block b (\<lambda>x. x\<lparr>b_slot := Some p\<rparr>) s1;
          n = b_payload_size (blocks s2 b);
          s3 = s2\<lparr>hw_slots := (hw_slots s2)(p :=
                 \<lparr>slot_id = b_msg_id (blocks s2 b),
                  slot_payload = take n (b_payload (blocks s2 b)) @ drop n (slot_payload (hw_slots s2 p))\<rparr>)\<rparr>;
          s4 = mtlk_txmm_put_buf MTLK_TXMMB_SENT b s3
      in s4\<lparr>nof_sent := u32_inc (nof_sent s4)\<rparr>)"

datatype txmm_status = MTLK_TXMM_OK_HANDLED | MTLK_TXMM_OK_SENT | MTLK_TXMM_OK_FREED

text \<open>Returns the slot to send (if any), the VAP of the block sent, the status and the state.\<close>
definition mtlk_txmm_pump_locked :: "nat option \<Rightarrow> txmm \<Rightarrow> nat option \<times> nat \<times> txmm_status \<times> txmm" where
  "mtlk_txmm_pump_locked pmsg s =
     (if q_total (ques s MTLK_TXMMB_QUEUED) \<noteq> 0 then
        (let (pmsg, s) = (case pmsg of None \<Rightarrow> msg_get_from_pool s | Some p \<Rightarrow> (Some p, s)) in
         case pmsg of
           Some p \<Rightarrow>
             (case mtlk_txmm_get_buf MTLK_TXMMB_QUEUED s of
                Some (b, s1) \<Rightarrow>
                  (let s2 = mtlk_txmm_send_block_prepare b p s1
                   in (Some p, b_vap (blocks s2 b), MTLK_TXMM_OK_SENT, s2))
              | None \<Rightarrow> (Some p, 0, MTLK_TXMM_OK_HANDLED, s))
         | None \<Rightarrow> (None, 0, MTLK_TXMM_OK_HANDLED, s))
      else case pmsg of
        Some p \<Rightarrow> (None, 0, MTLK_TXMM_OK_FREED, msg_free_to_pool p s)
      | None \<Rightarrow> (None, 0, MTLK_TXMM_OK_HANDLED, s))"

definition mtlk_txmm_pump :: "nat option \<Rightarrow> txmm \<Rightarrow> txmm" where
  "mtlk_txmm_pump pmsg s =
     (case mtlk_txmm_pump_locked pmsg s of
        (Some p, vap, MTLK_TXMM_OK_SENT, s') \<Rightarrow> tx_emit (Msg_send p vap) s'
      | (_, _, _, s') \<Rightarrow> s')"

definition mtlk_txmm_attach_data :: "nat \<Rightarrow> nat \<Rightarrow> txmm \<Rightarrow> txmm" where
  "mtlk_txmm_attach_data vap m s =
     (if \<not> tx_active s then s
      else case mtlk_txmm_get_buf MTLK_TXMMB_FREE s of
        Some (b, s1) \<Rightarrow>
          (let s2 = upd_block b (\<lambda>x. x\<lparr>b_msg := Some m, b_que := MTLK_TXMMB_NONE\<rparr>)
                      (mtlk_txmm_adjust_usage_stats s1)
           in s2\<lparr>msgs := (msgs s2)(m := \<lparr>m_data = Some b, m_obj = Some vap\<rparr>)\<rparr>)
      | None \<Rightarrow> s\<lparr>msgs := (msgs s)(m := \<lparr>m_data = None, m_obj = None\<rparr>)\<rparr>)"

definition mtlk_txmm_msg_get_empty_data :: "nat \<Rightarrow> nat \<Rightarrow> txmm \<Rightarrow> nat option \<times> txmm" where
  "mtlk_txmm_msg_get_empty_data m vap s =
     (case m_obj (msgs s m) of
        None \<Rightarrow> (let s' = mtlk_txmm_attach_data vap m s in (m_data (msgs s' m), s'))
      | Some _ \<Rightarrow> (None, s))"

definition mtlk_txmm_send_ex :: "nat \<Rightarrow> nat \<Rightarrow> nat \<Rightarrow> nat \<Rightarrow> nat \<Rightarrow> txmm \<Rightarrow> txmm" where
  "mtlk_txmm_send_ex vap b clb timeout_ms now s =
     (let s1 = upd_block b (\<lambda>x. x\<lparr>b_slot := None, b_clb := Some clb, b_timeout := timeout_ms, b_vap := vap,
                 b_send_time := (if timeout_ms \<noteq> 0 then now else b_send_time x)\<rparr>) s;
          (pmsg, s2) = msg_get_from_pool s1
      in case pmsg of
           Some p \<Rightarrow>
             if q_total (ques s2 MTLK_TXMMB_QUEUED) = 0 then
               tx_emit (Msg_send p vap) (mtlk_txmm_send_block_prepare b p s2)
             else
               (case mtlk_txmm_pump_locked (Some p) (mtlk_txmm_put_buf MTLK_TXMMB_QUEUED b s2) of
                  (Some p', v', _, s3) \<Rightarrow> tx_emit (Msg_send p' v') s3
                | (None, _, _, s3) \<Rightarrow> s3)
         | None \<Rightarrow> mtlk_txmm_put_buf MTLK_TXMMB_QUEUED b s2)"

text \<open>
  \<^verbatim>\<open>mtlk_txmm_msg_send\<close>: \<^verbatim>\<open>_mtlk_txmm_send_ex\<close> always succeeds.  A message without attached data is a
  null pointer that is dereferenced: \<^term>\<open>None\<close>.
\<close>
definition mtlk_txmm_msg_send :: "nat \<Rightarrow> nat \<Rightarrow> nat \<Rightarrow> nat \<Rightarrow> txmm \<Rightarrow> (mtlk_error \<times> txmm) option" where
  "mtlk_txmm_msg_send m clb timeout_ms now s =
     (case (m_data (msgs s m), m_obj (msgs s m)) of
        (Some b, Some vap) \<Rightarrow> Some (MTLK_ERR_OK, mtlk_txmm_send_ex vap b clb timeout_ms now s)
      | _ \<Rightarrow> None)"

section \<open>Confirmation, time-out, cancellation\<close>

text \<open>
  \<^verbatim>\<open>_mtlk_txmm_call_usr_clb_locked\<close> on a block that has been taken out of its queue.  The result is
  \<^term>\<open>None\<close> when \<^verbatim>\<open>block->msg\<close> is a null pointer, which the function dereferences.
\<close>
definition mtlk_txmm_call_usr_clb_locked ::
    "(nat \<Rightarrow> txmm_block \<Rightarrow> txmm_clb_reason \<Rightarrow> txmm_clb_action) \<Rightarrow> nat \<Rightarrow> nat \<Rightarrow> txmm_clb_reason
       \<Rightarrow> txmm \<Rightarrow> (bool \<times> txmm) option" where
  "mtlk_txmm_call_usr_clb_locked user now b reason s =
     (case b_msg (blocks s b) of
        None \<Rightarrow> None
      | Some m \<Rightarrow>
          if m_data (msgs s m) = None then Some (False, s)
          else
            (let s = tx_emit (Clb_called b reason) s in
             case user (the (b_clb (blocks s b))) (blocks s b) reason of
               MTLK_TXMM_CLBA_FREE \<Rightarrow>
                 (let s1 = mtlk_txmm_free_buf b False False s
                  in Some (False, s1\<lparr>msgs := (msgs s1)(m := \<lparr>m_data = None, m_obj = None\<rparr>)\<rparr>))
             | MTLK_TXMM_CLBA_SEND \<Rightarrow>
                 (let s1 = (if b_timeout (blocks s b) \<noteq> 0
                            then upd_block b (\<lambda>x. x\<lparr>b_send_time := now\<rparr>) s else s)
                  in Some (True, mtlk_txmm_put_buf MTLK_TXMMB_QUEUED b s1))
             | MTLK_TXMM_CLBA_KEEP \<Rightarrow> Some (False, s)))"

text \<open>The search of \<^verbatim>\<open>_mtlk_txmm_on_cfm\<close> through the sent queue, at most \<^verbatim>\<open>max_msgs\<close> rounds.\<close>
fun cfm_search :: "nat \<Rightarrow> nat \<Rightarrow> nat \<Rightarrow> txmm \<Rightarrow> nat option" where
  "cfm_search 0 i p s = None"
| "cfm_search (Suc f) i p s =
     (let q = ques s MTLK_TXMMB_SENT; b = q_ptr q ! i in
      if b_slot (blocks s b) = Some p then Some b
      else let i' = INC_WRAP_IDX i (max_msgs s) in
      if i' = q_to q then None else cfm_search f i' p s)"

text \<open>First half of \<^verbatim>\<open>_mtlk_txmm_on_cfm\<close>: find the block by its slot and take it out of the sent queue.\<close>
definition on_cfm_take :: "nat \<Rightarrow> txmm \<Rightarrow> nat option \<times> txmm" where
  "on_cfm_take p s =
     (let s = s\<lparr>nof_cfmed := u32_inc (nof_cfmed s)\<rparr> in
      if q_total (ques s MTLK_TXMMB_SENT) \<noteq> 0 then
        (case cfm_search (max_msgs s) (q_from (ques s MTLK_TXMMB_SENT)) p s of
           Some b \<Rightarrow> (Some b, snd (mtlk_txmm_del_buf_from_que MTLK_TXMMB_SENT b False s))
         | None \<Rightarrow> (None, s))
      else (None, s))"

text \<open>Second half: copy the confirmation payload back and call the user.\<close>
definition on_cfm_finish ::
    "(nat \<Rightarrow> txmm_block \<Rightarrow> txmm_clb_reason \<Rightarrow> txmm_clb_action) \<Rightarrow> nat \<Rightarrow> nat \<Rightarrow> nat
       \<Rightarrow> txmm \<Rightarrow> (bool \<times> txmm) option" where
  "on_cfm_finish user now b p s =
     mtlk_txmm_call_usr_clb_locked user now b MTLK_TXMM_CLBR_CONFIRMED
       (upd_block b (\<lambda>x. x\<lparr>b_payload := take (max_payload_size s) (slot_payload (hw_slots s p))\<rparr>) s)"

definition mtlk_txmm_on_cfm ::
    "(nat \<Rightarrow> txmm_block \<Rightarrow> txmm_clb_reason \<Rightarrow> txmm_clb_action) \<Rightarrow> nat \<Rightarrow> nat option
       \<Rightarrow> txmm \<Rightarrow> (mtlk_error \<times> txmm) option" where
  "mtlk_txmm_on_cfm user now pmsg s =
     (case pmsg of
        None \<Rightarrow> Some (MTLK_ERR_PARAMS, s)
      | Some p \<Rightarrow>
          (case on_cfm_take p s of
             (None, s1) \<Rightarrow> Some (MTLK_ERR_UNKNOWN, s1)
           | (Some b, s1) \<Rightarrow> map_option (\<lambda>(_, s2). (MTLK_ERR_OK, s2)) (on_cfm_finish user now b p s1)))"

definition mtlk_txmm_free :: "nat \<Rightarrow> txmm \<Rightarrow> txmm" where
  "mtlk_txmm_free b s =
     (case b_que (blocks s b) of
        MTLK_TXMMB_FREE \<Rightarrow> s
      | MTLK_TXMMB_QUEUED \<Rightarrow> mtlk_txmm_free_buf b True True s
      | MTLK_TXMMB_SENT \<Rightarrow> mtlk_txmm_free_buf b True False s
      | _ \<Rightarrow> mtlk_txmm_free_buf b False False s)"

definition mtlk_txmm_msg_cancel :: "nat \<Rightarrow> txmm \<Rightarrow> txmm" where
  "mtlk_txmm_msg_cancel m s =
     (case (m_obj (msgs s m), m_data (msgs s m)) of
        (Some _, Some b) \<Rightarrow>
          (let s1 = mtlk_txmm_free b s in s1\<lparr>msgs := (msgs s1)(m := \<lparr>m_data = None, m_obj = None\<rparr>)\<rparr>)
      | _ \<Rightarrow> s)"

definition block_expired :: "nat \<Rightarrow> txmm_block \<Rightarrow> bool" where
  "block_expired now x = (b_timeout x \<noteq> 0 \<and> b_clb x \<noteq> None
     \<and> b_timeout x \<le> mtlk_osal_ms_time_diff now (b_send_time x))"

text \<open>First loop of \<^verbatim>\<open>_mtlk_txmm_on_timer_que\<close>: \<^verbatim>\<open>while (i != que->to)\<close>, at most one tour of the ring.\<close>
fun timer_collect :: "nat \<Rightarrow> nat \<Rightarrow> txmm_block_e \<Rightarrow> bool \<Rightarrow> nat \<Rightarrow> txmm \<Rightarrow> nat \<times> txmm" where
  "timer_collect 0 now k preserve_order i s = (0, s)"
| "timer_collect (Suc f) now k preserve_order i s =
     (if i = q_to (ques s k) then (0, s)
      else
        (let b = q_ptr (ques s k) ! i;
             (n, s1) = (if block_expired now (blocks s b)
                        then (1, mtlk_txmm_put_buf MTLK_TXMMB_TIMED_OUT b
                                   (snd (mtlk_txmm_del_buf_from_que k b preserve_order s)))
                        else (0, s));
             (m, s2) = timer_collect f now k preserve_order (INC_WRAP_IDX i (max_msgs s)) s1
         in (n + m, s2)))"

text \<open>Second loop: every timed-out block is taken out, reported and given to the user's callback.\<close>
fun timer_report ::
    "nat \<Rightarrow> (nat \<Rightarrow> txmm_block \<Rightarrow> txmm_clb_reason \<Rightarrow> txmm_clb_action) \<Rightarrow> nat \<Rightarrow> txmm_clb_reason
       \<Rightarrow> txmm \<Rightarrow> txmm option" where
  "timer_report 0 user now reason s = Some s"
| "timer_report (Suc f) user now reason s =
     (if q_total (ques s MTLK_TXMMB_TIMED_OUT) = 0 then Some s
      else
        (let q = ques s MTLK_TXMMB_TIMED_OUT; b = q_ptr q ! q_from q;
             s1 = snd (mtlk_txmm_del_buf_from_que MTLK_TXMMB_TIMED_OUT b False s);
             s2 = tx_emit (Msg_timed_out (b_msg_id (blocks s1 b))) s1
         in case mtlk_txmm_call_usr_clb_locked user now b reason s2 of
              None \<Rightarrow> None
            | Some (_, s3) \<Rightarrow> timer_report f user now reason s3))"

definition mtlk_txmm_on_timer_que ::
    "(nat \<Rightarrow> txmm_block \<Rightarrow> txmm_clb_reason \<Rightarrow> txmm_clb_action) \<Rightarrow> nat \<Rightarrow> txmm_block_e
       \<Rightarrow> txmm_clb_reason \<Rightarrow> bool \<Rightarrow> txmm \<Rightarrow> (nat \<times> txmm) option" where
  "mtlk_txmm_on_timer_que user now k reason preserve_order s =
     (let (n, s1) = timer_collect (max_msgs s) now k preserve_order (q_from (ques s k)) s
      in map_option (Pair n) (timer_report (max_msgs s) user now reason s1))"

definition mtlk_txmm_on_timer ::
    "(nat \<Rightarrow> txmm_block \<Rightarrow> txmm_clb_reason \<Rightarrow> txmm_clb_action) \<Rightarrow> nat \<Rightarrow> txmm \<Rightarrow> txmm option" where
  "mtlk_txmm_on_timer user now s =
     (case mtlk_txmm_on_timer_que user now MTLK_TXMMB_SENT MTLK_TXMM_CLBR_TIMEOUT_SENT False s of
        None \<Rightarrow> None
      | Some (_, s1) \<Rightarrow>
          map_option snd
            (mtlk_txmm_on_timer_que user now MTLK_TXMMB_QUEUED MTLK_TXMM_CLBR_TIMEOUT_UNSENT True s1))"

definition mtlk_txmm_halt :: "txmm \<Rightarrow> txmm" where
  "mtlk_txmm_halt s = s\<lparr>tx_active := False\<rparr>"

definition mtlk_txmm_is_running :: "txmm \<Rightarrow> bool" where
  "mtlk_txmm_is_running s = tx_active s"

definition empty_que :: "nat \<Rightarrow> txmm_que" where
  "empty_que n = \<lparr>q_ptr = replicate n 0, q_from = 0, q_to = 0, q_total = 0\<rparr>"

text \<open>\<^verbatim>\<open>mtlk_txmm_init\<close> and \<^verbatim>\<open>mtlk_txmm_start\<close>: all blocks start in the free queue.\<close>
definition mtlk_txmm_init :: "nat \<Rightarrow> nat \<Rightarrow> nat list \<Rightarrow> txmm" where
  "mtlk_txmm_init n psize pool = \<lparr>max_payload_size = psize, max_msgs = n,
     ques = (\<lambda>k. if k = MTLK_TXMMB_FREE
                 then \<lparr>q_ptr = [0..<n], q_from = 0, q_to = 0, q_total = n\<rparr> else empty_que n),
     blocks = (\<lambda>i. (zero_block \<lparr>b_msg_id = 0, b_payload = replicate psize 0, b_payload_size = 0,
       b_slot = None, b_clb = None, b_que = MTLK_TXMMB_FREE, b_idx = i, b_send_time = 0,
       b_timeout = 0, b_msg = None, b_vap = 0\<rparr>)\<lparr>b_idx := i\<rparr>),
     msgs = (\<lambda>_. \<lparr>m_data = None, m_obj = None\<rparr>), hw_pool = pool,
     hw_slots = (\<lambda>_. \<lparr>slot_id = 0, slot_payload = replicate psize 0\<rparr>),
     nof_sent = 0, nof_cfmed = 0, used_peak = 0, tx_active = False, tx_log = []\<rparr>"

definition mtlk_txmm_start :: "txmm \<Rightarrow> txmm" where
  "mtlk_txmm_start s = s\<lparr>tx_active := True\<rparr>"

section \<open>The interface of a bounded FIFO\<close>

locale bounded_fifo =
  fixes put :: "'a \<Rightarrow> 'q \<Rightarrow> 'q"
    and get :: "'q \<Rightarrow> ('a \<times> 'q) option"
    and contents :: "'q \<Rightarrow> 'a list"
    and ok :: "'q \<Rightarrow> bool"
    and capacity :: nat
  assumes put: "ok q \<Longrightarrow> length (contents q) < capacity \<Longrightarrow> ok (put x q) \<and> contents (put x q) = contents q @ [x]"
    and get_empty: "ok q \<Longrightarrow> contents q = [] \<Longrightarrow> get q = None"
    and get_first: "ok q \<Longrightarrow> contents q = x # xs \<Longrightarrow> \<exists>q'. get q = Some (x, q') \<and> ok q' \<and> contents q' = xs"
begin

lemma put_all:
  assumes "ok q" "length (contents q) + length xs \<le> capacity"
  shows "ok (fold put xs q) \<and> contents (fold put xs q) = contents q @ xs"
  using assms
proof (induction xs arbitrary: q)
  case (Cons x xs)
  have "ok (put x q)" "contents (put x q) = contents q @ [x]"
    using put [of q x] Cons.prems by auto
  then show ?case
    using Cons.IH [of "put x q"] Cons.prems by auto
qed simp

lemma get_cases:
  assumes "ok q" "get q = Some (x, q')"
  shows "contents q = x # contents q' \<and> ok q'"
proof (cases "contents q")
  case Nil
  then show ?thesis using get_empty [OF assms(1)] assms(2) by simp
next
  case (Cons y ys)
  then show ?thesis using get_first [OF assms(1) Cons] assms(2) by auto
qed

end

text \<open>The contents of a ring of \<open>n\<close> entries, oldest first.\<close>
definition ring :: "nat \<Rightarrow> txmm_que \<Rightarrow> nat list" where
  "ring n q = map (\<lambda>i. q_ptr q ! ((q_from q + i) mod n)) [0..<q_total q]"

definition que_ok :: "nat \<Rightarrow> txmm_que \<Rightarrow> bool" where
  "que_ok n q = (length (q_ptr q) = n \<and> q_from q < n \<and> q_total q \<le> n
     \<and> q_to q = (q_from q + q_total q) mod n)"

lemma length_ring [simp]: "length (ring n q) = q_total q"
  by (simp add: ring_def)

lemma ring_nth: "i < q_total q \<Longrightarrow> ring n q ! i = q_ptr q ! ((q_from q + i) mod n)"
  by (simp add: ring_def)

lemma mod_offset_inj:
  fixes a :: nat
  assumes "i < n" "j < n" "(a + i) mod n = (a + j) mod n"
  shows "i = j"
proof -
  have *: "i = j" if "i \<le> j" "i < n" "j < n" "(a + i) mod n = (a + j) mod n" for i j
    using that mod_eq_dvd_iff_nat [of "a + i" "a + j" n] by (auto dest: dvd_imp_le)
  show ?thesis using * [of i j] * [of j i] assms by (cases i j rule: le_cases) auto
qed

lemma ring_put:
  assumes "que_ok n q" "q_total q < n"
  shows "que_ok n (que_put n b q)" "ring n (que_put n b q) = ring n q @ [b]"
proof -
  have to: "q_to q = (q_from q + q_total q) mod n" "q_to q < n" "length (q_ptr q) = n"
    using assms by (auto simp: que_ok_def)
  have "INC_WRAP_IDX (q_to q) n = (q_from q + (q_total q + 1)) mod n"
    using INC_WRAP_IDX_mod [OF to(2)] to(1) by (simp add: mod_Suc_eq)
  then show "que_ok n (que_put n b q)"
    using assms by (simp add: que_ok_def que_put_def)
  have "q_to q \<noteq> (q_from q + i) mod n" if "i < q_total q" for i
    using mod_offset_inj [of i n "q_total q" "q_from q"] that assms(2) to(1) by auto
  then show "ring n (que_put n b q) = ring n q @ [b]"
    using to by (auto simp: ring_def que_put_def)
qed

lemma ring_get:
  assumes "que_ok n q" "ring n q = x # xs"
  shows "que_get n q = Some (x, q\<lparr>q_from := INC_WRAP_IDX (q_from q) n, q_total := q_total q - 1\<rparr>)"
    "que_ok n (q\<lparr>q_from := INC_WRAP_IDX (q_from q) n, q_total := q_total q - 1\<rparr>)"
    "ring n (q\<lparr>q_from := INC_WRAP_IDX (q_from q) n, q_total := q_total q - 1\<rparr>) = xs"
proof -
  have tot: "q_total q = Suc (length xs)"
    using arg_cong [OF assms(2), of length] by simp
  have from': "INC_WRAP_IDX (q_from q) n = (q_from q + 1) mod n"
    using assms(1) by (intro INC_WRAP_IDX_mod) (simp add: que_ok_def)
  have "x = q_ptr q ! q_from q"
    using ring_nth [of 0 q n] tot assms by (simp add: que_ok_def)
  then show "que_get n q = Some (x, q\<lparr>q_from := INC_WRAP_IDX (q_from q) n, q_total := q_total q - 1\<rparr>)"
    using tot by (simp add: que_get_def)
  show "que_ok n (q\<lparr>q_from := INC_WRAP_IDX (q_from q) n, q_total := q_total q - 1\<rparr>)"
    using assms(1) tot from' by (auto simp: que_ok_def mod_add_left_eq)
  show "ring n (q\<lparr>q_from := INC_WRAP_IDX (q_from q) n, q_total := q_total q - 1\<rparr>) = xs"
  proof (rule nth_equalityI)
    fix i assume "i < length (ring n (q\<lparr>q_from := INC_WRAP_IDX (q_from q) n, q_total := q_total q - 1\<rparr>))"
    then have i: "i < length xs" using tot by simp
    then have "xs ! i = ring n q ! Suc i" using assms(2) by simp
    also have "\<dots> = q_ptr q ! ((q_from q + Suc i) mod n)"
      using ring_nth [of "Suc i" q n] i tot by simp
    finally show "ring n (q\<lparr>q_from := INC_WRAP_IDX (q_from q) n, q_total := q_total q - 1\<rparr>) ! i = xs ! i"
      using i tot from' by (simp add: ring_def mod_add_left_eq)
  qed (use tot in simp)
qed

interpretation ring_fifo: bounded_fifo "que_put n" "que_get n" "ring n" "que_ok n" n
proof (unfold_locales, goal_cases)
  case (1 q x)
  then show ?case using ring_put [of n q x] by simp
next
  case (2 q)
  then have "q_total q = 0" using length_ring [of n q] by simp
  then show ?case by (simp add: que_get_def)
next
  case (3 q x xs)
  then show ?case using ring_get [OF 3] by blast
qed

section \<open>Invariant\<close>

text \<open>
  Every entry of a queue knows its queue and its index; \<open>X\<close> is the set of blocks in transit, which are in
  no queue whatever their header says.
\<close>
definition que_inv :: "txmm \<Rightarrow> txmm_block_e \<Rightarrow> bool" where
  "que_inv s k = (que_ok (max_msgs s) (ques s k) \<and>
     (\<forall>i < q_total (ques s k).
        (let j = (q_from (ques s k) + i) mod max_msgs s; b = q_ptr (ques s k) ! j
         in b < max_msgs s \<and> b_que (blocks s b) = k \<and> b_idx (blocks s b) = j)))"

definition in_que :: "txmm \<Rightarrow> txmm_block_e \<Rightarrow> nat \<Rightarrow> bool" where
  "in_que s k b = (b \<in> set (ring (max_msgs s) (ques s k)))"

definition txmm_inv :: "nat set \<Rightarrow> txmm \<Rightarrow> bool" where
  "txmm_inv X s = ((\<forall>k. k \<noteq> MTLK_TXMMB_NONE \<longrightarrow> que_inv s k)
     \<and> (\<forall>b \<in> X. \<forall>k. k \<noteq> MTLK_TXMMB_NONE \<longrightarrow> \<not> in_que s k b)
     \<and> (\<forall>b < max_msgs s. b \<notin> X \<longrightarrow> b_que (blocks s b) \<noteq> MTLK_TXMMB_NONE
           \<longrightarrow> in_que s (b_que (blocks s b)) b))"

lemma que_invD:
  assumes "que_inv s k" "i < q_total (ques s k)"
  shows "ring (max_msgs s) (ques s k) ! i < max_msgs s"
    "b_que (blocks s (ring (max_msgs s) (ques s k) ! i)) = k"
    "b_idx (blocks s (ring (max_msgs s) (ques s k) ! i)) = (q_from (ques s k) + i) mod max_msgs s"
  using assms by (auto simp: que_inv_def Let_def ring_nth)

lemma que_inv_iff:
  "que_inv s k \<longleftrightarrow> que_ok (max_msgs s) (ques s k) \<and>
     (\<forall>i < q_total (ques s k). ring (max_msgs s) (ques s k) ! i < max_msgs s
        \<and> b_que (blocks s (ring (max_msgs s) (ques s k) ! i)) = k
        \<and> b_idx (blocks s (ring (max_msgs s) (ques s k) ! i)) = (q_from (ques s k) + i) mod max_msgs s)"
  by (simp add: que_inv_def Let_def ring_nth)

lemma in_queE:
  assumes "in_que s k b"
  obtains i where "i < q_total (ques s k)" "ring (max_msgs s) (ques s k) ! i = b"
  using assms by (auto simp: in_que_def in_set_conv_nth)

lemma in_que_blocks:
  assumes "que_inv s k" "in_que s k b"
  shows "b < max_msgs s" "b_que (blocks s b) = k"
    "q_ptr (ques s k) ! b_idx (blocks s b) = b" "b_idx (blocks s b) < max_msgs s"
proof -
  obtain i where i: "i < q_total (ques s k)" "ring (max_msgs s) (ques s k) ! i = b"
    using assms(2) by (rule in_queE)
  show "b < max_msgs s" "b_que (blocks s b) = k"
    using que_invD [OF assms(1) i(1)] i(2) by auto
  have idx: "b_idx (blocks s b) = (q_from (ques s k) + i) mod max_msgs s"
    using que_invD(3) [OF assms(1) i(1)] i(2) by simp
  show "q_ptr (ques s k) ! b_idx (blocks s b) = b"
    using idx i ring_nth [OF i(1), of "max_msgs s"] by simp
  show "b_idx (blocks s b) < max_msgs s"
    using idx assms(1) by (auto simp: que_inv_def que_ok_def)
qed

lemma distinct_ring:
  assumes "que_inv s k"
  shows "distinct (ring (max_msgs s) (ques s k))"
proof (rule distinct_conv_nth [THEN iffD2], intro allI impI)
  let ?r = "ring (max_msgs s) (ques s k)"
  fix i j assume ij: "i < length ?r" "j < length ?r" "i \<noteq> j"
  then have lt: "i < q_total (ques s k)" "j < q_total (ques s k)" by auto
  have "q_total (ques s k) \<le> max_msgs s"
    using assms by (auto simp: que_inv_def que_ok_def)
  then have "(q_from (ques s k) + i) mod max_msgs s \<noteq> (q_from (ques s k) + j) mod max_msgs s"
    using mod_offset_inj [of i "max_msgs s" j "q_from (ques s k)"] lt ij(3) by auto
  then show "?r ! i \<noteq> ?r ! j"
    using que_invD(3) [OF assms lt(1)] que_invD(3) [OF assms lt(2)] by metis
qed

lemma que_not_full:
  assumes "que_inv s k" "\<not> in_que s k b" "b < max_msgs s"
  shows "q_total (ques s k) < max_msgs s"
proof -
  let ?r = "ring (max_msgs s) (ques s k)"
  have "set ?r \<subseteq> {..<max_msgs s} - {b}"
    using assms in_que_blocks(1) [OF assms(1)] by (auto simp: in_que_def)
  then have "card (set ?r) \<le> card ({..<max_msgs s} - {b})"
    by (intro card_mono) auto
  then have "q_total (ques s k) \<le> max_msgs s - 1"
    using distinct_card [OF distinct_ring [OF assms(1)]] assms(3) by simp
  then show ?thesis using assms(3) by simp
qed

lemma txmm_inv_que: "txmm_inv X s \<Longrightarrow> k \<noteq> MTLK_TXMMB_NONE \<Longrightarrow> que_inv s k"
  by (simp add: txmm_inv_def)

lemma txmm_invI:
  assumes "que_inv s k" "\<And>k'. k' \<noteq> k \<Longrightarrow> k' \<noteq> MTLK_TXMMB_NONE \<Longrightarrow> que_inv s k'"
    and "\<And>b k'. b \<in> X \<Longrightarrow> k' \<noteq> MTLK_TXMMB_NONE \<Longrightarrow> \<not> in_que s k' b"
    and "\<And>c. c < max_msgs s \<Longrightarrow> c \<notin> X \<Longrightarrow> b_que (blocks s c) \<noteq> MTLK_TXMMB_NONE
           \<Longrightarrow> in_que s (b_que (blocks s c)) c"
  shows "txmm_inv X s"
proof -
  have "que_inv s k'" if "k' \<noteq> MTLK_TXMMB_NONE" for k'
    using assms(1,2) that by (cases "k' = k") auto
  then show ?thesis
    using assms(3,4) by (simp add: txmm_inv_def)
qed

text \<open>A block in the user's hands is in no queue, so it can be put into transit and back.\<close>
lemma txmm_inv_none:
  assumes "b_que (blocks s b) = MTLK_TXMMB_NONE"
  shows "txmm_inv {} s \<longleftrightarrow> txmm_inv {b} s"
  using assms in_que_blocks(2) [of s _ b] by (auto simp: txmm_inv_def)

lemma blocks_upd_block [simp]:
  "blocks (upd_block b f s) = (blocks s)(b := f (blocks s b))" "ques (upd_block b f s) = ques s"
  "max_msgs (upd_block b f s) = max_msgs s" "msgs (upd_block b f s) = msgs s"
  by (simp_all add: upd_block_def)

lemma ques_upd_que [simp]:
  "ques (upd_que k f s) = (ques s)(k := f (ques s k))" "blocks (upd_que k f s) = blocks s"
  "max_msgs (upd_que k f s) = max_msgs s" "msgs (upd_que k f s) = msgs s"
  by (simp_all add: upd_que_def)

lemma in_que_upd_block [simp]: "in_que (upd_block b f s) k c = in_que s k c"
  by (simp add: in_que_def)

lemma txmm_inv_upd_block [wave_inv]:
  assumes "txmm_inv X s" "b \<in> X"
  shows "txmm_inv X (upd_block b f s)"
proof -
  have "que_inv (upd_block b f s) k" if "k \<noteq> MTLK_TXMMB_NONE" for k
  proof -
    have "ring (max_msgs s) (ques s k) ! i \<noteq> b" if "i < q_total (ques s k)" for i
      using assms \<open>k \<noteq> MTLK_TXMMB_NONE\<close> that by (auto simp: txmm_inv_def in_que_def set_conv_nth)
    then show ?thesis
      using txmm_inv_que [OF assms(1) that] by (auto simp: que_inv_iff)
  qed
  then show ?thesis
    using assms by (auto simp: txmm_inv_def)
qed

text \<open>Fields that the invariant does not read.\<close>
lemma txmm_inv_cong:
  assumes "ques s' = ques s" "blocks s' = blocks s" "max_msgs s' = max_msgs s"
  shows "txmm_inv X s' = txmm_inv X s"
  using assms by (simp add: txmm_inv_def que_inv_def in_que_def)

lemma get_buf_inv:
  assumes "txmm_inv {} s" "mtlk_txmm_get_buf k s = Some (b, s')"
  shows "txmm_inv {b} s'" "b < max_msgs s" "b_que (blocks s b) = k" "k \<noteq> MTLK_TXMMB_NONE"
    "blocks s' = blocks s" "msgs s' = msgs s" "max_msgs s' = max_msgs s"
    "ring (max_msgs s) (ques s k) = b # ring (max_msgs s) (ques s' k)"
    "\<And>k'. k' \<noteq> k \<Longrightarrow> ques s' k' = ques s k'"
proof -
  let ?n = "max_msgs s"
  obtain q where q: "que_get ?n (ques s k) = Some (b, q)" "s' = upd_que k (\<lambda>_. q) s"
    and k: "k \<noteq> MTLK_TXMMB_NONE"
    using assms(2) by (auto simp: mtlk_txmm_get_buf_def split: if_splits option.splits)
  have inv: "que_inv s k"
    using txmm_inv_que [OF assms(1) k] .
  have r: "ring ?n (ques s k) = b # ring ?n q" "que_ok ?n q"
    using ring_fifo.get_cases [OF _ q(1)] inv by (auto simp: que_inv_def)
  have q': "q = (ques s k)\<lparr>q_from := INC_WRAP_IDX (q_from (ques s k)) ?n, q_total := q_total (ques s k) - 1\<rparr>"
    using q(1) by (auto simp: que_get_def split: if_splits)
  have tot: "q_total (ques s k) = Suc (q_total q)"
    using arg_cong [OF r(1), of length] by simp
  have b: "in_que s k b"
    using r(1) by (simp add: in_que_def)
  show "b < max_msgs s" "b_que (blocks s b) = k" "k \<noteq> MTLK_TXMMB_NONE"
    using in_que_blocks [OF inv b] k by auto
  have from': "INC_WRAP_IDX (q_from (ques s k)) ?n = (q_from (ques s k) + 1) mod ?n"
    using inv by (intro INC_WRAP_IDX_mod) (simp add: que_inv_def que_ok_def)
  have "que_inv s' k"
    unfolding que_inv_iff
  proof (intro conjI allI impI)
    fix i assume "i < q_total (ques s' k)"
    then have i: "Suc i < q_total (ques s k)" "ring ?n q ! i = ring ?n (ques s k) ! Suc i"
      using tot r(1) q(2) by auto
    note D = que_invD [OF inv i(1)]
    show "ring (max_msgs s') (ques s' k) ! i < max_msgs s'"
      "b_que (blocks s' (ring (max_msgs s') (ques s' k) ! i)) = k"
      using D i(2) q(2) by auto
    show "b_idx (blocks s' (ring (max_msgs s') (ques s' k) ! i)) = (q_from (ques s' k) + i) mod max_msgs s'"
      using D(3) i(2) q(2) q' from' by (simp add: mod_Suc_eq mod_add_left_eq)
  qed (use r(2) q(2) in simp)
  moreover have "que_inv s' k'" if "k' \<noteq> k" "k' \<noteq> MTLK_TXMMB_NONE" for k'
    using txmm_inv_que [OF assms(1) that(2)] that(1) q(2) by (simp add: que_inv_def)
  moreover have "\<not> in_que s' k' b" if "k' \<noteq> MTLK_TXMMB_NONE" for k'
  proof (cases "k' = k")
    case True
    then show ?thesis
      using distinct_ring [OF inv] r(1) q(2) by (simp add: in_que_def)
  next
    case False
    then show ?thesis
      using in_que_blocks(2) [OF txmm_inv_que [OF assms(1) that]] in_que_blocks(2) [OF inv b] q(2)
      by (auto simp: in_que_def)
  qed
  moreover have "in_que s' (b_que (blocks s' c)) c"
    if "c < max_msgs s'" "c \<notin> {b}" "b_que (blocks s' c) \<noteq> MTLK_TXMMB_NONE" for c
    using assms(1) that q(2) r(1) by (auto simp: txmm_inv_def in_que_def)
  ultimately show "txmm_inv {b} s'"
    by (intro txmm_invI [of s' k]) auto
  show "blocks s' = blocks s" "msgs s' = msgs s" "max_msgs s' = max_msgs s"
    "ring (max_msgs s) (ques s k) = b # ring (max_msgs s) (ques s' k)"
    "\<And>k'. k' \<noteq> k \<Longrightarrow> ques s' k' = ques s k'"
    using q(2) r(1) by auto
qed

lemma put_buf_inv:
  assumes "txmm_inv {b} s" "b < max_msgs s" "k \<noteq> MTLK_TXMMB_NONE"
  shows "txmm_inv {} (mtlk_txmm_put_buf k b s)"
    "ring (max_msgs s) (ques (mtlk_txmm_put_buf k b s) k) = ring (max_msgs s) (ques s k) @ [b]"
proof -
  let ?n = "max_msgs s" and ?s = "mtlk_txmm_put_buf k b s"
  have inv: "que_inv s k" and out: "\<not> in_que s k b"
    using assms by (auto simp: txmm_inv_def)
  have nf: "q_total (ques s k) < ?n"
    using que_not_full [OF inv out assms(2)] .
  have ok: "que_ok ?n (ques s k)" using inv by (simp add: que_inv_def)
  note R = ring_put [OF ok nf, of b]
  have s: "?s = upd_que k (que_put ?n b) (upd_block b (\<lambda>x. x\<lparr>b_que := k, b_idx := q_to (ques s k)\<rparr>) s)"
    using assms(3) by (simp add: mtlk_txmm_put_buf_def)
  then show r: "ring ?n (ques ?s k) = ring ?n (ques s k) @ [b]"
    using R(2) by simp
  have "que_inv ?s k"
    unfolding que_inv_iff
  proof (intro conjI allI impI)
    fix i assume "i < q_total (ques ?s k)"
    then consider "i < q_total (ques s k)" | "i = q_total (ques s k)"
      using s by (auto simp: que_put_def less_Suc_eq)
    then have "ring ?n (ques ?s k) ! i < ?n \<and> b_que (blocks ?s (ring ?n (ques ?s k) ! i)) = k
        \<and> b_idx (blocks ?s (ring ?n (ques ?s k) ! i)) = (q_from (ques s k) + i) mod ?n"
    proof cases
      case 1
      have "ring ?n (ques s k) ! i \<noteq> b"
        using out 1 by (auto simp: in_que_def set_conv_nth)
      then show ?thesis
        using que_invD [OF inv 1] r 1 s by (simp add: nth_append)
    next
      case 2
      then show ?thesis
        using r s assms(2) ok by (simp add: nth_append que_ok_def)
    qed
    then show "ring (max_msgs ?s) (ques ?s k) ! i < max_msgs ?s"
      "b_que (blocks ?s (ring (max_msgs ?s) (ques ?s k) ! i)) = k"
      "b_idx (blocks ?s (ring (max_msgs ?s) (ques ?s k) ! i)) = (q_from (ques ?s k) + i) mod max_msgs ?s"
      using s by (simp_all add: que_put_def)
  qed (use R(1) s in simp)
  moreover have "que_inv ?s k'" if "k' \<noteq> k" "k' \<noteq> MTLK_TXMMB_NONE" for k'
  proof -
    have "ring ?n (ques s k') ! i \<noteq> b" if "i < q_total (ques s k')" for i
      using assms(1) \<open>k' \<noteq> MTLK_TXMMB_NONE\<close> that by (auto simp: txmm_inv_def in_que_def set_conv_nth)
    then show ?thesis
      using txmm_inv_que [OF assms(1) that(2)] that(1) s by (auto simp: que_inv_iff)
  qed
  moreover have "in_que ?s (b_que (blocks ?s c)) c"
    if "c < max_msgs ?s" "b_que (blocks ?s c) \<noteq> MTLK_TXMMB_NONE" for c
  proof (cases "c = b")
    case True
    then show ?thesis using r s by (simp add: in_que_def)
  next
    case False
    then have "in_que s (b_que (blocks s c)) c"
      using assms(1) that s by (auto simp: txmm_inv_def)
    then show ?thesis
      using False r s by (auto simp: in_que_def)
  qed
  ultimately show "txmm_inv {} ?s"
    by (intro txmm_invI [of ?s k]) auto
qed

subsection \<open>Deletion from the middle of a ring\<close>

text \<open>
  The common end of the deletion: the entries have been rearranged so that the ring without its
  first position holds all entries but \<open>b\<close>, each with its new index.
\<close>
lemma del_finish:
  assumes inv: "txmm_inv {} s" and k: "k \<noteq> MTLK_TXMMB_NONE" and b: "in_que s k b"
    and q1: "ques s1 = (ques s)(k := (ques s k)\<lparr>q_ptr := p'\<rparr>)" "length p' = max_msgs s"
      "max_msgs s1 = max_msgs s"
    and bl: "\<And>y. b_que (blocks s1 y) = b_que (blocks s y)"
      "\<And>y. \<not> in_que s k y \<Longrightarrow> blocks s1 y = blocks s y"
    and r': "r' = map (\<lambda>i. p' ! ((q_from (ques s k) + 1 + i) mod max_msgs s)) [0..<q_total (ques s k) - 1]"
      "set r' = set (ring (max_msgs s) (ques s k)) - {b}"
      "\<And>i. i < q_total (ques s k) - 1 \<Longrightarrow>
         b_idx (blocks s1 (r' ! i)) = (q_from (ques s k) + 1 + i) mod max_msgs s"
    and s': "s' = upd_block b (\<lambda>x. x\<lparr>b_que := MTLK_TXMMB_NONE\<rparr>)
       (upd_que k (\<lambda>q. q\<lparr>q_from := INC_WRAP_IDX (q_from q) (max_msgs s), q_total := q_total q - 1\<rparr>) s1)"
  shows "txmm_inv {} s'" "ring (max_msgs s) (ques s' k) = r'" "b_que (blocks s' b) = MTLK_TXMMB_NONE"
proof -
  let ?n = "max_msgs s" and ?q = "ques s k"
  have qi: "que_inv s k" using txmm_inv_que [OF inv k] .
  have ok: "que_ok ?n ?q" using qi by (simp add: que_inv_def)
  have from': "INC_WRAP_IDX (q_from ?q) ?n = (q_from ?q + 1) mod ?n"
    using ok by (intro INC_WRAP_IDX_mod) (simp add: que_ok_def)
  have tot: "0 < q_total ?q" using b by (auto elim: in_queE)
  show ring': "ring ?n (ques s' k) = r'"
    unfolding r'(1) using q1(1) s' from' by (simp add: ring_def mod_add_left_eq)
  have bx: "c \<noteq> b" if "c \<in> set r'" for c using that r'(2) by auto
  have "que_inv s' k"
    unfolding que_inv_iff
  proof (intro conjI allI impI)
    show "que_ok (max_msgs s') (ques s' k)"
    proof -
      obtain m where "q_total ?q = Suc m" using tot by (cases "q_total ?q") auto
      then show ?thesis
        using ok from' q1 s' by (simp add: que_ok_def mod_add_left_eq)
    qed
    fix i assume "i < q_total (ques s' k)"
    then have i: "i < q_total ?q - 1" "r' ! i \<in> set r'"
      using q1(1) s' r'(1) by auto
    then have m: "in_que s k (r' ! i)" "r' ! i \<noteq> b" using r'(2) by (auto simp: in_que_def)
    have eq: "ring (max_msgs s') (ques s' k) = r'" "max_msgs s' = ?n"
      using ring' s' q1(3) by auto
    show "ring (max_msgs s') (ques s' k) ! i < max_msgs s'"
      "b_que (blocks s' (ring (max_msgs s') (ques s' k) ! i)) = k"
      using in_que_blocks(1,2) [OF qi m(1)] eq m(2) bl(1) s' by auto
    show "b_idx (blocks s' (ring (max_msgs s') (ques s' k) ! i)) = (q_from (ques s' k) + i) mod max_msgs s'"
      using r'(3) [OF i(1)] eq m(2) s' q1(1) from' by (simp add: mod_add_left_eq)
  qed
  moreover have "que_inv s' k'" if "k' \<noteq> k" "k' \<noteq> MTLK_TXMMB_NONE" for k'
  proof -
    have "blocks s' (ring ?n (ques s k') ! i) = blocks s (ring ?n (ques s k') ! i)"
      if "i < q_total (ques s k')" for i
    proof -
      have "in_que s k' (ring ?n (ques s k') ! i)"
        using that by (auto simp: in_que_def)
      then have "b_que (blocks s (ring ?n (ques s k') ! i)) = k'"
        using in_que_blocks(2) [OF txmm_inv_que [OF inv \<open>k' \<noteq> MTLK_TXMMB_NONE\<close>]] by blast
      then have "\<not> in_que s k (ring ?n (ques s k') ! i)"
        using in_que_blocks(2) [OF qi] \<open>k' \<noteq> k\<close> by metis
      then show ?thesis using bl(2) b s' by auto
    qed
    then show ?thesis
      using txmm_inv_que [OF inv that(2)] that(1) q1 s' by (auto simp: que_inv_iff)
  qed
  moreover have "in_que s' (b_que (blocks s' c)) c"
    if "c < max_msgs s'" "b_que (blocks s' c) \<noteq> MTLK_TXMMB_NONE" for c
  proof -
    have c: "c \<noteq> b" "b_que (blocks s' c) = b_que (blocks s c)"
      using that(2) s' bl(1) by (auto split: if_splits)
    then have "in_que s (b_que (blocks s c)) c"
      using inv that s' q1(3) by (auto simp: txmm_inv_def)
    then show ?thesis
      using c r'(2) ring' q1 s' by (cases "b_que (blocks s c) = k") (auto simp: in_que_def)
  qed
  ultimately show "txmm_inv {} s'"
    by (intro txmm_invI [of s' k]) auto
  show "b_que (blocks s' b) = MTLK_TXMMB_NONE"
    using s' by simp
qed

lemma upt_nth_set: "set (map f [0..<n]) = f ` {..<n}"
  by (auto simp: image_def)

definition same_but_idx :: "txmm_block \<Rightarrow> txmm_block \<Rightarrow> bool" where
  "same_but_idx x y = (\<exists>v. x = y\<lparr>b_idx := v\<rparr>)"

lemma same_but_idx_refl [simp]: "same_but_idx x x"
  by (metis same_but_idx_def txmm_block.surjective txmm_block.update_convs(7))

lemma same_but_idx_upd [simp]: "same_but_idx (x\<lparr>b_idx := v\<rparr>) x"
  by (auto simp: same_but_idx_def)

lemma same_but_idx_trans: "same_but_idx x y \<Longrightarrow> same_but_idx y z \<Longrightarrow> same_but_idx x z"
  by (auto simp: same_but_idx_def)

lemma same_but_idxD:
  assumes "same_but_idx x y"
  shows "b_que x = b_que y" "b_msg x = b_msg y" "b_clb x = b_clb y" "b_timeout x = b_timeout y"
    "b_send_time x = b_send_time y" "b_slot x = b_slot y" "b_msg_id x = b_msg_id y"
  using assms by (auto simp: same_but_idx_def)

text \<open>The shift loop moves the \<open>j\<close> entries before position \<open>from + j\<close> one place to the right.\<close>
lemma shift_loop_effect:
  assumes "0 < j" "j < max_msgs s" "j \<le> f"
    and "length (q_ptr (ques s k)) = max_msgs s" "q_from (ques s k) < max_msgs s"
    and "inj_on (\<lambda>t. q_ptr (ques s k) ! ((q_from (ques s k) + t) mod max_msgs s)) {..j}"
  shows "\<exists>p' bl'. shift_loop f k ((q_from (ques s k) + j) mod max_msgs s) s
      = s\<lparr>ques := (ques s)(k := (ques s k)\<lparr>q_ptr := p'\<rparr>), blocks := bl'\<rparr>
    \<and> length p' = max_msgs s
    \<and> (\<forall>t. 0 < t \<longrightarrow> t \<le> j \<longrightarrow> p' ! ((q_from (ques s k) + t) mod max_msgs s)
          = q_ptr (ques s k) ! ((q_from (ques s k) + (t - 1)) mod max_msgs s))
    \<and> (\<forall>t < max_msgs s. j < t \<or> t = 0 \<longrightarrow> p' ! ((q_from (ques s k) + t) mod max_msgs s)
          = q_ptr (ques s k) ! ((q_from (ques s k) + t) mod max_msgs s))
    \<and> (\<forall>t < j. b_idx (bl' (q_ptr (ques s k) ! ((q_from (ques s k) + t) mod max_msgs s)))
          = (q_from (ques s k) + t + 1) mod max_msgs s)
    \<and> (\<forall>y. (\<forall>t < j. y \<noteq> q_ptr (ques s k) ! ((q_from (ques s k) + t) mod max_msgs s)) \<longrightarrow> bl' y = blocks s y)
    \<and> (\<forall>y. same_but_idx (bl' y) (blocks s y))"
  using assms
proof (induction f arbitrary: j s)
  case (Suc f)
  define n where "n = max_msgs s"
  define a where "a = q_from (ques s k)"
  define p where "p = q_ptr (ques s k)"
  define i where "i = (a + j) mod n"
  define prev where "prev = (a + (j - 1)) mod n"
  define s' where "s' = move_entry k i (p ! prev) s"
  define P where "P = p[i := p ! prev]"
  have n: "0 < n" "j < n" "a < n" "length p = n"
    using Suc.prems by (auto simp: n_def a_def p_def)
  have prev: "prev_idx n i = prev"
  proof -
    have "i = (prev + 1) mod n"
      using Suc.prems(1) by (simp add: i_def prev_def mod_Suc_eq)
    moreover have "prev < n" using n by (simp add: prev_def)
    ultimately show ?thesis
      using n by (cases "prev + 1 = n") (auto simp: prev_idx_def)
  qed
  have pos: "(a + t) mod n = (a + u) mod n \<longleftrightarrow> t = u" if "t < n" "u < n" for t u
    using mod_offset_inj [OF that] by auto
  have ilt: "i < length p" using n by (simp add: i_def)
  have s'q: "ques s' = (ques s)(k := (ques s k)\<lparr>q_ptr := P\<rparr>)"
    "blocks s' = (blocks s)(p ! prev := (blocks s (p ! prev))\<lparr>b_idx := i\<rparr>)" "max_msgs s' = n"
    "s' = s\<lparr>ques := ques s', blocks := blocks s'\<rparr>"
    by (simp_all add: s'_def move_entry_def P_def p_def n_def upd_block_def upd_que_def)
  have Pnth: "P ! ((a + t) mod n) = (if t = j then p ! prev else p ! ((a + t) mod n))" if "t < n" for t
    using pos [OF n(2) that] ilt by (auto simp: P_def i_def nth_list_update)
  have stop: "prev = a \<longleftrightarrow> j = 1"
    using pos [of "j - 1" 0] n Suc.prems(1) by (simp add: prev_def) linarith
  have step: "shift_loop (Suc f) k i s = (if prev = a then s' else shift_loop f k prev s')"
    using prev by (simp add: s'_def n_def a_def p_def Let_def)
  show ?case
  proof (cases "j = 1")
    case True
    then have pa: "prev = a" "p ! prev = p ! (a mod n)" using stop n by auto
    have eq: "shift_loop (Suc f) k i s = s\<lparr>ques := (ques s)(k := (ques s k)\<lparr>q_ptr := P\<rparr>), blocks := blocks s'\<rparr>"
      using step pa s'q by simp
    have "length P = n" using n by (simp add: P_def)
    moreover have "P ! ((a + t) mod n) = p ! ((a + (t - 1)) mod n)" if "0 < t" "t \<le> j" for t
      using Pnth [of t] that True n pa by auto
    moreover have "P ! ((a + t) mod n) = p ! ((a + t) mod n)" if "t < n" "j < t \<or> t = 0" for t
      using Pnth [of t] that True by auto
    moreover have "b_idx (blocks s' (p ! ((a + t) mod n))) = (a + t + 1) mod n" if "t < j" for t
      using that True pa s'q by (simp add: i_def)
    moreover have "blocks s' y = blocks s y" if "\<forall>t < j. y \<noteq> p ! ((a + t) mod n)" for y
      using that True pa s'q by auto
    moreover have "same_but_idx (blocks s' y) (blocks s y)" for y
      by (simp add: s'q(2))
    ultimately show ?thesis
      unfolding n_def [symmetric] a_def [symmetric] p_def [symmetric] i_def [symmetric]
      using eq by blast
  next
    case False
    then have j: "0 < j - 1" "j - 1 < n" "j - 1 \<le> f" using Suc.prems n by auto
    have inj': "inj_on (\<lambda>t. P ! ((a + t) mod n)) {..j - 1}"
    proof -
      have "P ! ((a + t) mod n) = p ! ((a + t) mod n)" if "t \<le> j - 1" for t
        using Pnth [of t] that j n by auto
      then show ?thesis
        using Suc.prems(6) j unfolding n_def [symmetric] a_def [symmetric] p_def [symmetric]
        by (auto simp: inj_on_def)
    qed
    have q': "q_from (ques s' k) = a" "q_ptr (ques s' k) = P" "max_msgs s' = n" "length P = n"
      using s'q n by (auto simp: a_def P_def)
    note IH0 = Suc.IH [of "j - 1" s', unfolded q'(1-3)]
    obtain p' bl' where IH: "shift_loop f k prev s' = s'\<lparr>ques := (ques s')(k := (ques s' k)\<lparr>q_ptr := p'\<rparr>), blocks := bl'\<rparr>"
      "length p' = n"
      "\<forall>t. 0 < t \<longrightarrow> t \<le> j - 1 \<longrightarrow> p' ! ((a + t) mod n) = P ! ((a + (t - 1)) mod n)"
      "\<forall>t < n. j - 1 < t \<or> t = 0 \<longrightarrow> p' ! ((a + t) mod n) = P ! ((a + t) mod n)"
      "\<forall>t < j - 1. b_idx (bl' (P ! ((a + t) mod n))) = (a + t + 1) mod n"
      "\<forall>y. (\<forall>t < j - 1. y \<noteq> P ! ((a + t) mod n)) \<longrightarrow> bl' y = blocks s' y"
      "\<forall>y. same_but_idx (bl' y) (blocks s' y)"
      using IH0 [OF j q'(4) n(3) inj'] unfolding prev_def by blast
    have eq: "shift_loop (Suc f) k i s = s\<lparr>ques := (ques s)(k := (ques s k)\<lparr>q_ptr := p'\<rparr>), blocks := bl'\<rparr>"
      using step stop False IH(1) s'q by simp
    have c1: "p' ! ((a + t) mod n) = p ! ((a + (t - 1)) mod n)" if "0 < t" "t \<le> j" for t
    proof (cases "t = j")
      case True
      then show ?thesis using IH(4) Pnth [of j] n j by (simp add: prev_def)
    next
      case False
      then show ?thesis using IH(3) Pnth [of "t - 1"] that n by auto
    qed
    have c2: "p' ! ((a + t) mod n) = p ! ((a + t) mod n)" if "t < n" "j < t \<or> t = 0" for t
      using IH(4) Pnth [of t] that j by auto
    have dist: "p ! ((a + t) mod n) \<noteq> p ! prev" if "t < j - 1" for t
      using Suc.prems(6) that j unfolding n_def [symmetric] a_def [symmetric] p_def [symmetric] prev_def
      by (auto dest!: inj_onD [where x = t and y = "j - 1"])
    have c3: "b_idx (bl' (p ! ((a + t) mod n))) = (a + t + 1) mod n" if "t < j" for t
    proof (cases "t = j - 1")
      case True
      have "\<forall>u < j - 1. p ! prev \<noteq> P ! ((a + u) mod n)"
      proof (intro allI impI)
        fix u assume u: "u < j - 1"
        have "P ! ((a + u) mod n) = p ! ((a + u) mod n)"
          using Pnth [of u] u j by auto
        then show "p ! prev \<noteq> P ! ((a + u) mod n)" using dist [OF u] by metis
      qed
      then have "bl' (p ! prev) = blocks s' (p ! prev)" using IH(6) by blast
      then show ?thesis using True j s'q by (simp add: prev_def i_def)
    next
      case False
      then have t: "t < j - 1" using that by linarith
      have "P ! ((a + t) mod n) = p ! ((a + t) mod n)"
        using Pnth [of t] t j by auto
      then show ?thesis using IH(5) t by metis
    qed
    have c4: "bl' y = blocks s y" if "\<forall>t < j. y \<noteq> p ! ((a + t) mod n)" for y
    proof -
      have "y \<noteq> p ! prev" using that [rule_format, of "j - 1"] j by (simp add: prev_def)
      moreover have "\<forall>t < j - 1. y \<noteq> P ! ((a + t) mod n)"
      proof (intro allI impI)
        fix u assume u: "u < j - 1"
        have "P ! ((a + u) mod n) = p ! ((a + u) mod n)"
          using Pnth [of u] u j by auto
        then show "y \<noteq> P ! ((a + u) mod n)" using that u by simp
      qed
      ultimately show ?thesis using IH(6) s'q by auto
    qed
    have c5: "same_but_idx (bl' y) (blocks s y)" for y
      using IH(7) same_but_idx_trans [of "bl' y" "blocks s' y" "blocks s y"] by (simp add: s'q(2))
    show ?thesis
      unfolding n_def [symmetric] a_def [symmetric] p_def [symmetric] i_def [symmetric]
      using eq IH(2) c1 c2 c3 c4 c5 by blast
  qed
qed simp

text \<open>The contents after a deletion without order preservation: the first entry takes the gap.\<close>
fun swap_out :: "'a list \<Rightarrow> 'a list \<Rightarrow> 'a list" where
  "swap_out [] ys = ys"
| "swap_out (x # xs) ys = xs @ x # ys"

lemma mset_swap_out [simp]: "mset (swap_out xs ys) = mset xs + mset ys"
  by (cases xs) auto

lemma set_swap_out [simp]: "set (swap_out xs ys) = set xs \<union> set ys"
  by (cases xs) auto

lemma del_buf_inv:
  assumes inv: "txmm_inv {} s" and k: "k \<noteq> MTLK_TXMMB_NONE"
    and ring: "ring (max_msgs s) (ques s k) = xs @ b # ys"
  obtains s' where "mtlk_txmm_del_buf_from_que k b preserve_order s = (True, s')" "txmm_inv {} s'"
    "ring (max_msgs s) (ques s' k) = (if preserve_order then xs @ ys else swap_out xs ys)"
    "\<And>k'. k' \<noteq> k \<Longrightarrow> ques s' k' = ques s k'" "b_que (blocks s' b) = MTLK_TXMMB_NONE"
    "\<And>y. y \<noteq> b \<Longrightarrow> same_but_idx (blocks s' y) (blocks s y)"
    "\<exists>v. blocks s' b = (blocks s b)\<lparr>b_idx := v, b_que := MTLK_TXMMB_NONE\<rparr>"
    "s' = s\<lparr>ques := ques s', blocks := blocks s'\<rparr>"
    "q_to (ques s' k) = q_to (ques s k)"
    "q_from (ques s' k) = INC_WRAP_IDX (q_from (ques s k)) (max_msgs s)"
proof -
  let ?n = "max_msgs s" and ?q = "ques s k"
  let ?a = "q_from ?q" and ?j = "length xs"
  let ?pos = "\<lambda>t. (?a + t) mod ?n"
  have qi: "que_inv s k" using txmm_inv_que [OF inv k] .
  have b: "in_que s k b" using ring by (simp add: in_que_def)
  have ok: "length (q_ptr ?q) = ?n" "?a < ?n" "q_total ?q \<le> ?n"
    using qi by (auto simp: que_inv_def que_ok_def)
  have tot: "q_total ?q = Suc (?j + length ys)"
    using arg_cong [OF ring, of length] by simp
  have nth: "q_ptr ?q ! ?pos t = (xs @ b # ys) ! t" if "t < q_total ?q" for t
    using ring_nth [OF that, of ?n] ring by simp
  have dist: "distinct (xs @ b # ys)" using distinct_ring [OF qi] ring by simp
  have idx: "b_idx (blocks s b) = ?pos ?j"
    using que_invD(3) [OF qi, of ?j] ring tot by simp
  have hit: "q_ptr ?q ! b_idx (blocks s b) = b" using in_que_blocks(3) [OF qi b] .
  define s1 where "s1 = (if ?pos ?j \<noteq> ?a then
      (if preserve_order then shift_loop ?n k (?pos ?j) s else move_entry k (?pos ?j) (q_ptr ?q ! ?a) s) else s)"
  define s' where "s' = upd_block b (\<lambda>x. x\<lparr>b_que := MTLK_TXMMB_NONE\<rparr>)
    (upd_que k (\<lambda>q. q\<lparr>q_from := INC_WRAP_IDX (q_from q) ?n, q_total := q_total q - 1\<rparr>) s1)"
  have del: "mtlk_txmm_del_buf_from_que k b preserve_order s = (True, s')"
    using k hit idx by (simp add: mtlk_txmm_del_buf_from_que_def Let_def s'_def s1_def)
  have first: "?pos ?j = ?a \<longleftrightarrow> xs = []"
    using mod_offset_inj [of ?j ?n 0 ?a] ok tot by auto
  define r' where "r' = (if preserve_order then xs @ ys else swap_out xs ys)"
  have pos_inj: "?pos t = ?pos u \<longleftrightarrow> t = u" if "t < ?n" "u < ?n" for t u
    using mod_offset_inj [OF that] by auto
  have "\<exists>p'. ques s1 = (ques s)(k := ?q\<lparr>q_ptr := p'\<rparr>) \<and> length p' = ?n
      \<and> s1 = s\<lparr>ques := ques s1, blocks := blocks s1\<rparr>
      \<and> (\<forall>y. same_but_idx (blocks s1 y) (blocks s y))
      \<and> (\<forall>y. \<not> in_que s k y \<longrightarrow> blocks s1 y = blocks s y)
      \<and> (\<forall>t < q_total ?q - 1. p' ! ?pos (1 + t) = r' ! t \<and> b_idx (blocks s1 (r' ! t)) = ?pos (1 + t))"
  proof -
    consider (first) "xs = []" | (shift) x zs where "xs = x # zs" "preserve_order"
      | (swap) x zs where "xs = x # zs" "\<not> preserve_order"
      by (cases xs) auto
    then show ?thesis
    proof cases
      case first
      then have s1: "s1 = s" "r' = ys" using \<open>?pos ?j = ?a \<longleftrightarrow> xs = []\<close> by (auto simp: s1_def r'_def)
      have "q_ptr ?q ! ?pos (1 + t) = ys ! t \<and> b_idx (blocks s (ys ! t)) = ?pos (1 + t)"
        if "t < q_total ?q - 1" for t
        using nth [of "1 + t"] que_invD(3) [OF qi, of "1 + t"] ring that tot first by simp
      then show ?thesis
        using s1 ok by (intro exI [of _ "q_ptr ?q"]) auto
    next
      case (shift x zs)
      have inj: "inj_on (\<lambda>t. q_ptr ?q ! ?pos t) {..?j}"
        using nth dist tot nth_eq_iff_index_eq [OF dist] by (auto simp: inj_on_def)
      have j: "0 < ?j" "?j < ?n" "?j \<le> ?n" using shift ok tot by auto
      obtain p' bl' where E: "shift_loop ?n k (?pos ?j) s = s\<lparr>ques := (ques s)(k := ?q\<lparr>q_ptr := p'\<rparr>), blocks := bl'\<rparr>"
        "length p' = ?n" "\<forall>t. 0 < t \<longrightarrow> t \<le> ?j \<longrightarrow> p' ! ?pos t = q_ptr ?q ! ?pos (t - 1)"
        "\<forall>t < ?n. ?j < t \<or> t = 0 \<longrightarrow> p' ! ?pos t = q_ptr ?q ! ?pos t"
        "\<forall>t < ?j. b_idx (bl' (q_ptr ?q ! ?pos t)) = (?a + t + 1) mod ?n"
        "\<forall>y. (\<forall>t < ?j. y \<noteq> q_ptr ?q ! ?pos t) \<longrightarrow> bl' y = blocks s y"
        "\<forall>y. same_but_idx (bl' y) (blocks s y)"
        using shift_loop_effect [OF j ok(1,2) inj] by blast
      have s1: "s1 = s\<lparr>ques := (ques s)(k := ?q\<lparr>q_ptr := p'\<rparr>), blocks := bl'\<rparr>" "r' = xs @ ys"
        using E(1) shift first by (auto simp: s1_def r'_def)
      have "p' ! ?pos (1 + t) = r' ! t \<and> b_idx (bl' (r' ! t)) = ?pos (1 + t)" if "t < q_total ?q - 1" for t
      proof (cases "t < ?j")
        case True
        then have "p' ! ?pos (1 + t) = q_ptr ?q ! ?pos t"
          using E(3) [rule_format, of "Suc t"] by simp
        moreover have "q_ptr ?q ! ?pos t = r' ! t" using nth [of t] True tot s1(2) by (simp add: nth_append)
        moreover have "b_idx (bl' (q_ptr ?q ! ?pos t)) = ?pos (1 + t)" using E(5) True by simp
        ultimately show ?thesis by simp
      next
        case False
        then have p: "p' ! ?pos (1 + t) = q_ptr ?q ! ?pos (1 + t)"
          using E(4) [rule_format, of "Suc t"] that tot ok by simp
        have r: "q_ptr ?q ! ?pos (1 + t) = r' ! t" "r' ! t = (xs @ b # ys) ! (1 + t)"
          using nth [of "1 + t"] False that tot s1(2) by (auto simp: nth_append nth_Cons' Suc_diff_le)
        have "\<forall>u < ?j. r' ! t \<noteq> q_ptr ?q ! ?pos u"
          using r(2) nth nth_eq_iff_index_eq [OF dist, of "1 + t"] False that tot by auto
        then have "bl' (r' ! t) = blocks s (r' ! t)" using E(6) by blast
        then show ?thesis
          using p r que_invD(3) [OF qi, of "1 + t"] ring that tot by simp
      qed
      moreover have "bl' y = blocks s y" if "\<not> in_que s k y" for y
      proof -
        have "y \<notin> set xs" using that by (simp add: in_que_def ring)
        then have "y \<noteq> q_ptr ?q ! ?pos t" if "t < ?j" for t
          using nth [of t] that tot nth_mem [of t xs] by (auto simp: nth_append)
        then show ?thesis using E(6) by blast
      qed
      ultimately show ?thesis
        using s1(1) E(2,7) by (intro exI [of _ p']) auto
    next
      case (swap x zs)
      have x: "q_ptr ?q ! ?a = x" using nth [of 0] swap tot ok by simp
      let ?p = "(q_ptr ?q)[?pos ?j := x]"
      let ?bl = "(blocks s)(x := (blocks s x)\<lparr>b_idx := ?pos ?j\<rparr>)"
      have s1: "s1 = s\<lparr>ques := (ques s)(k := ?q\<lparr>q_ptr := ?p\<rparr>), blocks := ?bl\<rparr>" "r' = zs @ x # ys"
        using swap first x by (auto simp: s1_def r'_def move_entry_def upd_block_def upd_que_def)
      have pl: "?pos ?j < length (q_ptr ?q)" using ok by simp
      have "?p ! ?pos (1 + t) = r' ! t \<and> b_idx (?bl (r' ! t)) = ?pos (1 + t)" if "t < q_total ?q - 1" for t
      proof (cases "1 + t = ?j")
        case True
        then have "r' ! t = x" using swap s1(2) by (simp add: nth_append)
        then show ?thesis using True pl by simp
      next
        case False
        have neq: "?pos ?j \<noteq> ?pos (1 + t)"
          using pos_inj [of ?j "1 + t"] False that tot ok by auto
        have r: "r' ! t = (xs @ b # ys) ! (1 + t)"
          using False that tot swap s1(2) by (auto simp: nth_append nth_Cons' Suc_diff_le)
        have "r' ! t \<noteq> x"
          using r nth_eq_iff_index_eq [OF dist, of "1 + t" 0] that tot swap by auto
        then show ?thesis
          using neq r nth [of "1 + t"] que_invD(3) [OF qi, of "1 + t"] ring that tot by simp
      qed
      moreover have "?bl y = blocks s y" if "\<not> in_que s k y" for y
        using that swap by (auto simp: in_que_def ring)
      ultimately show ?thesis
        using s1(1) ok by (intro exI [of _ ?p]) auto
    qed
  qed
  then obtain p' where R: "ques s1 = (ques s)(k := ?q\<lparr>q_ptr := p'\<rparr>)" "length p' = ?n"
    "s1 = s\<lparr>ques := ques s1, blocks := blocks s1\<rparr>" "\<forall>y. same_but_idx (blocks s1 y) (blocks s y)"
    "\<forall>y. \<not> in_que s k y \<longrightarrow> blocks s1 y = blocks s y"
    "\<forall>t < q_total ?q - 1. p' ! ?pos (1 + t) = r' ! t \<and> b_idx (blocks s1 (r' ! t)) = ?pos (1 + t)"
    by blast
  have len: "length r' = q_total ?q - 1" using tot by (cases xs) (auto simp: r'_def)
  have r1: "r' = map (\<lambda>i. p' ! ((?a + 1 + i) mod ?n)) [0..<q_total ?q - 1]"
    using R(6) len by (intro nth_equalityI) auto
  have r2: "set r' = set (ring ?n ?q) - {b}"
    using dist ring by (auto simp: r'_def)
  have mx: "max_msgs s1 = ?n" using R(3) by (metis txmm.select_convs(2) txmm.surjective txmm.update_convs(3,4))
  note F = del_finish [OF inv k b R(1,2) mx same_but_idxD(1) [OF R(4) [rule_format]] R(5) [rule_format] r1 r2 _ s'_def]
  have F': "txmm_inv {} s'" "ring ?n (ques s' k) = r'" "b_que (blocks s' b) = MTLK_TXMMB_NONE"
    using F R(6) by auto
  show ?thesis
  proof (rule that [OF del])
    show "txmm_inv {} s'" "b_que (blocks s' b) = MTLK_TXMMB_NONE" using F' by auto
    show "ring ?n (ques s' k) = (if preserve_order then xs @ ys else swap_out xs ys)"
      using F'(2) by (simp add: r'_def)
    show "ques s' k' = ques s k'" if "k' \<noteq> k" for k' using that R(1) by (simp add: s'_def)
    show "same_but_idx (blocks s' y) (blocks s y)" if "y \<noteq> b" for y using that R(4) by (simp add: s'_def)
    show "\<exists>v. blocks s' b = (blocks s b)\<lparr>b_idx := v, b_que := MTLK_TXMMB_NONE\<rparr>"
      using R(4) [rule_format, of b] by (auto simp: s'_def same_but_idx_def)
    show "s' = s\<lparr>ques := ques s', blocks := blocks s'\<rparr>"
    proof -
      obtain A B where AB: "s1 = s\<lparr>ques := A, blocks := B\<rparr>" using R(3) by blast
      show ?thesis unfolding s'_def AB upd_block_def upd_que_def by simp
    qed
    show "q_to (ques s' k) = q_to (ques s k)"
      "q_from (ques s' k) = INC_WRAP_IDX (q_from (ques s k)) ?n"
      using R(1) by (simp_all add: s'_def)
  qed
qed

section \<open>Ownership of blocks\<close>

text \<open>
  A block that is not free belongs to exactly one message, which points back to it; a block in one of
  the working queues has a callback.
\<close>
definition owner_inv :: "txmm \<Rightarrow> bool" where
  "owner_inv s =
     ((\<forall>b < max_msgs s. b_que (blocks s b) \<noteq> MTLK_TXMMB_FREE \<longrightarrow>
         (\<exists>m. b_msg (blocks s b) = Some m \<and> m_data (msgs s m) = Some b)
         \<and> (b_que (blocks s b) \<noteq> MTLK_TXMMB_NONE \<longrightarrow> b_clb (blocks s b) \<noteq> None))
      \<and> (\<forall>m b. m_data (msgs s m) = Some b \<longrightarrow>
           b < max_msgs s \<and> b_que (blocks s b) \<noteq> MTLK_TXMMB_FREE \<and> b_msg (blocks s b) = Some m)
      \<and> (\<forall>m. m_obj (msgs s m) = None \<longleftrightarrow> m_data (msgs s m) = None))"

text \<open>The invariant between any two locked sections.\<close>
definition txmm_safe :: "txmm \<Rightarrow> bool" where
  "txmm_safe s = (txmm_inv {} s \<and> owner_inv s)"

text \<open>The invariant between whole calls: additionally nothing is left in the timed-out queue.\<close>
definition txmm_ok :: "txmm \<Rightarrow> bool" where
  "txmm_ok s = (txmm_inv {} s \<and> owner_inv s \<and> q_total (ques s MTLK_TXMMB_TIMED_OUT) = 0)"

lemma txmm_ok_safe: "txmm_ok s \<longleftrightarrow> txmm_safe s \<and> q_total (ques s MTLK_TXMMB_TIMED_OUT) = 0"
  by (auto simp: txmm_ok_def txmm_safe_def)

definition owner_view :: "txmm_block \<Rightarrow> txmm_block_e \<times> nat option \<times> nat option" where
  "owner_view x = (b_que x, b_msg x, b_clb x)"

lemma owner_view_same_idx: "same_but_idx x y \<Longrightarrow> owner_view x = owner_view y"
  by (auto simp: owner_view_def dest: same_but_idxD)

lemma owner_msg:
  assumes "owner_inv s" "b < max_msgs s" "b_que (blocks s b) \<noteq> MTLK_TXMMB_FREE"
  obtains m where "b_msg (blocks s b) = Some m" "m_data (msgs s m) = Some b"
  using assms by (meson owner_inv_def)

lemma owner_cong:
  assumes "\<And>b. owner_view (blocks s' b) = owner_view (blocks s b)" "msgs s' = msgs s" "max_msgs s' = max_msgs s"
  shows "owner_inv s' = owner_inv s"
  using assms by (simp add: owner_inv_def owner_view_def)

lemma owner_move:
  assumes "owner_inv s" "b < max_msgs s" "b_que (blocks s b) \<noteq> MTLK_TXMMB_FREE"
    and "\<And>c. c \<noteq> b \<Longrightarrow> owner_view (blocks s' c) = owner_view (blocks s c)"
    and "b_msg (blocks s' b) = b_msg (blocks s b)" "b_que (blocks s' b) \<noteq> MTLK_TXMMB_FREE"
    and "b_que (blocks s' b) \<noteq> MTLK_TXMMB_NONE \<Longrightarrow> b_clb (blocks s' b) \<noteq> None"
    and "msgs s' = msgs s" "max_msgs s' = max_msgs s"
  shows "owner_inv s'"
proof -
  have view: "b_que (blocks s' c) = b_que (blocks s c)" "b_msg (blocks s' c) = b_msg (blocks s c)"
    "b_clb (blocks s' c) = b_clb (blocks s c)" if "c \<noteq> b" for c
    using assms(4) [OF that] by (auto simp: owner_view_def)
  show ?thesis
    unfolding owner_inv_def assms(8,9)
  proof (intro conjI allI impI)
    fix c assume c: "c < max_msgs s" "b_que (blocks s' c) \<noteq> MTLK_TXMMB_FREE"
    then show "\<exists>m. b_msg (blocks s' c) = Some m \<and> m_data (msgs s m) = Some c"
      using assms(1,2,3,5) view [of c] by (cases "c = b") (auto simp: owner_inv_def)
    assume "b_que (blocks s' c) \<noteq> MTLK_TXMMB_NONE"
    then show "b_clb (blocks s' c) \<noteq> None"
      using assms(1,7) view [of c] c by (cases "c = b") (auto simp: owner_inv_def)
  next
    fix m c assume "m_data (msgs s m) = Some c"
    then show "c < max_msgs s" "b_que (blocks s' c) \<noteq> MTLK_TXMMB_FREE" "b_msg (blocks s' c) = Some m"
      using assms(1,5,6) view [of c] by (cases "c = b"; auto simp: owner_inv_def)+
  next
    fix m show "(m_obj (msgs s m) = None) = (m_data (msgs s m) = None)"
      using assms(1) by (simp add: owner_inv_def)
  qed
qed

lemma owner_release:
  assumes "owner_inv s" "m_data (msgs s m) = Some b"
    and "\<And>c. c \<noteq> b \<Longrightarrow> owner_view (blocks s' c) = owner_view (blocks s c)"
    and "b_que (blocks s' b) = MTLK_TXMMB_FREE"
    and "msgs s' = (msgs s)(m := \<lparr>m_data = None, m_obj = None\<rparr>)" "max_msgs s' = max_msgs s"
  shows "owner_inv s'"
proof -
  have view: "b_que (blocks s' c) = b_que (blocks s c)" "b_msg (blocks s' c) = b_msg (blocks s c)"
    "b_clb (blocks s' c) = b_clb (blocks s c)" if "c \<noteq> b" for c
    using assms(3) [OF that] by (auto simp: owner_view_def)
  have bm: "b_msg (blocks s b) = Some m"
    using assms(1,2) by (simp add: owner_inv_def)
  show ?thesis
    unfolding owner_inv_def assms(6)
  proof (intro conjI allI impI)
    fix c assume c: "c < max_msgs s" "b_que (blocks s' c) \<noteq> MTLK_TXMMB_FREE"
    then have cb: "c \<noteq> b" using assms(4) by auto
    then obtain m' where m': "b_msg (blocks s c) = Some m'" "m_data (msgs s m') = Some c"
      using owner_msg [OF assms(1) c(1)] c(2) view(1) [OF cb] by auto
    then have "m' \<noteq> m" using assms(2) cb by auto
    then show "\<exists>m. b_msg (blocks s' c) = Some m \<and> m_data (msgs s' m) = Some c"
      using m' view [OF cb] assms(5) by simp
    assume "b_que (blocks s' c) \<noteq> MTLK_TXMMB_NONE"
    then show "b_clb (blocks s' c) \<noteq> None"
      using assms(1) view [OF cb] c by (auto simp: owner_inv_def)
  next
    fix m' c assume "m_data (msgs s' m') = Some c"
    then have m': "m' \<noteq> m" "m_data (msgs s m') = Some c"
      using assms(5) by (auto split: if_splits)
    then have D: "c < max_msgs s" "b_que (blocks s c) \<noteq> MTLK_TXMMB_FREE" "b_msg (blocks s c) = Some m'"
      using assms(1) by (auto simp: owner_inv_def)
    then have "c \<noteq> b" using bm m'(1) by auto
    then show "c < max_msgs s" "b_que (blocks s' c) \<noteq> MTLK_TXMMB_FREE" "b_msg (blocks s' c) = Some m'"
      using D view [of c] by auto
  next
    fix m' show "(m_obj (msgs s' m') = None) = (m_data (msgs s' m') = None)"
      using assms(1,5) by (simp add: owner_inv_def)
  qed
qed

lemma owner_attach:
  assumes "owner_inv s" "b < max_msgs s" "b_que (blocks s b) = MTLK_TXMMB_FREE" "m_data (msgs s m) = None"
    and "\<And>c. c \<noteq> b \<Longrightarrow> owner_view (blocks s' c) = owner_view (blocks s c)"
    and "b_que (blocks s' b) = MTLK_TXMMB_NONE" "b_msg (blocks s' b) = Some m"
    and "msgs s' = (msgs s)(m := \<lparr>m_data = Some b, m_obj = Some v\<rparr>)" "max_msgs s' = max_msgs s"
  shows "owner_inv s'"
proof -
  have view: "b_que (blocks s' c) = b_que (blocks s c)" "b_msg (blocks s' c) = b_msg (blocks s c)"
    "b_clb (blocks s' c) = b_clb (blocks s c)" if "c \<noteq> b" for c
    using assms(5) [OF that] by (auto simp: owner_view_def)
  show ?thesis
    unfolding owner_inv_def assms(9)
  proof (intro conjI allI impI)
    fix c assume c: "c < max_msgs s" "b_que (blocks s' c) \<noteq> MTLK_TXMMB_FREE"
    show "\<exists>m. b_msg (blocks s' c) = Some m \<and> m_data (msgs s' m) = Some c"
    proof (cases "c = b")
      case False
      then obtain m' where "b_msg (blocks s c) = Some m'" "m_data (msgs s m') = Some c"
        using owner_msg [OF assms(1) c(1)] c(2) view(1) [OF False] by auto
      then show ?thesis using view [OF False] assms(4,8) by (intro exI [of _ m']) auto
    qed (use assms(7,8) in auto)
    assume "b_que (blocks s' c) \<noteq> MTLK_TXMMB_NONE"
    then show "b_clb (blocks s' c) \<noteq> None"
      using assms(1,6) view [of c] c by (cases "c = b") (auto simp: owner_inv_def)
  next
    fix m' c assume "m_data (msgs s' m') = Some c"
    then consider "m' = m" "c = b" | "m' \<noteq> m" "m_data (msgs s m') = Some c"
      using assms(8) by (auto split: if_splits)
    then have "c < max_msgs s \<and> b_que (blocks s' c) \<noteq> MTLK_TXMMB_FREE \<and> b_msg (blocks s' c) = Some m'"
    proof cases
      case 2
      then have D: "c < max_msgs s" "b_que (blocks s c) \<noteq> MTLK_TXMMB_FREE" "b_msg (blocks s c) = Some m'"
        using assms(1) by (auto simp: owner_inv_def)
      then have "c \<noteq> b" using assms(3) by auto
      then show ?thesis using view [of c] D by auto
    qed (use assms(2,6,7) in auto)
    then show "c < max_msgs s" "b_que (blocks s' c) \<noteq> MTLK_TXMMB_FREE" "b_msg (blocks s' c) = Some m'"
      by auto
  next
    fix m' show "(m_obj (msgs s' m') = None) = (m_data (msgs s' m') = None)"
      using assms(1,8) by (simp add: owner_inv_def)
  qed
qed

lemma put_buf_fields [simp]:
  "k \<noteq> MTLK_TXMMB_NONE \<Longrightarrow> blocks (mtlk_txmm_put_buf k b s)
     = (blocks s)(b := (blocks s b)\<lparr>b_que := k, b_idx := q_to (ques s k)\<rparr>)"
  "msgs (mtlk_txmm_put_buf k b s) = msgs s" "max_msgs (mtlk_txmm_put_buf k b s) = max_msgs s"
  "k' \<noteq> k \<Longrightarrow> ques (mtlk_txmm_put_buf k b s) k' = ques s k'"
  "hw_slots (mtlk_txmm_put_buf k b s) = hw_slots s" "hw_pool (mtlk_txmm_put_buf k b s) = hw_pool s"
  "tx_log (mtlk_txmm_put_buf k b s) = tx_log s" "max_payload_size (mtlk_txmm_put_buf k b s) = max_payload_size s"
  by (simp_all add: mtlk_txmm_put_buf_def upd_block_def upd_que_def)

text \<open>Putting a block of the user into one of the working queues.\<close>
lemma put_working_safe:
  assumes "txmm_inv {b} s" "owner_inv s" "b < max_msgs s" "b_que (blocks s b) \<noteq> MTLK_TXMMB_FREE"
    and "b_clb (blocks s b) \<noteq> None" "k = MTLK_TXMMB_QUEUED \<or> k = MTLK_TXMMB_SENT"
  shows "txmm_safe (mtlk_txmm_put_buf k b s)"
proof -
  have k: "k \<noteq> MTLK_TXMMB_NONE" "k \<noteq> MTLK_TXMMB_FREE"
    using assms(6) by auto
  have "owner_inv (mtlk_txmm_put_buf k b s)"
    using k assms(5) by (intro owner_move [OF assms(2,3,4)]) auto
  then show ?thesis
    using put_buf_inv(1) [OF assms(1,3) k(1)] by (simp add: txmm_safe_def)
qed

subsection \<open>The operations keep the invariant\<close>

text \<open>The part of the state that the invariant reads.\<close>
lemma txmm_safe_cong:
  assumes "ques s' = ques s" "blocks s' = blocks s" "max_msgs s' = max_msgs s" "msgs s' = msgs s"
  shows "txmm_safe s' = txmm_safe s"
  using assms txmm_inv_cong [of s' s] owner_cong [of s' s] by (simp add: txmm_safe_def)

lemma txmm_ok_cong:
  assumes "ques s' = ques s" "blocks s' = blocks s" "max_msgs s' = max_msgs s" "msgs s' = msgs s"
  shows "txmm_ok s' = txmm_ok s"
  using assms txmm_safe_cong [OF assms] by (simp add: txmm_ok_safe)

lemma txmm_safeD:
  assumes "txmm_safe s"
  shows "txmm_inv {} s" "owner_inv s"
  using assms by (auto simp: txmm_safe_def)

lemma txmm_okD:
  assumes "txmm_ok s"
  shows "txmm_inv {} s" "owner_inv s" "q_total (ques s MTLK_TXMMB_TIMED_OUT) = 0"
  using assms by (auto simp: txmm_ok_def)

lemma attached_block:
  assumes "txmm_safe s" "m_data (msgs s m) = Some b"
  shows "b < max_msgs s" "b_que (blocks s b) \<noteq> MTLK_TXMMB_FREE" "b_msg (blocks s b) = Some m"
    "m_obj (msgs s m) \<noteq> None"
  using txmm_safeD(2) [OF assms(1)] assms(2) by (auto simp: owner_inv_def)

lemma tx_emit_safe [simp]: "txmm_safe (tx_emit e s) = txmm_safe s"
  by (rule txmm_safe_cong) (simp_all add: tx_emit_def)

lemma txmm_safe_stats [simp]:
  "txmm_safe (s\<lparr>nof_sent := x\<rparr>) = txmm_safe s" "txmm_safe (s\<lparr>nof_cfmed := x\<rparr>) = txmm_safe s"
  "txmm_safe (s\<lparr>hw_pool := p\<rparr>) = txmm_safe s" "txmm_safe (s\<lparr>hw_slots := h\<rparr>) = txmm_safe s"
  "txmm_safe (s\<lparr>tx_active := a\<rparr>) = txmm_safe s" "txmm_safe (s\<lparr>used_peak := x\<rparr>) = txmm_safe s"
  by (rule txmm_safe_cong; simp)+

lemma send_block_prepare_safe [wave_inv]:
  assumes "txmm_inv {b} s" "owner_inv s" "b < max_msgs s" "b_que (blocks s b) \<noteq> MTLK_TXMMB_FREE"
    and "b_clb (blocks s b) \<noteq> None"
  shows "txmm_safe (mtlk_txmm_send_block_prepare b p s)"
proof -
  define s1 where "s1 = (if b_payload_size (blocks s b) = 0 \<or> b_payload_size (blocks s b) > max_payload_size s
                then upd_block b (\<lambda>x. x\<lparr>b_payload_size := max_payload_size s\<rparr>) s else s)"
  define s2 where "s2 = upd_block b (\<lambda>x. x\<lparr>b_slot := Some p\<rparr>) s1"
  have 2: "txmm_inv {b} s2" "max_msgs s2 = max_msgs s" "ques s2 = ques s" "msgs s2 = msgs s"
    "b_que (blocks s2 b) = b_que (blocks s b)" "b_clb (blocks s2 b) = b_clb (blocks s b)"
    using assms(1) txmm_inv_upd_block by (auto simp: s1_def s2_def)
  have "owner_inv s2"
    using assms(2) by (subst owner_cong [of s2 s]) (auto simp: s1_def s2_def owner_view_def)
  define s3 where "s3 = s2\<lparr>hw_slots := (hw_slots s2)(p :=
     \<lparr>slot_id = b_msg_id (blocks s2 b), slot_payload = take (b_payload_size (blocks s2 b)) (b_payload (blocks s2 b))
        @ drop (b_payload_size (blocks s2 b)) (slot_payload (hw_slots s2 p))\<rparr>)\<rparr>"
  have "txmm_inv {b} s3" "owner_inv s3"
    using 2(1) \<open>owner_inv s2\<close> txmm_inv_cong [of s3 s2] owner_cong [of s3 s2] by (auto simp: s3_def)
  then have "txmm_safe (mtlk_txmm_put_buf MTLK_TXMMB_SENT b s3)"
    using 2 assms by (intro put_working_safe) (auto simp: s3_def)
  then show ?thesis
    unfolding mtlk_txmm_send_block_prepare_def Let_def
    by (simp add: s1_def [symmetric] s2_def [symmetric] s3_def [symmetric])
qed

lemma pump_locked_safe [wave_inv]:
  assumes "txmm_safe s" "mtlk_txmm_pump_locked pmsg s = (r, v, st, s')"
  shows "txmm_safe s'"
proof (cases "q_total (ques s MTLK_TXMMB_QUEUED) = 0")
  case True
  then show ?thesis
    using assms by (auto simp: mtlk_txmm_pump_locked_def msg_free_to_pool_def split: option.splits)
next
  case False
  obtain p1 s1 where 1: "(case pmsg of None \<Rightarrow> msg_get_from_pool s | Some p \<Rightarrow> (Some p, s)) = (p1, s1)"
    by fastforce
  have ok1: "txmm_safe s1"
    using 1 assms(1) by (auto simp: msg_get_from_pool_def split: option.splits list.splits)
  show ?thesis
  proof (cases "p1 = None \<or> mtlk_txmm_get_buf MTLK_TXMMB_QUEUED s1 = None")
    case True
    then show ?thesis
      using assms(2) False 1 ok1 by (auto simp: mtlk_txmm_pump_locked_def split: option.splits)
  next
    case False2: False
    then obtain p b s2 where 2: "p1 = Some p" "mtlk_txmm_get_buf MTLK_TXMMB_QUEUED s1 = Some (b, s2)"
      by auto
    note G = get_buf_inv [OF txmm_safeD(1) [OF ok1] 2(2)]
    have "owner_inv s2"
      using txmm_safeD(2) [OF ok1] G owner_cong [of s2 s1] by simp
    moreover have "b_clb (blocks s2 b) \<noteq> None"
      using txmm_safeD(2) [OF ok1] G by (auto simp: owner_inv_def)
    ultimately have "txmm_safe (mtlk_txmm_send_block_prepare b p s2)"
      using G by (intro send_block_prepare_safe) auto
    then show ?thesis
      using assms(2) False 1 2 by (simp add: mtlk_txmm_pump_locked_def Let_def)
  qed
qed

lemma pump_safe [wave_inv]: "txmm_safe s \<Longrightarrow> txmm_safe (mtlk_txmm_pump pmsg s)"
  using pump_locked_safe [of s pmsg]
  by (auto simp: mtlk_txmm_pump_def split: prod.splits option.splits txmm_status.splits)

lemma attach_data_safe [wave_inv]:
  assumes "txmm_safe s" "m_data (msgs s m) = None"
  shows "txmm_safe (mtlk_txmm_attach_data vap m s)"
proof (cases "\<not> tx_active s \<or> mtlk_txmm_get_buf MTLK_TXMMB_FREE s = None")
  case True
  have "m_obj (msgs s m) = None"
    using assms txmm_safeD(2) [OF assms(1)] by (auto simp: owner_inv_def)
  then have "msgs s m = \<lparr>m_data = None, m_obj = None\<rparr>" using assms(2) by simp
  then have "(msgs s)(m := \<lparr>m_data = None, m_obj = None\<rparr>) = msgs s" by (metis fun_upd_triv)
  then show ?thesis
    using True assms(1) txmm_safe_cong [of "s\<lparr>msgs := msgs s\<rparr>" s]
    by (auto simp: mtlk_txmm_attach_data_def split: option.splits)
next
  case False
  then obtain b s1 where g: "mtlk_txmm_get_buf MTLK_TXMMB_FREE s = Some (b, s1)" and act: "tx_active s"
    by auto
  note G = get_buf_inv [OF txmm_safeD(1) [OF assms(1)] g]
  define s2 where "s2 = upd_block b (\<lambda>x. x\<lparr>b_msg := Some m, b_que := MTLK_TXMMB_NONE\<rparr>) (mtlk_txmm_adjust_usage_stats s1)"
  define s3 where "s3 = s2\<lparr>msgs := (msgs s2)(m := \<lparr>m_data = Some b, m_obj = Some vap\<rparr>)\<rparr>"
  have same: "ques (mtlk_txmm_adjust_usage_stats s1) = ques s1" "blocks (mtlk_txmm_adjust_usage_stats s1) = blocks s1"
    "max_msgs (mtlk_txmm_adjust_usage_stats s1) = max_msgs s1" "msgs (mtlk_txmm_adjust_usage_stats s1) = msgs s1"
    by (simp_all add: mtlk_txmm_adjust_usage_stats_def Let_def)
  have "txmm_inv {b} (mtlk_txmm_adjust_usage_stats s1)"
    using G(1) txmm_inv_cong [OF same(1-3)] by simp
  then have "txmm_inv {b} s2"
    unfolding s2_def by (rule txmm_inv_upd_block) simp
  then have "txmm_inv {} s2"
    by (subst txmm_inv_none [of _ b]) (simp_all add: s2_def)
  then have "txmm_inv {} s3"
    using txmm_inv_cong [of s3 s2] by (simp add: s3_def)
  moreover have "owner_inv s3"
    using G same
    by (intro owner_attach [OF txmm_safeD(2) [OF assms(1)] G(2,3) assms(2), where v = vap])
      (auto simp: s3_def s2_def)
  moreover have "mtlk_txmm_attach_data vap m s = s3"
    using act g by (simp add: mtlk_txmm_attach_data_def Let_def s2_def s3_def)
  ultimately show ?thesis
    by (simp add: txmm_safe_def)
qed

lemma send_ex_queue_safe:
  assumes "txmm_safe s" "b < max_msgs s" "b_que (blocks s b) = MTLK_TXMMB_NONE"
    and s1: "s1 = upd_block b (\<lambda>x. x\<lparr>b_slot := None, b_clb := Some clb, b_timeout := tmo, b_vap := vap,
                 b_send_time := (if tmo \<noteq> 0 then now else b_send_time x)\<rparr>) s"
    and g: "msg_get_from_pool s1 = (pm, s2)"
  shows "txmm_safe (mtlk_txmm_put_buf MTLK_TXMMB_QUEUED b s2)" "txmm_safe (mtlk_txmm_send_block_prepare b p s2)"
proof -
  have same: "ques s2 = ques s1" "blocks s2 = blocks s1" "max_msgs s2 = max_msgs s1" "msgs s2 = msgs s1"
    using g by (auto simp: msg_get_from_pool_def split: list.splits)
  have "txmm_inv {b} s"
    using txmm_safeD(1) [OF assms(1)] txmm_inv_none [of s b] assms(3) by simp
  then have inv2: "txmm_inv {b} s2"
    using txmm_inv_upd_block [of "{b}" s b] txmm_inv_cong [OF same(1-3)] by (simp add: s1)
  have own2: "owner_inv s2"
    using assms(3) same
    by (intro owner_move [OF txmm_safeD(2) [OF assms(1)] assms(2)]) (auto simp: s1)
  have st: "b < max_msgs s2" "b_que (blocks s2 b) \<noteq> MTLK_TXMMB_FREE" "b_clb (blocks s2 b) \<noteq> None"
    using same assms(2,3) by (auto simp: s1)
  show "txmm_safe (mtlk_txmm_send_block_prepare b p s2)"
    using send_block_prepare_safe [OF inv2 own2 st] .
  show "txmm_safe (mtlk_txmm_put_buf MTLK_TXMMB_QUEUED b s2)"
    using put_working_safe [OF inv2 own2 st] by blast
qed

lemma send_ex_safe [wave_inv]:
  assumes "txmm_safe s" "b < max_msgs s" "b_que (blocks s b) = MTLK_TXMMB_NONE"
  shows "txmm_safe (mtlk_txmm_send_ex vap b clb tmo now s)"
proof -
  define s1 where "s1 = upd_block b (\<lambda>x. x\<lparr>b_slot := None, b_clb := Some clb, b_timeout := tmo, b_vap := vap,
                 b_send_time := (if tmo \<noteq> 0 then now else b_send_time x)\<rparr>) s"
  obtain pm s2 where g: "msg_get_from_pool s1 = (pm, s2)" by fastforce
  note safe = send_ex_queue_safe [OF assms s1_def g]
  show ?thesis
    unfolding mtlk_txmm_send_ex_def Let_def s1_def [symmetric] g prod.case
    using safe pump_locked_safe [OF safe(1)] by (auto split: option.splits prod.splits)
qed

lemma msg_send_safe [wave_inv]:
  assumes "txmm_safe s" "m_data (msgs s m) = Some b" "b_que (blocks s b) = MTLK_TXMMB_NONE"
  shows "\<exists>s'. mtlk_txmm_msg_send m clb tmo now s = Some (MTLK_ERR_OK, s') \<and> txmm_safe s'"
  using attached_block [OF assms(1,2)] send_ex_safe [OF assms(1) _ assms(3)] assms(2)
  by (auto simp: mtlk_txmm_msg_send_def)

subsection \<open>Callbacks\<close>

text \<open>Returning a block of the user to the free queue detaches its message.\<close>
lemma free_buf_safe:
  assumes "txmm_inv {b} s" "owner_inv s" "m_data (msgs s m) = Some b"
    and "b_que (blocks s b) \<noteq> MTLK_TXMMB_FREE"
    and s1: "s1 = mtlk_txmm_put_buf MTLK_TXMMB_FREE b (upd_block b zero_block s)"
  shows "txmm_safe (s1\<lparr>msgs := (msgs s1)(m := \<lparr>m_data = None, m_obj = None\<rparr>)\<rparr>)"
proof -
  have b: "b < max_msgs s" using assms(2,3) by (auto simp: owner_inv_def)
  have "txmm_inv {} s1"
    unfolding s1 by (rule put_buf_inv(1)) (use assms(1) b in \<open>auto intro: txmm_inv_upd_block\<close>)
  moreover have "owner_inv (s1\<lparr>msgs := (msgs s1)(m := \<lparr>m_data = None, m_obj = None\<rparr>)\<rparr>)"
    by (rule owner_release [OF assms(2,3)]) (auto simp: s1)
  ultimately show ?thesis
    using txmm_inv_cong [of "s1\<lparr>msgs := (msgs s1)(m := \<lparr>m_data = None, m_obj = None\<rparr>)\<rparr>" s1]
    by (simp add: txmm_safe_def)
qed

lemma call_usr_clb_safe:
  assumes "txmm_safe s" "b < max_msgs s" "b_que (blocks s b) = MTLK_TXMMB_NONE" "b_clb (blocks s b) \<noteq> None"
  obtains r s' where "mtlk_txmm_call_usr_clb_locked user now b reason s = Some (r, s')" "txmm_safe s'"
    "ques s' MTLK_TXMMB_TIMED_OUT = ques s MTLK_TXMMB_TIMED_OUT"
    "ques s' MTLK_TXMMB_SENT = ques s MTLK_TXMMB_SENT" "max_msgs s' = max_msgs s"
    "tx_log s' = tx_log s @ [Clb_called b reason]" "\<And>c. c \<noteq> b \<Longrightarrow> blocks s' c = blocks s c"
proof -
  have inv: "txmm_inv {b} s" and own: "owner_inv s"
    using assms(1,3) txmm_inv_none [of s b] by (auto simp: txmm_safe_def)
  obtain m where m: "b_msg (blocks s b) = Some m" "m_data (msgs s m) = Some b"
    using owner_msg [OF own assms(2)] assms(3) by auto
  define t where "t = tx_emit (Clb_called b reason) s"
  have t: "ques t = ques s" "blocks t = blocks s" "max_msgs t = max_msgs s" "msgs t = msgs s"
    "tx_log t = tx_log s @ [Clb_called b reason]"
    by (simp_all add: t_def tx_emit_def)
  have invt: "txmm_inv {b} t" "owner_inv t"
    using inv own txmm_inv_cong [OF t(1-3)] owner_cong [of t s] t by auto
  show ?thesis
  proof (cases "user (the (b_clb (blocks s b))) (blocks s b) reason")
    case MTLK_TXMM_CLBA_FREE
    define s1 where "s1 = mtlk_txmm_put_buf MTLK_TXMMB_FREE b (upd_block b zero_block t)"
    have "mtlk_txmm_free_buf b False False t = s1"
      using assms(3) t by (simp add: mtlk_txmm_free_buf_def s1_def)
    then have "mtlk_txmm_call_usr_clb_locked user now b reason s
        = Some (False, s1\<lparr>msgs := (msgs s1)(m := \<lparr>m_data = None, m_obj = None\<rparr>)\<rparr>)"
      using m MTLK_TXMM_CLBA_FREE t
      by (simp add: mtlk_txmm_call_usr_clb_locked_def t_def [symmetric])
    moreover have "txmm_safe (s1\<lparr>msgs := (msgs s1)(m := \<lparr>m_data = None, m_obj = None\<rparr>)\<rparr>)"
      using free_buf_safe [OF invt _ _ s1_def, of m] m t assms(3) by simp
    ultimately show ?thesis
      using that t by (auto simp: s1_def upd_block_def)
  next
    case MTLK_TXMM_CLBA_SEND
    define s1 where "s1 = (if b_timeout (blocks t b) \<noteq> 0 then upd_block b (\<lambda>x. x\<lparr>b_send_time := now\<rparr>) t else t)"
    have s1: "txmm_inv {b} s1" "owner_inv s1" "max_msgs s1 = max_msgs s" "ques s1 = ques s"
      "b_que (blocks s1 b) = MTLK_TXMMB_NONE" "b_clb (blocks s1 b) \<noteq> None" "tx_log s1 = tx_log t"
      "\<And>c. c \<noteq> b \<Longrightarrow> blocks s1 c = blocks s c"
      using invt txmm_inv_upd_block [OF invt(1)] assms(3,4) t
        owner_cong [of "upd_block b (\<lambda>x. x\<lparr>b_send_time := now\<rparr>) t" t]
      by (auto simp: s1_def owner_view_def upd_block_def)
    have "owner_inv (mtlk_txmm_put_buf MTLK_TXMMB_QUEUED b s1)"
      using s1 assms(2) by (intro owner_move [OF s1(2)]) auto
    then have "txmm_safe (mtlk_txmm_put_buf MTLK_TXMMB_QUEUED b s1)"
      using put_buf_inv(1) [OF s1(1)] s1(3) assms(2) by (simp add: txmm_safe_def)
    moreover have "mtlk_txmm_call_usr_clb_locked user now b reason s
        = Some (True, mtlk_txmm_put_buf MTLK_TXMMB_QUEUED b s1)"
      using m MTLK_TXMM_CLBA_SEND t
      by (simp add: mtlk_txmm_call_usr_clb_locked_def t_def [symmetric] s1_def)
    ultimately show ?thesis
      using that s1 t by auto
  next
    case MTLK_TXMM_CLBA_KEEP
    have "mtlk_txmm_call_usr_clb_locked user now b reason s = Some (False, t)"
      using m MTLK_TXMM_CLBA_KEEP t by (simp add: mtlk_txmm_call_usr_clb_locked_def t_def [symmetric])
    moreover have "txmm_safe t"
      using assms(1) txmm_safe_cong [OF t(1-4)] by simp
    ultimately show ?thesis
      using that t by auto
  qed
qed

subsection \<open>Confirmation\<close>

lemma cfm_search_find:
  assumes "que_inv s MTLK_TXMMB_SENT" "t < q_total (ques s MTLK_TXMMB_SENT)"
    and "q_total (ques s MTLK_TXMMB_SENT) - t \<le> f"
  shows "cfm_search f ((q_from (ques s MTLK_TXMMB_SENT) + t) mod max_msgs s) p s
    = find (\<lambda>b. b_slot (blocks s b) = Some p) (drop t (ring (max_msgs s) (ques s MTLK_TXMMB_SENT)))"
  using assms(2,3)
proof (induction f arbitrary: t)
  case (Suc f)
  let ?n = "max_msgs s" and ?q = "ques s MTLK_TXMMB_SENT"
  let ?i = "(q_from ?q + t) mod ?n" and ?r = "ring (max_msgs s) (ques s MTLK_TXMMB_SENT)"
  have ok: "q_total ?q \<le> ?n" "q_from ?q < ?n" "q_to ?q = (q_from ?q + q_total ?q) mod ?n"
    using assms(1) by (auto simp: que_inv_def que_ok_def)
  have d: "drop t ?r = ?r ! t # drop (Suc t) ?r"
    using Suc.prems(1) by (simp add: Cons_nth_drop_Suc)
  have b: "q_ptr ?q ! ?i = ?r ! t"
    using ring_nth [OF Suc.prems(1)] by simp
  have i': "INC_WRAP_IDX ?i ?n = (q_from ?q + Suc t) mod ?n"
    using ok INC_WRAP_IDX_mod [of ?i ?n] by (simp add: mod_Suc_eq)
  have stop: "(q_from ?q + Suc t) mod ?n = q_to ?q \<longleftrightarrow> Suc t = q_total ?q"
  proof
    assume eq: "(q_from ?q + Suc t) mod ?n = q_to ?q"
    show "Suc t = q_total ?q"
    proof (rule ccontr)
      assume neq: "Suc t \<noteq> q_total ?q"
      then have lt: "Suc t < q_total ?q" "Suc t < ?n" "0 < ?n" using Suc.prems(1) ok by auto
      have "(q_from ?q + Suc t) mod ?n = (q_from ?q + q_total ?q mod ?n) mod ?n"
        using eq ok(3) by (simp add: mod_add_right_eq)
      then have "Suc t = q_total ?q mod ?n"
        using mod_offset_inj [OF lt(2) mod_less_divisor [OF lt(3)]] by blast
      then show False
        using lt ok(1) by (cases "q_total ?q = ?n") auto
    qed
  next
    assume e: "Suc t = q_total ?q"
    show "(q_from ?q + Suc t) mod ?n = q_to ?q" unfolding e ok(3) ..
  qed
  show ?case
  proof (cases "Suc t = q_total ?q")
    case True
    then have "drop (Suc t) ?r = []" by simp
    then show ?thesis using True b d i' stop by (simp add: Let_def)
  next
    case False
    then show ?thesis
      using Suc.IH [of "Suc t"] Suc.prems b d i' stop by (simp add: Let_def)
  qed
qed simp

text \<open>Deleting a block from its queue keeps the owner relation.\<close>
lemma del_owner:
  assumes "txmm_inv {} s" "owner_inv s" "k \<noteq> MTLK_TXMMB_NONE" "k \<noteq> MTLK_TXMMB_FREE"
    and "ring (max_msgs s) (ques s k) = xs @ b # ys"
  obtains s' where "mtlk_txmm_del_buf_from_que k b po s = (True, s')" "txmm_safe s'"
    "ring (max_msgs s) (ques s' k) = (if po then xs @ ys else swap_out xs ys)"
    "\<And>k'. k' \<noteq> k \<Longrightarrow> ques s' k' = ques s k'" "b_que (blocks s' b) = MTLK_TXMMB_NONE"
    "b < max_msgs s" "b_clb (blocks s' b) = b_clb (blocks s b)" "b_clb (blocks s b) \<noteq> None"
    "msgs s' = msgs s" "max_msgs s' = max_msgs s" "tx_log s' = tx_log s"
    "\<And>y. block_expired now (blocks s' y) = block_expired now (blocks s y)"
    "q_to (ques s' k) = q_to (ques s k)"
    "q_from (ques s' k) = INC_WRAP_IDX (q_from (ques s k)) (max_msgs s)"
    "\<And>c. c \<noteq> b \<Longrightarrow> owner_view (blocks s' c) = owner_view (blocks s c)"
proof -
  obtain s' where s': "mtlk_txmm_del_buf_from_que k b po s = (True, s')" "txmm_inv {} s'"
    "ring (max_msgs s) (ques s' k) = (if po then xs @ ys else swap_out xs ys)"
    "\<And>k'. k' \<noteq> k \<Longrightarrow> ques s' k' = ques s k'" "b_que (blocks s' b) = MTLK_TXMMB_NONE"
    "\<And>y. y \<noteq> b \<Longrightarrow> same_but_idx (blocks s' y) (blocks s y)"
    "\<exists>v. blocks s' b = (blocks s b)\<lparr>b_idx := v, b_que := MTLK_TXMMB_NONE\<rparr>"
    "s' = s\<lparr>ques := ques s', blocks := blocks s'\<rparr>" "q_to (ques s' k) = q_to (ques s k)"
    "q_from (ques s' k) = INC_WRAP_IDX (q_from (ques s k)) (max_msgs s)"
    using del_buf_inv [OF assms(1,3,5), of po] by metis
  have fields: "msgs s' = msgs s" "max_msgs s' = max_msgs s" "tx_log s' = tx_log s"
    by (subst s'(8), simp)+
  have b: "b < max_msgs s" "b_que (blocks s b) = k"
    using in_que_blocks(1,2) [OF txmm_inv_que [OF assms(1,3)], of b] assms(5) by (auto simp: in_que_def)
  have clb: "b_clb (blocks s b) \<noteq> None"
    using assms(2-4) b by (auto simp: owner_inv_def)
  have "owner_inv s'"
    using s'(5-7) fields b assms(4)
    by (intro owner_move [OF assms(2) b(1)]) (auto intro: owner_view_same_idx)
  moreover have "block_expired now (blocks s' y) = block_expired now (blocks s y)" for y
  proof (cases "y = b")
    case True
    then show ?thesis using s'(7) by (auto simp: block_expired_def)
  next
    case False
    then show ?thesis using same_but_idxD [OF s'(6) [OF False]] by (simp add: block_expired_def)
  qed
  moreover have "b_clb (blocks s' b) = b_clb (blocks s b)" using s'(7) by auto
  moreover have "owner_view (blocks s' c) = owner_view (blocks s c)" if "c \<noteq> b" for c
    using s'(6) [OF that] by (rule owner_view_same_idx)
  ultimately show ?thesis
    using that [OF s'(1)] s' fields b clb by (auto simp: txmm_safe_def)
qed

lemma on_cfm_take_spec:
  assumes "txmm_safe s"
  shows "case find (\<lambda>b. b_slot (blocks s b) = Some p) (ring (max_msgs s) (ques s MTLK_TXMMB_SENT)) of
      None \<Rightarrow> on_cfm_take p s = (None, s\<lparr>nof_cfmed := u32_inc (nof_cfmed s)\<rparr>)
    | Some b \<Rightarrow> \<exists>s'. on_cfm_take p s = (Some b, s') \<and> txmm_safe s' \<and> b < max_msgs s' \<and> max_msgs s' = max_msgs s
        \<and> b_que (blocks s' b) = MTLK_TXMMB_NONE \<and> b_clb (blocks s' b) \<noteq> None
        \<and> mset (ring (max_msgs s) (ques s MTLK_TXMMB_SENT)) = add_mset b (mset (ring (max_msgs s) (ques s' MTLK_TXMMB_SENT)))
        \<and> tx_log s' = tx_log s \<and> msgs s' = msgs s \<and> (\<forall>k. k \<noteq> MTLK_TXMMB_SENT \<longrightarrow> ques s' k = ques s k)
        \<and> b_que (blocks s b) = MTLK_TXMMB_SENT \<and> (\<forall>c. c \<noteq> b \<longrightarrow> owner_view (blocks s' c) = owner_view (blocks s c))"
proof -
  let ?r = "ring (max_msgs s) (ques s MTLK_TXMMB_SENT)"
  let ?s = "s\<lparr>nof_cfmed := u32_inc (nof_cfmed s)\<rparr>"
  have inv: "que_inv s MTLK_TXMMB_SENT" using txmm_safeD(1) [OF assms] by (simp add: txmm_inv_def)
  have inv': "que_inv ?s MTLK_TXMMB_SENT" using inv by (simp add: que_inv_def)
  have tk: "on_cfm_take p s = (case find (\<lambda>b. b_slot (blocks s b) = Some p) ?r of
      None \<Rightarrow> (None, ?s)
    | Some b \<Rightarrow> (Some b, snd (mtlk_txmm_del_buf_from_que MTLK_TXMMB_SENT b False ?s)))"
  proof (cases "q_total (ques s MTLK_TXMMB_SENT) = 0")
    case True
    then have "?r = []" by (simp add: ring_def)
    then show ?thesis using True by (simp add: on_cfm_take_def)
  next
    case False
    have "q_from (ques s MTLK_TXMMB_SENT) mod max_msgs s = q_from (ques s MTLK_TXMMB_SENT)"
      "q_total (ques s MTLK_TXMMB_SENT) \<le> max_msgs s"
      using inv by (auto simp: que_inv_def que_ok_def)
    then show ?thesis
      using cfm_search_find [OF inv', of 0 "max_msgs s" p] False by (simp add: on_cfm_take_def Let_def)
  qed
  show ?thesis
  proof (cases "find (\<lambda>b. b_slot (blocks s b) = Some p) ?r")
    case None
    then show ?thesis using tk by simp
  next
    case (Some b)
    then have "b \<in> set ?r" by (auto simp: find_Some_iff)
    then obtain xs ys where r: "?r = xs @ b # ys" by (meson split_list)
    have ok': "txmm_safe ?s" using assms by simp
    have r': "ring (max_msgs ?s) (ques ?s MTLK_TXMMB_SENT) = xs @ b # ys" using r by simp
    have nk: "MTLK_TXMMB_SENT \<noteq> MTLK_TXMMB_NONE" "MTLK_TXMMB_SENT \<noteq> MTLK_TXMMB_FREE" by simp_all
    obtain s' where s': "mtlk_txmm_del_buf_from_que MTLK_TXMMB_SENT b False ?s = (True, s')" "txmm_safe s'"
      "ring (max_msgs ?s) (ques s' MTLK_TXMMB_SENT) = (if False then xs @ ys else swap_out xs ys)"
      "\<And>k'. k' \<noteq> MTLK_TXMMB_SENT \<Longrightarrow> ques s' k' = ques ?s k'" "b_que (blocks s' b) = MTLK_TXMMB_NONE"
      "b < max_msgs ?s" "b_clb (blocks s' b) = b_clb (blocks ?s b)" "b_clb (blocks ?s b) \<noteq> None"
      "msgs s' = msgs ?s" "max_msgs s' = max_msgs ?s" "tx_log s' = tx_log ?s"
      "\<And>c. c \<noteq> b \<Longrightarrow> owner_view (blocks s' c) = owner_view (blocks ?s c)"
      by (rule del_owner [OF txmm_safeD(1,2) [OF ok'] nk r', of False]) blast
    have "b_que (blocks s b) = MTLK_TXMMB_SENT"
      using in_que_blocks(2) [OF inv, of b] r by (simp add: in_que_def)
    then show ?thesis
      using Some tk s' r by auto
  qed
qed

text \<open>The second locked section of a confirmation, on a block that has been taken out of the sent ring.\<close>
lemma on_cfm_finish_safe:
  assumes "txmm_safe s" "b < max_msgs s" "b_que (blocks s b) = MTLK_TXMMB_NONE" "b_clb (blocks s b) \<noteq> None"
  obtains r s' where "on_cfm_finish user now b p s = Some (r, s')" "txmm_safe s'" "max_msgs s' = max_msgs s"
    "ques s' MTLK_TXMMB_TIMED_OUT = ques s MTLK_TXMMB_TIMED_OUT" "\<And>c. c \<noteq> b \<Longrightarrow> blocks s' c = blocks s c"
proof -
  let ?t = "upd_block b (\<lambda>x. x\<lparr>b_payload := take (max_payload_size s) (slot_payload (hw_slots s p))\<rparr>) s"
  have "txmm_inv {} ?t"
    using txmm_inv_upd_block [of "{b}" s b] txmm_safeD(1) [OF assms(1)] txmm_inv_none [of s b]
      txmm_inv_none [of ?t b] assms(3) by simp
  moreover have "owner_inv ?t"
    using txmm_safeD(2) [OF assms(1)] by (subst owner_cong [of _ s]) (auto simp: owner_view_def)
  ultimately have safe: "txmm_safe ?t" by (simp add: txmm_safe_def)
  have pre: "b < max_msgs ?t" "b_que (blocks ?t b) = MTLK_TXMMB_NONE" "b_clb (blocks ?t b) \<noteq> None"
    using assms by auto
  obtain r s' where "mtlk_txmm_call_usr_clb_locked user now b MTLK_TXMM_CLBR_CONFIRMED ?t = Some (r, s')" "txmm_safe s'"
    "ques s' MTLK_TXMMB_TIMED_OUT = ques ?t MTLK_TXMMB_TIMED_OUT" "max_msgs s' = max_msgs ?t"
    "\<And>c. c \<noteq> b \<Longrightarrow> blocks s' c = blocks ?t c"
    by (rule call_usr_clb_safe [OF safe pre, of user now MTLK_TXMM_CLBR_CONFIRMED]) blast
  then show ?thesis
    using that by (auto simp: on_cfm_finish_def)
qed

lemma on_cfm_ok [wave_inv]:
  assumes "txmm_ok s"
  shows "\<exists>res s'. mtlk_txmm_on_cfm user now pmsg s = Some (res, s') \<and> txmm_ok s'"
proof (cases pmsg)
  case None
  then show ?thesis using assms by (simp add: mtlk_txmm_on_cfm_def)
next
  case (Some p)
  have safe: "txmm_safe s" and to: "q_total (ques s MTLK_TXMMB_TIMED_OUT) = 0" using assms by (auto simp: txmm_ok_safe)
  show ?thesis
  proof (cases "find (\<lambda>b. b_slot (blocks s b) = Some p) (ring (max_msgs s) (ques s MTLK_TXMMB_SENT))")
    case None
    then show ?thesis
      using on_cfm_take_spec [OF safe, of p] Some safe to by (simp add: mtlk_txmm_on_cfm_def txmm_ok_safe)
  next
    case (Some b)
    then obtain s1 where 1: "on_cfm_take p s = (Some b, s1)" "txmm_safe s1" "b < max_msgs s1"
      "b_que (blocks s1 b) = MTLK_TXMMB_NONE" "b_clb (blocks s1 b) \<noteq> None"
      "ques s1 MTLK_TXMMB_TIMED_OUT = ques s MTLK_TXMMB_TIMED_OUT"
      using on_cfm_take_spec [OF safe, of p] by auto
    obtain r s2 where "on_cfm_finish user now b p s1 = Some (r, s2)" "txmm_safe s2"
      "ques s2 MTLK_TXMMB_TIMED_OUT = ques s1 MTLK_TXMMB_TIMED_OUT"
      by (rule on_cfm_finish_safe [OF 1(2-5), of user now p]) blast
    then show ?thesis
      using 1 \<open>pmsg = Some p\<close> to by (simp add: mtlk_txmm_on_cfm_def txmm_ok_safe)
  qed
qed

subsection \<open>Cancellation\<close>

text \<open>A message may be cancelled unless its block is on its way from the timed-out ring to the callback.\<close>
lemma cancel_safe:
  assumes "txmm_safe s" "\<And>b. m_data (msgs s m) = Some b \<Longrightarrow> b_que (blocks s b) \<noteq> MTLK_TXMMB_TIMED_OUT"
  shows "txmm_safe (mtlk_txmm_msg_cancel m s) \<and> m_data (msgs (mtlk_txmm_msg_cancel m s) m) = None
    \<and> ques (mtlk_txmm_msg_cancel m s) MTLK_TXMMB_TIMED_OUT = ques s MTLK_TXMMB_TIMED_OUT
    \<and> (\<forall>c. m_data (msgs s m) \<noteq> Some c \<longrightarrow> owner_view (blocks (mtlk_txmm_msg_cancel m s) c) = owner_view (blocks s c))"
proof (cases "m_data (msgs s m)")
  case None
  then show ?thesis
    using assms by (auto simp: mtlk_txmm_msg_cancel_def split: option.splits)
next
  case (Some b)
  note A = attached_block [OF assms(1) Some]
  let ?k = "b_que (blocks s b)"
  have inv: "txmm_inv {} s" and own: "owner_inv s" using txmm_safeD [OF assms(1)] by auto
  have nto: "?k \<noteq> MTLK_TXMMB_TIMED_OUT" using assms(2) Some by blast
  define po where "po = (?k = MTLK_TXMMB_QUEUED)"
  define s0 where "s0 = (if ?k = MTLK_TXMMB_NONE then s else snd (mtlk_txmm_del_buf_from_que ?k b po s))"
  have s0: "txmm_safe s0 \<and> b_que (blocks s0 b) = MTLK_TXMMB_NONE \<and> msgs s0 = msgs s
      \<and> ques s0 MTLK_TXMMB_TIMED_OUT = ques s MTLK_TXMMB_TIMED_OUT \<and> (\<forall>c. c \<noteq> b \<longrightarrow> owner_view (blocks s0 c) = owner_view (blocks s c))"
  proof (cases "?k = MTLK_TXMMB_NONE")
    case True
    then show ?thesis using assms(1) by (simp add: s0_def)
  next
    case False
    then have "in_que s ?k b" using inv A(1) by (auto simp: txmm_inv_def)
    then obtain xs ys where r: "ring (max_msgs s) (ques s ?k) = xs @ b # ys"
      by (auto simp: in_que_def dest: split_list)
    obtain s' where "mtlk_txmm_del_buf_from_que ?k b po s = (True, s')" "txmm_safe s'"
      "\<And>k'. k' \<noteq> ?k \<Longrightarrow> ques s' k' = ques s k'" "b_que (blocks s' b) = MTLK_TXMMB_NONE" "msgs s' = msgs s"
      "\<And>c. c \<noteq> b \<Longrightarrow> owner_view (blocks s' c) = owner_view (blocks s c)"
      by (rule del_owner [OF inv own False A(2) r, of po]) blast
    then show ?thesis using False nto by (simp add: s0_def)
  qed
  define s1 where "s1 = mtlk_txmm_put_buf MTLK_TXMMB_FREE b (upd_block b zero_block s0)"
  have fr: "mtlk_txmm_free b s = s1"
    using A(2) nto by (cases ?k)
      (simp_all add: mtlk_txmm_free_def mtlk_txmm_free_buf_def s1_def s0_def po_def Let_def)
  have "txmm_safe (s1\<lparr>msgs := (msgs s1)(m := \<lparr>m_data = None, m_obj = None\<rparr>)\<rparr>)"
    using free_buf_safe [OF _ _ _ _ s1_def, of m] s0 Some txmm_inv_none [of s0 b] by (auto simp: txmm_safe_def)
  moreover have "mtlk_txmm_msg_cancel m s = s1\<lparr>msgs := (msgs s1)(m := \<lparr>m_data = None, m_obj = None\<rparr>)\<rparr>"
    using Some A(4) fr by (auto simp: mtlk_txmm_msg_cancel_def Let_def)
  ultimately show ?thesis
    using s0 Some by (auto simp: s1_def)
qed

text \<open>Between whole calls the timed-out ring is empty, so any message may be cancelled.\<close>
lemma cancel_ok [wave_inv]:
  assumes "txmm_ok s"
  shows "txmm_ok (mtlk_txmm_msg_cancel m s)" "m_data (msgs (mtlk_txmm_msg_cancel m s) m) = None"
proof -
  have safe: "txmm_safe s" and to: "q_total (ques s MTLK_TXMMB_TIMED_OUT) = 0" using assms by (auto simp: txmm_ok_safe)
  have "b_que (blocks s b) \<noteq> MTLK_TXMMB_TIMED_OUT" if "m_data (msgs s m) = Some b" for b
  proof
    assume "b_que (blocks s b) = MTLK_TXMMB_TIMED_OUT"
    then have "in_que s MTLK_TXMMB_TIMED_OUT b"
      using txmm_safeD(1) [OF safe] attached_block(1) [OF safe that] by (auto simp: txmm_inv_def)
    then show False using to by (auto elim: in_queE)
  qed
  from cancel_safe [OF safe this] to
  show "txmm_ok (mtlk_txmm_msg_cancel m s)" "m_data (msgs (mtlk_txmm_msg_cancel m s) m) = None"
    by (auto simp: txmm_ok_safe)
qed

subsection \<open>Time-outs\<close>

text \<open>
  Blocks that belong to nobody's queue are left alone by the operations on other blocks; \<open>X\<close> are the blocks that
  an operation may touch.
\<close>
definition keeps_none :: "nat set \<Rightarrow> txmm \<Rightarrow> txmm \<Rightarrow> bool" where
  "keeps_none X s s' = (\<forall>c. b_que (blocks s c) = MTLK_TXMMB_NONE \<longrightarrow> c \<notin> X \<longrightarrow> owner_view (blocks s' c) = owner_view (blocks s c))"

lemma keeps_none_refl [simp]: "keeps_none X s s"
  by (simp add: keeps_none_def)

lemma keeps_none_trans:
  assumes "keeps_none X s s'" "keeps_none X s' s''"
  shows "keeps_none X s s''"
  using assms by (auto simp: keeps_none_def owner_view_def)

lemma put_timed_out_safe:
  assumes "txmm_safe s" "b < max_msgs s" "b_que (blocks s b) = MTLK_TXMMB_NONE" "b_clb (blocks s b) \<noteq> None"
  shows "txmm_safe (mtlk_txmm_put_buf MTLK_TXMMB_TIMED_OUT b s)"
    "ring (max_msgs s) (ques (mtlk_txmm_put_buf MTLK_TXMMB_TIMED_OUT b s) MTLK_TXMMB_TIMED_OUT)
       = ring (max_msgs s) (ques s MTLK_TXMMB_TIMED_OUT) @ [b]"
proof -
  have inv: "txmm_inv {b} s" and own: "owner_inv s"
    using assms(1,3) txmm_inv_none [of s b] by (auto simp: txmm_safe_def)
  have "owner_inv (mtlk_txmm_put_buf MTLK_TXMMB_TIMED_OUT b s)"
    using assms by (intro owner_move [OF own assms(2)]) auto
  then show "txmm_safe (mtlk_txmm_put_buf MTLK_TXMMB_TIMED_OUT b s)"
    using put_buf_inv(1) [OF inv assms(2)] by (simp add: txmm_safe_def)
  show "ring (max_msgs s) (ques (mtlk_txmm_put_buf MTLK_TXMMB_TIMED_OUT b s) MTLK_TXMMB_TIMED_OUT)
       = ring (max_msgs s) (ques s MTLK_TXMMB_TIMED_OUT) @ [b]"
    using put_buf_inv(2) [OF inv assms(2)] by simp
qed

text \<open>
  The collecting loop, from a point of the ring that splits it into the visited part \<open>vis\<close> and the \<open>rest\<close>:
  the expired blocks of the rest go to the timed-out queue, in order, and nothing else moves.
\<close>
lemma timer_collect_effect:
  assumes "txmm_safe s" "k = MTLK_TXMMB_SENT \<or> k = MTLK_TXMMB_QUEUED"
    and "ring (max_msgs s) (ques s k) = vis @ rest" "q_total (ques s k) < max_msgs s" "length rest \<le> f"
    and "i = (q_from (ques s k) + length vis) mod max_msgs s"
  shows "\<exists>s' r'. timer_collect f now k po i s = (length (filter (\<lambda>b. block_expired now (blocks s b)) rest), s')
    \<and> txmm_safe s' \<and> max_msgs s' = max_msgs s \<and> tx_log s' = tx_log s
    \<and> ring (max_msgs s) (ques s' MTLK_TXMMB_TIMED_OUT) = ring (max_msgs s) (ques s MTLK_TXMMB_TIMED_OUT)
        @ filter (\<lambda>b. block_expired now (blocks s b)) rest
    \<and> ring (max_msgs s) (ques s' k) = r'
    \<and> mset r' = mset (vis @ filter (\<lambda>b. \<not> block_expired now (blocks s b)) rest)
    \<and> (po \<longrightarrow> r' = vis @ filter (\<lambda>b. \<not> block_expired now (blocks s b)) rest)
    \<and> (\<forall>k'. k' \<noteq> k \<longrightarrow> k' \<noteq> MTLK_TXMMB_TIMED_OUT \<longrightarrow> ques s' k' = ques s k') \<and> keeps_none {} s s'"
  using assms
proof (induction f arbitrary: s vis rest i)
  case 0
  then show ?case by auto
next
  case (Suc f)
  let ?n = "max_msgs s" and ?q = "ques s k"
  let ?E = "\<lambda>b. block_expired now (blocks s b)"
  have k: "k \<noteq> MTLK_TXMMB_NONE" "k \<noteq> MTLK_TXMMB_FREE" "k \<noteq> MTLK_TXMMB_TIMED_OUT"
    using Suc.prems(2) by auto
  have inv: "txmm_inv {} s" and own: "owner_inv s" using Suc.prems(1) by (auto simp: txmm_safe_def)
  have qok: "q_from ?q < ?n" "q_to ?q = (q_from ?q + q_total ?q) mod ?n"
    using txmm_inv_que [OF inv k(1)] by (auto simp: que_inv_def que_ok_def)
  have tot: "q_total ?q = length vis + length rest"
    using arg_cong [OF Suc.prems(3), of length] by simp
  have stop: "i = q_to ?q \<longleftrightarrow> rest = []"
    using mod_offset_inj [of "length vis" ?n "q_total ?q" "q_from ?q"] Suc.prems(4,6) qok tot by auto
  have i': "INC_WRAP_IDX i ?n = (q_from ?q + Suc (length vis)) mod ?n"
    using qok Suc.prems(6) INC_WRAP_IDX_mod [of i ?n] by (simp add: mod_Suc_eq)
  show ?case
  proof (cases rest)
    case Nil
    then show ?thesis using stop Suc.prems(1,3) by auto
  next
    case (Cons b ys)
    have b: "q_ptr ?q ! i = b"
      using ring_nth [of "length vis" ?q ?n] tot Cons Suc.prems(3,6) by simp
    show ?thesis
    proof (cases "?E b")
      case False
      have "ring ?n ?q = (vis @ [b]) @ ys" using Suc.prems(3) Cons by simp
      from Suc.IH [OF Suc.prems(1,2) this Suc.prems(4)]
      show ?thesis using Suc.prems(5) Cons False b stop i' by (simp add: Let_def)
    next
      case True
      have r: "ring ?n ?q = vis @ b # ys" using Suc.prems(3) Cons by simp
      obtain s1 where d: "mtlk_txmm_del_buf_from_que k b po s = (True, s1)" "txmm_safe s1"
        "ring ?n (ques s1 k) = (if po then vis @ ys else swap_out vis ys)"
        "\<And>k'. k' \<noteq> k \<Longrightarrow> ques s1 k' = ques s k'" "b_que (blocks s1 b) = MTLK_TXMMB_NONE"
        "b < ?n" "b_clb (blocks s1 b) = b_clb (blocks s b)" "b_clb (blocks s b) \<noteq> None"
        "max_msgs s1 = ?n" "tx_log s1 = tx_log s"
        "\<And>y. block_expired now (blocks s1 y) = block_expired now (blocks s y)"
        "q_to (ques s1 k) = q_to ?q" "q_from (ques s1 k) = INC_WRAP_IDX (q_from ?q) ?n"
        "\<And>c. c \<noteq> b \<Longrightarrow> owner_view (blocks s1 c) = owner_view (blocks s c)"
        by (rule del_owner [OF inv own k(1,2) r, of po now]) blast
      define s2 where "s2 = mtlk_txmm_put_buf MTLK_TXMMB_TIMED_OUT b s1"
      have p: "txmm_safe s2" "ring ?n (ques s2 MTLK_TXMMB_TIMED_OUT) = ring ?n (ques s MTLK_TXMMB_TIMED_OUT) @ [b]"
        using put_timed_out_safe [OF d(2), of b] d(4) [of MTLK_TXMMB_TIMED_OUT] d(5-9) k(3) by (auto simp: s2_def)
      have q2: "ques s2 k = ques s1 k" "max_msgs s2 = ?n" "tx_log s2 = tx_log s"
        "\<And>k'. k' \<noteq> k \<Longrightarrow> k' \<noteq> MTLK_TXMMB_TIMED_OUT \<Longrightarrow> ques s2 k' = ques s k'"
        using d k(3) by (auto simp: s2_def)
      have "b_que (blocks s b) = k" using in_que_blocks(2) [OF txmm_inv_que [OF inv k(1)], of b] r by (simp add: in_que_def)
      then have kn: "keeps_none {} s s2" using d(14) k(1) by (auto simp: keeps_none_def s2_def)
      have E2: "block_expired now (blocks s2 y) = ?E y" for y
        using d(11) by (simp add: s2_def block_expired_def)
      define vis' where "vis' = (if po then vis else swap_out vis [])"
      have v: "ring ?n (ques s2 k) = vis' @ ys" "length vis' = length vis" "mset vis' = mset vis"
        using d(3) q2(1) by (cases vis; auto simp: vis'_def)+
      have "q_total (ques s2 k) = length vis + length ys"
        using arg_cong [OF v(1), of length] v(2) by simp
      then have t2: "q_total (ques s2 k) < max_msgs s2" using tot Cons Suc.prems(4) q2(2) by simp
      have i2: "INC_WRAP_IDX i ?n = (q_from (ques s2 k) + length vis') mod max_msgs s2"
        using i' d(13) q2 v(2) INC_WRAP_IDX_mod [OF qok(1)] by (simp add: mod_add_left_eq)
      have v': "ring (max_msgs s2) (ques s2 k) = vis' @ ys" using v(1) q2(2) by simp
      have "length ys \<le> f" using Suc.prems(5) Cons by simp
      from Suc.IH [OF p(1) Suc.prems(2) v' t2 this i2]
      obtain s' r' where IH: "timer_collect f now k po (INC_WRAP_IDX i ?n) s2 = (length (filter ?E ys), s')"
        "txmm_safe s'" "max_msgs s' = ?n" "tx_log s' = tx_log s"
        "ring ?n (ques s' MTLK_TXMMB_TIMED_OUT) = ring ?n (ques s MTLK_TXMMB_TIMED_OUT) @ [b] @ filter ?E ys"
        "ring ?n (ques s' k) = r'" "mset r' = mset (vis @ filter (\<lambda>b. \<not> ?E b) ys)"
        "po \<longrightarrow> r' = vis @ filter (\<lambda>b. \<not> ?E b) ys"
        "\<forall>k'. k' \<noteq> k \<longrightarrow> k' \<noteq> MTLK_TXMMB_TIMED_OUT \<longrightarrow> ques s' k' = ques s k'" "keeps_none {} s2 s'"
        using E2 q2 p(2) v(3) by (auto simp: vis'_def)
      have "timer_collect (Suc f) now k po i s = (1 + length (filter ?E ys), s')"
        using stop Cons b True d(1) IH(1) by (simp add: Let_def s2_def)
      then show ?thesis
        using IH Cons True keeps_none_trans [OF kn IH(10)] by auto
    qed
  qed
qed

text \<open>The blocks whose callback was called, in order.\<close>
fun clb_of :: "txmm_event \<Rightarrow> nat list" where
  "clb_of (Clb_called b r) = [b]"
| "clb_of _ = []"

definition clb_blocks :: "txmm \<Rightarrow> nat list" where
  "clb_blocks s = concat (map clb_of (tx_log s))"

lemma timer_report_effect:
  assumes "txmm_safe s" "q_total (ques s MTLK_TXMMB_TIMED_OUT) \<le> f"
  shows "\<exists>s'. timer_report f user now reason s = Some s' \<and> txmm_ok s' \<and> max_msgs s' = max_msgs s
    \<and> clb_blocks s' = clb_blocks s @ ring (max_msgs s) (ques s MTLK_TXMMB_TIMED_OUT)
    \<and> ques s' MTLK_TXMMB_SENT = ques s MTLK_TXMMB_SENT"
  using assms
proof (induction f arbitrary: s)
  case 0
  then show ?case by (simp add: txmm_ok_safe ring_def)
next
  case (Suc f)
  let ?q = "ques s MTLK_TXMMB_TIMED_OUT" and ?n = "max_msgs s"
  show ?case
  proof (cases "q_total ?q = 0")
    case True
    then show ?thesis using Suc.prems by (simp add: txmm_ok_safe ring_def)
  next
    case False
    have inv: "txmm_inv {} s" and own: "owner_inv s" using Suc.prems(1) by (auto simp: txmm_safe_def)
    have nk: "MTLK_TXMMB_TIMED_OUT \<noteq> MTLK_TXMMB_NONE" "MTLK_TXMMB_TIMED_OUT \<noteq> MTLK_TXMMB_FREE" by simp_all
    obtain b ys where r: "ring ?n ?q = b # ys"
      using False length_ring [of ?n ?q] by (cases "ring ?n ?q") auto
    have "q_from ?q < ?n" using txmm_inv_que [OF inv nk(1)] by (auto simp: que_inv_def que_ok_def)
    then have b: "q_ptr ?q ! q_from ?q = b"
      using ring_nth [of 0 ?q ?n] False r by simp
    have r0: "ring ?n ?q = [] @ b # ys" using r by simp
    obtain s1 where d: "mtlk_txmm_del_buf_from_que MTLK_TXMMB_TIMED_OUT b False s = (True, s1)" "txmm_safe s1"
        "ring ?n (ques s1 MTLK_TXMMB_TIMED_OUT) = (if False then [] @ ys else swap_out [] ys)"
        "\<And>k'. k' \<noteq> MTLK_TXMMB_TIMED_OUT \<Longrightarrow> ques s1 k' = ques s k'" "b_que (blocks s1 b) = MTLK_TXMMB_NONE"
        "b < ?n" "b_clb (blocks s1 b) = b_clb (blocks s b)" "b_clb (blocks s b) \<noteq> None"
        "max_msgs s1 = ?n" "tx_log s1 = tx_log s"
      by (rule del_owner [OF inv own nk r0, of False]) blast
    define s2 where "s2 = tx_emit (Msg_timed_out (b_msg_id (blocks s1 b))) s1"
    have 2: "txmm_safe s2" "b < max_msgs s2" "b_que (blocks s2 b) = MTLK_TXMMB_NONE" "b_clb (blocks s2 b) \<noteq> None"
      "max_msgs s2 = ?n" "ques s2 = ques s1" "clb_blocks s2 = clb_blocks s"
      using d txmm_safe_cong [of s2 s1] by (auto simp: s2_def tx_emit_def clb_blocks_def)
    obtain rq s3 where c: "mtlk_txmm_call_usr_clb_locked user now b reason s2 = Some (rq, s3)" "txmm_safe s3"
      "ques s3 MTLK_TXMMB_TIMED_OUT = ques s2 MTLK_TXMMB_TIMED_OUT" "ques s3 MTLK_TXMMB_SENT = ques s2 MTLK_TXMMB_SENT"
      "max_msgs s3 = max_msgs s2" "tx_log s3 = tx_log s2 @ [Clb_called b reason]"
      by (rule call_usr_clb_safe [OF 2(1-4), of user now reason]) blast
    have r3: "ring ?n (ques s3 MTLK_TXMMB_TIMED_OUT) = ys" using c(3) 2(6) d(3) by simp
    have "q_total (ques s3 MTLK_TXMMB_TIMED_OUT) \<le> f"
      using arg_cong [OF r3, of length] arg_cong [OF r, of length] Suc.prems(2) by simp
    from Suc.IH [OF c(2) this] obtain s' where
      "timer_report f user now reason s3 = Some s'" "txmm_ok s'" "max_msgs s' = ?n"
      "clb_blocks s' = clb_blocks s3 @ ys" "ques s' MTLK_TXMMB_SENT = ques s MTLK_TXMMB_SENT"
      using c 2 r3 d(4) [of MTLK_TXMMB_SENT] by auto
    moreover have "clb_blocks s3 = clb_blocks s @ [b]"
      using c(6) 2(7) by (simp add: clb_blocks_def)
    ultimately show ?thesis
      using False b d(1) c(1) r by (simp add: Let_def s2_def)
  qed
qed

text \<open>A full ring has \<^verbatim>\<open>from = to\<close>, so the collecting loop does not run at all.\<close>
lemma timer_collect_full:
  assumes "txmm_safe s" "k \<noteq> MTLK_TXMMB_NONE" "q_total (ques s k) = max_msgs s"
  shows "timer_collect f now k po (q_from (ques s k)) s = (0, s)"
proof -
  have "q_to (ques s k) = q_from (ques s k)"
    using txmm_inv_que [OF txmm_safeD(1) [OF assms(1)] assms(2)] assms(3) by (auto simp: que_inv_def que_ok_def)
  then show ?thesis by (cases f) auto
qed

lemma timer_report_idle:
  "q_total (ques s MTLK_TXMMB_TIMED_OUT) = 0 \<Longrightarrow> timer_report f user now reason s = Some s"
  by (cases f) auto

lemma ring_empty [simp]: "q_total q = 0 \<Longrightarrow> ring n q = []"
  by (simp add: ring_def)

lemma on_timer_que_effect:
  assumes "txmm_ok s" "k = MTLK_TXMMB_SENT \<or> k = MTLK_TXMMB_QUEUED" "q_total (ques s k) < max_msgs s"
  shows "\<exists>s'. mtlk_txmm_on_timer_que user now k reason po s
      = Some (length (filter (\<lambda>b. block_expired now (blocks s b)) (ring (max_msgs s) (ques s k))), s')
    \<and> txmm_ok s' \<and> max_msgs s' = max_msgs s
    \<and> clb_blocks s' = clb_blocks s @ filter (\<lambda>b. block_expired now (blocks s b)) (ring (max_msgs s) (ques s k))
    \<and> (k = MTLK_TXMMB_SENT \<longrightarrow> mset (ring (max_msgs s) (ques s' k))
         = mset (filter (\<lambda>b. \<not> block_expired now (blocks s b)) (ring (max_msgs s) (ques s k))))"
proof -
  let ?n = "max_msgs s" and ?q = "ques s k"
  let ?E = "\<lambda>b. block_expired now (blocks s b)"
  have k: "k \<noteq> MTLK_TXMMB_NONE" using assms(2) by auto
  have safe: "txmm_safe s" and to0: "q_total (ques s MTLK_TXMMB_TIMED_OUT) = 0"
    using assms(1) by (auto simp: txmm_ok_safe)
  have q: "que_ok ?n ?q" using txmm_inv_que [OF txmm_okD(1) [OF assms(1)] k] by (simp add: que_inv_def)
  then have i: "q_from ?q = (q_from ?q + length []) mod ?n" and len: "length (ring ?n ?q) \<le> ?n"
    by (auto simp: que_ok_def)
  have r: "ring ?n ?q = [] @ ring ?n ?q" by simp
  obtain s1 r' where C: "timer_collect ?n now k po (q_from ?q) s = (length (filter ?E (ring ?n ?q)), s1)"
    "txmm_safe s1" "max_msgs s1 = ?n" "tx_log s1 = tx_log s"
    "ring ?n (ques s1 MTLK_TXMMB_TIMED_OUT) = filter ?E (ring ?n ?q)"
    "ring ?n (ques s1 k) = r'" "mset r' = mset (filter (\<lambda>b. \<not> ?E b) (ring ?n ?q))"
    using timer_collect_effect [OF safe assms(2) r assms(3) len i, of now po] to0 by auto
  have "q_total (ques s1 MTLK_TXMMB_TIMED_OUT) \<le> ?n"
    using arg_cong [OF C(5), of length] len length_filter_le [of ?E "ring ?n ?q"] by simp
  from timer_report_effect [OF C(2) this, of user now reason]
  obtain s' where R: "timer_report ?n user now reason s1 = Some s'" "txmm_ok s'" "max_msgs s' = ?n"
    "clb_blocks s' = clb_blocks s1 @ filter ?E (ring ?n ?q)" "ques s' MTLK_TXMMB_SENT = ques s1 MTLK_TXMMB_SENT"
    using C(3,5) by auto
  moreover have "clb_blocks s1 = clb_blocks s" using C(4) by (simp add: clb_blocks_def)
  ultimately show ?thesis
    using C(1,6,7) by (auto simp: mtlk_txmm_on_timer_que_def)
qed

lemma on_timer_que_ok:
  assumes "txmm_ok s" "k = MTLK_TXMMB_SENT \<or> k = MTLK_TXMMB_QUEUED"
  shows "\<exists>n s'. mtlk_txmm_on_timer_que user now k reason po s = Some (n, s') \<and> txmm_ok s' \<and> max_msgs s' = max_msgs s"
proof (cases "q_total (ques s k) < max_msgs s")
  case True
  then show ?thesis using on_timer_que_effect [OF assms True] by blast
next
  case False
  have k: "k \<noteq> MTLK_TXMMB_NONE" using assms(2) by auto
  have "q_total (ques s k) = max_msgs s"
    using False txmm_inv_que [OF txmm_okD(1) [OF assms(1)] k] by (auto simp: que_inv_def que_ok_def)
  then show ?thesis
    using assms(1) timer_collect_full [OF _ k, of s] timer_report_idle [of s] txmm_okD(3) [OF assms(1)]
    by (simp add: mtlk_txmm_on_timer_que_def txmm_ok_safe)
qed

text \<open>One collecting section, whatever the fill of the ring.\<close>
lemma timer_collect_safe:
  assumes "txmm_safe s" "k = MTLK_TXMMB_SENT \<or> k = MTLK_TXMMB_QUEUED"
  shows "\<exists>c s'. timer_collect (max_msgs s) now k po (q_from (ques s k)) s = (c, s') \<and> txmm_safe s' \<and> max_msgs s' = max_msgs s
    \<and> keeps_none {} s s'"
proof (cases "q_total (ques s k) < max_msgs s")
  case True
  have "que_ok (max_msgs s) (ques s k)" using txmm_inv_que [OF txmm_safeD(1) [OF assms(1)], of k] assms(2) by (auto simp: que_inv_def)
  then have "length (ring (max_msgs s) (ques s k)) \<le> max_msgs s" "q_from (ques s k) = (q_from (ques s k) + length []) mod max_msgs s"
    by (auto simp: que_ok_def)
  from timer_collect_effect [OF assms _ True this, of now po] show ?thesis by auto
next
  case False
  have k: "k \<noteq> MTLK_TXMMB_NONE" using assms(2) by auto
  have "q_total (ques s k) = max_msgs s"
    using False txmm_inv_que [OF txmm_safeD(1) [OF assms(1)] k] by (auto simp: que_inv_def que_ok_def)
  then show ?thesis using assms(1) timer_collect_full [OF assms(1) k] by simp
qed

lemma on_timer_ok [wave_inv]:
  assumes "txmm_ok s"
  shows "\<exists>s'. mtlk_txmm_on_timer user now s = Some s' \<and> txmm_ok s' \<and> max_msgs s' = max_msgs s"
proof -
  obtain n1 s1 where 1: "mtlk_txmm_on_timer_que user now MTLK_TXMMB_SENT MTLK_TXMM_CLBR_TIMEOUT_SENT False s
      = Some (n1, s1)" "txmm_ok s1" "max_msgs s1 = max_msgs s"
    using on_timer_que_ok [OF assms, of MTLK_TXMMB_SENT] by blast
  obtain n2 s2 where "mtlk_txmm_on_timer_que user now MTLK_TXMMB_QUEUED MTLK_TXMM_CLBR_TIMEOUT_UNSENT True s1
      = Some (n2, s2)" "txmm_ok s2" "max_msgs s2 = max_msgs s1"
    using on_timer_que_ok [OF 1(2), of MTLK_TXMMB_QUEUED] by blast
  then show ?thesis using 1 by (simp add: mtlk_txmm_on_timer_def)
qed

lemma init_ok [wave_inv]:
  assumes "0 < n"
  shows "txmm_ok (mtlk_txmm_init n psize pool)"
proof -
  let ?s = "mtlk_txmm_init n psize pool"
  have r: "ring n (ques ?s MTLK_TXMMB_FREE) = [0..<n]"
    by (auto simp: ring_def mtlk_txmm_init_def intro: nth_equalityI)
  have "que_inv ?s k" if "k \<noteq> MTLK_TXMMB_NONE" for k
    using assms by (auto simp: que_inv_def que_ok_def mtlk_txmm_init_def empty_que_def zero_block_def Let_def)
  moreover have "in_que ?s MTLK_TXMMB_FREE b" if "b < n" for b
    using that r by (simp add: in_que_def mtlk_txmm_init_def)
  ultimately have "txmm_inv {} ?s"
    by (auto simp: txmm_inv_def) (auto simp: mtlk_txmm_init_def zero_block_def)
  then show ?thesis
    by (simp add: txmm_ok_def owner_inv_def) (simp add: mtlk_txmm_init_def zero_block_def empty_que_def)
qed

subsection \<open>What the operations leave alone\<close>

lemma prepare_frame [simp]:
  "ques (mtlk_txmm_send_block_prepare b p s) MTLK_TXMMB_TIMED_OUT = ques s MTLK_TXMMB_TIMED_OUT"
  "c \<noteq> b \<Longrightarrow> blocks (mtlk_txmm_send_block_prepare b p s) c = blocks s c"
  by (simp_all add: mtlk_txmm_send_block_prepare_def Let_def)

lemma get_from_pool_frame:
  assumes "msg_get_from_pool s = (p, s')"
  shows "ques s' = ques s" "blocks s' = blocks s"
  using assms by (auto simp: msg_get_from_pool_def split: list.splits)

lemma pump_locked_frame:
  assumes "txmm_safe s" "mtlk_txmm_pump_locked pm s = (r, v, st, s')"
  shows "ques s' MTLK_TXMMB_TIMED_OUT = ques s MTLK_TXMMB_TIMED_OUT \<and> keeps_none {} s s'"
proof (cases "q_total (ques s MTLK_TXMMB_QUEUED) = 0")
  case True
  then show ?thesis using assms(2) by (auto simp: mtlk_txmm_pump_locked_def msg_free_to_pool_def keeps_none_def split: option.splits)
next
  case False
  obtain p1 s1 where 1: "(case pm of None \<Rightarrow> msg_get_from_pool s | Some p \<Rightarrow> (Some p, s)) = (p1, s1)" by fastforce
  have s1: "ques s1 = ques s" "blocks s1 = blocks s" "txmm_safe s1"
    using 1 assms(1) get_from_pool_frame [of s p1 s1] by (auto simp: msg_get_from_pool_def split: option.splits list.splits)
  show ?thesis
  proof (cases "p1 = None \<or> mtlk_txmm_get_buf MTLK_TXMMB_QUEUED s1 = None")
    case True
    then show ?thesis using assms(2) False 1 s1 by (auto simp: mtlk_txmm_pump_locked_def keeps_none_def split: option.splits)
  next
    case False2: False
    then obtain p b s2 where 2: "p1 = Some p" "mtlk_txmm_get_buf MTLK_TXMMB_QUEUED s1 = Some (b, s2)" by auto
    note G = get_buf_inv [OF txmm_safeD(1) [OF s1(3)] 2(2)]
    have "s' = mtlk_txmm_send_block_prepare b p s2" using assms(2) False 1 2 by (simp add: mtlk_txmm_pump_locked_def Let_def)
    moreover have "c \<noteq> b" if "b_que (blocks s c) = MTLK_TXMMB_NONE" for c using that G(3) s1(2) by auto
    ultimately show ?thesis using G(5) G(9) [of MTLK_TXMMB_TIMED_OUT] s1(1,2) by (simp add: keeps_none_def)
  qed
qed

lemma pump_frame:
  assumes "txmm_safe s"
  shows "ques (mtlk_txmm_pump pm s) MTLK_TXMMB_TIMED_OUT = ques s MTLK_TXMMB_TIMED_OUT \<and> keeps_none {} s (mtlk_txmm_pump pm s)"
proof -
  obtain r v st s' where p: "mtlk_txmm_pump_locked pm s = (r, v, st, s')" by (metis prod_cases4)
  have "ques (mtlk_txmm_pump pm s) = ques s'" "blocks (mtlk_txmm_pump pm s) = blocks s'"
    using p by (cases r; cases st; simp add: mtlk_txmm_pump_def tx_emit_def)+
  then show ?thesis using pump_locked_frame [OF assms p] by (simp add: keeps_none_def)
qed

lemma attach_data_frame:
  assumes "txmm_safe s"
  shows "ques (mtlk_txmm_attach_data vap m s) MTLK_TXMMB_TIMED_OUT = ques s MTLK_TXMMB_TIMED_OUT
    \<and> keeps_none {} s (mtlk_txmm_attach_data vap m s)"
proof (cases "\<not> tx_active s \<or> mtlk_txmm_get_buf MTLK_TXMMB_FREE s = None")
  case True
  then show ?thesis by (auto simp: mtlk_txmm_attach_data_def keeps_none_def split: option.splits)
next
  case False
  then obtain b s1 where g: "mtlk_txmm_get_buf MTLK_TXMMB_FREE s = Some (b, s1)" and act: "tx_active s" by auto
  note G = get_buf_inv [OF txmm_safeD(1) [OF assms] g]
  show ?thesis
    using act g G(3,5) G(9) [of MTLK_TXMMB_TIMED_OUT]
    by (auto simp: mtlk_txmm_attach_data_def mtlk_txmm_adjust_usage_stats_def keeps_none_def Let_def)
qed

lemma send_ex_frame:
  assumes "txmm_safe s" "b < max_msgs s" "b_que (blocks s b) = MTLK_TXMMB_NONE"
  shows "ques (mtlk_txmm_send_ex vap b clb tmo now s) MTLK_TXMMB_TIMED_OUT = ques s MTLK_TXMMB_TIMED_OUT
    \<and> keeps_none {b} s (mtlk_txmm_send_ex vap b clb tmo now s)"
proof -
  define s1 where "s1 = upd_block b (\<lambda>x. x\<lparr>b_slot := None, b_clb := Some clb, b_timeout := tmo, b_vap := vap,
                 b_send_time := (if tmo \<noteq> 0 then now else b_send_time x)\<rparr>) s"
  obtain pm s2 where g: "msg_get_from_pool s1 = (pm, s2)" by fastforce
  have s2: "ques s2 = ques s" "\<And>c. c \<noteq> b \<Longrightarrow> blocks s2 c = blocks s c"
    using get_from_pool_frame [OF g] by (simp_all add: s1_def)
  let ?q = "mtlk_txmm_put_buf MTLK_TXMMB_QUEUED b s2"
  have q: "ques ?q MTLK_TXMMB_TIMED_OUT = ques s MTLK_TXMMB_TIMED_OUT" "keeps_none {b} s ?q"
    using s2 by (auto simp: keeps_none_def)
  have "txmm_safe ?q" using send_ex_queue_safe(1) [OF assms s1_def g] .
  note pumped = pump_locked_frame [OF this]
  show ?thesis
    unfolding mtlk_txmm_send_ex_def Let_def s1_def [symmetric] g prod.case
    using q s2 pumped keeps_none_trans [OF q(2)]
    by (auto simp: tx_emit_def keeps_none_def split: option.splits prod.splits)
qed

lemma msg_send_frame:
  assumes "txmm_safe s" "m_data (msgs s m) = Some b" "b_que (blocks s b) = MTLK_TXMMB_NONE" "mtlk_txmm_msg_send m clb tmo now s = Some (e, s')"
  shows "ques s' MTLK_TXMMB_TIMED_OUT = ques s MTLK_TXMMB_TIMED_OUT \<and> keeps_none {b} s s'"
  using send_ex_frame [OF assms(1) attached_block(1) [OF assms(1,2)] assms(3)] assms(2,4)
  by (auto simp: mtlk_txmm_msg_send_def split: option.splits)

section \<open>Whole calls, one after another\<close>

datatype txmm_op =
    Op_get_empty nat nat
  | Op_send nat nat nat nat
  | Op_pump "nat option"
  | Op_cfm nat "nat option"
  | Op_cancel nat
  | Op_timer nat
  | Op_start
  | Op_halt

text \<open>
  One whole call, with nothing in between; \<^term>\<open>None\<close> is a null pointer dereference.  \<open>op_allowed\<close> is what the callers respect: a message is
  sent after it was attached and only while it is not already on its way.
\<close>
fun txmm_step :: "(nat \<Rightarrow> txmm_block \<Rightarrow> txmm_clb_reason \<Rightarrow> txmm_clb_action) \<Rightarrow> txmm_op \<Rightarrow> txmm \<Rightarrow> txmm option" where
  "txmm_step user (Op_get_empty m vap) s = Some (snd (mtlk_txmm_msg_get_empty_data m vap s))"
| "txmm_step user (Op_send m clb tmo now) s = map_option snd (mtlk_txmm_msg_send m clb tmo now s)"
| "txmm_step user (Op_pump p) s = Some (mtlk_txmm_pump p s)"
| "txmm_step user (Op_cfm now p) s = map_option snd (mtlk_txmm_on_cfm user now p s)"
| "txmm_step user (Op_cancel m) s = Some (mtlk_txmm_msg_cancel m s)"
| "txmm_step user (Op_timer now) s = mtlk_txmm_on_timer user now s"
| "txmm_step user Op_start s = Some (mtlk_txmm_start s)"
| "txmm_step user Op_halt s = Some (mtlk_txmm_halt s)"

fun op_allowed :: "txmm_op \<Rightarrow> txmm \<Rightarrow> bool" where
  "op_allowed (Op_send m clb tmo now) s =
     (case m_data (msgs s m) of None \<Rightarrow> False | Some b \<Rightarrow> b_que (blocks s b) = MTLK_TXMMB_NONE)"
| "op_allowed _ s = True"

inductive txmm_reach :: "(nat \<Rightarrow> txmm_block \<Rightarrow> txmm_clb_reason \<Rightarrow> txmm_clb_action) \<Rightarrow> nat \<Rightarrow> nat \<Rightarrow> nat list
    \<Rightarrow> txmm \<Rightarrow> bool" for user n psize pool where
  txmm_reach_init: "txmm_reach user n psize pool (mtlk_txmm_init n psize pool)"
| txmm_reach_step: "txmm_reach user n psize pool s \<Longrightarrow> op_allowed op s \<Longrightarrow> txmm_step user op s = Some s'
    \<Longrightarrow> txmm_reach user n psize pool s'"

lemma msg_get_empty_safe:
  assumes "txmm_safe s"
  shows "txmm_safe (snd (mtlk_txmm_msg_get_empty_data m vap s))
    \<and> ques (snd (mtlk_txmm_msg_get_empty_data m vap s)) MTLK_TXMMB_TIMED_OUT = ques s MTLK_TXMMB_TIMED_OUT
    \<and> keeps_none {} s (snd (mtlk_txmm_msg_get_empty_data m vap s))"
proof (cases "m_obj (msgs s m)")
  case None
  then have "m_data (msgs s m) = None" using txmm_safeD(2) [OF assms] by (simp add: owner_inv_def)
  then show ?thesis
    using None attach_data_safe [OF assms] attach_data_frame [OF assms] by (simp add: mtlk_txmm_msg_get_empty_data_def Let_def)
qed (use assms in \<open>simp add: mtlk_txmm_msg_get_empty_data_def\<close>)

lemma step_ok:
  assumes "txmm_ok s" "op_allowed op s"
  shows "\<exists>s'. txmm_step user op s = Some s' \<and> txmm_ok s'"
proof (cases op)
  case (Op_get_empty m vap)
  then show ?thesis using msg_get_empty_safe [of s m vap] assms(1) by (simp add: txmm_ok_safe)
next
  case (Op_send m clb tmo now)
  then obtain b where "m_data (msgs s m) = Some b" "b_que (blocks s b) = MTLK_TXMMB_NONE"
    using assms(2) by (auto split: option.splits)
  moreover have "txmm_safe s" using assms(1) by (simp add: txmm_ok_safe)
  ultimately show ?thesis
    using msg_send_safe [of s m b clb tmo now] msg_send_frame [of s m b clb tmo now] Op_send assms(1) by (auto simp: txmm_ok_safe)
next
  case (Op_cfm now p)
  then show ?thesis using on_cfm_ok [OF assms(1), of user now p] by auto
next
  case (Op_timer now)
  then show ?thesis using on_timer_ok [OF assms(1), of user now] by auto
qed (use assms pump_safe [of s] pump_frame [of s] cancel_ok(1) in \<open>auto simp: mtlk_txmm_start_def mtlk_txmm_halt_def txmm_ok_safe\<close>)

lemma reach_ok:
  assumes "txmm_reach user n psize pool s" "0 < n"
  shows "txmm_ok s"
  using assms(1)
proof induction
  case txmm_reach_init
  then show ?case by (rule init_ok [OF assms(2)])
next
  case (txmm_reach_step s op s')
  then show ?case using step_ok [of s op user] by auto
qed

subsection \<open>The number of blocks is fixed\<close>

lemma max_msgs_basic [simp]:
  "max_msgs (upd_block b f s) = max_msgs s" "max_msgs (upd_que k g s) = max_msgs s"
  "max_msgs (tx_emit e s) = max_msgs s" "max_msgs (move_entry k i x s) = max_msgs s"
  "max_msgs (msg_free_to_pool p s) = max_msgs s" "max_msgs (mtlk_txmm_adjust_usage_stats s) = max_msgs s"
  by (simp_all add: upd_block_def upd_que_def tx_emit_def move_entry_def msg_free_to_pool_def
      mtlk_txmm_adjust_usage_stats_def Let_def)

lemma max_msgs_shift [simp]: "max_msgs (shift_loop f k i s) = max_msgs s"
  by (induction f k i s rule: shift_loop.induct) (simp_all add: Let_def)

lemma max_msgs_del [simp]: "max_msgs (snd (mtlk_txmm_del_buf_from_que k b po s)) = max_msgs s"
  by (simp add: mtlk_txmm_del_buf_from_que_def Let_def)

lemma max_msgs_get: "mtlk_txmm_get_buf k s = Some (b, s') \<Longrightarrow> max_msgs s' = max_msgs s"
  by (auto simp: mtlk_txmm_get_buf_def split: if_splits option.splits)

lemma max_msgs_free_buf [simp]: "max_msgs (mtlk_txmm_free_buf b d po s) = max_msgs s"
  by (simp add: mtlk_txmm_free_buf_def Let_def)

lemma max_msgs_pool: "msg_get_from_pool s = (p, s') \<Longrightarrow> max_msgs s' = max_msgs s"
  by (auto simp: msg_get_from_pool_def split: list.splits)

lemma max_msgs_prepare [simp]: "max_msgs (mtlk_txmm_send_block_prepare b p s) = max_msgs s"
  by (simp add: mtlk_txmm_send_block_prepare_def Let_def)

lemma max_msgs_pump_locked: "mtlk_txmm_pump_locked pm s = (r, v, st, s') \<Longrightarrow> max_msgs s' = max_msgs s"
  by (auto simp: mtlk_txmm_pump_locked_def Let_def split: if_splits option.splits prod.splits
      dest!: max_msgs_get max_msgs_pool)

lemma max_msgs_pump [simp]: "max_msgs (mtlk_txmm_pump pm s) = max_msgs s"
  by (auto simp: mtlk_txmm_pump_def split: prod.splits option.splits txmm_status.splits dest: max_msgs_pump_locked)

lemma max_msgs_attach [simp]: "max_msgs (mtlk_txmm_attach_data vap m s) = max_msgs s"
  by (auto simp: mtlk_txmm_attach_data_def Let_def split: option.splits dest: max_msgs_get)

lemma max_msgs_send_ex [simp]: "max_msgs (mtlk_txmm_send_ex vap b clb tmo now s) = max_msgs s"
  by (auto simp: mtlk_txmm_send_ex_def Let_def split: prod.splits option.splits
      dest!: max_msgs_pump_locked max_msgs_pool)

lemma max_msgs_clb: "mtlk_txmm_call_usr_clb_locked user now b r s = Some (x, s') \<Longrightarrow> max_msgs s' = max_msgs s"
  by (auto simp: mtlk_txmm_call_usr_clb_locked_def Let_def split: option.splits if_splits txmm_clb_action.splits)

lemma max_msgs_take: "on_cfm_take p s = (r, s') \<Longrightarrow> max_msgs s' = max_msgs s"
  by (auto simp: on_cfm_take_def Let_def split: if_splits option.splits)

lemma max_msgs_cfm: "mtlk_txmm_on_cfm user now p s = Some (r, s') \<Longrightarrow> max_msgs s' = max_msgs s"
  by (auto simp: mtlk_txmm_on_cfm_def on_cfm_finish_def split: option.splits prod.splits
      dest!: max_msgs_take max_msgs_clb)

lemma max_msgs_cancel [simp]: "max_msgs (mtlk_txmm_msg_cancel m s) = max_msgs s"
  by (simp add: mtlk_txmm_msg_cancel_def mtlk_txmm_free_def Let_def split: option.splits txmm_block_e.splits)

lemma step_max_msgs:
  assumes "txmm_step user op s = Some s'" "txmm_ok s"
  shows "max_msgs s' = max_msgs s"
proof (cases op)
  case (Op_cfm now p)
  then show ?thesis using assms(1) max_msgs_cfm [of user now p s] by auto
next
  case (Op_timer now)
  then show ?thesis using assms on_timer_ok [OF assms(2), of user now] by auto
qed (use assms(1) in \<open>auto simp: mtlk_txmm_msg_get_empty_data_def mtlk_txmm_msg_send_def mtlk_txmm_start_def
    mtlk_txmm_halt_def Let_def split: option.splits\<close>)

lemma reach_max_msgs:
  assumes "txmm_reach user n psize pool s" "0 < n"
  shows "max_msgs s = n"
  using assms(1)
proof induction
  case txmm_reach_init
  then show ?case by (simp add: mtlk_txmm_init_def)
next
  case (txmm_reach_step s op s')
  then show ?case using step_max_msgs reach_ok [OF _ assms(2)] by metis
qed

subsection \<open>Properties\<close>

lemma count_ring:
  assumes "txmm_inv {} s" "k \<noteq> MTLK_TXMMB_NONE"
  shows "count (mset (ring (max_msgs s) (ques s k))) b = (if b < max_msgs s \<and> b_que (blocks s b) = k then 1 else 0)"
proof -
  let ?r = "ring (max_msgs s) (ques s k)"
  have inv: "que_inv s k" using txmm_inv_que [OF assms] .
  have "b \<in> set ?r \<longleftrightarrow> b < max_msgs s \<and> b_que (blocks s b) = k"
    using assms in_que_blocks [OF inv, of b] by (auto simp: txmm_inv_def in_que_def)
  moreover have "count (mset ?r) b = (if b \<in> set ?r then 1 else 0)"
    using distinct_ring [OF inv] by (simp add: distinct_count_atmost_1)
  ultimately show ?thesis by simp
qed

text \<open>A run of operations, each of which must be allowed.\<close>
fun txmm_run :: "(nat \<Rightarrow> txmm_block \<Rightarrow> txmm_clb_reason \<Rightarrow> txmm_clb_action) \<Rightarrow> txmm_op list \<Rightarrow> txmm \<Rightarrow> txmm option" where
  "txmm_run user [] s = Some s"
| "txmm_run user (op # ops) s =
     (if op_allowed op s then (case txmm_step user op s of None \<Rightarrow> None | Some s' \<Rightarrow> txmm_run user ops s') else None)"

lemma txmm_run_reach:
  "txmm_run user ops s = Some s' \<Longrightarrow> txmm_reach user n psize pool s \<Longrightarrow> txmm_reach user n psize pool s'"
  by (induction user ops s rule: txmm_run.induct) (auto split: if_splits option.splits intro: txmm_reach_step)

lemma txmm_run_the:
  assumes "txmm_run user ops (mtlk_txmm_init n psize pool) \<noteq> None"
  shows "txmm_reach user n psize pool (the (txmm_run user ops (mtlk_txmm_init n psize pool)))"
proof -
  obtain s' where s': "txmm_run user ops (mtlk_txmm_init n psize pool) = Some s'" using assms by blast
  show ?thesis using txmm_run_reach [OF s' txmm_reach_init] s' by simp
qed

text \<open>An object of four blocks and one hardware slot, started, with two messages attached and sent.\<close>
definition demo_ops :: "txmm_op list" where
  "demo_ops = [Op_start, Op_get_empty 10 0, Op_get_empty 11 0, Op_send 10 1 100 0, Op_send 11 1 100 5]"

definition demo_txmm :: txmm where
  "demo_txmm = the (txmm_run (\<lambda>_ _ _. MTLK_TXMM_CLBA_FREE) demo_ops (mtlk_txmm_init 4 2 [7]))"

lemmas txmm_eval = mtlk_txmm_init_def mtlk_txmm_start_def mtlk_txmm_halt_def mtlk_txmm_msg_get_empty_data_def
  mtlk_txmm_attach_data_def mtlk_txmm_get_buf_def mtlk_txmm_put_buf_def mtlk_txmm_msg_send_def
  mtlk_txmm_send_ex_def mtlk_txmm_send_block_prepare_def msg_get_from_pool_def msg_free_to_pool_def
  mtlk_txmm_adjust_usage_stats_def que_get_def que_put_def upd_block_def upd_que_def tx_emit_def zero_block_def
  empty_que_def INC_WRAP_IDX_def u32_inc_def Let_def

lemma demo_txmm_eval: "txmm_run (\<lambda>_ _ _. MTLK_TXMM_CLBA_FREE) demo_ops (mtlk_txmm_init 4 2 [7]) \<noteq> None"
  unfolding demo_ops_def by (simp add: txmm_eval)

lemma demo_txmm_reach: "txmm_reach (\<lambda>_ _ _. MTLK_TXMM_CLBA_FREE) 4 2 [7] demo_txmm"
  using txmm_run_the [OF demo_txmm_eval] by (simp only: demo_txmm_def)

text \<open>How many bytes of the payload go to the hardware.\<close>
definition sent_size :: "txmm \<Rightarrow> nat \<Rightarrow> nat" where
  "sent_size s b = (if b_payload_size (blocks s b) = 0 \<or> b_payload_size (blocks s b) > max_payload_size s
     then max_payload_size s else b_payload_size (blocks s b))"

lemma send_block_prepare_effect:
  fixes b p s defines "s' \<equiv> mtlk_txmm_send_block_prepare b p s"
  assumes "txmm_inv {b} s" "b < max_msgs s"
  shows "ring (max_msgs s) (ques s' MTLK_TXMMB_SENT) = ring (max_msgs s) (ques s MTLK_TXMMB_SENT) @ [b]"
    "\<And>k. k \<noteq> MTLK_TXMMB_SENT \<Longrightarrow> ques s' k = ques s k" "hw_pool s' = hw_pool s" "tx_log s' = tx_log s"
    "b_slot (blocks s' b) = Some p" "b_vap (blocks s' b) = b_vap (blocks s b)"
    "hw_slots s' p = \<lparr>slot_id = b_msg_id (blocks s b), slot_payload = take (sent_size s b) (b_payload (blocks s b))
       @ drop (sent_size s b) (slot_payload (hw_slots s p))\<rparr>"
proof -
  define s2 where "s2 = upd_block b (\<lambda>x. x\<lparr>b_slot := Some p\<rparr>)
    (if b_payload_size (blocks s b) = 0 \<or> b_payload_size (blocks s b) > max_payload_size s
     then upd_block b (\<lambda>x. x\<lparr>b_payload_size := max_payload_size s\<rparr>) s else s)"
  define s3 where "s3 = s2\<lparr>hw_slots := (hw_slots s2)(p :=
     \<lparr>slot_id = b_msg_id (blocks s2 b), slot_payload = take (b_payload_size (blocks s2 b)) (b_payload (blocks s2 b))
        @ drop (b_payload_size (blocks s2 b)) (slot_payload (hw_slots s2 p))\<rparr>)\<rparr>"
  have "txmm_inv {b} s2" using assms(2) txmm_inv_upd_block by (simp add: s2_def)
  then have inv: "txmm_inv {b} s3" using txmm_inv_cong [of s3 s2] by (simp add: s3_def)
  have 3: "max_msgs s3 = max_msgs s" "ques s3 = ques s" "hw_pool s3 = hw_pool s" "tx_log s3 = tx_log s"
    "b_slot (blocks s3 b) = Some p" "b_vap (blocks s3 b) = b_vap (blocks s b)"
    "hw_slots s3 p = \<lparr>slot_id = b_msg_id (blocks s b), slot_payload = take (sent_size s b) (b_payload (blocks s b))
       @ drop (sent_size s b) (slot_payload (hw_slots s p))\<rparr>"
    by (simp_all add: s3_def s2_def sent_size_def upd_block_def)
  have s': "s' = (mtlk_txmm_put_buf MTLK_TXMMB_SENT b s3)\<lparr>nof_sent := u32_inc (nof_sent (mtlk_txmm_put_buf MTLK_TXMMB_SENT b s3))\<rparr>"
    unfolding s'_def mtlk_txmm_send_block_prepare_def Let_def by (simp add: s2_def [symmetric] s3_def [symmetric])
  show "ring (max_msgs s) (ques s' MTLK_TXMMB_SENT) = ring (max_msgs s) (ques s MTLK_TXMMB_SENT) @ [b]"
    using put_buf_inv(2) [OF inv, of MTLK_TXMMB_SENT] 3 assms(3) by (simp add: s')
  show "\<And>k. k \<noteq> MTLK_TXMMB_SENT \<Longrightarrow> ques s' k = ques s k" "hw_pool s' = hw_pool s" "tx_log s' = tx_log s"
    "b_slot (blocks s' b) = Some p" "b_vap (blocks s' b) = b_vap (blocks s b)"
    "hw_slots s' p = \<lparr>slot_id = b_msg_id (blocks s b), slot_payload = take (sent_size s b) (b_payload (blocks s b))
       @ drop (sent_size s b) (slot_payload (hw_slots s p))\<rparr>"
    using 3 by (simp_all add: s')
qed

text \<open>
  Queued messages leave in the order they were queued.  When a hardware slot is free and messages are
  waiting, the pump takes the oldest waiting block, writes its message id and payload into the slot, appends the block
  to the sent ring with the slot recorded for the confirmation, and hands exactly that slot to the hardware.
\<close>
lemma txmm_pump_sends_oldest:
  assumes "txmm_reach user n psize pool s" "0 < n"
    and "ring n (ques s MTLK_TXMMB_QUEUED) = b # bs" "hw_pool s = p # ps"
  shows "let s' = mtlk_txmm_pump None s
         in ring n (ques s' MTLK_TXMMB_QUEUED) = bs
          \<and> ring n (ques s' MTLK_TXMMB_SENT) = ring n (ques s MTLK_TXMMB_SENT) @ [b]
          \<and> ques s' MTLK_TXMMB_FREE = ques s MTLK_TXMMB_FREE \<and> hw_pool s' = ps
          \<and> hw_slots s' p = \<lparr>slot_id = b_msg_id (blocks s b),
                slot_payload = take (sent_size s b) (b_payload (blocks s b)) @ drop (sent_size s b) (slot_payload (hw_slots s p))\<rparr>
          \<and> b_slot (blocks s' b) = Some p \<and> tx_log s' = tx_log s @ [Msg_send p (b_vap (blocks s b))]"
proof -
  have ok: "txmm_ok s" and n: "max_msgs s = n" using reach_ok reach_max_msgs assms(1,2) by auto
  define s0 where "s0 = s\<lparr>hw_pool := ps\<rparr>"
  have ok0: "txmm_ok s0" using ok txmm_ok_cong [of s0 s] by (simp add: s0_def)
  have q: "que_ok n (ques s MTLK_TXMMB_QUEUED)"
    using txmm_inv_que [OF txmm_okD(1) [OF ok], of MTLK_TXMMB_QUEUED] n by (simp add: que_inv_def)
  have tot: "q_total (ques s MTLK_TXMMB_QUEUED) \<noteq> 0" using arg_cong [OF assms(3), of length] by simp
  obtain q' where g: "mtlk_txmm_get_buf MTLK_TXMMB_QUEUED s0 = Some (b, upd_que MTLK_TXMMB_QUEUED (\<lambda>_. q') s0)"
    and q': "ring n q' = bs"
    using ring_get [OF q assms(3)] n by (simp add: mtlk_txmm_get_buf_def s0_def)
  define s1 where "s1 = upd_que MTLK_TXMMB_QUEUED (\<lambda>_. q') s0"
  note G = get_buf_inv [OF txmm_okD(1) [OF ok0] g, folded s1_def]
  have b1: "b < max_msgs s1" using G by simp
  note E = send_block_prepare_effect [OF G(1) b1, where p = p]
  have 1: "max_msgs s1 = n" "blocks s1 = blocks s" "hw_pool s1 = ps" "tx_log s1 = tx_log s" "hw_slots s1 = hw_slots s"
    "ques s1 = (ques s)(MTLK_TXMMB_QUEUED := q')" "sent_size s1 b = sent_size s b"
    using n by (simp_all add: s1_def s0_def upd_que_def sent_size_def)
  have P: "mtlk_txmm_pump None s = tx_emit (Msg_send p (b_vap (blocks s b))) (mtlk_txmm_send_block_prepare b p s1)"
    using tot assms(4) g E(6) 1(2) by (simp add: mtlk_txmm_pump_def mtlk_txmm_pump_locked_def msg_get_from_pool_def
        s0_def [symmetric] s1_def [symmetric] Let_def)
  show ?thesis
    using E 1 q' by (simp add: P Let_def tx_emit_def)
qed

text \<open>A message sent on one of two slots and queued again by its callback when it is confirmed.\<close>
definition requeue_txmm :: txmm where
  "requeue_txmm = the (txmm_run (\<lambda>_ _ _. MTLK_TXMM_CLBA_SEND)
     [Op_start, Op_get_empty 10 0, Op_send 10 1 0 0, Op_cfm 50 (Some 7)] (mtlk_txmm_init 2 2 [7, 8]))"

lemmas txmm_cfm_eval = txmm_eval mtlk_txmm_on_cfm_def on_cfm_take_def on_cfm_finish_def mtlk_txmm_call_usr_clb_locked_def
  mtlk_txmm_del_buf_from_que_def

lemma requeue_txmm_eval:
  "txmm_run (\<lambda>_ _ _. MTLK_TXMM_CLBA_SEND) [Op_start, Op_get_empty 10 0, Op_send 10 1 0 0, Op_cfm 50 (Some 7)]
     (mtlk_txmm_init 2 2 [7, 8]) \<noteq> None"
  "ring 2 (ques requeue_txmm MTLK_TXMMB_QUEUED) = [0]" "hw_pool requeue_txmm = [8]"
  unfolding requeue_txmm_def by (simp_all add: txmm_cfm_eval ring_def numeral_2_eq_2)

lemma requeue_txmm_reach: "txmm_reach (\<lambda>_ _ _. MTLK_TXMM_CLBA_SEND) 2 2 [7, 8] requeue_txmm"
  using txmm_run_the [OF requeue_txmm_eval(1)] by (simp only: requeue_txmm_def)

theorem txmm_pump_sends_oldest_witness:
  "ring 2 (ques requeue_txmm MTLK_TXMMB_QUEUED) = [0] \<and> hw_pool requeue_txmm = [8]
   \<and> ring 2 (ques (mtlk_txmm_pump None requeue_txmm) MTLK_TXMMB_QUEUED) = []
   \<and> hw_pool (mtlk_txmm_pump None requeue_txmm) = []"
  using txmm_pump_sends_oldest [OF requeue_txmm_reach _ requeue_txmm_eval(2,3)] requeue_txmm_eval(2,3)
  by (simp add: Let_def)

text \<open>
  The periodic timer reports every expired message exactly once.  Unless all blocks are in the sent
  ring, the time-out pass over that ring terminates, calls the callback of exactly the blocks whose
  time-out has passed, once each, in ring order, leaves exactly the other blocks in the ring and returns
  the number of expired messages.
\<close>
lemma txmm_timer_reports_each_expired_once:
  assumes "txmm_reach user n psize pool s" "0 < n" "q_total (ques s MTLK_TXMMB_SENT) < n"
  shows "\<exists>s'. mtlk_txmm_on_timer_que user now MTLK_TXMMB_SENT MTLK_TXMM_CLBR_TIMEOUT_SENT False s
      = Some (length (filter (\<lambda>b. block_expired now (blocks s b)) (ring n (ques s MTLK_TXMMB_SENT))), s')
    \<and> clb_blocks s' = clb_blocks s @ filter (\<lambda>b. block_expired now (blocks s b)) (ring n (ques s MTLK_TXMMB_SENT))
    \<and> mset (ring n (ques s' MTLK_TXMMB_SENT))
        = mset (filter (\<lambda>b. \<not> block_expired now (blocks s b)) (ring n (ques s MTLK_TXMMB_SENT)))"
  using on_timer_que_effect [of s MTLK_TXMMB_SENT user now MTLK_TXMM_CLBR_TIMEOUT_SENT False]
    reach_ok [OF assms(1,2)] reach_max_msgs [OF assms(1,2)] assms(3) by auto

lemma demo_txmm_sent:
  "ring 4 (ques demo_txmm MTLK_TXMMB_SENT) = [0]" "b_slot (blocks demo_txmm 0) = Some 7"
  "q_total (ques demo_txmm MTLK_TXMMB_SENT) = 1" "block_expired 200 (blocks demo_txmm 0)"
  unfolding demo_txmm_def demo_ops_def
  by (simp_all add: txmm_eval ring_def block_expired_def mtlk_osal_ms_time_diff_def u32_sub_def u32_max_def)

theorem txmm_timer_reports_each_expired_once_witness:
  "q_total (ques demo_txmm MTLK_TXMMB_SENT) < 4
   \<and> (\<exists>s'. mtlk_txmm_on_timer_que (\<lambda>_ _ _. MTLK_TXMM_CLBA_FREE) 200 MTLK_TXMMB_SENT MTLK_TXMM_CLBR_TIMEOUT_SENT False demo_txmm
        = Some (1, s') \<and> clb_blocks s' = clb_blocks demo_txmm @ [0])"
  using txmm_timer_reports_each_expired_once [OF demo_txmm_reach, of 200] demo_txmm_sent by auto

text \<open>
  When every block is in the sent ring its time-outs are not seen: the loop of \<^verbatim>\<open>_mtlk_txmm_on_timer_que\<close>
  stops at once because \<^verbatim>\<open>from\<close> and \<^verbatim>\<open>to\<close> of a full ring coincide, and the timer changes nothing
  at all, however long ago the messages expired.
\<close>
lemma txmm_full_ring_never_times_out:
  assumes "txmm_reach user n psize pool s" "0 < n" "q_total (ques s MTLK_TXMMB_SENT) = n"
  shows "mtlk_txmm_on_timer user now s = Some s"
proof -
  have ok: "txmm_ok s" and n: "max_msgs s = n" using reach_ok reach_max_msgs assms(1,2) by auto
  have q0: "q_total (ques s MTLK_TXMMB_QUEUED) = 0"
  proof (rule ccontr)
    assume "q_total (ques s MTLK_TXMMB_QUEUED) \<noteq> 0"
    then obtain c where c: "in_que s MTLK_TXMMB_QUEUED c"
      using length_ring [of "max_msgs s" "ques s MTLK_TXMMB_QUEUED"] by (cases "ring (max_msgs s) (ques s MTLK_TXMMB_QUEUED)") (auto simp: in_que_def)
    note I = txmm_inv_que [OF txmm_okD(1) [OF ok]]
    have "\<not> in_que s MTLK_TXMMB_SENT c" using in_que_blocks(2) [OF I c] in_que_blocks(2) [OF I, of MTLK_TXMMB_SENT c] by auto
    from que_not_full [OF I this in_que_blocks(1) [OF I c]] show False using assms(3) n by simp
  qed
  have "q_to (ques s MTLK_TXMMB_QUEUED) = q_from (ques s MTLK_TXMMB_QUEUED)"
    using txmm_inv_que [OF txmm_okD(1) [OF ok], of MTLK_TXMMB_QUEUED] q0 by (auto simp: que_inv_def que_ok_def)
  then have "timer_collect (max_msgs s) now MTLK_TXMMB_QUEUED True (q_from (ques s MTLK_TXMMB_QUEUED)) s = (0, s)"
    by (cases "max_msgs s") auto
  then show ?thesis
    using timer_collect_full [of s MTLK_TXMMB_SENT] ok [unfolded txmm_ok_safe] assms(3) n timer_report_idle [OF txmm_okD(3) [OF ok]]
    by (simp add: mtlk_txmm_on_timer_def mtlk_txmm_on_timer_que_def)
qed

text \<open>One block, sent at time 0 with a time-out of 100 ms.\<close>
definition full_txmm :: txmm where
  "full_txmm = the (txmm_run (\<lambda>_ _ _. MTLK_TXMM_CLBA_FREE) [Op_start, Op_get_empty 10 0, Op_send 10 1 100 0] (mtlk_txmm_init 1 2 [7]))"

lemma full_txmm_eval:
  "txmm_run (\<lambda>_ _ _. MTLK_TXMM_CLBA_FREE) [Op_start, Op_get_empty 10 0, Op_send 10 1 100 0] (mtlk_txmm_init 1 2 [7]) \<noteq> None"
  "q_total (ques full_txmm MTLK_TXMMB_SENT) = 1" "block_expired 5000 (blocks full_txmm 0)"
  unfolding full_txmm_def by (simp_all add: txmm_eval block_expired_def mtlk_osal_ms_time_diff_def u32_sub_def u32_max_def)

lemma full_txmm_reach: "txmm_reach (\<lambda>_ _ _. MTLK_TXMM_CLBA_FREE) 1 2 [7] full_txmm"
  using txmm_run_the [OF full_txmm_eval(1)] by (simp only: full_txmm_def)

theorem txmm_full_ring_never_times_out_witness:
  "q_total (ques full_txmm MTLK_TXMMB_SENT) = 1 \<and> block_expired 5000 (blocks full_txmm 0)
   \<and> mtlk_txmm_on_timer (\<lambda>_ _ _. MTLK_TXMM_CLBA_FREE) 5000 full_txmm = Some full_txmm"
  using txmm_full_ring_never_times_out [OF full_txmm_reach, of 5000] full_txmm_eval by simp

end
