(* ===== verification/Txmm_Locked.thy ===== *)
theory Txmm_Locked
  imports Txmm
begin

text \<open>
  The management message serializer of \<^verbatim>\<open>driver/shared/txmm.c\<close> under concurrent use.  A step is one section between taking and releasing the
  object's lock: the calls of the users, the interrupt that confirms a message and the timer interleave at exactly these points.
  \<^verbatim>\<open>_mtlk_txmm_on_cfm\<close> has two sections: it takes the block out of the sent ring, and later it calls the user.  Each round of the timer's
  reporting loop has two sections as well, and the collecting loop before it is one.  A block between its two sections is in no ring: it is
  pending, and the state has the list of the pending blocks beside the object.
\<close>

section \<open>Locked sections\<close>

datatype pending = Pend_cfm nat nat | Pend_timeout nat txmm_clb_reason

fun pend_block :: "pending \<Rightarrow> nat" where
  "pend_block (Pend_cfm b p) = b"
| "pend_block (Pend_timeout b r) = b"

type_synonym locked_state = "txmm \<times> pending list"

text \<open>The two sections of one round of the reporting loop of \<^verbatim>\<open>_mtlk_txmm_on_timer_que\<close>.\<close>
definition timer_take :: "txmm \<Rightarrow> nat option \<times> txmm" where
  "timer_take s =
     (let q = ques s MTLK_TXMMB_TIMED_OUT; b = q_ptr q ! q_from q
      in if q_total q \<noteq> 0 then (Some b, snd (mtlk_txmm_del_buf_from_que MTLK_TXMMB_TIMED_OUT b False s)) else (None, s))"

definition timer_callback ::
    "(nat \<Rightarrow> txmm_block \<Rightarrow> txmm_clb_reason \<Rightarrow> txmm_clb_action) \<Rightarrow> nat \<Rightarrow> nat \<Rightarrow> txmm_clb_reason \<Rightarrow> txmm \<Rightarrow> (bool \<times> txmm) option" where
  "timer_callback user now b reason s =
     mtlk_txmm_call_usr_clb_locked user now b reason (tx_emit (Msg_timed_out (b_msg_id (blocks s b))) s)"

datatype txmm_section =
    Sec_get_empty nat nat
  | Sec_send nat nat nat nat
  | Sec_pump "nat option"
  | Sec_cancel nat
  | Sec_cfm_take nat
  | Sec_timer_collect nat bool
  | Sec_timer_take txmm_clb_reason
  | Sec_callback nat nat
  | Sec_start
  | Sec_halt

text \<open>
  One section; \<^term>\<open>None\<close> is a null pointer dereference.  The flag of \<open>Sec_timer_collect\<close> tells the queued ring from the sent one;
  \<open>Sec_callback now i\<close> is the second section for the pending block number \<open>i\<close>.
\<close>
fun section_step :: "(nat \<Rightarrow> txmm_block \<Rightarrow> txmm_clb_reason \<Rightarrow> txmm_clb_action) \<Rightarrow> txmm_section \<Rightarrow> locked_state \<Rightarrow> locked_state option" where
  "section_step user (Sec_get_empty m vap) (s, P) = Some (snd (mtlk_txmm_msg_get_empty_data m vap s), P)"
| "section_step user (Sec_send m clb tmo now) (s, P) = map_option (\<lambda>(_, s'). (s', P)) (mtlk_txmm_msg_send m clb tmo now s)"
| "section_step user (Sec_pump p) (s, P) = Some (mtlk_txmm_pump p s, P)"
| "section_step user (Sec_cancel m) (s, P) = Some (mtlk_txmm_msg_cancel m s, P)"
| "section_step user (Sec_cfm_take p) (s, P) =
     (case on_cfm_take p s of (None, s') \<Rightarrow> Some (s', P) | (Some b, s') \<Rightarrow> Some (s', P @ [Pend_cfm b p]))"
| "section_step user (Sec_timer_collect now queued) (s, P) =
     (let k = (if queued then MTLK_TXMMB_QUEUED else MTLK_TXMMB_SENT)
      in Some (snd (timer_collect (max_msgs s) now k queued (q_from (ques s k)) s), P))"
| "section_step user (Sec_timer_take r) (s, P) =
     (case timer_take s of (None, s') \<Rightarrow> Some (s', P) | (Some b, s') \<Rightarrow> Some (s', P @ [Pend_timeout b r]))"
| "section_step user (Sec_callback now i) (s, P) =
     map_option (\<lambda>(_, s'). (s', take i P @ drop (Suc i) P))
       (case P ! i of Pend_cfm b p \<Rightarrow> on_cfm_finish user now b p s | Pend_timeout b r \<Rightarrow> timer_callback user now b r s)"
| "section_step user Sec_start (s, P) = Some (mtlk_txmm_start s, P)"
| "section_step user Sec_halt (s, P) = Some (mtlk_txmm_halt s, P)"

text \<open>
  What the users respect: a message is sent after it was attached and while it is not on its way, and it is not cancelled while its block is in the timed-out ring or
  pending.  The source has no means to ensure the latter; what happens otherwise is shown below.
\<close>
fun section_allowed :: "txmm_section \<Rightarrow> locked_state \<Rightarrow> bool" where
  "section_allowed (Sec_send m clb tmo now) (s, P) =
     (case m_data (msgs s m) of None \<Rightarrow> False | Some b \<Rightarrow> b_que (blocks s b) = MTLK_TXMMB_NONE \<and> b \<notin> pend_block ` set P)"
| "section_allowed (Sec_cancel m) (s, P) =
     (case m_data (msgs s m) of None \<Rightarrow> True | Some b \<Rightarrow> b_que (blocks s b) \<noteq> MTLK_TXMMB_TIMED_OUT \<and> b \<notin> pend_block ` set P)"
| "section_allowed (Sec_callback now i) (s, P) = (i < length P)"
| "section_allowed _ _ = True"

inductive locked_reach :: "(nat \<Rightarrow> txmm_block \<Rightarrow> txmm_clb_reason \<Rightarrow> txmm_clb_action) \<Rightarrow> nat \<Rightarrow> nat \<Rightarrow> nat list \<Rightarrow> locked_state \<Rightarrow> bool"
  for user n psize pool where
  locked_init: "locked_reach user n psize pool (mtlk_txmm_init n psize pool, [])"
| locked_step: "locked_reach user n psize pool x \<Longrightarrow> section_allowed c x \<Longrightarrow> section_step user c x = Some y \<Longrightarrow> locked_reach user n psize pool y"

section \<open>The invariant\<close>

definition pending_ok :: "txmm \<Rightarrow> pending list \<Rightarrow> bool" where
  "pending_ok s P = (distinct (map pend_block P) \<and>
     (\<forall>b \<in> pend_block ` set P. b < max_msgs s \<and> b_que (blocks s b) = MTLK_TXMMB_NONE \<and> b_clb (blocks s b) \<noteq> None))"

definition locked_inv :: "nat \<Rightarrow> locked_state \<Rightarrow> bool" where
  "locked_inv n x = (txmm_safe (fst x) \<and> max_msgs (fst x) = n \<and> pending_ok (fst x) (snd x))"

lemma locked_invD:
  assumes "locked_inv n (s, P)"
  shows "txmm_safe s" "max_msgs s = n" "pending_ok s P"
  using assms by (auto simp: locked_inv_def)

text \<open>A section that leaves the pending blocks alone.\<close>
lemma pending_keep:
  assumes "pending_ok s P" "keeps_none X s s'" "X \<inter> pend_block ` set P = {}" "max_msgs s' = max_msgs s"
  shows "pending_ok s' P"
  using assms by (fastforce simp: pending_ok_def keeps_none_def owner_view_def)

text \<open>A section that takes a block out of a ring.\<close>
lemma pending_add:
  assumes "pending_ok s P" "\<And>c. c \<noteq> pend_block x \<Longrightarrow> owner_view (blocks s' c) = owner_view (blocks s c)"
    and "b_que (blocks s (pend_block x)) \<noteq> MTLK_TXMMB_NONE" "pend_block x < max_msgs s" "max_msgs s' = max_msgs s"
    and "b_que (blocks s' (pend_block x)) = MTLK_TXMMB_NONE" "b_clb (blocks s' (pend_block x)) \<noteq> None"
  shows "pending_ok s' (P @ [x])"
proof -
  have "pend_block x \<notin> pend_block ` set P" using assms(1,3) by (auto simp: pending_ok_def)
  moreover have "c < max_msgs s' \<and> b_que (blocks s' c) = MTLK_TXMMB_NONE \<and> b_clb (blocks s' c) \<noteq> None" if "c \<in> pend_block ` set P" for c
  proof -
    have "c \<noteq> pend_block x" using that assms(1,3) by (auto simp: pending_ok_def)
    then show ?thesis using assms(1) assms(2) [of c] assms(5) that by (auto simp: pending_ok_def owner_view_def)
  qed
  ultimately show ?thesis using assms(1,4-7) by (auto simp: pending_ok_def)
qed

lemma take_drop_nth:
  assumes "i < length xs" "distinct (map f xs)"
  shows "distinct (map f (take i xs @ drop (Suc i) xs))" "f ` set (take i xs @ drop (Suc i) xs) = f ` set xs - {f (xs ! i)}"
proof -
  have xs: "xs = take i xs @ xs ! i # drop (Suc i) xs" using id_take_nth_drop [OF assms(1)] .
  have d: "distinct (map f (take i xs @ xs ! i # drop (Suc i) xs))" using assms(2) xs by simp
  then have out: "f (xs ! i) \<notin> f ` set (take i xs @ drop (Suc i) xs)" by auto
  show "distinct (map f (take i xs @ drop (Suc i) xs))" using d by auto
  have "f ` set xs = f ` set (take i xs @ xs ! i # drop (Suc i) xs)" using xs by simp
  then show "f ` set (take i xs @ drop (Suc i) xs) = f ` set xs - {f (xs ! i)}" using out by auto
qed

text \<open>A callback section, which ends the pendency of its block.\<close>
lemma pending_remove:
  assumes "pending_ok s P" "i < length P" "\<And>c. c \<noteq> pend_block (P ! i) \<Longrightarrow> blocks s' c = blocks s c" "max_msgs s' = max_msgs s"
  shows "pending_ok s' (take i P @ drop (Suc i) P)"
proof -
  have d: "distinct (map pend_block P)" using assms(1) by (simp add: pending_ok_def)
  note T = take_drop_nth [OF assms(2) d]
  show ?thesis unfolding pending_ok_def T(2) using assms T(1) by (auto simp: pending_ok_def)
qed

lemma timer_take_spec:
  assumes "txmm_safe s" "timer_take s = (Some b, s')"
  shows "txmm_safe s'" "b < max_msgs s" "max_msgs s' = max_msgs s" "b_que (blocks s b) = MTLK_TXMMB_TIMED_OUT"
    "b_que (blocks s' b) = MTLK_TXMMB_NONE" "b_clb (blocks s' b) \<noteq> None"
    "\<And>c. c \<noteq> b \<Longrightarrow> owner_view (blocks s' c) = owner_view (blocks s c)"
proof -
  let ?q = "ques s MTLK_TXMMB_TIMED_OUT" and ?n = "max_msgs s"
  have inv: "txmm_inv {} s" and own: "owner_inv s" using txmm_safeD [OF assms(1)] by auto
  have nk: "MTLK_TXMMB_TIMED_OUT \<noteq> MTLK_TXMMB_NONE" "MTLK_TXMMB_TIMED_OUT \<noteq> MTLK_TXMMB_FREE" by simp_all
  have t: "q_total ?q \<noteq> 0" "b = q_ptr ?q ! q_from ?q" "s' = snd (mtlk_txmm_del_buf_from_que MTLK_TXMMB_TIMED_OUT b False s)"
    using assms(2) by (auto simp: timer_take_def Let_def split: if_splits)
  have qi: "que_inv s MTLK_TXMMB_TIMED_OUT" using txmm_inv_que [OF inv nk(1)] .
  then have "q_from ?q < ?n" by (auto simp: que_inv_def que_ok_def)
  then have hd: "ring ?n ?q ! 0 = b" using ring_nth [of 0 ?q ?n] t by simp
  then have "ring ?n ?q = [] @ b # tl (ring ?n ?q)" using t(1) length_ring [of ?n ?q] by (cases "ring ?n ?q") auto
  from del_owner [OF inv own nk this, of False]
  obtain s1 where "mtlk_txmm_del_buf_from_que MTLK_TXMMB_TIMED_OUT b False s = (True, s1)" "txmm_safe s1"
    "b_que (blocks s1 b) = MTLK_TXMMB_NONE" "b < ?n" "b_clb (blocks s1 b) \<noteq> None" "max_msgs s1 = ?n"
    "\<And>c. c \<noteq> b \<Longrightarrow> owner_view (blocks s1 c) = owner_view (blocks s c)" by metis
  moreover have "b_que (blocks s b) = MTLK_TXMMB_TIMED_OUT" using que_invD(2) [OF qi, of 0] t(1) hd by simp
  ultimately show "txmm_safe s'" "b < max_msgs s" "max_msgs s' = max_msgs s" "b_que (blocks s b) = MTLK_TXMMB_TIMED_OUT"
    "b_que (blocks s' b) = MTLK_TXMMB_NONE" "b_clb (blocks s' b) \<noteq> None"
    "\<And>c. c \<noteq> b \<Longrightarrow> owner_view (blocks s' c) = owner_view (blocks s c)"
    using t(3) by auto
qed

lemma callback_safe:
  assumes "txmm_safe s" "pend_block x < max_msgs s" "b_que (blocks s (pend_block x)) = MTLK_TXMMB_NONE" "b_clb (blocks s (pend_block x)) \<noteq> None"
  obtains r s' where "(case x of Pend_cfm b p \<Rightarrow> on_cfm_finish user now b p s | Pend_timeout b rs \<Rightarrow> timer_callback user now b rs s) = Some (r, s')"
    "txmm_safe s'" "max_msgs s' = max_msgs s" "\<And>c. c \<noteq> pend_block x \<Longrightarrow> blocks s' c = blocks s c"
proof (cases x)
  case (Pend_cfm b p)
  obtain r s' where "on_cfm_finish user now b p s = Some (r, s')" "txmm_safe s'" "max_msgs s' = max_msgs s"
    "\<And>c. c \<noteq> b \<Longrightarrow> blocks s' c = blocks s c"
    by (rule on_cfm_finish_safe [of s b user now p]) (use assms Pend_cfm in auto)
  then show ?thesis using that Pend_cfm by simp
next
  case (Pend_timeout b rs)
  let ?t = "tx_emit (Msg_timed_out (b_msg_id (blocks s b))) s"
  have t: "txmm_safe ?t" "b < max_msgs ?t" "b_que (blocks ?t b) = MTLK_TXMMB_NONE" "b_clb (blocks ?t b) \<noteq> None"
    using assms Pend_timeout tx_emit_safe by (simp, simp_all add: tx_emit_def)
  obtain r s' where "mtlk_txmm_call_usr_clb_locked user now b rs ?t = Some (r, s')" "txmm_safe s'" "max_msgs s' = max_msgs ?t"
    "\<And>c. c \<noteq> b \<Longrightarrow> blocks s' c = blocks ?t c"
    by (rule call_usr_clb_safe [OF t, of user now rs]) blast
  then show ?thesis using that Pend_timeout by (simp add: timer_callback_def tx_emit_def)
qed

text \<open>Every section that is allowed returns and keeps the invariant.\<close>
lemma section_keeps:
  assumes "locked_inv n (s, P)" "section_allowed c (s, P)"
  shows "\<exists>y. section_step user c (s, P) = Some y \<and> locked_inv n y"
proof -
  note I = locked_invD [OF assms(1)]
  note keep = pending_keep [OF I(3)]
  show ?thesis
  proof (cases c)
    case (Sec_get_empty m vap)
    have "max_msgs (snd (mtlk_txmm_msg_get_empty_data m vap s)) = max_msgs s"
      by (simp add: mtlk_txmm_msg_get_empty_data_def Let_def split: option.splits)
    then show ?thesis using Sec_get_empty msg_get_empty_safe [OF I(1), of m vap] I(2) keep by (auto simp: locked_inv_def)
  next
    case (Sec_send m clb tmo now)
    then obtain b where b: "m_data (msgs s m) = Some b" "b_que (blocks s b) = MTLK_TXMMB_NONE" "b \<notin> pend_block ` set P"
      using assms(2) by (auto split: option.splits)
    obtain s' where s': "mtlk_txmm_msg_send m clb tmo now s = Some (MTLK_ERR_OK, s')" "txmm_safe s'"
      using msg_send_safe [OF I(1) b(1,2), of clb tmo now] by blast
    moreover have "max_msgs s' = max_msgs s" using s'(1) by (auto simp: mtlk_txmm_msg_send_def split: option.splits)
    ultimately show ?thesis
      using Sec_send msg_send_frame [OF I(1) b(1,2) s'(1)] keep [of "{b}" s'] b(3) I(2) by (simp add: locked_inv_def)
  next
    case (Sec_pump p)
    have "pending_ok (mtlk_txmm_pump p s) P" by (rule keep [of "{}"]) (use pump_frame [OF I(1), of p] in auto)
    then show ?thesis using Sec_pump pump_safe [OF I(1)] I(2) by (simp add: locked_inv_def)
  next
    case (Sec_cancel m)
    then have a: "\<And>b. m_data (msgs s m) = Some b \<Longrightarrow> b_que (blocks s b) \<noteq> MTLK_TXMMB_TIMED_OUT \<and> b \<notin> pend_block ` set P"
      using assms(2) by simp
    then have "\<And>b. m_data (msgs s m) = Some b \<Longrightarrow> b_que (blocks s b) \<noteq> MTLK_TXMMB_TIMED_OUT" by blast
    note C = cancel_safe [OF I(1) this]
    have "keeps_none (set_option (m_data (msgs s m))) s (mtlk_txmm_msg_cancel m s)" using C by (auto simp: keeps_none_def)
    then show ?thesis using Sec_cancel C a keep [of "set_option (m_data (msgs s m))"] I(2) by (fastforce simp: locked_inv_def)
  next
    case (Sec_cfm_take p)
    show ?thesis
    proof (cases "find (\<lambda>b. b_slot (blocks s b) = Some p) (ring (max_msgs s) (ques s MTLK_TXMMB_SENT))")
      case None
      then have "section_step user c (s, P) = Some (s\<lparr>nof_cfmed := u32_inc (nof_cfmed s)\<rparr>, P)"
        using Sec_cfm_take on_cfm_take_spec [OF I(1), of p] by simp
      then show ?thesis using I by (simp add: locked_inv_def pending_ok_def)
    next
      case (Some b)
      then obtain s' where "on_cfm_take p s = (Some b, s')" "txmm_safe s'" "b < max_msgs s'" "max_msgs s' = max_msgs s"
        "b_que (blocks s' b) = MTLK_TXMMB_NONE" "b_clb (blocks s' b) \<noteq> None" "b_que (blocks s b) = MTLK_TXMMB_SENT"
        "\<And>c. c \<noteq> b \<Longrightarrow> owner_view (blocks s' c) = owner_view (blocks s c)"
        using on_cfm_take_spec [OF I(1), of p] by auto
      then show ?thesis using Sec_cfm_take I pending_add [OF I(3), of "Pend_cfm b p" s'] by (simp add: locked_inv_def)
    qed
  next
    case (Sec_timer_collect now queued)
    then show ?thesis
      using timer_collect_safe [OF I(1), of "if queued then MTLK_TXMMB_QUEUED else MTLK_TXMMB_SENT" now queued] keep I(2)
      by (auto simp: locked_inv_def Let_def)
  next
    case (Sec_timer_take r)
    obtain o1 s' where t: "timer_take s = (o1, s')" by fastforce
    show ?thesis
    proof (cases o1)
      case None
      then have "s' = s" using t by (auto simp: timer_take_def Let_def split: if_splits)
      then show ?thesis using Sec_timer_take t None assms(1) by simp
    next
      case (Some b)
      note T = timer_take_spec [OF I(1) t [unfolded Some]]
      have "pending_ok s' (P @ [Pend_timeout b r])" by (rule pending_add [OF I(3)]) (use T in auto)
      then show ?thesis using Sec_timer_take t Some T I(2) by (simp add: locked_inv_def)
    qed
  next
    case (Sec_callback now i)
    then have i: "i < length P" using assms(2) by simp
    then have "pend_block (P ! i) \<in> pend_block ` set P" by simp
    then have p: "pend_block (P ! i) < max_msgs s" "b_que (blocks s (pend_block (P ! i))) = MTLK_TXMMB_NONE" "b_clb (blocks s (pend_block (P ! i))) \<noteq> None"
      using I(3) by (auto simp: pending_ok_def)
    obtain r s' where s': "(case P ! i of Pend_cfm b p \<Rightarrow> on_cfm_finish user now b p s | Pend_timeout b rs \<Rightarrow> timer_callback user now b rs s) = Some (r, s')"
      "txmm_safe s'" "max_msgs s' = max_msgs s" "\<And>c. c \<noteq> pend_block (P ! i) \<Longrightarrow> blocks s' c = blocks s c"
      by (rule callback_safe [OF I(1) p, of user now]) blast
    then show ?thesis using Sec_callback pending_remove [OF I(3) i s'(4,3)] I(2) by (simp add: locked_inv_def)
  next
    case Sec_start
    then show ?thesis using I by (simp add: locked_inv_def mtlk_txmm_start_def pending_ok_def)
  next
    case Sec_halt
    then show ?thesis using I by (simp add: locked_inv_def mtlk_txmm_halt_def pending_ok_def)
  qed
qed

lemma locked_reach_inv:
  assumes "locked_reach user n psize pool x" "0 < n"
  shows "locked_inv n x"
  using assms(1)
proof induction
  case locked_init
  then show ?case using init_ok [OF assms(2), of psize pool] by (simp add: locked_inv_def pending_ok_def txmm_ok_safe) (simp add: mtlk_txmm_init_def)
next
  case (locked_step x c y)
  then show ?case using section_keeps [of n "fst x" "snd x" c user] by auto
qed

section \<open>Whole calls are sequences of sections\<close>

text \<open>Every state that whole calls reach one after another is reached by their sections, with nothing pending.\<close>
lemma timer_report_sections:
  assumes "locked_reach user n psize pool (s, [])" "timer_report f user now reason s = Some s'"
  shows "locked_reach user n psize pool (s', [])"
  using assms
proof (induction f arbitrary: s)
  case (Suc f)
  show ?case
  proof (cases "q_total (ques s MTLK_TXMMB_TIMED_OUT) = 0")
    case False
    let ?q = "ques s MTLK_TXMMB_TIMED_OUT"
    define b where "b = q_ptr ?q ! q_from ?q"
    define s1 where "s1 = snd (mtlk_txmm_del_buf_from_que MTLK_TXMMB_TIMED_OUT b False s)"
    obtain r s3 where c: "timer_callback user now b reason s1 = Some (r, s3)" "timer_report f user now reason s3 = Some s'"
      using Suc.prems(2) False by (auto simp: timer_callback_def Let_def b_def s1_def split: option.splits)
    have "section_step user (Sec_timer_take reason) (s, []) = Some (s1, [Pend_timeout b reason])"
      using False by (simp add: timer_take_def Let_def b_def s1_def)
    then have 1: "locked_reach user n psize pool (s1, [Pend_timeout b reason])"
      by (rule locked_step [OF Suc.prems(1), rotated]) simp
    have "section_step user (Sec_callback now 0) (s1, [Pend_timeout b reason]) = Some (s3, [])" using c(1) by simp
    then have "locked_reach user n psize pool (s3, [])" by (rule locked_step [OF 1, rotated]) simp
    then show ?thesis using c(2) by (rule Suc.IH)
  qed (use Suc.prems in simp)
qed simp

lemma on_timer_que_sections:
  assumes "locked_reach user n psize pool (s, [])" "k = (if queued then MTLK_TXMMB_QUEUED else MTLK_TXMMB_SENT)"
    and "mtlk_txmm_on_timer_que user now k reason queued s = Some (c, s')"
  shows "locked_reach user n psize pool (s', [])"
proof -
  obtain c1 s1 where 1: "timer_collect (max_msgs s) now k queued (q_from (ques s k)) s = (c1, s1)" by fastforce
  then have "section_step user (Sec_timer_collect now queued) (s, []) = Some (s1, [])" using assms(2) by (simp add: Let_def)
  then have "locked_reach user n psize pool (s1, [])" by (rule locked_step [OF assms(1), rotated]) simp
  then show ?thesis
    by (rule timer_report_sections) (use assms(3) 1 in \<open>auto simp: mtlk_txmm_on_timer_que_def\<close>)
qed

lemma not_timed_out:
  assumes "txmm_ok s" "m_data (msgs s m) = Some b"
  shows "b_que (blocks s b) \<noteq> MTLK_TXMMB_TIMED_OUT"
proof
  assume "b_que (blocks s b) = MTLK_TXMMB_TIMED_OUT"
  then have "in_que s MTLK_TXMMB_TIMED_OUT b"
    using txmm_okD(1) [OF assms(1)] attached_block(1) [OF _ assms(2)] assms(1) by (auto simp: txmm_inv_def txmm_ok_safe)
  then show False using txmm_okD(3) [OF assms(1)] by (auto elim: in_queE)
qed

lemma call_sections:
  assumes "locked_reach user n psize pool (s, [])" "op_allowed op s" "txmm_step user op s = Some s'" "txmm_ok s"
  shows "locked_reach user n psize pool (s', [])"
proof (cases op)
  case (Op_get_empty m vap)
  show ?thesis by (rule locked_step [OF assms(1), of "Sec_get_empty m vap"]) (use assms Op_get_empty in auto)
next
  case (Op_send m clb tmo now)
  show ?thesis by (rule locked_step [OF assms(1), of "Sec_send m clb tmo now"]) (use assms Op_send in \<open>auto split: option.splits\<close>)
next
  case (Op_pump p)
  show ?thesis by (rule locked_step [OF assms(1), of "Sec_pump p"]) (use assms Op_pump in auto)
next
  case (Op_cancel m)
  have "section_allowed (Sec_cancel m) (s, [])" using not_timed_out [OF assms(4)] by (auto split: option.splits)
  then show ?thesis by (rule locked_step [OF assms(1)]) (use assms Op_cancel in auto)
next
  case (Op_cfm now p)
  show ?thesis
  proof (cases p)
    case None
    then show ?thesis using assms Op_cfm by (simp add: mtlk_txmm_on_cfm_def)
  next
    case (Some q)
    obtain o1 s1 where t: "on_cfm_take q s = (o1, s1)" by fastforce
    show ?thesis
    proof (cases o1)
      case None
      show ?thesis by (rule locked_step [OF assms(1), of "Sec_cfm_take q"]) (use assms Op_cfm Some None t in \<open>auto simp: mtlk_txmm_on_cfm_def\<close>)
    next
      case (Some b)
      have "section_step user (Sec_cfm_take q) (s, []) = Some (s1, [Pend_cfm b q])" using t Some by simp
      then have 1: "locked_reach user n psize pool (s1, [Pend_cfm b q])" by (rule locked_step [OF assms(1), rotated]) simp
      have "section_step user (Sec_callback now 0) (s1, [Pend_cfm b q]) = Some (s', [])"
        using assms(3) Op_cfm \<open>p = Some q\<close> t Some by (auto simp: mtlk_txmm_on_cfm_def)
      then show ?thesis by (rule locked_step [OF 1, rotated]) simp
    qed
  qed
next
  case (Op_timer now)
  obtain c1 s1 where 1: "mtlk_txmm_on_timer_que user now MTLK_TXMMB_SENT MTLK_TXMM_CLBR_TIMEOUT_SENT False s = Some (c1, s1)"
    "map_option snd (mtlk_txmm_on_timer_que user now MTLK_TXMMB_QUEUED MTLK_TXMM_CLBR_TIMEOUT_UNSENT True s1) = Some s'"
    using assms(3) Op_timer by (auto simp: mtlk_txmm_on_timer_def split: option.splits)
  then obtain c2 where 2: "mtlk_txmm_on_timer_que user now MTLK_TXMMB_QUEUED MTLK_TXMM_CLBR_TIMEOUT_UNSENT True s1 = Some (c2, s')" by auto
  have "locked_reach user n psize pool (s1, [])" by (rule on_timer_que_sections [OF assms(1) _ 1(1)]) simp
  from on_timer_que_sections [OF this _ 2] show ?thesis by simp
next
  case Op_start
  show ?thesis by (rule locked_step [OF assms(1), of Sec_start]) (use assms Op_start in auto)
next
  case Op_halt
  show ?thesis by (rule locked_step [OF assms(1), of Sec_halt]) (use assms Op_halt in auto)
qed

lemma calls_locked_reach:
  assumes "txmm_reach user n psize pool s" "0 < n"
  shows "locked_reach user n psize pool (s, [])"
  using assms(1)
proof induction
  case (txmm_reach_step s op s')
  then show ?case using call_sections reach_ok [OF _ assms(2)] by blast
qed (rule locked_init)

section \<open>Properties\<close>

text \<open>
  C11: No message block is ever lost, duplicated or leaked, and no section dereferences a null pointer, however the users' calls, the confirmations and the
  timer interleave at the points where the lock is released, and whatever the callbacks answer.  The blocks of the free, queued, sent and timed-out rings together with the
  pending ones (taken out of a ring for a callback that has not run yet) and those held by the users are exactly the configured blocks, each
  once; every block that is not free has exactly one owning message, which points back to it; and every section a
  context may enter returns.  The users are trusted with two things: a message is sent only while they hold its block,
  and a message is not cancelled while its block is in the timed-out ring or pending.
\<close>
theorem txmm_blocks_never_lost:
  assumes "locked_reach user n psize pool (s, P)" "0 < n"
  shows "mset (ring n (ques s MTLK_TXMMB_FREE)) + mset (ring n (ques s MTLK_TXMMB_QUEUED))
        + mset (ring n (ques s MTLK_TXMMB_SENT)) + mset (ring n (ques s MTLK_TXMMB_TIMED_OUT)) + mset (map pend_block P)
        + mset_set {b. b < n \<and> b_que (blocks s b) = MTLK_TXMMB_NONE \<and> b \<notin> pend_block ` set P}
      = mset [0..<n]
    \<and> (\<forall>b. b < n \<longrightarrow> b_que (blocks s b) \<noteq> MTLK_TXMMB_FREE \<longrightarrow>
         (\<exists>!m. m_data (msgs s m) = Some b \<and> b_msg (blocks s b) = Some m))
    \<and> (\<forall>c. section_allowed c (s, P) \<longrightarrow> (\<exists>y. section_step user c (s, P) = Some y))"
proof (intro conjI allI impI)
  note I = locked_invD [OF locked_reach_inv [OF assms]]
  have inv: "txmm_inv {} s" and own: "owner_inv s" using txmm_safeD [OF I(1)] by auto
  have P: "count (mset (map pend_block P)) b = (if b \<in> pend_block ` set P then 1 else 0)" for b
  proof -
    have "distinct (map pend_block P)" using I(3) by (simp add: pending_ok_def)
    then show ?thesis by (simp only: distinct_count_atmost_1 set_map)
  qed
  have pend: "b < n" "b_que (blocks s b) = MTLK_TXMMB_NONE" if "b \<in> pend_block ` set P" for b
    using I(2,3) that by (auto simp: pending_ok_def)
  show "mset (ring n (ques s MTLK_TXMMB_FREE)) + mset (ring n (ques s MTLK_TXMMB_QUEUED))
        + mset (ring n (ques s MTLK_TXMMB_SENT)) + mset (ring n (ques s MTLK_TXMMB_TIMED_OUT)) + mset (map pend_block P)
        + mset_set {b. b < n \<and> b_que (blocks s b) = MTLK_TXMMB_NONE \<and> b \<notin> pend_block ` set P} = mset [0..<n]"
  proof (rule multiset_eqI)
    fix b
    have "count (mset [0..<n]) b = (if b < n then 1 else 0)"
      by (simp add: distinct_count_atmost_1)
    then show "count (mset (ring n (ques s MTLK_TXMMB_FREE)) + mset (ring n (ques s MTLK_TXMMB_QUEUED))
        + mset (ring n (ques s MTLK_TXMMB_SENT)) + mset (ring n (ques s MTLK_TXMMB_TIMED_OUT)) + mset (map pend_block P)
        + mset_set {b. b < n \<and> b_que (blocks s b) = MTLK_TXMMB_NONE \<and> b \<notin> pend_block ` set P}) b = count (mset [0..<n]) b"
      using count_ring [OF inv, of _ b] P [of b] pend [of b] I(2)
      by (cases "b_que (blocks s b)"; cases "b \<in> pend_block ` set P") (auto simp del: mset_map)
  qed
  show "\<exists>!m. m_data (msgs s m) = Some b \<and> b_msg (blocks s b) = Some m"
    if "b < n" "b_que (blocks s b) \<noteq> MTLK_TXMMB_FREE" for b
    using owner_msg [OF own, of b] that I(2) by (metis option.inject)
  show "\<exists>y. section_step user c (s, P) = Some y" if "section_allowed c (s, P)" for c
    using section_keeps [OF locked_reach_inv [OF assms] that, of user] by blast
qed

text \<open>The confirmation of slot 7 has taken block 0 out of the sent ring and has not called the user yet.\<close>
definition demo_pending :: txmm where
  "demo_pending = snd (on_cfm_take 7 demo_txmm)"

lemma demo_safe: "txmm_safe demo_txmm" "max_msgs demo_txmm = 4"
  using reach_ok [OF demo_txmm_reach] reach_max_msgs [OF demo_txmm_reach] by (simp_all add: txmm_ok_safe)

lemma demo_pending_take:
  "on_cfm_take 7 demo_txmm = (Some 0, demo_pending)" "msgs demo_pending = msgs demo_txmm"
  "b_que (blocks demo_pending 0) = MTLK_TXMMB_NONE"
  using on_cfm_take_spec [OF demo_safe(1), of 7] demo_txmm_sent demo_safe(2) by (auto simp: demo_pending_def)

lemma demo_pending_reach: "locked_reach (\<lambda>_ _ _. MTLK_TXMM_CLBA_FREE) 4 2 [7] (demo_pending, [Pend_cfm 0 7])"
  by (rule locked_step [OF calls_locked_reach [OF demo_txmm_reach], of "Sec_cfm_take 7"]) (simp_all add: demo_pending_take)

theorem txmm_blocks_never_lost_witness:
  "locked_reach (\<lambda>_ _ _. MTLK_TXMM_CLBA_FREE) 4 2 [7] (demo_pending, [Pend_cfm 0 7])
   \<and> (\<exists>!m. m_data (msgs demo_pending m) = Some 0 \<and> b_msg (blocks demo_pending 0) = Some m)
   \<and> (\<exists>y. section_step (\<lambda>_ _ _. MTLK_TXMM_CLBA_FREE) (Sec_timer_collect 200 False) (demo_pending, [Pend_cfm 0 7]) = Some y)
   \<and> (\<exists>y. section_step (\<lambda>_ _ _. MTLK_TXMM_CLBA_FREE) (Sec_callback 5 0) (demo_pending, [Pend_cfm 0 7]) = Some y)"
proof -
  have "section_allowed (Sec_timer_collect 200 False) (demo_pending, [Pend_cfm 0 7])"
    "section_allowed (Sec_callback 5 0) (demo_pending, [Pend_cfm 0 7])" "0 < (4::nat)" by simp_all
  moreover have "b_que (blocks demo_pending 0) \<noteq> MTLK_TXMMB_FREE" by (simp add: demo_pending_take)
  ultimately show ?thesis using txmm_blocks_never_lost [OF demo_pending_reach] demo_pending_reach by blast
qed

text \<open>A block that is put on the free ring while the invariant holds for that ring.\<close>
lemma free_ring_put:
  assumes "txmm_inv {} s" "b < max_msgs s" "\<not> in_que s MTLK_TXMMB_FREE b" "max_msgs s' = max_msgs s" "ques s' = ques s"
  shows "ring (max_msgs s) (ques (mtlk_txmm_put_buf MTLK_TXMMB_FREE b s') MTLK_TXMMB_FREE) = ring (max_msgs s) (ques s MTLK_TXMMB_FREE) @ [b]"
proof -
  have inv: "que_inv s MTLK_TXMMB_FREE" using txmm_inv_que [OF assms(1)] by simp
  have "que_ok (max_msgs s) (ques s MTLK_TXMMB_FREE)" using inv by (simp add: que_inv_def)
  from ring_put [OF this que_not_full [OF inv assms(3,2)], of b] show ?thesis
    using assms(4,5) by (simp add: mtlk_txmm_put_buf_def upd_que_def upd_block_def)
qed

text \<open>
  C12: What a cancellation at the wrong moment does.  While a confirmed or timed-out message is pending, \<^verbatim>\<open>mtlk_txmm_msg_cancel\<close> zeroes its block
  and frees it, and the callback section that comes next dereferences the null pointer \<^verbatim>\<open>block->msg\<close>, although its comment expects to recognise the
  cancelled message by \<^verbatim>\<open>msg->data\<close>.  While the block is in the timed-out ring, the cancellation puts it on the free ring without taking it out of the
  timed-out one: the block is in both.
\<close>
theorem txmm_cancel_in_flight_corrupts:
  assumes "locked_reach user n psize pool (s, P)" "0 < n" "m_data (msgs s m) = Some b"
  shows "(\<forall>i < length P. pend_block (P ! i) = b \<longrightarrow> section_step user (Sec_callback now i) (mtlk_txmm_msg_cancel m s, P) = None)
    \<and> (b_que (blocks s b) = MTLK_TXMMB_TIMED_OUT \<longrightarrow>
         b \<in> set (ring n (ques (mtlk_txmm_msg_cancel m s) MTLK_TXMMB_FREE)) \<and> b \<in> set (ring n (ques (mtlk_txmm_msg_cancel m s) MTLK_TXMMB_TIMED_OUT)))"
proof (intro conjI allI impI)
  note I = locked_invD [OF locked_reach_inv [OF assms(1,2)]]
  note A = attached_block [OF I(1) assms(3)]
  show "section_step user (Sec_callback now i) (mtlk_txmm_msg_cancel m s, P) = None" if i: "i < length P" "pend_block (P ! i) = b" for i
  proof -
    have "pend_block (P ! i) \<in> pend_block ` set P" using i(1) by simp
    then have "b_que (blocks s b) = MTLK_TXMMB_NONE" using I(3) i(2) by (auto simp: pending_ok_def)
    then have "b_msg (blocks (mtlk_txmm_msg_cancel m s) b) = None"
      using A assms(3) by (auto simp: mtlk_txmm_msg_cancel_def mtlk_txmm_free_def mtlk_txmm_free_buf_def Let_def zero_block_def)
    then show ?thesis using i(2)
      by (cases "P ! i") (simp_all add: on_cfm_finish_def timer_callback_def mtlk_txmm_call_usr_clb_locked_def tx_emit_def)
  qed
  assume t: "b_que (blocks s b) = MTLK_TXMMB_TIMED_OUT"
  have inv: "txmm_inv {} s" using txmm_safeD [OF I(1)] by simp
  have out: "\<not> in_que s MTLK_TXMMB_FREE b" using in_que_blocks(2) [OF txmm_inv_que [OF inv], of MTLK_TXMMB_FREE b] t by auto
  have c: "ques (mtlk_txmm_msg_cancel m s) = ques (mtlk_txmm_put_buf MTLK_TXMMB_FREE b (upd_block b zero_block s))"
    using A assms(3) t by (auto simp: mtlk_txmm_msg_cancel_def mtlk_txmm_free_def mtlk_txmm_free_buf_def Let_def)
  show "b \<in> set (ring n (ques (mtlk_txmm_msg_cancel m s) MTLK_TXMMB_FREE))"
    using free_ring_put [OF inv A(1) out, of "upd_block b zero_block s"] c I(2) by simp
  have "in_que s MTLK_TXMMB_TIMED_OUT b" using inv A(1) t by (auto simp: txmm_inv_def)
  then show "b \<in> set (ring n (ques (mtlk_txmm_msg_cancel m s) MTLK_TXMMB_TIMED_OUT))" using c I(2) by (simp add: in_que_def)
qed

lemma demo_message: "m_data (msgs demo_txmm 10) = Some 0"
  unfolding demo_txmm_def demo_ops_def by (simp add: txmm_eval)

theorem txmm_cancel_in_flight_corrupts_witness:
  "m_data (msgs demo_pending 10) = Some 0 \<and> pend_block ([Pend_cfm 0 7] ! 0) = 0
   \<and> section_step (\<lambda>_ _ _. MTLK_TXMM_CLBA_FREE) (Sec_callback 5 0) (mtlk_txmm_msg_cancel 10 demo_pending, [Pend_cfm 0 7]) = None"
proof -
  have m: "m_data (msgs demo_pending 10) = Some 0" by (simp add: demo_pending_take demo_message)
  then show ?thesis
    using txmm_cancel_in_flight_corrupts [OF demo_pending_reach _ m, of 5] by auto
qed

end
