(* ===== verification/Nbuf.thy ===== *)
theory Nbuf
  imports Wave_Prelude
begin

text \<open>
  The network buffer as the receive path sees it (\<^verbatim>\<open>mtlknbufpriv.h\<close>: flags, source station, replay
  counter bytes, RSN bits; \<^verbatim>\<open>mtlk_df_nbuf_impl.h\<close>: priority and payload access) and the kernel
  services the path calls.  The kernel is not part of the sources: its functions are the fields of
  \<open>os_env\<close>, an argument of every operation that uses one of them.
\<close>

unbundle bit_operations_syntax

section \<open>Buffers\<close>

text \<open>The fields of a \<^verbatim>\<open>sta_entry\<close> that the receive path reads.\<close>
record sta_entry =
  sta_addr :: mac_addr
  sta_cipher :: nat

text \<open>
  \<^verbatim>\<open>mtlk_nbuf_priv_internal\<close> together with the kernel's \<^verbatim>\<open>sk_buff\<close> fields; \<open>nb_id\<close> is the identity
  (the address) of the buffer.
\<close>
record mtlk_nbuf =
  nb_id :: nat
  rsn_bits :: byte
  nb_flags :: "16 word"
  src_sta :: "sta_entry option"
  rsc_buf :: "byte list"
  nb_data :: "byte list"
  nb_priority :: nat

definition MTLK_NBUFF_DIRECTED :: "16 word" where "MTLK_NBUFF_DIRECTED = 0x0001"
definition MTLK_NBUFF_UNICAST :: "16 word" where "MTLK_NBUFF_UNICAST = 0x0002"
definition MTLK_NBUFF_FORWARD :: "16 word" where "MTLK_NBUFF_FORWARD = 0x0010"
definition MTLK_NBUFF_CONSUME :: "16 word" where "MTLK_NBUFF_CONSUME = 0x0020"

definition mtlk_nbuf_priv_check_flags :: "mtlk_nbuf \<Rightarrow> 16 word \<Rightarrow> bool" where
  "mtlk_nbuf_priv_check_flags nb fl = (nb_flags nb AND fl \<noteq> 0)"

definition mtlk_nbuf_priv_set_flags :: "16 word \<Rightarrow> mtlk_nbuf \<Rightarrow> mtlk_nbuf" where
  "mtlk_nbuf_priv_set_flags fl nb = nb\<lparr>nb_flags := nb_flags nb OR fl\<rparr>"

definition mtlk_nbuf_priv_reset_flags :: "16 word \<Rightarrow> mtlk_nbuf \<Rightarrow> mtlk_nbuf" where
  "mtlk_nbuf_priv_reset_flags fl nb = nb\<lparr>nb_flags := nb_flags nb AND NOT fl\<rparr>"

text \<open>
  \<^verbatim>\<open>rsc_buf[idx]\<close>: the callers use the constant indices 0 to 7 of the 8-byte array.
\<close>
definition mtlk_nbuf_priv_get_rsc_buf_byte :: "mtlk_nbuf \<Rightarrow> nat \<Rightarrow> byte" where
  "mtlk_nbuf_priv_get_rsc_buf_byte nb idx = rsc_buf nb ! idx"

definition mtlk_df_nbuf_get_priority :: "mtlk_nbuf \<Rightarrow> nat" where
  "mtlk_df_nbuf_get_priority nb = nb_priority nb mod 2 ^ 16"

definition mtlk_df_nbuf_set_priority :: "nat \<Rightarrow> mtlk_nbuf \<Rightarrow> mtlk_nbuf" where
  "mtlk_df_nbuf_set_priority p nb = nb\<lparr>nb_priority := p\<rparr>"

lemma flags_set_check:
  "mtlk_nbuf_priv_check_flags (mtlk_nbuf_priv_set_flags fl nb) fl \<longleftrightarrow> fl \<noteq> 0"
  by (simp add: mtlk_nbuf_priv_check_flags_def mtlk_nbuf_priv_set_flags_def
      bit.conj_disj_distrib2)

lemma flags_reset_check:
  "\<not> mtlk_nbuf_priv_check_flags (mtlk_nbuf_priv_reset_flags fl nb) fl"
  by (simp add: mtlk_nbuf_priv_check_flags_def mtlk_nbuf_priv_reset_flags_def and.assoc)

section \<open>Kernel services\<close>

text \<open>
  \<^item> \<open>skb_copy_bits data offset length\<close>: the requested bytes, \<^term>\<open>None\<close> when the kernel refuses;
  \<^item> \<open>skb_clone_ok nb\<close>: the kernel had memory to clone the buffer;
  \<^item> \<open>is_multicast_ether_addr\<close>, \<open>is_broadcast_ether_addr\<close>: classification of a hardware address;
  \<^item> \<open>time_after a b\<close>, \<open>msecs_to_jiffies\<close>: the jiffies clock;
  \<^item> \<open>do_classify\<close>: the optional external video classifier, with the priority it leaves in the packet.
\<close>
record os_env =
  skb_copy_bits :: "byte list \<Rightarrow> nat \<Rightarrow> nat \<Rightarrow> byte list option"
  skb_clone_ok :: "mtlk_nbuf \<Rightarrow> bool"
  is_multicast_ether_addr :: "mac_addr \<Rightarrow> bool"
  is_broadcast_ether_addr :: "mac_addr \<Rightarrow> bool"
  time_after :: "nat \<Rightarrow> nat \<Rightarrow> bool"
  msecs_to_jiffies :: "nat \<Rightarrow> nat"
  do_classify :: "(mtlk_nbuf \<Rightarrow> nat) option"

definition mtlk_df_nbuf_read :: "os_env \<Rightarrow> mtlk_nbuf \<Rightarrow> nat \<Rightarrow> nat \<Rightarrow> mtlk_error + byte list" where
  "mtlk_df_nbuf_read env nb offset len =
     (case skb_copy_bits env (nb_data nb) offset len of
        None \<Rightarrow> Inl MTLK_ERR_UNKNOWN
      | Some bs \<Rightarrow> Inr bs)"

text \<open>A kernel that behaves as documented, used wherever a concrete run is evaluated.\<close>
definition linux_env :: os_env where
  "linux_env = \<lparr>
     skb_copy_bits = (\<lambda>d off len. if off + len \<le> length d then Some (take len (drop off d)) else None),
     skb_clone_ok = (\<lambda>_. True),
     is_multicast_ether_addr = (\<lambda>a. a \<noteq> [] \<and> odd (unat (hd a))),
     is_broadcast_ether_addr = (\<lambda>a. a = replicate 6 (0xFF :: byte)),
     time_after = (\<lambda>a b. 0 < u32_sub a b \<and> u32_sub a b < 2 ^ 31),
     msecs_to_jiffies = (\<lambda>ms. ms),
     do_classify = None\<rparr>"

end
