(* ===== verification/Qos.thy ===== *)
theory Qos
  imports Nbuf
begin

text \<open>
  Access categories and TIDs, \<^verbatim>\<open>driver/shared/mtlkqos.c\<close> and \<^verbatim>\<open>mtlkqos.h\<close>: the module's static
  pointers to the active mapping tables are the record \<open>qos_maps\<close>, the per-core admission control
  table \<^verbatim>\<open>acm_substitution\<close> is \<open>mtlk_qos\<close>.
\<close>

section \<open>Tables\<close>

definition AC_BE :: nat where "AC_BE = 0"
definition AC_BK :: nat where "AC_BK = 1"
definition AC_VI :: nat where "AC_VI = 2"
definition AC_VO :: nat where "AC_VO = 3"
definition AC_INVALID :: nat where "AC_INVALID = 0xFF"
definition NTS_PRIORITIES :: nat where "NTS_PRIORITIES = 4"
definition MTLK_WMM_ACI_DEFAULT_CLASS :: nat where "MTLK_WMM_ACI_DEFAULT_CLASS = 0"

lemmas ac_defs = AC_BE_def AC_BK_def AC_VI_def AC_VO_def AC_INVALID_def NTS_PRIORITIES_def
  MTLK_WMM_ACI_DEFAULT_CLASS_def

definition wmm_aci_class_80211 :: "nat list" where
  "wmm_aci_class_80211 = [AC_BE, AC_BK, AC_BK, AC_BE, AC_VI, AC_VI, AC_VO, AC_VO]"
definition wmm_aci_class_8021Q :: "nat list" where
  "wmm_aci_class_8021Q = [AC_BE, AC_BK, AC_VI, AC_VI, AC_VI, AC_VO, AC_VO, AC_VO]"
definition wmm_aci_class_80211_inverted_vi_be :: "nat list" where
  "wmm_aci_class_80211_inverted_vi_be = [AC_VI, AC_BK, AC_BK, AC_VI, AC_BE, AC_BE, AC_VO, AC_VO]"
definition wmm_aci_class_8021Q_inverted_vi_be :: "nat list" where
  "wmm_aci_class_8021Q_inverted_vi_be = [AC_VI, AC_BK, AC_BE, AC_BE, AC_BE, AC_VO, AC_VO, AC_VO]"
definition wmm_ac_to_tid_mapping_80211 :: "nat list" where
  "wmm_ac_to_tid_mapping_80211 = [0, 1, 5, 6]"
definition wmm_ac_to_tid_mapping_8021Q :: "nat list" where
  "wmm_ac_to_tid_mapping_8021Q = [0, 1, 4, 6]"

lemmas wmm_defs = wmm_aci_class_80211_def wmm_aci_class_8021Q_def
  wmm_aci_class_80211_inverted_vi_be_def wmm_aci_class_8021Q_inverted_vi_be_def
  wmm_ac_to_tid_mapping_80211_def wmm_ac_to_tid_mapping_8021Q_def

definition mtlk_get_ac_by_number :: "nat \<Rightarrow> nat" where
  "mtlk_get_ac_by_number number = [AC_BK, AC_BE, AC_VI, AC_VO] ! (number mod 4)"

section \<open>The mapping tables in force\<close>

record qos_maps =
  map_type :: int
  wmm_aci_class :: "nat list"
  wmm_aci_class_for_map :: "nat list"
  wmm_ac_to_tid_mapping :: "nat list"

definition qos_maps_static :: qos_maps where
  "qos_maps_static = \<lparr>map_type = 0, wmm_aci_class = wmm_aci_class_80211,
     wmm_aci_class_for_map = wmm_aci_class_80211,
     wmm_ac_to_tid_mapping = wmm_ac_to_tid_mapping_80211\<rparr>"

definition mtlk_qos_set_map :: "int \<Rightarrow> qos_maps \<Rightarrow> mtlk_error \<times> qos_maps" where
  "mtlk_qos_set_map m g =
    (if m = 0 then
       (MTLK_ERR_OK, g\<lparr>wmm_aci_class := wmm_aci_class_80211,
          wmm_aci_class_for_map := wmm_aci_class_80211,
          wmm_ac_to_tid_mapping := wmm_ac_to_tid_mapping_80211, map_type := m\<rparr>)
     else if m = 1 then
       (MTLK_ERR_OK, g\<lparr>wmm_aci_class := wmm_aci_class_8021Q,
          wmm_aci_class_for_map := wmm_aci_class_8021Q,
          wmm_ac_to_tid_mapping := wmm_ac_to_tid_mapping_8021Q, map_type := m\<rparr>)
     else if m = 100 then
       (MTLK_ERR_OK, g\<lparr>wmm_aci_class := wmm_aci_class_80211,
          wmm_aci_class_for_map := wmm_aci_class_80211_inverted_vi_be,
          wmm_ac_to_tid_mapping := wmm_ac_to_tid_mapping_80211, map_type := m\<rparr>)
     else if m = 101 then
       (MTLK_ERR_OK, g\<lparr>wmm_aci_class := wmm_aci_class_8021Q,
          wmm_aci_class_for_map := wmm_aci_class_8021Q_inverted_vi_be,
          wmm_ac_to_tid_mapping := wmm_ac_to_tid_mapping_8021Q, map_type := m\<rparr>)
     else (MTLK_ERR_PARAMS, g))"

definition mtlk_qos_get_map :: "qos_maps \<Rightarrow> int" where
  "mtlk_qos_get_map g = map_type g"

definition mtlk_qos_is_map_8021Q_based :: "qos_maps \<Rightarrow> bool" where
  "mtlk_qos_is_map_8021Q_based g = (map_type g = 1 \<or> map_type g = 101)"

definition mtlk_qos_map_ac_by_tid :: "qos_maps \<Rightarrow> nat \<Rightarrow> nat" where
  "mtlk_qos_map_ac_by_tid g tid = wmm_aci_class_for_map g ! (tid mod 8)"

definition mtlk_qos_get_ac_by_tid :: "qos_maps \<Rightarrow> nat \<Rightarrow> nat" where
  "mtlk_qos_get_ac_by_tid g tid = wmm_aci_class g ! (tid mod 8)"

definition mtlk_qos_get_tid_by_ac :: "qos_maps \<Rightarrow> nat \<Rightarrow> nat" where
  "mtlk_qos_get_tid_by_ac g ac = wmm_ac_to_tid_mapping g ! (ac mod 4)"

section \<open>Admission control\<close>

record mtlk_qos =
  acm_substitution :: "nat list"

definition reset_acm_bits_unsafe :: "mtlk_qos \<Rightarrow> mtlk_qos" where
  "reset_acm_bits_unsafe q = q\<lparr>acm_substitution :=
     fold (\<lambda>i tab. tab[i := i]) [0..<NTS_PRIORITIES] (acm_substitution q)\<rparr>"

definition mtlk_qos_reset_acm_bits :: "mtlk_qos \<Rightarrow> mtlk_qos" where
  "mtlk_qos_reset_acm_bits q = reset_acm_bits_unsafe q"

text \<open>One iteration of the loop of \<^verbatim>\<open>mtlk_qos_set_acm_bits\<close>.\<close>
definition set_acm_bit :: "nat list \<Rightarrow> nat \<Rightarrow> mtlk_qos \<Rightarrow> mtlk_qos" where
  "set_acm_bit acm_state_table i q =
     (let ac = mtlk_get_ac_by_number i in
      if acm_state_table ! ac \<noteq> 0 then
        q\<lparr>acm_substitution := (acm_substitution q)[ac :=
            (if i = 0 then AC_INVALID
             else acm_substitution q ! mtlk_get_ac_by_number (i - 1))]\<rparr>
      else q)"

definition mtlk_qos_set_acm_bits :: "nat list \<Rightarrow> mtlk_qos \<Rightarrow> mtlk_qos" where
  "mtlk_qos_set_acm_bits acm_state_table q =
     fold (set_acm_bit acm_state_table) [0..<NTS_PRIORITIES] (reset_acm_bits_unsafe q)"

definition acm_adjust_ac :: "mtlk_qos \<Rightarrow> nat \<Rightarrow> nat" where
  "acm_adjust_ac q ac = acm_substitution q ! ac"

section \<open>Classification of a packet\<close>

definition get_ip4_tos :: "byte list \<Rightarrow> byte" where
  "get_ip4_tos pkt = pkt ! 1"

definition get_ip6_tos :: "byte list \<Rightarrow> byte" where
  "get_ip6_tos pkt = (let data = be_val (take 2 pkt) div 2 ^ 4 in of_nat data)"

text \<open>The top three bits of the type-of-service octet (\<^verbatim>\<open>mtlk_tos_field_t\<close>).\<close>
definition tos_priority :: "byte \<Rightarrow> nat" where
  "tos_priority tos = unat (drop_bit 5 tos)"

definition mtlk_qos_get_priority_from_tos ::
    "os_env \<Rightarrow> mtlk_nbuf \<Rightarrow> nat \<Rightarrow> mtlk_error \<times> nat" where
  "mtlk_qos_get_priority_from_tos env nb priority =
     (case mtlk_df_nbuf_read env nb (14 - 2) 4 of
        Inl _ \<Rightarrow> (MTLK_ERR_UNKNOWN, priority)
      | Inr b \<Rightarrow>
          (let ether_type = be_val (take 2 b) in
           if ether_type = 0x0800 then (MTLK_ERR_OK, tos_priority (get_ip4_tos (drop 2 b)))
           else if ether_type = 0x86DD then (MTLK_ERR_OK, tos_priority (get_ip6_tos (drop 2 b)))
           else (MTLK_ERR_OK, MTLK_WMM_ACI_DEFAULT_CLASS)))"

definition mtlk_qos_get_ac ::
    "os_env \<Rightarrow> qos_maps \<Rightarrow> mtlk_qos \<Rightarrow> mtlk_nbuf \<Rightarrow> nat \<times> mtlk_nbuf" where
  "mtlk_qos_get_ac env g q nb =
     (let (priority, nb) =
        (case do_classify env of
           Some cl \<Rightarrow> (let nb' = mtlk_df_nbuf_set_priority (cl nb) nb
                       in (mtlk_df_nbuf_get_priority nb', nb'))
         | None \<Rightarrow> (snd (mtlk_qos_get_priority_from_tos env nb MTLK_WMM_ACI_DEFAULT_CLASS), nb));
        ac = acm_adjust_ac q (mtlk_qos_map_ac_by_tid g priority)
      in (ac, if ac \<noteq> AC_INVALID
              then mtlk_df_nbuf_set_priority (mtlk_qos_get_tid_by_ac g ac) nb else nb))"

definition mtlk_qos_get_ac_name :: "nat \<Rightarrow> string" where
  "mtlk_qos_get_ac_name ac_idx = [''AC_BE'', ''AC_BK'', ''AC_VI'', ''AC_VO''] ! ac_idx"

section \<open>Invariants and correctness\<close>

text \<open>The tables in force are one of the four consistent sets.\<close>
definition qos_maps_ok :: "qos_maps \<Rightarrow> bool" where
  "qos_maps_ok g = (\<exists>m \<in> {0, 1, 100, 101}. g = snd (mtlk_qos_set_map m g))"

definition mtlk_qos_ok :: "mtlk_qos \<Rightarrow> bool" where
  "mtlk_qos_ok q = (length (acm_substitution q) = 4 \<and>
     (\<forall>ac < 4. acm_substitution q ! ac < 4 \<or> acm_substitution q ! ac = AC_INVALID))"

lemma qos_maps_cases:
  assumes "qos_maps_ok g"
  obtains "g = snd (mtlk_qos_set_map 0 g)" | "g = snd (mtlk_qos_set_map 1 g)"
    | "g = snd (mtlk_qos_set_map 100 g)" | "g = snd (mtlk_qos_set_map 101 g)"
  using assms by (auto simp: qos_maps_ok_def)

lemma qos_maps_ok_tables:
  "qos_maps_ok g \<longleftrightarrow>
     map_type g = 0 \<and> wmm_aci_class g = wmm_aci_class_80211
       \<and> wmm_aci_class_for_map g = wmm_aci_class_80211
       \<and> wmm_ac_to_tid_mapping g = wmm_ac_to_tid_mapping_80211
   \<or> map_type g = 1 \<and> wmm_aci_class g = wmm_aci_class_8021Q
       \<and> wmm_aci_class_for_map g = wmm_aci_class_8021Q
       \<and> wmm_ac_to_tid_mapping g = wmm_ac_to_tid_mapping_8021Q
   \<or> map_type g = 100 \<and> wmm_aci_class g = wmm_aci_class_80211
       \<and> wmm_aci_class_for_map g = wmm_aci_class_80211_inverted_vi_be
       \<and> wmm_ac_to_tid_mapping g = wmm_ac_to_tid_mapping_80211
   \<or> map_type g = 101 \<and> wmm_aci_class g = wmm_aci_class_8021Q
       \<and> wmm_aci_class_for_map g = wmm_aci_class_8021Q_inverted_vi_be
       \<and> wmm_ac_to_tid_mapping g = wmm_ac_to_tid_mapping_8021Q"
  by (cases g) (auto simp: qos_maps_ok_def mtlk_qos_set_map_def)

lemma qos_maps_ok_static [wave_inv]: "qos_maps_ok qos_maps_static"
  by (simp add: qos_maps_ok_tables qos_maps_static_def)

lemma qos_maps_ok_set_map [wave_inv]:
  "qos_maps_ok g \<Longrightarrow> qos_maps_ok (snd (mtlk_qos_set_map m g))"
  by (simp add: mtlk_qos_set_map_def qos_maps_ok_tables)

lemma less_4_cases: "(n :: nat) < 4 \<longleftrightarrow> n = 0 \<or> n = 1 \<or> n = 2 \<or> n = 3"
  by auto

lemma less_8_cases:
  "(n :: nat) < 8 \<longleftrightarrow> n = 0 \<or> n = 1 \<or> n = 2 \<or> n = 3 \<or> n = 4 \<or> n = 5 \<or> n = 6 \<or> n = 7"
  by auto

lemma upt_4: "[0..<4] = [0, 1, 2, 3 :: nat]"
  by (simp add: upt_rec)

lemma reset_acm_bits_table:
  assumes "length (acm_substitution q) = 4"
  shows "acm_substitution (reset_acm_bits_unsafe q) = [0, 1, 2, 3]"
proof -
  obtain a b c d where "acm_substitution q = [a, b, c, d]"
    using assms by (auto simp: numeral_eq_Suc length_Suc_conv)
  then show ?thesis
    by (simp add: reset_acm_bits_unsafe_def NTS_PRIORITIES_def upt_4)
qed

lemma map_ac_by_tid_less:
  assumes "qos_maps_ok g"
  shows "mtlk_qos_map_ac_by_tid g tid < 4"
proof -
  have "tid mod 8 < 8" by simp
  then show ?thesis
    using assms unfolding qos_maps_ok_tables mtlk_qos_map_ac_by_tid_def less_8_cases
    by (elim disjE conjE) (simp_all add: wmm_defs ac_defs)
qed

text \<open>The substitution an admission-controlled category gets: the closest lower category without ACM.\<close>
fun acm_reference :: "nat list \<Rightarrow> nat \<Rightarrow> nat" where
  "acm_reference tab k =
     (if tab ! mtlk_get_ac_by_number k = 0 then mtlk_get_ac_by_number k
      else if k = 0 then AC_INVALID else acm_reference tab (k - 1))"

declare acm_reference.simps [simp del]

lemma set_acm_bits_table:
  assumes "length (acm_substitution q) = 4"
  shows "acm_substitution (mtlk_qos_set_acm_bits tab q) =
    [acm_reference tab 1, acm_reference tab 0, acm_reference tab 2, acm_reference tab 3]"
proof -
  obtain r where r: "reset_acm_bits_unsafe q = r" "acm_substitution r = [0, 1, 2, 3]"
    using reset_acm_bits_table [OF assms] by blast
  have ac: "mtlk_get_ac_by_number 0 = 1" "mtlk_get_ac_by_number (Suc 0) = 0"
    "mtlk_get_ac_by_number 2 = 2" "mtlk_get_ac_by_number 3 = 3"
    by (simp_all add: mtlk_get_ac_by_number_def ac_defs)
  have ref: "acm_reference tab 0 = (if tab ! 1 = 0 then 1 else AC_INVALID)"
    "acm_reference tab (Suc 0) = (if tab ! 0 = 0 then 0 else acm_reference tab 0)"
    "acm_reference tab 2 = (if tab ! 2 = 0 then 2 else acm_reference tab (Suc 0))"
    "acm_reference tab 3 = (if tab ! 3 = 0 then 3 else acm_reference tab 2)"
    by (subst acm_reference.simps, simp add: ac)+
  show ?thesis
    unfolding mtlk_qos_set_acm_bits_def r(1) NTS_PRIORITIES_def upt_4
    by (simp add: set_acm_bit_def Let_def ac r(2) ref)
qed

lemma acm_reference_range: "acm_reference tab k < 4 \<or> acm_reference tab k = AC_INVALID"
proof (induction k rule: less_induct)
  case (less k)
  have "k mod 4 < 4" by simp
  then have "mtlk_get_ac_by_number k < 4"
    unfolding mtlk_get_ac_by_number_def less_4_cases by (auto simp: ac_defs)
  then show ?case
    using less [of "k - 1"] by (subst (1 2) acm_reference.simps) auto
qed

lemma mtlk_qos_ok_reset [wave_inv]:
  "length (acm_substitution q) = 4 \<Longrightarrow> mtlk_qos_ok (mtlk_qos_reset_acm_bits q)"
  by (simp add: mtlk_qos_reset_acm_bits_def mtlk_qos_ok_def reset_acm_bits_table less_4_cases)

lemma mtlk_qos_ok_set [wave_inv]:
  assumes "length (acm_substitution q) = 4"
  shows "mtlk_qos_ok (mtlk_qos_set_acm_bits tab q)"
  using acm_reference_range unfolding mtlk_qos_ok_def set_acm_bits_table [OF assms] less_4_cases
  by auto

lemma get_ac_range:
  assumes "qos_maps_ok g" "mtlk_qos_ok q"
  shows "fst (mtlk_qos_get_ac env g q nb) < 4 \<or> fst (mtlk_qos_get_ac env g q nb) = AC_INVALID"
  using assms(2) map_ac_by_tid_less [OF assms(1)]
  unfolding mtlk_qos_get_ac_def acm_adjust_ac_def Let_def mtlk_qos_ok_def
  by (auto split: option.split prod.split)

lemma ac_tid_ac:
  assumes "qos_maps_ok g" "ac < 4"
  shows "mtlk_qos_get_ac_by_tid g (mtlk_qos_get_tid_by_ac g ac) = ac"
  using assms unfolding qos_maps_ok_tables mtlk_qos_get_ac_by_tid_def mtlk_qos_get_tid_by_ac_def
    less_4_cases
  by (elim disjE conjE) (simp_all add: wmm_defs ac_defs)

lemma get_ac_keeps_identity [simp]: "nb_id (snd (mtlk_qos_get_ac env g q nb)) = nb_id nb"
  by (simp add: mtlk_qos_get_ac_def Let_def mtlk_df_nbuf_set_priority_def split: option.split)

text \<open>
  whatever TID map is selected, a packet that \<^verbatim>\<open>mtlk_qos_get_ac\<close> admits gets an access category
  below 4, and the priority written back into the packet maps to that same category, so the later
  per-TID stages agree with the classifier.  A refused packet keeps its priority unless the external
  classifier changed it.
\<close>
lemma qos_get_ac_retags_consistently:
  assumes "qos_maps_ok g" "mtlk_qos_ok q" "mtlk_qos_get_ac env g q nb = (ac, nb')"
    and "ac \<noteq> AC_INVALID"
  shows "ac < 4 \<and> mtlk_qos_get_ac_by_tid g (nb_priority nb') = ac"
proof -
  have "ac < 4"
    using get_ac_range [OF assms(1,2), of env nb] assms(3,4) by simp
  moreover have "nb_priority nb' = mtlk_qos_get_tid_by_ac g ac"
    using assms(3,4)
    by (auto simp: mtlk_qos_get_ac_def Let_def mtlk_df_nbuf_set_priority_def split: option.splits)
  ultimately show ?thesis
    using ac_tid_ac [OF assms(1)] by simp
qed

text \<open>
  \<^verbatim>\<open>mtlk_qos_set_acm_bits\<close> computes, for every access category, the closest category of lower or
  equal priority (order BK, BE, VI, VO) that needs no admission, and \<^verbatim>\<open>AC_INVALID\<close> when there is none;
  what the table held before does not matter.
\<close>
lemma qos_set_acm_bits_correct:
  assumes "length (acm_substitution q) = 4" "k < 4"
  shows "acm_adjust_ac (mtlk_qos_set_acm_bits tab q) (mtlk_get_ac_by_number k) =
    (case find (\<lambda>j. tab ! mtlk_get_ac_by_number j = 0) (rev [0..<Suc k]) of
       None \<Rightarrow> AC_INVALID
     | Some j \<Rightarrow> mtlk_get_ac_by_number j)"
proof -
  have "acm_adjust_ac (mtlk_qos_set_acm_bits tab q) (mtlk_get_ac_by_number k) = acm_reference tab k"
    using assms(2) unfolding acm_adjust_ac_def set_acm_bits_table [OF assms(1)] less_4_cases
    by (auto simp: mtlk_get_ac_by_number_def ac_defs)
  also have "acm_reference tab k =
    (case find (\<lambda>j. tab ! mtlk_get_ac_by_number j = 0) (rev [0..<Suc k]) of
       None \<Rightarrow> AC_INVALID
     | Some j \<Rightarrow> mtlk_get_ac_by_number j)"
    by (induction k) (simp_all add: acm_reference.simps [of tab "Suc _"] acm_reference.simps [of tab 0])
  finally show ?thesis .
qed

subsection \<open>Concrete inputs\<close>

definition ex_voice :: mtlk_nbuf where
  "ex_voice = \<lparr>nb_id = 1, rsn_bits = 0, nb_flags = 0, src_sta = None, rsc_buf = [],
     nb_data = replicate 12 0 @ [0x08, 0x00, 0x45, 0xC0], nb_priority = 0\<rparr>"

theorem qos_get_ac_retags_consistently_witness:
  "\<exists>nb'. mtlk_qos_get_ac linux_env qos_maps_static \<lparr>acm_substitution = [0, 1, 2, 2]\<rparr> ex_voice = (2, nb')
     \<and> 2 < (4 :: nat) \<and> mtlk_qos_get_ac_by_tid qos_maps_static (nb_priority nb') = 2"
proof -
  have "mtlk_qos_get_priority_from_tos linux_env ex_voice MTLK_WMM_ACI_DEFAULT_CLASS = (MTLK_ERR_OK, 6)"
    by (simp add: mtlk_qos_get_priority_from_tos_def mtlk_df_nbuf_read_def linux_env_def ex_voice_def
        get_ip4_tos_def tos_priority_def)
  then obtain nb' where ac: "mtlk_qos_get_ac linux_env qos_maps_static
      \<lparr>acm_substitution = [0, 1, 2, 2]\<rparr> ex_voice = (2, nb')"
    by (simp add: mtlk_qos_get_ac_def linux_env_def acm_adjust_ac_def mtlk_qos_map_ac_by_tid_def
        qos_maps_static_def wmm_defs ac_defs)
  have "mtlk_qos_ok \<lparr>acm_substitution = [0, 1, 2, 2]\<rparr>"
    by (simp add: mtlk_qos_ok_def less_4_cases)
  from qos_get_ac_retags_consistently [OF qos_maps_ok_static this ac] ac show ?thesis
    by (simp add: AC_INVALID_def)
qed

theorem qos_set_acm_bits_correct_witness:
  "acm_adjust_ac (mtlk_qos_set_acm_bits [0, 0, 1, 1] \<lparr>acm_substitution = [9, 9, 9, 9]\<rparr>)
     (mtlk_get_ac_by_number 3) = 0"
  using qos_set_acm_bits_correct [of "\<lparr>acm_substitution = [9, 9, 9, 9]\<rparr>" 3 "[0, 0, 1, 1]"]
  by (simp add: upt_rec mtlk_get_ac_by_number_def ac_defs)

end
