(* ===== verification/Sq.thy ===== *)
theory Sq
  imports Nbuf Qos "HOL-Library.Sublist"
begin

unbundle bit_operations_syntax

text \<open>
  The transmit send queue: \<^verbatim>\<open>shared/mtlk_sq.c\<close>, \<^verbatim>\<open>shared/mtlk_sq.h\<close>, \<^verbatim>\<open>linux/mtlk_sq_osdep.c\<close> and the shared object of
  reliable-multicast clones in \<^verbatim>\<open>shared/mtlknbufpriv.h\<close>.  A peer is \<^term>\<open>None\<close>, the broadcast pseudo-station, or
  \<^term>\<open>Some a\<close>, a station; the arrays over access categories are functions.  What \<^verbatim>\<open>mtlk_xmit\<close> answers is an
  argument, indexed by the number of attempts made so far; buffers that leave are recorded in a log; a clone object that is
  used after it was freed sets \<open>uaf\<close>.
\<close>

section \<open>State\<close>

definition MTLK_NBUFF_RMCAST :: "16 word" where "MTLK_NBUFF_RMCAST = 0x0040"
definition MTLK_NBUFF_URGENT :: "16 word" where "MTLK_NBUFF_URGENT = 0x0100"
definition MTLK_SQ_TX_LIMIT_DEFAULT :: nat where "MTLK_SQ_TX_LIMIT_DEFAULT = 64"
definition PACKETS_IN_MAC_DURING_PM :: nat where "PACKETS_IN_MAC_DURING_PM = 3"
definition AC_HIGHEST :: nat where "AC_HIGHEST = AC_VO"

type_synonym peer_id = "nat option"

record sq_pkt =
  pk_id :: nat
  pk_flags :: "16 word"
  pk_vap :: nat
  pk_dst :: peer_id
  pk_extra :: "nat option"

text \<open>\<^verbatim>\<open>mtlk_nbuf_priv_extra_t\<close>.\<close>
record nbuf_extra =
  ex_ref :: nat
  ex_ac :: nat
  ex_front :: bool

record sq_stats =
  pkts_pushed :: "nat \<Rightarrow> nat"
  pkts_sent_to_um :: "nat \<Rightarrow> nat"
  pkts_limit_dropped :: "nat \<Rightarrow> nat"

record sq_limits =
  global_queue_limit :: "nat \<Rightarrow> nat"
  peer_queue_limit :: "nat \<Rightarrow> nat"

record sq_peer_ctx =
  buflist :: "nat \<Rightarrow> sq_pkt list"
  limit_cfg :: nat
  tx_limit :: nat
  tx_used :: nat
  peer_stats :: sq_stats

text \<open>Pushed: linked into a queue; Sent: taken by the hardware; Freed: released by the queue; Dropped: reported to a station.\<close>
datatype sq_event =
    Pushed peer_id nat sq_pkt
  | Sent peer_id nat sq_pkt
  | Freed peer_id nat sq_pkt
  | Clone_freed sq_pkt
  | Sta_dropped nat string

record sq =
  peer_list :: "nat \<Rightarrow> peer_id list"
  q_size :: "nat \<Rightarrow> nat"
  sq_peers :: "peer_id \<Rightarrow> sq_peer_ctx"
  flush_in_progress :: bool
  flush_count :: nat
  sq_st :: sq_stats
  sq_lim :: sq_limits
  hw_tx_prohibited :: bool
  extras :: "nat \<Rightarrow> nbuf_extra option"
  attempts :: nat
  uaf :: bool
  sq_log :: "sq_event list"

definition sq_emit :: "sq_event \<Rightarrow> sq \<Rightarrow> sq" where
  "sq_emit e s = s\<lparr>sq_log := sq_log s @ [e]\<rparr>"

definition upd_peer :: "peer_id \<Rightarrow> (sq_peer_ctx \<Rightarrow> sq_peer_ctx) \<Rightarrow> sq \<Rightarrow> sq" where
  "upd_peer p f s = s\<lparr>sq_peers := (sq_peers s)(p := f (sq_peers s p))\<rparr>"

definition set_buf :: "peer_id \<Rightarrow> nat \<Rightarrow> sq_pkt list \<Rightarrow> sq \<Rightarrow> sq" where
  "set_buf p ac xs s = upd_peer p (\<lambda>c. c\<lparr>buflist := (buflist c)(ac := xs)\<rparr>) s"

definition buf :: "sq \<Rightarrow> peer_id \<Rightarrow> nat \<Rightarrow> sq_pkt list" where
  "buf s p ac = buflist (sq_peers s p) ac"

definition size_inc :: "nat \<Rightarrow> sq \<Rightarrow> sq" where
  "size_inc ac s = s\<lparr>q_size := (q_size s)(ac := u32_inc (q_size s ac))\<rparr>"

definition size_dec :: "nat \<Rightarrow> sq \<Rightarrow> sq" where
  "size_dec ac s = s\<lparr>q_size := (q_size s)(ac := u32_dec (q_size s ac))\<rparr>"

definition stat_inc :: "nat \<Rightarrow> (nat \<Rightarrow> nat) \<Rightarrow> nat \<Rightarrow> nat" where
  "stat_inc ac f = f(ac := u32_inc (f ac))"

definition rmcast :: "sq_pkt \<Rightarrow> bool" where
  "rmcast k = (pk_flags k AND MTLK_NBUFF_RMCAST \<noteq> 0)"

definition zero_sq_stats :: sq_stats where
  "zero_sq_stats = \<lparr>pkts_pushed = (\<lambda>_. 0), pkts_sent_to_um = (\<lambda>_. 0), pkts_limit_dropped = (\<lambda>_. 0)\<rparr>"

section \<open>Shared objects of clones\<close>

definition mtlk_nbuf_priv_extra_create_and_attach ::
    "bool \<Rightarrow> nat \<Rightarrow> nat \<Rightarrow> bool \<Rightarrow> sq_pkt \<Rightarrow> sq \<Rightarrow> mtlk_error \<times> sq_pkt \<times> sq" where
  "mtlk_nbuf_priv_extra_create_and_attach alloc e ac front k s =
     (if alloc then (MTLK_ERR_OK, k\<lparr>pk_extra := Some e\<rparr>,
                     s\<lparr>extras := (extras s)(e \<mapsto> \<lparr>ex_ref = 1, ex_ac = ac, ex_front = front\<rparr>)\<rparr>)
      else (MTLK_ERR_NO_MEM, k\<lparr>pk_extra := None\<rparr>, s))"

definition with_extra :: "(nat \<Rightarrow> nbuf_extra \<Rightarrow> sq \<Rightarrow> sq) \<Rightarrow> sq_pkt \<Rightarrow> sq \<Rightarrow> sq" where
  "with_extra f k s =
     (case pk_extra k of
        None \<Rightarrow> s\<lparr>uaf := True\<rparr>
      | Some e \<Rightarrow> (case extras s e of None \<Rightarrow> s\<lparr>uaf := True\<rparr> | Some x \<Rightarrow> f e x s))"

definition mtlk_nbuf_priv_extra_attach :: "sq_pkt \<Rightarrow> sq_pkt \<Rightarrow> sq \<Rightarrow> sq_pkt \<times> sq" where
  "mtlk_nbuf_priv_extra_attach from to s =
     (to\<lparr>pk_extra := pk_extra from\<rparr>,
      with_extra (\<lambda>e x s. s\<lparr>extras := (extras s)(e \<mapsto> x\<lparr>ex_ref := u32_inc (ex_ref x)\<rparr>)\<rparr>) from s)"

text \<open>The object is freed with its last reference; \<open>fin\<close> is done in that case.\<close>
definition extra_detach :: "(nbuf_extra \<Rightarrow> sq \<Rightarrow> sq) \<Rightarrow> sq_pkt \<Rightarrow> sq \<Rightarrow> sq" where
  "extra_detach fin k s =
     with_extra (\<lambda>e x s.
       if u32_dec (ex_ref x) = 0 then fin x (s\<lparr>extras := (extras s)(e := None)\<rparr>)
       else s\<lparr>extras := (extras s)(e \<mapsto> x\<lparr>ex_ref := u32_dec (ex_ref x)\<rparr>)\<rparr>) k s"

definition mtlk_nbuf_priv_extra_detach :: "sq_pkt \<Rightarrow> sq \<Rightarrow> sq" where
  "mtlk_nbuf_priv_extra_detach k s = extra_detach (\<lambda>_ s. s) k s"

section \<open>Operations\<close>

definition mtlk_sq_enqueue_clone_end :: "sq_pkt \<Rightarrow> sq \<Rightarrow> sq" where
  "mtlk_sq_enqueue_clone_end k s = extra_detach (\<lambda>x s. size_dec (ex_ac x) s) k s"

definition mtlk_sq_release_packet :: "nat \<Rightarrow> sq_pkt \<Rightarrow> sq \<Rightarrow> sq" where
  "mtlk_sq_release_packet ac k s = (if rmcast k then mtlk_sq_enqueue_clone_end k s else size_dec ac s)"

definition release_and_free :: "peer_id \<Rightarrow> nat \<Rightarrow> sq_pkt \<Rightarrow> sq \<Rightarrow> sq" where
  "release_and_free p ac k s = sq_emit (Freed p ac k) (mtlk_sq_release_packet ac k s)"

definition mtlk_sq_peer_ctx_init :: "peer_id \<Rightarrow> nat \<Rightarrow> sq \<Rightarrow> sq" where
  "mtlk_sq_peer_ctx_init p lim s =
     (let s1 = s\<lparr>sq_peers := (sq_peers s)(p := \<lparr>buflist = (\<lambda>_. []), limit_cfg = lim, tx_limit = lim, tx_used = 0,
                                              peer_stats = zero_sq_stats\<rparr>)\<rparr>
      in s1\<lparr>peer_list := (\<lambda>ac. if ac < NTS_PRIORITIES then p # peer_list s ac else peer_list s ac)\<rparr>)"

text \<open>The draining loop of one access category.\<close>
definition drain :: "peer_id \<Rightarrow> nat \<Rightarrow> sq \<Rightarrow> sq" where
  "drain p ac s = fold (release_and_free p ac) (buf s p ac) (set_buf p ac [] s)"

definition peer_unlink :: "peer_id \<Rightarrow> nat \<Rightarrow> sq \<Rightarrow> sq" where
  "peer_unlink p ac s = s\<lparr>peer_list := (peer_list s)(ac := remove1 p (peer_list s ac))\<rparr>"

definition mtlk_sq_peer_ctx_cleanup :: "peer_id \<Rightarrow> sq \<Rightarrow> sq" where
  "mtlk_sq_peer_ctx_cleanup p s = fold (\<lambda>ac s. drain p ac (peer_unlink p ac s)) [0..<NTS_PRIORITIES] s"

definition mtlk_sq_peer_ctx_cancel_all_packets :: "peer_id \<Rightarrow> sq \<Rightarrow> sq" where
  "mtlk_sq_peer_ctx_cancel_all_packets p s = fold (drain p) [0..<NTS_PRIORITIES] s"

definition drain_vap :: "nat \<Rightarrow> peer_id \<Rightarrow> nat \<Rightarrow> sq \<Rightarrow> sq" where
  "drain_vap vap p ac s =
     fold (release_and_free p ac) (filter (\<lambda>k. pk_vap k = vap) (buf s p ac))
       (set_buf p ac (filter (\<lambda>k. pk_vap k \<noteq> vap) (buf s p ac)) s)"

definition mtlk_sq_peer_ctx_cancel_all_packets_for_vap :: "peer_id \<Rightarrow> nat \<Rightarrow> sq \<Rightarrow> sq" where
  "mtlk_sq_peer_ctx_cancel_all_packets_for_vap p vap s = fold (drain_vap vap p) [0..<NTS_PRIORITIES] s"

definition mtlk_sq_enqueue_pkt :: "peer_id \<Rightarrow> sq_pkt \<Rightarrow> nat \<Rightarrow> bool \<Rightarrow> sq \<Rightarrow> mtlk_error \<times> sq" where
  "mtlk_sq_enqueue_pkt p k ac front s =
     (if \<not> front \<and> (q_size s ac \<ge> global_queue_limit (sq_lim s) ac \<or> length (buf s p ac) \<ge> peer_queue_limit (sq_lim s) ac) then
        (MTLK_ERR_NO_RESOURCES,
         upd_peer p (\<lambda>c. c\<lparr>peer_stats := (peer_stats c)\<lparr>pkts_limit_dropped := stat_inc ac (pkts_limit_dropped (peer_stats c))\<rparr>\<rparr>)
           (s\<lparr>sq_st := (sq_st s)\<lparr>pkts_limit_dropped := stat_inc ac (pkts_limit_dropped (sq_st s))\<rparr>\<rparr>))
      else
        (MTLK_ERR_OK,
         upd_peer p (\<lambda>c. c\<lparr>peer_stats := (peer_stats c)\<lparr>pkts_pushed := stat_inc ac (pkts_pushed (peer_stats c))\<rparr>\<rparr>)
           ((sq_emit (Pushed p ac k) (set_buf p ac (if front then k # buf s p ac else buf s p ac @ [k]) s))
             \<lparr>sq_st := (sq_st s)\<lparr>pkts_pushed := stat_inc ac (pkts_pushed (sq_st s))\<rparr>\<rparr>)))"

definition mtlk_sq_switch_if_urgent :: "sq_pkt \<Rightarrow> nat \<times> bool \<Rightarrow> nat \<times> bool" where
  "mtlk_sq_switch_if_urgent k af = (if pk_flags k AND MTLK_NBUFF_URGENT \<noteq> 0 then (AC_HIGHEST, True) else af)"

definition mtlk_xmit_sq_enqueue :: "sq_pkt \<Rightarrow> nat \<Rightarrow> bool \<Rightarrow> sq \<Rightarrow> mtlk_error \<times> sq" where
  "mtlk_xmit_sq_enqueue k ac front s = mtlk_sq_enqueue_pkt (pk_dst k) k ac front s"

definition mtlk_sq_enqueue :: "nat \<Rightarrow> bool \<Rightarrow> sq_pkt \<Rightarrow> sq \<Rightarrow> mtlk_error \<times> sq" where
  "mtlk_sq_enqueue ac front k s =
     (let (ac', front') = mtlk_sq_switch_if_urgent k (ac, front);
          (res, s') = mtlk_xmit_sq_enqueue k ac' front' (size_inc ac' s)
      in (res, if res \<noteq> MTLK_ERR_OK then size_dec ac' s' else s'))"

definition mtlk_sq_enqueue_clone_begin ::
    "bool \<Rightarrow> nat \<Rightarrow> nat \<Rightarrow> bool \<Rightarrow> sq_pkt \<Rightarrow> sq \<Rightarrow> mtlk_error \<times> sq_pkt \<times> sq" where
  "mtlk_sq_enqueue_clone_begin alloc e ac front k s =
     (let (ac', front') = mtlk_sq_switch_if_urgent k (ac, front);
          (res, k', s') = mtlk_nbuf_priv_extra_create_and_attach alloc e ac' front' k s
      in (res, k', if res = MTLK_ERR_OK then size_inc ac' s' else s'))"

text \<open>\<open>alloc\<close> says whether the buffer could be cloned, \<open>i\<close> is the clone.\<close>
definition mtlk_sq_enqueue_clone :: "bool \<Rightarrow> nat \<Rightarrow> sq_pkt \<Rightarrow> nat \<Rightarrow> sq \<Rightarrow> mtlk_error \<times> sq" where
  "mtlk_sq_enqueue_clone alloc i k dst s =
     (if \<not> alloc then (MTLK_ERR_NO_MEM, sq_emit (Sta_dropped dst ''no resources'') s)
      else
        (let (c, s1) = mtlk_nbuf_priv_extra_attach k (k\<lparr>pk_id := i, pk_dst := Some dst\<rparr>) s in
         case (case pk_extra k of None \<Rightarrow> None | Some e \<Rightarrow> extras s1 e) of
           None \<Rightarrow> (MTLK_ERR_UNKNOWN, s1\<lparr>uaf := True\<rparr>)
         | Some x \<Rightarrow>
             (let (res, s2) = mtlk_xmit_sq_enqueue c (ex_ac x) (ex_front x) s1
              in (res, if res \<noteq> MTLK_ERR_OK
                       then sq_emit (Clone_freed c) (mtlk_nbuf_priv_extra_detach c (sq_emit (Sta_dropped dst ''queue overflow'') s2))
                       else s2))))"

section \<open>Sending\<close>

datatype pass_result = Pass_done nat | Pass_return mtlk_error

text \<open>
  The body of the loop for a peer whose queue starts with \<open>k\<close>: \<^term>\<open>None\<close> continues and counts the packet,
  \<^term>\<open>Some e\<close> returns \<open>e\<close>.
\<close>
definition sq_send_one ::
    "(nat \<Rightarrow> sq_pkt \<Rightarrow> mtlk_error) \<Rightarrow> nat \<Rightarrow> peer_id \<Rightarrow> sq_pkt \<Rightarrow> sq_pkt list \<Rightarrow> sq \<Rightarrow> mtlk_error option \<times> sq" where
  "sq_send_one xmit ac p k ks s =
     (let s1 = set_buf p ac ks s;
          (res, s2) = (if hw_tx_prohibited s1 then (MTLK_ERR_PROHIB, s1)
                       else (xmit (attempts s1) k, s1\<lparr>attempts := attempts s1 + 1\<rparr>))
      in if res = MTLK_ERR_OK then
           (None, upd_peer p (\<lambda>c. c\<lparr>tx_used := u32_inc (tx_used c),
                      peer_stats := (peer_stats c)\<lparr>pkts_sent_to_um := stat_inc ac (pkts_sent_to_um (peer_stats c))\<rparr>\<rparr>)
                    ((sq_emit (Sent p ac k) (mtlk_sq_release_packet ac k s2))
                      \<lparr>sq_st := (sq_st s2)\<lparr>pkts_sent_to_um := stat_inc ac (pkts_sent_to_um (sq_st s2))\<rparr>\<rparr>))
         else if res = MTLK_ERR_PROHIB \<or> res = MTLK_ERR_NO_RESOURCES then
           (Some MTLK_ERR_PROHIB, set_buf p ac (k # ks) s2)
         else if res = MTLK_ERR_PKT_DROPPED then (None, release_and_free p ac k s2)
         else (Some MTLK_ERR_UNKNOWN, release_and_free p ac k s2))"

text \<open>One pass of \<^verbatim>\<open>mtlk_dlist_foreach\<close> over the peers of an access category.\<close>
fun sq_pass :: "(nat \<Rightarrow> sq_pkt \<Rightarrow> mtlk_error) \<Rightarrow> nat \<Rightarrow> peer_id list \<Rightarrow> nat \<Rightarrow> sq \<Rightarrow> pass_result \<times> sq" where
  "sq_pass xmit ac [] n s = (Pass_done n, s)"
| "sq_pass xmit ac (p # ps) n s =
     (case buf s p ac of
        [] \<Rightarrow> sq_pass xmit ac ps n s
      | k # ks \<Rightarrow>
          if tx_used (sq_peers s p) \<ge> tx_limit (sq_peers s p) then (Pass_done n, s)
          else case sq_send_one xmit ac p k ks s of
                 (None, s') \<Rightarrow> sq_pass xmit ac ps (n + 1) s'
               | (Some e, s') \<Rightarrow> (Pass_return e, s'))"

text \<open>\<^verbatim>\<open>mtlk_dlist_shift\<close>: the first entry becomes the last.\<close>
definition dlist_shift :: "'a list \<Rightarrow> 'a list" where
  "dlist_shift xs = (if length xs > 1 then tl xs @ [hd xs] else xs)"

definition pending :: "nat \<Rightarrow> sq \<Rightarrow> nat" where
  "pending ac s = sum_list (map (\<lambda>p. length (buf s p ac)) (peer_list s ac))"


lemma buf_simps [simp]:
  "buf (set_buf p ac xs s) p' ac' = (if p' = p \<and> ac' = ac then xs else buf s p' ac')"
  "buf (size_inc a s) p' ac' = buf s p' ac'" "buf (size_dec a s) p' ac' = buf s p' ac'"
  "buf (sq_emit e s) p' ac' = buf s p' ac'"
  "peer_list (set_buf p ac xs s) = peer_list s" "peer_list (size_inc a s) = peer_list s"
  "peer_list (size_dec a s) = peer_list s" "peer_list (sq_emit e s) = peer_list s" "peer_list (upd_peer p f s) = peer_list s"
  by (auto simp: buf_def set_buf_def upd_peer_def size_inc_def size_dec_def sq_emit_def)

lemma release_frame [simp]:
  "buf (mtlk_sq_release_packet a k s) p ac = buf s p ac"
  "peer_list (mtlk_sq_release_packet a k s) = peer_list s"
  "sq_peers (mtlk_sq_release_packet a k s) = sq_peers s"
  "hw_tx_prohibited (mtlk_sq_release_packet a k s) = hw_tx_prohibited s"
  "sq_log (mtlk_sq_release_packet a k s) = sq_log s"
  "sq_lim (mtlk_sq_release_packet a k s) = sq_lim s"
  by (auto simp: mtlk_sq_release_packet_def mtlk_sq_enqueue_clone_end_def extra_detach_def with_extra_def size_dec_def buf_def
      split: option.splits)

lemma buf_upd_other [simp]:
  "(\<And>c. buflist (f c) = buflist c) \<Longrightarrow> buf (upd_peer q f s) p ac = buf s p ac"
  "buf (s\<lparr>sq_st := st\<rparr>) p ac = buf s p ac" "buf (s\<lparr>attempts := i\<rparr>) p ac = buf s p ac"
  "buf (release_and_free q a k s) p ac = buf s p ac" "peer_list (release_and_free q a k s) = peer_list s"
  by (auto simp: buf_def upd_peer_def release_and_free_def sq_emit_def)

text \<open>The outcome of one attempt: what is logged and what remains queued.\<close>
lemma sq_send_one_bufs:
  assumes "sq_send_one xmit ac p k ks s = (r, s')" "buf s p ac = k # ks"
  shows "peer_list s' = peer_list s" "q \<noteq> p \<or> a \<noteq> ac \<Longrightarrow> buf s' q a = buf s q a"
    "r = None \<Longrightarrow> buf s' p ac = ks" "buf s' p ac = ks \<or> buf s' p ac = k # ks"
  using assms by (auto simp: sq_send_one_def Let_def split: if_splits)

text \<open>Only the peers of a pass lose packets, from the front, and a pass that reports progress took at least one.\<close>
lemma sq_pass_bufs:
  "sq_pass xmit ac ps n s = (r, s') \<Longrightarrow>
     peer_list s' = peer_list s \<and> (\<forall>p a. a \<noteq> ac \<longrightarrow> buf s' p a = buf s p a) \<and> (\<forall>p. suffix (buf s' p ac) (buf s p ac))"
proof (induction xmit ac ps n s arbitrary: r s' rule: sq_pass.induct)
  case (2 xmit ac p ps n s)
  show ?case
  proof (cases "buf s p ac")
    case Nil
    then have "sq_pass xmit ac ps n s = (r, s')" using 2(3) by simp
    from 2(1) [OF Nil this] show ?thesis .
  next
    case (Cons k ks)
    show ?thesis
    proof (cases "tx_used (sq_peers s p) \<ge> tx_limit (sq_peers s p)")
      case True
      then show ?thesis using 2(3) Cons by simp
    next
      case False
      obtain v s1 where v: "sq_send_one xmit ac p k ks s = (v, s1)" by fastforce
      note O = sq_send_one_bufs [OF v Cons]
      have sf: "suffix (buf s1 q ac) (buf s q ac)" for q
        using O(2,4) Cons by (cases "q = p") (auto simp: suffix_ConsI)
      show ?thesis
      proof (cases v)
        case None
        have "sq_pass xmit ac ps (n + 1) s1 = (r, s')" using 2(3) Cons False v None by simp
        from 2(2) [OF Cons False v [symmetric] None this]
        have IH: "peer_list s' = peer_list s1" "\<And>q a. a \<noteq> ac \<Longrightarrow> buf s' q a = buf s1 q a" "\<And>q. suffix (buf s' q ac) (buf s1 q ac)"
          by blast+
        have "suffix (buf s' q ac) (buf s q ac)" for q
          using suffix_order.trans [OF IH(3) sf] .
        moreover have "buf s' q a = buf s q a" if "a \<noteq> ac" for q a using IH(2) [OF that] O(2) [of q a] that by simp
        ultimately show ?thesis using IH(1) O(1) by simp
      next
        case (Some e)
        then have "s' = s1" using 2(3) Cons False v by simp
        then show ?thesis using O(1,2) sf by simp
      qed
    qed
  qed
qed simp

lemma sq_pass_progress:
  "sq_pass xmit ac ps n s = (Pass_done m, s') \<Longrightarrow>
     n \<le> m \<and> (n < m \<longrightarrow> (\<exists>p \<in> set ps. length (buf s' p ac) < length (buf s p ac)))"
proof (induction xmit ac ps n s arbitrary: m s' rule: sq_pass.induct)
  case (2 xmit ac p ps n s)
  show ?case
  proof (cases "buf s p ac")
    case Nil
    then have "sq_pass xmit ac ps n s = (Pass_done m, s')" using 2(3) by simp
    from 2(1) [OF Nil this] show ?thesis by auto
  next
    case (Cons k ks)
    show ?thesis
    proof (cases "tx_used (sq_peers s p) \<ge> tx_limit (sq_peers s p)")
      case True
      then show ?thesis using 2(3) Cons by simp
    next
      case False
      obtain v s1 where v: "sq_send_one xmit ac p k ks s = (v, s1)" by fastforce
      have "v = None" using 2(3) Cons False v by (cases v) auto
      note O = sq_send_one_bufs [OF v Cons]
      have P: "sq_pass xmit ac ps (n + 1) s1 = (Pass_done m, s')" using 2(3) Cons False v \<open>v = None\<close> by simp
      have "length (buf s' p ac) \<le> length (buf s1 p ac)"
        using sq_pass_bufs [OF P] by (auto dest: suffix_length_le)
      then have "length (buf s' p ac) < length (buf s p ac)" using O(3) \<open>v = None\<close> Cons by simp
      then show ?thesis using 2(2) [OF Cons False v [symmetric] \<open>v = None\<close> P] by auto
    qed
  qed
qed simp

lemma sum_list_less:
  fixes f g :: "'a \<Rightarrow> nat"
  assumes "\<And>x. f x \<le> g x" "x \<in> set xs" "f x < g x"
  shows "sum_list (map f xs) < sum_list (map g xs)"
  using assms(2)
proof (induction xs)
  case (Cons y ys)
  have le: "sum_list (map f ys) \<le> sum_list (map g ys)" by (rule sum_list_mono) (rule assms(1))
  then show ?case using Cons assms(1) [of y] assms(3) by (cases "x = y") (auto intro: add_less_le_mono add_le_less_mono)
qed simp

lemma sq_pass_pending:
  assumes "sq_pass xmit ac (peer_list s ac) 0 s = (Pass_done m, s')" "m \<noteq> 0"
  shows "pending ac s' < pending ac s"
proof -
  note B = sq_pass_bufs [OF assms(1)]
  have "\<exists>p \<in> set (peer_list s ac). length (buf s' p ac) < length (buf s p ac)"
    using sq_pass_progress [OF assms(1)] assms(2) by simp
  then show ?thesis
    unfolding pending_def using B by (auto intro!: sum_list_less dest: suffix_length_le)
qed

function process_packets_by_ac :: "(nat \<Rightarrow> sq_pkt \<Rightarrow> mtlk_error) \<Rightarrow> nat \<Rightarrow> sq \<Rightarrow> mtlk_error \<times> sq" where
  "process_packets_by_ac xmit ac s =
     (case sq_pass xmit ac (peer_list s ac) 0 s of
        (Pass_return e, s') \<Rightarrow> (e, s')
      | (Pass_done n, s') \<Rightarrow>
          if n \<noteq> 0 then process_packets_by_ac xmit ac s'
          else (MTLK_ERR_OK, s'\<lparr>peer_list := (peer_list s')(ac := dlist_shift (peer_list s' ac))\<rparr>))"
  by pat_completeness auto
termination
  by (relation "measure (\<lambda>(xmit, ac, s). pending ac s)") (auto intro: sq_pass_pending [OF sym])

declare process_packets_by_ac.simps [simp del]

text \<open>The loop over the access categories, the highest first, until one of them cannot go on.\<close>
fun flush_acs :: "(nat \<Rightarrow> sq_pkt \<Rightarrow> mtlk_error) \<Rightarrow> nat \<Rightarrow> sq \<Rightarrow> sq" where
  "flush_acs xmit 0 s = s"
| "flush_acs xmit (Suc i) s =
     (let (res, s') = process_packets_by_ac xmit (mtlk_get_ac_by_number i) s
      in if res \<noteq> MTLK_ERR_OK then s' else flush_acs xmit i s')"

text \<open>
  The outer loop; \<open>reqs\<close> lists how many flush requests other threads make during each round, none after the last one
  listed.
\<close>
fun flush_loop :: "(nat \<Rightarrow> sq_pkt \<Rightarrow> mtlk_error) \<Rightarrow> nat list \<Rightarrow> sq \<Rightarrow> sq" where
  "flush_loop xmit [] s = (flush_acs xmit NTS_PRIORITIES (s\<lparr>flush_in_progress := True\<rparr>))\<lparr>flush_in_progress := False\<rparr>"
| "flush_loop xmit (r # reqs) s =
     (let c0 = flush_count s;
          s1 = (flush_acs xmit NTS_PRIORITIES (s\<lparr>flush_in_progress := True\<rparr>));
          s2 = s1\<lparr>flush_count := (flush_count s1 + r) mod u32_max, flush_in_progress := False\<rparr>
      in if c0 \<noteq> flush_count s2 then flush_loop xmit reqs s2 else s2)"

definition mtlk_sq_flush :: "(nat \<Rightarrow> sq_pkt \<Rightarrow> mtlk_error) \<Rightarrow> nat list \<Rightarrow> sq \<Rightarrow> sq" where
  "mtlk_sq_flush xmit reqs s =
     (if flush_in_progress s then s\<lparr>flush_count := u32_inc (flush_count s)\<rparr>
      else flush_loop xmit reqs (s\<lparr>flush_in_progress := True\<rparr>))"

definition mtlk_sq_set_pm_enabled :: "bool \<Rightarrow> sq_peer_ctx \<Rightarrow> sq_peer_ctx" where
  "mtlk_sq_set_pm_enabled enabled c =
     c\<lparr>tx_limit := (if enabled then min PACKETS_IN_MAC_DURING_PM (limit_cfg c) else limit_cfg c)\<rparr>"

definition mtlk_sq_on_tx_cfm :: "peer_id \<Rightarrow> sq \<Rightarrow> sq" where
  "mtlk_sq_on_tx_cfm p s = upd_peer p (\<lambda>c. c\<lparr>tx_used := u32_dec (tx_used c)\<rparr>) s"

definition mtlk_sq_is_empty :: "sq_peer_ctx \<Rightarrow> bool" where
  "mtlk_sq_is_empty c = (tx_used c = 0)"

definition mtlk_sq_tx_enable :: "sq \<Rightarrow> sq" where
  "mtlk_sq_tx_enable s = s\<lparr>hw_tx_prohibited := False\<rparr>"

definition mtlk_sq_tx_disable :: "sq \<Rightarrow> sq" where
  "mtlk_sq_tx_disable s = s\<lparr>hw_tx_prohibited := True\<rparr>"

definition mtlk_sq_is_tx_enabled :: "sq \<Rightarrow> bool" where
  "mtlk_sq_is_tx_enabled s = hw_tx_prohibited s"

definition empty_sq :: sq where
  "empty_sq = \<lparr>peer_list = (\<lambda>_. []), q_size = (\<lambda>_. 0),
     sq_peers = (\<lambda>_. \<lparr>buflist = (\<lambda>_. []), limit_cfg = 0, tx_limit = 0, tx_used = 0, peer_stats = zero_sq_stats\<rparr>),
     flush_in_progress = False, flush_count = 0, sq_st = zero_sq_stats,
     sq_lim = \<lparr>global_queue_limit = (\<lambda>_. 0), peer_queue_limit = (\<lambda>_. 0)\<rparr>, hw_tx_prohibited = False,
     extras = (\<lambda>_. None), attempts = 0, uaf = False, sq_log = []\<rparr>"

definition mtlk_sq_init :: sq where
  "mtlk_sq_init = mtlk_sq_peer_ctx_init None MTLK_SQ_TX_LIMIT_DEFAULT empty_sq"

text \<open>\<^verbatim>\<open>sq_init\<close>: the limits the queue is created with.\<close>
definition sq_init :: sq where
  "sq_init = mtlk_sq_init\<lparr>sq_lim := \<lparr>global_queue_limit = (\<lambda>i. [800, 50, 1100, 100] ! i),
     peer_queue_limit = (\<lambda>i. [600, 38, 825, 75] ! i)\<rparr>\<rparr>"


section \<open>Configuration\<close>

definition s32 :: "int \<Rightarrow> int" where
  "s32 x = (x + 2 ^ 31) mod 2 ^ 32 - 2 ^ 31"

text \<open>Division of C: truncation towards zero.\<close>
definition c_div :: "int \<Rightarrow> int \<Rightarrow> int" where
  "c_div a b = sgn a * sgn b * (\<bar>a\<bar> div \<bar>b\<bar>)"

definition sq_get_limits :: "nat \<Rightarrow> sq \<Rightarrow> c_fault + nat list" where
  "sq_get_limits num s = (if num > NTS_PRIORITIES then Inl Out_of_bounds else Inr (map (global_queue_limit (sq_lim s)) [0..<num]))"

definition limit_ratio :: "sq_limits \<Rightarrow> nat \<Rightarrow> c_fault + nat" where
  "limit_ratio l i = (if global_queue_limit l i = 0 then Inl Div_by_zero
     else Inr (100 * peer_queue_limit l i div global_queue_limit l i))"

fun sq_get_peer_limits_loop :: "nat list \<Rightarrow> sq_limits \<Rightarrow> c_fault + nat list" where
  "sq_get_peer_limits_loop [] l = Inr []"
| "sq_get_peer_limits_loop (i # is) l =
     (if i \<ge> NTS_PRIORITIES then Inl Out_of_bounds
      else bind_result (limit_ratio l i) (\<lambda>r. bind_result (sq_get_peer_limits_loop is l) (\<lambda>rs. Inr (r # rs))))"

definition sq_get_peer_limits :: "nat \<Rightarrow> sq \<Rightarrow> c_fault + nat list" where
  "sq_get_peer_limits num s = sq_get_peer_limits_loop [0..<num] (sq_lim s)"

text \<open>The limits are stored in 16 bits.\<close>
fun sq_set_limits_loop :: "nat list \<Rightarrow> int list \<Rightarrow> sq_limits \<Rightarrow> c_fault + sq_limits" where
  "sq_set_limits_loop [] gl l = Inr l"
| "sq_set_limits_loop (i # is) gl l =
     bind_result (limit_ratio l i)
       (\<lambda>r. sq_set_limits_loop is gl
              (l\<lparr>global_queue_limit := (global_queue_limit l)(i := nat (gl ! i mod 2 ^ 16)),
                 peer_queue_limit := (peer_queue_limit l)(i := nat (c_div (s32 (int r * gl ! i)) 100 mod 2 ^ 16))\<rparr>))"

definition sq_set_limits :: "int list \<Rightarrow> sq \<Rightarrow> c_fault + mtlk_error \<times> sq" where
  "sq_set_limits gl s =
     (if length gl \<noteq> NTS_PRIORITIES then Inr (MTLK_ERR_PARAMS, s)
      else if \<exists>g \<in> set gl. g \<le> 0 then Inr (MTLK_ERR_PARAMS, s)
      else bind_result (sq_set_limits_loop [0..<NTS_PRIORITIES] gl (sq_lim s)) (\<lambda>l. Inr (MTLK_ERR_OK, s\<lparr>sq_lim := l\<rparr>)))"

definition sq_set_peer_limits :: "int list \<Rightarrow> sq \<Rightarrow> mtlk_error \<times> sq" where
  "sq_set_peer_limits ratio s =
     (if length ratio \<noteq> NTS_PRIORITIES then (MTLK_ERR_PARAMS, s)
      else if \<exists>r \<in> set ratio. r < 5 \<or> r > 100 then (MTLK_ERR_PARAMS, s)
      else (MTLK_ERR_OK, s\<lparr>sq_lim := (sq_lim s)\<lparr>peer_queue_limit :=
              (\<lambda>i. if i < NTS_PRIORITIES then nat (max 1 (c_div (ratio ! i * int (global_queue_limit (sq_lim s) i)) 100) mod 2 ^ 16)
                   else peer_queue_limit (sq_lim s) i)\<rparr>\<rparr>))"

text \<open>
  What the queue limits admit.  A packet that is not urgent is accepted at the back of its queue exactly when the category
  holds at least two packets less than its limit and the peer fewer than its own: the size counter already
  counts the packet that asks, so a limit of \<open>n\<close> admits \<open>n - 1\<close> packets, a limit of one admits none, and a limit
  of zero, which the header calls unlimited, admits none either.
\<close>
lemma sq_admits_iff:
  assumes "pk_flags k AND MTLK_NBUFF_URGENT = 0" "q_size s ac + 1 < u32_max"
  shows "fst (mtlk_sq_enqueue ac False k s) = MTLK_ERR_OK
      \<longleftrightarrow> q_size s ac + 1 < global_queue_limit (sq_lim s) ac \<and> length (buf s (pk_dst k) ac) < peer_queue_limit (sq_lim s) ac"
proof -
  have "fst (mtlk_sq_enqueue ac False k s) = fst (mtlk_sq_enqueue_pkt (pk_dst k) k ac False (size_inc ac s))"
    using assms(1) by (simp add: mtlk_sq_enqueue_def mtlk_sq_switch_if_urgent_def mtlk_xmit_sq_enqueue_def Let_def split_def)
  moreover have "q_size (size_inc ac s) ac = q_size s ac + 1" "sq_lim (size_inc ac s) = sq_lim s"
    using assms(2) by (simp_all add: size_inc_def u32_inc_small)
  ultimately show ?thesis by (simp add: mtlk_sq_enqueue_pkt_def not_le)
qed

theorem sq_admits_iff_witness:
  "fst (mtlk_sq_enqueue 1 False \<lparr>pk_id = 0, pk_flags = 0x0002, pk_vap = 0, pk_dst = None, pk_extra = None\<rparr>
     (sq_init\<lparr>sq_lim := \<lparr>global_queue_limit = (\<lambda>_. 1), peer_queue_limit = (\<lambda>_. 1)\<rparr>\<rparr>)) \<noteq> MTLK_ERR_OK"
  by (subst sq_admits_iff) (simp_all add: MTLK_NBUFF_URGENT_def sq_init_def mtlk_sq_init_def mtlk_sq_peer_ctx_init_def empty_sq_def u32_max_def)

lemma peer_limits_loop_fault:
  "\<forall>i \<in> set is. i < NTS_PRIORITIES
    \<Longrightarrow> (case sq_get_peer_limits_loop is l of Inl f \<Rightarrow> f = Div_by_zero \<and> (\<exists>i \<in> set is. global_queue_limit l i = 0)
        | Inr rs \<Rightarrow> \<forall>i \<in> set is. global_queue_limit l i \<noteq> 0)"
  by (induction "is") (auto simp: limit_ratio_def bind_result_def split: sum.splits)

lemma set_limits_loop_global:
  "distinct is \<Longrightarrow> sq_set_limits_loop is gl l = Inr l' \<Longrightarrow>
     global_queue_limit l' i = (if i \<in> set is then nat (gl ! i mod 2 ^ 16) else global_queue_limit l i)"
  by (induction "is" arbitrary: l) (auto simp: bind_result_Inr)

text \<open>
  The limits that can be configured are not checked against their width.  After the queue limits were set, reading the
  peer limits back, like setting limits again, divides by zero exactly when one of the limits was a multiple of 65536:
  the check accepts every positive number and the field keeps its lower 16 bits.
\<close>
lemma sq_limits_divide_by_zero:
  assumes "sq_set_limits gl s = Inr (MTLK_ERR_OK, s')"
  shows "sq_get_peer_limits NTS_PRIORITIES s' = Inl Div_by_zero \<longleftrightarrow> (\<exists>g \<in> set gl. 65536 dvd g)"
proof -
  obtain l where l: "length gl = NTS_PRIORITIES" "\<forall>g \<in> set gl. 0 < g" "sq_set_limits_loop [0..<NTS_PRIORITIES] gl (sq_lim s) = Inr l"
      "sq_lim s' = l"
    using assms by (auto simp: sq_set_limits_def bind_result_Inr not_le split: if_splits)
  have z: "global_queue_limit l i = 0 \<longleftrightarrow> 65536 dvd gl ! i" if "i < NTS_PRIORITIES" for i
  proof -
    have "global_queue_limit l i = nat (gl ! i mod 2 ^ 16)"
      using set_limits_loop_global [OF distinct_upt l(3), of i] that by simp
    moreover have "0 \<le> gl ! i mod 2 ^ 16" by simp
    ultimately show ?thesis by (simp add: dvd_eq_mod_eq_0 nat_eq_iff)
  qed
  have e: "(\<exists>g \<in> set gl. 65536 dvd g) \<longleftrightarrow> (\<exists>i < NTS_PRIORITIES. global_queue_limit l i = 0)"
    using z l(1) by (metis in_set_conv_nth)
  show ?thesis
    unfolding sq_get_peer_limits_def l(4) e
    using peer_limits_loop_fault [of "[0..<NTS_PRIORITIES]" l] by (auto split: sum.splits)
qed

theorem sq_limits_divide_by_zero_witness:
  "\<exists>s'. sq_set_limits [800, 65536, 1100, 100] sq_init = Inr (MTLK_ERR_OK, s') \<and> sq_get_peer_limits NTS_PRIORITIES s' = Inl Div_by_zero"
proof -
  have "[0..<NTS_PRIORITIES] = [0, 1, 2, 3]" by (simp add: ac_defs upt_rec)
  then obtain s' where s': "sq_set_limits [800, 65536, 1100, 100] sq_init = Inr (MTLK_ERR_OK, s')"
    by (simp add: sq_set_limits_def ac_defs limit_ratio_def sq_init_def)
  from sq_limits_divide_by_zero [OF s'] have "sq_get_peer_limits NTS_PRIORITIES s' = Inl Div_by_zero" by simp
  then show ?thesis using s' by blast
qed

end
