(* ===== verification/Sq_Inv.thy ===== *)
theory Sq_Inv
  imports Sq
begin

text \<open>
  The send queue keeps its books: what is queued, what the size counters and the shared objects of multicast clones
  count, in which order packets leave, and how many packets of a peer the hardware holds.
\<close>

section \<open>The queued packets as a multiset\<close>

definition queued :: "sq \<Rightarrow> nat \<Rightarrow> sq_pkt multiset" where
  "queued s ac = (\<Sum>p | buf s p ac \<noteq> []. mset (buf s p ac))"

text \<open>All queued packets, each with its access category.\<close>
definition all_queued :: "sq \<Rightarrow> (nat \<times> sq_pkt) multiset" where
  "all_queued s = (\<Sum>ac < NTS_PRIORITIES. image_mset (Pair ac) (queued s ac))"

definition finite_queues :: "sq \<Rightarrow> bool" where
  "finite_queues s = ((\<forall>ac. finite {p. buf s p ac \<noteq> []}) \<and> (\<forall>p ac. NTS_PRIORITIES \<le> ac \<longrightarrow> buf s p ac = []))"

lemma queued_superset:
  assumes "finite A" "{p. buf s p ac \<noteq> []} \<subseteq> A"
  shows "queued s ac = (\<Sum>p \<in> A. mset (buf s p ac))"
  unfolding queued_def using assms by (intro sum.mono_neutral_left) auto

lemma queued_update:
  assumes "finite_queues s" "\<And>q. q \<noteq> p \<Longrightarrow> buf s' q ac = buf s q ac"
  shows "queued s' ac + mset (buf s p ac) = queued s ac + mset (buf s' p ac)"
proof -
  let ?A = "insert p {q. buf s q ac \<noteq> []}"
  have f: "finite ?A" using assms(1) by (simp add: finite_queues_def)
  have "queued s' ac = (\<Sum>q \<in> ?A. mset (buf s' q ac))" "queued s ac = (\<Sum>q \<in> ?A. mset (buf s q ac))"
    using assms(2) by (intro queued_superset f; fastforce)+
  then have a: "queued s' ac = mset (buf s' p ac) + (\<Sum>q \<in> ?A - {p}. mset (buf s' q ac))"
    "queued s ac = mset (buf s p ac) + (\<Sum>q \<in> ?A - {p}. mset (buf s q ac))"
    using sum.remove [OF f, of p] by simp_all
  have "(\<Sum>q \<in> ?A - {p}. mset (buf s' q ac)) = (\<Sum>q \<in> ?A - {p}. mset (buf s q ac))"
    using assms(2) by (intro sum.cong) auto
  then show ?thesis using a by (simp add: ac_simps)
qed

lemma queued_cong: "(\<And>q. buf s' q ac = buf s q ac) \<Longrightarrow> queued s' ac = queued s ac"
  by (simp add: queued_def)

lemma all_queued_cong: "(\<And>q a. buf s' q a = buf s q a) \<Longrightarrow> all_queued s' = all_queued s"
  by (simp add: all_queued_def queued_def)

lemma all_queued_update:
  assumes "finite_queues s" "ac < NTS_PRIORITIES" "\<And>q a. q \<noteq> p \<or> a \<noteq> ac \<Longrightarrow> buf s' q a = buf s q a"
  shows "all_queued s' + image_mset (Pair ac) (mset (buf s p ac)) = all_queued s + image_mset (Pair ac) (mset (buf s' p ac))"
proof -
  let ?f = "\<lambda>s a. image_mset (Pair a) (queued s a)"
  have "(\<Sum>a < NTS_PRIORITIES. ?f s' a) = ?f s' ac + (\<Sum>a \<in> {..<NTS_PRIORITIES} - {ac}. ?f s' a)"
    "(\<Sum>a < NTS_PRIORITIES. ?f s a) = ?f s ac + (\<Sum>a \<in> {..<NTS_PRIORITIES} - {ac}. ?f s a)"
    using sum.remove [of "{..<NTS_PRIORITIES}" ac] assms(2) by simp_all
  moreover have "(\<Sum>a \<in> {..<NTS_PRIORITIES} - {ac}. ?f s' a) = (\<Sum>a \<in> {..<NTS_PRIORITIES} - {ac}. ?f s a)"
    using assms(3) queued_cong [of s' _ s] by (intro sum.cong) auto
  moreover have "?f s' ac + image_mset (Pair ac) (mset (buf s p ac)) = ?f s ac + image_mset (Pair ac) (mset (buf s' p ac))"
    using queued_update [OF assms(1), of p s' ac] assms(3) by (metis image_mset_union)
  ultimately show ?thesis by (simp add: all_queued_def ac_simps)
qed

lemma finite_queues_update:
  assumes "finite_queues s" "ac < NTS_PRIORITIES" "\<And>q a. q \<noteq> p \<or> a \<noteq> ac \<Longrightarrow> buf s' q a = buf s q a"
  shows "finite_queues s'"
proof -
  have "{q. buf s' q a \<noteq> []} \<subseteq> insert p {q. buf s q a \<noteq> []}" for a using assms(3) by fastforce
  then have "finite {q. buf s' q a \<noteq> []}" for a
    using assms(1) finite_subset unfolding finite_queues_def by (metis finite_insert)
  moreover have "buf s' q a = []" if "NTS_PRIORITIES \<le> a" for q a
    using assms that by (simp add: finite_queues_def)
  ultimately show ?thesis by (simp add: finite_queues_def)
qed

section \<open>The counters\<close>

definition plain_count :: "nat \<Rightarrow> (nat \<times> sq_pkt) multiset \<Rightarrow> nat" where
  "plain_count ac G = size {#y \<in># G. fst y = ac \<and> \<not> rmcast (snd y)#}"

definition clone_count :: "nat \<Rightarrow> (nat \<times> sq_pkt) multiset \<Rightarrow> nat" where
  "clone_count e G = size {#y \<in># G. rmcast (snd y) \<and> pk_extra (snd y) = Some e#}"

definition extras_of :: "nat \<Rightarrow> sq \<Rightarrow> nat set" where
  "extras_of ac s = {e. \<exists>x. extras s e = Some x \<and> ex_ac x = ac}"

text \<open>
  The books for a multiset of packets held: a size counter counts the plain packets of its category and the multicast
  objects of that category; an object counts the clones that share it and lives exactly as long as one of them.
\<close>
definition books :: "sq \<Rightarrow> (nat \<times> sq_pkt) multiset \<Rightarrow> bool" where
  "books s G = ((\<forall>ac < NTS_PRIORITIES. q_size s ac = (plain_count ac G + card (extras_of ac s)) mod u32_max)
     \<and> finite (dom (extras s))
     \<and> (\<forall>e x. extras s e = Some x \<longrightarrow> ex_ac x < NTS_PRIORITIES \<and> ex_ref x = clone_count e G
          \<and> 0 < clone_count e G \<and> clone_count e G < u32_max)
     \<and> (\<forall>y \<in># G. rmcast (snd y) \<longrightarrow> (\<exists>e. pk_extra (snd y) = Some e \<and> extras s e \<noteq> None))
     \<and> \<not> uaf s)"

lemma booksI:
  assumes "\<And>ac. ac < NTS_PRIORITIES \<Longrightarrow> q_size s ac = (plain_count ac G + card (extras_of ac s)) mod u32_max"
    and "finite (dom (extras s))"
    and "\<And>e x. extras s e = Some x \<Longrightarrow> ex_ac x < NTS_PRIORITIES \<and> ex_ref x = clone_count e G
          \<and> 0 < clone_count e G \<and> clone_count e G < u32_max"
    and "\<And>y. y \<in># G \<Longrightarrow> rmcast (snd y) \<Longrightarrow> \<exists>e. pk_extra (snd y) = Some e \<and> extras s e \<noteq> None" and "\<not> uaf s"
  shows "books s G"
  using assms by (simp add: books_def)

lemma counts_add [simp]:
  "plain_count ac (add_mset y G) = plain_count ac G + (if fst y = ac \<and> \<not> rmcast (snd y) then 1 else 0)"
  "clone_count e (add_mset y G) = clone_count e G + (if rmcast (snd y) \<and> pk_extra (snd y) = Some e then 1 else 0)"
  by (simp_all add: plain_count_def clone_count_def)

lemma clone_count_0: "clone_count e G = 0 \<longleftrightarrow> (\<forall>y \<in># G. \<not> (rmcast (snd y) \<and> pk_extra (snd y) = Some e))"
  by (auto simp: clone_count_def filter_mset_eq_mempty_iff)

lemma u32_inc_mod [simp]: "u32_inc (n mod u32_max) = Suc n mod u32_max"
  by (simp add: u32_inc_def mod_Suc_eq)

lemma u32_dec_mod [simp]: "u32_dec (Suc n mod u32_max) = n mod u32_max"
proof -
  have "(Suc n mod u32_max + (u32_max - 1)) mod u32_max = (Suc n + (u32_max - 1)) mod u32_max"
    by (simp only: mod_add_left_eq)
  also have "Suc n + (u32_max - 1) = n + u32_max" using u32_max_pos by simp
  finally show ?thesis using u32_max_pos by (simp add: u32_dec_def Suc_leI)
qed

lemma finite_extras_of [simp]: "finite (dom (extras s)) \<Longrightarrow> finite (extras_of ac s)"
  by (rule finite_subset [of _ "dom (extras s)"]) (auto simp: extras_of_def)

lemma books_cong: "q_size s' = q_size s \<Longrightarrow> extras s' = extras s \<Longrightarrow> uaf s' = uaf s \<Longrightarrow> books s' G = books s G"
  by (simp add: books_def extras_of_def)

lemma extras_of_size [simp]: "extras_of ac (size_inc a s) = extras_of ac s" "extras_of ac (size_dec a s) = extras_of ac s"
  by (simp_all add: extras_of_def size_inc_def size_dec_def)

lemma size_dec_q: "q_size (size_dec ac s) b = (if b = ac then u32_dec (q_size s ac) else q_size s b)"
  by (simp add: size_dec_def)

lemma extras_of_upd:
  "extras_of ac (s\<lparr>extras := (extras s)(e \<mapsto> x)\<rparr>) = (if ex_ac x = ac then insert e (extras_of ac s) else extras_of ac s - {e})"
  "extras_of ac (s\<lparr>extras := (extras s)(e := None)\<rparr>) = extras_of ac s - {e}"
  by (auto simp: extras_of_def)

lemma books_size_inc:
  assumes "books s G" "\<not> rmcast k"
  shows "books (size_inc ac s) (add_mset (ac, k) G)"
  using assms unfolding books_def by (auto simp: size_inc_def extras_of_def)

lemma books_plain_out:
  assumes "books s (add_mset (ac, k) G)" "\<not> rmcast k"
  shows "books (size_dec ac s) G"
  using assms unfolding books_def by (auto simp: size_dec_def extras_of_def)


lemma books_extra:
  assumes "books s G" "(a, k) \<in># G" "rmcast k"
  obtains e x where "pk_extra k = Some e" "extras s e = Some x" "ex_ac x < NTS_PRIORITIES" "ex_ref x = clone_count e G"
    "0 < clone_count e G" "clone_count e G < u32_max"
  using assms unfolding books_def by (metis not_None_eq snd_conv)

lemma u32_dec_clones:
  assumes "0 < n" "n < u32_max"
  shows "u32_dec n = n - 1"
  using assms by (simp add: u32_dec_pos)

text \<open>A clone gives its share back; the last one takes the object and its place in the size counter with it.\<close>
lemma books_clone_out:
  assumes "books s (add_mset (a, k) G)" "rmcast k"
  shows "books (mtlk_sq_enqueue_clone_end k s) G"
proof -
  let ?G = "add_mset (a, k) G"
  obtain e x where e: "pk_extra k = Some e" "extras s e = Some x" "ex_ac x < NTS_PRIORITIES" "ex_ref x = clone_count e ?G"
    "clone_count e ?G < u32_max"
    using books_extra [OF assms(1) union_single_eq_member [OF refl] assms(2)] by blast
  have c: "clone_count e ?G = Suc (clone_count e G)" using e(1) assms(2) by simp
  then have dec: "u32_dec (ex_ref x) = clone_count e G" using e(4,5) u32_dec_clones by simp
  have oth: "clone_count e' ?G = clone_count e' G" if "e' \<noteq> e" for e' using that e(1) by simp
  have pl: "plain_count ac ?G = plain_count ac G" for ac using assms(2) by simp
  have B: "finite (dom (extras s))" "\<not> uaf s"
    "\<And>ac. ac < NTS_PRIORITIES \<Longrightarrow> q_size s ac = (plain_count ac G + card (extras_of ac s)) mod u32_max"
    "\<And>e' x'. extras s e' = Some x' \<Longrightarrow> ex_ac x' < NTS_PRIORITIES \<and> ex_ref x' = clone_count e' ?G
        \<and> 0 < clone_count e' ?G \<and> clone_count e' ?G < u32_max"
    "\<And>y. y \<in># G \<Longrightarrow> rmcast (snd y) \<Longrightarrow> \<exists>e. pk_extra (snd y) = Some e \<and> extras s e \<noteq> None"
    using assms(1) pl unfolding books_def by auto
  show ?thesis
  proof (cases "clone_count e G = 0")
    case True
    have S: "mtlk_sq_enqueue_clone_end k s = size_dec (ex_ac x) (s\<lparr>extras := (extras s)(e := None)\<rparr>)"
      using e dec True by (simp add: mtlk_sq_enqueue_clone_end_def extra_detach_def with_extra_def)
    have none: "\<not> (rmcast (snd y) \<and> pk_extra (snd y) = Some e)" if "y \<in># G" for y
      using True that by (simp add: clone_count_0)
    have card: "card (extras_of ac s) = card (extras_of ac s - {e}) + (if ac = ex_ac x then 1 else 0)" for ac
    proof (cases "ac = ex_ac x")
      case True
      then have "e \<in> extras_of ac s" using e(2) by (auto simp: extras_of_def)
      then show ?thesis using True card_Suc_Diff1 [of "extras_of ac s" e] B(1) by simp
    next
      case False
      then have "e \<notin> extras_of ac s" using e(2) by (auto simp: extras_of_def)
      then show ?thesis using False by simp
    qed
    have "q_size (mtlk_sq_enqueue_clone_end k s) ac
        = (plain_count ac G + card (extras_of ac (mtlk_sq_enqueue_clone_end k s))) mod u32_max" if "ac < NTS_PRIORITIES" for ac
      using B(3) [OF that] card [of ac] unfolding S by (cases "ac = ex_ac x") (simp_all add: extras_of_upd size_dec_q)
    moreover have "extras (mtlk_sq_enqueue_clone_end k s) = (extras s)(e := None)" "\<not> uaf (mtlk_sq_enqueue_clone_end k s)"
      using B(2) by (simp_all add: S size_dec_def)
    moreover have "\<exists>e'. pk_extra (snd y) = Some e' \<and> ((extras s)(e := None)) e' \<noteq> None" if "y \<in># G" "rmcast (snd y)" for y
      using B(5) [OF that] none [OF that(1)] that(2) by auto
    moreover have "ex_ac x' < NTS_PRIORITIES \<and> ex_ref x' = clone_count e' G \<and> 0 < clone_count e' G \<and> clone_count e' G < u32_max"
      if "((extras s)(e := None)) e' = Some x'" for e' x'
      using B(4) [of e' x'] oth [of e'] that by (simp only: fun_upd_apply split: if_splits) simp_all
    ultimately show ?thesis using B(1) by (intro booksI) simp_all
  next
    case False
    have S: "mtlk_sq_enqueue_clone_end k s = s\<lparr>extras := (extras s)(e \<mapsto> x\<lparr>ex_ref := clone_count e G\<rparr>)\<rparr>"
      using e dec False by (simp add: mtlk_sq_enqueue_clone_end_def extra_detach_def with_extra_def)
    have "extras_of ac (mtlk_sq_enqueue_clone_end k s) = extras_of ac s" for ac
      using e(2) unfolding S by (auto simp: extras_of_def)
    moreover have "clone_count e G < u32_max" using e(5) c by simp
    moreover have "\<exists>e'. pk_extra (snd y) = Some e' \<and> ((extras s)(e \<mapsto> x\<lparr>ex_ref := clone_count e G\<rparr>)) e' \<noteq> None"
      if "y \<in># G" "rmcast (snd y)" for y
      using B(5) [OF that] by auto
    moreover have "ex_ac x' < NTS_PRIORITIES \<and> ex_ref x' = clone_count e' G \<and> 0 < clone_count e' G \<and> clone_count e' G < u32_max"
      if "((extras s)(e \<mapsto> x\<lparr>ex_ref := clone_count e G\<rparr>)) e' = Some x'" for e' x'
    proof (cases "e' = e")
      case True
      then have "x' = x\<lparr>ex_ref := clone_count e G\<rparr>" using that by simp
      then show ?thesis using True e(3) False \<open>clone_count e G < u32_max\<close> by simp
    next
      case ne: False
      then have "extras s e' = Some x'" using that by simp
      from B(4) [OF this] show ?thesis unfolding oth [OF ne] .
    qed
    moreover have "extras (mtlk_sq_enqueue_clone_end k s) = (extras s)(e \<mapsto> x\<lparr>ex_ref := clone_count e G\<rparr>)"
      "\<not> uaf (mtlk_sq_enqueue_clone_end k s)" "q_size (mtlk_sq_enqueue_clone_end k s) = q_size s" using B(2) by (simp_all add: S)
    ultimately show ?thesis using B(1,3) by (intro booksI) (simp_all del: fun_upd_apply)
  qed
qed

lemma books_release:
  assumes "books s (add_mset (ac, k) G)"
  shows "books (mtlk_sq_release_packet ac k s) G"
  using assms books_plain_out books_clone_out by (simp add: mtlk_sq_release_packet_def)

lemma live_mono:
  assumes "books s G" "y \<in># G" "rmcast (snd y)"
  shows "\<exists>e'. pk_extra (snd y) = Some e' \<and> ((extras s)(e \<mapsto> x)) e' \<noteq> None"
proof -
  obtain e' where "pk_extra (snd y) = Some e'" "extras s e' \<noteq> None" using assms unfolding books_def by blast
  then show ?thesis by (intro exI [of _ e']) simp
qed

text \<open>A multicast packet opens an object of its own; each clone takes a share of it.\<close>
lemma books_clone_begin:
  assumes "books s G" "rmcast k" "extras s e = None" "ac < NTS_PRIORITIES"
  shows "books (size_inc ac (s\<lparr>extras := (extras s)(e \<mapsto> \<lparr>ex_ref = 1, ex_ac = ac, ex_front = f\<rparr>)\<rparr>))
    (add_mset (a, k\<lparr>pk_extra := Some e\<rparr>) G)"
proof -
  let ?s = "s\<lparr>extras := (extras s)(e \<mapsto> \<lparr>ex_ref = 1, ex_ac = ac, ex_front = f\<rparr>)\<rparr>"
  let ?G = "add_mset (a, k\<lparr>pk_extra := Some e\<rparr>) G"
  have r: "rmcast (k\<lparr>pk_extra := Some e\<rparr>)" using assms(2) by (simp add: rmcast_def)
  have none: "\<not> (rmcast (snd y) \<and> pk_extra (snd y) = Some e)" if "y \<in># G" for y
    using assms(1,3) that unfolding books_def by (metis option.inject)
  then have z: "clone_count e G = 0" by (simp add: clone_count_0)
  have fin: "finite (extras_of b s)" for b using assms(1) by (simp add: books_def)
  have nin: "e \<notin> extras_of b s" for b using assms(3) by (simp add: extras_of_def)
  have "q_size (size_inc ac ?s) b = (plain_count b ?G + card (extras_of b (size_inc ac ?s))) mod u32_max"
    if "b < NTS_PRIORITIES" for b
    using assms(1) that r fin nin by (simp add: books_def extras_of_upd) (simp add: size_inc_def)
  moreover have "extras (size_inc ac ?s) = extras ?s" "uaf (size_inc ac ?s) = uaf s" by (simp_all add: size_inc_def)
  moreover have "1 < u32_max" by (simp add: u32_max_def)
  moreover have "\<exists>e'. pk_extra (snd y) = Some e' \<and> extras ?s e' \<noteq> None" if "y \<in># ?G" "rmcast (snd y)" for y
    using live_mono [OF assms(1), of y e] that by (cases "y \<in># G") auto
  moreover have "ex_ac x' < NTS_PRIORITIES \<and> ex_ref x' = clone_count e' ?G \<and> 0 < clone_count e' ?G \<and> clone_count e' ?G < u32_max"
    if "extras ?s e' = Some x'" for e' x'
    using assms(1,4) that r z \<open>1 < u32_max\<close> unfolding books_def by (cases "e' = e") auto
  ultimately show ?thesis
    using assms(1) unfolding books_def by simp
qed

lemma books_attach:
  assumes "books s G" "(a, k) \<in># G" "rmcast k" "pk_extra k = Some e" "extras s e = Some x" "ex_ref x + 1 < u32_max"
    "c = k\<lparr>pk_id := i, pk_dst := d\<rparr>"
  shows "books (s\<lparr>extras := (extras s)(e \<mapsto> x\<lparr>ex_ref := u32_inc (ex_ref x)\<rparr>)\<rparr>) (add_mset (b, c) G)"
proof -
  let ?s = "s\<lparr>extras := (extras s)(e \<mapsto> x\<lparr>ex_ref := u32_inc (ex_ref x)\<rparr>)\<rparr>"
  have c: "rmcast c" "pk_extra c = Some e" using assms(3,4,7) by (simp_all add: rmcast_def)
  have x: "ex_ref x = clone_count e G" using assms(1,5) by (simp add: books_def)
  then have small: "Suc (clone_count e G) < u32_max" using assms(6) by simp
  have inc: "u32_inc (ex_ref x) = Suc (clone_count e G)" using x small by (simp add: u32_inc_def)
  have eo: "extras_of ac ?s = extras_of ac s" for ac using assms(5) by (auto simp: extras_of_def)
  have "\<exists>e'. pk_extra (snd y) = Some e' \<and> extras ?s e' \<noteq> None" if "y \<in># add_mset (b, c) G" "rmcast (snd y)" for y
    using live_mono [OF assms(1), of y e] that c by (cases "y \<in># G") auto
  moreover have "ex_ac x' < NTS_PRIORITIES \<and> ex_ref x' = clone_count e' (add_mset (b, c) G)
      \<and> 0 < clone_count e' (add_mset (b, c) G) \<and> clone_count e' (add_mset (b, c) G) < u32_max"
    if "extras ?s e' = Some x'" for e' x'
  proof (cases "e' = e")
    case True
    have "x' = x\<lparr>ex_ref := Suc (clone_count e G)\<rparr>" using True that inc by simp
    moreover have "ex_ac x < NTS_PRIORITIES" using assms(1,5) unfolding books_def by blast
    ultimately show ?thesis using True c small by simp
  next
    case False
    then show ?thesis using assms(1) that c unfolding books_def by simp
  qed
  moreover have "q_size ?s ac = (plain_count ac (add_mset (b, c) G) + card (extras_of ac ?s)) mod u32_max" if "ac < NTS_PRIORITIES" for ac
    using assms(1) that c unfolding books_def eo by simp
  moreover have "finite (dom (extras ?s))" "\<not> uaf ?s" using assms(1) by (simp_all add: books_def)
  ultimately show ?thesis by (intro booksI)
qed

lemma books_detach:
  assumes "books s (add_mset (b, c) G)" "(a, k) \<in># G" "rmcast c" "rmcast k" "pk_extra c = pk_extra k"
  shows "books (mtlk_nbuf_priv_extra_detach c s) G"
proof -
  obtain e x where e: "pk_extra c = Some e" "extras s e = Some x" "ex_ref x = clone_count e (add_mset (b, c) G)"
    "clone_count e (add_mset (b, c) G) < u32_max"
    using books_extra [OF assms(1) union_single_eq_member [OF refl] assms(3)] by blast
  have "clone_count e G \<noteq> 0" unfolding clone_count_0 using assms(2,4,5) e(1) by (metis snd_conv)
  moreover have "u32_dec (ex_ref x) = clone_count e G" using e u32_dec_clones assms(3) by simp
  ultimately have "mtlk_nbuf_priv_extra_detach c s = mtlk_sq_enqueue_clone_end c s"
    using e by (simp add: mtlk_nbuf_priv_extra_detach_def mtlk_sq_enqueue_clone_end_def extra_detach_def with_extra_def)
  then show ?thesis using books_clone_out [OF assms(1,3)] by simp
qed

section \<open>The order of a queue\<close>

fun leaves :: "peer_id \<Rightarrow> nat \<Rightarrow> sq_event \<Rightarrow> sq_pkt list" where
  "leaves p ac (Sent q a k) = (if q = p \<and> a = ac then [k] else [])"
| "leaves p ac (Freed q a k) = (if q = p \<and> a = ac then [k] else [])"
| "leaves p ac _ = []"

fun enters :: "peer_id \<Rightarrow> nat \<Rightarrow> sq_event \<Rightarrow> sq_pkt list" where
  "enters p ac (Pushed q a k) = (if q = p \<and> a = ac then [k] else [])"
| "enters p ac _ = []"

text \<open>The packets that left a queue of a peer, and the packets that were accepted into it, in the order of the log.\<close>
definition gone :: "peer_id \<Rightarrow> nat \<Rightarrow> sq \<Rightarrow> sq_pkt list" where
  "gone p ac s = concat (map (leaves p ac) (sq_log s))"

definition pushed :: "peer_id \<Rightarrow> nat \<Rightarrow> sq \<Rightarrow> sq_pkt list" where
  "pushed p ac s = concat (map (enters p ac) (sq_log s))"

lemma log_emit [simp]:
  "gone p ac (sq_emit e s) = gone p ac s @ leaves p ac e" "pushed p ac (sq_emit e s) = pushed p ac s @ enters p ac e"
  by (simp_all add: gone_def pushed_def sq_emit_def)

lemma sq_log_emit: "sq_log (sq_emit e s) = sq_log s @ [e]"
  by (simp add: sq_emit_def)

lemma log_cong: "sq_log s' = sq_log s \<Longrightarrow> gone p ac s' = gone p ac s" "sq_log s' = sq_log s \<Longrightarrow> pushed p ac s' = pushed p ac s"
  by (simp_all add: gone_def pushed_def)

lemma log_frame [simp]:
  "sq_log (set_buf p ac xs s) = sq_log s" "sq_log (upd_peer p f s) = sq_log s" "sq_log (size_inc ac s) = sq_log s"
  "sq_log (size_dec ac s) = sq_log s"
  by (simp_all add: set_buf_def upd_peer_def size_inc_def size_dec_def)

text \<open>From \<open>s\<close> to \<open>s'\<close> packets only left, each queue from its front.\<close>
definition flow :: "sq \<Rightarrow> sq \<Rightarrow> bool" where
  "flow s s' = (\<forall>p ac. \<exists>xs. gone p ac s' = gone p ac s @ xs \<and> buf s p ac = xs @ buf s' p ac \<and> pushed p ac s' = pushed p ac s)"

lemma flow_refl: "flow s s"
  by (simp add: flow_def)

lemma flow_same:
  "(\<And>p ac. buf s' p ac = buf s p ac) \<Longrightarrow> sq_log s' = sq_log s \<Longrightarrow> flow s s'"
  using log_cong [of s' s] unfolding flow_def by auto

lemma flow_trans:
  assumes "flow s s'" "flow s' s''"
  shows "flow s s''"
  unfolding flow_def
proof (intro allI)
  fix p ac
  obtain xs where xs: "gone p ac s' = gone p ac s @ xs" "buf s p ac = xs @ buf s' p ac" "pushed p ac s' = pushed p ac s"
    using assms(1) unfolding flow_def by blast
  obtain ys where ys: "gone p ac s'' = gone p ac s' @ ys" "buf s' p ac = ys @ buf s'' p ac" "pushed p ac s'' = pushed p ac s'"
    using assms(2) unfolding flow_def by blast
  show "\<exists>xs. gone p ac s'' = gone p ac s @ xs \<and> buf s p ac = xs @ buf s'' p ac \<and> pushed p ac s'' = pushed p ac s"
  proof (intro exI conjI)
    show "gone p ac s'' = gone p ac s @ (xs @ ys)" using xs(1) ys(1) by simp
    show "buf s p ac = (xs @ ys) @ buf s'' p ac" using xs(2) ys(2) by simp
    show "pushed p ac s'' = pushed p ac s" using xs(3) ys(3) by simp
  qed
qed

text \<open>A queue holds exactly what was accepted and has not left, in that order.\<close>
definition in_order_of_acceptance :: "sq \<Rightarrow> bool" where
  "in_order_of_acceptance s = (\<forall>p ac. gone p ac s @ buf s p ac = pushed p ac s)"

definition nothing_lost :: "sq \<Rightarrow> bool" where
  "nothing_lost s = (\<forall>p ac. mset (gone p ac s) + mset (buf s p ac) = mset (pushed p ac s))"

lemma flow_order: "flow s s' \<Longrightarrow> in_order_of_acceptance s \<Longrightarrow> in_order_of_acceptance s'"
  unfolding flow_def in_order_of_acceptance_def by (metis append.assoc)

lemma flow_lost:
  assumes "flow s s'" "nothing_lost s"
  shows "nothing_lost s'"
  unfolding nothing_lost_def
proof (intro allI)
  fix p ac
  obtain xs where "gone p ac s' = gone p ac s @ xs" "buf s p ac = xs @ buf s' p ac" "pushed p ac s' = pushed p ac s"
    using assms(1) unfolding flow_def by blast
  then show "mset (gone p ac s') + mset (buf s' p ac) = mset (pushed p ac s')"
    using assms(2) by (simp add: nothing_lost_def) (metis add.assoc mset_append)
qed

lemma ac_by_number_less: "mtlk_get_ac_by_number n < NTS_PRIORITIES"
proof -
  have "n mod 4 \<in> {0, 1, 2, 3}" by auto
  then show ?thesis unfolding mtlk_get_ac_by_number_def by (auto simp: ac_defs)
qed

section \<open>What one attempt keeps, a flush keeps\<close>

locale sq_kept =
  fixes xmit :: "nat \<Rightarrow> sq_pkt \<Rightarrow> mtlk_error" and I :: "sq \<Rightarrow> bool"
  assumes send: "I s \<Longrightarrow> ac < NTS_PRIORITIES \<Longrightarrow> buf s p ac = k # ks \<Longrightarrow> tx_used (sq_peers s p) < tx_limit (sq_peers s p)
      \<Longrightarrow> I (snd (sq_send_one xmit ac p k ks s))"
    and shift: "I s \<Longrightarrow> I (s\<lparr>peer_list := l\<rparr>)"
    and flag: "I s \<Longrightarrow> I (s\<lparr>flush_in_progress := b\<rparr>)"
    and count: "I s \<Longrightarrow> I (s\<lparr>flush_count := c\<rparr>)"
begin

lemma pass: "I s \<Longrightarrow> ac < NTS_PRIORITIES \<Longrightarrow> I (snd (sq_pass xmit ac ps n s))"
proof (induction ps arbitrary: n s)
  case (Cons p ps)
  show ?case
  proof (cases "buf s p ac")
    case Nil
    then show ?thesis using Cons by simp
  next
    case L: (Cons k ks)
    obtain v s1 where v: "sq_send_one xmit ac p k ks s = (v, s1)" by fastforce
    show ?thesis
      using Cons L v send [OF Cons.prems L] by (cases v) (auto simp: not_le split: if_splits)
  qed
qed simp

lemma process: "I s \<Longrightarrow> ac < NTS_PRIORITIES \<Longrightarrow> I (snd (process_packets_by_ac xmit ac s))"
proof (induction "pending ac s" arbitrary: s rule: less_induct)
  case less
  obtain r s1 where r: "sq_pass xmit ac (peer_list s ac) 0 s = (r, s1)" by fastforce
  have k: "I s1" using pass [OF less.prems, of "peer_list s ac" 0] r by simp
  show ?case
  proof (cases r)
    case (Pass_done n)
    show ?thesis
    proof (cases "n = 0")
      case True
      then show ?thesis using r Pass_done shift [OF k] by (subst process_packets_by_ac.simps) simp
    next
      case False
      have "pending ac s1 < pending ac s" using sq_pass_pending r Pass_done False by blast
      from less.hyps [OF this k less.prems(2)] show ?thesis
        using r Pass_done False by (subst process_packets_by_ac.simps) simp
    qed
  qed (use r k in \<open>subst process_packets_by_ac.simps, simp\<close>)
qed

lemma acs: "I s \<Longrightarrow> n \<le> NTS_PRIORITIES \<Longrightarrow> I (flush_acs xmit n s)"
proof (induction n arbitrary: s)
  case (Suc n)
  have "mtlk_get_ac_by_number n < NTS_PRIORITIES"
    using ac_by_number_less .
  from process [OF Suc.prems(1) this] show ?case
    using Suc.IH Suc.prems(2) by (simp add: split_def Let_def)
qed simp

lemma loop: "I s \<Longrightarrow> I (flush_loop xmit reqs s)"
proof (induction reqs arbitrary: s)
  case Nil
  show ?case using flag [OF acs [OF flag [OF Nil], of NTS_PRIORITIES True]] by simp
next
  case (Cons r reqs)
  have "I (flush_acs xmit NTS_PRIORITIES (s\<lparr>flush_in_progress := True\<rparr>))" using acs [OF flag [OF Cons.prems]] by simp
  from flag [OF count [OF this], of False] show ?case using Cons.IH by (simp add: Let_def)
qed

lemma flush: "I s \<Longrightarrow> I (mtlk_sq_flush xmit reqs s)"
  using count [of s] loop [OF flag [of s True]] by (simp add: mtlk_sq_flush_def)

end

section \<open>The operations keep the books\<close>

text \<open>The books for the queued packets and for those in hand: taken out of a queue, or not yet put into one.\<close>
definition sq_ok :: "sq \<Rightarrow> (nat \<times> sq_pkt) multiset \<Rightarrow> bool" where
  "sq_ok s H = (finite_queues s \<and> books s (all_queued s + H))"

lemma sq_ok_cong:
  "(\<And>q a. buf s' q a = buf s q a) \<Longrightarrow> q_size s' = q_size s \<Longrightarrow> extras s' = extras s \<Longrightarrow> uaf s' = uaf s \<Longrightarrow> sq_ok s' H = sq_ok s H"
  using all_queued_cong [of s' s] books_cong [of s' s] by (simp add: sq_ok_def finite_queues_def)

lemma sq_ok_move:
  assumes "sq_ok s H" "ac < NTS_PRIORITIES" "\<And>q a. q \<noteq> p \<or> a \<noteq> ac \<Longrightarrow> buf s' q a = buf s q a"
    and "q_size s' = q_size s" "extras s' = extras s" "uaf s' = uaf s"
    and "image_mset (Pair ac) (mset (buf s p ac)) + H = image_mset (Pair ac) (mset (buf s' p ac)) + H'"
  shows "sq_ok s' H'"
proof -
  have f: "finite_queues s" using assms(1) by (simp add: sq_ok_def)
  let ?A = "image_mset (Pair ac) (mset (buf s p ac))" and ?B = "image_mset (Pair ac) (mset (buf s' p ac))"
  have "all_queued s' + ?A = all_queued s + ?B" by (rule all_queued_update [OF f assms(2,3)])
  then have "(all_queued s' + H') + (?A + ?B) = all_queued s + ?B + (?B + H')" by (simp add: ac_simps)
  also have "\<dots> = (all_queued s + H) + (?A + ?B)" using assms(7) by (simp add: ac_simps)
  finally have "all_queued s' + H' = all_queued s + H" by simp
  then show ?thesis
    using assms(1) finite_queues_update [OF f assms(2,3)] books_cong [OF assms(4,5,6)] by (simp add: sq_ok_def)
qed

lemma books_frame [simp]:
  "q_size (set_buf p ac xs s) = q_size s" "extras (set_buf p ac xs s) = extras s" "uaf (set_buf p ac xs s) = uaf s"
  "q_size (upd_peer p f s) = q_size s" "extras (upd_peer p f s) = extras s" "uaf (upd_peer p f s) = uaf s"
  "q_size (sq_emit e s) = q_size s" "extras (sq_emit e s) = extras s" "uaf (sq_emit e s) = uaf s"
  by (simp_all add: set_buf_def upd_peer_def sq_emit_def)

lemma sq_ok_emit [simp]: "sq_ok (sq_emit e s) H = sq_ok s H"
  by (rule sq_ok_cong) simp_all

lemma sq_ok_release:
  assumes "sq_ok s (add_mset (ac, k) H)"
  shows "sq_ok (mtlk_sq_release_packet ac k s) H"
proof -
  have "books s (add_mset (ac, k) (all_queued s + H))" using assms by (simp add: sq_ok_def)
  from books_release [OF this] show ?thesis
    using assms all_queued_cong [of "mtlk_sq_release_packet ac k s" s] by (simp add: sq_ok_def finite_queues_def)
qed

lemma sq_ok_pop:
  assumes "sq_ok s H" "ac < NTS_PRIORITIES" "buf s p ac = k # ks"
  shows "sq_ok (set_buf p ac ks s) (add_mset (ac, k) H)"
  by (rule sq_ok_move [OF assms(1,2), of p]) (use assms(3) in auto)

lemma sq_ok_send:
  assumes "sq_ok s H" "ac < NTS_PRIORITIES" "buf s p ac = k # ks"
  shows "sq_ok (snd (sq_send_one xmit ac p k ks s)) H"
proof -
  let ?s = "(set_buf p ac ks s)\<lparr>attempts := attempts (set_buf p ac ks s) + 1\<rparr>"
  note O = sq_ok_pop [OF assms]
  then have P: "sq_ok ?s (add_mset (ac, k) H)" by (subst sq_ok_cong [of _ "set_buf p ac ks s"]) simp_all
  note R = sq_ok_release [OF P]
  have kept: "sq_ok (set_buf p ac (k # ks) (set_buf p ac ks s)) H" "sq_ok (set_buf p ac (k # ks) ?s) H"
    by (rule sq_ok_move [OF O assms(2), of p]; auto) (rule sq_ok_move [OF P assms(2), of p]; auto)
  have sent: "sq_ok (upd_peer p f ((sq_emit e (mtlk_sq_release_packet ac k ?s))\<lparr>sq_st := st\<rparr>)) H"
    if "\<And>c. buflist (f c) = buflist c" for f e st
    using R by (subst sq_ok_cong [of _ "mtlk_sq_release_packet ac k ?s"]) (simp_all add: that)
  have freed: "sq_ok (release_and_free p ac k ?s) H" using R by (simp add: release_and_free_def)
  show ?thesis
    using kept sent freed by (simp add: sq_send_one_def Let_def split: if_split)
qed

interpretation sq_ok_kept: sq_kept xmit "\<lambda>s. sq_ok s H" for xmit H
  by unfold_locales (simp_all add: sq_ok_send, (subst sq_ok_cong; simp add: buf_def)+)

lemma sq_send_one_log:
  assumes "sq_send_one xmit ac p k ks s = (r, s')" "buf s p ac = k # ks"
  shows "buf s' p ac = k # ks \<and> sq_log s' = sq_log s
    \<or> buf s' p ac = ks \<and> (sq_log s' = sq_log s @ [Sent p ac k] \<or> sq_log s' = sq_log s @ [Freed p ac k])"
  using assms by (auto simp: sq_send_one_def Let_def release_and_free_def sq_log_emit split: if_splits)

lemma flow_send:
  assumes "flow s0 s" "buf s p ac = k # ks"
  shows "flow s0 (snd (sq_send_one xmit ac p k ks s))"
proof (rule flow_trans [OF assms(1)])
  obtain r s' where v: "sq_send_one xmit ac p k ks s = (r, s')" by fastforce
  note B = sq_send_one_bufs [OF v assms(2)] and L = sq_send_one_log [OF v assms(2)]
  have "\<exists>xs. gone q a s' = gone q a s @ xs \<and> buf s q a = xs @ buf s' q a \<and> pushed q a s' = pushed q a s" for q a
    using L B(2) [of q a] assms(2) by (cases "q = p \<and> a = ac") (auto simp: gone_def pushed_def)
  then show "flow s (snd (sq_send_one xmit ac p k ks s))" using v by (simp add: flow_def)
qed

interpretation flow_kept: sq_kept xmit "flow s0" for xmit s0
  by unfold_locales (simp_all add: flow_send, (erule flow_trans, rule flow_same; simp add: buf_def)+)


lemma enqueue_pkt_ok:
  assumes "mtlk_sq_enqueue_pkt p k ac front s = (res, s')" "sq_ok s (add_mset (ac, k) H)" "ac < NTS_PRIORITIES"
  shows "sq_ok s' (if res = MTLK_ERR_OK then H else add_mset (ac, k) H)"
proof (cases "res = MTLK_ERR_OK")
  case True
  have "sq_ok (set_buf p ac (if front then k # buf s p ac else buf s p ac @ [k]) s) H"
    by (rule sq_ok_move [OF assms(2,3), of p]) auto
  then have "sq_ok s' H"
    using assms(1) True by (subst sq_ok_cong [of _ "set_buf p ac (if front then k # buf s p ac else buf s p ac @ [k]) s"])
      (auto simp: mtlk_sq_enqueue_pkt_def split: if_splits)
  then show ?thesis using True by simp
next
  case False
  then have "sq_ok s' (add_mset (ac, k) H) = sq_ok s (add_mset (ac, k) H)"
    using assms(1) by (intro sq_ok_cong) (auto simp: mtlk_sq_enqueue_pkt_def split: if_splits)
  then show ?thesis using assms(2) False by simp
qed

text \<open>What an enqueueing does to a queue and to the log.\<close>
lemma enqueue_pkt_log:
  assumes "mtlk_sq_enqueue_pkt p k ac front s = (res, s')"
  shows "if res = MTLK_ERR_OK then sq_log s' = sq_log s @ [Pushed p ac k]
       \<and> buf s' q a = (if q = p \<and> a = ac then (if front then k # buf s p ac else buf s p ac @ [k]) else buf s q a)
     else sq_log s' = sq_log s \<and> buf s' q a = buf s q a"
  using assms by (auto simp: mtlk_sq_enqueue_pkt_def sq_log_emit split: if_splits)

lemma enqueue_pkt_lost:
  assumes "mtlk_sq_enqueue_pkt p k ac front s = (res, s')"
  shows "nothing_lost s \<Longrightarrow> nothing_lost s'" "\<not> front \<Longrightarrow> in_order_of_acceptance s \<Longrightarrow> in_order_of_acceptance s'"
proof -
  have L: "(if res = MTLK_ERR_OK then sq_log s' = sq_log s @ [Pushed p ac k]
       \<and> buf s' q a = (if q = p \<and> a = ac then (if front then k # buf s p ac else buf s p ac @ [k]) else buf s q a)
     else sq_log s' = sq_log s \<and> buf s' q a = buf s q a)" for q a
    by (rule enqueue_pkt_log [OF assms])
  show "nothing_lost s'" if "nothing_lost s"
    unfolding nothing_lost_def
  proof (intro allI)
    fix q a
    have "mset (gone q a s) + mset (buf s q a) = mset (pushed q a s)" using that by (simp add: nothing_lost_def)
    then show "mset (gone q a s') + mset (buf s' q a) = mset (pushed q a s')"
      using L [of q a] by (auto simp: gone_def pushed_def split: if_splits)
  qed
  show "in_order_of_acceptance s'" if "\<not> front" "in_order_of_acceptance s"
    unfolding in_order_of_acceptance_def
  proof (intro allI)
    fix q a
    have "gone q a s @ buf s q a = pushed q a s" using that by (simp add: in_order_of_acceptance_def)
    then show "gone q a s' @ buf s' q a = pushed q a s'"
      using L [of q a] that(1) by (auto simp: gone_def pushed_def split: if_splits)
  qed
qed

lemma sq_ok_size_dec:
  assumes "sq_ok s (add_mset (ac, k) H)" "\<not> rmcast k"
  shows "sq_ok (size_dec ac s) H"
  using sq_ok_release [OF assms(1)] assms(2) by (simp add: mtlk_sq_release_packet_def)

lemma sq_ok_size_inc:
  assumes "sq_ok s H" "\<not> rmcast k"
  shows "sq_ok (size_inc ac s) (add_mset (ac, k) H)"
proof -
  have "all_queued (size_inc ac s) = all_queued s" by (rule all_queued_cong) simp
  then show ?thesis
    using books_size_inc [of s "all_queued s + H" k ac] assms by (simp add: sq_ok_def finite_queues_def)
qed

lemma urgent_ac: "ac < NTS_PRIORITIES \<Longrightarrow> fst (mtlk_sq_switch_if_urgent k (ac, front)) < NTS_PRIORITIES"
  by (simp add: mtlk_sq_switch_if_urgent_def AC_HIGHEST_def ac_defs)

lemma enqueue_ok:
  assumes "sq_ok s H" "\<not> rmcast k" "ac < NTS_PRIORITIES"
  shows "sq_ok (snd (mtlk_sq_enqueue ac front k s)) H"
proof -
  obtain a f where af: "mtlk_sq_switch_if_urgent k (ac, front) = (a, f)" by fastforce
  then have a: "a < NTS_PRIORITIES" using urgent_ac [OF assms(3), of k front] by simp
  obtain res s' where r: "mtlk_sq_enqueue_pkt (pk_dst k) k a f (size_inc a s) = (res, s')" by fastforce
  from enqueue_pkt_ok [OF r sq_ok_size_inc [OF assms(1,2)] a] show ?thesis
    using af r sq_ok_size_dec [OF _ assms(2), of s' a H] by (auto simp: mtlk_sq_enqueue_def mtlk_xmit_sq_enqueue_def split: if_splits)
qed

lemma enqueue_lost:
  shows "nothing_lost s \<Longrightarrow> nothing_lost (snd (mtlk_sq_enqueue ac front k s))"
    and "\<not> snd (mtlk_sq_switch_if_urgent k (ac, front)) \<Longrightarrow> in_order_of_acceptance s
      \<Longrightarrow> in_order_of_acceptance (snd (mtlk_sq_enqueue ac front k s))"
proof -
  obtain a f where af: "mtlk_sq_switch_if_urgent k (ac, front) = (a, f)" by fastforce
  obtain res s' where r: "mtlk_sq_enqueue_pkt (pk_dst k) k a f (size_inc a s) = (res, s')" by fastforce
  note E = enqueue_pkt_lost [OF r]
  have d: "flow s (size_inc a s)" "flow s' (size_dec a s')" by (rule flow_same; simp)+
  have S: "snd (mtlk_sq_enqueue ac front k s) = (if res \<noteq> MTLK_ERR_OK then size_dec a s' else s')"
    using af r by (simp add: mtlk_sq_enqueue_def mtlk_xmit_sq_enqueue_def)
  show "nothing_lost s \<Longrightarrow> nothing_lost (snd (mtlk_sq_enqueue ac front k s))"
    unfolding S using E(1) d flow_lost by simp
  show "\<not> snd (mtlk_sq_switch_if_urgent k (ac, front)) \<Longrightarrow> in_order_of_acceptance s
      \<Longrightarrow> in_order_of_acceptance (snd (mtlk_sq_enqueue ac front k s))"
    unfolding S using E(2) d flow_order af by simp
qed


subsection \<open>Multicast\<close>

lemma with_extra_frame:
  "(\<And>e x s. buf (f e x s) p ac = buf s p ac) \<Longrightarrow> buf (with_extra f k s) p ac = buf s p ac"
  "(\<And>e x s. sq_log (f e x s) = sq_log s) \<Longrightarrow> sq_log (with_extra f k s) = sq_log s"
  "(\<And>e x s. sq_peers (f e x s) = sq_peers s) \<Longrightarrow> sq_peers (with_extra f k s) = sq_peers s"
  by (simp_all add: with_extra_def buf_def split: option.split)

lemma buf_extras [simp]: "buf (s\<lparr>extras := x\<rparr>) p ac = buf s p ac" "buf (s\<lparr>uaf := u\<rparr>) p ac = buf s p ac"
  by (simp_all add: buf_def)

lemma detach_frame [simp]:
  "buf (mtlk_nbuf_priv_extra_detach k s) p ac = buf s p ac" "sq_log (mtlk_nbuf_priv_extra_detach k s) = sq_log s"
  "sq_peers (mtlk_nbuf_priv_extra_detach k s) = sq_peers s"
  "buf (mtlk_sq_enqueue_clone_end k s) p ac = buf s p ac" "sq_log (mtlk_sq_enqueue_clone_end k s) = sq_log s"
  "sq_peers (mtlk_sq_enqueue_clone_end k s) = sq_peers s"
  by (simp_all add: mtlk_nbuf_priv_extra_detach_def mtlk_sq_enqueue_clone_end_def extra_detach_def with_extra_def size_dec_def buf_def
      split: option.split)

lemma flow_emit: "(\<And>p ac. leaves p ac e = [] \<and> enters p ac e = []) \<Longrightarrow> flow s (sq_emit e s)"
  by (simp add: flow_def)

lemma clone_end_ok:
  assumes "sq_ok s (add_mset (a, k) H)" "rmcast k"
  shows "sq_ok (mtlk_sq_enqueue_clone_end k s) H"
  using sq_ok_release [OF assms(1)] assms(2) by (simp add: mtlk_sq_release_packet_def)

lemma clone_begin_ok:
  assumes "sq_ok s H" "rmcast k" "extras s e = None" "ac < NTS_PRIORITIES"
    and "mtlk_sq_enqueue_clone_begin alloc e ac front k s = (res, k', s')"
  shows "sq_ok s' (if res = MTLK_ERR_OK then add_mset (a, k') H else H)" "rmcast k'"
    "res = MTLK_ERR_OK \<Longrightarrow> pk_extra k' = Some e" "flow s s'" "sq_peers s' = sq_peers s"
proof -
  obtain b f where bf: "mtlk_sq_switch_if_urgent k (ac, front) = (b, f)" by fastforce
  then have b: "b < NTS_PRIORITIES" using urgent_ac [OF assms(4), of k front] by simp
  let ?s = "size_inc b (s\<lparr>extras := (extras s)(e \<mapsto> \<lparr>ex_ref = 1, ex_ac = b, ex_front = f\<rparr>)\<rparr>)"
  have R: "(res, k', s') = (if alloc then (MTLK_ERR_OK, k\<lparr>pk_extra := Some e\<rparr>, ?s) else (MTLK_ERR_NO_MEM, k\<lparr>pk_extra := None\<rparr>, s))"
    using assms(5) bf by (simp add: mtlk_sq_enqueue_clone_begin_def mtlk_nbuf_priv_extra_create_and_attach_def split: if_splits)
  have "all_queued ?s = all_queued s" "finite_queues ?s = finite_queues s" by (rule all_queued_cong; simp) (simp add: finite_queues_def)
  moreover have "books s (all_queued s + H)" using assms(1) by (simp add: sq_ok_def)
  from books_clone_begin [OF this assms(2,3) b, of f a]
  have "books ?s (add_mset (a, k\<lparr>pk_extra := Some e\<rparr>) (all_queued s + H))" .
  ultimately have "sq_ok ?s (add_mset (a, k\<lparr>pk_extra := Some e\<rparr>) H)" using assms(1) by (simp add: sq_ok_def)
  moreover have "flow s ?s" by (rule flow_same) simp_all
  moreover have "sq_peers ?s = sq_peers s" by (simp add: size_inc_def)
  ultimately show "sq_ok s' (if res = MTLK_ERR_OK then add_mset (a, k') H else H)" "rmcast k'"
    "res = MTLK_ERR_OK \<Longrightarrow> pk_extra k' = Some e" "flow s s'" "sq_peers s' = sq_peers s"
    using R assms(1,2) flow_refl [of s] by (cases alloc; simp add: rmcast_def)+
qed

text \<open>The shape of the enqueueing of one clone.\<close>
lemma enqueue_clone_cases:
  assumes "pk_extra k = Some e" "extras s e = Some x"
  obtains (no_mem) "\<not> alloc" "mtlk_sq_enqueue_clone alloc i k dst s = (MTLK_ERR_NO_MEM, sq_emit (Sta_dropped dst ''no resources'') s)"
  | (tried) c s1 res s2 where "alloc" "c = k\<lparr>pk_id := i, pk_dst := Some dst\<rparr>"
      "s1 = s\<lparr>extras := (extras s)(e \<mapsto> x\<lparr>ex_ref := u32_inc (ex_ref x)\<rparr>)\<rparr>"
      "mtlk_sq_enqueue_pkt (Some dst) c (ex_ac x) (ex_front x) s1 = (res, s2)"
      "mtlk_sq_enqueue_clone alloc i k dst s = (res, if res \<noteq> MTLK_ERR_OK
         then sq_emit (Clone_freed c) (mtlk_nbuf_priv_extra_detach c (sq_emit (Sta_dropped dst ''queue overflow'') s2)) else s2)"
proof (cases alloc)
  case False
  then show ?thesis using no_mem by (simp add: mtlk_sq_enqueue_clone_def)
next
  case True
  let ?c = "k\<lparr>pk_id := i, pk_dst := Some dst\<rparr>" and ?s1 = "s\<lparr>extras := (extras s)(e \<mapsto> x\<lparr>ex_ref := u32_inc (ex_ref x)\<rparr>)\<rparr>"
  have c: "?c\<lparr>pk_extra := Some e\<rparr> = ?c" using assms(1) by simp
  obtain res s2 where r: "mtlk_sq_enqueue_pkt (Some dst) ?c (ex_ac x) (ex_front x) ?s1 = (res, s2)" by fastforce
  show ?thesis
    using tried [OF True refl refl r] assms True r
    by (simp add: mtlk_sq_enqueue_clone_def mtlk_nbuf_priv_extra_attach_def with_extra_def mtlk_xmit_sq_enqueue_def c split_def)
qed

lemma clone_ok:
  assumes "sq_ok s H" "(a, k) \<in># H" "rmcast k" "pk_extra k = Some e" "extras s e = Some x" "ex_ref x + 1 < u32_max"
  shows "sq_ok (snd (mtlk_sq_enqueue_clone alloc i k dst s)) H"
  using assms(4,5)
proof (cases rule: enqueue_clone_cases [where alloc = alloc and i = i and dst = dst])
  case no_mem
  then show ?thesis using assms(1) by simp
next
  case (tried c s1 res s2)
  have c: "rmcast c" "pk_extra c = pk_extra k" using assms(3) tried(2) by (simp_all add: rmcast_def)
  have B: "books s (all_queued s + H)" using assms(1) by (simp add: sq_ok_def)
  have "books s1 (add_mset (ex_ac x, c) (all_queued s + H))"
    unfolding tried(3) by (rule books_attach [OF B _ assms(3,4,5,6) tried(2), of a]) (use assms(2) in simp)
  moreover have "all_queued s1 = all_queued s" unfolding tried(3) by (rule all_queued_cong) simp
  ultimately have "sq_ok s1 (add_mset (ex_ac x, c) H)" using assms(1) tried(3) by (simp add: sq_ok_def finite_queues_def)
  moreover have "ex_ac x < NTS_PRIORITIES" using B assms(5) unfolding books_def by blast
  ultimately have S: "sq_ok s2 (if res = MTLK_ERR_OK then H else add_mset (ex_ac x, c) H)" by (rule enqueue_pkt_ok [OF tried(4)])
  show ?thesis
  proof (cases "res = MTLK_ERR_OK")
    case False
    let ?s = "sq_emit (Sta_dropped dst ''queue overflow'') s2"
    have "sq_ok ?s (add_mset (ex_ac x, c) H)" using S False by simp
    then have "books ?s (add_mset (ex_ac x, c) (all_queued ?s + H))" "finite_queues ?s" by (simp_all add: sq_ok_def)
    from books_detach [OF this(1) _ c(1) assms(3) c(2), of a] assms(2) this(2)
    have "sq_ok (mtlk_nbuf_priv_extra_detach c ?s) H"
      using all_queued_cong [of "mtlk_nbuf_priv_extra_detach c ?s" ?s] by (simp add: sq_ok_def finite_queues_def)
    then show ?thesis using tried(5) False by simp
  qed (use S tried(5) in simp)
qed

lemma clone_lost:
  assumes "pk_extra k = Some e" "extras s e = Some x"
  shows "nothing_lost s \<Longrightarrow> nothing_lost (snd (mtlk_sq_enqueue_clone alloc i k dst s))"
    "\<not> ex_front x \<Longrightarrow> in_order_of_acceptance s \<Longrightarrow> in_order_of_acceptance (snd (mtlk_sq_enqueue_clone alloc i k dst s))"
proof -
  have E: "flow t (sq_emit (Sta_dropped dst m) t)" "flow t (sq_emit (Clone_freed c) t)" for t m c by (rule flow_emit; simp)+
  have D: "flow t (sq_emit (Clone_freed c) (mtlk_nbuf_priv_extra_detach c (sq_emit (Sta_dropped dst m) t)))" for t m c
    by (intro flow_trans [OF flow_trans [OF E(1) flow_same] E(2)]) simp_all
  have "(nothing_lost s \<longrightarrow> nothing_lost (snd (mtlk_sq_enqueue_clone alloc i k dst s)))
    \<and> (\<not> ex_front x \<longrightarrow> in_order_of_acceptance s \<longrightarrow> in_order_of_acceptance (snd (mtlk_sq_enqueue_clone alloc i k dst s)))"
    using assms
  proof (cases rule: enqueue_clone_cases [where alloc = alloc and i = i and dst = dst])
    case no_mem
    then show ?thesis using flow_lost [OF E(1)] flow_order [OF E(1)] by simp
  next
    case (tried c s1 res s2)
    have "flow s s1" unfolding tried(3) by (rule flow_same) simp_all
    then show ?thesis
      using enqueue_pkt_lost [OF tried(4)] flow_lost [of s s1] flow_order [of s s1] flow_lost [OF D, of s2] flow_order [OF D, of s2] tried(5)
      by (cases "res = MTLK_ERR_OK") simp_all
  qed
  then show "nothing_lost s \<Longrightarrow> nothing_lost (snd (mtlk_sq_enqueue_clone alloc i k dst s))"
    "\<not> ex_front x \<Longrightarrow> in_order_of_acceptance s \<Longrightarrow> in_order_of_acceptance (snd (mtlk_sq_enqueue_clone alloc i k dst s))"
    by blast+
qed


subsection \<open>Cancellation\<close>

lemma release_all_ok:
  "sq_ok s (image_mset (Pair ac) (mset ks) + H) \<Longrightarrow> sq_ok (fold (release_and_free p ac) ks s) H"
  by (induction ks arbitrary: s) (simp_all add: release_and_free_def sq_ok_release)

lemma release_all_frame [simp]:
  "sq_log (fold (release_and_free p ac) ks s) = sq_log s @ map (Freed p ac) ks"
  "buf (fold (release_and_free p ac) ks s) q a = buf s q a"
  "sq_peers (fold (release_and_free p ac) ks s) = sq_peers s"
  "peer_list (fold (release_and_free p ac) ks s) = peer_list s"
  by (induction ks arbitrary: s) (simp_all add: release_and_free_def sq_log_emit, simp_all add: sq_emit_def)

lemma map_leaves [simp]:
  "concat (map (leaves q a) (map (Freed p ac) ks)) = (if q = p \<and> a = ac then ks else [])"
  "concat (map (enters q a) (map (Freed p ac) ks)) = []"
  by (induction ks) auto

lemma drain_frame [simp]: "sq_log (drain p ac s) = sq_log s @ map (Freed p ac) (buf s p ac)"
  "buf (drain p ac s) q a = (if q = p \<and> a = ac then [] else buf s q a)" "peer_list (drain p ac s) = peer_list s"
  by (simp_all add: drain_def)

lemma drain_ok:
  assumes "sq_ok s H" "ac < NTS_PRIORITIES"
  shows "sq_ok (drain p ac s) H"
  unfolding drain_def by (rule release_all_ok, rule sq_ok_move [OF assms, of p]) auto

lemma drain_flow: "flow s (drain p ac s)"
  unfolding flow_def
proof (intro allI)
  fix q a
  show "\<exists>xs. gone q a (drain p ac s) = gone q a s @ xs \<and> buf s q a = xs @ buf (drain p ac s) q a \<and> pushed q a (drain p ac s) = pushed q a s"
    by (intro exI [of _ "if q = p \<and> a = ac then buf s p ac else []"]) (simp add: gone_def pushed_def del: map_map)
qed

lemma drain_vap_ok:
  assumes "sq_ok s H" "ac < NTS_PRIORITIES"
  shows "sq_ok (drain_vap vap p ac s) H"
  unfolding drain_vap_def
proof (rule release_all_ok, rule sq_ok_move [OF assms, of p])
  have "mset (buf s p ac) = mset (filter (\<lambda>k. pk_vap k \<noteq> vap) (buf s p ac)) + mset (filter (\<lambda>k. pk_vap k = vap) (buf s p ac))"
    using multiset_partition [of "mset (buf s p ac)" "\<lambda>k. pk_vap k \<noteq> vap"] by simp
  then show "image_mset (Pair ac) (mset (buf s p ac)) + H
    = image_mset (Pair ac) (mset (buf (set_buf p ac (filter (\<lambda>k. pk_vap k \<noteq> vap) (buf s p ac)) s) p ac))
      + (image_mset (Pair ac) (mset (filter (\<lambda>k. pk_vap k = vap) (buf s p ac))) + H)"
    by (simp add: ac_simps flip: mset_filter)
qed auto

lemma drain_vap_lost:
  assumes "nothing_lost s"
  shows "nothing_lost (drain_vap vap p ac s)"
  unfolding nothing_lost_def
proof (intro allI)
  fix q a
  have "mset (gone q a s) + mset (buf s q a) = mset (pushed q a s)" using assms by (simp add: nothing_lost_def)
  moreover have "mset (buf s p ac) = mset (filter (\<lambda>k. pk_vap k = vap) (buf s p ac)) + mset (filter (\<lambda>k. pk_vap k \<noteq> vap) (buf s p ac))"
    using multiset_partition [of "mset (buf s p ac)" "\<lambda>k. pk_vap k = vap"] by simp
  ultimately show "mset (gone q a (drain_vap vap p ac s)) + mset (buf (drain_vap vap p ac s) q a) = mset (pushed q a (drain_vap vap p ac s))"
    by (auto simp: drain_vap_def gone_def pushed_def add.assoc simp del: map_map mset_filter)
qed

lemma upt_prios: "[0..<NTS_PRIORITIES] = [0, 1, 2, 3]"
  by (simp add: ac_defs upt_rec)

lemma cancel_all_ok: "sq_ok s H \<Longrightarrow> sq_ok (mtlk_sq_peer_ctx_cancel_all_packets p s) H"
  by (simp add: mtlk_sq_peer_ctx_cancel_all_packets_def upt_prios) (intro drain_ok; simp add: ac_defs)

lemma cancel_all_flow: "flow s (mtlk_sq_peer_ctx_cancel_all_packets p s)"
  by (simp add: mtlk_sq_peer_ctx_cancel_all_packets_def upt_prios) (intro flow_trans [OF _ drain_flow] flow_refl)

lemma cancel_vap_ok: "sq_ok s H \<Longrightarrow> sq_ok (mtlk_sq_peer_ctx_cancel_all_packets_for_vap p vap s) H"
  by (simp add: mtlk_sq_peer_ctx_cancel_all_packets_for_vap_def upt_prios) (intro drain_vap_ok; simp add: ac_defs)

lemma cancel_vap_lost: "nothing_lost s \<Longrightarrow> nothing_lost (mtlk_sq_peer_ctx_cancel_all_packets_for_vap p vap s)"
  by (simp add: mtlk_sq_peer_ctx_cancel_all_packets_for_vap_def upt_prios drain_vap_lost)

lemma unlink_same:
  "flow s (peer_unlink p ac s)" "sq_ok (peer_unlink p ac s) H = sq_ok s H"
  by (rule flow_same; simp add: peer_unlink_def buf_def) (rule sq_ok_cong; simp add: peer_unlink_def buf_def)

lemma cleanup_ok: "sq_ok s H \<Longrightarrow> sq_ok (mtlk_sq_peer_ctx_cleanup p s) H"
  by (simp add: mtlk_sq_peer_ctx_cleanup_def upt_prios) (intro drain_ok | simp add: ac_defs unlink_same)+

lemma cleanup_flow: "flow s (mtlk_sq_peer_ctx_cleanup p s)"
  by (simp add: mtlk_sq_peer_ctx_cleanup_def upt_prios) (intro flow_trans [OF _ drain_flow] flow_trans [OF _ unlink_same(1)] flow_refl)

lemma cleanup_empties:
  "ac < NTS_PRIORITIES \<Longrightarrow> buf (mtlk_sq_peer_ctx_cleanup p s) p ac = []"
  "ac < NTS_PRIORITIES \<Longrightarrow> peer_list (mtlk_sq_peer_ctx_cleanup p s) ac = remove1 p (peer_list s ac)"
proof -
  have b: "buf (peer_unlink p a s) q c = buf s q c" for a q c s by (simp add: peer_unlink_def buf_def)
  show "ac < NTS_PRIORITIES \<Longrightarrow> buf (mtlk_sq_peer_ctx_cleanup p s) p ac = []"
    unfolding mtlk_sq_peer_ctx_cleanup_def upt_prios by (simp add: b, auto simp: ac_defs)
  show "ac < NTS_PRIORITIES \<Longrightarrow> peer_list (mtlk_sq_peer_ctx_cleanup p s) ac = remove1 p (peer_list s ac)"
    unfolding mtlk_sq_peer_ctx_cleanup_def upt_prios by (simp add: peer_unlink_def, auto simp: ac_defs)
qed


subsection \<open>Limits and front insertion\<close>

definition lims :: "sq \<Rightarrow> peer_id \<Rightarrow> nat \<times> nat \<times> nat" where
  "lims s p = (limit_cfg (sq_peers s p), tx_limit (sq_peers s p), tx_used (sq_peers s p))"

definition lims_ok :: "nat \<times> nat \<times> nat \<Rightarrow> bool" where
  "lims_ok l = (case l of (cfg, lim, us) \<Rightarrow> lim \<le> cfg \<and> us \<le> cfg \<and> cfg < u32_max)"

text \<open>No peer has more packets in the hardware than its configured limit.\<close>
definition within_limits :: "sq \<Rightarrow> bool" where
  "within_limits s = (\<forall>p. lims_ok (lims s p))"

definition back_only :: "sq \<Rightarrow> bool" where
  "back_only s = (\<forall>e x. extras s e = Some x \<longrightarrow> \<not> ex_front x)"

lemma lims_frame [simp]:
  "lims (set_buf p ac xs s) q = lims s q" "lims (sq_emit e s) q = lims s q" "lims (size_inc ac s) q = lims s q"
  "lims (size_dec ac s) q = lims s q" "lims (mtlk_sq_release_packet ac k s) q = lims s q"
  "lims (mtlk_sq_enqueue_clone_end k s) q = lims s q" "lims (mtlk_nbuf_priv_extra_detach k s) q = lims s q"
  "lims (fold (release_and_free p ac) ks s) q = lims s q" "lims (peer_unlink p ac s) q = lims s q"
  "lims (drain p ac s) q = lims s q" "lims (drain_vap vap p ac s) q = lims s q"
  by (auto simp: lims_def set_buf_def upd_peer_def sq_emit_def size_inc_def size_dec_def peer_unlink_def drain_def drain_vap_def)

lemma lims_upd:
  "(\<And>c. limit_cfg (f c) = limit_cfg c \<and> tx_limit (f c) = tx_limit c \<and> tx_used (f c) = tx_used c) \<Longrightarrow> lims (upd_peer p f s) q = lims s q"
  by (simp add: lims_def upd_peer_def)

lemma lims_ops [simp]:
  "lims (mtlk_sq_peer_ctx_cancel_all_packets p s) q = lims s q"
  "lims (mtlk_sq_peer_ctx_cancel_all_packets_for_vap p vap s) q = lims s q"
  "lims (mtlk_sq_peer_ctx_cleanup p s) q = lims s q"
  by (simp_all add: mtlk_sq_peer_ctx_cancel_all_packets_def mtlk_sq_peer_ctx_cancel_all_packets_for_vap_def
      mtlk_sq_peer_ctx_cleanup_def upt_prios)

lemma lims_enqueue_pkt: "mtlk_sq_enqueue_pkt p k ac front s = (res, s') \<Longrightarrow> lims s' q = lims s q"
  by (auto simp: mtlk_sq_enqueue_pkt_def lims_def set_buf_def upd_peer_def sq_emit_def split: if_splits)

lemma lims_enqueue: "lims (snd (mtlk_sq_enqueue ac front k s)) q = lims s q"
proof -
  obtain a f where af: "mtlk_sq_switch_if_urgent k (ac, front) = (a, f)" by fastforce
  obtain res s' where r: "mtlk_sq_enqueue_pkt (pk_dst k) k a f (size_inc a s) = (res, s')" by fastforce
  show ?thesis using af r lims_enqueue_pkt [OF r, of q] by (simp add: mtlk_sq_enqueue_def mtlk_xmit_sq_enqueue_def)
qed

lemma lims_clone:
  assumes "pk_extra k = Some e" "extras s e = Some x"
  shows "lims (snd (mtlk_sq_enqueue_clone alloc i k dst s)) q = lims s q"
  using assms
proof (cases rule: enqueue_clone_cases [where alloc = alloc and i = i and dst = dst])
  case (tried c s1 res s2)
  then show ?thesis using lims_enqueue_pkt [OF tried(4), of q] by (simp add: lims_def [of s] lims_def [of "s\<lparr>extras := _\<rparr>"])
qed simp

lemma within_send:
  assumes "within_limits s" "buf s p ac = k # ks" "tx_used (sq_peers s p) < tx_limit (sq_peers s p)"
  shows "within_limits (snd (sq_send_one xmit ac p k ks s))"
proof -
  obtain r s' where v: "sq_send_one xmit ac p k ks s = (r, s')" by fastforce
  have "lims s' q = lims s q \<or> q = p \<and> lims s' p = (limit_cfg (sq_peers s p), tx_limit (sq_peers s p), u32_inc (tx_used (sq_peers s p)))" for q
    using v by (auto simp: sq_send_one_def Let_def lims_def set_buf_def upd_peer_def sq_emit_def release_and_free_def split: if_splits)
  moreover have "lims_ok (limit_cfg (sq_peers s p), tx_limit (sq_peers s p), u32_inc (tx_used (sq_peers s p)))"
    using assms(1,3) unfolding within_limits_def lims_def lims_ok_def by (auto simp: u32_inc_def dest: spec [of _ p])
  ultimately show ?thesis using assms(1) v unfolding within_limits_def by (metis snd_conv)
qed

interpretation within_kept: sq_kept xmit within_limits for xmit
  by unfold_locales (simp_all add: within_send, simp_all add: within_limits_def lims_def)

lemma back_release: "back_only s \<Longrightarrow> back_only (mtlk_sq_release_packet ac k s)"
  "back_only s \<Longrightarrow> back_only (mtlk_sq_enqueue_clone_end k s)" "back_only s \<Longrightarrow> back_only (mtlk_nbuf_priv_extra_detach k s)"
  by (auto simp: back_only_def mtlk_sq_release_packet_def mtlk_sq_enqueue_clone_end_def mtlk_nbuf_priv_extra_detach_def extra_detach_def with_extra_def
      size_dec_def split: option.splits if_splits)

lemma back_frame [simp]:
  "back_only (set_buf p ac xs s) = back_only s" "back_only (sq_emit e s) = back_only s" "back_only (upd_peer p f s) = back_only s"
  "back_only (s\<lparr>attempts := n\<rparr>) = back_only s" "back_only (s\<lparr>sq_st := st\<rparr>) = back_only s" "back_only (size_inc ac s) = back_only s"
  "back_only (size_dec ac s) = back_only s" "back_only (peer_unlink p ac s) = back_only s"
  by (simp_all add: back_only_def size_inc_def size_dec_def peer_unlink_def)

lemma back_send: "back_only s \<Longrightarrow> back_only (snd (sq_send_one xmit ac p k ks s))"
  by (simp add: sq_send_one_def Let_def release_and_free_def back_release)

interpretation back_kept: sq_kept xmit back_only for xmit
  by unfold_locales (simp_all add: back_send, simp_all add: back_only_def)

lemma back_drain: "back_only s \<Longrightarrow> back_only (drain p ac s)"
proof -
  have "back_only s \<Longrightarrow> back_only (fold (release_and_free p ac) ks s)" for ks s
    by (induction ks arbitrary: s) (simp_all add: release_and_free_def back_release)
  then show "back_only s \<Longrightarrow> back_only (drain p ac s)" by (simp add: drain_def)
qed


section \<open>Runs\<close>

text \<open>
  The calls that reach the queue, in any order and interleaved with multicasts: a multicast is opened, its clones are
  enqueued one by one and it is closed.  The second component of the state holds the open ones.
\<close>
datatype sq_op =
    Enqueue nat bool sq_pkt
  | Clone_begin bool nat nat bool sq_pkt
  | Clone nat bool nat nat
  | Clone_end nat
  | Flush "nat list"
  | Tx_cfm peer_id
  | Cancel_all peer_id
  | Cancel_vap peer_id nat
  | Peer_init nat nat
  | Peer_cleanup nat
  | Set_pm peer_id bool
  | Tx_enable
  | Tx_disable

fun sq_step :: "(nat \<Rightarrow> sq_pkt \<Rightarrow> mtlk_error) \<Rightarrow> sq_op \<Rightarrow> sq \<times> sq_pkt list \<Rightarrow> sq \<times> sq_pkt list" where
  "sq_step xmit (Enqueue ac front k) (s, ms) = (snd (mtlk_sq_enqueue ac front k s), ms)"
| "sq_step xmit (Clone_begin alloc e ac front k) (s, ms) =
     (let (res, k', s') = mtlk_sq_enqueue_clone_begin alloc e ac front k s in (s', if res = MTLK_ERR_OK then k' # ms else ms))"
| "sq_step xmit (Clone j alloc i dst) (s, ms) = (snd (mtlk_sq_enqueue_clone alloc i (ms ! j) dst s), ms)"
| "sq_step xmit (Clone_end j) (s, ms) = (mtlk_sq_enqueue_clone_end (ms ! j) s, take j ms @ drop (Suc j) ms)"
| "sq_step xmit (Flush reqs) (s, ms) = (mtlk_sq_flush xmit reqs s, ms)"
| "sq_step xmit (Tx_cfm p) (s, ms) = (mtlk_sq_on_tx_cfm p s, ms)"
| "sq_step xmit (Cancel_all p) (s, ms) = (mtlk_sq_peer_ctx_cancel_all_packets p s, ms)"
| "sq_step xmit (Cancel_vap p vap) (s, ms) = (mtlk_sq_peer_ctx_cancel_all_packets_for_vap p vap s, ms)"
| "sq_step xmit (Peer_init a lim) (s, ms) = (mtlk_sq_peer_ctx_init (Some a) lim s, ms)"
| "sq_step xmit (Peer_cleanup a) (s, ms) = (mtlk_sq_peer_ctx_cleanup (Some a) s, ms)"
| "sq_step xmit (Set_pm p en) (s, ms) = (upd_peer p (mtlk_sq_set_pm_enabled en) s, ms)"
| "sq_step xmit Tx_enable (s, ms) = (mtlk_sq_tx_enable s, ms)"
| "sq_step xmit Tx_disable (s, ms) = (mtlk_sq_tx_disable s, ms)"

text \<open>
  How the driver uses the queue: only multicast packets that are being cloned carry the multicast flag, objects are fresh
  memory, fewer than \<^term>\<open>u32_max\<close> clones share one, a confirmation follows a transmission, and a new station has no packets.
\<close>
fun sq_valid :: "sq_op \<Rightarrow> sq \<times> sq_pkt list \<Rightarrow> bool" where
  "sq_valid (Enqueue ac front k) (s, ms) = (ac < NTS_PRIORITIES \<and> \<not> rmcast k)"
| "sq_valid (Clone_begin alloc e ac front k) (s, ms) = (ac < NTS_PRIORITIES \<and> rmcast k \<and> extras s e = None)"
| "sq_valid (Clone j alloc i dst) (s, ms) =
     (j < length ms \<and> (case pk_extra (ms ! j) of None \<Rightarrow> True
        | Some e \<Rightarrow> (case extras s e of None \<Rightarrow> True | Some x \<Rightarrow> ex_ref x + 1 < u32_max)))"
| "sq_valid (Clone_end j) (s, ms) = (j < length ms)"
| "sq_valid (Tx_cfm p) (s, ms) = (0 < tx_used (sq_peers s p))"
| "sq_valid (Peer_init a lim) (s, ms) = (lim < u32_max \<and> (\<forall>ac < NTS_PRIORITIES. buf s (Some a) ac = []))"
| "sq_valid _ _ = True"

fun sq_run :: "(nat \<Rightarrow> sq_pkt \<Rightarrow> mtlk_error) \<Rightarrow> sq_op list \<Rightarrow> sq \<times> sq_pkt list \<Rightarrow> (sq \<times> sq_pkt list) option" where
  "sq_run xmit [] st = Some st"
| "sq_run xmit (op # ops) st = (if sq_valid op st then sq_run xmit ops (sq_step xmit op st) else None)"

definition open_casts :: "sq_pkt list \<Rightarrow> (nat \<times> sq_pkt) multiset" where
  "open_casts ms = mset (map (Pair 0) ms)"

definition good :: "(nat \<times> sq_pkt) multiset \<Rightarrow> sq \<Rightarrow> bool" where
  "good H s = (sq_ok s H \<and> nothing_lost s \<and> within_limits s)"

lemma good_flow:
  "good H s \<Longrightarrow> sq_ok s' H' \<Longrightarrow> flow s s' \<Longrightarrow> (\<And>q. lims s' q = lims s q) \<Longrightarrow> good H' s'"
  using flow_lost [of s s'] by (simp add: good_def within_limits_def)

text \<open>An operation on the limits of one peer.\<close>
lemma good_upd:
  assumes "good H s" "\<And>c. buflist (f c) = buflist c" "lims_ok (lims (upd_peer p f s) p)"
  shows "good H (upd_peer p f s)"
proof -
  have "sq_ok (upd_peer p f s) H = sq_ok s H" by (rule sq_ok_cong) (simp_all add: assms(2))
  moreover have "flow s (upd_peer p f s)" by (rule flow_same) (simp_all add: assms(2))
  moreover have "lims_ok (lims (upd_peer p f s) q)" for q
    using assms(1,3) by (cases "q = p") (simp_all add: good_def within_limits_def lims_def upd_peer_def)
  ultimately show ?thesis using assms(1) flow_lost [of s] by (simp add: good_def within_limits_def)
qed

lemma good_enqueue: "good H s \<Longrightarrow> \<not> rmcast k \<Longrightarrow> ac < NTS_PRIORITIES \<Longrightarrow> good H (snd (mtlk_sq_enqueue ac front k s))"
  by (simp add: good_def enqueue_ok enqueue_lost(1) within_limits_def lims_enqueue)

lemma good_clone:
  assumes "good H s" "(a, k) \<in># H" "rmcast k" "pk_extra k = Some e" "extras s e = Some x" "ex_ref x + 1 < u32_max"
  shows "good H (snd (mtlk_sq_enqueue_clone alloc i k dst s))"
  using assms(1) clone_ok [OF _ assms(2-6)] clone_lost(1) [OF assms(4,5)] lims_clone [OF assms(4,5)]
  by (simp add: good_def within_limits_def)

lemma good_flush: "good H s \<Longrightarrow> good H (mtlk_sq_flush xmit reqs s)"
  using flow_lost [OF flow_kept.flush [OF flow_refl]] by (simp add: good_def sq_ok_kept.flush within_kept.flush)

lemma good_cfm:
  assumes "good H s" "0 < tx_used (sq_peers s p)"
  shows "good H (mtlk_sq_on_tx_cfm p s)"
  unfolding mtlk_sq_on_tx_cfm_def
proof (rule good_upd [OF assms(1)])
  have "lims_ok (lims s p)" using assms(1) by (simp add: good_def within_limits_def)
  then show "lims_ok (lims (upd_peer p (\<lambda>c. c\<lparr>tx_used := u32_dec (tx_used c)\<rparr>) s) p)"
    using assms(2) by (auto simp: lims_ok_def lims_def upd_peer_def u32_dec_clones)
qed simp

lemma good_pm:
  assumes "good H s"
  shows "good H (upd_peer p (mtlk_sq_set_pm_enabled en) s)"
proof (rule good_upd [OF assms])
  have "lims_ok (lims s p)" using assms by (simp add: good_def within_limits_def)
  then show "lims_ok (lims (upd_peer p (mtlk_sq_set_pm_enabled en) s) p)"
    by (simp add: lims_ok_def lims_def upd_peer_def mtlk_sq_set_pm_enabled_def)
qed (simp add: mtlk_sq_set_pm_enabled_def)

lemma good_cancel:
  "good H s \<Longrightarrow> good H (mtlk_sq_peer_ctx_cancel_all_packets p s)" "good H s \<Longrightarrow> good H (mtlk_sq_peer_ctx_cleanup p s)"
  using flow_lost [OF cancel_all_flow] flow_lost [OF cleanup_flow]
  by (simp_all add: good_def cancel_all_ok cleanup_ok within_limits_def)

lemma good_cancel_vap: "good H s \<Longrightarrow> good H (mtlk_sq_peer_ctx_cancel_all_packets_for_vap p vap s)"
  by (simp add: good_def cancel_vap_ok cancel_vap_lost within_limits_def)

lemma good_switch: "good H s \<Longrightarrow> good H (mtlk_sq_tx_enable s)" "good H s \<Longrightarrow> good H (mtlk_sq_tx_disable s)"
proof -
  have "sq_ok (s\<lparr>hw_tx_prohibited := b\<rparr>) H = sq_ok s H" "flow s (s\<lparr>hw_tx_prohibited := b\<rparr>)" for b
    by (rule sq_ok_cong; simp add: buf_def) (rule flow_same; simp add: buf_def)
  then show "good H s \<Longrightarrow> good H (mtlk_sq_tx_enable s)" "good H s \<Longrightarrow> good H (mtlk_sq_tx_disable s)"
    using flow_lost by (auto simp: mtlk_sq_tx_enable_def mtlk_sq_tx_disable_def good_def within_limits_def lims_def)
qed

lemma good_init:
  assumes "good H s" "\<forall>ac < NTS_PRIORITIES. buf s p ac = []" "lim < u32_max"
  shows "good H (mtlk_sq_peer_ctx_init p lim s)"
proof -
  let ?s = "mtlk_sq_peer_ctx_init p lim s"
  have "finite_queues s" using assms(1) by (simp add: good_def sq_ok_def)
  then have e: "buf s p a = []" for a
    using assms(2) by (cases "a < NTS_PRIORITIES") (simp_all add: finite_queues_def)
  have b: "buf ?s q a = buf s q a" for q a
    using e [of a] by (auto simp: mtlk_sq_peer_ctx_init_def Let_def buf_def)
  have f: "q_size ?s = q_size s" "extras ?s = extras s" "uaf ?s = uaf s" "sq_log ?s = sq_log s"
    by (simp_all add: mtlk_sq_peer_ctx_init_def Let_def)
  have "sq_ok ?s H = sq_ok s H" "flow s ?s" using sq_ok_cong [of ?s s] flow_same [of ?s s] b f by simp_all
  moreover have "within_limits ?s"
    using assms(1,3) by (auto simp: good_def within_limits_def lims_def lims_ok_def mtlk_sq_peer_ctx_init_def Let_def)
  ultimately show ?thesis using assms(1) flow_lost by (simp add: good_def)
qed

definition run_ok :: "sq \<times> sq_pkt list \<Rightarrow> bool" where
  "run_ok st = (good (open_casts (snd st)) (fst st) \<and> (\<forall>k \<in> set (snd st). rmcast k))"

lemma open_cast_extra:
  assumes "run_ok (s, ms)" "k \<in> set ms"
  obtains e x where "pk_extra k = Some e" "extras s e = Some x"
proof -
  have "books s (all_queued s + open_casts ms)" "rmcast k" using assms by (simp_all add: run_ok_def good_def sq_ok_def)
  moreover have "(0, k) \<in># all_queued s + open_casts ms" using assms(2) by (simp add: open_casts_def)
  ultimately show thesis using books_extra that by blast
qed

lemma step_clone_begin:
  assumes "run_ok (s, ms)" "ac < NTS_PRIORITIES" "rmcast k" "extras s e = None"
  shows "run_ok (sq_step xmit (Clone_begin alloc e ac front k) (s, ms))"
proof -
  have g: "good (open_casts ms) s" "sq_ok s (open_casts ms)" using assms(1) by (simp_all add: run_ok_def good_def)
  obtain res k' s' where r: "mtlk_sq_enqueue_clone_begin alloc e ac front k s = (res, k', s')" by (metis prod_cases3)
  note B = clone_begin_ok [OF g(2) assms(3,4,2) r]
  have "good (if res = MTLK_ERR_OK then add_mset (0, k') (open_casts ms) else open_casts ms) s'"
    by (rule good_flow [OF g(1) B(1,4)]) (simp add: lims_def B(5))
  then show ?thesis using r assms(1) B(2) by (cases "res = MTLK_ERR_OK") (simp_all add: run_ok_def open_casts_def)
qed

lemma step_clone:
  assumes "run_ok (s, ms)" "sq_valid (Clone j alloc i dst) (s, ms)"
  shows "run_ok (sq_step xmit (Clone j alloc i dst) (s, ms))"
proof -
  let ?k = "ms ! j"
  have j: "?k \<in> set ms" "rmcast ?k" "(0, ?k) \<in># open_casts ms" using assms by (auto simp: run_ok_def open_casts_def)
  obtain e x where e: "pk_extra ?k = Some e" "extras s e = Some x" using open_cast_extra [OF assms(1) j(1)] .
  then have "ex_ref x + 1 < u32_max" using assms(2) by simp
  from good_clone [OF _ j(3,2) e this] show ?thesis using assms(1) by (simp add: run_ok_def)
qed

lemma step_clone_end:
  assumes "run_ok (s, ms)" "j < length ms"
  shows "run_ok (sq_step xmit (Clone_end j) (s, ms))"
proof -
  let ?r = "take j ms @ drop (Suc j) ms"
  have g: "good (open_casts ms) s" "rmcast (ms ! j)" using assms by (simp_all add: run_ok_def)
  have "mset ms = add_mset (ms ! j) (mset ?r)"
    using id_take_nth_drop [OF assms(2)] by (metis mset.simps(2) mset_append union_mset_add_mset_right)
  then have "open_casts ms = add_mset (0, ms ! j) (open_casts ?r)" by (simp add: open_casts_def)
  then have "sq_ok (mtlk_sq_enqueue_clone_end (ms ! j) s) (open_casts ?r)"
    using clone_end_ok [of s 0] g by (simp add: good_def)
  moreover have "flow s (mtlk_sq_enqueue_clone_end (ms ! j) s)" by (rule flow_same) simp_all
  ultimately have "good (open_casts ?r) (mtlk_sq_enqueue_clone_end (ms ! j) s)" by (rule good_flow [OF g(1)]) simp
  then show ?thesis using assms(1) by (auto simp: run_ok_def dest: in_set_takeD in_set_dropD)
qed

lemma sq_step_ok:
  assumes "run_ok (s, ms)" "sq_valid op (s, ms)"
  shows "run_ok (sq_step xmit op (s, ms))"
proof (cases op)
  case (Clone_begin alloc e ac front k)
  then show ?thesis using step_clone_begin [OF assms(1)] assms(2) by simp
next
  case (Clone j alloc i dst)
  then show ?thesis using step_clone [OF assms(1)] assms(2) by blast
next
  case (Clone_end j)
  then show ?thesis using step_clone_end [OF assms(1)] assms(2) by simp
qed (use assms in \<open>simp_all add: run_ok_def good_enqueue good_flush good_cfm good_cancel good_cancel_vap good_init good_pm good_switch\<close>)

lemma sq_run_ok: "run_ok st \<Longrightarrow> sq_run xmit ops st = Some st' \<Longrightarrow> run_ok st'"
proof (induction ops arbitrary: st)
  case (Cons op ops)
  then show ?case using sq_step_ok [of "fst st" "snd st" op xmit] by (auto split: if_splits)
qed simp

lemma empty_run_ok: "run_ok (sq_init, [])"
proof -
  have b: "buf sq_init p ac = []" for p ac
    by (simp add: sq_init_def mtlk_sq_init_def mtlk_sq_peer_ctx_init_def empty_sq_def buf_def)
  have "all_queued sq_init = {#}" by (simp add: all_queued_def queued_def b)
  moreover have "books sq_init {#}"
    by (simp add: books_def extras_of_def plain_count_def sq_init_def mtlk_sq_init_def mtlk_sq_peer_ctx_init_def empty_sq_def)
  moreover have "finite_queues sq_init" by (simp add: finite_queues_def b)
  moreover have "nothing_lost sq_init"
    by (simp add: nothing_lost_def b) (simp add: gone_def pushed_def sq_init_def mtlk_sq_init_def mtlk_sq_peer_ctx_init_def empty_sq_def)
  moreover have "within_limits sq_init"
    by (simp add: within_limits_def lims_def lims_ok_def sq_init_def mtlk_sq_init_def mtlk_sq_peer_ctx_init_def empty_sq_def
        MTLK_SQ_TX_LIMIT_DEFAULT_def u32_max_def)
  ultimately show ?thesis by (simp add: run_ok_def good_def sq_ok_def open_casts_def)
qed

text \<open>Runs that insert at the back only and do not cancel the packets of one VAP.\<close>
fun keeps_order :: "sq_op \<Rightarrow> bool" where
  "keeps_order (Enqueue ac front k) = (\<not> snd (mtlk_sq_switch_if_urgent k (ac, front)))"
| "keeps_order (Clone_begin alloc e ac front k) = (\<not> snd (mtlk_sq_switch_if_urgent k (ac, front)))"
| "keeps_order (Cancel_vap p vap) = False"
| "keeps_order _ = True"

definition order_ok :: "sq \<Rightarrow> bool" where
  "order_ok s = (in_order_of_acceptance s \<and> back_only s)"

lemma order_flow: "order_ok s \<Longrightarrow> flow s s' \<Longrightarrow> back_only s' \<Longrightarrow> order_ok s'"
  using flow_order by (auto simp: order_ok_def)

lemma back_enqueue_pkt: "mtlk_sq_enqueue_pkt p k ac front s = (res, s') \<Longrightarrow> back_only s' = back_only s"
  by (auto simp: mtlk_sq_enqueue_pkt_def split: if_splits)

lemma order_enqueue:
  assumes "order_ok s" "\<not> snd (mtlk_sq_switch_if_urgent k (ac, front))"
  shows "order_ok (snd (mtlk_sq_enqueue ac front k s))"
proof -
  obtain a f where af: "mtlk_sq_switch_if_urgent k (ac, front) = (a, f)" by fastforce
  obtain res s' where r: "mtlk_sq_enqueue_pkt (pk_dst k) k a f (size_inc a s) = (res, s')" by fastforce
  have "back_only (snd (mtlk_sq_enqueue ac front k s))"
    using assms(1) af r back_enqueue_pkt [OF r] by (simp add: mtlk_sq_enqueue_def mtlk_xmit_sq_enqueue_def order_ok_def)
  then show ?thesis using assms enqueue_lost(2) by (simp add: order_ok_def)
qed

lemma order_clone:
  assumes "order_ok s" "pk_extra k = Some e" "extras s e = Some x"
  shows "order_ok (snd (mtlk_sq_enqueue_clone alloc i k dst s))"
proof -
  have x: "\<not> ex_front x" using assms by (simp add: order_ok_def back_only_def)
  have "back_only (snd (mtlk_sq_enqueue_clone alloc i k dst s))"
    using assms(2,3)
  proof (cases rule: enqueue_clone_cases [where alloc = alloc and i = i and dst = dst])
    case (tried c s1 res s2)
    have "back_only s1" using assms(1) x tried(3) by (simp add: order_ok_def back_only_def)
    then show ?thesis using tried(5) back_enqueue_pkt [OF tried(4)] by (simp add: back_release)
  qed (use assms(1) in \<open>simp add: order_ok_def\<close>)
  then show ?thesis using assms clone_lost(2) [OF assms(2,3) x] by (simp add: order_ok_def)
qed

lemma order_begin:
  assumes "order_ok s" "mtlk_sq_enqueue_clone_begin alloc e ac front k s = (res, k', s')"
    and "\<not> snd (mtlk_sq_switch_if_urgent k (ac, front))"
  shows "order_ok s'"
proof -
  obtain b f where bf: "mtlk_sq_switch_if_urgent k (ac, front) = (b, f)" by fastforce
  have S: "s' = (if alloc then size_inc b (s\<lparr>extras := (extras s)(e \<mapsto> \<lparr>ex_ref = 1, ex_ac = b, ex_front = f\<rparr>)\<rparr>) else s)"
    using assms(2) bf by (simp add: mtlk_sq_enqueue_clone_begin_def mtlk_nbuf_priv_extra_create_and_attach_def split: if_splits)
  have "flow s s'" unfolding S by (rule flow_same) simp_all
  moreover have "back_only (s\<lparr>extras := (extras s)(e \<mapsto> \<lparr>ex_ref = 1, ex_ac = b, ex_front = f\<rparr>)\<rparr>)"
    using assms(1,3) bf unfolding order_ok_def back_only_def by simp
  then have "back_only s'" using assms(1) unfolding S order_ok_def by simp
  ultimately show ?thesis by (rule order_flow [OF assms(1)])
qed

lemma order_same:
  assumes "order_ok s" "\<And>p a. buf s' p a = buf s p a" "sq_log s' = sq_log s" "extras s' = extras s"
  shows "order_ok s'"
  using order_flow [OF assms(1) flow_same [OF assms(2,3)]] assms(1,4) by (simp add: order_ok_def back_only_def)

lemma order_switches:
  assumes "order_ok s"
  shows "order_ok (mtlk_sq_on_tx_cfm p s)" "order_ok (upd_peer p (mtlk_sq_set_pm_enabled en) s)"
    "order_ok (mtlk_sq_tx_enable s)" "order_ok (mtlk_sq_tx_disable s)"
  by (rule order_same [OF assms];
      simp add: mtlk_sq_on_tx_cfm_def mtlk_sq_set_pm_enabled_def mtlk_sq_tx_enable_def mtlk_sq_tx_disable_def buf_def upd_peer_def)+

lemma order_cancel:
  assumes "order_ok s"
  shows "order_ok (mtlk_sq_peer_ctx_cancel_all_packets p s)" "order_ok (mtlk_sq_peer_ctx_cleanup p s)"
    "order_ok (mtlk_sq_enqueue_clone_end k s)" "order_ok (mtlk_sq_flush xmit reqs s)"
proof -
  have b: "back_only s" using assms by (simp add: order_ok_def)
  show "order_ok (mtlk_sq_peer_ctx_cancel_all_packets p s)"
    using order_flow [OF assms cancel_all_flow] b by (simp add: mtlk_sq_peer_ctx_cancel_all_packets_def upt_prios back_drain)
  show "order_ok (mtlk_sq_peer_ctx_cleanup p s)"
    using order_flow [OF assms cleanup_flow] b by (simp add: mtlk_sq_peer_ctx_cleanup_def upt_prios back_drain)
  have "flow s (mtlk_sq_enqueue_clone_end k s)" by (rule flow_same) simp_all
  then show "order_ok (mtlk_sq_enqueue_clone_end k s)" using order_flow [OF assms] back_release(2) [OF b] by blast
  show "order_ok (mtlk_sq_flush xmit reqs s)"
    using order_flow [OF assms flow_kept.flush [OF flow_refl]] back_kept.flush [OF b] by blast
qed

lemma order_init:
  assumes "order_ok s" "run_ok (s, ms)" "\<forall>ac < NTS_PRIORITIES. buf s p ac = []"
  shows "order_ok (mtlk_sq_peer_ctx_init p lim s)"
proof (rule order_same [OF assms(1)])
  fix q a
  have "finite_queues s" using assms(2) by (simp add: run_ok_def good_def sq_ok_def)
  then have "buf s p a = []" using assms(3) by (cases "a < NTS_PRIORITIES") (simp_all add: finite_queues_def)
  then show "buf (mtlk_sq_peer_ctx_init p lim s) q a = buf s q a" by (auto simp: mtlk_sq_peer_ctx_init_def Let_def buf_def)
qed (simp_all add: mtlk_sq_peer_ctx_init_def Let_def)

lemma order_step:
  assumes "run_ok (s, ms)" "order_ok s" "sq_valid op (s, ms)" "keeps_order op"
  shows "order_ok (fst (sq_step xmit op (s, ms)))"
proof (cases op)
  case (Clone_begin alloc e ac front k)
  obtain res k' s' where r: "mtlk_sq_enqueue_clone_begin alloc e ac front k s = (res, k', s')" by (metis prod_cases3)
  then show ?thesis using order_begin [OF assms(2) r] assms(4) Clone_begin by simp
next
  case (Clone j alloc i dst)
  then have "ms ! j \<in> set ms" using assms(3) by simp
  then obtain e x where "pk_extra (ms ! j) = Some e" "extras s e = Some x" using open_cast_extra [OF assms(1)] by blast
  from order_clone [OF assms(2) this] show ?thesis using Clone by simp
next
  case (Peer_init a lim)
  then show ?thesis using order_init [OF assms(2,1)] assms(3) by simp
qed (use assms in \<open>simp_all add: order_enqueue order_switches order_cancel\<close>)

lemma order_run:
  "run_ok st \<Longrightarrow> order_ok (fst st) \<Longrightarrow> sq_run xmit ops st = Some st' \<Longrightarrow> \<forall>op \<in> set ops. keeps_order op \<Longrightarrow> order_ok (fst st')"
proof (induction ops arbitrary: st)
  case (Cons op ops)
  then show ?case
    using sq_step_ok [of "fst st" "snd st" op xmit] order_step [of "fst st" "snd st" op xmit] by (auto split: if_splits)
qed simp

lemma empty_order: "order_ok sq_init"
  by (simp add: order_ok_def in_order_of_acceptance_def back_only_def gone_def pushed_def buf_def sq_init_def mtlk_sq_init_def
      mtlk_sq_peer_ctx_init_def empty_sq_def)

text \<open>
  C30: The send queue keeps its books in every run of enqueueings, multicasts, flushes, confirmations, cancellations and
  changes of peers, whatever the hardware answers.  Every packet accepted into a queue is still there, was taken by
  the hardware or was freed, and none is lost or duplicated; if no urgent packet was put in front and the packets of no VAP were cancelled, packets leave a queue in the order of
  their acceptance.  Once no multicast is open, the size counter of a category is the
  number of its plain packets plus the number of its multicasts that still have a clone queued, and a shared object lives exactly as long as a clone is queued.
  A shared object is never used after it was freed, and the hardware
  never holds more packets of a peer than its configured limit (the lower limit of power save is not meant).
\<close>
theorem sq_keeps_its_books:
  assumes "sq_run xmit ops (sq_init, []) = Some (s, ms)"
  shows "(\<forall>p ac. mset (gone p ac s) + mset (buf s p ac) = mset (pushed p ac s))
    \<and> ((\<forall>op \<in> set ops. keeps_order op) \<longrightarrow> (\<forall>p ac. gone p ac s @ buf s p ac = pushed p ac s))
    \<and> (ms = [] \<longrightarrow> (\<forall>ac < NTS_PRIORITIES. q_size s ac = (plain_count ac (all_queued s) + card (extras_of ac s)) mod u32_max))
    \<and> (ms = [] \<longrightarrow> (\<forall>e. extras s e \<noteq> None \<longleftrightarrow> 0 < clone_count e (all_queued s)))
    \<and> \<not> uaf s
    \<and> (\<forall>p. tx_used (sq_peers s p) \<le> limit_cfg (sq_peers s p))"
proof -
  have "run_ok (s, ms)" using sq_run_ok [OF empty_run_ok assms] .
  then have G: "nothing_lost s" "within_limits s" "books s (all_queued s + open_casts ms)"
    by (simp_all add: run_ok_def good_def sq_ok_def)
  have "order_ok s" if "\<forall>op \<in> set ops. keeps_order op"
    using order_run [OF empty_run_ok _ assms that] empty_order by simp
  then have ord: "(\<forall>op \<in> set ops. keeps_order op) \<longrightarrow> (\<forall>p ac. gone p ac s @ buf s p ac = pushed p ac s)"
    by (simp add: order_ok_def in_order_of_acceptance_def)
  have lim: "\<forall>p. tx_used (sq_peers s p) \<le> limit_cfg (sq_peers s p)"
    using G(2) by (simp add: within_limits_def lims_def lims_ok_def)
  have B: "books s (all_queued s)" if "ms = []" using G(3) that by (simp add: open_casts_def)
  then have "ms = [] \<longrightarrow> (\<forall>ac < NTS_PRIORITIES. q_size s ac = (plain_count ac (all_queued s) + card (extras_of ac s)) mod u32_max)"
    unfolding books_def by blast
  moreover have "extras s e \<noteq> None \<longleftrightarrow> 0 < clone_count e (all_queued s)" if "ms = []" for e
    using B [OF that] clone_count_0 [of e "all_queued s"] unfolding books_def by (metis neq0_conv not_None_eq option.inject)
  moreover have "\<not> uaf s" using G(3) by (simp add: books_def)
  ultimately show ?thesis using G(1) ord lim unfolding nothing_lost_def by blast
qed

lemmas sq_eval = sq_init_def mtlk_sq_init_def mtlk_sq_peer_ctx_init_def empty_sq_def buf_def MTLK_SQ_TX_LIMIT_DEFAULT_def u32_max_def
  rmcast_def MTLK_NBUFF_RMCAST_def MTLK_NBUFF_URGENT_def ac_defs mtlk_sq_enqueue_def mtlk_sq_switch_if_urgent_def mtlk_xmit_sq_enqueue_def
  mtlk_sq_enqueue_pkt_def size_inc_def size_dec_def u32_inc_def u32_dec_def set_buf_def upd_peer_def sq_emit_def stat_inc_def zero_sq_stats_def
  mtlk_sq_enqueue_clone_begin_def mtlk_nbuf_priv_extra_create_and_attach_def mtlk_sq_enqueue_clone_def mtlk_nbuf_priv_extra_attach_def
  with_extra_def mtlk_sq_enqueue_clone_end_def extra_detach_def

definition ex_pkt_to :: "nat \<Rightarrow> nat \<Rightarrow> sq_pkt" where
  "ex_pkt_to i dst = \<lparr>pk_id = i, pk_flags = 0x0002, pk_vap = 0, pk_dst = Some dst, pk_extra = None\<rparr>"

definition ex_cast :: sq_pkt where
  "ex_cast = \<lparr>pk_id = 9, pk_flags = 0x0044, pk_vap = 0, pk_dst = None, pk_extra = None\<rparr>"

definition ex_ops :: "sq_op list" where
  "ex_ops = [Peer_init 1 64, Enqueue 0 False (ex_pkt_to 5 1), Enqueue 0 False (ex_pkt_to 6 1),
     Clone_begin True 0 0 False ex_cast, Clone 0 True 10 1, Clone_end 0]"

theorem sq_keeps_its_books_witness:
  "\<exists>s. sq_run (\<lambda>_ _. MTLK_ERR_OK) ex_ops (sq_init, []) = Some (s, []) \<and> \<not> uaf s \<and> map pk_id (buf s (Some 1) 0) = [5, 6, 10] \<and> q_size s 0 = 3"
proof -
  have r: "map_option (\<lambda>(s, ms). (ms, map pk_id (buf s (Some 1) 0), q_size s 0)) (sq_run (\<lambda>_ _. MTLK_ERR_OK) ex_ops (sq_init, []))
      = Some ([], [5, 6, 10], 3)"
    by (simp add: ex_ops_def ex_pkt_to_def ex_cast_def sq_eval)
  then obtain s where s: "sq_run (\<lambda>_ _. MTLK_ERR_OK) ex_ops (sq_init, []) = Some (s, [])" "map pk_id (buf s (Some 1) 0) = [5, 6, 10]" "q_size s 0 = 3"
    by (auto simp: map_option_case split: option.splits)
  from sq_keeps_its_books [OF s(1)] have "\<not> uaf s" by blast
  then show ?thesis using s by (intro exI [of _ s]) simp
qed

end
