(* ===== verification/Sq_Flush.thy ===== *)
theory Sq_Flush
  imports Sq_Inv
begin

text \<open>
  What a flush of the send queue achieves, and what two concurrent flushes can miss.
\<close>

section \<open>A flush serves the peers in turn\<close>

text \<open>
  In the order \<open>l\<close> of the peers, the queues are empty up to the first peer that may not send more.
\<close>
definition served :: "sq \<Rightarrow> peer_id list \<Rightarrow> nat \<Rightarrow> bool" where
  "served s l ac = (\<forall>p. find (\<lambda>q. buf s q ac \<noteq> []) l = Some p \<longrightarrow> tx_limit (sq_peers s p) \<le> tx_used (sq_peers s p))"

definition accepting :: "(nat \<Rightarrow> sq_pkt \<Rightarrow> mtlk_error) \<Rightarrow> bool" where
  "accepting xmit = (\<forall>n k. xmit n k = MTLK_ERR_OK)"

lemma pass_idle:
  "sq_pass xmit ac ps n s = (Pass_done n, s') \<Longrightarrow> s' = s \<and> served s ps ac"
proof (induction xmit ac ps n s arbitrary: s' rule: sq_pass.induct)
  case (2 xmit ac p ps n s)
  show ?case
  proof (cases "buf s p ac")
    case Nil
    then have "sq_pass xmit ac ps n s = (Pass_done n, s')" using 2(3) by simp
    from 2(1) [OF Nil this] show ?thesis using Nil by (auto simp: served_def)
  next
    case (Cons k ks)
    show ?thesis
    proof (cases "tx_limit (sq_peers s p) \<le> tx_used (sq_peers s p)")
      case True
      then show ?thesis using 2(3) Cons by (auto simp: served_def)
    next
      case False
      then show ?thesis
        using 2(3) Cons by (auto split: prod.splits option.splits dest!: sq_pass_progress)
    qed
  qed
qed (simp add: served_def)

lemma send_one_err: "sq_send_one xmit ac p k ks s = (Some e, s') \<Longrightarrow> e \<noteq> MTLK_ERR_OK"
  by (auto simp: sq_send_one_def Let_def split: if_splits)

lemma pass_return_err: "sq_pass xmit ac ps n s = (Pass_return e, s') \<Longrightarrow> e \<noteq> MTLK_ERR_OK"
  by (induction xmit ac ps n s arbitrary: s' rule: sq_pass.induct)
    (auto split: list.splits if_splits prod.splits option.splits dest: send_one_err)

lemma process_served:
  "process_packets_by_ac xmit ac s = (MTLK_ERR_OK, s') \<Longrightarrow> peer_list s' ac = dlist_shift (peer_list s ac) \<and> served s' (peer_list s ac) ac"
proof (induction "pending ac s" arbitrary: s rule: less_induct)
  case less
  obtain r s1 where r: "sq_pass xmit ac (peer_list s ac) 0 s = (r, s1)" by fastforce
  have pl: "peer_list s1 = peer_list s" using sq_pass_bufs [OF r] by blast
  show ?case
  proof (cases r)
    case (Pass_done n)
    show ?thesis
    proof (cases "n = 0")
      case True
      then have "s1 = s" "served s (peer_list s ac) ac" using pass_idle [of xmit ac "peer_list s ac" 0 s s1] r Pass_done by auto
      then show ?thesis
        using less.prems r Pass_done True by (subst (asm) process_packets_by_ac.simps) (auto simp: served_def buf_def)
    next
      case False
      have "pending ac s1 < pending ac s" using sq_pass_pending r Pass_done False by blast
      moreover have "process_packets_by_ac xmit ac s1 = (MTLK_ERR_OK, s')"
        using less.prems r Pass_done False by (subst (asm) process_packets_by_ac.simps) simp
      ultimately show ?thesis using less.hyps [of s1] pl by simp
    qed
  next
    case (Pass_return e)
    then have "e \<noteq> MTLK_ERR_OK" using r pass_return_err by blast
    then show ?thesis using less.prems r Pass_return by (subst (asm) process_packets_by_ac.simps) simp
  qed
qed


lemma send_one_accepted:
  assumes "accepting xmit" "\<not> hw_tx_prohibited s"
  shows "fst (sq_send_one xmit ac p k ks s) = None" "\<not> hw_tx_prohibited (snd (sq_send_one xmit ac p k ks s))"
  using assms by (simp_all add: sq_send_one_def accepting_def Let_def set_buf_def upd_peer_def sq_emit_def)

lemma pass_accepted:
  "accepting xmit \<Longrightarrow> \<not> hw_tx_prohibited s \<Longrightarrow> (\<exists>m. fst (sq_pass xmit ac ps n s) = Pass_done m) \<and> \<not> hw_tx_prohibited (snd (sq_pass xmit ac ps n s))"
proof (induction ps arbitrary: n s)
  case (Cons p ps)
  show ?case
  proof (cases "buf s p ac")
    case L: (Cons k ks)
    obtain v s1 where v: "sq_send_one xmit ac p k ks s = (v, s1)" by fastforce
    have "v = None" "\<not> hw_tx_prohibited s1" using send_one_accepted [OF Cons.prems, of ac p k ks] v by simp_all
    then show ?thesis using Cons.IH [OF Cons.prems(1)] Cons.prems(2) L v by simp
  qed (use Cons in simp)
qed simp

lemma process_accepted:
  "accepting xmit \<Longrightarrow> \<not> hw_tx_prohibited s \<Longrightarrow> fst (process_packets_by_ac xmit ac s) = MTLK_ERR_OK
    \<and> \<not> hw_tx_prohibited (snd (process_packets_by_ac xmit ac s))"
proof (induction "pending ac s" arbitrary: s rule: less_induct)
  case less
  obtain r s1 where r: "sq_pass xmit ac (peer_list s ac) 0 s = (r, s1)" by fastforce
  obtain m where m: "r = Pass_done m" "\<not> hw_tx_prohibited s1" using pass_accepted [OF less.prems] r by (metis fst_conv snd_conv)
  show ?case
  proof (cases "m = 0")
    case True
    then show ?thesis using r m by (subst (1 2) process_packets_by_ac.simps) simp
  next
    case False
    then have "pending ac s1 < pending ac s" using sq_pass_pending r m(1) by blast
    from less.hyps [OF this less.prems(1) m(2)] show ?thesis
      using r m False by (subst (1 2) process_packets_by_ac.simps) simp
  qed
qed

lemma process_other:
  "a \<noteq> ac \<Longrightarrow> (\<forall>p. buf (snd (process_packets_by_ac xmit ac s)) p a = buf s p a) \<and> peer_list (snd (process_packets_by_ac xmit ac s)) a = peer_list s a"
proof (induction "pending ac s" arbitrary: s rule: less_induct)
  case less
  obtain r s1 where r: "sq_pass xmit ac (peer_list s ac) 0 s = (r, s1)" by fastforce
  have B: "peer_list s1 = peer_list s" "\<forall>p. buf s1 p a = buf s p a" using sq_pass_bufs [OF r] less.prems by auto
  show ?case
  proof (cases r)
    case (Pass_done n)
    show ?thesis
    proof (cases "n = 0")
      case True
      then show ?thesis using r Pass_done B less.prems by (subst (1 2) process_packets_by_ac.simps) (simp add: buf_def)
    next
      case False
      then have "pending ac s1 < pending ac s" using sq_pass_pending r Pass_done by blast
      from less.hyps [OF this less.prems] show ?thesis
        using r Pass_done False B by (subst (1 2) process_packets_by_ac.simps) simp
    qed
  next
    case (Pass_return e)
    then show ?thesis using r B by (subst (1 2) process_packets_by_ac.simps) simp
  qed
qed

interpretation saturated_kept: sq_kept xmit "\<lambda>s. tx_limit (sq_peers s p) \<le> tx_used (sq_peers s p)" for xmit p
proof (unfold_locales, goal_cases)
  case (1 s ac q k ks)
  then have "p \<noteq> q" by auto
  then have "sq_peers (snd (sq_send_one xmit ac q k ks s)) p = sq_peers s p"
    by (simp add: sq_send_one_def Let_def set_buf_def upd_peer_def sq_emit_def release_and_free_def)
  then show ?case using 1(1) by simp
qed simp_all

lemma process_keeps_served:
  assumes "served s l a" "a \<noteq> ac" "ac < NTS_PRIORITIES"
  shows "served (snd (process_packets_by_ac xmit ac s)) l a"
  using assms(1) process_other [OF assms(2), of xmit s] saturated_kept.process [OF _ assms(3), of s]
  by (simp add: served_def)

lemma acs_keep_served:
  assumes "served s l a \<and> peer_list s a = dlist_shift l" "\<forall>i < n. mtlk_get_ac_by_number i \<noteq> a"
  shows "served (flush_acs xmit n s) l a \<and> peer_list (flush_acs xmit n s) a = dlist_shift l"
  using assms
proof (induction n arbitrary: s)
  case (Suc n)
  let ?s = "snd (process_packets_by_ac xmit (mtlk_get_ac_by_number n) s)"
  have "served ?s l a \<and> peer_list ?s a = dlist_shift l"
    using process_keeps_served [of s l a "mtlk_get_ac_by_number n" xmit] process_other [of a "mtlk_get_ac_by_number n" xmit s]
      Suc.prems ac_by_number_less [of n] by auto
  then show ?case using Suc.IH [of ?s] Suc.prems(2) by (simp add: split_def Let_def)
qed simp

lemma acs_served:
  "accepting xmit \<Longrightarrow> \<not> hw_tx_prohibited s \<Longrightarrow> n \<le> 4 \<Longrightarrow> i < n
    \<Longrightarrow> \<exists>l. served (flush_acs xmit n s) l (mtlk_get_ac_by_number i) \<and> peer_list (flush_acs xmit n s) (mtlk_get_ac_by_number i) = dlist_shift l"
proof (induction n arbitrary: s)
  case (Suc n)
  let ?ac = "mtlk_get_ac_by_number n"
  obtain s1 where s1: "process_packets_by_ac xmit ?ac s = (MTLK_ERR_OK, s1)" "\<not> hw_tx_prohibited s1"
    using process_accepted [OF Suc.prems(1,2), of ?ac] by (metis prod.collapse)
  have F: "flush_acs xmit (Suc n) s = flush_acs xmit n s1" using s1(1) by simp
  show ?case
  proof (cases "i = n")
    case True
    have "\<forall>j < n. mtlk_get_ac_by_number j \<noteq> ?ac"
      using Suc.prems(3) by (auto simp: mtlk_get_ac_by_number_def ac_defs nth_Cons' split: if_splits)
    then show ?thesis
      using acs_keep_served [of s1 "peer_list s ?ac" ?ac n xmit] process_served [OF s1(1)] F True by auto
  next
    case False
    then show ?thesis using Suc.IH [OF Suc.prems(1) s1(2)] Suc.prems(3,4) F by simp
  qed
qed simp


lemma prohibited_kept: "hw_tx_prohibited (snd (sq_send_one xmit ac p k ks s)) = hw_tx_prohibited s"
  by (simp add: sq_send_one_def Let_def set_buf_def upd_peer_def sq_emit_def release_and_free_def)

interpretation enabled_kept: sq_kept xmit "\<lambda>s. \<not> hw_tx_prohibited s" for xmit
  by unfold_locales (simp_all add: prohibited_kept)

lemma served_flags [simp]:
  "served (s\<lparr>flush_in_progress := b\<rparr>) l ac = served s l ac" "served (s\<lparr>flush_count := c\<rparr>) l ac = served s l ac"
  by (simp_all add: served_def buf_def)

lemma ac_by_number_surj:
  assumes "ac < NTS_PRIORITIES"
  shows "\<exists>i < 4. mtlk_get_ac_by_number i = ac"
proof -
  have "ac \<in> {0, 1, 2, 3}" using assms by (auto simp: ac_defs)
  then show ?thesis unfolding mtlk_get_ac_by_number_def
    by (auto simp: ac_defs intro: exI [of _ "0 :: nat"] exI [of _ "1 :: nat"] exI [of _ "2 :: nat"] exI [of _ "3 :: nat"])
qed

lemma round_served:
  assumes "accepting xmit" "\<not> hw_tx_prohibited s" "ac < NTS_PRIORITIES"
  shows "\<exists>l. served (flush_acs xmit NTS_PRIORITIES (s\<lparr>flush_in_progress := True\<rparr>)) l ac
    \<and> peer_list (flush_acs xmit NTS_PRIORITIES (s\<lparr>flush_in_progress := True\<rparr>)) ac = dlist_shift l"
proof -
  obtain i where i: "i < NTS_PRIORITIES" "mtlk_get_ac_by_number i = ac" using ac_by_number_surj [OF assms(3)] by (auto simp: ac_defs)
  show ?thesis using acs_served [OF assms(1), of "s\<lparr>flush_in_progress := True\<rparr>" NTS_PRIORITIES i] assms(2) i by (simp add: ac_defs(6))
qed

text \<open>
  C31: A flush ends and sends all it may.  When the hardware accepts every packet and transmission is not prohibited, then
  after a flush, in every access category, in the order in which the peers were visited, the queues are empty up to the
  first peer that has packets, and that peer has reached its limit of packets in the hardware; the list of the peers was
  rotated for the next flush.  A peer at its limit holds up the peers behind it until then.
\<close>
theorem sq_flush_serves_all_it_may:
  assumes "\<forall>n k. xmit n k = MTLK_ERR_OK" "\<not> hw_tx_prohibited s" "\<not> flush_in_progress s" "ac < NTS_PRIORITIES"
  shows "\<exists>l. peer_list (mtlk_sq_flush xmit reqs s) ac = dlist_shift l
    \<and> (\<forall>p. find (\<lambda>q. buf (mtlk_sq_flush xmit reqs s) q ac \<noteq> []) l = Some p
         \<longrightarrow> tx_limit (sq_peers (mtlk_sq_flush xmit reqs s) p) \<le> tx_used (sq_peers (mtlk_sq_flush xmit reqs s) p))"
proof -
  have a: "accepting xmit" using assms(1) by (simp add: accepting_def)
  have "\<not> hw_tx_prohibited t \<Longrightarrow> \<exists>l. served (flush_loop xmit reqs t) l ac \<and> peer_list (flush_loop xmit reqs t) ac = dlist_shift l" for t
  proof (induction reqs arbitrary: t)
    case Nil
    then show ?case using round_served [OF a Nil assms(4)] by simp
  next
    case (Cons r reqs)
    let ?s1 = "flush_acs xmit NTS_PRIORITIES (t\<lparr>flush_in_progress := True\<rparr>)"
    have "\<not> hw_tx_prohibited ?s1" using enabled_kept.acs [of "t\<lparr>flush_in_progress := True\<rparr>" NTS_PRIORITIES] Cons.prems by simp
    then show ?case
      using Cons.IH [of "?s1\<lparr>flush_count := (flush_count ?s1 + r) mod u32_max, flush_in_progress := False\<rparr>"] round_served [OF a Cons.prems assms(4)]
      by (simp add: Let_def)
  qed
  from this [of "s\<lparr>flush_in_progress := True\<rparr>"] show ?thesis
    using assms(2,3) by (auto simp: mtlk_sq_flush_def served_def)
qed

definition ex_two_peers :: sq where
  "ex_two_peers = set_buf (Some 2) 0 [ex_pkt_to 8 2] (set_buf (Some 1) 0 [ex_pkt_to 7 1]
     (mtlk_sq_peer_ctx_init (Some 1) 0 (mtlk_sq_peer_ctx_init (Some 2) 64 sq_init)))"

theorem sq_flush_serves_all_it_may_witness:
  "\<exists>l. peer_list (mtlk_sq_flush (\<lambda>_ _. MTLK_ERR_OK) [] ex_two_peers) 0 = dlist_shift l
    \<and> (\<forall>p. find (\<lambda>q. buf (mtlk_sq_flush (\<lambda>_ _. MTLK_ERR_OK) [] ex_two_peers) q 0 \<noteq> []) l = Some p
         \<longrightarrow> tx_limit (sq_peers (mtlk_sq_flush (\<lambda>_ _. MTLK_ERR_OK) [] ex_two_peers) p)
           \<le> tx_used (sq_peers (mtlk_sq_flush (\<lambda>_ _. MTLK_ERR_OK) [] ex_two_peers) p))"
proof (rule sq_flush_serves_all_it_may)
  show "\<not> hw_tx_prohibited ex_two_peers" "\<not> flush_in_progress ex_two_peers" "0 < NTS_PRIORITIES"
    by (simp_all add: ex_two_peers_def sq_eval)
qed simp

end
