(* ===== verification/Rx_Path.thy ===== *)
theory Rx_Path
  imports Qos
begin

text \<open>
  The last stage of the data receive path, \<^verbatim>\<open>driver/linux/core.c\<close>: replay detection against the
  48-bit TKIP/CCMP packet number (\<^verbatim>\<open>get_cipher\<close>, \<^verbatim>\<open>parse_and_get_replay_counter\<close>,
  \<^verbatim>\<open>detect_replay\<close>), hand-over to the OS or to forwarding (\<^verbatim>\<open>send_up\<close>), and their composition
  \<^verbatim>\<open>mtlk_detect_replay_or_sendup\<close>.  What leaves the core (indication to the OS, transmission of a
  clone, release of a buffer, notification of a MIC failure, per-station accounting, the bridging
  hooks of the L2NAT and multicast modules) is appended to \<open>core_log\<close> in program order.
\<close>

section \<open>The core's state\<close>

datatype mic_fail_type = MIC_FAIL_PAIRWISE | MIC_FAIL_GROUP

datatype core_cnt_id =
    MTLK_CORE_CNT_MULTICAST_REPLAYED_PACKETS
  | MTLK_CORE_CNT_UNICAST_REPLAYED_PACKETS
  | MTLK_CORE_CNT_PAIRWISE_MIC_FAILURE_PACKETS
  | MTLK_CORE_CNT_GROUP_MIC_FAILURE_PACKETS
  | MTLK_CORE_CNT_TX_PACKETS_DISCARDED_DRV_ACM

datatype bridge_mode = BR_MODE_NONE | BR_MODE_WDS | BR_MODE_L2NAT | BR_MODE_MAC_CLONING

datatype rx_event =
    Sta_rx_packet_forwarded "sta_entry option" mtlk_nbuf
  | Sta_packet_dropped_acm sta_entry
  | Mc_transmit_clone mtlk_nbuf
  | Mc_restore_mac mtlk_nbuf
  | Mac_cloning_set_da mtlk_nbuf
  | L2nat_on_rx mtlk_nbuf
  | Sta_packet_indicated "sta_entry option" mtlk_nbuf
  | Indicate_rx_data mtlk_nbuf
  | Nbuf_free mtlk_nbuf
  | Notify_mic_failure mac_addr mic_fail_type

record mtlk_core =
  group_cipher :: nat
  core_qos :: mtlk_qos
  core_maps :: qos_maps
  net_state :: nat
  core_bridge_mode :: bridge_mode
  core_is_ap :: bool
  core_cnt :: "core_cnt_id \<Rightarrow> nat"
  fwd_dropped :: nat
  core_log :: "rx_event list"

definition NET_STATE_CONNECTED :: nat where
  "NET_STATE_CONNECTED = 2 ^ 4"

definition IW_ENCODE_ALG_TKIP :: nat where "IW_ENCODE_ALG_TKIP = 2"
definition IW_ENCODE_ALG_CCMP :: nat where "IW_ENCODE_ALG_CCMP = 3"

definition ETH_P_PAE :: nat where "ETH_P_PAE = 0x888E"

definition core_emit :: "rx_event \<Rightarrow> mtlk_core \<Rightarrow> mtlk_core" where
  "core_emit e c = c\<lparr>core_log := core_log c @ [e]\<rparr>"

definition mtlk_core_inc_cnt :: "core_cnt_id \<Rightarrow> mtlk_core \<Rightarrow> mtlk_core" where
  "mtlk_core_inc_cnt i c = c\<lparr>core_cnt := (core_cnt c)(i := u32_inc (core_cnt c i))\<rparr>"

section \<open>Replay detection\<close>

text \<open>The cipher that protects the packet: the pairwise one for directed packets.\<close>
definition get_cipher :: "mtlk_core \<Rightarrow> sta_entry \<Rightarrow> mtlk_nbuf \<Rightarrow> nat" where
  "get_cipher c sta nb =
     (if mtlk_nbuf_priv_check_flags nb MTLK_NBUFF_DIRECTED then sta_cipher sta else group_cipher c)"

definition parse_and_get_replay_counter :: "mtlk_nbuf \<Rightarrow> nat \<Rightarrow> byte list option" where
  "parse_and_get_replay_counter nb cipher =
     (let b = mtlk_nbuf_priv_get_rsc_buf_byte nb in
      if cipher \<noteq> IW_ENCODE_ALG_TKIP \<and> cipher \<noteq> IW_ENCODE_ALG_CCMP then None
      else Some ([b 7, b 6, b 5, b 4] @
        (if cipher = IW_ENCODE_ALG_TKIP then [b 0, b 2] else [b 1, b 0])))"

definition mtlk_core_on_mic_failure :: "mic_fail_type \<Rightarrow> mtlk_core \<Rightarrow> mtlk_core" where
  "mtlk_core_on_mic_failure t c =
     (case t of
        MIC_FAIL_PAIRWISE \<Rightarrow> mtlk_core_inc_cnt MTLK_CORE_CNT_PAIRWISE_MIC_FAILURE_PACKETS c
      | MIC_FAIL_GROUP \<Rightarrow> mtlk_core_inc_cnt MTLK_CORE_CNT_GROUP_MIC_FAILURE_PACKETS c)"

definition UMI_NOTIFICATION_MIC_FAILURE :: byte where
  "UMI_NOTIFICATION_MIC_FAILURE = 1"

definition nbuf_nfrags :: "mtlk_nbuf \<Rightarrow> nat" where
  "nbuf_nfrags nb = unat (drop_bit 4 (rsn_bits nb AND 0xf0))"

text \<open>
  The 64-bit detour of the source: the six counter bytes are the low bytes of a big-endian
  64-bit number, the number of fragments is added, and the low six bytes are copied back.
\<close>
definition add_nfrags :: "byte list \<Rightarrow> nat \<Rightarrow> byte list" where
  "add_nfrags rc nfrags =
     (if nfrags \<noteq> 0
      then drop 2 (be_bytes 8 ((be_val ([0, 0] @ rc) + nfrags) mod 2 ^ 64))
      else rc)"

definition eth_source :: "mtlk_nbuf \<Rightarrow> mac_addr" where
  "eth_source nb = take 6 (drop 6 (nb_data nb))"

definition eth_proto :: "mtlk_nbuf \<Rightarrow> nat" where
  "eth_proto nb = be_val (take 2 (drop 12 (nb_data nb)))"

text \<open>Returns the result code, the core and the last accepted counter.\<close>
definition detect_replay ::
    "os_env \<Rightarrow> mtlk_core \<Rightarrow> sta_entry \<Rightarrow> mtlk_nbuf \<Rightarrow> byte list \<Rightarrow> nat \<times> mtlk_core \<times> byte list" where
  "detect_replay env c sta nb last_rc =
     (let cipher = get_cipher c sta nb in
      case parse_and_get_replay_counter nb cipher of
        None \<Rightarrow> (0, c, last_rc)
      | Some rc \<Rightarrow>
          if memcmp_sgn rc last_rc \<le> 0 then
            (1, mtlk_core_inc_cnt
                  (if is_multicast_ether_addr env (eth_source nb)
                      \<or> is_broadcast_ether_addr env (eth_source nb)
                   then MTLK_CORE_CNT_MULTICAST_REPLAYED_PACKETS
                   else MTLK_CORE_CNT_UNICAST_REPLAYED_PACKETS) c, last_rc)
          else if rsn_bits nb AND UMI_NOTIFICATION_MIC_FAILURE \<noteq> 0 then
            (2, if cipher = IW_ENCODE_ALG_TKIP then
                  (let t = (if mtlk_nbuf_priv_check_flags nb MTLK_NBUFF_DIRECTED
                            then MIC_FAIL_PAIRWISE else MIC_FAIL_GROUP)
                   in mtlk_core_on_mic_failure t
                        (core_emit (Notify_mic_failure (sta_addr sta) t) c))
                else c, last_rc)
          else (0, c, add_nfrags rc (nbuf_nfrags nb)))"

section \<open>Hand-over to the OS\<close>

text \<open>The forwarding part of \<^verbatim>\<open>send_up\<close>: a clone goes back to the transmit path.\<close>
definition send_up_forward :: "os_env \<Rightarrow> mtlk_core \<Rightarrow> mtlk_nbuf \<Rightarrow> mtlk_core \<times> mtlk_nbuf" where
  "send_up_forward env c nb =
     (let c = core_emit (Sta_rx_packet_forwarded (src_sta nb) nb) c;
          (ac, nb) = mtlk_qos_get_ac env (core_maps c) (core_qos c) nb;
          c = (if ac = AC_INVALID then
                 (case src_sta nb of
                    Some sta \<Rightarrow> core_emit (Sta_packet_dropped_acm sta) c
                  | None \<Rightarrow> mtlk_core_inc_cnt MTLK_CORE_CNT_TX_PACKETS_DISCARDED_DRV_ACM c)
               else c)
      in (if ac \<noteq> AC_INVALID \<and> skb_clone_ok env nb
          then core_emit (Mc_transmit_clone nb) c
          else c\<lparr>fwd_dropped := u32_inc (fwd_dropped c)\<rparr>, nb))"

text \<open>The consuming part of \<^verbatim>\<open>send_up\<close>: bridging hooks, connection check, indication.\<close>
definition send_up_consume :: "mtlk_core \<Rightarrow> mtlk_nbuf \<Rightarrow> mtlk_core" where
  "send_up_consume c nb =
     (let c = (if \<not> core_is_ap c \<and> core_bridge_mode c \<noteq> BR_MODE_WDS
               then core_emit (Mc_restore_mac nb) c else c);
          c = (case core_bridge_mode c of
                 BR_MODE_MAC_CLONING \<Rightarrow>
                   if eth_proto nb = ETH_P_PAE then core_emit (Mac_cloning_set_da nb) c else c
               | BR_MODE_L2NAT \<Rightarrow> core_emit (L2nat_on_rx nb) c
               | _ \<Rightarrow> c)
      in if net_state c \<noteq> NET_STATE_CONNECTED then core_emit (Nbuf_free nb) c
         else core_emit (Indicate_rx_data nb) (core_emit (Sta_packet_indicated (src_sta nb) nb) c))"

definition send_up :: "os_env \<Rightarrow> mtlk_core \<Rightarrow> mtlk_nbuf \<Rightarrow> mtlk_core" where
  "send_up env c nb =
     (let (c, nb) = (if mtlk_nbuf_priv_check_flags nb MTLK_NBUFF_FORWARD
                     then send_up_forward env c nb else (c, nb))
      in if mtlk_nbuf_priv_check_flags nb MTLK_NBUFF_CONSUME then send_up_consume c nb
         else core_emit (Nbuf_free nb) c)"

definition mtlk_detect_replay_or_sendup ::
    "os_env \<Rightarrow> mtlk_core \<Rightarrow> mtlk_nbuf \<Rightarrow> byte list \<Rightarrow> nat \<times> mtlk_core \<times> byte list" where
  "mtlk_detect_replay_or_sendup env c nb rsn =
     (let (res, c, rsn) =
            (case src_sta nb of
               Some sta \<Rightarrow> detect_replay env c sta nb rsn
             | None \<Rightarrow> (0, c, rsn))
      in (res, if res \<noteq> 0 then core_emit (Nbuf_free nb) c else send_up env c nb, rsn))"

section \<open>Ownership of buffers\<close>

text \<open>The identity of the buffer that an event gives away, if it gives one away.\<close>
fun disposed_by :: "rx_event \<Rightarrow> nat list" where
  "disposed_by (Indicate_rx_data nb) = [nb_id nb]"
| "disposed_by (Nbuf_free nb) = [nb_id nb]"
| "disposed_by _ = []"

definition disposed :: "mtlk_core \<Rightarrow> nat list" where
  "disposed c = concat (map disposed_by (core_log c))"

fun indicated_by :: "rx_event \<Rightarrow> nat list" where
  "indicated_by (Indicate_rx_data nb) = [nb_id nb]"
| "indicated_by _ = []"

text \<open>The packets that reached the OS, in order.\<close>
definition indicated :: "mtlk_core \<Rightarrow> nat list" where
  "indicated c = concat (map indicated_by (core_log c))"

lemma disposed_emit [simp]: "disposed (core_emit e c) = disposed c @ disposed_by e"
  by (simp add: disposed_def core_emit_def)

lemma disposed_cnt [simp]: "disposed (mtlk_core_inc_cnt i c) = disposed c"
  by (simp add: disposed_def mtlk_core_inc_cnt_def)

lemma disposed_fwd [simp]: "disposed (c\<lparr>fwd_dropped := n\<rparr>) = disposed c"
  by (simp add: disposed_def)

lemma indicated_emit [simp]: "indicated (core_emit e c) = indicated c @ indicated_by e"
  by (simp add: indicated_def core_emit_def)

lemma indicated_cnt [simp]: "indicated (mtlk_core_inc_cnt i c) = indicated c"
  by (simp add: indicated_def mtlk_core_inc_cnt_def)

lemma indicated_fwd [simp]: "indicated (c\<lparr>fwd_dropped := n\<rparr>) = indicated c"
  by (simp add: indicated_def)

lemma core_emit_fields [simp]:
  "net_state (core_emit e c) = net_state c" "core_bridge_mode (core_emit e c) = core_bridge_mode c"
  "core_is_ap (core_emit e c) = core_is_ap c" "core_maps (core_emit e c) = core_maps c"
  "core_qos (core_emit e c) = core_qos c" "group_cipher (core_emit e c) = group_cipher c"
  "fwd_dropped (core_emit e c) = fwd_dropped c"
  by (simp_all add: core_emit_def)

lemma mtlk_core_inc_cnt_fields [simp]:
  "net_state (mtlk_core_inc_cnt e c) = net_state c" "group_cipher (mtlk_core_inc_cnt e c) = group_cipher c"
  by (simp_all add: mtlk_core_inc_cnt_def)

lemma send_up_forward_id:
  assumes "send_up_forward env c nb = (c', nb')"
  shows "nb_id nb' = nb_id nb \<and> disposed c' = disposed c \<and> indicated c' = indicated c
    \<and> net_state c' = net_state c \<and> group_cipher c' = group_cipher c"
proof -
  obtain ac nb1 where r: "mtlk_qos_get_ac env (core_maps c) (core_qos c) nb = (ac, nb1)"
    by fastforce
  then have "nb_id nb1 = nb_id nb"
    by (metis get_ac_keeps_identity snd_conv)
  then show ?thesis
    using assms unfolding send_up_forward_def Let_def
    by (auto simp: r split: if_splits option.splits)
qed

lemma send_up_consume_disposes:
  "disposed (send_up_consume c nb) = disposed c @ [nb_id nb]"
  unfolding send_up_consume_def Let_def by (simp split: bridge_mode.split)

lemma send_up_disposes: "disposed (send_up env c nb) = disposed c @ [nb_id nb]"
proof (cases "mtlk_nbuf_priv_check_flags nb MTLK_NBUFF_FORWARD")
  case True
  obtain c' nb' where f: "send_up_forward env c nb = (c', nb')" by fastforce
  then have "nb_id nb' = nb_id nb" "disposed c' = disposed c"
    using send_up_forward_id by blast+
  then show ?thesis
    using True by (simp add: send_up_def f send_up_consume_disposes)
next
  case False
  then show ?thesis by (simp add: send_up_def send_up_consume_disposes)
qed

lemma detect_replay_disposes:
  "disposed (fst (snd (detect_replay env c sta nb rc))) = disposed c"
  by (simp add: detect_replay_def Let_def mtlk_core_on_mic_failure_def split: option.split)

text \<open>
  Every buffer handed to \<^verbatim>\<open>mtlk_detect_replay_or_sendup\<close> is given away exactly once, whatever the
  verdict: no leak and no double free.
\<close>
lemma detect_replay_or_sendup_disposes:
  "disposed (fst (snd (mtlk_detect_replay_or_sendup env c nb rsn))) = disposed c @ [nb_id nb]"
proof (cases "src_sta nb")
  case None
  then show ?thesis by (simp add: mtlk_detect_replay_or_sendup_def send_up_disposes)
next
  case (Some sta)
  then show ?thesis
    using detect_replay_disposes [of env c sta nb rsn]
    by (cases "detect_replay env c sta nb rsn")
      (simp add: mtlk_detect_replay_or_sendup_def send_up_disposes)
qed

section \<open>The interface of a packet sink\<close>

text \<open>
  The reorder queue and the receive routines only rely on two things of the stage behind them: a
  delivered buffer is gone, and the packet number of protected packets never goes back.  The two
  locales state these contracts; the stage of \<^verbatim>\<open>core.c\<close> is shown to keep them below.
\<close>

primrec deliver_all ::
    "('c \<Rightarrow> 'n \<Rightarrow> 'r \<Rightarrow> nat \<times> 'c \<times> 'r) \<Rightarrow> 'n list \<Rightarrow> 'c \<times> 'r \<Rightarrow> 'c \<times> 'r" where
  "deliver_all deliver [] s = s"
| "deliver_all deliver (n # ns) s = deliver_all deliver ns (snd (deliver (fst s) n (snd s)))"

text \<open>The packet numbers of the protected packets that a run of deliveries accepts.\<close>
primrec accepted_counters ::
    "('c \<Rightarrow> 'n \<Rightarrow> 'r \<Rightarrow> nat \<times> 'c \<times> 'r) \<Rightarrow> ('c \<Rightarrow> 'n \<Rightarrow> nat option) \<Rightarrow> 'n list \<Rightarrow> 'c \<times> 'r \<Rightarrow> nat list" where
  "accepted_counters deliver counter [] s = []"
| "accepted_counters deliver counter (n # ns) s =
     (let (res, s') = deliver (fst s) n (snd s)
      in (if res = 0 then (case counter (fst s) n of Some k \<Rightarrow> [k] | None \<Rightarrow> []) else [])
         @ accepted_counters deliver counter ns s')"

lemma deliver_all_append:
  "deliver_all d (xs @ ys) s = deliver_all d ys (deliver_all d xs s)"
  by (induction xs arbitrary: s) auto

locale buffer_sink =
  fixes deliver :: "'c \<Rightarrow> 'n \<Rightarrow> 'r \<Rightarrow> nat \<times> 'c \<times> 'r"
    and gone :: "'c \<Rightarrow> nat list"
    and ident :: "'n \<Rightarrow> nat"
  assumes disposes: "gone (fst (snd (deliver c n r))) = gone c @ [ident n]"
begin

lemma all_disposed:
  "gone (fst (deliver_all deliver ns s)) = gone (fst s) @ map ident ns"
  by (induction ns arbitrary: s) (auto simp: disposes)

end

locale replay_guard = buffer_sink deliver gone ident
  for deliver :: "'c \<Rightarrow> 'n \<Rightarrow> 'r \<Rightarrow> nat \<times> 'c \<times> 'r"
    and gone :: "'c \<Rightarrow> nat list"
    and ident :: "'n \<Rightarrow> nat" +
  fixes wf :: "'r \<Rightarrow> bool"
    and lastc :: "'r \<Rightarrow> nat"
    and counter :: "'c \<Rightarrow> 'n \<Rightarrow> nat option"
    and fits :: "'c \<Rightarrow> 'n \<Rightarrow> bool"
  assumes keeps_wf: "wf r \<Longrightarrow> deliver c n r = (res, c', r') \<Longrightarrow> wf r'"
    and same_key: "deliver c n r = (res, c', r') \<Longrightarrow> counter c' = counter c \<and> fits c' = fits c"
    and stale: "wf r \<Longrightarrow> counter c n = Some k \<Longrightarrow> k \<le> lastc r \<Longrightarrow> \<exists>c'. deliver c n r = (1, c', r)"
    and fresh: "wf r \<Longrightarrow> fits c n \<Longrightarrow> deliver c n r = (res, c', r') \<Longrightarrow> lastc r \<le> lastc r'"
    and advance: "wf r \<Longrightarrow> fits c n \<Longrightarrow> deliver c n r = (0, c', r') \<Longrightarrow> counter c n = Some k
      \<Longrightarrow> lastc r < k \<and> k \<le> lastc r'"
begin

lemma run_monotone:
  assumes "wf r" "\<forall>m \<in> set ns. fits c m" "deliver_all deliver ns (c, r) = (c', r')"
  shows "wf r' \<and> lastc r \<le> lastc r' \<and> counter c' = counter c"
  using assms
proof (induction ns arbitrary: c r)
  case (Cons n ns)
  obtain res c1 r1 where d: "deliver c n r = (res, c1, r1)" by (metis prod_cases3)
  have "fits c1 = fits c" "counter c1 = counter c"
    using same_key [OF d] by auto
  then show ?case
    using Cons.IH [of r1 c1] Cons.prems keeps_wf [OF Cons.prems(1) d] fresh [OF Cons.prems(1) _ d] d
    by auto
qed simp

lemma accepted_increase:
  assumes "wf r" "\<forall>m \<in> set ns. fits c m"
  shows "sorted_wrt (<) (accepted_counters deliver counter ns (c, r))
    \<and> (\<forall>k \<in> set (accepted_counters deliver counter ns (c, r)). lastc r < k)"
  using assms
proof (induction ns arbitrary: c r)
  case (Cons n ns)
  obtain res c1 r1 where d: "deliver c n r = (res, c1, r1)" by (metis prod_cases3)
  have eq: "fits c1 = fits c" "counter c1 = counter c"
    using same_key [OF d] by auto
  have IH: "sorted_wrt (<) (accepted_counters deliver counter ns (c1, r1))"
    "\<forall>k \<in> set (accepted_counters deliver counter ns (c1, r1)). lastc r1 < k"
    using Cons.IH [of r1 c1] Cons.prems keeps_wf [OF Cons.prems(1) d] eq by auto
  have le: "lastc r \<le> lastc r1"
    using fresh [OF Cons.prems(1) _ d] Cons.prems by auto
  show ?case
  proof (cases "res = 0 \<and> counter c n \<noteq> None")
    case True
    then obtain k where k: "res = 0" "counter c n = Some k" by auto
    then have "lastc r < k" "k \<le> lastc r1"
      using advance [OF Cons.prems(1), of c n c1 r1 k] d Cons.prems by auto
    then show ?thesis
      using IH le d k by (auto intro: le_less_trans)
  next
    case False
    then have "accepted_counters deliver counter (n # ns) (c, r)
        = accepted_counters deliver counter ns (c1, r1)"
      using d by (cases "counter c n") simp_all
    then show ?thesis
      using IH le le_less_trans by (simp del: accepted_counters.simps) blast
  qed
qed simp

lemma dropped_after:
  assumes "wf r" "fits c n" "counter c n = Some k" "deliver c n r = (0, c1, r1)"
    and "\<forall>m \<in> set ns. fits c m" "deliver_all deliver ns (c1, r1) = (c2, r2)"
    and "counter c m = Some j" "j \<le> k"
  shows "\<exists>c3. deliver c2 m r2 = (1, c3, r2)"
proof -
  have eq: "fits c1 = fits c" "counter c1 = counter c"
    using same_key [OF assms(4)] by auto
  have "k \<le> lastc r1" "wf r1"
    using advance [OF assms(1,2,4,3)] keeps_wf [OF assms(1,4)] by auto
  with run_monotone [of r1 ns c1 c2 r2] have "wf r2" "k \<le> lastc r2" "counter c2 = counter c"
    using assms eq by auto
  then show ?thesis
    using stale [of r2 c2 m j] assms by auto
qed

end

section \<open>The receive stage keeps the contracts\<close>

definition protected_counter :: "mtlk_core \<Rightarrow> mtlk_nbuf \<Rightarrow> nat option" where
  "protected_counter c nb =
     (case src_sta nb of
        None \<Rightarrow> None
      | Some sta \<Rightarrow> map_option be_val (parse_and_get_replay_counter nb (get_cipher c sta nb)))"

text \<open>Adding the fragments of the packet does not overflow the 48-bit packet number.\<close>
definition counter_fits :: "mtlk_core \<Rightarrow> mtlk_nbuf \<Rightarrow> bool" where
  "counter_fits c nb =
     (case protected_counter c nb of None \<Rightarrow> True | Some k \<Rightarrow> k + nbuf_nfrags nb < 2 ^ 48)"

definition rsc_ok :: "byte list \<Rightarrow> bool" where
  "rsc_ok r = (length r = 6)"

lemma be_val_zeros [simp]: "be_val (0 # bs) = be_val bs"
  by simp

lemma drop_be_bytes: "drop n (be_bytes (n + m) v) = be_bytes m v"
  by (induction n) auto

lemma length_add_nfrags [simp]: "length rc = 6 \<Longrightarrow> length (add_nfrags rc n) = 6"
  by (simp add: add_nfrags_def)

lemma be_val_add_nfrags:
  assumes "length rc = 6"
  shows "be_val (add_nfrags rc n) = (be_val rc + n) mod 2 ^ 48"
proof (cases "n = 0")
  case True
  then show ?thesis
    using be_val_bound [of rc] assms by (simp add: add_nfrags_def)
next
  case False
  have "drop 2 (be_bytes 8 v) = be_bytes 6 v" for v
    using drop_be_bytes [of 2 6] by simp
  moreover have "(2 :: nat) ^ 48 dvd 2 ^ 64"
    by (intro le_imp_power_dvd) simp
  then have "x mod 2 ^ 64 mod 2 ^ 48 = x mod 2 ^ 48" for x :: nat
    by (rule mod_mod_cancel)
  ultimately show ?thesis
    using False by (simp add: add_nfrags_def be_val_be_bytes)
qed

lemma parse_length: "parse_and_get_replay_counter nb ci = Some rc \<Longrightarrow> length rc = 6"
  by (auto simp: parse_and_get_replay_counter_def Let_def split: if_splits)

lemma send_up_group_cipher [simp]: "group_cipher (send_up env c nb) = group_cipher c"
proof -
  have cons: "group_cipher (send_up_consume c nb) = group_cipher c" for c nb
    by (simp add: send_up_consume_def Let_def split: bridge_mode.split)
  obtain c' nb' where f: "send_up_forward env c nb = (c', nb')" by fastforce
  then show ?thesis
    using send_up_forward_id [OF f] by (simp add: send_up_def f cons)
qed

lemma detect_replay_group_cipher:
  "detect_replay env c sta nb r = (res, c', r') \<Longrightarrow> group_cipher c' = group_cipher c"
  by (auto simp: detect_replay_def Let_def mtlk_core_on_mic_failure_def mtlk_core_inc_cnt_def
      split: option.splits if_splits mic_fail_type.splits)

lemma sendup_group_cipher:
  "mtlk_detect_replay_or_sendup env c nb r = (res, c', r') \<Longrightarrow> group_cipher c' = group_cipher c"
  by (cases "src_sta nb")
    (auto simp: mtlk_detect_replay_or_sendup_def split: prod.splits if_splits
      dest: detect_replay_group_cipher)

lemma protected_counter_cong:
  "group_cipher c' = group_cipher c \<Longrightarrow> protected_counter c' = protected_counter c"
  by (intro ext) (simp add: protected_counter_def get_cipher_def split: option.split)

lemma detect_replay_rsc:
  assumes "length r = 6"
  shows "snd (snd (detect_replay env c sta nb r)) =
    (case parse_and_get_replay_counter nb (get_cipher c sta nb) of
       None \<Rightarrow> r
     | Some rc \<Rightarrow> if be_val rc \<le> be_val r \<or> rsn_bits nb AND UMI_NOTIFICATION_MIC_FAILURE \<noteq> 0 then r
                 else add_nfrags rc (nbuf_nfrags nb))"
  using assms memcmp_sgn_le [of _ r] parse_length
  by (auto simp: detect_replay_def Let_def split: option.split)

lemma detect_replay_res:
  assumes "length r = 6"
  shows "fst (detect_replay env c sta nb r) =
    (case parse_and_get_replay_counter nb (get_cipher c sta nb) of
       None \<Rightarrow> 0
     | Some rc \<Rightarrow> if be_val rc \<le> be_val r then 1
                 else if rsn_bits nb AND UMI_NOTIFICATION_MIC_FAILURE \<noteq> 0 then 2 else 0)"
  using assms memcmp_sgn_le [of _ r] parse_length
  by (auto simp: detect_replay_def Let_def split: option.split)

text \<open>The verdict and the stored counter of a delivery, by the packet number.\<close>
lemma sendup_verdict:
  assumes "rsc_ok r" "mtlk_detect_replay_or_sendup env c nb r = (res, c', r')"
  shows "(case protected_counter c nb of
      None \<Rightarrow> res = 0 \<and> r' = r
    | Some k \<Rightarrow>
        (res = (if k \<le> be_val r then 1
                else if rsn_bits nb AND UMI_NOTIFICATION_MIC_FAILURE \<noteq> 0 then 2 else 0))
        \<and> (if res = 0 then rsc_ok r' \<and> be_val r' = (k + nbuf_nfrags nb) mod 2 ^ 48 else r' = r))"
proof (cases "src_sta nb")
  case None
  then show ?thesis
    using assms by (auto simp: mtlk_detect_replay_or_sendup_def protected_counter_def)
next
  case (Some sta)
  obtain res0 c0 r0 where d: "detect_replay env c sta nb r = (res0, c0, r0)"
    by (metis prod_cases3)
  then have "res = res0" "r' = r0"
    using assms(2) Some by (auto simp: mtlk_detect_replay_or_sendup_def)
  then show ?thesis
    using assms(1) Some d detect_replay_res [of r env c sta nb] detect_replay_rsc [of r env c sta nb]
    by (auto simp: protected_counter_def rsc_ok_def be_val_add_nfrags
        dest: parse_length split: option.splits if_splits)
qed

interpretation rx: buffer_sink "mtlk_detect_replay_or_sendup env" disposed nb_id
  by unfold_locales (rule detect_replay_or_sendup_disposes)

interpretation rxg: replay_guard "mtlk_detect_replay_or_sendup env" disposed nb_id
  rsc_ok be_val protected_counter counter_fits
proof (unfold_locales, goal_cases)
  case (1 r c n res c' r')
  then show ?case
    using sendup_verdict [OF 1] by (auto split: option.splits if_splits)
next
  case (2 c n r res c' r')
  then have "group_cipher c' = group_cipher c" by (rule sendup_group_cipher)
  then have "protected_counter c' = protected_counter c" by (rule protected_counter_cong)
  then show ?case by (simp add: fun_eq_iff counter_fits_def)
next
  case (3 r c n k)
  obtain res c' r' where d: "mtlk_detect_replay_or_sendup env c n r = (res, c', r')"
    by (metis prod_cases3)
  then show ?case
    using sendup_verdict [OF 3(1) d] 3 by simp
next
  case (4 r c n res c' r')
  then show ?case
    using sendup_verdict [OF 4(1,3)] by (auto simp: counter_fits_def split: option.splits if_splits)
next
  case (5 r c n c' r' k)
  then show ?case
    using sendup_verdict [OF 5(1,3)] by (auto simp: counter_fits_def split: if_splits)
qed

lemma rejected_not_indicated:
  assumes "mtlk_detect_replay_or_sendup env c nb r = (res, c', r')" "res \<noteq> 0"
  shows "indicated c' = indicated c"
proof -
  have *: "indicated (fst (snd (detect_replay env c sta nb r))) = indicated c" for sta
    by (simp add: detect_replay_def Let_def mtlk_core_on_mic_failure_def split: option.split)
  show ?thesis
  proof (cases "src_sta nb")
    case None
    then show ?thesis using assms by (simp add: mtlk_detect_replay_or_sendup_def)
  next
    case (Some sta)
    then show ?thesis
      using assms * [of sta]
      by (cases "detect_replay env c sta nb r") (auto simp: mtlk_detect_replay_or_sendup_def)
  qed
qed

lemma send_up_indicates:
  "indicated (send_up env c nb) = indicated c \<or> indicated (send_up env c nb) = indicated c @ [nb_id nb]"
proof -
  have cons: "indicated (send_up_consume c nb) = indicated c
      \<or> indicated (send_up_consume c nb) = indicated c @ [nb_id nb]" for c nb
    by (simp add: send_up_consume_def Let_def split: bridge_mode.split)
  obtain c' nb' where f: "send_up_forward env c nb = (c', nb')" by fastforce
  then show ?thesis
    using send_up_forward_id [OF f] cons [of c nb] cons [of c' nb'] by (simp add: send_up_def f)
qed

text \<open>A delivery indicates the delivered packet or nothing.\<close>
lemma sendup_indicates:
  "indicated (fst (snd (mtlk_detect_replay_or_sendup env c nb r))) = indicated c
   \<or> indicated (fst (snd (mtlk_detect_replay_or_sendup env c nb r))) = indicated c @ [nb_id nb]"
proof (cases "fst (mtlk_detect_replay_or_sendup env c nb r) = 0")
  case False
  then show ?thesis
    using rejected_not_indicated [of env c nb r] by (metis prod.collapse)
next
  case True
  have *: "indicated (fst (snd (detect_replay env c sta nb r))) = indicated c" for sta
    by (simp add: detect_replay_def Let_def mtlk_core_on_mic_failure_def split: option.split)
  show ?thesis
  proof (cases "src_sta nb")
    case None
    then show ?thesis
      using send_up_indicates [of env c nb] by (simp add: mtlk_detect_replay_or_sendup_def)
  next
    case (Some sta)
    then show ?thesis
      using True * [of sta] send_up_indicates [of env "fst (snd (detect_replay env c sta nb r))" nb]
      by (cases "detect_replay env c sta nb r") (auto simp: mtlk_detect_replay_or_sendup_def)
  qed
qed

section \<open>Properties\<close>

text \<open>
  C1: once a TKIP or CCMP packet has been accepted, every later packet under the same key whose
  48-bit packet number is not larger is refused with code 1, whatever was received in between; it is
  not indicated to the OS and it leaves the stored counter alone.  The assumption on the packets
  in between is that adding their fragment count does not overflow 48 bits.
\<close>
theorem rx_replay_is_dropped:
  assumes "rsc_ok r" "counter_fits c nb" "protected_counter c nb = Some k"
    and "fst (mtlk_detect_replay_or_sendup env c nb r) = 0"
    and "\<forall>m \<in> set ns. counter_fits c m"
    and "deliver_all (mtlk_detect_replay_or_sendup env) ns
           (snd (mtlk_detect_replay_or_sendup env c nb r)) = (c2, r2)"
    and "protected_counter c old = Some j" "j \<le> k"
  shows "\<exists>c3. mtlk_detect_replay_or_sendup env c2 old r2 = (1, c3, r2)
    \<and> indicated c3 = indicated c2"
proof -
  obtain c1 r1 where d: "mtlk_detect_replay_or_sendup env c nb r = (0, c1, r1)"
    using assms(4) by (cases "mtlk_detect_replay_or_sendup env c nb r") auto
  then have "\<exists>c3. mtlk_detect_replay_or_sendup env c2 old r2 = (1, c3, r2)"
    using rxg.dropped_after [OF assms(1-3) d assms(5) _ assms(7,8)] assms(6) by simp
  then show ?thesis
    using rejected_not_indicated by fastforce
qed

text \<open>
  along any run of deliveries under one key, the packet numbers of the accepted packets are
  strictly increasing and all above the counter stored at the start.
\<close>
lemma rx_accepted_counters_increase:
  assumes "rsc_ok r" "\<forall>m \<in> set ns. counter_fits c m"
  shows "sorted_wrt (<)
      (be_val r # accepted_counters (mtlk_detect_replay_or_sendup env) protected_counter ns (c, r))"
  using rxg.accepted_increase [OF assms, of env] by simp

text \<open>
  C2: the receive stage disposes of every buffer it is given exactly once and in order (indicated to
  the OS, or freed), for any sequence of buffers, any cipher and any verdict.
\<close>
theorem rx_every_buffer_disposed_once:
  "disposed (fst (deliver_all (mtlk_detect_replay_or_sendup env) ns (c, r)))
     = disposed c @ map nb_id ns"
  using rx.all_disposed [of env ns "(c, r)"] by simp

subsection \<open>A concrete run\<close>

definition ex_sta :: sta_entry where
  "ex_sta = \<lparr>sta_addr = [0, 9, 0x86, 1, 2, 3], sta_cipher = IW_ENCODE_ALG_CCMP\<rparr>"

definition ex_nbuf :: "nat \<Rightarrow> byte \<Rightarrow> mtlk_nbuf" where
  "ex_nbuf i pn = \<lparr>nb_id = i, rsn_bits = 0x20, nb_flags = 0x0023, src_sta = Some ex_sta,
     rsc_buf = [pn, 0, 0, 0, 0, 0, 0, 0], nb_data = replicate 60 0, nb_priority = 0\<rparr>"

definition ex_core :: mtlk_core where
  "ex_core = \<lparr>group_cipher = IW_ENCODE_ALG_TKIP, core_qos = \<lparr>acm_substitution = [0, 1, 2, 3]\<rparr>,
     core_maps = qos_maps_static, net_state = NET_STATE_CONNECTED, core_bridge_mode = BR_MODE_NONE,
     core_is_ap = True, core_cnt = (\<lambda>_. 0), fwd_dropped = 0, core_log = []\<rparr>"

definition ex_rsc :: "byte list" where
  "ex_rsc = [0, 0, 0, 0, 0, 0]"

lemma ex_counter:
  "protected_counter ex_core (ex_nbuf i pn) = Some (unat pn)"
  "counter_fits ex_core (ex_nbuf i pn)" "rsc_ok ex_rsc"
proof -
  show *: "protected_counter ex_core (ex_nbuf i pn) = Some (unat pn)"
    by (simp add: protected_counter_def ex_nbuf_def ex_sta_def get_cipher_def
        mtlk_nbuf_priv_check_flags_def MTLK_NBUFF_DIRECTED_def parse_and_get_replay_counter_def
        mtlk_nbuf_priv_get_rsc_buf_byte_def IW_ENCODE_ALG_CCMP_def IW_ENCODE_ALG_TKIP_def)
  have "nbuf_nfrags (ex_nbuf i pn) = 2"
    by (simp add: nbuf_nfrags_def ex_nbuf_def)
  then show "counter_fits ex_core (ex_nbuf i pn)"
    using * less_trans [OF byte_unat_lt [of pn], of 281474976710654] by (simp add: counter_fits_def)
  show "rsc_ok ex_rsc"
    by (simp add: rsc_ok_def ex_rsc_def)
qed

lemma ex_accepted: "fst (mtlk_detect_replay_or_sendup linux_env ex_core (ex_nbuf 0 5) ex_rsc) = 0"
proof -
  obtain res c' r' where d: "mtlk_detect_replay_or_sendup linux_env ex_core (ex_nbuf 0 5) ex_rsc
      = (res, c', r')"
    by (metis prod_cases3)
  have "be_val ex_rsc = 0"
    by (simp add: ex_rsc_def)
  moreover have "rsn_bits (ex_nbuf 0 5) AND UMI_NOTIFICATION_MIC_FAILURE = 0"
    by (simp add: ex_nbuf_def UMI_NOTIFICATION_MIC_FAILURE_def)
  ultimately show ?thesis
    using sendup_verdict [OF ex_counter(3) d] d by (simp add: ex_counter)
qed

theorem rx_replay_is_dropped_witness:
  "\<exists>c2 r2 c3. deliver_all (mtlk_detect_replay_or_sendup linux_env) [ex_nbuf 1 9]
       (snd (mtlk_detect_replay_or_sendup linux_env ex_core (ex_nbuf 0 5) ex_rsc)) = (c2, r2)
     \<and> mtlk_detect_replay_or_sendup linux_env c2 (ex_nbuf 2 4) r2 = (1, c3, r2)
     \<and> indicated c3 = indicated c2"
proof -
  obtain c2 r2 where run: "deliver_all (mtlk_detect_replay_or_sendup linux_env) [ex_nbuf 1 9]
      (snd (mtlk_detect_replay_or_sendup linux_env ex_core (ex_nbuf 0 5) ex_rsc)) = (c2, r2)"
    by fastforce
  show ?thesis
    using rx_replay_is_dropped [OF ex_counter(3,2,1) ex_accepted _ run ex_counter(1) [of 2 4]] run
    by (auto simp: ex_counter)
qed

theorem rx_accepted_counters_increase_witness:
  "sorted_wrt (<) (be_val ex_rsc # accepted_counters (mtlk_detect_replay_or_sendup linux_env)
     protected_counter [ex_nbuf 0 5, ex_nbuf 1 5, ex_nbuf 2 8] (ex_core, ex_rsc))"
  by (rule rx_accepted_counters_increase) (auto simp: ex_counter)

end
