(* ===== verification/Rod.thy ===== *)
theory Rod
  imports Rx_Path "HOL-Library.Sublist"
begin

text \<open>
  The receive reordering queue of a block-ack agreement, \<^verbatim>\<open>driver/shared/rod.c\<close> and \<^verbatim>\<open>rod.h\<close>.
  A queue holds up to \<^verbatim>\<open>window_size\<close> packets in the array \<^verbatim>\<open>nbuf[64]\<close>, indexed by the sequence number
  modulo the window size, and releases them in order.  The operations return a \<open>c_fault\<close> where the C
  expression would divide by zero or index outside the array, and the new queue and core otherwise.
  The timestamp of the operation is an argument.  Abstractly (section ``Specification'') a queue is a
  window onto the stream of absolute sequence numbers.
\<close>

section \<open>Data\<close>

definition MAX_REORD_WINDOW :: nat where "MAX_REORD_WINDOW = 64"
definition ROD_QUEUE_FLUSH_TIMEOUT_MS :: nat where "ROD_QUEUE_FLUSH_TIMEOUT_MS = 1000"
definition SEQUENCE_NUMBER_LIMIT :: nat where "SEQUENCE_NUMBER_LIMIT = 0x1000"

datatype rod_info_cnt_id =
    MTLK_ROD_CNT_RX_PACKETS_DISCARDED_DRV_TOO_OLD
  | MTLK_ROD_CNT_RX_PACKETS_DISCARDED_DRV_DUPLICATE

record reordering_stats =
  too_old :: nat
  duplicate :: nat
  queued :: nat
  overflows :: nat
  lost :: nat

record reordering_queue =
  used :: nat
  q_count :: nat
  head :: nat
  window_size :: nat
  last_sent :: nat
  nbuf :: "mtlk_nbuf option list"
  last_rx_time :: nat
  rod_stats :: reordering_stats
  rsc :: "byte list"
  wss_cntrs :: "rod_info_cnt_id \<Rightarrow> nat"

type_synonym rod_state = "reordering_queue \<times> mtlk_core"

definition zero_stats :: reordering_stats where
  "zero_stats = \<lparr>too_old = 0, duplicate = 0, queued = 0, overflows = 0, lost = 0\<rparr>"

text \<open>\<^verbatim>\<open>SEQ_DISTANCE(seq1, seq2)\<close> on 32-bit unsigned operands.\<close>
definition SEQ_DISTANCE :: "nat \<Rightarrow> nat \<Rightarrow> nat" where
  "SEQ_DISTANCE seq1 seq2 =
     ((u32_sub seq2 seq1 + SEQUENCE_NUMBER_LIMIT) mod u32_max) mod SEQUENCE_NUMBER_LIMIT"

section \<open>Operations\<close>

text \<open>Retire the packet in a slot, if there is one.\<close>
definition retire_slot :: "os_env \<Rightarrow> nat \<Rightarrow> nat \<Rightarrow> rod_state \<Rightarrow> c_fault + int \<times> rod_state" where
  "retire_slot env now slot s =
     (let (q, c) = s in
      if window_size q = 0 then Inl Div_by_zero
      else let slot = slot mod window_size q in
      if MAX_REORD_WINDOW \<le> slot then Inl Out_of_bounds
      else case nbuf q ! slot of
        Some nb \<Rightarrow>
          (let (_, c', rsc') = mtlk_detect_replay_or_sendup env c nb (rsc q)
           in Inr (int slot, q\<lparr>rsc := rsc', nbuf := (nbuf q)[slot := None], last_sent := now,
                               q_count := u32_dec (q_count q)\<rparr>, c'))
      | None \<Rightarrow>
          Inr (-1, q\<lparr>rod_stats := (rod_stats q)\<lparr>lost := u32_inc (lost (rod_stats q))\<rparr>\<rparr>, c))"

text \<open>The loop of \<^verbatim>\<open>rod_move_window\<close>: retires the head slot and advances the head, \<open>n\<close> times.\<close>
fun move_window_loop :: "os_env \<Rightarrow> nat \<Rightarrow> nat \<Rightarrow> rod_state \<Rightarrow> c_fault + rod_state" where
  "move_window_loop env now 0 s = Inr s"
| "move_window_loop env now (Suc n) s =
     bind_result (retire_slot env now (head (fst s)) s)
       (\<lambda>(_, q, c). move_window_loop env now n (q\<lparr>head := u32_inc (head q)\<rparr>, c))"

definition rod_wrap_head :: "rod_state \<Rightarrow> rod_state" where
  "rod_wrap_head s = ((fst s)\<lparr>head := head (fst s) mod SEQUENCE_NUMBER_LIMIT\<rparr>, snd s)"

definition rod_move_window :: "os_env \<Rightarrow> nat \<Rightarrow> nat \<Rightarrow> rod_state \<Rightarrow> c_fault + rod_state" where
  "rod_move_window env now n s =
     bind_result (move_window_loop env now n s) (\<lambda>s. Inr (rod_wrap_head s))"

text \<open>
  \<^verbatim>\<open>while (prod_queue->count) rod_move_window(prod_queue, 1)\<close>: nothing in the code bounds this loop,
  so not returning is the value \<^term>\<open>None\<close>.
\<close>
partial_function (option) mtlk_flush_rod_queue ::
    "os_env \<Rightarrow> nat \<Rightarrow> rod_state \<Rightarrow> (c_fault + rod_state) option" where
  "mtlk_flush_rod_queue env now s =
     (if q_count (fst s) \<noteq> 0 then
        (case rod_move_window env now 1 s of
           Inl f \<Rightarrow> Some (Inl f)
         | Inr s' \<Rightarrow> mtlk_flush_rod_queue env now s')
      else Some (Inr s))"

declare mtlk_flush_rod_queue.simps [code]

text \<open>
  \<^verbatim>\<open>mtlk_create_rod_queue\<close>: the outcomes of the two allocations of statistics counters are arguments
  (\<open>wss_ok\<close> for \<^verbatim>\<open>mtlk_wss_create\<close>, \<open>open_res\<close> for \<^verbatim>\<open>mtlk_wss_cntrs_open\<close>).  Freshly opened counters
  read zero.
\<close>
definition mtlk_create_rod_queue ::
    "os_env \<Rightarrow> nat \<Rightarrow> bool \<Rightarrow> mtlk_error \<Rightarrow> nat \<Rightarrow> nat \<Rightarrow> rod_state
       \<Rightarrow> (c_fault + mtlk_error \<times> rod_state) option" where
  "mtlk_create_rod_queue env now wss_ok open_res win_size ssn s =
     (case (if used (fst s) = 1 then mtlk_flush_rod_queue env now s else Some (Inr s)) of
        None \<Rightarrow> None
      | Some (Inl f) \<Rightarrow> Some (Inl f)
      | Some (Inr (q, c)) \<Rightarrow>
          Some (Inr
            (if \<not> wss_ok then (MTLK_ERR_NO_MEM, q, c)
             else if open_res \<noteq> MTLK_ERR_OK then (open_res, q, c)
             else (MTLK_ERR_OK,
                   q\<lparr>used := 1, q_count := 0, head := ssn, window_size := win_size,
                     last_sent := now, rod_stats := zero_stats, wss_cntrs := (\<lambda>_. 0)\<rparr>, c))))"

definition mtlk_handle_rod_queue_timer ::
    "os_env \<Rightarrow> nat \<Rightarrow> rod_state \<Rightarrow> (c_fault + rod_state) option" where
  "mtlk_handle_rod_queue_timer env now s =
     (let (q, c) = s in
      if used q = 1 \<and> q_count q \<noteq> 0 \<and>
         time_after env now
           ((last_sent q + msecs_to_jiffies env ROD_QUEUE_FLUSH_TIMEOUT_MS) mod u32_max)
      then mtlk_flush_rod_queue env now s
      else Some (Inr s))"

definition mtlk_clear_rod_queue ::
    "os_env \<Rightarrow> nat \<Rightarrow> rod_state \<Rightarrow> (c_fault + rod_state) option" where
  "mtlk_clear_rod_queue env now s =
     (if used (fst s) \<noteq> 1 then Some (Inr s)
      else case mtlk_flush_rod_queue env now s of
        None \<Rightarrow> None
      | Some (Inl f) \<Rightarrow> Some (Inl f)
      | Some (Inr (q, c)) \<Rightarrow> Some (Inr (q\<lparr>used := 0\<rparr>, c)))"

lemma retire_slot_Inr_used:
  assumes "retire_slot env now loc s = Inr (r, s')" "loc < length (nbuf (fst s))"
    and "loc < window_size (fst s)" "nbuf (fst s) ! loc \<noteq> None"
  shows "slots_used (nbuf (fst s')) < slots_used (nbuf (fst s))"
  using assms slots_used_update_None [of loc "nbuf (fst s)"]
  by (auto simp: retire_slot_def Let_def split: prod.splits if_splits option.splits)

text \<open>
  Retire packets in order from the head until an empty slot is reached.  Every iteration empties
  a slot, so the loop ends.  The slot starts below the window size and is wrapped there, so the
  second disjunct of the first test never decides.
\<close>
function (sequential) retire_rod_loop ::
    "os_env \<Rightarrow> nat \<Rightarrow> nat \<Rightarrow> nat \<Rightarrow> rod_state \<Rightarrow> c_fault + nat \<times> rod_state" where
  "retire_rod_loop env now loc n s =
     (if length (nbuf (fst s)) \<le> loc \<or> window_size (fst s) \<le> loc then Inl Out_of_bounds
      else if nbuf (fst s) ! loc = None then Inr (n, s)
      else case retire_slot env now loc s of
        Inl f \<Rightarrow> Inl f
      | Inr (_, q, c) \<Rightarrow>
          retire_rod_loop env now (if window_size q \<le> loc + 1 then 0 else loc + 1) (n + 1)
            (q\<lparr>head := u32_inc (head q)\<rparr>, c))"
  by pat_completeness auto
termination
  by (relation "measure (\<lambda>(env, now, loc, n, s). slots_used (nbuf (fst s)))")
    (auto dest: retire_slot_Inr_used)

declare retire_rod_loop.simps [simp del]

definition retire_rod_queue :: "os_env \<Rightarrow> nat \<Rightarrow> rod_state \<Rightarrow> c_fault + nat \<times> rod_state" where
  "retire_rod_queue env now s =
     (if window_size (fst s) = 0 then Inl Div_by_zero
      else bind_result (retire_rod_loop env now (head (fst s) mod window_size (fst s)) 0 s)
             (\<lambda>(n, s). Inr (n, rod_wrap_head s)))"

definition mtlk_rod_inc_cnt :: "rod_info_cnt_id \<Rightarrow> reordering_queue \<Rightarrow> reordering_queue" where
  "mtlk_rod_inc_cnt i q = q\<lparr>wss_cntrs := (wss_cntrs q)(i := u32_inc (wss_cntrs q i))\<rparr>"

text \<open>The part of \<^verbatim>\<open>mtlk_reorder_packet\<close> after the window has been moved: insertion and release.\<close>
definition rod_insert :: "os_env \<Rightarrow> nat \<Rightarrow> nat \<Rightarrow> mtlk_nbuf \<Rightarrow> rod_state \<Rightarrow> c_fault + rod_state" where
  "rod_insert env now seq nb s =
     (let (q, c) = s in
      if window_size q = 0 then Inl Div_by_zero
      else let loc = seq mod window_size q in
      if MAX_REORD_WINDOW \<le> loc then Inl Out_of_bounds
      else case nbuf q ! loc of
        None \<Rightarrow>
          bind_result
            (retire_rod_queue env now
               (q\<lparr>nbuf := (nbuf q)[loc := Some nb], q_count := u32_inc (q_count q),
                  rod_stats := (rod_stats q)\<lparr>queued := u32_inc (queued (rod_stats q))\<rparr>\<rparr>, c))
            (\<lambda>(_, s). Inr s)
      | Some _ \<Rightarrow>
          Inr (mtlk_rod_inc_cnt MTLK_ROD_CNT_RX_PACKETS_DISCARDED_DRV_DUPLICATE
                 (q\<lparr>rod_stats := (rod_stats q)\<lparr>duplicate := u32_inc (duplicate (rod_stats q))\<rparr>\<rparr>),
               core_emit (Nbuf_free nb) c))"

definition mtlk_reorder_packet ::
    "os_env \<Rightarrow> nat \<Rightarrow> nat \<Rightarrow> mtlk_nbuf \<Rightarrow> rod_state \<Rightarrow> c_fault + rod_state" where
  "mtlk_reorder_packet env now seq nb s =
     (let (q, c) = s in
      if used q = 0 then
        (let (_, c', rsc') = mtlk_detect_replay_or_sendup env c nb (rsc q)
         in Inr (q\<lparr>rsc := rsc'\<rparr>, c'))
      else let diff = SEQ_DISTANCE (head q) seq in
      if diff > SEQUENCE_NUMBER_LIMIT div 2 then
        Inr (mtlk_rod_inc_cnt MTLK_ROD_CNT_RX_PACKETS_DISCARDED_DRV_TOO_OLD
               (q\<lparr>rod_stats := (rod_stats q)\<lparr>too_old := u32_inc (too_old (rod_stats q))\<rparr>\<rparr>),
             core_emit (Nbuf_free nb) c)
      else if window_size q \<le> diff then
        bind_result
          (rod_move_window env now (diff - window_size q + 1)
            (q\<lparr>rod_stats := (rod_stats q)\<lparr>overflows := u32_inc (overflows (rod_stats q))\<rparr>\<rparr>, c))
          (rod_insert env now seq nb)
      else rod_insert env now seq nb s)"

text \<open>\<^verbatim>\<open>mtlk_rod_process_bar\<close>: a block-ack request moves the window to its starting sequence number.\<close>
definition mtlk_rod_process_bar ::
    "os_env \<Rightarrow> nat \<Rightarrow> nat \<Rightarrow> rod_state \<Rightarrow> c_fault + int \<times> rod_state" where
  "mtlk_rod_process_bar env now ssn s =
     (if used (fst s) = 0 then Inr (-1, s)
      else let diff = SEQ_DISTANCE (head (fst s)) ssn in
      if diff > SEQUENCE_NUMBER_LIMIT div 2 then Inr (0, s)
      else bind_result (rod_move_window env now diff s)
             (\<lambda>s. bind_result (retire_rod_queue env now s) (\<lambda>(_, s). Inr (0, s))))"

text \<open>The accessors of \<^verbatim>\<open>rod.h\<close>.\<close>

definition mtlk_get_rod_stats :: "reordering_queue \<Rightarrow> reordering_stats option" where
  "mtlk_get_rod_stats q = (if used q = 0 then None else Some (rod_stats q))"

definition mtlk_is_used_rod_queue :: "reordering_queue \<Rightarrow> nat" where
  "mtlk_is_used_rod_queue q = used q"

definition mtlk_rod_queue_set_last_rx_time :: "nat \<Rightarrow> reordering_queue \<Rightarrow> reordering_queue" where
  "mtlk_rod_queue_set_last_rx_time msec q = q\<lparr>last_rx_time := msec\<rparr>"

definition mtlk_rod_queue_get_last_rx_time :: "reordering_queue \<Rightarrow> nat" where
  "mtlk_rod_queue_get_last_rx_time q = last_rx_time q"

definition mtlk_rod_queue_clear_reply_counter :: "reordering_queue \<Rightarrow> reordering_queue" where
  "mtlk_rod_queue_clear_reply_counter q = q\<lparr>rsc := replicate (length (rsc q)) 0\<rparr>"

section \<open>Specification\<close>

text \<open>
  The queue as the standard describes it: a window \<open>(A, ws)\<close> onto the stream of absolute (unbounded)
  sequence numbers, where \<open>ws ! i\<close> holds the packet number \<open>A + i\<close>, if it has arrived.  Every operation
  returns the packets it releases in order.
\<close>

definition opt_list :: "'a option \<Rightarrow> 'a list" where
  "opt_list x = (case x of None \<Rightarrow> [] | Some y \<Rightarrow> [y])"

definition held :: "'a option list \<Rightarrow> 'a list" where
  "held ws = concat (map opt_list ws)"

definition win_advance :: "nat \<Rightarrow> 'a option list \<Rightarrow> 'a option list" where
  "win_advance n ws = drop n ws @ replicate (min n (length ws)) None"

definition spec_advance :: "nat \<Rightarrow> nat \<times> 'a option list \<Rightarrow> 'a list \<times> nat \<times> 'a option list" where
  "spec_advance n w = (held (take n (snd w)), fst w + n, win_advance n (snd w))"

definition ready_prefix :: "'a option list \<Rightarrow> nat" where
  "ready_prefix ws = length (takeWhile (\<lambda>x. x \<noteq> None) ws)"

definition spec_ready :: "nat \<times> 'a option list \<Rightarrow> 'a list \<times> nat \<times> 'a option list" where
  "spec_ready w = spec_advance (ready_prefix (snd w)) w"

definition last_used :: "'a option list \<Rightarrow> nat" where
  "last_used ws = length (dropWhile (\<lambda>x. x = None) (rev ws))"

definition spec_flush :: "nat \<times> 'a option list \<Rightarrow> 'a list \<times> nat \<times> 'a option list" where
  "spec_flush w = spec_advance (last_used (snd w)) w"

text \<open>Insertion of packet number \<open>n\<close> inside the window: released packets, discarded packets, window.\<close>
definition spec_insert ::
    "nat \<Rightarrow> 'a \<Rightarrow> nat \<times> 'a option list \<Rightarrow> 'a list \<times> 'a list \<times> nat \<times> 'a option list" where
  "spec_insert n p w =
     (case snd w ! (n - fst w) of
        None \<Rightarrow> (let (rel, w') = spec_ready (fst w, (snd w)[n - fst w := Some p]) in (rel, [], w'))
      | Some _ \<Rightarrow> ([], [p], w))"

definition spec_receive ::
    "nat \<Rightarrow> 'a \<Rightarrow> nat \<times> 'a option list \<Rightarrow> 'a list \<times> 'a list \<times> nat \<times> 'a option list" where
  "spec_receive n p w =
     (if n < fst w then ([], [p], w)
      else if fst w + length (snd w) \<le> n then
        (let (rel1, w1) = spec_advance (n - fst w - length (snd w) + 1) w;
             (rel2, drp, w2) = spec_insert n p w1
         in (rel1 @ rel2, drp, w2))
      else spec_insert n p w)"

definition spec_bar :: "nat \<Rightarrow> nat \<times> 'a option list \<Rightarrow> 'a list \<times> nat \<times> 'a option list" where
  "spec_bar n w =
     (if n < fst w then ([], w)
      else let (rel1, w1) = spec_advance (n - fst w) w; (rel2, w2) = spec_ready w1
           in (rel1 @ rel2, w2))"

subsection \<open>Laws of the window\<close>

lemma opt_list_simps [simp]: "opt_list None = []" "opt_list (Some x) = [x]"
  by (simp_all add: opt_list_def)

lemma held_simps [simp]:
  "held [] = []" "held (x # xs) = opt_list x @ held xs" "held (xs @ ys) = held xs @ held ys"
  "held (replicate n None) = []"
  by (induction n) (simp_all add: held_def)

lemma length_win_advance [simp]: "length (win_advance n ws) = length ws"
  by (simp add: win_advance_def)

lemma win_advance_0 [simp]: "win_advance 0 ws = ws"
  by (simp add: win_advance_def)

lemma win_advance_Suc:
  assumes "ws \<noteq> []"
  shows "win_advance (Suc n) ws = win_advance n (tl ws @ [None])"
proof -
  have "replicate (min n (length ws)) None @ [None] = None # replicate (min n (length ws)) None"
    by (simp add: replicate_append_same)
  moreover obtain x xs where ws: "ws = x # xs" using assms by (cases ws) auto
  ultimately show ?thesis
    by (cases "n \<le> length xs")
      (auto simp: win_advance_def min_def not_le le_Suc_eq replicate_append_same
        simp flip: replicate_Suc)
qed

lemma held_take_Suc:
  assumes "ws \<noteq> []"
  shows "held (take (Suc n) ws) = opt_list (hd ws) @ held (take n (tl ws @ [None]))"
  using assms by (cases ws) (auto simp: take_Cons')

lemma ready_prefix_Some:
  "ready_prefix (Some x # xs) = Suc (ready_prefix (xs @ [None]))"
  by (simp add: ready_prefix_def takeWhile_tail)

lemma ready_prefix_le: "ready_prefix ws \<le> length ws"
  by (simp add: ready_prefix_def length_takeWhile_le)

lemma last_used_0: "last_used ws = 0 \<longleftrightarrow> (\<forall>x \<in> set ws. x = None)"
  by (simp add: last_used_def dropWhile_eq_Nil_conv)

lemma last_used_shift:
  assumes "last_used ws \<noteq> 0"
  shows "last_used ws = Suc (last_used (tl ws @ [None]))"
proof -
  obtain x xs where ws: "ws = x # xs"
    using assms by (cases ws) (auto simp: last_used_def)
  show ?thesis
  proof (cases "\<forall>y \<in> set xs. y = None")
    case True
    then show ?thesis
      using assms by (auto simp: last_used_def ws dropWhile_append dropWhile_eq_Nil_conv
          split: if_splits)
  next
    case False
    then show ?thesis
      by (auto simp: last_used_def ws dropWhile_append dropWhile_eq_Nil_conv split: if_splits)
  qed
qed

lemma last_used_le: "last_used ws \<le> length ws"
  unfolding last_used_def using length_dropWhile_le [of "\<lambda>x. x = None" "rev ws"] by simp

lemma win_advance_last_used: "win_advance (last_used ws) ws = replicate (length ws) None"
proof -
  have "\<forall>x \<in> set (drop (last_used ws) ws). x = None"
  proof -
    have "rev ws = takeWhile (\<lambda>x. x = None) (rev ws) @ dropWhile (\<lambda>x. x = None) (rev ws)"
      by simp
    then have "ws = rev (dropWhile (\<lambda>x. x = None) (rev ws)) @ rev (takeWhile (\<lambda>x. x = None) (rev ws))"
      by (metis rev_append rev_rev_ident)
    then have "drop (last_used ws) ws = rev (takeWhile (\<lambda>x. x = None) (rev ws))"
      unfolding last_used_def by (metis append_eq_conv_conj length_rev)
    then show ?thesis by (auto dest: set_takeWhileD)
  qed
  then have "drop (last_used ws) ws = replicate (length ws - last_used ws) None"
    by (simp add: list_eq_iff_nth_eq all_set_conv_all_nth)
  then show ?thesis
    using last_used_le [of ws] by (simp add: win_advance_def min_def flip: replicate_add)
qed

lemma held_advance: "held (take n ws) @ held (win_advance n ws) = held ws"
  by (metis append_take_drop_id held_simps(3,4) append_Nil2 win_advance_def)

section \<open>Invariant and abstraction\<close>

text \<open>What holds between the operations of an active queue whose window divides the sequence space.\<close>
definition rod_core :: "reordering_queue \<Rightarrow> bool" where
  "rod_core q = (used q = 1 \<and> length (nbuf q) = MAX_REORD_WINDOW
     \<and> 0 < window_size q \<and> window_size q \<le> MAX_REORD_WINDOW \<and> window_size q dvd SEQUENCE_NUMBER_LIMIT
     \<and> q_count q = slots_used (nbuf q)
     \<and> (\<forall>i < MAX_REORD_WINDOW. window_size q \<le> i \<longrightarrow> nbuf q ! i = None)
     \<and> rsc_ok (rsc q))"

definition rod_inv :: "reordering_queue \<Rightarrow> bool" where
  "rod_inv q = (rod_core q \<and> head q < SEQUENCE_NUMBER_LIMIT)"

text \<open>The head stands for the absolute sequence number \<open>A\<close>.\<close>
definition rod_pos :: "nat \<Rightarrow> reordering_queue \<Rightarrow> bool" where
  "rod_pos A q = (head q mod SEQUENCE_NUMBER_LIMIT = A mod SEQUENCE_NUMBER_LIMIT)"

definition win_of :: "nat \<Rightarrow> reordering_queue \<Rightarrow> mtlk_nbuf option list" where
  "win_of A q = map (\<lambda>i. nbuf q ! ((A + i) mod window_size q)) [0..<window_size q]"

lemmas rod_consts = MAX_REORD_WINDOW_def SEQUENCE_NUMBER_LIMIT_def

lemma seq_limit_dvd: "SEQUENCE_NUMBER_LIMIT dvd u32_max"
  by (simp add: SEQUENCE_NUMBER_LIMIT_def u32_max_def)

lemma length_win_of [simp]: "length (win_of A q) = window_size q"
  by (simp add: win_of_def)

lemma win_of_nth: "i < window_size q \<Longrightarrow> win_of A q ! i = nbuf q ! ((A + i) mod window_size q)"
  by (simp add: win_of_def)

lemma win_of_nonempty: "rod_core q \<Longrightarrow> win_of A q \<noteq> []"
  by (auto simp: win_of_def rod_core_def)

lemma hd_win_of: "rod_core q \<Longrightarrow> hd (win_of A q) = nbuf q ! (A mod window_size q)"
  using win_of_nth [of 0 q A] by (simp add: hd_conv_nth win_of_nonempty rod_core_def)

lemma rod_pos_slot:
  assumes "rod_core q" "rod_pos A q"
  shows "head q mod window_size q = A mod window_size q"
  using assms mod_mod_cancel [of "window_size q" SEQUENCE_NUMBER_LIMIT]
  unfolding rod_core_def rod_pos_def by metis

lemma u32_inc_mod_seq: "u32_inc n mod SEQUENCE_NUMBER_LIMIT = (n + 1) mod SEQUENCE_NUMBER_LIMIT"
  unfolding u32_inc_def by (rule mod_mod_cancel [OF seq_limit_dvd])

lemma rod_pos_inc: "rod_pos A q \<Longrightarrow> rod_pos (A + 1) (q\<lparr>head := u32_inc (head q)\<rparr>)"
  unfolding rod_pos_def by (simp add: u32_inc_mod_seq) (metis mod_Suc_eq)

text \<open>Emptying the head slot shifts the window by one.\<close>
lemma win_of_shift:
  assumes "rod_core q"
  shows "map (\<lambda>i. (nbuf q)[A mod window_size q := None] ! ((A + 1 + i) mod window_size q))
           [0..<window_size q] = tl (win_of A q) @ [None]"
proof -
  define W where "W = window_size q"
  have W: "0 < W" "W \<le> length (nbuf q)"
    using assms by (auto simp: W_def rod_core_def)
  have slot: "(A + 1 + i) mod W = A mod W \<longleftrightarrow> i = W - 1" if "i < W" for i
  proof
    assume "(A + 1 + i) mod W = A mod W"
    then have "W dvd 1 + i"
      using mod_eq_dvd_iff_nat [of A "A + 1 + i" W] by simp
    then show "i = W - 1" using that W by (auto dest: dvd_imp_le)
  next
    assume "i = W - 1"
    then have "A + 1 + i = A + W" using W by simp
    then show "(A + 1 + i) mod W = A mod W" by (metis mod_add_self2)
  qed
  show ?thesis
    unfolding W_def [symmetric]
  proof (rule nth_equalityI, goal_cases)
    case 1
    then show ?case using W by (simp add: W_def)
  next
    case (2 i)
    then have i: "i < W" by simp
    have "A mod W < W" using W by simp
    with W have "A mod W < length (nbuf q)" by linarith
    then show ?case
      using i W slot [OF i] win_of_nth [of "Suc i" q A]
      by (auto simp: nth_append nth_tl W_def [symmetric] nth_list_update)
  qed
qed

lemma retire_slot_cases:
  assumes "rod_core q"
  shows "retire_slot env now slot (q, c) =
    (let slot = slot mod window_size q in
     case nbuf q ! slot of
       Some nb \<Rightarrow>
         (let (_, c', rsc') = mtlk_detect_replay_or_sendup env c nb (rsc q)
          in Inr (int slot, q\<lparr>rsc := rsc', nbuf := (nbuf q)[slot := None], last_sent := now,
                              q_count := u32_dec (q_count q)\<rparr>, c'))
     | None \<Rightarrow> Inr (-1, q\<lparr>rod_stats := (rod_stats q)\<lparr>lost := u32_inc (lost (rod_stats q))\<rparr>\<rparr>, c))"
proof -
  have "0 < window_size q" "window_size q \<le> 64"
    using assms by (auto simp: rod_core_def rod_consts)
  moreover from this have "slot mod window_size q < 64"
    using mod_less_divisor [of "window_size q" slot] by linarith
  ultimately show ?thesis
    by (simp add: retire_slot_def rod_consts Let_def)
qed

text \<open>Retiring the head slot: releases the head packet and shifts the window.\<close>
lemma retire_head:
  assumes core: "rod_core q" and pos: "slot mod window_size q = A mod window_size q"
  obtains r q' c' where "retire_slot env now slot (q, c) = Inr (r, q', c')" "rod_core q'"
    "head q' = head q" "window_size q' = window_size q" "win_of (A + 1) q' = tl (win_of A q) @ [None]"
    "(c', rsc q') = deliver_all (mtlk_detect_replay_or_sendup env) (opt_list (hd (win_of A q))) (c, rsc q)"
proof -
  let ?s = "A mod window_size q"
  have W: "0 < window_size q" "window_size q \<le> 64" "length (nbuf q) = 64"
    using core by (auto simp: rod_core_def rod_consts)
  have s: "?s < window_size q" "?s < 64"
    using W mod_less_divisor [of "window_size q" A] by linarith+
  show ?thesis
  proof (cases "nbuf q ! ?s")
    case None
    let ?q = "q\<lparr>rod_stats := (rod_stats q)\<lparr>lost := u32_inc (lost (rod_stats q))\<rparr>\<rparr>"
    have "(nbuf q)[?s := None] = nbuf q"
      by (metis None list_update_id)
    then have "win_of (A + 1) ?q = tl (win_of A q) @ [None]"
      using win_of_shift [OF core, of A] by (simp add: win_of_def)
    moreover have "rod_core ?q" using core by (simp add: rod_core_def)
    ultimately show ?thesis
      using that [of "-1" ?q c] None pos hd_win_of [OF core, of A]
      by (simp add: retire_slot_cases [OF core] Let_def)
  next
    case (Some nb)
    obtain res c' rsc' where d: "mtlk_detect_replay_or_sendup env c nb (rsc q) = (res, c', rsc')"
      by (metis prod_cases3)
    let ?q = "q\<lparr>rsc := rsc', nbuf := (nbuf q)[?s := None], last_sent := now,
                q_count := u32_dec (q_count q)\<rparr>"
    have "win_of (A + 1) ?q = tl (win_of A q) @ [None]"
      using win_of_shift [OF core, of A] by (simp add: win_of_def)
    moreover have "rod_core ?q"
    proof -
      have "rsc_ok rsc'"
        using rxg.keeps_wf [OF _ d] core by (simp add: rod_core_def)
      moreover have "u32_dec (q_count q) = slots_used (nbuf q) - 1"
        using slots_used_update_None [of ?s "nbuf q" nb] Some s W core slots_used_le [of "nbuf q"]
        by (subst u32_dec_pos) (auto simp: rod_core_def u32_max_def)
      ultimately show ?thesis
        using core slots_used_update_None [of ?s "nbuf q" nb] Some s W
        by (auto simp: rod_core_def rod_consts nth_list_update)
    qed
    ultimately show ?thesis
      using that [of "int ?s" ?q c'] Some pos hd_win_of [OF core, of A] d
      by (simp add: retire_slot_cases [OF core] Let_def)
  qed
qed

lemma rod_core_head [simp]: "rod_core (q\<lparr>head := h\<rparr>) = rod_core q"
  by (simp add: rod_core_def)

lemma win_of_head [simp]: "win_of A (q\<lparr>head := h\<rparr>) = win_of A q"
  by (simp add: win_of_def)

text \<open>Moving the window by \<open>n\<close> positions releases the packets of the first \<open>n\<close> positions in order.\<close>
lemma move_window_loop_refines:
  assumes "rod_core q" "rod_pos A q"
  shows "\<exists>q' c'. move_window_loop env now n (q, c) = Inr (q', c') \<and> rod_core q' \<and> rod_pos (A + n) q'
    \<and> window_size q' = window_size q \<and> win_of (A + n) q' = win_advance n (win_of A q)
    \<and> (c', rsc q') = deliver_all (mtlk_detect_replay_or_sendup env) (held (take n (win_of A q))) (c, rsc q)"
  using assms
proof (induction n arbitrary: q c A)
  case (Suc n)
  obtain r q1 c1 where 1: "retire_slot env now (head q) (q, c) = Inr (r, q1, c1)" "rod_core q1"
    "head q1 = head q" "window_size q1 = window_size q"
    "win_of (A + 1) q1 = tl (win_of A q) @ [None]"
    "(c1, rsc q1) = deliver_all (mtlk_detect_replay_or_sendup env) (opt_list (hd (win_of A q))) (c, rsc q)"
    using retire_head [OF Suc.prems(1) rod_pos_slot [OF Suc.prems]] by metis
  let ?q = "q1\<lparr>head := u32_inc (head q1)\<rparr>"
  have pos: "rod_pos (A + 1) ?q"
    using rod_pos_inc [of A q1] Suc.prems 1(3) by (simp add: rod_pos_def)
  obtain q' c' where "move_window_loop env now n (?q, c1) = Inr (q', c')" "rod_core q'"
    "rod_pos (A + 1 + n) q'" "window_size q' = window_size ?q"
    "win_of (A + 1 + n) q' = win_advance n (win_of (A + 1) ?q)"
    "(c', rsc q') = deliver_all (mtlk_detect_replay_or_sendup env) (held (take n (win_of (A + 1) ?q))) (c1, rsc ?q)"
    using Suc.IH [OF _ pos, of c1] 1(2) by (auto simp del: win_of_head)
  then show ?case
    using 1 Suc.prems win_advance_Suc [OF win_of_nonempty [OF Suc.prems(1)], of n A]
      held_take_Suc [OF win_of_nonempty [OF Suc.prems(1)], of n A]
    by (auto simp: deliver_all_append)
qed simp

lemma rod_wrap_head_props:
  assumes "rod_core q" "rod_pos A q"
  shows "\<exists>q'. rod_wrap_head (q, c) = (q', c) \<and> rod_inv q' \<and> rod_pos A q'
    \<and> window_size q' = window_size q \<and> win_of B q' = win_of B q \<and> rsc q' = rsc q"
  using assms by (simp add: rod_wrap_head_def rod_inv_def rod_pos_def SEQUENCE_NUMBER_LIMIT_def)

text \<open>The relation between the queue with its core and the abstract window.\<close>
definition rod_sim :: "reordering_queue \<Rightarrow> nat \<times> mtlk_nbuf option list \<Rightarrow> bool" where
  "rod_sim q w = (rod_inv q \<and> rod_pos (fst w) q \<and> snd w = win_of (fst w) q)"

lemma rod_move_window_refines:
  assumes "rod_sim q w" "spec_advance n w = (rel, w')"
  shows "\<exists>q' c'. rod_move_window env now n (q, c) = Inr (q', c') \<and> rod_sim q' w'
    \<and> (c', rsc q') = deliver_all (mtlk_detect_replay_or_sendup env) rel (c, rsc q)"
proof -
  obtain A where A: "w = (A, win_of A q)" "rod_core q" "rod_pos A q"
    using assms(1) by (cases w) (auto simp: rod_sim_def rod_inv_def)
  obtain q1 c1 where 1: "move_window_loop env now n (q, c) = Inr (q1, c1)" "rod_core q1"
    "rod_pos (A + n) q1" "win_of (A + n) q1 = win_advance n (win_of A q)"
    "(c1, rsc q1) = deliver_all (mtlk_detect_replay_or_sendup env) (held (take n (win_of A q))) (c, rsc q)"
    using move_window_loop_refines [OF A(2,3), of env now n c] by auto
  show ?thesis
    using rod_wrap_head_props [OF 1(2,3), of c1 "A + n"] 1 assms(2) A(1)
    by (auto simp: rod_move_window_def rod_sim_def spec_advance_def)
qed

lemma rod_core_bounds:
  assumes "rod_core q"
  shows "0 < window_size q" "window_size q \<le> 64" "length (nbuf q) = 64" "x mod window_size q < 64"
    "x mod window_size q < window_size q"
proof -
  show W: "0 < window_size q" "window_size q \<le> 64" "length (nbuf q) = 64"
    using assms by (auto simp: rod_core_def rod_consts)
  show m: "x mod window_size q < window_size q"
    using W by simp
  show "x mod window_size q < 64"
    using m W by linarith
qed

text \<open>The release loop gives away exactly the packets up to the first gap.\<close>
lemma retire_rod_loop_refines:
  assumes "rod_core q" "rod_pos A q" "loc = A mod window_size q"
  shows "\<exists>q' c'. retire_rod_loop env now loc n (q, c) = Inr (n + ready_prefix (win_of A q), q', c')
    \<and> rod_core q' \<and> rod_pos (A + ready_prefix (win_of A q)) q' \<and> window_size q' = window_size q
    \<and> win_of (A + ready_prefix (win_of A q)) q'
        = win_advance (ready_prefix (win_of A q)) (win_of A q)
    \<and> (c', rsc q') = deliver_all (mtlk_detect_replay_or_sendup env)
        (held (take (ready_prefix (win_of A q)) (win_of A q))) (c, rsc q)"
  using assms
proof (induction "ready_prefix (win_of A q)" arbitrary: q c A n loc)
  case (0 q A)
  have "hd (win_of A q) = None"
    using 0(1) win_of_nonempty [OF 0(2), of A]
    by (cases "win_of A q") (auto simp: ready_prefix_def split: if_splits)
  then have "nbuf q ! loc = None"
    using hd_win_of [OF 0(2), of A] 0(4) by simp
  then show ?case
    using 0 rod_core_bounds(1-3) [OF 0(2)] rod_core_bounds(4,5) [OF 0(2), of A]
    by (subst retire_rod_loop.simps) (simp flip: 0(1))
next
  case (Suc k q A)
  let ?ws = "win_of A q"
  obtain x xs where ws: "?ws = Some x # xs"
    using Suc(2) win_of_nonempty [OF Suc(3), of A]
    by (cases "win_of A q") (auto simp: ready_prefix_def split: if_splits)
  have occ: "nbuf q ! loc \<noteq> None"
    using hd_win_of [OF Suc(3), of A] Suc(5) ws by (metis list.sel(1) option.distinct(1))
  have b: "loc < 64" "loc < window_size q" "length (nbuf q) = 64"
    using rod_core_bounds(1-3) [OF Suc(3)] rod_core_bounds(4,5) [OF Suc(3), of A] Suc(5) by simp_all
  have "loc mod window_size q = A mod window_size q"
    using Suc(5) by simp
  then obtain r q1 c1 where 1: "retire_slot env now loc (q, c) = Inr (r, q1, c1)" "rod_core q1"
    "head q1 = head q" "window_size q1 = window_size q" "win_of (A + 1) q1 = xs @ [None]"
    "(c1, rsc q1) = deliver_all (mtlk_detect_replay_or_sendup env) [x] (c, rsc q)"
    using retire_head [OF Suc(3), of loc A env now c] ws by (metis list.sel(1,3) opt_list_simps(2))
  let ?q = "q1\<lparr>head := u32_inc (head q1)\<rparr>"
  let ?loc = "if window_size q1 \<le> loc + 1 then 0 else loc + 1"
  have k: "k = ready_prefix (win_of (A + 1) ?q)"
    using Suc(2) ws 1(5) ready_prefix_Some [of x xs] by simp
  have pos: "rod_pos (A + 1) ?q"
    using rod_pos_inc [of A q1] Suc(4) 1(3) by (simp add: rod_pos_def)
  have loc': "?loc = (A + 1) mod window_size ?q"
    using Suc(5) b(2) 1(4) mod_Suc [of A "window_size q"] by simp
  obtain q' c' where 2: "retire_rod_loop env now ?loc (n + 1) (?q, c1) = Inr (n + 1 + k, q', c')"
    "rod_core q'" "rod_pos (A + 1 + k) q'" "window_size q' = window_size ?q"
    "win_of (A + 1 + k) q' = win_advance k (win_of (A + 1) ?q)"
    "(c', rsc q') = deliver_all (mtlk_detect_replay_or_sendup env)
        (held (take k (win_of (A + 1) ?q))) (c1, rsc ?q)"
    using Suc(1) [OF k _ pos loc', of "n + 1" c1] 1(2) unfolding k [symmetric] by auto
  have "retire_rod_loop env now loc n (q, c) = retire_rod_loop env now ?loc (n + 1) (?q, c1)"
    using occ b 1(1) by (subst retire_rod_loop.simps) auto
  then show ?case
    using 2 1 Suc(2) [symmetric] ws win_advance_Suc [of ?ws k] held_take_Suc [of ?ws k]
    by (auto simp: deliver_all_append)
qed

lemma retire_rod_queue_refines:
  assumes "rod_sim q w" "spec_ready w = (rel, w')"
  shows "\<exists>n q' c'. retire_rod_queue env now (q, c) = Inr (n, q', c') \<and> rod_sim q' w'
    \<and> (c', rsc q') = deliver_all (mtlk_detect_replay_or_sendup env) rel (c, rsc q)"
proof -
  obtain A where A: "w = (A, win_of A q)" "rod_core q" "rod_pos A q"
    using assms(1) by (cases w) (auto simp: rod_sim_def rod_inv_def)
  let ?k = "ready_prefix (win_of A q)"
  obtain q1 c1 where 1:
    "retire_rod_loop env now (head q mod window_size q) 0 (q, c) = Inr (?k, q1, c1)"
    "rod_core q1" "rod_pos (A + ?k) q1" "win_of (A + ?k) q1 = win_advance ?k (win_of A q)"
    "(c1, rsc q1) = deliver_all (mtlk_detect_replay_or_sendup env) (held (take ?k (win_of A q))) (c, rsc q)"
    using retire_rod_loop_refines [OF A(2,3) rod_pos_slot [OF A(2,3)], of env now 0 c] by auto
  show ?thesis
    using rod_wrap_head_props [OF 1(2,3), of c1 "A + ?k"] 1 assms(2) A rod_core_bounds(1) [OF A(2)]
    by (auto simp: retire_rod_queue_def rod_sim_def spec_advance_def spec_ready_def)
qed

text \<open>Flushing terminates, releases everything in order and leaves the window empty.\<close>

lemma slots_used_win_of:
  assumes "rod_core q"
  shows "last_used (win_of A q) = 0 \<longleftrightarrow> slots_used (nbuf q) = 0"
proof -
  let ?W = "window_size q"
  have W: "0 < ?W" "?W \<le> 64" "length (nbuf q) = 64"
    using rod_core_bounds [OF assms] by auto
  have "(\<forall>x \<in> set (win_of A q). x = None) \<longleftrightarrow> (\<forall>i < ?W. nbuf q ! ((A + i) mod ?W) = None)"
    by (auto simp: win_of_def)
  also have "\<dots> \<longleftrightarrow> (\<forall>j < ?W. nbuf q ! j = None)"
  proof (intro iffI allI impI)
    fix j assume all: "\<forall>i < ?W. nbuf q ! ((A + i) mod ?W) = None" and j: "j < ?W"
    define i where "i = (j + (?W - A mod ?W)) mod ?W"
    have "(A + i) mod ?W = (A mod ?W + (j + (?W - A mod ?W))) mod ?W"
      unfolding i_def by (simp add: mod_add_left_eq mod_add_right_eq)
    also have "A mod ?W + (j + (?W - A mod ?W)) = j + ?W"
      using mod_less_divisor [OF W(1), of A] by linarith
    also have "(j + ?W) mod ?W = j"
      using j by simp
    finally show "nbuf q ! j = None"
      using all W by (metis i_def mod_less_divisor)
  qed (use W in auto)
  also have "\<dots> \<longleftrightarrow> (\<forall>j < 64. nbuf q ! j = None)"
    using assms W by (auto simp: rod_core_def rod_consts not_less)
  finally show ?thesis
    by (simp add: last_used_0 slots_used_0 W(3))
qed

lemma mtlk_flush_rod_queue_refines:
  assumes "rod_sim q w" "spec_flush w = (rel, w')"
  shows "\<exists>q' c'. mtlk_flush_rod_queue env now (q, c) = Some (Inr (q', c')) \<and> rod_sim q' w'
    \<and> (c', rsc q') = deliver_all (mtlk_detect_replay_or_sendup env) rel (c, rsc q) \<and> q_count q' = 0"
  using assms
proof (induction "last_used (snd w)" arbitrary: q c w rel)
  case 0
  have core: "rod_core q" and w: "snd w = win_of (fst w) q"
    using 0(2) by (auto simp: rod_sim_def rod_inv_def)
  then have "q_count q = 0"
    using slots_used_win_of [OF core] 0(1) by (simp add: rod_core_def)
  then show ?case
    using 0 by (subst mtlk_flush_rod_queue.simps) (auto simp: spec_flush_def spec_advance_def)
next
  case (Suc k)
  have core: "rod_core q" and w: "snd w = win_of (fst w) q"
    using Suc(3) by (auto simp: rod_sim_def rod_inv_def)
  have cnt: "q_count q \<noteq> 0"
    using slots_used_win_of [OF core, of "fst w"] Suc(2) w core by (simp add: rod_core_def)
  let ?w1 = "(fst w + 1, win_advance 1 (snd w))"
  have ne: "snd w \<noteq> []"
    using win_of_nonempty [OF core] w by simp
  have adv1: "win_advance 1 (snd w) = tl (snd w) @ [None]"
    using win_advance_Suc [OF ne, of 0] by simp
  have k: "k = last_used (snd ?w1)"
    using last_used_shift [of "snd w"] Suc(2) adv1 by simp
  obtain q1 c1 where 1: "rod_move_window env now 1 (q, c) = Inr (q1, c1)" "rod_sim q1 ?w1"
    "(c1, rsc q1) = deliver_all (mtlk_detect_replay_or_sendup env) (held (take 1 (snd w))) (c, rsc q)"
    using rod_move_window_refines [OF Suc(3), of 1 "held (take 1 (snd w))" ?w1 env now c]
    by (auto simp: spec_advance_def)
  obtain rel2 where rel2: "spec_flush ?w1 = (rel2, w')" "rel = held (take 1 (snd w)) @ rel2"
    using Suc(4) adv1 Suc(2) [symmetric] k [symmetric] win_advance_Suc [OF ne, of k]
      held_take_Suc [OF ne, of k] held_take_Suc [OF ne, of 0]
    by (auto simp: spec_flush_def spec_advance_def)
  have "mtlk_flush_rod_queue env now (q, c) = mtlk_flush_rod_queue env now (q1, c1)"
    using cnt 1(1) by (subst mtlk_flush_rod_queue.simps) simp
  then show ?case
    using Suc(1) [OF k 1(2) rel2(1), of c1] 1(3) rel2(2) by (auto simp: deliver_all_append)
qed

subsection \<open>Receiving a packet\<close>

text \<open>The distance of the source, for a number at most 2048 ahead or less than 2048 behind.\<close>
lemma SEQ_DISTANCE_mod:
  assumes "h < SEQUENCE_NUMBER_LIMIT" "s < SEQUENCE_NUMBER_LIMIT"
  shows "SEQ_DISTANCE h s = (s + SEQUENCE_NUMBER_LIMIT - h) mod SEQUENCE_NUMBER_LIMIT"
proof -
  have "SEQ_DISTANCE h s = u32_sub s h mod SEQUENCE_NUMBER_LIMIT"
    unfolding SEQ_DISTANCE_def mod_mod_cancel [OF seq_limit_dvd] by simp
  also have "\<dots> = (s + u32_max - h) mod SEQUENCE_NUMBER_LIMIT"
    unfolding u32_sub_def by (rule mod_mod_cancel [OF seq_limit_dvd])
  also have "s + u32_max - h = (s + SEQUENCE_NUMBER_LIMIT - h)
      + SEQUENCE_NUMBER_LIMIT * (u32_max div SEQUENCE_NUMBER_LIMIT - 1)"
    using assms by (simp add: SEQUENCE_NUMBER_LIMIT_def u32_max_def)
  finally show ?thesis by simp
qed

lemma SEQ_DISTANCE_absolute:
  fixes A n :: nat
  assumes "h = A mod SEQUENCE_NUMBER_LIMIT"
  shows "A \<le> n \<Longrightarrow> n \<le> A + 2048 \<Longrightarrow> SEQ_DISTANCE h (n mod SEQUENCE_NUMBER_LIMIT) = n - A"
    and "n < A \<Longrightarrow> A < n + 2048 \<Longrightarrow>
      SEQ_DISTANCE h (n mod SEQUENCE_NUMBER_LIMIT) = SEQUENCE_NUMBER_LIMIT - (A - n)"
proof -
  define L where "L = SEQUENCE_NUMBER_LIMIT"
  have L: "L = 4096" "A mod L < L"
    by (simp_all add: L_def SEQUENCE_NUMBER_LIMIT_def)
  have "SEQ_DISTANCE h (n mod L) = (n mod L + L - A mod L) mod L"
    using assms unfolding L_def by (subst SEQ_DISTANCE_mod) (simp_all add: SEQUENCE_NUMBER_LIMIT_def)
  also have "n mod L + L - A mod L = n mod L + (L - A mod L)"
    using L by simp
  also have "\<dots> mod L = (n + (L - A mod L)) mod L"
    by (rule mod_add_left_eq)
  finally have eq: "SEQ_DISTANCE h (n mod L) = (n + (L - A mod L)) mod L" .
  obtain r a where ra: "A mod L = r" "A = r + L * a" "r < L"
    using L(2) by (metis mod_mult_div_eq)
  show "SEQ_DISTANCE h (n mod SEQUENCE_NUMBER_LIMIT) = n - A" if "A \<le> n" "n \<le> A + 2048"
  proof -
    have "n + (L - r) = (n - A) + L * (a + 1)"
      using that ra(2,3) unfolding L(1) by (simp add: algebra_simps)
    then have "SEQ_DISTANCE h (n mod L) = ((n - A) + L * (a + 1)) mod L"
      using eq ra(1) by simp
    also have "\<dots> = (n - A) mod L" by (rule mod_mult_self2)
    finally show ?thesis
      using that L(1) by (simp add: L_def)
  qed
  show "SEQ_DISTANCE h (n mod SEQUENCE_NUMBER_LIMIT) = SEQUENCE_NUMBER_LIMIT - (A - n)"
    if "n < A" "A < n + 2048"
  proof -
    have "n + (L - r) = (L - (A - n)) + L * a"
      using that ra(2,3) unfolding L(1) by (simp add: algebra_simps)
    then have "SEQ_DISTANCE h (n mod L) = ((L - (A - n)) + L * a) mod L"
      using eq ra(1) by simp
    also have "\<dots> = (L - (A - n)) mod L" by (rule mod_mult_self2)
    finally show ?thesis
      using that L(1) by (simp add: L_def)
  qed
qed

lemma window_index_inj:
  fixes A :: nat
  assumes "i < W" "d < W" "(A + i) mod W = (A + d) mod W"
  shows "i = d"
proof -
  have *: "i = d" if "i \<le> d" "i < W" "d < W" "(A + i) mod W = (A + d) mod W" for i d
  proof -
    have "W dvd (A + d) - (A + i)"
      using that mod_eq_dvd_iff_nat [of "A + i" "A + d" W] by simp
    then show ?thesis using that by (auto dest: dvd_imp_le)
  qed
  show ?thesis
    using * [of i d] * [of d i] assms by (cases i d rule: le_cases) auto
qed

lemma win_of_update:
  assumes "rod_core q" "d < window_size q"
  shows "win_of A (q\<lparr>nbuf := (nbuf q)[(A + d) mod window_size q := x]\<rparr>) = (win_of A q)[d := x]"
proof (rule nth_equalityI, goal_cases)
  case (2 i)
  then have i: "i < window_size q" by simp
  have "(A + d) mod window_size q < length (nbuf q)"
    using rod_core_bounds(3) [OF assms(1)] rod_core_bounds(4) [OF assms(1), of "A + d"] by simp
  then show ?case
    using i assms(2) window_index_inj [OF i assms(2), of A]
    by (cases "i = d") (auto simp: win_of_def nth_list_update)
qed simp

text \<open>What an operation that releases \<open>rel\<close> and discards \<open>drp\<close> does to the core and the replay counter.\<close>
definition rod_effect ::
    "os_env \<Rightarrow> mtlk_nbuf list \<Rightarrow> mtlk_nbuf list \<Rightarrow> mtlk_core \<times> byte list \<Rightarrow> mtlk_core \<times> byte list" where
  "rod_effect env rel drp s =
     (let (c, r) = deliver_all (mtlk_detect_replay_or_sendup env) rel s
      in (fold (\<lambda>nb. core_emit (Nbuf_free nb)) drp c, r))"

lemma rod_effect_nodrop: "rod_effect env rel [] s = deliver_all (mtlk_detect_replay_or_sendup env) rel s"
  by (simp add: rod_effect_def split: prod.split)

lemma rod_core_stats [simp]:
  "rod_core (q\<lparr>rod_stats := x\<rparr>) = rod_core q" "rod_core (mtlk_rod_inc_cnt i q) = rod_core q"
  by (simp_all add: rod_core_def mtlk_rod_inc_cnt_def)

lemma rod_sim_stats [simp]:
  "rod_sim (q\<lparr>rod_stats := x\<rparr>) w = rod_sim q w" "rod_sim (mtlk_rod_inc_cnt i q) w = rod_sim q w"
  by (simp_all add: rod_sim_def rod_inv_def rod_pos_def win_of_def mtlk_rod_inc_cnt_def rod_core_def)

lemma rod_inc_cnt_rsc [simp]: "rsc (mtlk_rod_inc_cnt i q) = rsc q"
  by (simp add: mtlk_rod_inc_cnt_def)

lemma rod_simD:
  assumes "rod_sim q w"
  shows "rod_core q" "rod_pos (fst w) q" "snd w = win_of (fst w) q"
    "length (snd w) = window_size q" "head q = fst w mod SEQUENCE_NUMBER_LIMIT" "used q = 1"
  using assms by (auto simp: rod_sim_def rod_inv_def rod_pos_def rod_core_def)

lemma rod_insert_refines:
  assumes sim: "rod_sim q w" and n: "fst w \<le> n" "n < fst w + length (snd w)"
    and spec: "spec_insert n nb w = (rel, drp, w')"
  shows "\<exists>q' c'. rod_insert env now (n mod SEQUENCE_NUMBER_LIMIT) nb (q, c) = Inr (q', c')
    \<and> rod_sim q' w' \<and> (c', rsc q') = rod_effect env rel drp (c, rsc q)"
proof -
  define A where "A = fst w"
  define d where "d = n - A"
  have core: "rod_core q" and ws: "snd w = win_of A q" and d: "d < window_size q" "n = A + d"
    using rod_simD [OF sim] n by (auto simp: A_def d_def)
  let ?W = "window_size q" and ?loc = "n mod window_size q"
  have loc: "(n mod SEQUENCE_NUMBER_LIMIT) mod ?W = ?loc"
    using core by (intro mod_mod_cancel) (simp add: rod_core_def)
  have b: "0 < ?W" "?loc < 64" "length (nbuf q) = 64"
    using rod_core_bounds(1,3) [OF core] rod_core_bounds(4) [OF core, of n] by auto
  have slot: "snd w ! (n - fst w) = nbuf q ! ?loc"
    using win_of_nth [OF d(1), of A] ws d by (simp add: A_def)
  show ?thesis
  proof (cases "nbuf q ! ?loc")
    case (Some y)
    then show ?thesis
      using spec slot sim b loc
      by (auto simp: rod_insert_def spec_insert_def rod_consts rod_effect_def)
  next
    case None
    let ?q = "q\<lparr>nbuf := (nbuf q)[?loc := Some nb], q_count := u32_inc (q_count q),
                rod_stats := (rod_stats q)\<lparr>queued := u32_inc (queued (rod_stats q))\<rparr>\<rparr>"
    have "slots_used (nbuf q) < 64"
      using slots_used_update_Some [of ?loc "nbuf q" nb] None b
        slots_used_le [of "(nbuf q)[?loc := Some nb]"] by simp
    then have "u32_inc (q_count q) = Suc (slots_used (nbuf q))"
      using core by (simp add: rod_core_def u32_inc_def u32_max_def)
    moreover have "\<forall>i. ?W \<le> i \<longrightarrow> i \<noteq> ?loc"
      using b by (metis mod_less_divisor not_le)
    ultimately have "rod_core ?q"
      using core None b slots_used_update_Some [of ?loc "nbuf q" nb]
      by (auto simp: rod_core_def rod_consts nth_list_update)
    then have sim': "rod_sim ?q (A, (snd w)[n - fst w := Some nb])"
      using sim win_of_update [OF core d(1), of A "Some nb"] ws d
      by (auto simp: rod_sim_def rod_inv_def rod_pos_def A_def win_of_def)
    obtain rel0 w0 where ready: "spec_ready (A, (snd w)[n - fst w := Some nb]) = (rel0, w0)"
      by (metis surj_pair)
    then have out: "rel = rel0" "drp = []" "w' = w0"
      using spec slot None by (auto simp: spec_insert_def A_def)
    obtain m q' c' where "retire_rod_queue env now (?q, c) = Inr (m, q', c')" "rod_sim q' w0"
      "(c', rsc q') = deliver_all (mtlk_detect_replay_or_sendup env) rel0 (c, rsc ?q)"
      using retire_rod_queue_refines [OF sim' ready] by blast
    then show ?thesis
      using None b loc out by (simp add: rod_insert_def rod_consts rod_effect_nodrop)
  qed
qed

text \<open>
  Packet number \<open>n\<close> is received while the receiver is at \<open>A\<close>: it is not more than half the sequence
  space away, which is what the 12-bit numbers can tell apart.
\<close>
definition within_reach :: "nat \<Rightarrow> nat \<Rightarrow> bool" where
  "within_reach A n = (n \<le> A + 2048 \<and> A < n + 2048)"

lemma mtlk_reorder_packet_refines:
  assumes sim: "rod_sim q w" and reach: "within_reach (fst w) n"
    and spec: "spec_receive n nb w = (rel, drp, w')"
  shows "\<exists>q' c'. mtlk_reorder_packet env now (n mod SEQUENCE_NUMBER_LIMIT) nb (q, c) = Inr (q', c')
    \<and> rod_sim q' w' \<and> (c', rsc q') = rod_effect env rel drp (c, rsc q)"
proof -
  note D = rod_simD [OF sim]
  have W: "window_size q \<le> 64" "0 < window_size q"
    using rod_core_bounds(1,2) [OF D(1)] by auto
  consider (old) "n < fst w" | (ahead) "fst w + length (snd w) \<le> n"
    | (inside) "fst w \<le> n" "n < fst w + length (snd w)" by linarith
  then show ?thesis
  proof cases
    case old
    then have "SEQ_DISTANCE (head q) (n mod SEQUENCE_NUMBER_LIMIT) > SEQUENCE_NUMBER_LIMIT div 2"
      using SEQ_DISTANCE_absolute(2) [OF D(5)] reach
      by (simp add: within_reach_def SEQUENCE_NUMBER_LIMIT_def)
    then show ?thesis
      using old spec sim D(6)
      by (auto simp: mtlk_reorder_packet_def spec_receive_def rod_effect_def Let_def)
  next
    case inside
    then have "SEQ_DISTANCE (head q) (n mod SEQUENCE_NUMBER_LIMIT) = n - fst w"
      using SEQ_DISTANCE_absolute(1) [OF D(5)] reach by (simp add: within_reach_def)
    moreover have "\<not> 2048 < n - fst w" "\<not> window_size q \<le> n - fst w"
      using inside D(4) W by linarith+
    ultimately have "mtlk_reorder_packet env now (n mod SEQUENCE_NUMBER_LIMIT) nb (q, c)
        = rod_insert env now (n mod SEQUENCE_NUMBER_LIMIT) nb (q, c)"
      using D(6) by (simp add: mtlk_reorder_packet_def SEQUENCE_NUMBER_LIMIT_def Let_def)
    moreover have "spec_insert n nb w = (rel, drp, w')"
      using spec inside by (simp add: spec_receive_def)
    ultimately show ?thesis
      using rod_insert_refines [OF sim inside] by metis
  next
    case ahead
    let ?m = "n - fst w - window_size q + 1"
    let ?q = "q\<lparr>rod_stats := (rod_stats q)\<lparr>overflows := u32_inc (overflows (rod_stats q))\<rparr>\<rparr>"
    have "SEQ_DISTANCE (head q) (n mod SEQUENCE_NUMBER_LIMIT) = n - fst w"
      using SEQ_DISTANCE_absolute(1) [OF D(5)] reach ahead by (simp add: within_reach_def)
    moreover have "\<not> 2048 < n - fst w" "window_size q \<le> n - fst w"
      using ahead reach D(4) W unfolding within_reach_def by linarith+
    ultimately have step: "mtlk_reorder_packet env now (n mod SEQUENCE_NUMBER_LIMIT) nb (q, c)
        = bind_result (rod_move_window env now ?m (?q, c))
            (rod_insert env now (n mod SEQUENCE_NUMBER_LIMIT) nb)"
      using D(6) by (simp add: mtlk_reorder_packet_def SEQUENCE_NUMBER_LIMIT_def Let_def)
    obtain rel1 w1 rel2 where sp: "spec_advance ?m w = (rel1, w1)"
      "spec_insert n nb w1 = (rel2, drp, w')" "rel = rel1 @ rel2"
      using spec ahead D(4) W by (auto simp: spec_receive_def Let_def split: prod.splits)
    then have w1: "fst w1 = fst w + ?m" "length (snd w1) = window_size q"
      using D(4) by (auto simp: spec_advance_def)
    have "rod_sim ?q w" using sim by simp
    from rod_move_window_refines [OF this sp(1)]
    obtain q1 c1 where 1: "rod_move_window env now ?m (?q, c) = Inr (q1, c1)" "rod_sim q1 w1"
      "(c1, rsc q1) = deliver_all (mtlk_detect_replay_or_sendup env) rel1 (c, rsc ?q)" by blast
    have "fst w1 \<le> n" "n < fst w1 + length (snd w1)"
      using w1 ahead D(4) W by linarith+
    from rod_insert_refines [OF 1(2) this sp(2)]
    obtain q2 c2 where "rod_insert env now (n mod SEQUENCE_NUMBER_LIMIT) nb (q1, c1) = Inr (q2, c2)"
      "rod_sim q2 w'" "(c2, rsc q2) = rod_effect env rel2 drp (c1, rsc q1)" by blast
    then show ?thesis
      using step 1 sp(3) by (simp add: rod_effect_def deliver_all_append)
  qed
qed

lemma mtlk_rod_process_bar_refines:
  assumes sim: "rod_sim q w" and reach: "within_reach (fst w) n"
    and spec: "spec_bar n w = (rel, w')"
  shows "\<exists>q' c'. mtlk_rod_process_bar env now (n mod SEQUENCE_NUMBER_LIMIT) (q, c) = Inr (0, q', c')
    \<and> rod_sim q' w' \<and> (c', rsc q') = rod_effect env rel [] (c, rsc q)"
proof -
  note D = rod_simD [OF sim]
  show ?thesis
  proof (cases "n < fst w")
    case True
    then have "SEQ_DISTANCE (head q) (n mod SEQUENCE_NUMBER_LIMIT) > SEQUENCE_NUMBER_LIMIT div 2"
      using SEQ_DISTANCE_absolute(2) [OF D(5)] reach
      by (simp add: within_reach_def SEQUENCE_NUMBER_LIMIT_def)
    then show ?thesis
      using True spec sim D(6)
      by (simp add: mtlk_rod_process_bar_def spec_bar_def rod_effect_nodrop Let_def)
  next
    case False
    obtain rel1 w1 rel2 where sp: "spec_advance (n - fst w) w = (rel1, w1)"
      "spec_ready w1 = (rel2, w')" "rel = rel1 @ rel2"
      using spec False by (auto simp: spec_bar_def Let_def split: prod.splits)
    obtain q1 c1 where 1: "rod_move_window env now (n - fst w) (q, c) = Inr (q1, c1)" "rod_sim q1 w1"
      "(c1, rsc q1) = deliver_all (mtlk_detect_replay_or_sendup env) rel1 (c, rsc q)"
      using rod_move_window_refines [OF sim sp(1)] by blast
    obtain m q2 c2 where 2: "retire_rod_queue env now (q1, c1) = Inr (m, q2, c2)" "rod_sim q2 w'"
      "(c2, rsc q2) = deliver_all (mtlk_detect_replay_or_sendup env) rel2 (c1, rsc q1)"
      using retire_rod_queue_refines [OF 1(2) sp(2)] by blast
    have "SEQ_DISTANCE (head q) (n mod SEQUENCE_NUMBER_LIMIT) = n - fst w"
      using SEQ_DISTANCE_absolute(1) [OF D(5)] reach False by (simp add: within_reach_def)
    moreover have "\<not> 2048 < n - fst w"
      using reach False unfolding within_reach_def by linarith
    ultimately have "mtlk_rod_process_bar env now (n mod SEQUENCE_NUMBER_LIMIT) (q, c) = Inr (0, q2, c2)"
      using D(6) 1(1) 2(1) by (simp add: mtlk_rod_process_bar_def SEQUENCE_NUMBER_LIMIT_def Let_def)
    then show ?thesis
      using 1 2 sp(3) by (simp add: rod_effect_nodrop deliver_all_append)
  qed
qed

subsection \<open>Runs\<close>

text \<open>
  The life of an agreement: received packets, block-ack requests (both with their absolute number,
  of which the air carries the low 12 bits) and ticks of the flush timer.
\<close>
datatype rod_event = Rx_packet nat mtlk_nbuf | Rx_bar nat | Flush_timer

fun rod_step :: "os_env \<Rightarrow> nat \<times> rod_event \<Rightarrow> rod_state \<Rightarrow> (c_fault + rod_state) option" where
  "rod_step env (now, Rx_packet n nb) s =
     Some (mtlk_reorder_packet env now (n mod SEQUENCE_NUMBER_LIMIT) nb s)"
| "rod_step env (now, Rx_bar n) s =
     Some (bind_result (mtlk_rod_process_bar env now (n mod SEQUENCE_NUMBER_LIMIT) s) (\<lambda>(_, s). Inr s))"
| "rod_step env (now, Flush_timer) s = mtlk_handle_rod_queue_timer env now s"

fun rod_run :: "os_env \<Rightarrow> (nat \<times> rod_event) list \<Rightarrow> rod_state \<Rightarrow> (c_fault + rod_state) option" where
  "rod_run env [] s = Some (Inr s)"
| "rod_run env (e # es) s =
     (case rod_step env e s of
        Some (Inr s') \<Rightarrow> rod_run env es s'
      | r \<Rightarrow> r)"

text \<open>
  The head of the receiver in the stream of absolute numbers, and whether every received number is
  within reach of it, followed along the run of the code.
\<close>
definition abs_head :: "nat \<Rightarrow> reordering_queue \<Rightarrow> nat" where
  "abs_head A q = A + SEQ_DISTANCE (A mod SEQUENCE_NUMBER_LIMIT) (head q)"

fun event_reach :: "nat \<Rightarrow> rod_event \<Rightarrow> bool" where
  "event_reach A (Rx_packet n nb) = within_reach A n"
| "event_reach A (Rx_bar n) = within_reach A n"
| "event_reach A Flush_timer = True"

inductive spec_step :: "nat \<times> mtlk_nbuf option list \<Rightarrow> rod_event
    \<Rightarrow> mtlk_nbuf list \<Rightarrow> mtlk_nbuf list \<Rightarrow> nat \<times> mtlk_nbuf option list \<Rightarrow> bool" where
  receive: "within_reach (fst w) n \<Longrightarrow> spec_receive n nb w = (rel, drp, w')
      \<Longrightarrow> spec_step w (Rx_packet n nb) rel drp w'"
| bar: "within_reach (fst w) n \<Longrightarrow> spec_bar n w = (rel, w') \<Longrightarrow> spec_step w (Rx_bar n) rel [] w'"
| tick_idle: "spec_step w Flush_timer [] [] w"
| tick_flush: "spec_flush w = (rel, w') \<Longrightarrow> spec_step w Flush_timer rel [] w'"

inductive_cases spec_packetE: "spec_step w (Rx_packet n nb) rel drp w'"
inductive_cases spec_barE: "spec_step w (Rx_bar n) rel drp w'"
inductive_cases spec_tickE: "spec_step w Flush_timer rel drp w'"

lemma rod_step_refines:
  assumes "rod_sim q w" "event_reach (fst w) e"
  shows "\<exists>q' c' rel drp w'. rod_step env (now, e) (q, c) = Some (Inr (q', c'))
    \<and> spec_step w e rel drp w' \<and> rod_sim q' w' \<and> (c', rsc q') = rod_effect env rel drp (c, rsc q)"
proof (cases e)
  case (Rx_packet n nb)
  obtain rel drp w' where sp: "spec_receive n nb w = (rel, drp, w')" by (metis prod_cases3)
  show ?thesis
    using mtlk_reorder_packet_refines [OF assms(1) _ sp, of env now c] assms(2) Rx_packet
      spec_step.receive [OF _ sp] by fastforce
next
  case (Rx_bar n)
  obtain rel w' where sp: "spec_bar n w = (rel, w')" by (metis surj_pair)
  show ?thesis
    using mtlk_rod_process_bar_refines [OF assms(1) _ sp, of env now c] assms(2) Rx_bar
      spec_step.bar [OF _ sp] by fastforce
next
  case Flush_timer
  obtain rel w' where sp: "spec_flush w = (rel, w')" by (metis surj_pair)
  show ?thesis
  proof (cases "used q = 1 \<and> q_count q \<noteq> 0 \<and> time_after env now
      ((last_sent q + msecs_to_jiffies env ROD_QUEUE_FLUSH_TIMEOUT_MS) mod u32_max)")
    case True
    obtain q' c' where "mtlk_flush_rod_queue env now (q, c) = Some (Inr (q', c'))" "rod_sim q' w'"
      "(c', rsc q') = rod_effect env rel [] (c, rsc q)"
      using mtlk_flush_rod_queue_refines [OF assms(1) sp, of env now c]
      by (auto simp: rod_effect_nodrop)
    moreover from this have "rod_step env (now, e) (q, c) = Some (Inr (q', c'))"
      using True Flush_timer by (simp add: mtlk_handle_rod_queue_timer_def)
    ultimately show ?thesis
      using spec_step.tick_flush [OF sp] Flush_timer by blast
  next
    case False
    have "rod_step env (now, e) (q, c) = Some (Inr (q, c))"
      using False Flush_timer by (auto simp: mtlk_handle_rod_queue_timer_def)
    then show ?thesis
      using assms(1) spec_step.tick_idle [of w] Flush_timer rod_effect_nodrop [of env "[]" "(c, rsc q)"]
      by (metis deliver_all.simps(1))
  qed
qed

subsection \<open>Order\<close>

text \<open>Every stored packet carries the number of its position.\<close>
definition labelled :: "('a \<Rightarrow> nat) \<Rightarrow> nat \<Rightarrow> 'a option list \<Rightarrow> bool" where
  "labelled lab A ws = (\<forall>i p. i < length ws \<longrightarrow> ws ! i = Some p \<longrightarrow> lab p = A + i)"

text \<open>A batch of packets is in order and lies between two positions of the stream.\<close>
definition in_order :: "('a \<Rightarrow> nat) \<Rightarrow> nat \<Rightarrow> 'a list \<Rightarrow> nat \<Rightarrow> bool" where
  "in_order lab A ps B = (sorted_wrt (<) (map lab ps) \<and> (\<forall>p \<in> set ps. A \<le> lab p \<and> lab p < B) \<and> A \<le> B)"

lemma in_order_append:
  "in_order lab A ps B \<Longrightarrow> in_order lab B qs C \<Longrightarrow> in_order lab A (ps @ qs) C"
  by (force simp: in_order_def sorted_wrt_append)

lemma in_order_Nil [simp]: "in_order lab A [] B \<longleftrightarrow> A \<le> B"
  by (simp add: in_order_def)

lemma labelled_Cons:
  "labelled lab A (x # xs) \<longleftrightarrow> (\<forall>p. x = Some p \<longrightarrow> lab p = A) \<and> labelled lab (Suc A) xs"
  by (auto simp: labelled_def nth_Cons split: nat.splits)

lemma labelled_advance:
  assumes "labelled lab A ws"
  shows "in_order lab A (held (take n ws)) (A + n) \<and> labelled lab (A + n) (win_advance n ws)"
proof
  show "in_order lab A (held (take n ws)) (A + n)"
    using assms
  proof (induction ws arbitrary: A n)
    case (Cons x xs)
    show ?case
    proof (cases n)
      case (Suc m)
      have "in_order lab (Suc A) (held (take m xs)) (Suc A + m)"
        using Cons.IH [of "Suc A" m] Cons.prems by (simp only: labelled_Cons)
      moreover have "in_order lab A (opt_list x) (Suc A)"
        using Cons.prems by (cases x) (auto simp: in_order_def labelled_Cons)
      ultimately show ?thesis
        using in_order_append Suc by fastforce
    qed simp
  qed simp
  show "labelled lab (A + n) (win_advance n ws)"
    unfolding labelled_def
  proof (intro allI impI)
    fix i p assume i: "i < length (win_advance n ws)" and p: "win_advance n ws ! i = Some p"
    have "i < length ws - n"
    proof (rule ccontr)
      assume "\<not> i < length ws - n"
      moreover from this i have "i - (length ws - n) < min n (length ws)"
        by (simp, arith)
      ultimately show False using p by (simp add: win_advance_def nth_append)
    qed
    then have "n + i < length ws" "ws ! (n + i) = Some p"
      using p by (simp_all add: win_advance_def nth_append)
    then show "lab p = A + n + i"
      using assms by (simp add: labelled_def)
  qed
qed

lemma spec_advance_order:
  assumes "spec_advance n w = (rel, w')" "labelled lab (fst w) (snd w)"
  shows "in_order lab (fst w) rel (fst w') \<and> labelled lab (fst w') (snd w')"
  using assms labelled_advance [of lab "fst w" "snd w" n] by (auto simp: spec_advance_def)

lemma spec_ready_order:
  assumes "spec_ready w = (rel, w')" "labelled lab (fst w) (snd w)"
  shows "in_order lab (fst w) rel (fst w') \<and> labelled lab (fst w') (snd w')"
  using spec_advance_order assms unfolding spec_ready_def by blast

lemma labelled_update:
  "labelled lab A ws \<Longrightarrow> A \<le> n \<Longrightarrow> lab p = n \<Longrightarrow> labelled lab A (ws[n - A := Some p])"
  unfolding labelled_def by (intro allI impI) (case_tac "i = n - A"; simp)

lemma spec_insert_order:
  assumes "spec_insert n p w = (rel, drp, w')" "labelled lab (fst w) (snd w)" "fst w \<le> n" "lab p = n"
  shows "in_order lab (fst w) rel (fst w') \<and> labelled lab (fst w') (snd w')"
proof (cases "snd w ! (n - fst w)")
  case None
  then have "spec_ready (fst w, (snd w)[n - fst w := Some p]) = (rel, w')"
    using assms(1) by (auto simp: spec_insert_def split: prod.splits)
  from spec_ready_order [OF this, of lab] show ?thesis
    using labelled_update [OF assms(2-4)] by simp
next
  case (Some y)
  then show ?thesis using assms by (simp add: spec_insert_def)
qed

lemma spec_step_order:
  assumes "spec_step w e rel drp w'" "labelled lab (fst w) (snd w)" "0 < length (snd w)"
    and "\<And>n nb. e = Rx_packet n nb \<Longrightarrow> lab nb = n"
  shows "in_order lab (fst w) rel (fst w') \<and> labelled lab (fst w') (snd w')"
  using assms
proof (cases rule: spec_step.cases)
  case (receive n nb)
  consider "n < fst w" | "fst w + length (snd w) \<le> n" | "fst w \<le> n" "n < fst w + length (snd w)"
    by linarith
  then show ?thesis
  proof cases
    case 1
    then show ?thesis using receive assms(2) by (simp add: spec_receive_def)
  next
    case 2
    obtain rel1 w1 rel2 where sp:
      "spec_advance (n - fst w - length (snd w) + 1) w = (rel1, w1)"
      "spec_insert n nb w1 = (rel2, drp, w')" "rel = rel1 @ rel2"
      using receive 2 assms(3) by (auto simp: spec_receive_def Let_def split: prod.splits)
    note o1 = spec_advance_order [OF sp(1) assms(2)]
    have "fst w1 \<le> n"
    proof -
      have "fst w1 = fst w + (n - fst w - length (snd w) + 1)"
        using sp(1) by (auto simp: spec_advance_def)
      then show ?thesis using 2 assms(3) by linarith
    qed
    with spec_insert_order [OF sp(2), of lab] o1 show ?thesis
      using in_order_append [of lab "fst w" rel1 "fst w1" rel2 "fst w'"] sp(3) assms(4) receive by auto
  next
    case 3
    then show ?thesis
      using spec_insert_order [of n nb w rel drp w' lab] receive assms(2,4)
      by (simp add: spec_receive_def)
  qed
next
  case (bar n)
  show ?thesis
  proof (cases "n < fst w")
    case False
    then obtain rel1 w1 rel2 where sp: "spec_advance (n - fst w) w = (rel1, w1)"
      "spec_ready w1 = (rel2, w')" "rel = rel1 @ rel2"
      using bar by (auto simp: spec_bar_def Let_def split: prod.splits)
    from spec_advance_order [OF sp(1) assms(2)] spec_ready_order [OF sp(2), of lab] show ?thesis
      using in_order_append [of lab "fst w" rel1 "fst w1" rel2 "fst w'"] sp(3) by auto
  qed (use bar assms(2) in \<open>simp add: spec_bar_def\<close>)
next
  case tick_flush
  then show ?thesis using spec_advance_order assms(2) unfolding spec_flush_def by blast
qed simp

lemma spec_insert_shape:
  assumes "spec_insert n p w = (rel, drp, w')" "fst w \<le> n" "n < fst w + length (snd w)"
  shows "length (snd w') = length (snd w) \<and> fst w' \<le> fst w + length (snd w)
    \<and> mset (rel @ drp @ held (snd w')) = mset (p # held (snd w))"
proof (cases "snd w ! (n - fst w)")
  case (Some y)
  then show ?thesis using assms by (auto simp: spec_insert_def)
next
  case None
  let ?ws = "(snd w)[n - fst w := Some p]"
  have out: "rel = held (take (ready_prefix ?ws) ?ws)" "drp = []"
    "w' = (fst w + ready_prefix ?ws, win_advance (ready_prefix ?ws) ?ws)"
    using assms None by (auto simp: spec_insert_def spec_ready_def spec_advance_def)
  have d: "n - fst w < length (snd w)"
    using assms(2,3) by linarith
  have "mset (held ?ws) = mset (p # held (snd w))"
    using None id_take_nth_drop [OF d] upd_conv_take_nth_drop [OF d, of "Some p"]
    by (metis (no_types, lifting) held_simps(2,3) opt_list_simps append_Nil append_Cons
        mset.simps(2) mset_append union_mset_add_mset_right)
  then show ?thesis
    using out ready_prefix_le [of ?ws] held_advance [of "ready_prefix ?ws" ?ws]
    by (auto simp del: mset_append)
qed

lemma spec_advance_shape:
  assumes "spec_advance n w = (rel, w')"
  shows "length (snd w') = length (snd w)" "fst w' = fst w + n"
    "mset (rel @ held (snd w')) = mset (held (snd w))"
  using assms held_advance [of n "snd w"] by (auto simp: spec_advance_def simp del: mset_append)

fun event_packets :: "rod_event \<Rightarrow> mtlk_nbuf list" where
  "event_packets (Rx_packet n nb) = [nb]"
| "event_packets _ = []"

lemma spec_step_shape:
  assumes "spec_step w e rel drp w'" "0 < length (snd w)" "length (snd w) \<le> 64"
  shows "length (snd w') = length (snd w) \<and> fst w' < fst w + SEQUENCE_NUMBER_LIMIT
    \<and> mset (rel @ drp @ held (snd w')) = mset (event_packets e @ held (snd w))"
  using assms(1)
proof cases
  case (receive n nb)
  consider "n < fst w" | "fst w + length (snd w) \<le> n" | "fst w \<le> n" "n < fst w + length (snd w)"
    by linarith
  then show ?thesis
  proof cases
    case 1
    then show ?thesis
      using receive by (auto simp: spec_receive_def SEQUENCE_NUMBER_LIMIT_def)
  next
    case 2
    obtain rel1 w1 rel2 where sp:
      "spec_advance (n - fst w - length (snd w) + 1) w = (rel1, w1)"
      "spec_insert n nb w1 = (rel2, drp, w')" "rel = rel1 @ rel2"
      using receive 2 assms(2) by (auto simp: spec_receive_def Let_def split: prod.splits)
    note s1 = spec_advance_shape [OF sp(1)]
    have "fst w1 \<le> n" "n < fst w1 + length (snd w1)"
      using s1 2 assms(2) by linarith+
    note s2 = spec_insert_shape [OF sp(2) this]
    have "fst w' < fst w + 4096"
      using s1(1,2) s2 2 receive(2) assms(3) unfolding within_reach_def by linarith
    then show ?thesis
      using s1 s2 sp(3) receive(1) by (simp add: SEQUENCE_NUMBER_LIMIT_def ac_simps)
  next
    case 3
    then have "spec_insert n nb w = (rel, drp, w')"
      using receive by (simp add: spec_receive_def)
    from spec_insert_shape [OF this 3] show ?thesis
      using receive(1) assms(3) by (simp add: SEQUENCE_NUMBER_LIMIT_def)
  qed
next
  case (bar n)
  show ?thesis
  proof (cases "n < fst w")
    case True
    then show ?thesis
      using bar by (auto simp: spec_bar_def SEQUENCE_NUMBER_LIMIT_def)
  next
    case False
    then obtain rel1 w1 rel2 where sp: "spec_advance (n - fst w) w = (rel1, w1)"
      "spec_advance (ready_prefix (snd w1)) w1 = (rel2, w')" "rel = rel1 @ rel2"
      using bar by (auto simp: spec_bar_def spec_ready_def Let_def split: prod.splits)
    note s1 = spec_advance_shape [OF sp(1)] and s2 = spec_advance_shape [OF sp(2)]
    have "fst w' < fst w + 4096"
      using s1(1,2) s2(2) ready_prefix_le [of "snd w1"] bar(3) assms(3)
      unfolding within_reach_def by linarith
    then show ?thesis
      using s1 s2 sp(3) bar by (simp add: SEQUENCE_NUMBER_LIMIT_def ac_simps)
  qed
next
  case tick_idle
  then show ?thesis by (simp add: SEQUENCE_NUMBER_LIMIT_def)
next
  case tick_flush
  then have sp: "spec_advance (last_used (snd w)) w = (rel, w')"
    by (simp add: spec_flush_def)
  then show ?thesis
    using spec_advance_shape [OF sp] last_used_le [of "snd w"] assms(3) tick_flush
    by (simp add: SEQUENCE_NUMBER_LIMIT_def)
qed

lemma abs_head_sim:
  assumes "rod_sim q' w'" "A \<le> fst w'" "fst w' < A + SEQUENCE_NUMBER_LIMIT"
  shows "abs_head A q' = fst w'"
proof -
  define L where "L = SEQUENCE_NUMBER_LIMIT"
  obtain d where d: "fst w' = A + d" "d < L"
    using assms(2,3) unfolding L_def by (metis le_iff_add nat_add_left_cancel_less)
  have head: "head q' = (A + d) mod L"
    using rod_simD(5) [OF assms(1)] d by (simp add: L_def)
  have "SEQ_DISTANCE (A mod L) (head q') = (head q' + L - A mod L) mod L"
    unfolding L_def by (rule SEQ_DISTANCE_mod) (simp_all add: SEQUENCE_NUMBER_LIMIT_def head L_def)
  also have "head q' + L - A mod L = (A + d) mod L + (L - A mod L)"
    using head by (simp add: L_def SEQUENCE_NUMBER_LIMIT_def)
  also have "\<dots> mod L = (A + d + (L - A mod L)) mod L"
    by (rule mod_add_left_eq)
  also have "\<dots> = (A mod L + (d + (L - A mod L))) mod L"
    by (simp add: mod_add_left_eq add.assoc)
  also have "A mod L + (d + (L - A mod L)) = d + L"
    using mod_less_divisor [of L A] by (simp add: L_def SEQUENCE_NUMBER_LIMIT_def)
  also have "(d + L) mod L = d"
    using d by simp
  finally show ?thesis
    using d by (simp add: abs_head_def L_def)
qed

text \<open>Every received number is within reach of the receiver's head at the time it arrives.\<close>
fun run_reach :: "os_env \<Rightarrow> (nat \<times> rod_event) list \<Rightarrow> nat \<Rightarrow> rod_state \<Rightarrow> bool" where
  "run_reach env [] A s = True"
| "run_reach env (e # es) A s = (event_reach A (snd e) \<and>
     (case rod_step env e s of
        Some (Inr s') \<Rightarrow> run_reach env es (abs_head A (fst s')) s'
      | _ \<Rightarrow> True))"

lemma rod_effect_disposed:
  assumes "(c', r') = rod_effect env rel drp (c, r)"
  shows "disposed c' = disposed c @ map nb_id (rel @ drp)"
proof -
  have *: "disposed (fold (\<lambda>nb. core_emit (Nbuf_free nb)) ds c) = disposed c @ map nb_id ds" for ds c
    by (induction ds arbitrary: c) auto
  show ?thesis
    using assms rx.all_disposed [of env rel "(c, r)"]
    by (auto simp: rod_effect_def * split: prod.splits)
qed

lemma deliver_all_indicated:
  "\<exists>xs. indicated (fst (deliver_all (mtlk_detect_replay_or_sendup env) ns s)) = indicated (fst s) @ xs
     \<and> subseq xs (map nb_id ns)"
proof (induction ns arbitrary: s)
  case (Cons n ns)
  define s1 where "s1 = snd (mtlk_detect_replay_or_sendup env (fst s) n (snd s))"
  obtain ys where ys: "indicated (fst s1) = indicated (fst s) @ ys" "subseq ys [nb_id n]"
    using sendup_indicates [of env "fst s" n "snd s"] by (fastforce simp: s1_def)
  obtain xs where "indicated (fst (deliver_all (mtlk_detect_replay_or_sendup env) ns s1))
      = indicated (fst s1) @ xs" "subseq xs (map nb_id ns)"
    using Cons.IH by blast
  then show ?case
    using ys list_emb_append_mono [OF ys(2), of xs "map nb_id ns"] by (auto simp: s1_def)
qed simp

lemma rod_effect_indicated:
  assumes "(c', r') = rod_effect env rel drp (c, r)"
  shows "\<exists>xs. indicated c' = indicated c @ xs \<and> subseq xs (map nb_id rel)"
proof -
  have *: "indicated (fold (\<lambda>nb. core_emit (Nbuf_free nb)) ds c) = indicated c" for ds c
    by (induction ds arbitrary: c) auto
  show ?thesis
    using assms deliver_all_indicated [of env rel "(c, r)"]
    by (auto simp: rod_effect_def * split: prod.splits)
qed

lemma subseq_sorted_wrt: "subseq xs ys \<Longrightarrow> sorted_wrt P ys \<Longrightarrow> sorted_wrt P xs"
  by (induction rule: list_emb.induct) (auto dest: list_emb_set)

inductive spec_run :: "nat \<times> mtlk_nbuf option list \<Rightarrow> rod_event list
    \<Rightarrow> mtlk_nbuf list \<Rightarrow> mtlk_nbuf list \<Rightarrow> nat \<times> mtlk_nbuf option list \<Rightarrow> bool" where
  run_nil: "spec_run w [] [] [] w"
| run_cons: "spec_step w e rel1 drp1 w1 \<Longrightarrow> spec_run w1 es rel2 drp2 w2
    \<Longrightarrow> spec_run w (e # es) (rel1 @ rel2) (drp1 @ drp2) w2"

lemma spec_run_order:
  assumes "spec_run w es rel drp w'" "labelled lab (fst w) (snd w)"
    and "0 < length (snd w)" "length (snd w) \<le> 64"
    and "\<forall>n nb. Rx_packet n nb \<in> set es \<longrightarrow> lab nb = n"
  shows "in_order lab (fst w) rel (fst w')"
  using assms
proof (induction rule: spec_run.induct)
  case (run_cons w e rel1 drp1 w1 es rel2 drp2 w2)
  have "in_order lab (fst w) rel1 (fst w1)" "labelled lab (fst w1) (snd w1)"
    using spec_step_order [OF run_cons(1) run_cons.prems(1,2)] run_cons.prems(4) by auto
  moreover have "length (snd w1) = length (snd w)"
    using spec_step_shape [OF run_cons(1) run_cons.prems(2,3)] by simp
  ultimately show ?case
    using run_cons in_order_append by fastforce
qed simp

lemma spec_run_conserves:
  assumes "spec_run w es rel drp w'" "0 < length (snd w)" "length (snd w) \<le> 64"
  shows "mset rel + mset drp + mset (held (snd w'))
    = mset (concat (map event_packets es)) + mset (held (snd w))"
  using assms
proof (induction rule: spec_run.induct)
  case (run_cons w e rel1 drp1 w1 es rel2 drp2 w2)
  let ?m = "\<lambda>es. mset (concat (map event_packets es))"
  note step = spec_step_shape [OF run_cons(1) run_cons.prems(1,2)]
  have IH: "mset rel2 + mset drp2 + mset (held (snd w2)) = ?m es + mset (held (snd w1))"
    using run_cons step by simp
  have "mset (rel1 @ rel2) + mset (drp1 @ drp2) + mset (held (snd w2))
      = mset rel1 + mset drp1 + (mset rel2 + mset drp2 + mset (held (snd w2)))"
    by (simp add: ac_simps)
  also have "\<dots> = ?m es + mset (rel1 @ drp1 @ held (snd w1))"
    unfolding IH by (simp add: ac_simps)
  also have "\<dots> = ?m es + mset (event_packets e @ held (snd w))"
    using step by simp
  also have "\<dots> = ?m (e # es) + mset (held (snd w))"
    by (simp add: ac_simps)
  finally show ?case .
qed simp

lemma rod_run_refines:
  assumes "rod_sim q w" "run_reach env evs (fst w) (q, c)"
  shows "\<exists>q' c' rel drp w' xs ds. rod_run env evs (q, c) = Some (Inr (q', c'))
    \<and> spec_run w (map snd evs) rel drp w' \<and> rod_sim q' w'
    \<and> indicated c' = indicated c @ xs \<and> subseq xs (map nb_id rel)
    \<and> disposed c' = disposed c @ ds \<and> mset ds = mset (map nb_id (rel @ drp))"
  using assms
proof (induction evs arbitrary: q c w)
  case Nil
  then show ?case
    using spec_run.run_nil [of w] by fastforce
next
  case (Cons e es)
  obtain q1 c1 rel1 drp1 w1 where 1: "rod_step env e (q, c) = Some (Inr (q1, c1))"
    "spec_step w (snd e) rel1 drp1 w1" "rod_sim q1 w1"
    "(c1, rsc q1) = rod_effect env rel1 drp1 (c, rsc q)"
    using rod_step_refines [OF Cons.prems(1), of "snd e" env "fst e" c] Cons.prems(2) by auto
  have len: "0 < length (snd w)" "length (snd w) \<le> 64"
    using rod_simD(4) [OF Cons.prems(1)] rod_core_bounds(1,2) [OF rod_simD(1) [OF Cons.prems(1)]] by auto
  have "fst w \<le> fst w1"
    using 1(2)
  proof cases
    case (receive n nb)
    then show ?thesis
      by (auto simp: spec_receive_def spec_insert_def spec_ready_def spec_advance_def Let_def
          split: if_splits option.splits)
  next
    case (bar n)
    then show ?thesis
      by (auto simp: spec_bar_def spec_ready_def spec_advance_def Let_def split: if_splits)
  qed (auto simp: spec_flush_def spec_advance_def)
  then have "abs_head (fst w) q1 = fst w1"
    using abs_head_sim [OF 1(3)] spec_step_shape [OF 1(2) len] by simp
  then have "run_reach env es (fst w1) (q1, c1)"
    using Cons.prems(2) 1(1) by simp
  from Cons.IH [OF 1(3) this]
  obtain q' c' rel drp w' xs ds where 2: "rod_run env es (q1, c1) = Some (Inr (q', c'))"
    "spec_run w1 (map snd es) rel drp w'" "rod_sim q' w'"
    "indicated c' = indicated c1 @ xs" "subseq xs (map nb_id rel)"
    "disposed c' = disposed c1 @ ds" "mset ds = mset (map nb_id (rel @ drp))" by blast
  obtain ys where ys: "indicated c1 = indicated c @ ys" "subseq ys (map nb_id rel1)"
    using rod_effect_indicated [OF 1(4)] by blast
  have "rod_run env (e # es) (q, c) = Some (Inr (q', c'))"
    using 1(1) 2(1) by simp
  moreover have "spec_run w (map snd (e # es)) (rel1 @ rel) (drp1 @ drp) w'"
    using spec_run.run_cons [OF 1(2) 2(2)] by simp
  moreover have "indicated c' = indicated c @ (ys @ xs)" "subseq (ys @ xs) (map nb_id (rel1 @ rel))"
    using ys 2(4,5) list_emb_append_mono by auto
  moreover have "disposed c' = disposed c @ (map nb_id (rel1 @ drp1) @ ds)"
    using rod_effect_disposed [OF 1(4)] 2(6) by simp
  moreover have "mset (map nb_id (rel1 @ drp1) @ ds) = mset (map nb_id ((rel1 @ rel) @ (drp1 @ drp)))"
    using 2(7) by (simp add: ac_simps)
  ultimately show ?case
    using 2(3) by blast
qed

subsection \<open>Life cycle\<close>

text \<open>A queue without an agreement holds no packet.\<close>
definition rod_idle :: "reordering_queue \<Rightarrow> bool" where
  "rod_idle q = (used q = 0 \<and> length (nbuf q) = MAX_REORD_WINDOW \<and> slots_used (nbuf q) = 0 \<and> rsc_ok (rsc q))"

lemma rod_create_idle:
  assumes "rod_idle q" "0 < W" "W \<le> MAX_REORD_WINDOW" "W dvd SEQUENCE_NUMBER_LIMIT"
    and "ssn < SEQUENCE_NUMBER_LIMIT"
  shows "\<exists>q'. mtlk_create_rod_queue env now True MTLK_ERR_OK W ssn (q, c)
      = Some (Inr (MTLK_ERR_OK, q', c)) \<and> rod_sim q' (ssn, replicate W None)"
proof -
  let ?q = "q\<lparr>used := 1, q_count := 0, head := ssn, window_size := W,
     last_sent := now, rod_stats := zero_stats, wss_cntrs := (\<lambda>_. 0)\<rparr>"
  have none: "\<forall>i < 64. nbuf q ! i = None"
    using assms(1) by (auto simp: rod_idle_def slots_used_0 MAX_REORD_WINDOW_def)
  have "nbuf q ! ((ssn + i) mod W) = None" for i
    using none assms(2,3) mod_less_divisor [of W "ssn + i"] unfolding MAX_REORD_WINDOW_def
    by (meson less_le_trans)
  then have "win_of ssn ?q = replicate W None"
    by (simp add: win_of_def map_replicate_const)
  moreover have "rod_core ?q"
    using assms none by (auto simp: rod_core_def rod_idle_def rod_consts)
  ultimately show ?thesis
    using assms(1,5) by (simp add: mtlk_create_rod_queue_def rod_sim_def rod_inv_def rod_pos_def rod_idle_def)
qed

lemma rod_clear_idle:
  assumes "rod_sim q w"
  shows "\<exists>q' c'. mtlk_clear_rod_queue env now (q, c) = Some (Inr (q', c')) \<and> rod_idle q'
    \<and> disposed c' = disposed c @ map nb_id (held (snd w))"
proof -
  obtain rel w' where sp: "spec_flush w = (rel, w')" by (metis surj_pair)
  obtain q' c' where f: "mtlk_flush_rod_queue env now (q, c) = Some (Inr (q', c'))" "rod_sim q' w'"
    "(c', rsc q') = rod_effect env rel [] (c, rsc q)" "q_count q' = 0"
    using mtlk_flush_rod_queue_refines [OF assms sp, of env now c] by (auto simp: rod_effect_nodrop)
  have "rel = held (snd w)"
    using sp held_advance [of "last_used (snd w)" "snd w"]
    by (auto simp: spec_flush_def spec_advance_def win_advance_last_used)
  moreover have "rod_idle (q'\<lparr>used := 0\<rparr>)"
    using rod_simD(1) [OF f(2)] f(4) by (simp add: rod_idle_def rod_core_def)
  ultimately show ?thesis
    using f rod_effect_disposed [OF f(3)] rod_simD(6) [OF assms]
    by (simp add: mtlk_clear_rod_queue_def)
qed

subsection \<open>Memory safety for every window up to 64\<close>

definition rod_mem :: "reordering_queue \<Rightarrow> bool" where
  "rod_mem q = (0 < window_size q \<and> window_size q \<le> MAX_REORD_WINDOW \<and> length (nbuf q) = MAX_REORD_WINDOW)"

lemma rod_mem_slot: "rod_mem q \<Longrightarrow> x mod window_size q < MAX_REORD_WINDOW"
  unfolding rod_mem_def by (meson less_le_trans mod_less_divisor)

lemma retire_slot_safe:
  assumes "rod_mem q"
  shows "\<exists>r q' c'. retire_slot env now slot (q, c) = Inr (r, q', c') \<and> rod_mem q'"
  using assms rod_mem_slot [OF assms, of slot]
  by (cases "nbuf q ! (slot mod window_size q)")
    (auto simp: retire_slot_def Let_def rod_mem_def split: prod.splits)

lemma rod_move_window_safe:
  assumes "rod_mem q"
  shows "\<exists>q' c'. rod_move_window env now n (q, c) = Inr (q', c') \<and> rod_mem q'"
proof -
  have "\<exists>q' c'. move_window_loop env now n (q, c) = Inr (q', c') \<and> rod_mem q'"
    using assms
  proof (induction n arbitrary: q c)
    case (Suc n)
    obtain r q1 c1 where 1: "retire_slot env now (head q) (q, c) = Inr (r, q1, c1)" "rod_mem q1"
      using retire_slot_safe [OF Suc.prems] by blast
    have "rod_mem (q1\<lparr>head := u32_inc (head q1)\<rparr>)"
      using 1(2) by (simp add: rod_mem_def)
    then show ?case using Suc.IH 1(1) by simp
  qed simp
  then show ?thesis
    by (auto simp: rod_move_window_def rod_wrap_head_def rod_mem_def)
qed

lemma retire_rod_loop_safe:
  assumes "rod_mem q" "loc < window_size q"
  shows "\<exists>m q' c'. retire_rod_loop env now loc n (q, c) = Inr (m, q', c') \<and> rod_mem q'"
  using assms
proof (induction "slots_used (nbuf q)" arbitrary: q c loc n rule: less_induct)
  case less
  have loc: "loc < length (nbuf q)"
    using less.prems by (simp add: rod_mem_def)
  show ?case
  proof (cases "nbuf q ! loc = None")
    case True
    then show ?thesis
      using less.prems loc by (subst retire_rod_loop.simps) simp
  next
    case False
    obtain r q1 c1 where 1: "retire_slot env now loc (q, c) = Inr (r, q1, c1)" "rod_mem q1"
      using retire_slot_safe [OF less.prems(1)] by blast
    let ?q = "q1\<lparr>head := u32_inc (head q1)\<rparr>"
    let ?loc = "if window_size q1 \<le> loc + 1 then 0 else loc + 1"
    have "slots_used (nbuf ?q) < slots_used (nbuf q)"
      using retire_slot_Inr_used [OF 1(1)] loc less.prems(2) False by simp
    moreover have "rod_mem ?q" "?loc < window_size ?q"
      using 1(2) by (auto simp: rod_mem_def)
    ultimately have "\<exists>m q' c'. retire_rod_loop env now ?loc (n + 1) (?q, c1) = Inr (m, q', c') \<and> rod_mem q'"
      by (rule less.hyps)
    moreover have "retire_rod_loop env now loc n (q, c) = retire_rod_loop env now ?loc (n + 1) (?q, c1)"
      using False loc less.prems(2) 1(1) by (subst retire_rod_loop.simps) auto
    ultimately show ?thesis by simp
  qed
qed

lemma retire_rod_queue_safe:
  assumes "rod_mem q"
  shows "\<exists>m q' c'. retire_rod_queue env now (q, c) = Inr (m, q', c') \<and> rod_mem q'"
proof -
  have "head q mod window_size q < window_size q" "window_size q \<noteq> 0"
    using assms by (auto simp: rod_mem_def)
  with retire_rod_loop_safe [OF assms this(1), of env now 0 c] show ?thesis
    by (auto simp: retire_rod_queue_def rod_wrap_head_def rod_mem_def)
qed

lemma rod_insert_safe:
  assumes "rod_mem q"
  shows "\<exists>q' c'. rod_insert env now seq nb (q, c) = Inr (q', c') \<and> rod_mem q'"
proof -
  let ?loc = "seq mod window_size q"
  let ?q = "q\<lparr>nbuf := (nbuf q)[?loc := Some nb], q_count := u32_inc (q_count q),
                rod_stats := (rod_stats q)\<lparr>queued := u32_inc (queued (rod_stats q))\<rparr>\<rparr>"
  have "rod_mem ?q" using assms by (simp add: rod_mem_def)
  from retire_rod_queue_safe [OF this, of env now c] rod_mem_slot [OF assms, of seq] show ?thesis
    using assms
    by (cases "nbuf q ! ?loc") (auto simp: rod_insert_def Let_def rod_mem_def mtlk_rod_inc_cnt_def)
qed

lemma rod_receive_safe:
  assumes "rod_mem q"
  shows "\<exists>q' c'. mtlk_reorder_packet env now seq nb (q, c) = Inr (q', c') \<and> rod_mem q'"
proof -
  have "rod_mem (q\<lparr>rod_stats := x\<rparr>)" for x using assms by (simp add: rod_mem_def)
  note move = rod_move_window_safe [OF this]
  obtain res c' r' where d: "mtlk_detect_replay_or_sendup env c nb (rsc q) = (res, c', r')"
    by (metis prod_cases3)
  show ?thesis
  proof (cases "used q = 0 \<or> SEQUENCE_NUMBER_LIMIT div 2 < SEQ_DISTANCE (head q) seq
      \<or> SEQ_DISTANCE (head q) seq < window_size q")
    case True
    then show ?thesis
      using assms rod_insert_safe [OF assms, of env now seq nb c] d
      by (auto simp: mtlk_reorder_packet_def Let_def rod_mem_def mtlk_rod_inc_cnt_def)
  next
    case False
    obtain q1 c1 where "rod_move_window env now (SEQ_DISTANCE (head q) seq - window_size q + 1)
        (q\<lparr>rod_stats := (rod_stats q)\<lparr>overflows := u32_inc (overflows (rod_stats q))\<rparr>\<rparr>, c) = Inr (q1, c1)"
      "rod_mem q1"
      using move by blast
    then show ?thesis
      using False rod_insert_safe [of q1 env now seq nb c1] by (simp add: mtlk_reorder_packet_def Let_def)
  qed
qed

lemma rod_bar_safe:
  assumes "rod_mem q"
  shows "\<exists>r q' c'. mtlk_rod_process_bar env now ssn (q, c) = Inr (r, q', c') \<and> rod_mem q'"
proof -
  obtain q1 c1 where 1: "rod_move_window env now (SEQ_DISTANCE (head q) ssn) (q, c) = Inr (q1, c1)" "rod_mem q1"
    using rod_move_window_safe [OF assms] by blast
  obtain m q2 c2 where 2: "retire_rod_queue env now (q1, c1) = Inr (m, q2, c2)" "rod_mem q2"
    using retire_rod_queue_safe [OF 1(2)] by blast
  show ?thesis
    using assms 1(1) 2 by (simp add: mtlk_rod_process_bar_def Let_def)
qed

section \<open>Properties\<close>

text \<open>
  C3: delivery order, end to end.  An agreement is created with a window of at most 64 packets that divides the 12-bit
  sequence space; then packets, block-ack requests and timer ticks arrive in any order, each
  number within half the sequence space of the receiver's head.  The run completes without a fault
  and the packets that reach the OS have strictly increasing absolute sequence numbers: nothing is
  delivered twice or out of order.
\<close>
theorem rod_delivers_in_order:
  assumes "rod_idle q0" "0 < W" "W \<le> MAX_REORD_WINDOW" "W dvd SEQUENCE_NUMBER_LIMIT"
    and "ssn < SEQUENCE_NUMBER_LIMIT"
    and "mtlk_create_rod_queue env now0 True MTLK_ERR_OK W ssn (q0, c) = Some (Inr (res, q, c1))"
    and "run_reach env evs ssn (q, c1)"
    and "\<forall>n nb. Rx_packet n nb \<in> snd ` set evs \<longrightarrow> num (nb_id nb) = n"
  shows "\<exists>q' c'. rod_run env evs (q, c1) = Some (Inr (q', c'))
    \<and> (\<exists>xs. indicated c' = indicated c @ xs \<and> sorted_wrt (<) (map num xs))"
proof -
  have q: "rod_sim q (ssn, replicate W None)" "c1 = c"
    using rod_create_idle [OF assms(1-5), of env now0 c] assms(6) by auto
  obtain q' c' rel drp w' xs ds where run: "rod_run env evs (q, c) = Some (Inr (q', c'))"
    "spec_run (ssn, replicate W None) (map snd evs) rel drp w'"
    "indicated c' = indicated c @ xs" "subseq xs (map nb_id rel)"
    using rod_run_refines [OF q(1), of env evs c] assms(7) q(2) by auto
  have "in_order (\<lambda>nb. num (nb_id nb)) ssn rel (fst w')"
    using spec_run_order [OF run(2), of "\<lambda>nb. num (nb_id nb)"] assms(2,3,8)
    by (auto simp: labelled_def MAX_REORD_WINDOW_def)
  then have "sorted_wrt (<) (map num (map nb_id rel))"
    by (simp add: in_order_def comp_def)
  then have "sorted_wrt (<) (map num xs)"
    using subseq_sorted_wrt [OF subseq_map [OF run(4)]] by blast
  then show ?thesis
    using run q(2) by blast
qed

text \<open>
  C5: no packet is lost in the queue.  In the same runs (a window of at most 64 packets that divides the sequence space, every number within
  half the sequence space of the head when it arrives), which complete without a fault, every received buffer is exactly once either
  handed over (indicated or freed) or still waiting in the window.
\<close>
theorem rod_conserves_buffers:
  assumes "rod_sim q w" "run_reach env evs (fst w) (q, c)"
  shows "\<exists>q' c' w' ds. rod_run env evs (q, c) = Some (Inr (q', c')) \<and> rod_sim q' w'
    \<and> disposed c' = disposed c @ ds
    \<and> mset ds + mset (map nb_id (held (snd w')))
        = mset (map nb_id (concat (map (event_packets \<circ> snd) evs))) + mset (map nb_id (held (snd w)))"
proof -
  obtain q' c' rel drp w' xs ds where run: "rod_run env evs (q, c) = Some (Inr (q', c'))"
    "spec_run w (map snd evs) rel drp w'" "rod_sim q' w'"
    "disposed c' = disposed c @ ds" "mset ds = mset (map nb_id (rel @ drp))"
    using rod_run_refines [OF assms] by blast
  have "0 < length (snd w)" "length (snd w) \<le> 64"
    using rod_simD(4) [OF assms(1)] rod_core_bounds(1,2) [OF rod_simD(1) [OF assms(1)]] by auto
  from spec_run_conserves [OF run(2) this]
  have "image_mset nb_id (mset rel + mset drp + mset (held (snd w')))
      = image_mset nb_id (mset (concat (map event_packets (map snd evs))) + mset (held (snd w)))"
    by simp
  then have "mset ds + mset (map nb_id (held (snd w')))
      = mset (map nb_id (concat (map (event_packets \<circ> snd) evs))) + mset (map nb_id (held (snd w)))"
    using run(5) by (simp add: comp_def)
  then show ?thesis
    using run by blast
qed

text \<open>
  C4: the C routine \<^verbatim>\<open>mtlk_reorder_packet\<close> with its array indexed modulo the window size and its 12-bit
  arithmetic implements the abstract receive window on unbounded sequence numbers: same released and
  discarded packets, in the same order, and the simulation relation is kept.  The relation holds only for a window of at most
  64 packets that divides the sequence space, and the number of the packet is within half the sequence space of the head.
\<close>
theorem rod_reorder_refines_window:
  assumes "rod_sim q w" "within_reach (fst w) n" "spec_receive n nb w = (rel, drp, w')"
  shows "\<exists>q' c'. mtlk_reorder_packet env now (n mod SEQUENCE_NUMBER_LIMIT) nb (q, c) = Inr (q', c')
    \<and> rod_sim q' w' \<and> (c', rsc q') = rod_effect env rel drp (c, rsc q)"
  by (rule mtlk_reorder_packet_refines [OF assms])

text \<open>
  tearing an agreement down terminates (the flush loop of \<^verbatim>\<open>mtlk_clear_rod_queue\<close> has no bound of
  its own), hands over every waiting packet in order, and leaves an empty, unused queue that can be
  created again.
\<close>
lemma rod_clear_terminates_and_empties:
  assumes "rod_sim q w"
  shows "\<exists>q' c'. mtlk_clear_rod_queue env now (q, c) = Some (Inr (q', c')) \<and> rod_idle q'
    \<and> disposed c' = disposed c @ map nb_id (held (snd w))"
  by (rule rod_clear_idle [OF assms])

text \<open>
  C7: memory safety.  With a window between 1 and 64, whatever sequence numbers arrive and whether or
  not the window divides the sequence space, receiving a packet and processing a block-ack request
  neither divide by zero nor index outside \<^verbatim>\<open>nbuf[64]\<close>, and the bound is kept.
\<close>
theorem rod_window_64_is_safe:
  assumes "rod_mem q"
  shows "(\<exists>q' c'. mtlk_reorder_packet env now seq nb (q, c) = Inr (q', c') \<and> rod_mem q')
    \<and> (\<exists>r q' c'. mtlk_rod_process_bar env now ssn (q, c) = Inr (r, q', c') \<and> rod_mem q')"
  using rod_receive_safe [OF assms] rod_bar_safe [OF assms] by blast

text \<open>
  The bound is needed.  \<^verbatim>\<open>mtlk_create_rod_queue\<close> accepts any window size; for every size above 64,
  a packet inside the window whose slot is 64 or more indexes outside the array.
\<close>
lemma rod_large_window_faults:
  assumes "rod_idle q0" "64 < W" "W \<le> 255" "ssn < SEQUENCE_NUMBER_LIMIT" "seq < SEQUENCE_NUMBER_LIMIT"
    and "SEQ_DISTANCE ssn seq < W" "64 \<le> seq mod W"
    and "mtlk_create_rod_queue env now0 True MTLK_ERR_OK W ssn (q0, c) = Some (Inr (res, q, c1))"
  shows "mtlk_reorder_packet env now seq nb (q, c1) = Inl Out_of_bounds"
proof -
  have "q = q0\<lparr>used := 1, q_count := 0, head := ssn, window_size := W,
     last_sent := now0, rod_stats := zero_stats, wss_cntrs := (\<lambda>_. 0)\<rparr>"
    using assms(1,8) by (simp add: mtlk_create_rod_queue_def rod_idle_def)
  then show ?thesis
    using assms by (simp add: mtlk_reorder_packet_def rod_insert_def Let_def rod_consts)
qed

subsection \<open>Concrete runs\<close>

text \<open>An empty queue, and a plain (unencrypted) packet without a source station.\<close>
definition ex_queue :: reordering_queue where
  "ex_queue = \<lparr>used = 0, q_count = 0, head = 0, window_size = 0, last_sent = 0,
     nbuf = replicate 64 None, last_rx_time = 0, rod_stats = zero_stats, rsc = [0, 0, 0, 0, 0, 0],
     wss_cntrs = (\<lambda>_. 0)\<rparr>"

definition ex_open :: "nat \<Rightarrow> nat \<Rightarrow> reordering_queue" where
  "ex_open W ssn = ex_queue\<lparr>used := 1, head := ssn, window_size := W\<rparr>"

definition ex_pkt :: "nat \<Rightarrow> mtlk_nbuf" where
  "ex_pkt n = \<lparr>nb_id = n, rsn_bits = 0, nb_flags = 0x0020, src_sta = None,
     rsc_buf = [], nb_data = [], nb_priority = 0\<rparr>"

lemma ex_queue_idle: "rod_idle ex_queue"
  by (simp add: rod_idle_def ex_queue_def MAX_REORD_WINDOW_def rsc_ok_def)

lemma ex_create:
  "mtlk_create_rod_queue env 0 True MTLK_ERR_OK W ssn (ex_queue, c)
     = Some (Inr (MTLK_ERR_OK, ex_open W ssn, c))"
  by (simp add: mtlk_create_rod_queue_def ex_queue_def ex_open_def)

lemma ex_sendup:
  "mtlk_detect_replay_or_sendup env ex_core (ex_pkt n) r
     = (0, core_emit (Indicate_rx_data (ex_pkt n)) (core_emit (Sta_packet_indicated None (ex_pkt n)) ex_core), r)"
  by (simp add: mtlk_detect_replay_or_sendup_def ex_pkt_def send_up_def send_up_consume_def
      mtlk_nbuf_priv_check_flags_def MTLK_NBUFF_FORWARD_def MTLK_NBUFF_CONSUME_def ex_core_def)

lemma ex_slots_cleared:
  assumes "i < 64"
  shows "(replicate 64 (None :: mtlk_nbuf option))[i := None] = replicate 64 None"
  using assms by (metis list_update_id nth_replicate)

lemma ex_open_sim: "rod_sim (ex_open 64 0) (0, replicate 64 None)"
proof -
  obtain q where "mtlk_create_rod_queue linux_env 0 True MTLK_ERR_OK 64 0 (ex_queue, ex_core)
      = Some (Inr (MTLK_ERR_OK, q, ex_core))" "rod_sim q (0, replicate 64 None)"
    using rod_create_idle [OF ex_queue_idle, of 64 0 linux_env 0 ex_core] by (auto simp: rod_consts)
  then show ?thesis by (simp add: ex_create)
qed

text \<open>With a window of 48 at head 4090, the packet 16 numbers ahead falls into the slot of the head.\<close>
lemma ex_collision:
  "mtlk_reorder_packet env 0 10 (ex_pkt 4106) (ex_open 48 4090, ex_core)
   = Inr ((ex_open 48 4090)\<lparr>head := 4091, rod_stats := zero_stats\<lparr>queued := 1\<rparr>\<rparr>,
          core_emit (Indicate_rx_data (ex_pkt 4106))
            (core_emit (Sta_packet_indicated None (ex_pkt 4106)) ex_core))"
proof -
  have d: "SEQ_DISTANCE 4090 10 = 16"
    by (simp add: SEQ_DISTANCE_def SEQUENCE_NUMBER_LIMIT_def u32_sub_def u32_max_def)
  let ?q = "ex_open 48 4090\<lparr>nbuf := (replicate 64 None)[10 := Some (ex_pkt 4106)], q_count := 1,
      rod_stats := zero_stats\<lparr>queued := 1\<rparr>\<rparr>"
  have "mtlk_reorder_packet env 0 10 (ex_pkt 4106) (ex_open 48 4090, ex_core)
      = bind_result (retire_rod_queue env 0 (?q, ex_core)) (\<lambda>(_, s). Inr s)"
    by (simp add: mtlk_reorder_packet_def ex_open_def ex_queue_def d rod_insert_def rod_consts Let_def
        zero_stats_def u32_inc_def u32_max_def)
  moreover have "retire_slot env 0 10 (?q, ex_core) = Inr (10,
      ex_open 48 4090\<lparr>rod_stats := zero_stats\<lparr>queued := 1\<rparr>\<rparr>,
      core_emit (Indicate_rx_data (ex_pkt 4106))
        (core_emit (Sta_packet_indicated None (ex_pkt 4106)) ex_core))"
    by (simp add: retire_slot_def rod_consts ex_open_def ex_queue_def ex_sendup ex_slots_cleared
        u32_dec_def u32_max_def)
  ultimately show ?thesis
    unfolding retire_rod_queue_def
    by (subst (asm) (1) retire_rod_loop.simps, subst (asm) (1) retire_rod_loop.simps)
      (simp add: ex_open_def ex_queue_def rod_wrap_head_def rod_consts u32_inc_def u32_max_def)
qed

text \<open>
  the hypothesis that the window divides 4096 is needed.  With the window size 48, which
  \<^verbatim>\<open>mtlk_create_rod_queue\<close> accepts, and the head at 4090, the packet with number 4106 (seq 10) is
  released at once in place of packet 4090, because both map to slot 10; packet 4090, which arrives
  next, is then discarded as too old.
\<close>
lemma rod_order_broken_at_wrap:
  "\<exists>q1 c1 q2 c2.
     mtlk_create_rod_queue linux_env 0 True MTLK_ERR_OK 48 4090 (ex_queue, ex_core)
       = Some (Inr (MTLK_ERR_OK, ex_open 48 4090, ex_core))
   \<and> mtlk_reorder_packet linux_env 0 (4106 mod SEQUENCE_NUMBER_LIMIT) (ex_pkt 4106)
       (ex_open 48 4090, ex_core) = Inr (q1, c1)
   \<and> mtlk_reorder_packet linux_env 0 (4090 mod SEQUENCE_NUMBER_LIMIT) (ex_pkt 4090) (q1, c1)
       = Inr (q2, c2)
   \<and> indicated c2 = [4106] \<and> disposed c2 = [4106, 4090]"
proof -
  define q1 where "q1 = (ex_open 48 4090)\<lparr>head := 4091, rod_stats := zero_stats\<lparr>queued := 1\<rparr>\<rparr>"
  define c1 where "c1 = core_emit (Indicate_rx_data (ex_pkt 4106))
      (core_emit (Sta_packet_indicated None (ex_pkt 4106)) ex_core)"
  have "SEQ_DISTANCE 4091 4090 = 4095"
    by (simp add: SEQ_DISTANCE_def SEQUENCE_NUMBER_LIMIT_def u32_sub_def u32_max_def)
  moreover have "used q1 = 1" "head q1 = 4091"
    by (simp_all add: q1_def ex_open_def)
  ultimately have "\<exists>q2. mtlk_reorder_packet linux_env 0 4090 (ex_pkt 4090) (q1, c1)
      = Inr (q2, core_emit (Nbuf_free (ex_pkt 4090)) c1)"
    by (simp add: mtlk_reorder_packet_def SEQUENCE_NUMBER_LIMIT_def Let_def)
  then obtain q2 where 2: "mtlk_reorder_packet linux_env 0 4090 (ex_pkt 4090) (q1, c1)
      = Inr (q2, core_emit (Nbuf_free (ex_pkt 4090)) c1)" by blast
  have "indicated ex_core = []" "disposed ex_core = []"
    by (simp_all add: ex_core_def indicated_def disposed_def)
  then have "indicated (core_emit (Nbuf_free (ex_pkt 4090)) c1) = [4106]"
    "disposed (core_emit (Nbuf_free (ex_pkt 4090)) c1) = [4106, 4090]"
    by (simp_all add: c1_def ex_pkt_def)
  moreover have "mtlk_reorder_packet linux_env 0 10 (ex_pkt 4106) (ex_open 48 4090, ex_core) = Inr (q1, c1)"
    unfolding q1_def c1_def by (rule ex_collision)
  ultimately show ?thesis
    using 2 ex_create by (simp add: SEQUENCE_NUMBER_LIMIT_def)
qed

theorem rod_delivers_in_order_witness:
  "\<exists>q' c'. rod_run linux_env [(0, Rx_packet 1 (ex_pkt 1)), (5, Rx_packet 0 (ex_pkt 0))]
       (ex_open 64 0, ex_core) = Some (Inr (q', c'))
    \<and> (\<exists>xs. indicated c' = indicated ex_core @ xs \<and> sorted_wrt (<) (map (\<lambda>i. i) xs))"
proof (rule rod_delivers_in_order [OF ex_queue_idle _ _ _ _ ex_create, where num = "\<lambda>i. i"])
  obtain q1 c1 rel drp w1 where 1:
    "rod_step linux_env (0, Rx_packet 1 (ex_pkt 1)) (ex_open 64 0, ex_core) = Some (Inr (q1, c1))"
    "spec_step (0, replicate 64 None) (Rx_packet 1 (ex_pkt 1)) rel drp w1" "rod_sim q1 w1"
    using rod_step_refines [OF ex_open_sim, of "Rx_packet 1 (ex_pkt 1)" linux_env 0 ex_core]
    by (auto simp: within_reach_def)
  have "fst w1 = 0"
  proof -
    have "ready_prefix ((replicate 64 (None :: mtlk_nbuf option))[Suc 0 := x]) = 0" for x
      using replicate_Suc [of 63 "None :: mtlk_nbuf option"] by (simp add: ready_prefix_def)
    moreover from 1(2) have "spec_receive 1 (ex_pkt 1) (0, replicate 64 None) = (rel, drp, w1)"
      by (rule spec_packetE)
    ultimately show ?thesis
      by (auto simp: spec_receive_def spec_insert_def spec_ready_def spec_advance_def)
  qed
  then have "abs_head 0 q1 = 0"
    using abs_head_sim [OF 1(3), of 0] by (simp add: SEQUENCE_NUMBER_LIMIT_def)
  then show "run_reach linux_env [(0, Rx_packet 1 (ex_pkt 1)), (5, Rx_packet 0 (ex_pkt 0))] 0
      (ex_open 64 0, ex_core)"
    using 1(1) by (simp add: within_reach_def del: rod_step.simps split: option.split sum.split)
qed (auto simp: rod_consts ex_pkt_def)

theorem rod_conserves_buffers_witness:
  "\<exists>q' c' w' ds. rod_run linux_env [(0, Rx_packet 3 (ex_pkt 3))] (ex_open 64 0, ex_core)
      = Some (Inr (q', c')) \<and> rod_sim q' w' \<and> disposed c' = disposed ex_core @ ds
    \<and> mset ds + mset (map nb_id (held (snd w'))) = {#3#}"
proof -
  have "run_reach linux_env [(0, Rx_packet 3 (ex_pkt 3))] (fst (0 :: nat, replicate 64 None :: mtlk_nbuf option list))
      (ex_open 64 0, ex_core)"
    by (simp add: within_reach_def split: option.split sum.split)
  from rod_conserves_buffers [OF ex_open_sim this] show ?thesis
    by (simp add: ex_pkt_def)
qed

theorem rod_reorder_refines_window_witness:
  "\<exists>q' c' rel drp w'. spec_receive 3 (ex_pkt 3) (0, replicate 64 None) = (rel, drp, w')
    \<and> mtlk_reorder_packet linux_env 0 3 (ex_pkt 3) (ex_open 64 0, ex_core) = Inr (q', c')
    \<and> rod_sim q' w'"
proof -
  obtain rel drp w' where sp: "spec_receive 3 (ex_pkt 3) (0, replicate 64 None) = (rel, drp, w')"
    by (metis prod_cases3)
  have "within_reach (fst (0 :: nat, replicate 64 None :: mtlk_nbuf option list)) 3"
    by (simp add: within_reach_def)
  from rod_reorder_refines_window [OF ex_open_sim this sp, of linux_env 0 ex_core] sp show ?thesis
    by (auto simp: SEQUENCE_NUMBER_LIMIT_def)
qed

theorem rod_clear_terminates_and_empties_witness:
  "\<exists>q' c'. mtlk_clear_rod_queue linux_env 7 (ex_open 64 0, ex_core) = Some (Inr (q', c')) \<and> rod_idle q'"
  using rod_clear_terminates_and_empties [OF ex_open_sim] by blast

theorem rod_window_64_is_safe_witness:
  "\<exists>q' c'. mtlk_reorder_packet linux_env 0 4000 (ex_pkt 3) (ex_open 37 0, ex_core) = Inr (q', c')
     \<and> rod_mem q'"
proof -
  have "rod_mem (ex_open 37 0)"
    by (simp add: rod_mem_def ex_open_def ex_queue_def rod_consts)
  from rod_window_64_is_safe [OF this] show ?thesis by blast
qed

lemma rod_large_window_example:
  "mtlk_reorder_packet linux_env 9 64 (ex_pkt 3) (ex_open 128 0, ex_core) = Inl Out_of_bounds"
  by (rule rod_large_window_faults [OF ex_queue_idle _ _ _ _ _ _ ex_create])
    (simp_all add: SEQUENCE_NUMBER_LIMIT_def SEQ_DISTANCE_def u32_sub_def u32_max_def)

end
