(* ===== verification/Flctrl.thy ===== *)
theory Flctrl
  imports Wave_Prelude
begin

text \<open>
  Two small shared objects: the flow control arbiter of \<^verbatim>\<open>driver/shared/mtlkflctrl.c\<close> (several clients
  may stop the data path; it runs again when the last of them lets go) and the reference limiter of
  \<^verbatim>\<open>wireless/shared/mtlk_reflim.h\<close> (a counter of granted resources with a ceiling).
\<close>

unbundle bit_operations_syntax

section \<open>Flow control\<close>

datatype flctrl_call = Start_data | Stop_data

text \<open>The calls of the client's \<^verbatim>\<open>api\<close> are appended to \<open>api_log\<close>.\<close>
record mtlk_flctrl =
  stop_requests_mask :: "32 word"
  available_bits :: "32 word"
  api_log :: "flctrl_call list"

definition mtlk_flctrl_init :: mtlk_flctrl where
  "mtlk_flctrl_init = \<lparr>stop_requests_mask = 0, available_bits = 0xFFFFFFFF, api_log = []\<rparr>"

text \<open>The scan of \<^verbatim>\<open>mtlk_flctrl_register\<close> over the remaining \<open>n\<close> positions.\<close>
primrec register_scan ::
    "nat \<Rightarrow> 32 word \<Rightarrow> mtlk_flctrl \<Rightarrow> mtlk_error \<times> 32 word \<times> mtlk_flctrl" where
  "register_scan 0 msk obj = (MTLK_ERR_UNKNOWN, 0, obj)"
| "register_scan (Suc n) msk obj =
     (if available_bits obj AND msk \<noteq> 0
      then (MTLK_ERR_OK, msk, obj\<lparr>available_bits := available_bits obj AND NOT msk\<rparr>)
      else register_scan n (push_bit 1 msk) obj)"

definition mtlk_flctrl_register :: "mtlk_flctrl \<Rightarrow> mtlk_error \<times> 32 word \<times> mtlk_flctrl" where
  "mtlk_flctrl_register obj = register_scan 32 1 obj"

definition mtlk_flctrl_stop_data :: "32 word \<Rightarrow> mtlk_flctrl \<Rightarrow> mtlk_flctrl" where
  "mtlk_flctrl_stop_data i obj =
     (let obj = (if stop_requests_mask obj = 0 then obj\<lparr>api_log := api_log obj @ [Stop_data]\<rparr> else obj)
      in obj\<lparr>stop_requests_mask := stop_requests_mask obj OR i\<rparr>)"

definition mtlk_flctrl_start_data :: "32 word \<Rightarrow> mtlk_flctrl \<Rightarrow> mtlk_flctrl" where
  "mtlk_flctrl_start_data i obj =
     (let obj = obj\<lparr>stop_requests_mask := stop_requests_mask obj AND NOT i\<rparr>
      in if stop_requests_mask obj = 0 then obj\<lparr>api_log := api_log obj @ [Start_data]\<rparr> else obj)"

definition mtlk_flctrl_unregister :: "32 word \<Rightarrow> mtlk_flctrl \<Rightarrow> mtlk_flctrl" where
  "mtlk_flctrl_unregister i obj = obj\<lparr>available_bits := available_bits obj OR i\<rparr>"

definition mtlk_flctrl_is_data_flowing :: "mtlk_flctrl \<Rightarrow> bool" where
  "mtlk_flctrl_is_data_flowing obj = (stop_requests_mask obj = 0)"

subsection \<open>Identifiers\<close>

lemma and_push_bit_1: "(w :: 32 word) AND push_bit k 1 \<noteq> 0 \<longleftrightarrow> bit w k"
  by (simp add: and_exp_eq_0_iff_not_bit)

lemma register_scan_spec:
  assumes "k + n = 32"
  shows "register_scan n (push_bit k 1) obj =
    (case find (bit (available_bits obj)) [k..<32] of
       None \<Rightarrow> (MTLK_ERR_UNKNOWN, 0, obj)
     | Some j \<Rightarrow> (MTLK_ERR_OK, push_bit j 1,
                 obj\<lparr>available_bits := available_bits obj AND NOT (push_bit j 1)\<rparr>))"
  using assms
proof (induction n arbitrary: k)
  case (Suc n)
  then have "[k..<32] = k # [Suc k..<32]"
    by (simp add: upt_conv_Cons)
  moreover have "push_bit 1 (push_bit k (1 :: 32 word)) = push_bit (Suc k) 1"
    by (simp add: push_bit_push_bit)
  ultimately show ?case
    using Suc.IH [of "Suc k"] Suc.prems and_push_bit_1 [of "available_bits obj" k]
    by (simp del: push_bit_of_1 push_bit_Suc)
qed simp

lemma word32_zero_iff: "(w :: 32 word) = 0 \<longleftrightarrow> (\<forall>j < 32. \<not> bit w j)"
  by (auto intro!: bit_word_eqI)

text \<open>
  \<^verbatim>\<open>mtlk_flctrl_register\<close> hands out the lowest free identifier: a single bit that was available and
  no longer is, all other bits unchanged; it fails exactly when no bit is left.
\<close>
lemma flctrl_register_correct:
  "case mtlk_flctrl_register obj of (res, i, obj') \<Rightarrow>
     (if available_bits obj = 0 then res = MTLK_ERR_UNKNOWN \<and> i = 0 \<and> obj' = obj
      else res = MTLK_ERR_OK \<and> (\<exists>j < 32. i = push_bit j 1 \<and> bit (available_bits obj) j
        \<and> obj' = obj\<lparr>available_bits := unset_bit j (available_bits obj)\<rparr>))"
proof (cases "find (bit (available_bits obj)) [0..<32]")
  case None
  then have "available_bits obj = 0"
    by (auto simp: find_None_iff word32_zero_iff)
  then show ?thesis
    using None register_scan_spec [of 0 32 obj] by (simp add: mtlk_flctrl_register_def)
next
  case (Some j)
  then have j: "j < 32" "bit (available_bits obj) j"
    by (auto simp: find_Some_iff)
  then have "available_bits obj \<noteq> 0"
    by (auto simp: word32_zero_iff)
  moreover have "available_bits obj AND NOT (push_bit j 1) = unset_bit j (available_bits obj)"
    by (simp add: unset_bit_eq_and_not)
  ultimately show ?thesis
    using Some j register_scan_spec [of 0 32 obj] by (auto simp: mtlk_flctrl_register_def)
qed

subsection \<open>Arbitration\<close>

text \<open>Requests of client \<open>k\<close>, which holds the identifier with bit \<open>k\<close>.\<close>
datatype flctrl_req = Req_stop nat | Req_start nat

fun flctrl_apply :: "flctrl_req \<Rightarrow> mtlk_flctrl \<Rightarrow> mtlk_flctrl" where
  "flctrl_apply (Req_stop k) obj = mtlk_flctrl_stop_data (push_bit k 1) obj"
| "flctrl_apply (Req_start k) obj = mtlk_flctrl_start_data (push_bit k 1) obj"

fun flctrl_client :: "flctrl_req \<Rightarrow> nat" where
  "flctrl_client (Req_stop k) = k"
| "flctrl_client (Req_start k) = k"

text \<open>The specification: the set of clients whose latest request is to stop.\<close>
fun stopping :: "flctrl_req \<Rightarrow> nat set \<Rightarrow> nat set" where
  "stopping (Req_stop k) X = insert k X"
| "stopping (Req_start k) X = X - {k}"

definition flctrl_sim :: "mtlk_flctrl \<Rightarrow> nat set \<Rightarrow> bool" where
  "flctrl_sim obj X = (X = {k. bit (stop_requests_mask obj) k})"

lemma flctrl_step:
  assumes "flctrl_sim obj X" "flctrl_client r < 32"
  shows "flctrl_sim (flctrl_apply r obj) (stopping r X)"
proof (cases r)
  case (Req_stop k)
  then show ?thesis
    using assms by (auto simp: flctrl_sim_def mtlk_flctrl_stop_data_def Let_def bit_simps
        dest: bit_imp_le_length)
next
  case (Req_start k)
  have "stop_requests_mask (flctrl_apply r obj) = stop_requests_mask obj AND NOT (push_bit k 1)"
    using Req_start by (simp add: mtlk_flctrl_start_data_def Let_def)
  then show ?thesis
    using assms Req_start by (auto simp: flctrl_sim_def bit_simps dest: bit_imp_le_length)
qed

lemma flctrl_sim_flowing: "flctrl_sim obj X \<Longrightarrow> mtlk_flctrl_is_data_flowing obj \<longleftrightarrow> X = {}"
  by (auto simp: flctrl_sim_def mtlk_flctrl_is_data_flowing_def intro!: bit_word_eqI)

lemma flctrl_last_call:
  assumes "flctrl_client r < 32"
    and "mtlk_flctrl_is_data_flowing obj \<longleftrightarrow> api_log obj = [] \<or> last (api_log obj) = Start_data"
  shows "mtlk_flctrl_is_data_flowing (flctrl_apply r obj)
    \<longleftrightarrow> api_log (flctrl_apply r obj) = [] \<or> last (api_log (flctrl_apply r obj)) = Start_data"
proof (cases r)
  case (Req_stop k)
  have "stop_requests_mask obj OR push_bit k 1 \<noteq> 0"
    using assms(1) Req_stop by (auto simp: bit_eq_iff bit_simps)
  then show ?thesis
    using assms(2) Req_stop
    by (auto simp: mtlk_flctrl_stop_data_def mtlk_flctrl_is_data_flowing_def Let_def)
next
  case (Req_start k)
  have "stop_requests_mask obj = 0 \<Longrightarrow> stop_requests_mask obj AND NOT (push_bit k 1) = 0" by simp
  then show ?thesis
    using assms(2) Req_start
    by (auto simp: mtlk_flctrl_start_data_def mtlk_flctrl_is_data_flowing_def Let_def)
qed

text \<open>
  arbitration.  After any sequence of stop and start requests of up to 32 clients, the data path
  is reported as flowing exactly when no client's latest request is a stop, and the last call the
  arbiter made to the data path agrees (it stopped it if it is not flowing).
\<close>
lemma flctrl_flows_iff_nobody_stops:
  assumes "\<forall>r \<in> set rs. flctrl_client r < 32"
  shows "(mtlk_flctrl_is_data_flowing (fold flctrl_apply rs mtlk_flctrl_init) \<longleftrightarrow> fold stopping rs {} = {})
    \<and> (mtlk_flctrl_is_data_flowing (fold flctrl_apply rs mtlk_flctrl_init) \<longleftrightarrow>
         api_log (fold flctrl_apply rs mtlk_flctrl_init) = []
         \<or> last (api_log (fold flctrl_apply rs mtlk_flctrl_init)) = Start_data)"
proof -
  have "flctrl_sim (fold flctrl_apply rs obj) (fold stopping rs X)
      \<and> (mtlk_flctrl_is_data_flowing (fold flctrl_apply rs obj) \<longleftrightarrow>
         api_log (fold flctrl_apply rs obj) = [] \<or> last (api_log (fold flctrl_apply rs obj)) = Start_data)"
    if "flctrl_sim obj X"
      "mtlk_flctrl_is_data_flowing obj \<longleftrightarrow> api_log obj = [] \<or> last (api_log obj) = Start_data" for obj X
    using that assms
  proof (induction rs arbitrary: obj X)
    case (Cons r rs)
    then have r: "flctrl_client r < 32" by simp
    show ?case
      using Cons.IH [OF flctrl_step [OF Cons.prems(1) r] flctrl_last_call [OF r Cons.prems(2)]]
        Cons.prems(3) by simp
  qed simp
  moreover have "flctrl_sim mtlk_flctrl_init {}"
    by (simp add: flctrl_sim_def mtlk_flctrl_init_def)
  ultimately show ?thesis
    using flctrl_sim_flowing by (fastforce simp: mtlk_flctrl_is_data_flowing_def mtlk_flctrl_init_def)
qed

theorem flctrl_flows_iff_nobody_stops_witness:
  "\<not> mtlk_flctrl_is_data_flowing
     (fold flctrl_apply [Req_stop 0, Req_stop 7, Req_start 0] mtlk_flctrl_init)"
  using flctrl_flows_iff_nobody_stops [of "[Req_stop 0, Req_stop 7, Req_start 0]"] by auto

section \<open>Reference limiter\<close>

record mtlk_reflim =
  rl_max :: nat
  rl_cur :: nat

definition mtlk_reflim_init :: "nat \<Rightarrow> mtlk_reflim" where
  "mtlk_reflim_init lim = \<lparr>rl_max = lim, rl_cur = 0\<rparr>"

definition mtlk_reflim_try_ref :: "mtlk_reflim \<Rightarrow> bool \<times> mtlk_reflim" where
  "mtlk_reflim_try_ref r =
     (let cur = u32_inc (rl_cur r); r1 = r\<lparr>rl_cur := cur\<rparr> in
      if cur \<le> rl_max r then (True, r1) else (False, r1\<lparr>rl_cur := u32_dec (rl_cur r1)\<rparr>))"

definition mtlk_reflim_unref :: "mtlk_reflim \<Rightarrow> mtlk_reflim" where
  "mtlk_reflim_unref r = r\<lparr>rl_cur := u32_dec (rl_cur r)\<rparr>"

definition mtlk_reflim_get_max :: "mtlk_reflim \<Rightarrow> nat" where
  "mtlk_reflim_get_max r = rl_max r"

definition mtlk_reflim_get_cur :: "mtlk_reflim \<Rightarrow> nat" where
  "mtlk_reflim_get_cur r = rl_cur r"

text \<open>
  The contract its clients use: \<open>holds r n\<close> says that \<open>n\<close> references are out.  As long as there are fewer than
  \<open>room\<close> of them, which the width of the counter allows, a reference is granted exactly while fewer than
  \<open>ceiling r\<close> are out, a refusal changes nothing, and returning one makes room again.
\<close>
locale limiter =
  fixes try_ref :: "'r \<Rightarrow> bool \<times> 'r"
    and unref :: "'r \<Rightarrow> 'r"
    and ceiling :: "'r \<Rightarrow> nat"
    and holds :: "'r \<Rightarrow> nat \<Rightarrow> bool"
    and room :: nat
  assumes grant: "holds r n \<Longrightarrow> n < room \<Longrightarrow> n < ceiling r
      \<Longrightarrow> \<exists>r'. try_ref r = (True, r') \<and> holds r' (Suc n) \<and> ceiling r' = ceiling r"
    and refuse: "holds r n \<Longrightarrow> n < room \<Longrightarrow> \<not> n < ceiling r \<Longrightarrow> try_ref r = (False, r)"
    and return: "holds r (Suc n) \<Longrightarrow> holds (unref r) n \<and> ceiling (unref r) = ceiling r"
begin

lemma try_ref_cases:
  assumes "holds r n" "n < room" "try_ref r = (ok, r')"
  shows "ok \<longleftrightarrow> n < ceiling r" "holds r' (if ok then Suc n else n)" "ceiling r' = ceiling r"
proof -
  have "(ok \<longleftrightarrow> n < ceiling r) \<and> holds r' (if ok then Suc n else n) \<and> ceiling r' = ceiling r"
  proof (cases "n < ceiling r")
    case True
    then obtain r'' where "try_ref r = (True, r'')" "holds r'' (Suc n)" "ceiling r'' = ceiling r"
      using grant [OF assms(1,2)] by blast
    then show ?thesis using assms(3) True by simp
  next
    case False
    then show ?thesis using refuse [OF assms(1,2) False] assms by simp
  qed
  then show "ok \<longleftrightarrow> n < ceiling r" "holds r' (if ok then Suc n else n)" "ceiling r' = ceiling r"
    by blast+
qed

end

definition reflim_holds :: "mtlk_reflim \<Rightarrow> nat \<Rightarrow> bool" where
  "reflim_holds r n = (rl_cur r = n \<and> n \<le> rl_max r \<and> rl_max r < u32_max)"

definition reflim_room :: nat where
  "reflim_room = u32_max - 1"

interpretation reflim: limiter mtlk_reflim_try_ref mtlk_reflim_unref rl_max reflim_holds reflim_room
proof (unfold_locales, goal_cases)
  case (1 r n)
  then show ?case
    by (auto simp: reflim_holds_def reflim_room_def mtlk_reflim_try_ref_def Let_def u32_simps)
next
  case (2 r n)
  then have "n + 1 < u32_max" "rl_cur r = n" "rl_max r = n"
    by (auto simp: reflim_holds_def reflim_room_def)
  then have "mtlk_reflim_try_ref r = (False, r\<lparr>rl_cur := u32_dec (u32_inc n)\<rparr>)"
    by (simp add: mtlk_reflim_try_ref_def Let_def u32_inc_small)
  also have "u32_dec (u32_inc n) = rl_cur r"
    using \<open>n + 1 < u32_max\<close> \<open>rl_cur r = n\<close> u32_dec_inc [of n] by simp
  finally show ?case by simp
next
  case (3 r n)
  then show ?case
    by (auto simp: reflim_holds_def mtlk_reflim_unref_def u32_dec_pos)
qed

datatype reflim_op = Take_ref | Give_back

fun reflim_apply :: "reflim_op \<Rightarrow> mtlk_reflim \<Rightarrow> mtlk_reflim" where
  "reflim_apply Take_ref r = snd (mtlk_reflim_try_ref r)"
| "reflim_apply Give_back r = mtlk_reflim_unref r"

text \<open>The number of references that are out, when a return needs one that is out.\<close>
fun refs_out :: "nat \<Rightarrow> reflim_op list \<Rightarrow> nat \<Rightarrow> nat option" where
  "refs_out lim [] n = Some n"
| "refs_out lim (Take_ref # ops) n = refs_out lim ops (if n < lim then Suc n else n)"
| "refs_out lim (Give_back # ops) 0 = None"
| "refs_out lim (Give_back # ops) (Suc n) = refs_out lim ops n"

lemma reflim_run:
  assumes "reflim_holds r n" "rl_max r < reflim_room" "refs_out (rl_max r) ops n = Some k"
  shows "reflim_holds (fold reflim_apply ops r) k \<and> rl_max (fold reflim_apply ops r) = rl_max r"
  using assms
proof (induction "rl_max r" ops n arbitrary: r rule: refs_out.induct)
  case (2 ops n)
  obtain ok r' where t: "mtlk_reflim_try_ref r = (ok, r')" by fastforce
  have "n < reflim_room" using 2(2,3) by (simp add: reflim_holds_def)
  note c = reflim.try_ref_cases [OF 2(2) this t]
  then show ?case
    using 2 t by (auto split: if_splits)
next
  case (4 ops n)
  then show ?case
    using reflim.return [OF 4(2)] by auto
qed auto

text \<open>
  over any sequence of attempts to take a reference and of returns of references that are out, the
  counter of the limiter is the number of references out, which never exceeds the ceiling: attempts
  are granted exactly while fewer are out.
\<close>
lemma reflim_counts_grants:
  assumes "lim < u32_max - 1" "refs_out lim ops 0 = Some k"
  shows "rl_cur (fold reflim_apply ops (mtlk_reflim_init lim)) = k \<and> k \<le> lim"
proof -
  have "reflim_holds (mtlk_reflim_init lim) 0"
    using assms by (simp add: reflim_holds_def mtlk_reflim_init_def)
  from reflim_run [OF this, of ops k] show ?thesis
    using assms by (auto simp: mtlk_reflim_init_def reflim_holds_def reflim_room_def)
qed

theorem reflim_counts_grants_witness:
  "rl_cur (fold reflim_apply [Take_ref, Take_ref, Take_ref, Give_back] (mtlk_reflim_init 2)) = 1"
  using reflim_counts_grants [of 2 "[Take_ref, Take_ref, Take_ref, Give_back]" 1]
  by (simp add: u32_max_def)

end
