(* ===== verification/Addba.thy ===== *)
theory Addba
  imports Flctrl Qos
begin

text \<open>
  Negotiation of block-acknowledgement agreements, \<^verbatim>\<open>driver/shared/addba.c\<close> and \<^verbatim>\<open>addba.h\<close>, and the parser of
  block-ack action frames in \<^verbatim>\<open>driver/shared/frame.c\<close>.  One peer is modelled together with the ADDBA
  object it points to; the two limiters are shared with other peers, whose references are a number
  in the invariants.  Each TID owns one management message per direction: while it is
  attached or on its way a new one cannot be obtained, and its confirmation calls the callback it was
  sent with.  Whether the serializer has a free block and how a send ends are inputs, as are the
  clock and the last reception time of the reordering queue.  Loops over the TIDs that take and release the lock for each TID
  are folds.
\<close>

section \<open>Data\<close>

datatype addba_tx_state =
    MTLK_ADDBA_TX_NONE | MTLK_ADDBA_TX_ADDBA_REQ_SENT | MTLK_ADDBA_TX_ADDBA_REQ_CFMD
  | MTLK_ADDBA_TX_ADD_AGGR_REQ_SENT | MTLK_ADDBA_TX_AGGR_OPENED | MTLK_ADDBA_TX_DEL_AGGR_REQ_SENT

datatype addba_rx_state =
    MTLK_ADDBA_RX_NONE | MTLK_ADDBA_RX_ADDBA_NEGATIVE_RES_SENT | MTLK_ADDBA_RX_ADDBA_POSITIVE_RES_SENT
  | MTLK_ADDBA_RX_REORD_IN_PROCESS | MTLK_ADDBA_RX_DELBA_REQ_SENT

datatype addba_cnt =
    MTLK_ADDBAPI_CNT_AGGR_ACTIVE | MTLK_ADDBAPI_CNT_REORD_ACTIVE | MTLK_ADDBAPI_CNT_ADDBA_REQUEST_TX
  | MTLK_ADDBAPI_CNT_ADDBA_POSITIVE_RESPONSE_TX | MTLK_ADDBAPI_CNT_ADDBA_NEGATIVE_RESPONSE_TX
  | MTLK_ADDBAPI_CNT_ADDBA_REQUEST_RX | MTLK_ADDBAPI_CNT_ADDBA_POSITIVE_RESPONSE_RX
  | MTLK_ADDBAPI_CNT_ADDBA_NEGATIVE_RESPONSE_RX | MTLK_ADDBAPI_CNT_ADDBA_UNCONFIRMED_RESPONSE_RX
  | MTLK_ADDBAPI_CNT_DELBA_REQUEST_TX | MTLK_ADDBAPI_CNT_DELBA_SENT_REQUEST_RX
  | MTLK_ADDBAPI_CNT_DELBA_RECEIVED_REQUEST_RX | MTLK_ADDBAPI_CNT_AGGR_OPEN_REQUEST
  | MTLK_ADDBAPI_CNT_AGGR_OPEN_CONFIRM | MTLK_ADDBAPI_CNT_AGGR_CLOSE_REQUEST
  | MTLK_ADDBAPI_CNT_AGGR_CLOSE_CONFIRM

definition MTLK_ADDBA_NOF_TIDs :: nat where "MTLK_ADDBA_NOF_TIDs = 8"
definition MTLK_ADDBA_RE_TX_REQ_TIMEOUT_MS :: nat where "MTLK_ADDBA_RE_TX_REQ_TIMEOUT_MS = 3000"
definition MTLK_ADDBA_MAX_REJECTS :: nat where "MTLK_ADDBA_MAX_REJECTS = 5"
definition MTLK_ADDBA_BA_TIMEOUT_UNIT_US :: nat where "MTLK_ADDBA_BA_TIMEOUT_UNIT_US = 1024"
definition MTLK_ADDBA_MAX_REORD_WIN_SIZE :: nat where "MTLK_ADDBA_MAX_REORD_WIN_SIZE = 64"
definition MTLK_ADDBA_RES_CODE_SUCCESS :: nat where "MTLK_ADDBA_RES_CODE_SUCCESS = 0"
definition MTLK_ADDBA_RES_CODE_FAILURE :: nat where "MTLK_ADDBA_RES_CODE_FAILURE = 1"
definition MTLK_ADDBA_RATE_ADAPTIVE :: nat where "MTLK_ADDBA_RATE_ADAPTIVE = 0xFFFF"
definition INVALID_TAG_ID :: nat where "INVALID_TAG_ID = 255"

lemmas addba_consts = MTLK_ADDBA_NOF_TIDs_def MTLK_ADDBA_RE_TX_REQ_TIMEOUT_MS_def MTLK_ADDBA_MAX_REJECTS_def
  MTLK_ADDBA_BA_TIMEOUT_UNIT_US_def MTLK_ADDBA_MAX_REORD_WIN_SIZE_def MTLK_ADDBA_RES_CODE_SUCCESS_def
  MTLK_ADDBA_RES_CODE_FAILURE_def MTLK_ADDBA_RATE_ADAPTIVE_def INVALID_TAG_ID_def

text \<open>
  The management message of a TID: free, or sent with one of the callbacks. A send that fails cancels its message
  (\<^verbatim>\<open>mtlk_txmm_msg_send\<close>), which is then free again.
\<close>
datatype addba_clb = Clb_addba_req | Clb_open_aggr | Clb_close_aggr | Clb_addba_res | Clb_delba_req

datatype man_msg = Msg_free | Msg_sent addba_clb

record addba_tx =
  tx_state :: addba_tx_state
  addba_req_cfmd_time :: nat
  addba_req_dlgt :: nat
  addba_res_rejects :: nat
  tx_msg :: man_msg

record addba_rx =
  rx_state :: addba_rx_state
  delba_timeout :: nat
  req_tstamp :: nat
  rx_msg :: man_msg

record addba_tid_cfg =
  use_aggr :: bool
  accept_aggr :: bool
  max_nof_packets :: nat
  max_nof_bytes :: nat
  timeout_interval :: nat
  min_packet_size_in_aggr :: nat
  addba_timeout :: nat
  aggr_win_size :: nat

text \<open>Messages handed to the serializer and calls of the owner, in order.\<close>
datatype addba_event =
    Tx_addba_req nat nat nat nat
  | Tx_open_aggr nat nat nat nat nat
  | Tx_close_aggr nat
  | Tx_delba nat
  | Tx_addba_res nat nat nat "(nat \<times> nat) option"
  | On_start_aggregation nat
  | On_stop_aggregation nat
  | On_start_reordering nat nat nat
  | On_stop_reordering nat
  | On_ba_req_rejected nat
  | On_ba_req_unconfirmed nat

record addba =
  ad_cfg :: "nat \<Rightarrow> addba_tid_cfg"
  aggr_reflim :: mtlk_reflim
  reord_reflim :: mtlk_reflim
  next_dlg_token :: nat

record addba_peer =
  ap_addba :: addba
  ap_addr :: nat
  ap_tx :: "nat \<Rightarrow> addba_tx"
  ap_rx :: "nat \<Rightarrow> addba_rx"
  ap_active :: bool
  ap_cntrs :: "addba_cnt \<Rightarrow> nat"
  ap_log :: "addba_event list"

text \<open>What the environment answers during one operation.\<close>
record addba_env =
  msg_avail :: "nat \<Rightarrow> bool"
  send_ok :: "nat \<Rightarrow> bool"
  now_ms :: nat
  last_rx_time :: "nat \<Rightarrow> nat"

definition ap_emit :: "addba_event \<Rightarrow> addba_peer \<Rightarrow> addba_peer" where
  "ap_emit e p = p\<lparr>ap_log := ap_log p @ [e]\<rparr>"

definition upd_tx :: "nat \<Rightarrow> (addba_tx \<Rightarrow> addba_tx) \<Rightarrow> addba_peer \<Rightarrow> addba_peer" where
  "upd_tx t f p = p\<lparr>ap_tx := (ap_tx p)(t := f (ap_tx p t))\<rparr>"

definition upd_rx :: "nat \<Rightarrow> (addba_rx \<Rightarrow> addba_rx) \<Rightarrow> addba_peer \<Rightarrow> addba_peer" where
  "upd_rx t f p = p\<lparr>ap_rx := (ap_rx p)(t := f (ap_rx p t))\<rparr>"

definition upd_addba :: "(addba \<Rightarrow> addba) \<Rightarrow> addba_peer \<Rightarrow> addba_peer" where
  "upd_addba f p = p\<lparr>ap_addba := f (ap_addba p)\<rparr>"

definition cntr_inc :: "addba_cnt \<Rightarrow> addba_peer \<Rightarrow> addba_peer" where
  "cntr_inc c p = p\<lparr>ap_cntrs := (ap_cntrs p)(c := u32_inc (ap_cntrs p c))\<rparr>"

definition cntr_dec :: "addba_cnt \<Rightarrow> addba_peer \<Rightarrow> addba_peer" where
  "cntr_dec c p = p\<lparr>ap_cntrs := (ap_cntrs p)(c := u32_dec (ap_cntrs p c))\<rparr>"

section \<open>Helpers\<close>

definition mtlk_aux_is_11n_rate :: "nat \<Rightarrow> bool" where
  "mtlk_aux_is_11n_rate rate = (15 \<le> rate \<and> rate \<le> 31)"

definition mtlk_addba_is_allowed_rate :: "nat \<Rightarrow> bool" where
  "mtlk_addba_is_allowed_rate rate =
     (\<not> (rate \<noteq> MTLK_ADDBA_RATE_ADAPTIVE \<and> \<not> mtlk_aux_is_11n_rate (rate mod 256)))"

definition mtlk_addba_correct_res_win_size :: "nat \<Rightarrow> nat" where
  "mtlk_addba_correct_res_win_size w = (if w = 0 then MTLK_ADDBA_MAX_REORD_WIN_SIZE else w)"

definition ADDBA_TU_TO_MS :: "nat \<Rightarrow> nat" where
  "ADDBA_TU_TO_MS tu = (tu * MTLK_ADDBA_BA_TIMEOUT_UNIT_US) mod u32_max div 1000"

definition mtlk_addba_is_aggr_on :: "addba_tx_state \<Rightarrow> bool" where
  "mtlk_addba_is_aggr_on st = (st = MTLK_ADDBA_TX_AGGR_OPENED \<or> st = MTLK_ADDBA_TX_DEL_AGGR_REQ_SENT)"

definition mtlk_addba_is_reord_on :: "addba_rx_state \<Rightarrow> bool" where
  "mtlk_addba_is_reord_on st = (st = MTLK_ADDBA_RX_REORD_IN_PROCESS \<or> st = MTLK_ADDBA_RX_DELBA_REQ_SENT)"

definition mtlk_addba_peer_reset_tx_state :: "nat \<Rightarrow> addba_peer \<Rightarrow> bool \<times> addba_peer" where
  "mtlk_addba_peer_reset_tx_state t p =
     (if tx_state (ap_tx p t) \<noteq> MTLK_ADDBA_TX_NONE then
        (mtlk_addba_is_aggr_on (tx_state (ap_tx p t)),
         upd_tx t (\<lambda>x. x\<lparr>tx_state := MTLK_ADDBA_TX_NONE, addba_req_dlgt := INVALID_TAG_ID\<rparr>)
           (cntr_dec MTLK_ADDBAPI_CNT_AGGR_ACTIVE
             (upd_addba (\<lambda>a. a\<lparr>aggr_reflim := mtlk_reflim_unref (aggr_reflim a)\<rparr>) p)))
      else (False, p))"

definition mtlk_addba_peer_reset_rx_state :: "nat \<Rightarrow> addba_peer \<Rightarrow> bool \<times> addba_peer" where
  "mtlk_addba_peer_reset_rx_state t p =
     (if rx_state (ap_rx p t) \<noteq> MTLK_ADDBA_RX_NONE then
        (mtlk_addba_is_reord_on (rx_state (ap_rx p t)),
         upd_rx t (\<lambda>x. x\<lparr>rx_state := MTLK_ADDBA_RX_NONE\<rparr>)
           (if rx_state (ap_rx p t) \<noteq> MTLK_ADDBA_RX_ADDBA_NEGATIVE_RES_SENT then
              cntr_dec MTLK_ADDBAPI_CNT_REORD_ACTIVE
                (upd_addba (\<lambda>a. a\<lparr>reord_reflim := mtlk_reflim_unref (reord_reflim a)\<rparr>) p)
            else p))
      else (False, p))"

text \<open>\<^verbatim>\<open>mtlk_txmm_msg_get_empty_data\<close> on the message of a TID: fails when it is in use or no block is free.\<close>
definition tx_msg_get_empty :: "addba_env \<Rightarrow> nat \<Rightarrow> addba_peer \<Rightarrow> bool" where
  "tx_msg_get_empty e t p = (tx_msg (ap_tx p t) = Msg_free \<and> msg_avail e t)"

definition rx_msg_get_empty :: "addba_env \<Rightarrow> nat \<Rightarrow> addba_peer \<Rightarrow> bool" where
  "rx_msg_get_empty e t p = (rx_msg (ap_rx p t) = Msg_free \<and> msg_avail e t)"

section \<open>Requests\<close>

definition mtlk_addba_peer_on_addba_req_sent :: "nat \<Rightarrow> addba_peer \<Rightarrow> addba_peer" where
  "mtlk_addba_peer_on_addba_req_sent t p =
     (let tok = next_dlg_token (ap_addba p);
          p1 = upd_tx t (\<lambda>x. x\<lparr>tx_state := MTLK_ADDBA_TX_ADDBA_REQ_SENT, addba_req_dlgt := tok\<rparr>) p;
          tok1 = (tok + 1) mod 256;
          tok2 = (if tok1 = INVALID_TAG_ID then (tok1 + 1) mod 256 else tok1)
      in cntr_inc MTLK_ADDBAPI_CNT_AGGR_ACTIVE (upd_addba (\<lambda>a. a\<lparr>next_dlg_token := tok2\<rparr>) p1))"

definition mtlk_addba_peer_fill_addba_req :: "nat \<Rightarrow> addba_peer \<Rightarrow> addba_event" where
  "mtlk_addba_peer_fill_addba_req t p =
     Tx_addba_req t (next_dlg_token (ap_addba p)) (aggr_win_size (ad_cfg (ap_addba p) t))
       (addba_timeout (ad_cfg (ap_addba p) t))"

definition mtlk_addba_peer_tx_addba_req :: "addba_env \<Rightarrow> nat \<Rightarrow> addba_peer \<Rightarrow> addba_peer" where
  "mtlk_addba_peer_tx_addba_req e t p =
     (if tx_state (ap_tx p t) \<noteq> MTLK_ADDBA_TX_NONE then p
      else case mtlk_reflim_try_ref (aggr_reflim (ap_addba p)) of
        (True, r) \<Rightarrow>
          (let p1 = upd_addba (\<lambda>a. a\<lparr>aggr_reflim := r\<rparr>) p in
           if tx_msg_get_empty e t p1 then
             (if send_ok e t then
                cntr_inc MTLK_ADDBAPI_CNT_ADDBA_REQUEST_TX
                  (mtlk_addba_peer_on_addba_req_sent t
                    (ap_emit (mtlk_addba_peer_fill_addba_req t p1)
                      (upd_tx t (\<lambda>x. x\<lparr>tx_msg := Msg_sent Clb_addba_req\<rparr>) p1)))
              else upd_addba (\<lambda>a. a\<lparr>aggr_reflim := mtlk_reflim_unref (aggr_reflim a)\<rparr>)
                     (upd_tx t (\<lambda>x. x\<lparr>tx_msg := Msg_free\<rparr>) p1))
           else upd_addba (\<lambda>a. a\<lparr>aggr_reflim := mtlk_reflim_unref (aggr_reflim a)\<rparr>) p1)
      | (False, r) \<Rightarrow> upd_addba (\<lambda>a. a\<lparr>aggr_reflim := r\<rparr>) p)"

definition mtlk_addba_peer_close_aggr_req :: "addba_env \<Rightarrow> nat \<Rightarrow> addba_peer \<Rightarrow> addba_peer" where
  "mtlk_addba_peer_close_aggr_req e t p =
     (if tx_state (ap_tx p t) \<noteq> MTLK_ADDBA_TX_ADD_AGGR_REQ_SENT \<and> tx_state (ap_tx p t) \<noteq> MTLK_ADDBA_TX_AGGR_OPENED
      then p
      else if \<not> tx_msg_get_empty e t p then p
      else if send_ok e t then
        cntr_inc MTLK_ADDBAPI_CNT_AGGR_CLOSE_REQUEST
          (ap_emit (Tx_close_aggr t)
            (upd_tx t (\<lambda>x. x\<lparr>tx_msg := Msg_sent Clb_close_aggr, tx_state := MTLK_ADDBA_TX_DEL_AGGR_REQ_SENT\<rparr>) p))
      else upd_tx t (\<lambda>x. x\<lparr>tx_msg := Msg_free\<rparr>) p)"

definition mtlk_addba_peer_send_rx_delba_req :: "addba_env \<Rightarrow> nat \<Rightarrow> addba_peer \<Rightarrow> addba_peer" where
  "mtlk_addba_peer_send_rx_delba_req e t p =
     (if rx_msg_get_empty e t p then
        (if send_ok e t then
           cntr_inc MTLK_ADDBAPI_CNT_DELBA_SENT_REQUEST_RX
             (ap_emit (Tx_delba t)
               (upd_rx t (\<lambda>x. x\<lparr>rx_msg := Msg_sent Clb_delba_req, rx_state := MTLK_ADDBA_RX_DELBA_REQ_SENT\<rparr>) p))
         else upd_rx t (\<lambda>x. x\<lparr>rx_msg := Msg_free\<rparr>) p)
      else p)"

section \<open>Confirmations\<close>

text \<open>
  The callbacks of \<^verbatim>\<open>addba.c\<close>: \<open>confirmed\<close> is \<^verbatim>\<open>reason == MTLK_TXMM_CLBR_CONFIRMED\<close>, \<open>ok\<close> is
  \<^verbatim>\<open>status == UMI_OK\<close>.  Every callback answers \<^verbatim>\<open>MTLK_TXMM_CLBA_FREE\<close>, so its message is free afterwards.
\<close>
definition delba_req_tx_cfm_clb :: "nat \<Rightarrow> addba_peer \<Rightarrow> addba_peer" where
  "delba_req_tx_cfm_clb t p =
     (let (stop, p1) = mtlk_addba_peer_reset_rx_state t p
      in if stop then ap_emit (On_stop_reordering t) p1 else p1)"

definition close_aggr_cfm_clb :: "bool \<Rightarrow> bool \<Rightarrow> nat \<Rightarrow> addba_peer \<Rightarrow> addba_peer" where
  "close_aggr_cfm_clb confirmed ok t p =
     (let (stop, p1) = mtlk_addba_peer_reset_tx_state t p;
          p2 = (if confirmed \<and> ok then cntr_inc MTLK_ADDBAPI_CNT_AGGR_CLOSE_CONFIRM p1 else p1)
      in if stop then ap_emit (On_stop_aggregation t) p2 else p2)"

definition open_aggr_cfm_clb :: "bool \<Rightarrow> bool \<Rightarrow> nat \<Rightarrow> addba_peer \<Rightarrow> addba_peer" where
  "open_aggr_cfm_clb confirmed ok t p =
     (let p1 = upd_tx t (\<lambda>x. x\<lparr>tx_state := MTLK_ADDBA_TX_AGGR_OPENED\<rparr>) p;
          p2 = (if confirmed \<and> ok then cntr_inc MTLK_ADDBAPI_CNT_AGGR_OPEN_CONFIRM p1 else p1)
      in ap_emit (On_start_aggregation t) p2)"

definition addba_req_tx_cfm_clb :: "addba_env \<Rightarrow> nat \<Rightarrow> addba_peer \<Rightarrow> addba_peer" where
  "addba_req_tx_cfm_clb e t p =
     upd_tx t (\<lambda>x. x\<lparr>tx_state := MTLK_ADDBA_TX_ADDBA_REQ_CFMD, addba_req_cfmd_time := now_ms e\<rparr>) p"

definition addba_res_tx_cfm_clb :: "bool \<Rightarrow> bool \<Rightarrow> nat \<Rightarrow> addba_peer \<Rightarrow> addba_peer" where
  "addba_res_tx_cfm_clb confirmed ok t p =
     (let p1 = (if confirmed \<and> ok then p else cntr_inc MTLK_ADDBAPI_CNT_ADDBA_UNCONFIRMED_RESPONSE_RX p)
      in if rx_state (ap_rx p1 t) = MTLK_ADDBA_RX_ADDBA_POSITIVE_RES_SENT
         then upd_rx t (\<lambda>x. x\<lparr>rx_state := MTLK_ADDBA_RX_REORD_IN_PROCESS\<rparr>) p1
         else snd (mtlk_addba_peer_reset_rx_state t p1))"

text \<open>The serializer confirms the message of a TID, if it is on its way.\<close>
definition addba_tx_cfm :: "addba_env \<Rightarrow> bool \<Rightarrow> bool \<Rightarrow> nat \<Rightarrow> addba_peer \<Rightarrow> addba_peer" where
  "addba_tx_cfm e confirmed ok t p =
     (case tx_msg (ap_tx p t) of
        Msg_sent Clb_addba_req \<Rightarrow> upd_tx t (\<lambda>x. x\<lparr>tx_msg := Msg_free\<rparr>) (addba_req_tx_cfm_clb e t p)
      | Msg_sent Clb_open_aggr \<Rightarrow> upd_tx t (\<lambda>x. x\<lparr>tx_msg := Msg_free\<rparr>) (open_aggr_cfm_clb confirmed ok t p)
      | Msg_sent Clb_close_aggr \<Rightarrow> upd_tx t (\<lambda>x. x\<lparr>tx_msg := Msg_free\<rparr>) (close_aggr_cfm_clb confirmed ok t p)
      | _ \<Rightarrow> p)"

definition addba_rx_cfm :: "bool \<Rightarrow> bool \<Rightarrow> nat \<Rightarrow> addba_peer \<Rightarrow> addba_peer" where
  "addba_rx_cfm confirmed ok t p =
     (case rx_msg (ap_rx p t) of
        Msg_sent Clb_addba_res \<Rightarrow> upd_rx t (\<lambda>x. x\<lparr>rx_msg := Msg_free\<rparr>) (addba_res_tx_cfm_clb confirmed ok t p)
      | Msg_sent Clb_delba_req \<Rightarrow> upd_rx t (\<lambda>x. x\<lparr>rx_msg := Msg_free\<rparr>) (delba_req_tx_cfm_clb t p)
      | _ \<Rightarrow> p)"

section \<open>Peer operations\<close>

definition addba_tids :: "nat list" where
  "addba_tids = [0..<MTLK_ADDBA_NOF_TIDs]"

text \<open>The body of the loop of \<^verbatim>\<open>_mtlk_addba_peer_stop\<close>.\<close>
definition peer_stop_tid :: "nat \<Rightarrow> addba_peer \<Rightarrow> addba_peer" where
  "peer_stop_tid t p =
     (let (stop, p1) = mtlk_addba_peer_reset_tx_state t p;
          p2 = upd_tx t (\<lambda>x. x\<lparr>tx_msg := Msg_free\<rparr>) p1;
          p3 = (if stop then ap_emit (On_stop_aggregation t) p2 else p2);
          (stop', p4) = mtlk_addba_peer_reset_rx_state t p3;
          p5 = upd_rx t (\<lambda>x. x\<lparr>rx_msg := Msg_free\<rparr>) p4;
          p6 = (if stop' then ap_emit (On_stop_reordering t) p5 else p5)
      in upd_rx t (\<lambda>x. x\<lparr>rx_state := MTLK_ADDBA_RX_NONE, delba_timeout := 0, req_tstamp := 0\<rparr>)
           (upd_tx t (\<lambda>x. x\<lparr>tx_state := MTLK_ADDBA_TX_NONE, addba_req_cfmd_time := 0, addba_req_dlgt := 0,
              addba_res_rejects := 0\<rparr>) p6))"

definition mtlk_addba_peer_stop_all :: "addba_peer \<Rightarrow> addba_peer" where
  "mtlk_addba_peer_stop_all p = fold peer_stop_tid addba_tids p"

definition mtlk_addba_peer_start :: "nat \<Rightarrow> addba_peer \<Rightarrow> mtlk_error \<times> addba_peer" where
  "mtlk_addba_peer_start addr p = (MTLK_ERR_OK, (mtlk_addba_peer_stop_all p)\<lparr>ap_addr := addr, ap_active := True\<rparr>)"

definition mtlk_addba_peer_stop :: "addba_peer \<Rightarrow> addba_peer" where
  "mtlk_addba_peer_stop p = (mtlk_addba_peer_stop_all (p\<lparr>ap_active := False\<rparr>))\<lparr>ap_addr := 0\<rparr>"

definition mtlk_addba_peer_start_negotiation_all :: "qos_maps \<Rightarrow> addba_env \<Rightarrow> addba_peer \<Rightarrow> addba_peer" where
  "mtlk_addba_peer_start_negotiation_all g e p =
     fold (\<lambda>i p. let t = mtlk_qos_get_tid_by_ac g i in
             if use_aggr (ad_cfg (ap_addba p) t) then mtlk_addba_peer_tx_addba_req e t p else p)
       [0..<NTS_PRIORITIES] p"

definition mtlk_addba_peer_start_negotiation :: "qos_maps \<Rightarrow> addba_env \<Rightarrow> nat \<Rightarrow> addba_peer \<Rightarrow> addba_peer" where
  "mtlk_addba_peer_start_negotiation g e rate p =
     (if mtlk_addba_is_allowed_rate rate then mtlk_addba_peer_start_negotiation_all g e p else p)"

definition mtlk_addba_peer_start_aggr_negotiation :: "addba_env \<Rightarrow> nat \<Rightarrow> addba_peer \<Rightarrow> addba_peer" where
  "mtlk_addba_peer_start_aggr_negotiation e t p =
     (if use_aggr (ad_cfg (ap_addba p) t) then mtlk_addba_peer_tx_addba_req e t p else p)"

text \<open>
  \<^verbatim>\<open>mtlk_addba_peer_on_delba_req_rx\<close>: the TID comes from the frame and indexes \<^verbatim>\<open>peer->tid\<close> unchecked, so
  a TID beyond the array is a fault.
\<close>
definition mtlk_addba_peer_on_delba_req_rx ::
    "addba_env \<Rightarrow> nat \<Rightarrow> bool \<Rightarrow> addba_peer \<Rightarrow> c_fault + addba_peer" where
  "mtlk_addba_peer_on_delba_req_rx e t initiator p =
     (if \<not> ap_active p then Inr p
      else if t \<ge> MTLK_ADDBA_NOF_TIDs then Inl Out_of_bounds
      else if initiator then
        (let (stop, p1) = mtlk_addba_peer_reset_rx_state t p;
             p2 = cntr_inc MTLK_ADDBAPI_CNT_DELBA_RECEIVED_REQUEST_RX p1
         in Inr (if stop then ap_emit (On_stop_reordering t) p2 else p2))
      else Inr (cntr_inc MTLK_ADDBAPI_CNT_DELBA_REQUEST_TX (mtlk_addba_peer_close_aggr_req e t p)))"

definition addba_open_event :: "nat \<Rightarrow> addba_peer \<Rightarrow> addba_event" where
  "addba_open_event t p =
     (let c = ad_cfg (ap_addba p) t
      in Tx_open_aggr t (max_nof_packets c) (max_nof_bytes c) (timeout_interval c) (min_packet_size_in_aggr c))"

text \<open>The accepting branch of \<^verbatim>\<open>mtlk_addba_peer_on_addba_res_rx\<close>.\<close>
definition addba_res_accepted :: "addba_env \<Rightarrow> nat \<Rightarrow> addba_peer \<Rightarrow> addba_peer" where
  "addba_res_accepted e t p =
     (let p1 = upd_tx t (\<lambda>x. x\<lparr>addba_res_rejects := 0\<rparr>) p in
      if tx_state (ap_tx p1 t) \<noteq> MTLK_ADDBA_TX_ADDBA_REQ_SENT \<and> tx_state (ap_tx p1 t) \<noteq> MTLK_ADDBA_TX_ADDBA_REQ_CFMD
      then p1
      else if \<not> tx_msg_get_empty e t p1 then p1
      else cntr_inc MTLK_ADDBAPI_CNT_ADDBA_POSITIVE_RESPONSE_TX
        (if send_ok e t then
           cntr_inc MTLK_ADDBAPI_CNT_AGGR_OPEN_REQUEST
             (ap_emit (addba_open_event t p1)
               (upd_tx t (\<lambda>x. x\<lparr>tx_msg := Msg_sent Clb_open_aggr, tx_state := MTLK_ADDBA_TX_ADD_AGGR_REQ_SENT\<rparr>) p1))
         else upd_tx t (\<lambda>x. x\<lparr>tx_msg := Msg_free\<rparr>) p1))"

text \<open>The rejecting branch.\<close>
definition addba_res_rejected :: "nat \<Rightarrow> addba_peer \<Rightarrow> addba_peer" where
  "addba_res_rejected t p =
     (let p1 = snd (mtlk_addba_peer_reset_tx_state t p);
          rej = (addba_res_rejects (ap_tx p1 t) + 1) mod 256;
          notify = rej < MTLK_ADDBA_MAX_REJECTS;
          p2 = upd_tx t (\<lambda>x. x\<lparr>addba_res_rejects := (if notify then rej else 0)\<rparr>) p1;
          p3 = cntr_inc MTLK_ADDBAPI_CNT_ADDBA_NEGATIVE_RESPONSE_TX p2
      in if notify then ap_emit (On_ba_req_rejected t) p3 else p3)"

definition mtlk_addba_peer_on_addba_res_rx ::
    "addba_env \<Rightarrow> nat \<Rightarrow> nat \<Rightarrow> nat \<Rightarrow> addba_peer \<Rightarrow> c_fault + addba_peer" where
  "mtlk_addba_peer_on_addba_res_rx e res_code t dlgt p =
     (if \<not> ap_active p then Inr p
      else if t \<ge> MTLK_ADDBA_NOF_TIDs then Inl Out_of_bounds
      else if addba_req_dlgt (ap_tx p t) \<noteq> dlgt then Inr p
      else if res_code = MTLK_ADDBA_RES_CODE_SUCCESS then Inr (addba_res_accepted e t p)
      else Inr (addba_res_rejected t p))"

text \<open>
  The verdict of \<^verbatim>\<open>mtlk_addba_peer_on_addba_req_rx\<close>: the window to use if the request is accepted, with a
  reordering reference taken.
\<close>
definition addba_req_verdict :: "nat \<Rightarrow> nat \<Rightarrow> nat \<Rightarrow> nat \<Rightarrow> addba_peer \<Rightarrow> nat option \<times> addba_peer" where
  "addba_req_verdict t win_size ack_policy rate p =
     (if \<not> mtlk_addba_is_allowed_rate rate then (None, p)
      else if \<not> accept_aggr (ad_cfg (ap_addba p) t) then (None, p)
      else if ack_policy = 0 then (None, p)
      else case mtlk_reflim_try_ref (reord_reflim (ap_addba p)) of
        (False, r) \<Rightarrow> (None, upd_addba (\<lambda>a. a\<lparr>reord_reflim := r\<rparr>) p)
      | (True, r) \<Rightarrow> (Some (mtlk_addba_correct_res_win_size win_size), upd_addba (\<lambda>a. a\<lparr>reord_reflim := r\<rparr>) p))"

text \<open>The part of \<^verbatim>\<open>mtlk_addba_peer_on_addba_req_rx\<close> that answers, given a free message.\<close>
definition addba_req_answer ::
    "addba_env \<Rightarrow> nat \<Rightarrow> nat \<Rightarrow> nat \<Rightarrow> nat \<Rightarrow> bool \<Rightarrow> nat option \<times> addba_peer \<Rightarrow> addba_peer" where
  "addba_req_answer e ssn t dlgt tmout stop v =
     (let (acc, p) = v;
          res = Tx_addba_res t dlgt (case acc of Some _ \<Rightarrow> MTLK_ADDBA_RES_CODE_SUCCESS | None \<Rightarrow> MTLK_ADDBA_RES_CODE_FAILURE)
                  (map_option (\<lambda>w. (tmout, w)) acc);
          p1 = (if \<not> send_ok e t then
                  (let q = upd_rx t (\<lambda>x. x\<lparr>rx_msg := Msg_free\<rparr>) p in
                   if acc \<noteq> None
                   then upd_addba (\<lambda>a. a\<lparr>reord_reflim := mtlk_reflim_unref (reord_reflim a)\<rparr>) q else q)
                else if acc \<noteq> None then
                  cntr_inc MTLK_ADDBAPI_CNT_ADDBA_POSITIVE_RESPONSE_RX
                    (cntr_inc MTLK_ADDBAPI_CNT_REORD_ACTIVE
                      (upd_rx t (\<lambda>x. x\<lparr>rx_msg := Msg_sent Clb_addba_res,
                           rx_state := MTLK_ADDBA_RX_ADDBA_POSITIVE_RES_SENT,
                           delba_timeout := ADDBA_TU_TO_MS tmout mod 2 ^ 16, req_tstamp := now_ms e\<rparr>) (ap_emit res p)))
                else
                  cntr_inc MTLK_ADDBAPI_CNT_ADDBA_NEGATIVE_RESPONSE_RX
                    (upd_rx t (\<lambda>x. x\<lparr>rx_msg := Msg_sent Clb_addba_res,
                         rx_state := MTLK_ADDBA_RX_ADDBA_NEGATIVE_RES_SENT\<rparr>) (ap_emit res p)));
          p2 = (if stop then ap_emit (On_stop_reordering t) p1 else p1)
      in case acc of Some w \<Rightarrow> ap_emit (On_start_reordering t ssn w) p2 | None \<Rightarrow> p2)"

text \<open>
  The whole handler.  The notification that the former reordering stops is given after the
  answer and before the notification that the new one starts.
\<close>
definition mtlk_addba_peer_on_addba_req_rx ::
    "addba_env \<Rightarrow> nat \<Rightarrow> nat \<Rightarrow> nat \<Rightarrow> nat \<Rightarrow> nat \<Rightarrow> nat \<Rightarrow> nat \<Rightarrow> addba_peer \<Rightarrow> addba_peer" where
  "mtlk_addba_peer_on_addba_req_rx e ssn t win_size dlgt tmout ack_policy rate p =
     (if \<not> ap_active p then p
      else let p0 = cntr_inc MTLK_ADDBAPI_CNT_ADDBA_REQUEST_RX p in
      if t \<ge> MTLK_ADDBA_NOF_TIDs then p0
      else
        (let (stop, p1) = mtlk_addba_peer_reset_rx_state t p0 in
         if rx_msg_get_empty e t p1 then
           addba_req_answer e ssn t dlgt tmout stop (addba_req_verdict t win_size ack_policy rate p1)
         else if stop then ap_emit (On_stop_reordering t) p1 else p1))"

text \<open>The bodies of the two time-out loops.\<close>
definition check_addba_res_rx_tid :: "addba_env \<Rightarrow> nat \<Rightarrow> addba_peer \<Rightarrow> addba_peer" where
  "check_addba_res_rx_tid e t p =
     (if tx_state (ap_tx p t) = MTLK_ADDBA_TX_ADDBA_REQ_CFMD
         \<and> mtlk_osal_ms_time_diff (now_ms e) (addba_req_cfmd_time (ap_tx p t)) \<ge> MTLK_ADDBA_RE_TX_REQ_TIMEOUT_MS
      then ap_emit (On_ba_req_unconfirmed t) (snd (mtlk_addba_peer_reset_tx_state t p)) else p)"

definition check_delba_tid :: "addba_env \<Rightarrow> nat \<Rightarrow> addba_peer \<Rightarrow> addba_peer" where
  "check_delba_tid e t p =
     (if rx_state (ap_rx p t) = MTLK_ADDBA_RX_REORD_IN_PROCESS \<and> delba_timeout (ap_rx p t) \<noteq> 0 then
        (let last_rx = (if last_rx_time e t < req_tstamp (ap_rx p t) then req_tstamp (ap_rx p t) else last_rx_time e t)
         in if mtlk_osal_ms_time_diff (now_ms e) last_rx \<ge> delba_timeout (ap_rx p t)
            then mtlk_addba_peer_send_rx_delba_req e t p else p)
      else p)"

definition mtlk_addba_peer_check_addba_res_rx_timeouts :: "addba_env \<Rightarrow> addba_peer \<Rightarrow> addba_peer" where
  "mtlk_addba_peer_check_addba_res_rx_timeouts e p = fold (check_addba_res_rx_tid e) addba_tids p"

definition mtlk_addba_peer_check_delba_timeouts :: "addba_env \<Rightarrow> addba_peer \<Rightarrow> addba_peer" where
  "mtlk_addba_peer_check_delba_timeouts e p = fold (check_delba_tid e) addba_tids p"

definition mtlk_addba_peer_iterate :: "addba_env \<Rightarrow> addba_peer \<Rightarrow> addba_peer" where
  "mtlk_addba_peer_iterate e p =
     (if ap_active p
      then mtlk_addba_peer_check_addba_res_rx_timeouts e (mtlk_addba_peer_check_delba_timeouts e p) else p)"

definition mtlk_addba_init :: "mtlk_reflim \<Rightarrow> mtlk_reflim \<Rightarrow> (nat \<Rightarrow> addba_tid_cfg) \<Rightarrow> addba" where
  "mtlk_addba_init ar rr cfg = \<lparr>ad_cfg = cfg, aggr_reflim = ar, reord_reflim = rr, next_dlg_token = 0\<rparr>"

definition mtlk_addba_reconfigure :: "(nat \<Rightarrow> addba_tid_cfg) \<Rightarrow> addba_peer \<Rightarrow> mtlk_error \<times> addba_peer" where
  "mtlk_addba_reconfigure cfg p = (MTLK_ERR_OK, upd_addba (\<lambda>a. a\<lparr>ad_cfg := cfg\<rparr>) p)"

text \<open>\<^verbatim>\<open>mtlk_addba_peer_init\<close> on a zeroed station entry.\<close>
definition mtlk_addba_peer_init :: "addba \<Rightarrow> addba_peer" where
  "mtlk_addba_peer_init a = \<lparr>ap_addba = a, ap_addr = 0,
     ap_tx = (\<lambda>_. \<lparr>tx_state = MTLK_ADDBA_TX_NONE, addba_req_cfmd_time = 0, addba_req_dlgt = 0,
                   addba_res_rejects = 0, tx_msg = Msg_free\<rparr>),
     ap_rx = (\<lambda>_. \<lparr>rx_state = MTLK_ADDBA_RX_NONE, delba_timeout = 0, req_tstamp = 0, rx_msg = Msg_free\<rparr>),
     ap_active = False, ap_cntrs = (\<lambda>_. 0), ap_log = []\<rparr>"

section \<open>Block-ack action frames\<close>

definition MTLK_BFIELD_GET :: "nat \<Rightarrow> nat \<times> nat \<Rightarrow> nat" where
  "MTLK_BFIELD_GET v f = (v div 2 ^ fst f) mod 2 ^ snd f"

definition ADDBA_PARAM_SET_POLICY :: "nat \<times> nat" where "ADDBA_PARAM_SET_POLICY = (1, 1)"
definition ADDBA_PARAM_SET_TID :: "nat \<times> nat" where "ADDBA_PARAM_SET_TID = (2, 4)"
definition ADDBA_PARAM_SET_SIZE :: "nat \<times> nat" where "ADDBA_PARAM_SET_SIZE = (6, 10)"
definition ADDBA_SSN_SSN :: "nat \<times> nat" where "ADDBA_SSN_SSN = (4, 12)"
definition DELBA_PARAM_SET_INITIATOR :: "nat \<times> nat" where "DELBA_PARAM_SET_INITIATOR = (11, 1)"
definition DELBA_PARAM_SET_TID :: "nat \<times> nat" where "DELBA_PARAM_SET_TID = (12, 4)"

lemmas bfield_defs = ADDBA_PARAM_SET_POLICY_def ADDBA_PARAM_SET_TID_def ADDBA_PARAM_SET_SIZE_def
  ADDBA_SSN_SSN_def DELBA_PARAM_SET_INITIATOR_def DELBA_PARAM_SET_TID_def

text \<open>A little-endian 16-bit field of a frame (\<^verbatim>\<open>WLAN_TO_HOST16\<close>).\<close>
definition wlan16 :: "nat list \<Rightarrow> nat \<Rightarrow> nat" where
  "wlan16 f i = f ! i + 256 * f ! (i + 1)"

text \<open>
  \<^verbatim>\<open>mtlk_process_action_frame_block_ack\<close>: the body after the category, as packed structures, for the peer of the station that sent it,
  if that is known. For an unknown station only the action is read. The length of the frame is not checked, so a short frame is read out of bounds.
\<close>
definition mtlk_process_action_frame_block_ack ::
    "addba_env \<Rightarrow> nat list \<Rightarrow> addba_peer option \<Rightarrow> c_fault + addba_peer option" where
  "mtlk_process_action_frame_block_ack e f sta =
     (if f = [] then Inl Out_of_bounds
      else case sta of
        None \<Rightarrow> Inr None
      | Some p \<Rightarrow>
        (let action = f ! 0 in
         map_sum id Some
          (if action = 0 then
             (if length f < 8 then Inl Out_of_bounds
              else let param_set = wlan16 f 2; ssn = wlan16 f 6 in
                Inr (mtlk_addba_peer_on_addba_req_rx e (MTLK_BFIELD_GET ssn ADDBA_SSN_SSN)
                  (MTLK_BFIELD_GET param_set ADDBA_PARAM_SET_TID)
                  (MTLK_BFIELD_GET param_set ADDBA_PARAM_SET_SIZE mod 256)
                  (f ! 1) (wlan16 f 4) (MTLK_BFIELD_GET param_set ADDBA_PARAM_SET_POLICY)
                  MTLK_ADDBA_RATE_ADAPTIVE p))
           else if action = 1 then
             (if length f < 6 then Inl Out_of_bounds
              else mtlk_addba_peer_on_addba_res_rx e (wlan16 f 2)
                     (MTLK_BFIELD_GET (wlan16 f 4) ADDBA_PARAM_SET_TID) (f ! 1) p)
           else if action = 2 then
             (if length f < 5 then Inl Out_of_bounds
              else mtlk_addba_peer_on_delba_req_rx e
                     (MTLK_BFIELD_GET (wlan16 f 1) DELBA_PARAM_SET_TID)
                     (MTLK_BFIELD_GET (wlan16 f 1) DELBA_PARAM_SET_INITIATOR \<noteq> 0) p)
           else Inr p)))"

section \<open>Runs\<close>

text \<open>What happens to a peer: calls of its owner, received frames and confirmations.\<close>
datatype addba_op =
    Op_start nat
  | Op_stop
  | Op_negotiate qos_maps nat
  | Op_negotiate_tid nat
  | Op_delba_rx nat bool
  | Op_addba_res_rx nat nat nat
  | Op_addba_req_rx nat nat nat nat nat nat nat
  | Op_iterate
  | Op_tx_cfm bool bool nat
  | Op_rx_cfm bool bool nat
  | Op_reconfigure "nat \<Rightarrow> addba_tid_cfg"

text \<open>One call. A TID of a received frame that is out of range makes it fault.\<close>
fun addba_step :: "addba_env \<times> addba_op \<Rightarrow> addba_peer \<Rightarrow> c_fault + addba_peer" where
  "addba_step (e, Op_start addr) p = Inr (snd (mtlk_addba_peer_start addr p))"
| "addba_step (e, Op_stop) p = Inr (mtlk_addba_peer_stop p)"
| "addba_step (e, Op_negotiate g rate) p = Inr (mtlk_addba_peer_start_negotiation g e rate p)"
| "addba_step (e, Op_negotiate_tid t) p = Inr (mtlk_addba_peer_start_aggr_negotiation e t p)"
| "addba_step (e, Op_delba_rx t ini) p = mtlk_addba_peer_on_delba_req_rx e t ini p"
| "addba_step (e, Op_addba_res_rx res t dlgt) p = mtlk_addba_peer_on_addba_res_rx e res t dlgt p"
| "addba_step (e, Op_addba_req_rx ssn t win dlgt tmout pol rate) p =
     Inr (mtlk_addba_peer_on_addba_req_rx e ssn t win dlgt tmout pol rate p)"
| "addba_step (e, Op_iterate) p = Inr (mtlk_addba_peer_iterate e p)"
| "addba_step (e, Op_tx_cfm confirmed ok t) p = Inr (addba_tx_cfm e confirmed ok t p)"
| "addba_step (e, Op_rx_cfm confirmed ok t) p = Inr (addba_rx_cfm confirmed ok t p)"
| "addba_step (e, Op_reconfigure cfg) p = Inr (snd (mtlk_addba_reconfigure cfg p))"

text \<open>A run ends at the first call that faults.\<close>
fun addba_run :: "(addba_env \<times> addba_op) list \<Rightarrow> addba_peer \<Rightarrow> c_fault + addba_peer" where
  "addba_run [] p = Inr p"
| "addba_run (x # xs) p = bind_result (addba_step x p) (addba_run xs)"

text \<open>The peer after a call that returns.\<close>
definition addba_after :: "addba_env \<times> addba_op \<Rightarrow> addba_peer \<Rightarrow> addba_peer" where
  "addba_after x p = (case addba_step x p of Inr p' \<Rightarrow> p' | Inl _ \<Rightarrow> p)"

lemma addba_after_simps [simp]:
  "addba_after (e, Op_start addr) p = snd (mtlk_addba_peer_start addr p)"
  "addba_after (e, Op_stop) p = mtlk_addba_peer_stop p"
  "addba_after (e, Op_negotiate g rate) p = mtlk_addba_peer_start_negotiation g e rate p"
  "addba_after (e, Op_negotiate_tid t) p = mtlk_addba_peer_start_aggr_negotiation e t p"
  "addba_after (e, Op_delba_rx t ini) p = (case mtlk_addba_peer_on_delba_req_rx e t ini p of Inr p' \<Rightarrow> p' | Inl _ \<Rightarrow> p)"
  "addba_after (e, Op_addba_res_rx res t dlgt) p = (case mtlk_addba_peer_on_addba_res_rx e res t dlgt p of Inr p' \<Rightarrow> p' | Inl _ \<Rightarrow> p)"
  "addba_after (e, Op_addba_req_rx ssn t win dlgt tmout pol rate) p = mtlk_addba_peer_on_addba_req_rx e ssn t win dlgt tmout pol rate p"
  "addba_after (e, Op_iterate) p = mtlk_addba_peer_iterate e p"
  "addba_after (e, Op_tx_cfm confirmed ok t) p = addba_tx_cfm e confirmed ok t p"
  "addba_after (e, Op_rx_cfm confirmed ok t) p = addba_rx_cfm confirmed ok t p"
  "addba_after (e, Op_reconfigure cfg) p = snd (mtlk_addba_reconfigure cfg p)"
  by (simp_all add: addba_after_def)

lemma addba_run_fold: "addba_run ops p = Inr p' \<Longrightarrow> p' = fold addba_after ops p"
  by (induction ops arbitrary: p) (auto simp: addba_after_def run_simps)

text \<open>
  The TIDs that the owner and the callbacks use are those of its own tables; the TIDs of frames are what the other side puts there.
\<close>
fun owner_ok :: "addba_op \<Rightarrow> bool" where
  "owner_ok (Op_negotiate g rate) = (\<forall>i < NTS_PRIORITIES. mtlk_qos_get_tid_by_ac g i < MTLK_ADDBA_NOF_TIDs)"
| "owner_ok (Op_negotiate_tid t) = (t < MTLK_ADDBA_NOF_TIDs)"
| "owner_ok (Op_tx_cfm c ok t) = (t < MTLK_ADDBA_NOF_TIDs)"
| "owner_ok (Op_rx_cfm c ok t) = (t < MTLK_ADDBA_NOF_TIDs)"
| "owner_ok _ = True"

fun frame_ok :: "addba_op \<Rightarrow> bool" where
  "frame_ok (Op_delba_rx t ini) = (t < MTLK_ADDBA_NOF_TIDs)"
| "frame_ok (Op_addba_res_rx res t dlgt) = (t < MTLK_ADDBA_NOF_TIDs)"
| "frame_ok _ = True"

definition tid_ok :: "addba_op \<Rightarrow> bool" where
  "tid_ok op \<longleftrightarrow> owner_ok op \<and> frame_ok op"

lemma tid_ok_simps [simp]:
  "tid_ok (Op_negotiate g rate) = (\<forall>i < NTS_PRIORITIES. mtlk_qos_get_tid_by_ac g i < MTLK_ADDBA_NOF_TIDs)"
  "tid_ok (Op_negotiate_tid t) = (t < MTLK_ADDBA_NOF_TIDs)"
  "tid_ok (Op_delba_rx t ini) = (t < MTLK_ADDBA_NOF_TIDs)"
  "tid_ok (Op_addba_res_rx res t dlgt) = (t < MTLK_ADDBA_NOF_TIDs)"
  "tid_ok (Op_tx_cfm c ok t) = (t < MTLK_ADDBA_NOF_TIDs)"
  "tid_ok (Op_rx_cfm c ok t) = (t < MTLK_ADDBA_NOF_TIDs)"
  "tid_ok (Op_start a)" "tid_ok Op_stop" "tid_ok Op_iterate" "tid_ok (Op_reconfigure cfg)"
  "tid_ok (Op_addba_req_rx ssn t' win dlgt' tmout pol rate')"
  by (simp_all add: tid_ok_def)

text \<open>A call faults exactly if an active peer is given a frame with a TID out of range.\<close>
lemma addba_step_returns: "frame_ok op \<or> \<not> ap_active p \<Longrightarrow> addba_step (e, op) p = Inr (addba_after (e, op) p)"
  by (cases op) (auto simp: mtlk_addba_peer_on_delba_req_rx_def mtlk_addba_peer_on_addba_res_rx_def Let_def split_beta)

lemma addba_step_faults: "\<not> frame_ok op \<Longrightarrow> ap_active p \<Longrightarrow> addba_step (e, op) p = Inl Out_of_bounds"
  by (cases op) (auto simp: mtlk_addba_peer_on_delba_req_rx_def mtlk_addba_peer_on_addba_res_rx_def)

lemma addba_step_idle: "\<not> frame_ok op \<Longrightarrow> \<not> ap_active p \<Longrightarrow> addba_after (e, op) p = p"
  by (cases op) (auto simp: mtlk_addba_peer_on_delba_req_rx_def mtlk_addba_peer_on_addba_res_rx_def)

lemma addba_run_returns: "list_all (\<lambda>x. frame_ok (snd x)) ops \<Longrightarrow> addba_run ops p = Inr (fold addba_after ops p)"
  by (induction ops arbitrary: p) (auto simp: addba_step_returns)

section \<open>References and notifications\<close>

definition tids_with :: "('a \<Rightarrow> bool) \<Rightarrow> (nat \<Rightarrow> 'a) \<Rightarrow> nat" where
  "tids_with P f = length (filter (\<lambda>u. P (f u)) addba_tids)"

lemma tids_upd:
  assumes "t < MTLK_ADDBA_NOF_TIDs"
  shows "tids_with P (f(t := x)) + (if P (f t) then 1 else 0) = tids_with P f + (if P x then 1 else 0)"
proof -
  have *: "length (filter (\<lambda>u. P ((f(t := x)) u)) us) + (if P (f t) then 1 else 0)
      = length (filter (\<lambda>u. P (f u)) us) + (if P x then 1 else 0)" if "t \<in> set us" "distinct us" for us
    using that
  proof (induction us)
    case (Cons u us)
    have "filter (\<lambda>u. P ((f(t := x)) u)) us = filter (\<lambda>u. P (f u)) us" if "t \<notin> set us" for us
      using that by (intro filter_cong) auto
    then show ?case using Cons by (cases "u = t") auto
  qed simp
  show ?thesis using * [of addba_tids] assms by (simp add: tids_with_def addba_tids_def)
qed

lemma tids_upd_keep:
  "t < MTLK_ADDBA_NOF_TIDs \<Longrightarrow> P (f t) = P x \<Longrightarrow> tids_with P (f(t := x)) = tids_with P f"
  using tids_upd [of t P f x] by auto

lemma tids_upd_off:
  "t < MTLK_ADDBA_NOF_TIDs \<Longrightarrow> P (f t) \<Longrightarrow> \<not> P x \<Longrightarrow> tids_with P f = Suc (tids_with P (f(t := x)))"
  using tids_upd [of t P f x] by auto

lemma tids_upd_on:
  "t < MTLK_ADDBA_NOF_TIDs \<Longrightarrow> \<not> P (f t) \<Longrightarrow> P x \<Longrightarrow> tids_with P (f(t := x)) = Suc (tids_with P f)"
  using tids_upd [of t P f x] by auto

lemma tids_with_le: "tids_with P f \<le> MTLK_ADDBA_NOF_TIDs"
  using length_filter_le [of "\<lambda>u. P (f u)" addba_tids] by (simp add: tids_with_def addba_tids_def)

text \<open>A negotiated aggregation (or one under negotiation) and an accepted reordering hold a reference each.\<close>
definition tx_busy :: "addba_tx \<Rightarrow> bool" where
  "tx_busy x = (tx_state x \<noteq> MTLK_ADDBA_TX_NONE)"

definition rx_busy :: "addba_rx \<Rightarrow> bool" where
  "rx_busy x = (rx_state x \<noteq> MTLK_ADDBA_RX_NONE \<and> rx_state x \<noteq> MTLK_ADDBA_RX_ADDBA_NEGATIVE_RES_SENT)"

definition aggr_refs :: "addba_peer \<Rightarrow> nat" where
  "aggr_refs p = tids_with tx_busy (ap_tx p)"

definition reord_refs :: "addba_peer \<Rightarrow> nat" where
  "reord_refs p = tids_with rx_busy (ap_rx p)"

text \<open>
  Start and stop notifications read as a switch: \<^term>\<open>Some b\<close> is its position while the
  notifications alternate, \<^term>\<open>None\<close> means that one came twice.
\<close>
definition switch_step :: "(addba_event \<Rightarrow> bool option) \<Rightarrow> bool option \<Rightarrow> addba_event \<Rightarrow> bool option" where
  "switch_step sel st e = (case sel e of None \<Rightarrow> st | Some b \<Rightarrow> if st = Some (\<not> b) then Some b else None)"

definition switch :: "(addba_event \<Rightarrow> bool option) \<Rightarrow> addba_event list \<Rightarrow> bool option" where
  "switch sel es = foldl (switch_step sel) (Some False) es"

lemma switch_snoc [simp]: "switch sel (es @ [e]) = switch_step sel (switch sel es) e"
  by (simp add: switch_def)

fun aggr_sel :: "nat \<Rightarrow> addba_event \<Rightarrow> bool option" where
  "aggr_sel t (On_start_aggregation u) = (if u = t then Some True else None)"
| "aggr_sel t (On_stop_aggregation u) = (if u = t then Some False else None)"
| "aggr_sel t _ = None"

lemmas addba_upd_defs = upd_tx_def upd_rx_def upd_addba_def cntr_inc_def cntr_dec_def ap_emit_def

section \<open>Reordering references\<close>

definition reord_inv :: "nat \<Rightarrow> addba_peer \<Rightarrow> bool" where
  "reord_inv r p = reflim_holds (reord_reflim (ap_addba p)) (r + reord_refs p)"

text \<open>What the receiving side of the invariant depends on.\<close>
lemma reord_inv_cong:
  "reord_reflim (ap_addba p') = reord_reflim (ap_addba p) \<Longrightarrow> ap_rx p' = ap_rx p \<Longrightarrow> reord_inv r p' = reord_inv r p"
  by (simp add: reord_inv_def reord_refs_def)

lemma reord_inv_rx_keep:
  assumes "reord_inv r p" "t < MTLK_ADDBA_NOF_TIDs" "rx_busy (f (ap_rx p t)) = rx_busy (ap_rx p t)"
  shows "reord_inv r (upd_rx t f p)"
  using assms tids_upd_keep [of t rx_busy "ap_rx p" "f (ap_rx p t)"] by (simp add: reord_inv_def reord_refs_def upd_rx_def)

lemma reset_rx_inv [wave_inv]:
  assumes "reord_inv r p" "t < MTLK_ADDBA_NOF_TIDs"
  shows "reord_inv r (snd (mtlk_addba_peer_reset_rx_state t p))"
    "\<not> rx_busy (ap_rx (snd (mtlk_addba_peer_reset_rx_state t p)) t)"
proof -
  let ?p = "snd (mtlk_addba_peer_reset_rx_state t p)"
  show "\<not> rx_busy (ap_rx ?p t)"
    by (auto simp: mtlk_addba_peer_reset_rx_state_def addba_upd_defs rx_busy_def)
  show "reord_inv r ?p"
  proof (cases "rx_busy (ap_rx p t)")
    case True
    let ?x = "(ap_rx p t)\<lparr>rx_state := MTLK_ADDBA_RX_NONE\<rparr>"
    have c: "reord_refs p = Suc (tids_with rx_busy ((ap_rx p)(t := ?x)))"
      using tids_upd_off [of t rx_busy "ap_rx p" ?x] assms(2) True by (simp add: reord_refs_def rx_busy_def)
    have "ap_rx ?p = (ap_rx p)(t := ?x)" "reord_reflim (ap_addba ?p) = mtlk_reflim_unref (reord_reflim (ap_addba p))"
      using True by (auto simp: mtlk_addba_peer_reset_rx_state_def addba_upd_defs rx_busy_def)
    then show ?thesis
      using assms(1) c reflim.return [of "reord_reflim (ap_addba p)" "r + tids_with rx_busy ((ap_rx p)(t := ?x))"]
      by (simp add: reord_inv_def reord_refs_def)
  next
    case False
    then have "?p = (if rx_state (ap_rx p t) = MTLK_ADDBA_RX_NONE then p
        else upd_rx t (\<lambda>x. x\<lparr>rx_state := MTLK_ADDBA_RX_NONE\<rparr>) p)"
      by (auto simp: mtlk_addba_peer_reset_rx_state_def rx_busy_def)
    then show ?thesis
      using assms False reord_inv_rx_keep [OF assms] by (auto simp: rx_busy_def)
  qed
qed

lemma reset_tx_keeps_rx [simp]:
  "ap_rx (snd (mtlk_addba_peer_reset_tx_state t p)) = ap_rx p"
  "reord_reflim (ap_addba (snd (mtlk_addba_peer_reset_tx_state t p))) = reord_reflim (ap_addba p)"
  by (simp_all add: mtlk_addba_peer_reset_tx_state_def addba_upd_defs)

lemma addba_frame_rx [simp]:
  "ap_rx (ap_emit ev p) = ap_rx p" "ap_addba (ap_emit ev p) = ap_addba p"
  "ap_rx (upd_tx t f p) = ap_rx p" "ap_addba (upd_tx t f p) = ap_addba p"
  "ap_rx (cntr_inc c p) = ap_rx p" "ap_addba (cntr_inc c p) = ap_addba p"
  "ap_rx (cntr_dec c p) = ap_rx p" "ap_addba (cntr_dec c p) = ap_addba p"
  "ap_rx (upd_addba g p) = ap_rx p" "ap_addba (upd_addba g p) = g (ap_addba p)"
  "ap_addba (upd_rx t h p) = ap_addba p" "ap_tx (upd_rx t h p) = ap_tx p" "ap_tx (ap_emit ev p) = ap_tx p"
  "ap_tx (cntr_inc c p) = ap_tx p" "ap_tx (cntr_dec c p) = ap_tx p" "ap_tx (upd_addba g p) = ap_tx p"
  "ap_tx (upd_tx t f p) = (ap_tx p)(t := f (ap_tx p t))" "ap_rx (upd_rx t h p) = (ap_rx p)(t := h (ap_rx p t))"
  "ap_log (upd_rx t h p) = ap_log p" "ap_log (upd_tx t f p) = ap_log p" "ap_log (upd_addba g p) = ap_log p"
  "ap_log (cntr_inc c p) = ap_log p" "ap_log (cntr_dec c p) = ap_log p" "ap_log (ap_emit ev p) = ap_log p @ [ev]"
  by (simp_all add: addba_upd_defs)

lemma reord_inv_frame [simp]:
  "reord_inv r (ap_emit ev p) = reord_inv r p" "reord_inv r (upd_tx t f p) = reord_inv r p"
  "reord_inv r (cntr_inc c p) = reord_inv r p" "reord_inv r (cntr_dec c p) = reord_inv r p"
  "reord_inv r (snd (mtlk_addba_peer_reset_tx_state t p)) = reord_inv r p"
  "reord_inv r (upd_addba (\<lambda>a. a\<lparr>aggr_reflim := x\<rparr>) p) = reord_inv r p"
  "reord_inv r (upd_addba (\<lambda>a. a\<lparr>aggr_reflim := k (aggr_reflim a)\<rparr>) p) = reord_inv r p"
  "reord_inv r (upd_addba (\<lambda>a. a\<lparr>next_dlg_token := n\<rparr>) p) = reord_inv r p"
  "reord_inv r (upd_addba (\<lambda>a. a\<lparr>ad_cfg := cf\<rparr>) p) = reord_inv r p"
  "reord_inv r (p\<lparr>ap_active := b\<rparr>) = reord_inv r p" "reord_inv r (p\<lparr>ap_addr := ad\<rparr>) = reord_inv r p"
  by (rule reord_inv_cong; simp)+

lemma tx_ops_keep_rx [simp]:
  "reord_inv r (mtlk_addba_peer_tx_addba_req e t p) = reord_inv r p"
  "reord_inv r (mtlk_addba_peer_close_aggr_req e t p) = reord_inv r p"
  "reord_inv r (addba_res_accepted e t p) = reord_inv r p"
  "reord_inv r (addba_res_rejected t p) = reord_inv r p"
  "reord_inv r (check_addba_res_rx_tid e t p) = reord_inv r p"
  "reord_inv r (addba_tx_cfm e cf ok t p) = reord_inv r p"
  by (simp_all add: mtlk_addba_peer_tx_addba_req_def mtlk_addba_peer_on_addba_req_sent_def
      mtlk_addba_peer_close_aggr_req_def addba_res_accepted_def addba_res_rejected_def check_addba_res_rx_tid_def
      addba_tx_cfm_def addba_req_tx_cfm_clb_def open_aggr_cfm_clb_def close_aggr_cfm_clb_def Let_def split_beta
      split: prod.split bool.split man_msg.split addba_clb.split)

lemma fold_inv: "(\<And>t q. t \<in> set ts \<Longrightarrow> I q \<Longrightarrow> I (f t q)) \<Longrightarrow> I p \<Longrightarrow> I (fold f ts p)"
  by (induction ts arbitrary: p) auto

lemma tids_bound: "t \<in> set addba_tids \<Longrightarrow> t < MTLK_ADDBA_NOF_TIDs"
  by (simp add: addba_tids_def)

lemma reset_rx_refs:
  assumes "t < MTLK_ADDBA_NOF_TIDs"
  shows "reord_refs p = reord_refs (snd (mtlk_addba_peer_reset_rx_state t (cntr_inc c p))) + (if rx_busy (ap_rx p t) then 1 else 0)"
proof -
  let ?x = "(ap_rx p t)\<lparr>rx_state := MTLK_ADDBA_RX_NONE\<rparr>"
  have "ap_rx (snd (mtlk_addba_peer_reset_rx_state t (cntr_inc c p))) = (ap_rx p)(t := ?x)"
    by (auto simp: mtlk_addba_peer_reset_rx_state_def addba_upd_defs fun_eq_iff)
  then show ?thesis
    using tids_upd [OF assms, of rx_busy "ap_rx p" ?x] by (simp add: reord_refs_def rx_busy_def)
qed

lemma peer_stop_tid_rx [wave_inv]:
  assumes "reord_inv r p" "t < MTLK_ADDBA_NOF_TIDs"
  shows "reord_inv r (peer_stop_tid t p)"
proof -
  obtain s1 p1 where 1: "mtlk_addba_peer_reset_tx_state t p = (s1, p1)" by fastforce
  define p3 where "p3 = (if s1 then ap_emit (On_stop_aggregation t) (upd_tx t (\<lambda>x. x\<lparr>tx_msg := Msg_free\<rparr>) p1)
    else upd_tx t (\<lambda>x. x\<lparr>tx_msg := Msg_free\<rparr>) p1)"
  have 3: "reord_inv r p3"
    using reord_inv_frame(5) [of r t p] assms(1) 1 by (simp add: p3_def)
  obtain s4 p4 where 4: "mtlk_addba_peer_reset_rx_state t p3 = (s4, p4)" by fastforce
  have "reord_inv r p4" "\<not> rx_busy (ap_rx p4 t)" using reset_rx_inv [OF 3 assms(2)] 4 by auto
  then have "reord_inv r (upd_rx t (\<lambda>x. x\<lparr>rx_msg := Msg_free\<rparr>) p4)"
    and "\<not> rx_busy (ap_rx (upd_rx t (\<lambda>x. x\<lparr>rx_msg := Msg_free\<rparr>) p4) t)"
    using reord_inv_rx_keep [of r p4 t] assms(2) by (auto simp: rx_busy_def upd_rx_def)
  then show ?thesis
    using 1 4 assms(2) by (auto simp: peer_stop_tid_def Let_def p3_def [symmetric] rx_busy_def intro!: reord_inv_rx_keep)
qed

lemma delba_tid_rx [wave_inv]:
  assumes "reord_inv r p" "t < MTLK_ADDBA_NOF_TIDs"
  shows "reord_inv r (check_delba_tid e t p)"
  using assms
  by (auto simp: check_delba_tid_def mtlk_addba_peer_send_rx_delba_req_def Let_def rx_busy_def intro!: reord_inv_rx_keep)

lemma rx_cfm_inv [wave_inv]:
  assumes "reord_inv r p" "t < MTLK_ADDBA_NOF_TIDs"
  shows "reord_inv r (addba_rx_cfm cf ok t p)"
proof -
  have free: "reord_inv r (upd_rx t (\<lambda>x. x\<lparr>rx_msg := Msg_free\<rparr>) q)" if "reord_inv r q" for q
    using that assms(2) by (intro reord_inv_rx_keep) (simp_all add: rx_busy_def)
  have "reord_inv r (delba_req_tx_cfm_clb t p)"
    using reset_rx_inv(1) [OF assms] by (simp add: delba_req_tx_cfm_clb_def split_beta Let_def)
  moreover have "reord_inv r (addba_res_tx_cfm_clb cf ok t p)"
    using assms reset_rx_inv(1) [of r "cntr_inc MTLK_ADDBAPI_CNT_ADDBA_UNCONFIRMED_RESPONSE_RX p" t] reset_rx_inv(1) [OF assms]
    by (auto simp: addba_res_tx_cfm_clb_def Let_def rx_busy_def intro!: reord_inv_rx_keep)
  ultimately show ?thesis
    using assms(1) free by (simp add: addba_rx_cfm_def split: man_msg.split addba_clb.split)
qed

lemma verdict_inv:
  assumes "reord_inv r p" "r + MTLK_ADDBA_NOF_TIDs < reflim_room" "addba_req_verdict t w pol rate p = (acc, p')"
  shows "ap_rx p' = ap_rx p \<and> ap_tx p' = ap_tx p \<and> ap_log p' = ap_log p
    \<and> reflim_holds (reord_reflim (ap_addba p')) (r + reord_refs p + (if acc = None then 0 else 1))"
proof -
  have room: "r + reord_refs p < reflim_room"
    using tids_with_le [of rx_busy "ap_rx p"] assms(2) by (simp add: reord_refs_def)
  obtain ok r' where t: "mtlk_reflim_try_ref (reord_reflim (ap_addba p)) = (ok, r')" by fastforce
  note c = reflim.try_ref_cases [OF assms(1) [unfolded reord_inv_def] room t]
  show ?thesis
    using assms(1,3) t c(2) by (auto simp: addba_req_verdict_def reord_inv_def split: if_splits bool.splits)
qed

lemma answer_inv:
  assumes "reord_inv r p" "r + MTLK_ADDBA_NOF_TIDs < reflim_room" "\<not> rx_busy (ap_rx p t)" "t < MTLK_ADDBA_NOF_TIDs"
  shows "reord_inv r (addba_req_answer e ssn t dlgt tmout stop (addba_req_verdict t w pol rate p))"
proof -
  obtain acc q where v: "addba_req_verdict t w pol rate p = (acc, q)" by fastforce
  note V = verdict_inv [OF assms(1,2) v]
  have nb: "\<not> rx_busy (ap_rx q t)" using V assms(3) by simp
  have refs: "reord_refs p = tids_with rx_busy (ap_rx q)" using V by (simp add: reord_refs_def)
  show ?thesis
  proof (cases acc)
    case None
    then have "reord_inv r q" using V refs by (simp add: reord_inv_def reord_refs_def)
    then show ?thesis
      using None v nb assms(4) by (auto simp: addba_req_answer_def Let_def rx_busy_def intro!: reord_inv_rx_keep)
  next
    case (Some w')
    have H: "reflim_holds (reord_reflim (ap_addba q)) (Suc (r + tids_with rx_busy (ap_rx q)))"
      using V Some by (simp add: reord_refs_def)
    have keep: "tids_with rx_busy ((ap_rx q)(t := (ap_rx q t)\<lparr>rx_msg := Msg_free\<rparr>)) = tids_with rx_busy (ap_rx q)"
      using assms(4) by (intro tids_upd_keep) (simp_all add: rx_busy_def)
    have on: "tids_with rx_busy ((ap_rx q)(t := (ap_rx q t)\<lparr>rx_msg := Msg_sent Clb_addba_res,
         rx_state := MTLK_ADDBA_RX_ADDBA_POSITIVE_RES_SENT, delba_timeout := d, req_tstamp := n\<rparr>)) = Suc (tids_with rx_busy (ap_rx q))" for d n
      using assms(4) nb by (intro tids_upd_on) (simp_all add: rx_busy_def)
    show ?thesis
      using Some v H keep on reflim.return [OF H]
      by (simp add: addba_req_answer_def Let_def reord_inv_def reord_refs_def upd_rx_def)
  qed
qed

lemma req_rx_inv [wave_inv]:
  assumes "reord_inv r p" "r + MTLK_ADDBA_NOF_TIDs < reflim_room"
  shows "reord_inv r (mtlk_addba_peer_on_addba_req_rx e ssn t w dlgt tmout pol rate p)"
proof (cases "ap_active p \<and> t < MTLK_ADDBA_NOF_TIDs")
  case True
  let ?p0 = "cntr_inc MTLK_ADDBAPI_CNT_ADDBA_REQUEST_RX p"
  obtain stop p1 where 1: "mtlk_addba_peer_reset_rx_state t ?p0 = (stop, p1)" by fastforce
  have "reord_inv r p1" "\<not> rx_busy (ap_rx p1 t)"
    using reset_rx_inv [of r ?p0 t] assms(1) True 1 by auto
  then show ?thesis
    using True 1 answer_inv [OF _ assms(2)] by (simp add: mtlk_addba_peer_on_addba_req_rx_def Let_def)
qed (use assms in \<open>auto simp: mtlk_addba_peer_on_addba_req_rx_def Let_def\<close>)

lemma step_reord_inv:
  assumes "reord_inv r p" "r + MTLK_ADDBA_NOF_TIDs < reflim_room" "tid_ok op"
  shows "reord_inv r (addba_after (e, op) p)"
proof (cases op)
  case (Op_start addr)
  then show ?thesis
    using assms(1) fold_inv [of addba_tids "reord_inv r" peer_stop_tid] peer_stop_tid_rx tids_bound
    by (simp add: mtlk_addba_peer_start_def mtlk_addba_peer_stop_all_def)
next
  case Op_stop
  then show ?thesis
    using assms(1) fold_inv [of addba_tids "reord_inv r" peer_stop_tid] peer_stop_tid_rx tids_bound
    by (simp add: mtlk_addba_peer_stop_def mtlk_addba_peer_stop_all_def)
next
  case (Op_negotiate g rate)
  then show ?thesis
    using assms(1) by (auto simp: mtlk_addba_peer_start_negotiation_def mtlk_addba_peer_start_negotiation_all_def Let_def
        intro!: fold_inv [where I = "reord_inv r"])
next
  case (Op_delba_rx t ini)
  then show ?thesis
    using assms reset_rx_inv(1) [OF assms(1), of t]
    by (auto simp: mtlk_addba_peer_on_delba_req_rx_def  Let_def split_beta)
next
  case (Op_addba_req_rx ssn t win dlgt tmout pol rate)
  then show ?thesis using req_rx_inv [OF assms(1,2)] by simp
next
  case Op_iterate
  then show ?thesis
    using assms(1) delba_tid_rx tids_bound
    by (auto simp: mtlk_addba_peer_iterate_def mtlk_addba_peer_check_addba_res_rx_timeouts_def
        mtlk_addba_peer_check_delba_timeouts_def intro!: fold_inv [where I = "reord_inv r"])
qed (use assms rx_cfm_inv in \<open>auto simp: mtlk_addba_peer_start_aggr_negotiation_def mtlk_addba_peer_on_addba_res_rx_def
     mtlk_addba_reconfigure_def\<close>)

section \<open>Aggregation references and notifications\<close>

text \<open>A message on its way belongs to the state that waits for its confirmation, and the other way round.\<close>
definition tx_cons :: "addba_tx \<Rightarrow> bool" where
  "tx_cons x =
     (case tx_msg x of
        Msg_sent Clb_addba_req \<Rightarrow> tx_state x = MTLK_ADDBA_TX_ADDBA_REQ_SENT
      | Msg_sent Clb_open_aggr \<Rightarrow> tx_state x = MTLK_ADDBA_TX_ADD_AGGR_REQ_SENT
      | Msg_sent Clb_close_aggr \<Rightarrow> tx_state x = MTLK_ADDBA_TX_DEL_AGGR_REQ_SENT
      | Msg_sent _ \<Rightarrow> False
      | _ \<Rightarrow> tx_state x \<noteq> MTLK_ADDBA_TX_ADDBA_REQ_SENT \<and> tx_state x \<noteq> MTLK_ADDBA_TX_ADD_AGGR_REQ_SENT
             \<and> tx_state x \<noteq> MTLK_ADDBA_TX_DEL_AGGR_REQ_SENT)"

definition tx_inv :: "nat \<Rightarrow> addba_peer \<Rightarrow> bool" where
  "tx_inv r p =
     (reflim_holds (aggr_reflim (ap_addba p)) (r + aggr_refs p) \<and> next_dlg_token (ap_addba p) < INVALID_TAG_ID
      \<and> (\<forall>t < MTLK_ADDBA_NOF_TIDs. tx_cons (ap_tx p t)
           \<and> switch (aggr_sel t) (ap_log p) = Some (mtlk_addba_is_aggr_on (tx_state (ap_tx p t)))))"

lemma tx_inv_cong:
  assumes "aggr_reflim (ap_addba p') = aggr_reflim (ap_addba p)" "next_dlg_token (ap_addba p') = next_dlg_token (ap_addba p)"
    and "ap_tx p' = ap_tx p" "\<And>t. switch (aggr_sel t) (ap_log p') = switch (aggr_sel t) (ap_log p)"
  shows "tx_inv r p' = tx_inv r p"
  using assms by (simp add: tx_inv_def aggr_refs_def)

lemma tx_inv_upd:
  assumes "tx_inv r p" "t < MTLK_ADDBA_NOF_TIDs" "ap_tx p' = (ap_tx p)(t := x)" "tx_cons x"
    and "\<And>u. u \<noteq> t \<Longrightarrow> switch (aggr_sel u) (ap_log p') = switch (aggr_sel u) (ap_log p)"
    and "switch (aggr_sel t) (ap_log p') = Some (mtlk_addba_is_aggr_on (tx_state x))"
    and "reflim_holds (aggr_reflim (ap_addba p')) (r + tids_with tx_busy ((ap_tx p)(t := x)))"
    and "next_dlg_token (ap_addba p') < INVALID_TAG_ID"
  shows "tx_inv r p'"
  using assms by (auto simp: tx_inv_def aggr_refs_def)

text \<open>The special case that neither the references nor the notified position change.\<close>
lemma tx_inv_move:
  assumes "tx_inv r p" "t < MTLK_ADDBA_NOF_TIDs" "ap_tx p' = (ap_tx p)(t := x)" "tx_cons x"
    and "\<And>u. switch (aggr_sel u) (ap_log p') = switch (aggr_sel u) (ap_log p)"
    and "mtlk_addba_is_aggr_on (tx_state x) = mtlk_addba_is_aggr_on (tx_state (ap_tx p t))"
    and "tx_busy x = tx_busy (ap_tx p t)" "ap_addba p' = ap_addba p"
  shows "tx_inv r p'"
proof -
  have "tids_with tx_busy ((ap_tx p)(t := x)) = tids_with tx_busy (ap_tx p)"
    using assms(2,7) by (intro tids_upd_keep) auto
  then show ?thesis
    using assms by (intro tx_inv_upd [OF assms(1-4)]) (auto simp: tx_inv_def aggr_refs_def)
qed

lemma switch_other [simp]: "aggr_sel t ev = None \<Longrightarrow> switch_step (aggr_sel t) st ev = st"
  by (simp add: switch_step_def)

lemma tx_cons_rejects [simp]: "tx_cons (x\<lparr>addba_res_rejects := n\<rparr>) = tx_cons x"
  by (simp add: tx_cons_def split: man_msg.split addba_clb.split)

lemma reset_tx_effect:
  assumes "tx_inv r p" "t < MTLK_ADDBA_NOF_TIDs"
  obtains x p1 where "mtlk_addba_peer_reset_tx_state t p = (mtlk_addba_is_aggr_on (tx_state (ap_tx p t)), p1)"
    "ap_tx p1 = (ap_tx p)(t := x)" "tx_state x = MTLK_ADDBA_TX_NONE" "tx_msg x = tx_msg (ap_tx p t)"
    "ap_log p1 = ap_log p" "reflim_holds (aggr_reflim (ap_addba p1)) (r + tids_with tx_busy ((ap_tx p)(t := x)))"
    "next_dlg_token (ap_addba p1) = next_dlg_token (ap_addba p)"
proof (cases "tx_busy (ap_tx p t)")
  case True
  let ?x = "(ap_tx p t)\<lparr>tx_state := MTLK_ADDBA_TX_NONE, addba_req_dlgt := INVALID_TAG_ID\<rparr>"
  let ?p1 = "snd (mtlk_addba_peer_reset_tx_state t p)"
  have c: "aggr_refs p = Suc (tids_with tx_busy ((ap_tx p)(t := ?x)))"
    using tids_upd_off [of t tx_busy "ap_tx p" ?x] assms(2) True by (simp add: aggr_refs_def tx_busy_def)
  have h: "reflim_holds (aggr_reflim (ap_addba p)) (Suc (r + tids_with tx_busy ((ap_tx p)(t := ?x))))"
    using assms(1) c by (simp add: tx_inv_def)
  show ?thesis
    using True reflim.return [OF h] by (intro that [of ?p1 ?x])
      (simp_all add: mtlk_addba_peer_reset_tx_state_def tx_busy_def addba_upd_defs)
next
  case False
  then have "mtlk_addba_peer_reset_tx_state t p = (mtlk_addba_is_aggr_on (tx_state (ap_tx p t)), p)"
    by (simp add: mtlk_addba_peer_reset_tx_state_def tx_busy_def mtlk_addba_is_aggr_on_def)
  then show ?thesis
    using False assms(1) by (intro that [of p "ap_tx p t"]) (simp_all add: tx_busy_def tx_inv_def aggr_refs_def)
qed

lemma tx_inv_frame [simp]:
  "tx_inv r (upd_rx t f p) = tx_inv r p" "tx_inv r (cntr_inc c p) = tx_inv r p" "tx_inv r (cntr_dec c p) = tx_inv r p"
  "tx_inv r (upd_addba (\<lambda>a. a\<lparr>reord_reflim := x\<rparr>) p) = tx_inv r p"
  "tx_inv r (upd_addba (\<lambda>a. a\<lparr>reord_reflim := k (reord_reflim a)\<rparr>) p) = tx_inv r p"
  "tx_inv r (upd_addba (\<lambda>a. a\<lparr>ad_cfg := cf\<rparr>) p) = tx_inv r p"
  "tx_inv r (p\<lparr>ap_active := b\<rparr>) = tx_inv r p" "tx_inv r (p\<lparr>ap_addr := ad\<rparr>) = tx_inv r p"
  by (rule tx_inv_cong; simp)+

lemma tx_inv_emit [simp]: "(\<And>t. aggr_sel t ev = None) \<Longrightarrow> tx_inv r (ap_emit ev p) = tx_inv r p"
  by (rule tx_inv_cong; simp add: ap_emit_def switch_step_def)

lemma reset_rx_keeps_tx [simp]: "tx_inv r (snd (mtlk_addba_peer_reset_rx_state t p)) = tx_inv r p"
  by (simp add: mtlk_addba_peer_reset_rx_state_def)

lemma verdict_keeps_tx: "addba_req_verdict t w pol rate p = (acc, q) \<Longrightarrow> tx_inv r q = tx_inv r p"
  by (auto simp: addba_req_verdict_def split: if_splits prod.splits bool.splits)

lemma answer_keeps_tx [simp]:
  "tx_inv r (addba_req_answer e ssn t dlgt tmout stop (addba_req_verdict t' w pol rate p)) = tx_inv r p"
  using verdict_keeps_tx [of t' w pol rate p]
  by (cases "addba_req_verdict t' w pol rate p") (simp add: addba_req_answer_def Let_def split: option.split)

lemma rx_ops_keep_tx [simp]:
  "tx_inv r (mtlk_addba_peer_on_addba_req_rx e ssn t w dlgt tmout pol rate p) = tx_inv r p"
  "tx_inv r (check_delba_tid e t p) = tx_inv r p"
  "tx_inv r (addba_rx_cfm cf ok t p) = tx_inv r p"
proof -
  have 1: "tx_inv r q = tx_inv r p'" if "mtlk_addba_peer_reset_rx_state t p' = (st, q)" for st q p'
    using reset_rx_keeps_tx [of r t p'] that by simp
  show "tx_inv r (mtlk_addba_peer_on_addba_req_rx e ssn t w dlgt tmout pol rate p) = tx_inv r p"
    by (auto simp: mtlk_addba_peer_on_addba_req_rx_def Let_def split: prod.splits dest!: 1)
  show "tx_inv r (check_delba_tid e t p) = tx_inv r p"
    by (simp add: check_delba_tid_def mtlk_addba_peer_send_rx_delba_req_def Let_def)
  show "tx_inv r (addba_rx_cfm cf ok t p) = tx_inv r p"
    by (auto simp: addba_rx_cfm_def addba_res_tx_cfm_clb_def delba_req_tx_cfm_clb_def Let_def
        split: man_msg.split addba_clb.split prod.splits dest!: 1)
qed

lemma tx_invD:
  assumes "tx_inv r p" "t < MTLK_ADDBA_NOF_TIDs"
  shows "tx_cons (ap_tx p t)" "switch (aggr_sel t) (ap_log p) = Some (mtlk_addba_is_aggr_on (tx_state (ap_tx p t)))"
    "next_dlg_token (ap_addba p) < INVALID_TAG_ID"
  using assms by (auto simp: tx_inv_def)

lemma tx_addba_req_inv [wave_inv]:
  assumes "tx_inv r p" "r + MTLK_ADDBA_NOF_TIDs < reflim_room" "t < MTLK_ADDBA_NOF_TIDs"
  shows "tx_inv r (mtlk_addba_peer_tx_addba_req e t p)"
proof (cases "tx_state (ap_tx p t) = MTLK_ADDBA_TX_NONE")
  case True
  have room: "r + aggr_refs p < reflim_room"
    using tids_with_le [of tx_busy "ap_tx p"] assms(2) by (simp add: aggr_refs_def)
  have H: "reflim_holds (aggr_reflim (ap_addba p)) (r + aggr_refs p)" using assms(1) by (simp add: tx_inv_def)
  obtain ok r' where t: "mtlk_reflim_try_ref (aggr_reflim (ap_addba p)) = (ok, r')" by fastforce
  note c = reflim.try_ref_cases(2) [OF H room t]
  note D = tx_invD [OF assms(1,3)]
  show ?thesis
  proof (cases "ok \<and> tx_msg_get_empty e t p \<and> send_ok e t")
    case False
    have u: "reflim_holds (mtlk_reflim_unref r') (r + aggr_refs p)" if ok
      using reflim.return [of r' "r + aggr_refs p"] c that by simp
    have keep: "tids_with tx_busy ((ap_tx p)(t := (ap_tx p t)\<lparr>tx_msg := Msg_free\<rparr>)) = aggr_refs p"
      unfolding aggr_refs_def using assms(3) by (intro tids_upd_keep) (simp_all add: tx_busy_def)
    have cons: "tx_cons ((ap_tx p t)\<lparr>tx_msg := Msg_free\<rparr>)" using True by (simp add: tx_cons_def)
    have sub: "tx_inv r (upd_addba (\<lambda>a. a\<lparr>aggr_reflim := x\<rparr>) p)" if "reflim_holds x (r + aggr_refs p)" for x
      using assms(1) that by (simp add: tx_inv_def aggr_refs_def)
    show ?thesis
    proof (cases "ok \<and> tx_msg_get_empty e t p")
      case True
      then show ?thesis
        using False \<open>tx_state (ap_tx p t) = MTLK_ADDBA_TX_NONE\<close> t u keep cons D
        by (intro tx_inv_upd [OF assms(1,3) _ cons])
          (auto simp: mtlk_addba_peer_tx_addba_req_def Let_def tx_msg_get_empty_def upd_tx_def)
    next
      case no: False
      then show ?thesis
        using \<open>tx_state (ap_tx p t) = MTLK_ADDBA_TX_NONE\<close> t u c sub [of r'] sub [of "mtlk_reflim_unref r'"]
        by (cases ok) (auto simp: mtlk_addba_peer_tx_addba_req_def Let_def tx_msg_get_empty_def upd_addba_def)
    qed
  next
    case sent: True
    let ?x = "(ap_tx p t)\<lparr>tx_msg := Msg_sent Clb_addba_req, tx_state := MTLK_ADDBA_TX_ADDBA_REQ_SENT,
      addba_req_dlgt := next_dlg_token (ap_addba p)\<rparr>"
    have on: "tids_with tx_busy ((ap_tx p)(t := ?x)) = Suc (aggr_refs p)"
      unfolding aggr_refs_def using assms(3) True by (intro tids_upd_on) (simp_all add: tx_busy_def)
    have tok: "Suc INVALID_TAG_ID mod 256 < INVALID_TAG_ID"
      "Suc n mod 256 \<noteq> INVALID_TAG_ID \<Longrightarrow> Suc n mod 256 < INVALID_TAG_ID" for n
      by (auto simp: INVALID_TAG_ID_def)
    show ?thesis
      using sent True t c on D tok
      by (intro tx_inv_upd [OF assms(1,3), where x = ?x])
        (auto simp: mtlk_addba_peer_tx_addba_req_def Let_def tx_msg_get_empty_def upd_tx_def tx_cons_def
          mtlk_addba_peer_on_addba_req_sent_def mtlk_addba_peer_fill_addba_req_def mtlk_addba_is_aggr_on_def)
  qed
next
  case False
  then show ?thesis using assms(1) by (simp add: mtlk_addba_peer_tx_addba_req_def)
qed

lemma close_aggr_inv [wave_inv]:
  assumes "tx_inv r p" "t < MTLK_ADDBA_NOF_TIDs"
  shows "tx_inv r (mtlk_addba_peer_close_aggr_req e t p)"
proof (cases "(tx_state (ap_tx p t) = MTLK_ADDBA_TX_ADD_AGGR_REQ_SENT \<or> tx_state (ap_tx p t) = MTLK_ADDBA_TX_AGGR_OPENED)
    \<and> tx_msg_get_empty e t p")
  case True
  note D = tx_invD [OF assms]
  have st: "tx_state (ap_tx p t) = MTLK_ADDBA_TX_AGGR_OPENED" "tx_msg (ap_tx p t) = Msg_free"
    using True D(1) by (auto simp: tx_msg_get_empty_def tx_cons_def)
  show ?thesis
  proof (cases "send_ok e t")
    case True
    let ?x = "(ap_tx p t)\<lparr>tx_msg := Msg_sent Clb_close_aggr, tx_state := MTLK_ADDBA_TX_DEL_AGGR_REQ_SENT\<rparr>"
    show ?thesis
      using True st \<open>_ \<and> tx_msg_get_empty e t p\<close>
      by (intro tx_inv_move [OF assms, where x = ?x])
        (auto simp: mtlk_addba_peer_close_aggr_req_def tx_cons_def tx_busy_def mtlk_addba_is_aggr_on_def)
  next
    case False
    let ?x = "(ap_tx p t)\<lparr>tx_msg := Msg_free\<rparr>"
    show ?thesis
      using False st \<open>_ \<and> tx_msg_get_empty e t p\<close>
      by (intro tx_inv_move [OF assms, where x = ?x])
        (auto simp: mtlk_addba_peer_close_aggr_req_def tx_cons_def tx_busy_def)
  qed
next
  case False
  then show ?thesis using assms(1) by (auto simp: mtlk_addba_peer_close_aggr_req_def)
qed

lemma res_accepted_inv [wave_inv]:
  assumes "tx_inv r p" "t < MTLK_ADDBA_NOF_TIDs"
  shows "tx_inv r (addba_res_accepted e t p)"
proof -
  note D = tx_invD [OF assms]
  let ?y = "(ap_tx p t)\<lparr>addba_res_rejects := 0\<rparr>"
  define p1 where "p1 = upd_tx t (\<lambda>x. x\<lparr>addba_res_rejects := 0\<rparr>) p"
  have 1: "tx_inv r p1" "ap_tx p1 t = ?y"
    using D(1) by (auto simp: p1_def tx_busy_def intro!: tx_inv_move [OF assms, where x = ?y])
  show ?thesis
  proof (cases "(tx_state ?y = MTLK_ADDBA_TX_ADDBA_REQ_SENT \<or> tx_state ?y = MTLK_ADDBA_TX_ADDBA_REQ_CFMD) \<and> tx_msg_get_empty e t p1")
    case True
    have st: "tx_state (ap_tx p t) = MTLK_ADDBA_TX_ADDBA_REQ_CFMD" "tx_msg (ap_tx p t) = Msg_free"
      using True D(1) 1(2) by (auto simp: tx_msg_get_empty_def tx_cons_def)
    show ?thesis
    proof (cases "send_ok e t")
      case so: True
      show ?thesis
        using True so st 1(2)
        by (intro tx_inv_move [OF 1(1) assms(2), where x = "?y\<lparr>tx_msg := Msg_sent Clb_open_aggr, tx_state := MTLK_ADDBA_TX_ADD_AGGR_REQ_SENT\<rparr>"])
          (auto simp: addba_res_accepted_def Let_def p1_def [symmetric] tx_cons_def tx_busy_def
            mtlk_addba_is_aggr_on_def addba_open_event_def)
    next
      case so: False
      show ?thesis
        using True so st 1(2)
        by (intro tx_inv_move [OF 1(1) assms(2), where x = "?y\<lparr>tx_msg := Msg_free\<rparr>"])
          (auto simp: addba_res_accepted_def Let_def p1_def [symmetric] tx_cons_def tx_busy_def)
    qed
  next
    case False
    then have "addba_res_accepted e t p = p1"
      using 1(2) by (auto simp: addba_res_accepted_def p1_def [symmetric] Let_def)
    then show ?thesis using 1(1) by simp
  qed
qed

text \<open>Giving up a negotiation that has not opened anything.\<close>
lemma reset_tx_quiet:
  assumes "tx_inv r p" "t < MTLK_ADDBA_NOF_TIDs" "tx_state (ap_tx p t) = MTLK_ADDBA_TX_NONE \<or> tx_state (ap_tx p t) = MTLK_ADDBA_TX_ADDBA_REQ_CFMD"
  shows "tx_inv r (snd (mtlk_addba_peer_reset_tx_state t p))"
proof -
  obtain x p1 where R: "mtlk_addba_peer_reset_tx_state t p = (mtlk_addba_is_aggr_on (tx_state (ap_tx p t)), p1)"
    "ap_tx p1 = (ap_tx p)(t := x)" "tx_state x = MTLK_ADDBA_TX_NONE" "tx_msg x = tx_msg (ap_tx p t)"
    "ap_log p1 = ap_log p" "reflim_holds (aggr_reflim (ap_addba p1)) (r + tids_with tx_busy ((ap_tx p)(t := x)))"
    "next_dlg_token (ap_addba p1) = next_dlg_token (ap_addba p)"
    by (rule reset_tx_effect [OF assms(1,2)])
  note D = tx_invD [OF assms(1,2)]
  show ?thesis
    using R D assms(3)
    by (intro tx_inv_upd [OF assms(1,2), where x = x])
      (auto simp: tx_cons_def mtlk_addba_is_aggr_on_def split: man_msg.splits addba_clb.splits)
qed

lemma res_rejected_inv [wave_inv]:
  assumes "tx_inv r p" "t < MTLK_ADDBA_NOF_TIDs" "tx_state (ap_tx p t) = MTLK_ADDBA_TX_NONE \<or> tx_state (ap_tx p t) = MTLK_ADDBA_TX_ADDBA_REQ_CFMD"
  shows "tx_inv r (addba_res_rejected t p)"
proof -
  define p1 where "p1 = snd (mtlk_addba_peer_reset_tx_state t p)"
  have 1: "tx_inv r p1" using reset_tx_quiet [OF assms] by (simp add: p1_def)
  have "tx_inv r (upd_tx t (\<lambda>x. x\<lparr>addba_res_rejects := n\<rparr>) p1)" for n
    using tx_invD(1) [OF 1 assms(2)]
    by (intro tx_inv_move [OF 1 assms(2), where x = "(ap_tx p1 t)\<lparr>addba_res_rejects := n\<rparr>"])
      (auto simp: tx_busy_def)
  then show ?thesis
    by (simp add: addba_res_rejected_def Let_def p1_def [symmetric])
qed

lemma check_res_inv [wave_inv]:
  assumes "tx_inv r p" "t < MTLK_ADDBA_NOF_TIDs"
  shows "tx_inv r (check_addba_res_rx_tid e t p)"
  using assms reset_tx_quiet [OF assms] by (simp add: check_addba_res_rx_tid_def)

lemma tx_cfm_inv [wave_inv]:
  assumes "tx_inv r p" "t < MTLK_ADDBA_NOF_TIDs"
  shows "tx_inv r (addba_tx_cfm e cf ok t p)"
proof -
  note D = tx_invD [OF assms]
  have H: "reflim_holds (aggr_reflim (ap_addba p)) (r + aggr_refs p)" using assms(1) by (simp add: tx_inv_def)
  consider (req) "tx_msg (ap_tx p t) = Msg_sent Clb_addba_req" | (opn) "tx_msg (ap_tx p t) = Msg_sent Clb_open_aggr"
    | (cls) "tx_msg (ap_tx p t) = Msg_sent Clb_close_aggr" | (other) "addba_tx_cfm e cf ok t p = p"
  proof -
    have "tx_msg (ap_tx p t) \<in> Msg_sent ` {Clb_addba_req, Clb_open_aggr, Clb_close_aggr} \<or> addba_tx_cfm e cf ok t p = p"
      by (simp add: addba_tx_cfm_def split: man_msg.split addba_clb.split)
    then show thesis using that by blast
  qed
  then show ?thesis
  proof cases
    case req
    then show ?thesis
      using D(1)
      by (intro tx_inv_move [OF assms, where x = "(ap_tx p t)\<lparr>tx_state := MTLK_ADDBA_TX_ADDBA_REQ_CFMD,
            addba_req_cfmd_time := now_ms e, tx_msg := Msg_free\<rparr>"])
        (auto simp: addba_tx_cfm_def addba_req_tx_cfm_clb_def tx_cons_def tx_busy_def mtlk_addba_is_aggr_on_def)
  next
    case opn
    let ?x = "(ap_tx p t)\<lparr>tx_state := MTLK_ADDBA_TX_AGGR_OPENED, tx_msg := Msg_free\<rparr>"
    have "tids_with tx_busy ((ap_tx p)(t := ?x)) = aggr_refs p"
      unfolding aggr_refs_def using assms(2) opn D(1) by (intro tids_upd_keep) (auto simp: tx_busy_def tx_cons_def)
    then show ?thesis
      using opn D H
      by (intro tx_inv_upd [OF assms, where x = ?x])
        (auto simp: addba_tx_cfm_def open_aggr_cfm_clb_def tx_cons_def Let_def switch_step_def mtlk_addba_is_aggr_on_def)
  next
    case cls
    obtain x p1 where R: "mtlk_addba_peer_reset_tx_state t p = (mtlk_addba_is_aggr_on (tx_state (ap_tx p t)), p1)"
      "ap_tx p1 = (ap_tx p)(t := x)" "tx_state x = MTLK_ADDBA_TX_NONE" "tx_msg x = tx_msg (ap_tx p t)"
      "ap_log p1 = ap_log p" "reflim_holds (aggr_reflim (ap_addba p1)) (r + tids_with tx_busy ((ap_tx p)(t := x)))"
      "next_dlg_token (ap_addba p1) = next_dlg_token (ap_addba p)"
      by (rule reset_tx_effect [OF assms])
    let ?x = "x\<lparr>tx_msg := Msg_free\<rparr>"
    have "tids_with tx_busy ((ap_tx p)(t := ?x)) = tids_with tx_busy ((ap_tx p)(t := x))"
      using tids_upd_keep [of t tx_busy "(ap_tx p)(t := x)" ?x] assms(2) by (simp add: tx_busy_def)
    then show ?thesis
      using cls R D
      by (intro tx_inv_upd [OF assms, where x = ?x])
        (auto simp: addba_tx_cfm_def close_aggr_cfm_clb_def tx_cons_def Let_def switch_step_def mtlk_addba_is_aggr_on_def)
  qed (use assms in simp)
qed

lemma peer_stop_tid_tx [wave_inv]:
  assumes "tx_inv r p" "t < MTLK_ADDBA_NOF_TIDs"
  shows "tx_inv r (peer_stop_tid t p)"
proof -
  note D = tx_invD [OF assms]
  obtain x p1 where R: "mtlk_addba_peer_reset_tx_state t p = (mtlk_addba_is_aggr_on (tx_state (ap_tx p t)), p1)"
    "ap_tx p1 = (ap_tx p)(t := x)" "tx_state x = MTLK_ADDBA_TX_NONE" "tx_msg x = tx_msg (ap_tx p t)"
    "ap_log p1 = ap_log p" "reflim_holds (aggr_reflim (ap_addba p1)) (r + tids_with tx_busy ((ap_tx p)(t := x)))"
    "next_dlg_token (ap_addba p1) = next_dlg_token (ap_addba p)"
    by (rule reset_tx_effect [OF assms])
  let ?x = "x\<lparr>tx_msg := Msg_free\<rparr>"
  define p3 where "p3 = (if mtlk_addba_is_aggr_on (tx_state (ap_tx p t))
    then ap_emit (On_stop_aggregation t) (upd_tx t (\<lambda>x. x\<lparr>tx_msg := Msg_free\<rparr>) p1)
    else upd_tx t (\<lambda>x. x\<lparr>tx_msg := Msg_free\<rparr>) p1)"
  have "tids_with tx_busy ((ap_tx p)(t := ?x)) = tids_with tx_busy ((ap_tx p)(t := x))"
    using tids_upd_keep [of t tx_busy "(ap_tx p)(t := x)" ?x] assms(2) by (simp add: tx_busy_def)
  then have 3: "tx_inv r p3" "tx_state (ap_tx p3 t) = MTLK_ADDBA_TX_NONE" "tx_msg (ap_tx p3 t) = Msg_free"
    using R D by (auto simp: p3_def tx_cons_def switch_step_def mtlk_addba_is_aggr_on_def
        intro!: tx_inv_upd [OF assms, where x = ?x])
  obtain s4 p4 where 4: "mtlk_addba_peer_reset_rx_state t p3 = (s4, p4)" by fastforce
  have p4: "tx_inv r p4" "ap_tx p4 = ap_tx p3"
    using reset_rx_keeps_tx [of r t p3] 3(1) 4 by (auto simp: mtlk_addba_peer_reset_rx_state_def split: if_splits)
  define p6 where "p6 = (if s4 then ap_emit (On_stop_reordering t) (upd_rx t (\<lambda>x. x\<lparr>rx_msg := Msg_free\<rparr>) p4)
    else upd_rx t (\<lambda>x. x\<lparr>rx_msg := Msg_free\<rparr>) p4)"
  have 6: "tx_inv r p6" "ap_tx p6 = ap_tx p3" using p4 by (auto simp: p6_def)
  have E: "peer_stop_tid t p = upd_rx t (\<lambda>x. x\<lparr>rx_state := MTLK_ADDBA_RX_NONE, delba_timeout := 0, req_tstamp := 0\<rparr>)
      (upd_tx t (\<lambda>x. x\<lparr>tx_state := MTLK_ADDBA_TX_NONE, addba_req_cfmd_time := 0, addba_req_dlgt := 0, addba_res_rejects := 0\<rparr>) p6)"
    using R(1) 4 by (simp add: peer_stop_tid_def Let_def p3_def [symmetric] p6_def [symmetric])
  show ?thesis
    unfolding E using 3 6
    by (auto simp: tx_cons_def tx_busy_def
        intro!: tx_inv_move [OF 6(1) assms(2), where x = "(ap_tx p6 t)\<lparr>tx_state := MTLK_ADDBA_TX_NONE,
          addba_req_cfmd_time := 0, addba_req_dlgt := 0, addba_res_rejects := 0\<rparr>"])
qed

section \<open>Properties of runs\<close>

text \<open>
  An orderly peer answers a request after its transmission was confirmed and does not reject what it
  accepted: a rejection with the current dialog token finds no open or opening aggregation.
\<close>
fun orderly :: "addba_op \<Rightarrow> addba_peer \<Rightarrow> bool" where
  "orderly (Op_addba_res_rx res t dlgt) p =
     (res = MTLK_ADDBA_RES_CODE_SUCCESS \<or> dlgt \<noteq> addba_req_dlgt (ap_tx p t)
      \<or> tx_state (ap_tx p t) = MTLK_ADDBA_TX_NONE \<or> tx_state (ap_tx p t) = MTLK_ADDBA_TX_ADDBA_REQ_CFMD)"
| "orderly _ p = True"

fun orderly_run :: "(addba_env \<times> addba_op) list \<Rightarrow> addba_peer \<Rightarrow> bool" where
  "orderly_run [] p = True"
| "orderly_run (x # xs) p = (tid_ok (snd x) \<and> orderly (snd x) p \<and> orderly_run xs (addba_after x p))"

lemma step_tx_inv:
  assumes "tx_inv r p" "r + MTLK_ADDBA_NOF_TIDs < reflim_room" "tid_ok op" "orderly op p"
  shows "tx_inv r (addba_after (e, op) p)"
proof (cases op)
  case (Op_start addr)
  then show ?thesis
    using assms(1) fold_inv [of addba_tids "tx_inv r" peer_stop_tid] peer_stop_tid_tx tids_bound
    by (simp add: mtlk_addba_peer_start_def mtlk_addba_peer_stop_all_def)
next
  case Op_stop
  then show ?thesis
    using assms(1) fold_inv [of addba_tids "tx_inv r" peer_stop_tid] peer_stop_tid_tx tids_bound
    by (simp add: mtlk_addba_peer_stop_def mtlk_addba_peer_stop_all_def)
next
  case (Op_negotiate g rate)
  then show ?thesis
    using assms tx_addba_req_inv
    by (auto simp: mtlk_addba_peer_start_negotiation_def mtlk_addba_peer_start_negotiation_all_def Let_def
        intro!: fold_inv [where I = "tx_inv r"])
next
  case (Op_delba_rx t ini)
  have "tx_inv r p1" if "mtlk_addba_peer_reset_rx_state t p = (st, p1)" for st p1
    using reset_rx_keeps_tx [of r t p] that assms(1) by simp
  then show ?thesis
    using Op_delba_rx assms close_aggr_inv [OF assms(1)]
    by (auto simp: mtlk_addba_peer_on_delba_req_rx_def  Let_def split: prod.splits)
next
  case (Op_addba_res_rx res t dlgt)
  then show ?thesis
    using assms res_accepted_inv [OF assms(1)] res_rejected_inv [OF assms(1)]
    by (auto simp: mtlk_addba_peer_on_addba_res_rx_def )
next
  case Op_iterate
  then show ?thesis
    using assms(1) check_res_inv tids_bound
    by (auto simp: mtlk_addba_peer_iterate_def mtlk_addba_peer_check_addba_res_rx_timeouts_def
        mtlk_addba_peer_check_delba_timeouts_def intro!: fold_inv [where I = "tx_inv r"])
next
  case (Op_negotiate_tid t)
  then show ?thesis using assms tx_addba_req_inv by (simp add: mtlk_addba_peer_start_aggr_negotiation_def)
next
  case (Op_tx_cfm c ok t)
  then show ?thesis using assms tx_cfm_inv by simp
qed (use assms(1) in \<open>auto simp: mtlk_addba_reconfigure_def\<close>)

lemma run_tx_inv:
  assumes "tx_inv r p" "r + MTLK_ADDBA_NOF_TIDs < reflim_room" "orderly_run ops p"
  shows "tx_inv r (fold addba_after ops p)"
  using assms(1,3)
proof (induction ops p rule: orderly_run.induct)
  case (2 x xs p)
  then show ?case using step_tx_inv [OF _ assms(2), of p "snd x" "fst x"] by (cases x) auto
qed simp

lemma run_reord_inv:
  assumes "reord_inv r p" "r + MTLK_ADDBA_NOF_TIDs < reflim_room" "list_all (\<lambda>x. tid_ok (snd x)) ops"
  shows "reord_inv r (fold addba_after ops p)"
  using assms(1,3)
proof (induction ops arbitrary: p)
  case (Cons x xs)
  then show ?case using step_reord_inv [OF _ assms(2), of p "snd x" "fst x"] by (cases x) auto
qed simp

subsection \<open>The ceilings never change\<close>

definition ceilings :: "addba_peer \<Rightarrow> nat \<times> nat" where
  "ceilings p = (rl_max (aggr_reflim (ap_addba p)), rl_max (reord_reflim (ap_addba p)))"

lemma reflim_max [simp]:
  "rl_max (mtlk_reflim_unref x) = rl_max x" "mtlk_reflim_try_ref x = (ok, y) \<Longrightarrow> rl_max y = rl_max x"
  by (auto simp: mtlk_reflim_unref_def mtlk_reflim_try_ref_def Let_def split: if_splits)

lemma ceilings_frame [simp]:
  "ceilings (ap_emit ev p) = ceilings p" "ceilings (upd_tx t f p) = ceilings p" "ceilings (upd_rx t h p) = ceilings p"
  "ceilings (cntr_inc c p) = ceilings p" "ceilings (cntr_dec c p) = ceilings p"
  "ceilings (upd_addba (\<lambda>a. a\<lparr>next_dlg_token := n\<rparr>) p) = ceilings p"
  "ceilings (upd_addba (\<lambda>a. a\<lparr>ad_cfg := cf\<rparr>) p) = ceilings p"
  "ceilings (upd_addba (\<lambda>a. a\<lparr>aggr_reflim := mtlk_reflim_unref (aggr_reflim a)\<rparr>) p) = ceilings p"
  "ceilings (upd_addba (\<lambda>a. a\<lparr>reord_reflim := mtlk_reflim_unref (reord_reflim a)\<rparr>) p) = ceilings p"
  "ceilings (p\<lparr>ap_active := b\<rparr>) = ceilings p" "ceilings (p\<lparr>ap_addr := ad\<rparr>) = ceilings p"
  "mtlk_reflim_try_ref (aggr_reflim (ap_addba p)) = (ok, y) \<Longrightarrow> ceilings (upd_addba (\<lambda>a. a\<lparr>aggr_reflim := y\<rparr>) p) = ceilings p"
  "mtlk_reflim_try_ref (reord_reflim (ap_addba p)) = (ok, y) \<Longrightarrow> ceilings (upd_addba (\<lambda>a. a\<lparr>reord_reflim := y\<rparr>) p) = ceilings p"
  by (simp_all add: ceilings_def)

lemma ceilings_reset [simp]:
  "ceilings (snd (mtlk_addba_peer_reset_tx_state t p)) = ceilings p"
  "ceilings (snd (mtlk_addba_peer_reset_rx_state t p)) = ceilings p"
  by (simp_all add: mtlk_addba_peer_reset_tx_state_def mtlk_addba_peer_reset_rx_state_def)

lemma ceilings_reset_pair:
  "mtlk_addba_peer_reset_tx_state t p = (s, q) \<Longrightarrow> ceilings q = ceilings p"
  "mtlk_addba_peer_reset_rx_state t p = (s, q) \<Longrightarrow> ceilings q = ceilings p"
  using ceilings_reset [of t p] by simp_all

lemma ceilings_verdict: "addba_req_verdict t w pol rate p = (acc, q) \<Longrightarrow> ceilings q = ceilings p"
  by (auto simp: addba_req_verdict_def split: if_splits prod.splits bool.splits)

lemma ceilings_ops [simp]:
  "ceilings (mtlk_addba_peer_tx_addba_req e t p) = ceilings p"
  "ceilings (mtlk_addba_peer_close_aggr_req e t p) = ceilings p"
  "ceilings (addba_res_accepted e t p) = ceilings p"
  "ceilings (addba_res_rejected t p) = ceilings p"
  "ceilings (check_addba_res_rx_tid e t p) = ceilings p"
  "ceilings (check_delba_tid e t p) = ceilings p"
  "ceilings (addba_tx_cfm e cf ok t p) = ceilings p"
  "ceilings (addba_rx_cfm cf ok t p) = ceilings p"
  "ceilings (peer_stop_tid t p) = ceilings p"
  "ceilings (addba_req_answer e ssn t dlgt tmout stop (addba_req_verdict t w pol rate p)) = ceilings p"
  by (auto simp: mtlk_addba_peer_tx_addba_req_def mtlk_addba_peer_on_addba_req_sent_def
      mtlk_addba_peer_close_aggr_req_def addba_res_accepted_def addba_res_rejected_def check_addba_res_rx_tid_def
      addba_tx_cfm_def addba_req_tx_cfm_clb_def open_aggr_cfm_clb_def close_aggr_cfm_clb_def check_delba_tid_def
      mtlk_addba_peer_send_rx_delba_req_def addba_rx_cfm_def addba_res_tx_cfm_clb_def delba_req_tx_cfm_clb_def
      peer_stop_tid_def addba_req_answer_def Let_def
      split: prod.splits bool.splits man_msg.splits addba_clb.splits option.splits
      dest!: ceilings_reset_pair ceilings_verdict)

lemma ceilings_step [simp]: "ceilings (addba_after x p) = ceilings p"
proof -
  have *: "ceilings (fold f ts q) = ceilings q" if "\<And>t q. ceilings (f t q) = ceilings q" for f :: "nat \<Rightarrow> addba_peer \<Rightarrow> addba_peer" and ts q
    using that by (induction ts arbitrary: q) auto
  show ?thesis
    by (cases "(x, p)" rule: addba_step.cases)
      (auto simp: mtlk_addba_peer_start_def mtlk_addba_peer_stop_def mtlk_addba_peer_stop_all_def
        mtlk_addba_peer_start_negotiation_def mtlk_addba_peer_start_negotiation_all_def
        mtlk_addba_peer_start_aggr_negotiation_def mtlk_addba_peer_on_delba_req_rx_def mtlk_addba_peer_on_addba_res_rx_def
        mtlk_addba_peer_on_addba_req_rx_def mtlk_addba_peer_iterate_def mtlk_addba_peer_check_addba_res_rx_timeouts_def
        mtlk_addba_peer_check_delba_timeouts_def mtlk_addba_reconfigure_def  * Let_def
        split: prod.splits dest!: ceilings_reset_pair)
qed

lemma ceilings_run [simp]: "ceilings (fold addba_after ops p) = ceilings p"
  by (induction ops arbitrary: p) auto

lemma init_invs:
  assumes "reflim_holds ar r" "reflim_holds rr r'"
  shows "tx_inv r (mtlk_addba_peer_init (mtlk_addba_init ar rr cfg))"
    "reord_inv r' (mtlk_addba_peer_init (mtlk_addba_init ar rr cfg))"
  using assms by (auto simp: tx_inv_def reord_inv_def mtlk_addba_peer_init_def mtlk_addba_init_def aggr_refs_def
      reord_refs_def tids_with_def tx_busy_def rx_busy_def tx_cons_def switch_def mtlk_addba_is_aggr_on_def INVALID_TAG_ID_def)

subsection \<open>Claims\<close>

text \<open>The limiter of reorderings keeps its count through every run that returns.\<close>
lemma run_reord_count:
  assumes "reord_inv r p" "r + MTLK_ADDBA_NOF_TIDs < reflim_room" "list_all (\<lambda>x. owner_ok (snd x)) ops" "addba_run ops p = Inr p'"
  shows "reord_inv r p'"
  using assms(1,3,4)
proof (induction ops arbitrary: p)
  case (Cons x ops)
  obtain e op where x: "x = (e, op)" by fastforce
  obtain p1 where p1: "addba_step x p = Inr p1" "addba_run ops p1 = Inr p'" using Cons.prems(3) by (auto simp: run_simps)
  have "reord_inv r p1"
  proof (cases "frame_ok op")
    case True
    then show ?thesis
      using step_reord_inv [OF Cons.prems(1) assms(2), of op e] addba_step_returns [of op p e] Cons.prems(2) p1(1) by (simp add: x tid_ok_def)
  next
    case False
    then have "\<not> ap_active p" using addba_step_faults [of op p e] p1(1) by (auto simp: x)
    then show ?thesis using False addba_step_returns [of op p e] addba_step_idle [of op p e] p1(1) Cons.prems(1) by (simp add: x)
  qed
  then show ?case using Cons.IH [OF _ _ p1(2)] Cons.prems(2) by simp
qed simp

text \<open>
  C24: The limiter of reorderings is never exceeded and never loses count.  Whatever frames arrive, in whatever
  order, and however the confirmations and time-outs interleave with them: after every run that returns the counter of the
  shared limiter is the number of references other peers hold plus the number of TIDs of this peer with an accepted
  agreement, and this number never exceeds the ceiling.  The owner and the callbacks are assumed to use TIDs below 8.  A run returns if the DELBAs and
  the answers that are received are for TIDs below 8; otherwise it may end with an index out of range.
\<close>
theorem addba_reorderings_within_limit:
  assumes "reflim_holds rr r" "r + MTLK_ADDBA_NOF_TIDs < reflim_room" "reflim_holds ar r'"
    and "list_all (\<lambda>x. owner_ok (snd x)) ops"
  shows "(\<forall>p. addba_run ops (mtlk_addba_peer_init (mtlk_addba_init ar rr cfg)) = Inr p \<longrightarrow>
      rl_cur (reord_reflim (ap_addba p)) = r + reord_refs p \<and> r + reord_refs p \<le> rl_max rr)
    \<and> (list_all (\<lambda>x. frame_ok (snd x)) ops \<longrightarrow> (\<exists>p. addba_run ops (mtlk_addba_peer_init (mtlk_addba_init ar rr cfg)) = Inr p))"
proof (intro conjI allI impI)
  let ?p0 = "mtlk_addba_peer_init (mtlk_addba_init ar rr cfg)"
  fix p assume run: "addba_run ops ?p0 = Inr p"
  have inv: "reord_inv r p" using run_reord_count [OF _ assms(2,4) run] init_invs(2) [OF assms(3,1)] by blast
  have "rl_max (reord_reflim (ap_addba p)) = rl_max rr"
    using ceilings_run [of ops ?p0] addba_run_fold [OF run] by (simp add: ceilings_def mtlk_addba_peer_init_def mtlk_addba_init_def)
  then show "rl_cur (reord_reflim (ap_addba p)) = r + reord_refs p" "r + reord_refs p \<le> rl_max rr"
    using inv by (auto simp: reord_inv_def reflim_holds_def)
qed (use addba_run_returns in blast)

text \<open>
  Aggregations.  With a peer that answers requests in order, the shared limiter counts exactly the
  TIDs with an aggregation open or under negotiation and is never exceeded; for every TID the
  owner is told alternately that aggregation starts and stops, and the last notification agrees with the state of the TID;
  the dialog token of the next request is never the invalid one.
\<close>
lemma addba_aggregations_within_limit:
  assumes "reflim_holds ar r" "r + MTLK_ADDBA_NOF_TIDs < reflim_room" "reflim_holds rr r'"
    and "orderly_run ops (mtlk_addba_peer_init (mtlk_addba_init ar rr cfg))"
  shows "let p = fold addba_after ops (mtlk_addba_peer_init (mtlk_addba_init ar rr cfg))
    in rl_cur (aggr_reflim (ap_addba p)) = r + aggr_refs p \<and> r + aggr_refs p \<le> rl_max ar
     \<and> next_dlg_token (ap_addba p) \<noteq> INVALID_TAG_ID
     \<and> (\<forall>t < MTLK_ADDBA_NOF_TIDs. switch (aggr_sel t) (ap_log p)
          = Some (tx_state (ap_tx p t) \<in> {MTLK_ADDBA_TX_AGGR_OPENED, MTLK_ADDBA_TX_DEL_AGGR_REQ_SENT}))"
proof -
  let ?p0 = "mtlk_addba_peer_init (mtlk_addba_init ar rr cfg)"
  have "tx_inv r (fold addba_after ops ?p0)"
    using run_tx_inv [OF _ assms(2,4)] init_invs(1) [OF assms(1,3)] by blast
  moreover have "rl_max (aggr_reflim (ap_addba (fold addba_after ops ?p0))) = rl_max ar"
    using ceilings_run [of ops ?p0] by (simp add: ceilings_def mtlk_addba_peer_init_def mtlk_addba_init_def)
  ultimately show ?thesis
    by (auto simp: Let_def tx_inv_def reflim_holds_def mtlk_addba_is_aggr_on_def)
qed

text \<open>
  The order of the peer's answer matters.  When a peer rejects a request before the confirmation of its
  transmission arrives, the TID gives its reference back, the late confirmation makes it wait again, and the
  time-out gives the reference back a second time: the limiter then counts one reference less than are
  out (and wraps around when it was at zero).
\<close>
lemma addba_early_reject_breaks_limit:
  assumes "tx_inv r p" "t < MTLK_ADDBA_NOF_TIDs" "ap_active p" "tx_msg (ap_tx p t) = Msg_sent Clb_addba_req"
    and "res \<noteq> MTLK_ADDBA_RES_CODE_SUCCESS"
    and "mtlk_osal_ms_time_diff (now_ms e2) (now_ms e1) \<ge> MTLK_ADDBA_RE_TX_REQ_TIMEOUT_MS"
  shows "\<exists>p1. mtlk_addba_peer_on_addba_res_rx e res t (addba_req_dlgt (ap_tx p t)) p = Inr p1
    \<and> (let p2 = addba_tx_cfm e1 True True t p1; p3 = check_addba_res_rx_tid e2 t p2
       in tx_state (ap_tx p3 t) = MTLK_ADDBA_TX_NONE \<and> aggr_refs p = Suc (aggr_refs p3)
        \<and> rl_cur (aggr_reflim (ap_addba p3)) = u32_dec (r + aggr_refs p3))"
proof -
  have st: "tx_state (ap_tx p t) = MTLK_ADDBA_TX_ADDBA_REQ_SENT" using tx_invD(1) [OF assms(1,2)] assms(4) by (simp add: tx_cons_def)
  have busy: "tx_busy (ap_tx p t)" using st by (simp add: tx_busy_def)
  define p1 where "p1 = addba_res_rejected t p"
  define p3 where "p3 = check_addba_res_rx_tid e2 t (addba_tx_cfm e1 True True t p1)"
  have p1: "tx_msg (ap_tx p1 t) = Msg_sent Clb_addba_req" "tx_state (ap_tx p1 t) = MTLK_ADDBA_TX_NONE"
    "aggr_reflim (ap_addba p1) = mtlk_reflim_unref (aggr_reflim (ap_addba p))"
    "\<And>u. u \<noteq> t \<Longrightarrow> ap_tx p1 u = ap_tx p u"
    using assms(4) st by (auto simp: p1_def addba_res_rejected_def mtlk_addba_peer_reset_tx_state_def Let_def upd_tx_def)
  have p3: "tx_state (ap_tx p3 t) = MTLK_ADDBA_TX_NONE" "\<And>u. u \<noteq> t \<Longrightarrow> ap_tx p3 u = ap_tx p u"
    "aggr_reflim (ap_addba p3) = mtlk_reflim_unref (mtlk_reflim_unref (aggr_reflim (ap_addba p)))"
    using p1 assms(6) by (auto simp: p3_def check_addba_res_rx_tid_def addba_tx_cfm_def addba_req_tx_cfm_clb_def
        mtlk_addba_peer_reset_tx_state_def)
  have "ap_tx p3 = (ap_tx p)(t := ap_tx p3 t)" using p3(2) by auto
  then have refs: "aggr_refs p = Suc (aggr_refs p3)"
    using tids_upd_off [of t tx_busy "ap_tx p" "ap_tx p3 t"] assms(2) busy p3(1) by (simp add: aggr_refs_def tx_busy_def)
  have "rl_cur (aggr_reflim (ap_addba p)) = Suc (r + aggr_refs p3)" "Suc (r + aggr_refs p3) < u32_max"
    using assms(1) refs by (auto simp: tx_inv_def reflim_holds_def)
  then have "rl_cur (aggr_reflim (ap_addba p3)) = u32_dec (r + aggr_refs p3)"
    by (simp add: p3(3) mtlk_reflim_unref_def u32_dec_pos)
  then show ?thesis
    using assms(2,3,5) refs p3(1) by (simp add: mtlk_addba_peer_on_addba_res_rx_def p1_def p3_def Let_def)
qed

text \<open>
  C25: Answer to a request.  A request for a TID below 8, received by an active peer whose limiter has kept its count, with sends that succeed, first ends the former
  agreement of the TID.  It is answered exactly once if the message of the TID is not still on its way and the
  serializer has a free block, and is ignored otherwise.  The answer is positive if and only if the rate allows aggregation, the
  configuration accepts it, the policy is immediate and fewer references are held, by other peers and by the other TIDs of this one, than the limiter allows.
  Then the window announced in the answer, the requested one or 64 when
  none was requested, is the window reordering starts with, at the starting sequence number of the request, and one reference more is held.
  Otherwise nothing is started.
\<close>
theorem addba_request_answered:
  assumes inv: "reord_inv r p" and room: "r + MTLK_ADDBA_NOF_TIDs < reflim_room"
    and act: "ap_active p" and t: "t < MTLK_ADDBA_NOF_TIDs" and send: "send_ok e t"
  shows "let others = r + reord_refs p - (if rx_busy (ap_rx p t) then 1 else 0);
             answered = (rx_msg (ap_rx p t) = Msg_free \<and> msg_avail e t);
             accept = (answered \<and> mtlk_addba_is_allowed_rate rate \<and> accept_aggr (ad_cfg (ap_addba p) t) \<and> pol \<noteq> 0
                       \<and> others < rl_max (reord_reflim (ap_addba p)));
             w = (if win = 0 then 64 else win);
             stop = (if mtlk_addba_is_reord_on (rx_state (ap_rx p t)) then [On_stop_reordering t] else []);
             p' = mtlk_addba_peer_on_addba_req_rx e ssn t win dlgt tmout pol rate p
         in ap_log p' = ap_log p @ (if \<not> answered then stop
                                    else if accept then Tx_addba_res t dlgt 0 (Some (tmout, w)) # stop @ [On_start_reordering t ssn w]
                                    else Tx_addba_res t dlgt 1 None # stop)
          \<and> rx_state (ap_rx p' t) = (if \<not> answered then MTLK_ADDBA_RX_NONE else if accept then MTLK_ADDBA_RX_ADDBA_POSITIVE_RES_SENT
                                      else MTLK_ADDBA_RX_ADDBA_NEGATIVE_RES_SENT)
          \<and> rl_cur (reord_reflim (ap_addba p')) = others + (if accept then 1 else 0)"
proof -
  let ?p0 = "cntr_inc MTLK_ADDBAPI_CNT_ADDBA_REQUEST_RX p" and ?stop = "mtlk_addba_is_reord_on (rx_state (ap_rx p t))"
  define p1 where "p1 = snd (mtlk_addba_peer_reset_rx_state t ?p0)"
  define n where "n = r + reord_refs p - (if rx_busy (ap_rx p t) then 1 else 0)"
  have r: "mtlk_addba_peer_reset_rx_state t ?p0 = (?stop, p1)"
    by (simp add: p1_def mtlk_addba_peer_reset_rx_state_def mtlk_addba_is_reord_on_def)
  have p1: "ap_log p1 = ap_log p" "rx_msg (ap_rx p1 t) = rx_msg (ap_rx p t)" "rx_state (ap_rx p1 t) = MTLK_ADDBA_RX_NONE"
    "ad_cfg (ap_addba p1) = ad_cfg (ap_addba p)" "rl_max (reord_reflim (ap_addba p1)) = rl_max (reord_reflim (ap_addba p))"
    by (auto simp: p1_def mtlk_addba_peer_reset_rx_state_def mtlk_reflim_unref_def)
  have inv1: "reord_inv r p1" using reset_rx_inv(1) [of r ?p0 t] inv t by (simp add: p1_def)
  have refs: "r + reord_refs p1 = n"
    using reset_rx_refs [OF t, of p MTLK_ADDBAPI_CNT_ADDBA_REQUEST_RX] by (auto simp: n_def p1_def)
  have n: "n < reflim_room" using tids_with_le [of rx_busy "ap_rx p1"] room refs by (simp add: reord_refs_def)
  obtain ok x where tr: "mtlk_reflim_try_ref (reord_reflim (ap_addba p1)) = (ok, x)" by fastforce
  have H: "reflim_holds (reord_reflim (ap_addba p1)) n" using inv1 refs by (simp add: reord_inv_def)
  note c = reflim.try_ref_cases [OF H n tr]
  have cur: "rl_cur (reord_reflim (ap_addba p1)) = n" "rl_cur x = (if ok then Suc n else n)"
    using H c(2) by (auto simp: reflim_holds_def)
  show ?thesis
    unfolding n_def [symmetric] Let_def
    using act t send r p1 tr c(1) cur
    by (cases ok) (auto simp: mtlk_addba_peer_on_addba_req_rx_def addba_req_verdict_def addba_req_answer_def rx_msg_get_empty_def
        mtlk_addba_correct_res_win_size_def addba_consts Let_def)
qed

text \<open>
  The inactivity time-out of an accepted agreement.  Requests below 64000 time units are converted to
  milliseconds exactly; from there on the 16-bit field wraps, so that the longest requests
  end with a time-out below 1.6 seconds, or, at 64000, with none.
\<close>
lemma addba_timeout_wraps:
  assumes "tmout < 2 ^ 16"
  shows "ADDBA_TU_TO_MS tmout mod 2 ^ 16 =
    (if tmout < 64000 then tmout * 1024 div 1000 else tmout * 1024 div 1000 - 65536)
    \<and> (64000 \<le> tmout \<longrightarrow> ADDBA_TU_TO_MS tmout mod 2 ^ 16 < 1572) \<and> ADDBA_TU_TO_MS 64000 mod 2 ^ 16 = 0"
proof -
  have "tmout * 1024 mod u32_max = tmout * 1024" using assms by (simp add: u32_max_def)
  then have e: "ADDBA_TU_TO_MS tmout = tmout * 1024 div 1000" by (simp add: ADDBA_TU_TO_MS_def addba_consts)
  have z: "ADDBA_TU_TO_MS 64000 mod 2 ^ 16 = 0" by (simp add: ADDBA_TU_TO_MS_def addba_consts u32_max_def)
  show ?thesis
  proof (cases "tmout < 64000")
    case True
    then have "tmout * 1024 div 1000 < 65536" by (simp add: div_less_iff_less_mult)
    then show ?thesis using True e z by simp
  next
    case False
    define d where "d = tmout * 1024 div 1000"
    have a: "65536 \<le> d" using False by (simp add: d_def less_eq_div_iff_mult_less_eq)
    have b: "d < 67108" using assms by (simp add: d_def div_less_iff_less_mult)
    have "d mod 65536 = d - 65536" "d - 65536 < 1572"
      using a b by (simp_all add: mod_if)
    then show ?thesis using False e z by (simp add: d_def)
  qed
qed

text \<open>
  Received block-ack frames of a known station.  Handling one faults exactly when the frame is shorter than the structure its action is
  read as, or when an active peer receives an answer or a DELBA for a TID above 7, which the four-bit field of
  the frame admits and which is used as an index without a check; requests are checked.
\<close>
lemma addba_frame_faults_iff:
  "mtlk_process_action_frame_block_ack e f (Some p) = Inl Out_of_bounds \<longleftrightarrow>
     f = []
   \<or> f ! 0 = 0 \<and> length f < 8
   \<or> f ! 0 = 1 \<and> (length f < 6 \<or> ap_active p \<and> 8 \<le> (wlan16 f 4 div 4) mod 16)
   \<or> f ! 0 = 2 \<and> (length f < 5 \<or> ap_active p \<and> 8 \<le> (wlan16 f 1 div 4096) mod 16)"
  by (auto simp: mtlk_process_action_frame_block_ack_def mtlk_addba_peer_on_addba_res_rx_def
      mtlk_addba_peer_on_delba_req_rx_def MTLK_BFIELD_GET_def bfield_defs addba_consts Let_def split_beta)

text \<open>
  A DELBA of the initiator that arrives before the positive answer was confirmed ends the agreement silently: the TID
  returns to idle and gives its reference back, but the owner, which was told to start reordering when the answer was
  sent, is not told to stop.
\<close>
lemma addba_delba_before_confirm_keeps_reordering:
  assumes "ap_active p" "t < MTLK_ADDBA_NOF_TIDs" "rx_state (ap_rx p t) = MTLK_ADDBA_RX_ADDBA_POSITIVE_RES_SENT"
  shows "\<exists>p'. mtlk_addba_peer_on_delba_req_rx e t True p = Inr p' \<and> rx_state (ap_rx p' t) = MTLK_ADDBA_RX_NONE
    \<and> ap_log p' = ap_log p \<and> reord_reflim (ap_addba p') = mtlk_reflim_unref (reord_reflim (ap_addba p))"
  using assms by (simp add: mtlk_addba_peer_on_delba_req_rx_def mtlk_addba_peer_reset_rx_state_def Let_def
      mtlk_addba_is_reord_on_def)

subsection \<open>The periodic check\<close>

definition req_overdue :: "addba_env \<Rightarrow> addba_peer \<Rightarrow> nat \<Rightarrow> bool" where
  "req_overdue e p t = (tx_state (ap_tx p t) = MTLK_ADDBA_TX_ADDBA_REQ_CFMD
     \<and> mtlk_osal_ms_time_diff (now_ms e) (addba_req_cfmd_time (ap_tx p t)) \<ge> MTLK_ADDBA_RE_TX_REQ_TIMEOUT_MS)"

lemma check_res_other: "u \<noteq> t \<Longrightarrow> ap_tx (check_addba_res_rx_tid e t p) u = ap_tx p u"
  by (simp add: check_addba_res_rx_tid_def mtlk_addba_peer_reset_tx_state_def)

lemma check_res_fold:
  assumes "distinct ts"
  shows "ap_log (fold (check_addba_res_rx_tid e) ts p) = ap_log p @ map On_ba_req_unconfirmed (filter (req_overdue e p) ts)
    \<and> (\<forall>u. tx_state (ap_tx (fold (check_addba_res_rx_tid e) ts p) u)
          = (if u \<in> set ts \<and> req_overdue e p u then MTLK_ADDBA_TX_NONE else tx_state (ap_tx p u)))"
  using assms
proof (induction ts arbitrary: p)
  case (Cons t ts)
  let ?q = "check_addba_res_rx_tid e t p"
  have o: "req_overdue e ?q u = req_overdue e p u" if "u \<noteq> t" for u
    using check_res_other [OF that, of e p] by (simp add: req_overdue_def)
  have f: "filter (req_overdue e ?q) ts = filter (req_overdue e p) ts"
  proof (rule filter_cong [OF refl])
    fix u assume "u \<in> set ts"
    then have "u \<noteq> t" using Cons.prems by auto
    then show "req_overdue e ?q u = req_overdue e p u" by (rule o)
  qed
  have l: "ap_log ?q = ap_log p @ (if req_overdue e p t then [On_ba_req_unconfirmed t] else [])"
    by (simp add: check_addba_res_rx_tid_def req_overdue_def mtlk_addba_peer_reset_tx_state_def)
  have s: "tx_state (ap_tx ?q t) = (if req_overdue e p t then MTLK_ADDBA_TX_NONE else tx_state (ap_tx p t))"
    by (simp add: check_addba_res_rx_tid_def req_overdue_def mtlk_addba_peer_reset_tx_state_def)
  have IH: "ap_log (fold (check_addba_res_rx_tid e) ts ?q) = ap_log ?q @ map On_ba_req_unconfirmed (filter (req_overdue e ?q) ts)"
    "tx_state (ap_tx (fold (check_addba_res_rx_tid e) ts ?q) u)
       = (if u \<in> set ts \<and> req_overdue e ?q u then MTLK_ADDBA_TX_NONE else tx_state (ap_tx ?q u))" for u
    using Cons.IH [of ?q] Cons.prems by auto
  have "tx_state (ap_tx (fold (check_addba_res_rx_tid e) (t # ts) p) u)
      = (if u \<in> set (t # ts) \<and> req_overdue e p u then MTLK_ADDBA_TX_NONE else tx_state (ap_tx p u))" for u
    using IH(2) [of u] s o [of u] check_res_other [of u t e p] Cons.prems by (cases "u = t") auto
  then show ?case using IH(1) f l by auto
qed simp

lemma delba_fold_tx: "ap_tx (fold (check_delba_tid e) ts p) = ap_tx p"
  by (induction ts arbitrary: p)
    (simp_all add: check_delba_tid_def mtlk_addba_peer_send_rx_delba_req_def Let_def)

text \<open>
  No request waits forever.  After the periodic check of an active peer no TID is left waiting for an answer for
  three seconds or more since the confirmation of its request: exactly those TIDs are back to idle,
  ready to negotiate again, the others are as before, and the owner is told about each of them once, in order.
\<close>
lemma addba_iterate_ends_overdue_requests:
  assumes "ap_active p"
  shows "\<exists>es. (\<forall>v. On_ba_req_unconfirmed v \<notin> set es)
      \<and> ap_log (mtlk_addba_peer_iterate e p) = ap_log p @ es @ map On_ba_req_unconfirmed (filter (req_overdue e p) [0..<8])
      \<and> (\<forall>t < 8. tx_state (ap_tx (mtlk_addba_peer_iterate e p) t)
           = (if req_overdue e p t then MTLK_ADDBA_TX_NONE else tx_state (ap_tx p t)))"
proof -
  let ?q = "fold (check_delba_tid e) addba_tids p"
  have log: "\<exists>es. (\<forall>v. On_ba_req_unconfirmed v \<notin> set es) \<and> ap_log (fold (check_delba_tid e) ts q) = ap_log q @ es" for ts q
  proof (induction ts arbitrary: q)
    case (Cons t ts)
    have "\<exists>es. (\<forall>v. On_ba_req_unconfirmed v \<notin> set es) \<and> ap_log (check_delba_tid e t q) = ap_log q @ es"
      by (auto simp: check_delba_tid_def mtlk_addba_peer_send_rx_delba_req_def Let_def)
    then obtain es1 es2 where "\<forall>v. On_ba_req_unconfirmed v \<notin> set es1" "ap_log (check_delba_tid e t q) = ap_log q @ es1"
      "\<forall>v. On_ba_req_unconfirmed v \<notin> set es2"
      "ap_log (fold (check_delba_tid e) ts (check_delba_tid e t q)) = ap_log (check_delba_tid e t q) @ es2"
      using Cons.IH [of "check_delba_tid e t q"] by blast
    then show ?case by (intro exI [of _ "es1 @ es2"]) auto
  qed simp
  obtain es where es: "\<forall>v. On_ba_req_unconfirmed v \<notin> set es" "ap_log ?q = ap_log p @ es"
    using log [of addba_tids p] by blast
  have tx: "ap_tx ?q = ap_tx p" by (rule delba_fold_tx)
  then have o: "req_overdue e ?q = req_overdue e p" by (simp add: req_overdue_def fun_eq_iff)
  have d: "distinct addba_tids" by (simp add: addba_tids_def)
  show ?thesis
    using check_res_fold [OF d, of e ?q] es assms tx o
    by (intro exI [of _ es]) (auto simp: mtlk_addba_peer_iterate_def mtlk_addba_peer_check_addba_res_rx_timeouts_def
        mtlk_addba_peer_check_delba_timeouts_def addba_tids_def MTLK_ADDBA_NOF_TIDs_def)
qed

subsection \<open>Witnesses\<close>

definition ex_cfg :: "nat \<Rightarrow> addba_tid_cfg" where
  "ex_cfg _ = \<lparr>use_aggr = True, accept_aggr = True, max_nof_packets = 10, max_nof_bytes = 16000, timeout_interval = 3,
     min_packet_size_in_aggr = 0, addba_timeout = 0, aggr_win_size = 64\<rparr>"

definition ex_env :: "nat \<Rightarrow> addba_env" where
  "ex_env now = \<lparr>msg_avail = (\<lambda>_. True), send_ok = (\<lambda>_. True), now_ms = now, last_rx_time = (\<lambda>_. 0)\<rparr>"

definition ex_peer0 :: addba_peer where
  "ex_peer0 = mtlk_addba_peer_init (mtlk_addba_init (mtlk_reflim_init 16) (mtlk_reflim_init 0xFFFFFFFF) ex_cfg)"

text \<open>A peer that negotiates aggregation of TID 0, is accepted, and accepts a request for TID 5 in return.\<close>
definition ex_ops :: "(addba_env \<times> addba_op) list" where
  "ex_ops = [(ex_env 1, Op_start 7), (ex_env 2, Op_negotiate_tid 0), (ex_env 3, Op_tx_cfm True True 0),
     (ex_env 4, Op_addba_res_rx 0 0 0), (ex_env 5, Op_tx_cfm True True 0), (ex_env 6, Op_addba_req_rx 100 5 32 9 0 1 0xFFFF)]"

lemma ex_reflims:
  "reflim_holds (mtlk_reflim_init 16) 0" "reflim_holds (mtlk_reflim_init 0xFFFFFFFF) 0"
  "0 + MTLK_ADDBA_NOF_TIDs < reflim_room"
  by (simp_all add: reflim_holds_def mtlk_reflim_init_def u32_max_def reflim_room_def MTLK_ADDBA_NOF_TIDs_def)

lemmas ex_defs = ex_ops_def ex_peer0_def ex_env_def ex_cfg_def mtlk_addba_peer_init_def mtlk_addba_init_def
  mtlk_reflim_init_def

theorem addba_reorderings_within_limit_witness:
  "\<exists>p. addba_run ex_ops ex_peer0 = Inr p \<and> rl_cur (reord_reflim (ap_addba p)) = reord_refs p"
proof -
  have ops: "list_all (\<lambda>x. owner_ok (snd x)) ex_ops" "list_all (\<lambda>x. frame_ok (snd x)) ex_ops"
    by (simp_all add: ex_ops_def MTLK_ADDBA_NOF_TIDs_def)
  from addba_reorderings_within_limit [OF ex_reflims(2,3,1) ops(1), of ex_cfg] ops(2) show ?thesis
    by (auto simp: ex_peer0_def)
qed

lemmas ex_eval = addba_consts mtlk_addba_peer_start_def mtlk_addba_peer_stop_all_def addba_tids_def peer_stop_tid_def
  mtlk_addba_peer_reset_tx_state_def mtlk_addba_peer_reset_rx_state_def mtlk_addba_peer_start_aggr_negotiation_def
  mtlk_addba_peer_tx_addba_req_def mtlk_reflim_try_ref_def u32_inc_def u32_max_def tx_msg_get_empty_def
  mtlk_addba_peer_on_addba_req_sent_def mtlk_addba_peer_fill_addba_req_def addba_tx_cfm_def addba_req_tx_cfm_clb_def
  mtlk_addba_peer_on_addba_res_rx_def addba_res_accepted_def addba_open_event_def open_aggr_cfm_clb_def 
  addba_upd_defs upt_rec Let_def

text \<open>The first steps of that run: TID 0 has sent its request, and later its transmission is confirmed.\<close>
definition ex_requested :: addba_peer where
  "ex_requested = fold addba_after (take 2 ex_ops) ex_peer0"

definition ex_confirmed :: addba_peer where
  "ex_confirmed = fold addba_after (take 3 ex_ops) ex_peer0"

lemma ex_requested_eval:
  "tx_msg (ap_tx ex_requested 0) = Msg_sent Clb_addba_req" "ap_active ex_requested" "addba_req_dlgt (ap_tx ex_requested 0) = 0"
  "rx_msg (ap_rx ex_requested 5) = Msg_free" "orderly_run (take 2 ex_ops) ex_peer0"
  unfolding ex_requested_def by (simp_all add: ex_defs ex_eval)

lemma ex_confirmed_eval:
  "ap_active ex_confirmed" "tx_state (ap_tx ex_confirmed 0) = MTLK_ADDBA_TX_ADDBA_REQ_CFMD" "addba_req_cfmd_time (ap_tx ex_confirmed 0) = 3"
  unfolding ex_confirmed_def by (simp_all add: ex_defs ex_eval)

lemma ex_orderly: "orderly_run ex_ops ex_peer0"
  by (simp add: ex_defs ex_eval)

theorem addba_aggregations_within_limit_witness:
  "orderly_run ex_ops ex_peer0
   \<and> rl_cur (aggr_reflim (ap_addba (fold addba_after ex_ops ex_peer0))) = aggr_refs (fold addba_after ex_ops ex_peer0)"
  using addba_aggregations_within_limit [OF ex_reflims(1,3,2), of ex_ops ex_cfg] ex_orderly
  by (simp add: Let_def ex_peer0_def)

theorem addba_early_reject_breaks_limit_witness:
  "\<exists>p1. mtlk_addba_peer_on_addba_res_rx (ex_env 3) 1 0 0 ex_requested = Inr p1
    \<and> tx_state (ap_tx (check_addba_res_rx_tid (ex_env 5000) 0 (addba_tx_cfm (ex_env 4) True True 0 p1)) 0) = MTLK_ADDBA_TX_NONE"
proof -
  have inv: "tx_inv 0 ex_requested"
    using run_tx_inv [OF _ ex_reflims(3) ex_requested_eval(5)] init_invs(1) [OF ex_reflims(1,2), of ex_cfg]
    by (simp add: ex_requested_def ex_peer0_def)
  have "mtlk_osal_ms_time_diff (now_ms (ex_env 5000)) (now_ms (ex_env 4)) \<ge> MTLK_ADDBA_RE_TX_REQ_TIMEOUT_MS"
    by (simp add: ex_env_def mtlk_osal_ms_time_diff_def u32_sub_def u32_max_def addba_consts)
  from addba_early_reject_breaks_limit [OF inv _ ex_requested_eval(2,1) _ this, of 1 "ex_env 3"] ex_requested_eval(3)
  show ?thesis by (auto simp: addba_consts Let_def)
qed

lemma ex_requested_inv: "reord_inv 0 ex_requested"
proof -
  have "list_all (\<lambda>x. owner_ok (snd x)) (take 2 ex_ops)" "list_all (\<lambda>x. frame_ok (snd x)) (take 2 ex_ops)"
    by (simp_all add: ex_ops_def MTLK_ADDBA_NOF_TIDs_def)
  then show ?thesis
    using run_reord_count [OF _ ex_reflims(3)] addba_run_returns [of "take 2 ex_ops" ex_peer0] init_invs(2) [OF ex_reflims(1,2), of ex_cfg]
    by (metis ex_peer0_def ex_requested_def)
qed

theorem addba_request_answered_witness:
  "rx_state (ap_rx (mtlk_addba_peer_on_addba_req_rx (ex_env 9) 100 5 32 9 0 0 0xFFFF ex_requested) 5)
     = MTLK_ADDBA_RX_ADDBA_NEGATIVE_RES_SENT"
  using addba_request_answered [OF ex_requested_inv ex_reflims(3) ex_requested_eval(2), of 5 "ex_env 9" "0xFFFF" 0 32 100 9 0] ex_requested_eval(4)
  by (simp add: ex_env_def MTLK_ADDBA_NOF_TIDs_def Let_def)

theorem addba_timeout_wraps_witness: "ADDBA_TU_TO_MS 65535 mod 2 ^ 16 = 1571"
  using addba_timeout_wraps [of 65535] by simp

theorem addba_delba_before_confirm_keeps_reordering_witness:
  "\<exists>p'. mtlk_addba_peer_on_delba_req_rx (ex_env 9) 5 True
       (upd_rx 5 (\<lambda>x. x\<lparr>rx_state := MTLK_ADDBA_RX_ADDBA_POSITIVE_RES_SENT\<rparr>) ex_requested) = Inr p'
    \<and> rx_state (ap_rx p' 5) = MTLK_ADDBA_RX_NONE"
proof -
  have "ap_active (upd_rx 5 (\<lambda>x. x\<lparr>rx_state := MTLK_ADDBA_RX_ADDBA_POSITIVE_RES_SENT\<rparr>) ex_requested)"
    using ex_requested_eval(2) by (simp add: upd_rx_def)
  from addba_delba_before_confirm_keeps_reordering [OF this, of 5 "ex_env 9"] show ?thesis
    by (auto simp: MTLK_ADDBA_NOF_TIDs_def)
qed

theorem addba_iterate_ends_overdue_requests_witness:
  "tx_state (ap_tx (mtlk_addba_peer_iterate (ex_env 4000) ex_confirmed) 0) = MTLK_ADDBA_TX_NONE"
proof -
  have "req_overdue (ex_env 4000) ex_confirmed 0"
    by (simp add: req_overdue_def ex_confirmed_eval ex_env_def mtlk_osal_ms_time_diff_def u32_sub_def u32_max_def addba_consts)
  then show ?thesis
    using addba_iterate_ends_overdue_requests [OF ex_confirmed_eval(1), of "ex_env 4000"] by auto
qed

end
