(* ===== verification/Startup.thy ===== *)
theory Startup
  imports Wave_Prelude
begin

text \<open>
  The start-up machinery of \<^verbatim>\<open>shared/mtlkstartup.h\<close>, with which every object of the driver is initialized and started.
  An object carries two bit fields, the steps done and the steps skipped, and a counter for each step that is a loop.  A
  step either succeeds, which is \<^term>\<open>None\<close>, or fails with the error the object returns.  A \<^verbatim>\<open>for\<close> loop over
  \<^verbatim>\<open>MTLK_START_STEP_LOOP\<close> is the list of its iterations.  The conditional variants of the loops and \<^verbatim>\<open>MTLK_START_STEP_VOID_LOOP\<close>,
  which counts in the counter of the initialization, are used by no object of the driver and are not represented; neither are the assertions
  on the order of the steps.
\<close>

section \<open>The macros\<close>

datatype 's fwd_item =
    Fwd_step nat "'s \<Rightarrow> bool" "'s \<Rightarrow> mtlk_error option \<times> 's"
  | Fwd_loop nat "'s \<Rightarrow> mtlk_error option \<times> 's"

datatype 's bwd_item =
    Bwd_step nat "'s \<Rightarrow> 's"
  | Bwd_loop nat "nat \<Rightarrow> 's \<Rightarrow> 's"

record marks =
  main_bits :: "nat set"
  skipped_bits :: "nat set"
  loop_ctr :: "nat \<Rightarrow> nat"
  outer_bit :: bool

definition set_main :: "nat \<Rightarrow> marks \<Rightarrow> marks" where
  "set_main i m = m\<lparr>main_bits := insert i (main_bits m)\<rparr>"

text \<open>\<^verbatim>\<open>_MTLK_FWD_STEP\<close>: the bit of a loop is set by its first iteration.\<close>
fun fwd_step :: "'s fwd_item \<Rightarrow> 's \<times> marks \<Rightarrow> mtlk_error option \<times> 's \<times> marks" where
  "fwd_step (Fwd_step i c f) (s, m) =
     (if c s then (case f s of (None, s') \<Rightarrow> (None, s', set_main i m) | (Some e, s') \<Rightarrow> (Some e, s', m))
      else (None, s, (set_main i m)\<lparr>skipped_bits := insert i (skipped_bits m)\<rparr>))"
| "fwd_step (Fwd_loop i f) (s, m) =
     (case f s of
        (None, s') \<Rightarrow> (None, s', (if loop_ctr m i = 0 then set_main i m else m)\<lparr>loop_ctr := (loop_ctr m)(i := loop_ctr m i + 1)\<rparr>)
      | (Some e, s') \<Rightarrow> (Some e, s', m))"

fun fwd_steps :: "'s fwd_item list \<Rightarrow> 's \<times> marks \<Rightarrow> mtlk_error \<times> 's \<times> marks" where
  "fwd_steps [] (s, m) = (MTLK_ERR_OK, s, m)"
| "fwd_steps (st # sts) (s, m) =
     (case fwd_step st (s, m) of
        (None, s', m') \<Rightarrow> fwd_steps sts (s', m')
      | (Some e, s', m') \<Rightarrow> (e, s', m'))"

text \<open>
  \<^verbatim>\<open>_MTLK_BWD_STEP\<close>, and the \<^verbatim>\<open>for\<close> loop over \<^verbatim>\<open>MTLK_STOP_STEP_LOOP\<close> while iterations are left: the counter of a loop
  is positive only while its bit is set, and loops are never skipped.
\<close>
fun bwd_step :: "'s bwd_item \<Rightarrow> 's \<times> marks \<Rightarrow> 's \<times> marks" where
  "bwd_step (Bwd_step i g) (s, m) =
     (if i \<in> main_bits m \<and> i \<notin> skipped_bits m then g s else s,
      if i \<in> main_bits m then m\<lparr>main_bits := main_bits m - {i}, skipped_bits := skipped_bits m - {i}\<rparr> else m)"
| "bwd_step (Bwd_loop i g) (s, m) =
     (fold g [0..<loop_ctr m i] s,
      if loop_ctr m i = 0 then m else m\<lparr>main_bits := main_bits m - {i}, skipped_bits := skipped_bits m - {i}, loop_ctr := (loop_ctr m)(i := 0)\<rparr>)"

definition bwd_steps :: "'s bwd_item list \<Rightarrow> 's \<times> marks \<Rightarrow> 's \<times> marks" where
  "bwd_steps sts sm = fold bwd_step sts (fst sm, (snd sm)\<lparr>outer_bit := False\<rparr>)"

text \<open>\<^verbatim>\<open>MTLK_START_TRY\<close> \dots \<^verbatim>\<open>MTLK_START_RETURN\<close>.\<close>
definition start_object :: "'s fwd_item list \<Rightarrow> 's bwd_item list \<Rightarrow> 's \<times> marks \<Rightarrow> mtlk_error \<times> 's \<times> marks" where
  "start_object fs bs sm =
     (let (res, s, m) = fwd_steps fs (fst sm, (snd sm)\<lparr>main_bits := {}, skipped_bits := {}\<rparr>);
          m' = m\<lparr>outer_bit := True\<rparr>
      in if res = MTLK_ERR_OK then (MTLK_ERR_OK, s, m') else (res, bwd_steps bs (s, m')))"

definition fresh_marks :: marks where
  "fresh_marks = \<lparr>main_bits = {}, skipped_bits = {}, loop_ctr = (\<lambda>_. 0), outer_bit = False\<rparr>"

section \<open>Rollback\<close>

fun fwd_index :: "'s fwd_item \<Rightarrow> nat" where
  "fwd_index (Fwd_step i c f) = i"
| "fwd_index (Fwd_loop i f) = i"

fun bwd_index :: "'s bwd_item \<Rightarrow> nat" where
  "bwd_index (Bwd_step i g) = i"
| "bwd_index (Bwd_loop i g) = i"

fun is_loop :: "'s fwd_item \<Rightarrow> bool" where
  "is_loop (Fwd_step i c f) = False"
| "is_loop (Fwd_loop i f) = True"

definition step_ids :: "'s fwd_item list \<Rightarrow> nat list" where
  "step_ids fs = map fwd_index (filter (\<lambda>f. \<not> is_loop f) fs)"

definition loop_ids :: "'s fwd_item list \<Rightarrow> nat set" where
  "loop_ids fs = fwd_index ` set (filter is_loop fs)"

lemma ids_simps [simp]:
  "step_ids [] = []" "step_ids (Fwd_step i c f # fs) = i # step_ids fs" "step_ids (Fwd_loop i f' # fs) = step_ids fs"
  "loop_ids [] = {}" "loop_ids (Fwd_step i c f # fs) = loop_ids fs" "loop_ids (Fwd_loop i f' # fs) = insert i (loop_ids fs)"
  by (simp_all add: step_ids_def loop_ids_def)

text \<open>
  What an object is meant to do, without any marks: its steps run in order until one fails; the list has the numbers of the steps that were run and succeeded, once
  for each iteration of a loop.
\<close>
fun plain_run :: "'s fwd_item list \<Rightarrow> 's \<Rightarrow> mtlk_error option \<times> 's \<times> nat list" where
  "plain_run [] s = (None, s, [])"
| "plain_run (Fwd_step i c f # fs) s =
     (if c s
      then (case f s of (Some e, s') \<Rightarrow> (Some e, s', []) | (None, s') \<Rightarrow> (case plain_run fs s' of (r, s'', done) \<Rightarrow> (r, s'', i # done)))
      else plain_run fs s)"
| "plain_run (Fwd_loop i f # fs) s =
     (case f s of (Some e, s') \<Rightarrow> (Some e, s', []) | (None, s') \<Rightarrow> (case plain_run fs s' of (r, s'', done) \<Rightarrow> (r, s'', i # done)))"

text \<open>The undo of a step if it was done, and of as many iterations of a loop as were.\<close>
fun undo_done :: "nat list \<Rightarrow> 's bwd_item \<Rightarrow> 's \<Rightarrow> 's" where
  "undo_done ds (Bwd_step i g) = (if i \<in> set ds then g else id)"
| "undo_done ds (Bwd_loop i g) = fold g [0..<count_list ds i]"

text \<open>
  The step lists of an object match: no number is used for two steps, every step has one undo, and steps that are loops are undone by loops.
\<close>
definition matching :: "'s fwd_item list \<Rightarrow> 's bwd_item list \<Rightarrow> bool" where
  "matching fs bs \<longleftrightarrow>
    distinct (step_ids fs) \<and> set (step_ids fs) \<inter> loop_ids fs = {} \<and>
    distinct (map bwd_index bs) \<and> set (step_ids fs) \<union> loop_ids fs \<subseteq> bwd_index ` set bs \<and>
    (\<forall>b\<in>set bs. case b of Bwd_step i g \<Rightarrow> i \<notin> loop_ids fs | Bwd_loop i g \<Rightarrow> i \<notin> set (step_ids fs))"

text \<open>The marks record what was done; \<open>L\<close> are the numbers of the loops.\<close>
definition marks_of :: "nat set \<Rightarrow> nat list \<Rightarrow> marks \<Rightarrow> bool" where
  "marks_of L ds m \<longleftrightarrow>
    skipped_bits m \<subseteq> main_bits m - L \<and>
    (\<forall>i. i \<notin> L \<longrightarrow> loop_ctr m i = 0 \<and> (i \<in> main_bits m - skipped_bits m \<longleftrightarrow> i \<in> set ds)) \<and>
    (\<forall>i\<in>L. loop_ctr m i = count_list ds i \<and> (i \<in> main_bits m \<longleftrightarrow> i \<in> set ds))"

lemma count_0 [simp]: "count_list ds i = 0 \<longleftrightarrow> i \<notin> set ds"
  by (rule count_list_0_iff)

lemma marks_done:
  assumes "marks_of L ds m" "i \<notin> L" "i \<notin> main_bits m"
  shows "marks_of L (ds @ [i]) (set_main i m)"
  using assms by (auto simp: marks_of_def set_main_def)

lemma marks_skipped:
  assumes "marks_of L ds m" "i \<notin> L" "i \<notin> main_bits m"
  shows "marks_of L ds ((set_main i m)\<lparr>skipped_bits := insert i (skipped_bits m)\<rparr>)"
  using assms by (auto simp: marks_of_def set_main_def)

lemma marks_iteration:
  assumes "marks_of L ds m" "i \<in> L"
  shows "marks_of L (ds @ [i]) ((if loop_ctr m i = 0 then set_main i m else m)\<lparr>loop_ctr := (loop_ctr m)(i := loop_ctr m i + 1)\<rparr>)"
proof -
  have ctr: "loop_ctr m i = count_list ds i" "i \<in> main_bits m \<longleftrightarrow> i \<in> set ds" using assms by (auto simp: marks_of_def)
  show ?thesis
    using assms ctr by (cases "i \<in> set ds") (auto simp: marks_of_def set_main_def)
qed

lemma fwd_steps_plain:
  assumes "marks_of L ds m" "distinct (step_ids fs)" "set (step_ids fs) \<inter> (L \<union> main_bits m) = {}" "loop_ids fs \<subseteq> L"
    "plain_run fs s = (r, s', ds')"
  shows "\<exists>m'. fwd_steps fs (s, m) = (case r of None \<Rightarrow> MTLK_ERR_OK | Some e \<Rightarrow> e, s', m') \<and> marks_of L (ds @ ds') m' \<and>
    main_bits m' \<subseteq> main_bits m \<union> set (step_ids fs) \<union> loop_ids fs"
  using assms
proof (induction fs s arbitrary: ds m ds' r s' rule: plain_run.induct)
  case (1 s)
  then show ?case by auto
next
  case (2 i c f fs s)
  have i: "i \<notin> L" "i \<notin> main_bits m" "i \<notin> set (step_ids fs)" using "2.prems" by auto
  show ?case
  proof (cases "c s")
    case False
    let ?m = "(set_main i m)\<lparr>skipped_bits := insert i (skipped_bits m)\<rparr>"
    have "marks_of L ds ?m" using marks_skipped "2.prems"(1) i by blast
    from "2.IH"(2) [OF False this] "2.prems" False i show ?thesis by (fastforce simp: set_main_def)
  next
    case True
    show ?thesis
    proof (cases "f s")
      case (Pair r1 s1)
      show ?thesis
      proof (cases r1)
        case (Some e)
        then show ?thesis using True Pair "2.prems" by auto
      next
        case None
        obtain r2 s2 ds2 where p: "plain_run fs s1 = (r2, s2, ds2)" by (metis prod_cases3)
        have m1: "marks_of L (ds @ [i]) (set_main i m)" using marks_done "2.prems"(1) i by blast
        have d: "r = r2" "s' = s2" "ds' = i # ds2" using True Pair None p "2.prems"(5) by auto
        from "2.IH"(1) [OF True Pair [symmetric] None m1 _ _ _ p] "2.prems" i True Pair None d show ?thesis
          by (fastforce simp: set_main_def)
      qed
    qed
  qed
next
  case (3 i f fs s)
  have i: "i \<in> L" using "3.prems" by auto
  show ?case
  proof (cases "f s")
    case (Pair r1 s1)
    show ?thesis
    proof (cases r1)
      case (Some e)
      then show ?thesis using Pair "3.prems" by auto
    next
      case None
      let ?m = "(if loop_ctr m i = 0 then set_main i m else m)\<lparr>loop_ctr := (loop_ctr m)(i := loop_ctr m i + 1)\<rparr>"
      obtain r2 s2 ds2 where p: "plain_run fs s1 = (r2, s2, ds2)" by (metis prod_cases3)
      have m1: "marks_of L (ds @ [i]) ?m" using marks_iteration "3.prems"(1) i by blast
      have d: "r = r2" "s' = s2" "ds' = i # ds2" using Pair None p "3.prems"(5) by auto
      have mb: "main_bits ?m \<subseteq> insert i (main_bits m)" by (auto simp: set_main_def)
      have "set (step_ids fs) \<inter> (L \<union> main_bits ?m) = {}" using "3.prems"(3) mb i by auto
      from "3.IH" [OF Pair [symmetric] None m1 _ this _ p] "3.prems" Pair None d mb show ?thesis by fastforce
    qed
  qed
qed

text \<open>What is undone for one step, by the marks.\<close>
fun undo :: "marks \<Rightarrow> 's bwd_item \<Rightarrow> 's \<Rightarrow> 's" where
  "undo m (Bwd_step i g) = (if i \<in> main_bits m \<and> i \<notin> skipped_bits m then g else id)"
| "undo m (Bwd_loop i g) = fold g [0..<loop_ctr m i]"

lemma bwd_step_other:
  assumes "bwd_step b (s, m) = (s', m')" "i \<noteq> bwd_index b"
  shows "i \<in> main_bits m' \<longleftrightarrow> i \<in> main_bits m" "i \<in> skipped_bits m' \<longleftrightarrow> i \<in> skipped_bits m" "loop_ctr m' i = loop_ctr m i"
  using assms by (cases b; auto split: if_splits)+

lemma bwd_step_undo: "fst (bwd_step b (s, m)) = undo m b s"
  by (cases b) auto

lemma bwd_steps_undo:
  "distinct (map bwd_index bs) \<Longrightarrow> fst (fold bwd_step bs (s, m)) = fold (undo m) bs s"
proof (induction bs arbitrary: s m)
  case (Cons b bs)
  obtain s1 m1 where b: "bwd_step b (s, m) = (s1, m1)" by fastforce
  have "undo m1 c = undo m c" if "c \<in> set bs" for c
  proof -
    have "bwd_index c \<in> bwd_index ` set bs" using that by (rule imageI)
    then have "bwd_index c \<noteq> bwd_index b" using Cons.prems by auto
    from bwd_step_other [OF b this] show ?thesis by (cases c) auto
  qed
  then have "fold (undo m1) bs s1 = fold (undo m) bs s1" by (intro fold_cong) auto
  then show ?case using Cons b bwd_step_undo [of b s m] by simp
qed simp

text \<open>The marks that belong to a step are gone after its undo.\<close>
definition unmarked :: "marks \<Rightarrow> nat \<Rightarrow> bool" where
  "unmarked m i \<longleftrightarrow> i \<notin> main_bits m \<and> i \<notin> skipped_bits m \<and> loop_ctr m i = 0"

lemma bwd_steps_unmark:
  assumes "distinct (map bwd_index bs)" "\<forall>i. i \<notin> bwd_index ` set bs \<longrightarrow> unmarked m i" "skipped_bits m \<subseteq> main_bits m"
    and "\<forall>b\<in>set bs. case b of Bwd_step i g \<Rightarrow> loop_ctr m i = 0 | Bwd_loop i g \<Rightarrow> (i \<in> main_bits m \<longleftrightarrow> 0 < loop_ctr m i)"
  shows "unmarked (snd (fold bwd_step bs (s, m))) i"
  using assms
proof (induction bs arbitrary: s m)
  case (Cons b bs)
  obtain s1 m1 where b: "bwd_step b (s, m) = (s1, m1)" by fastforce
  note other = bwd_step_other [OF b]
  have own: "unmarked m1 (bwd_index b)"
    using b Cons.prems(3,4) by (cases b) (auto simp: unmarked_def split: if_splits)
  have "unmarked m1 j" if "j \<notin> bwd_index ` set bs" for j
    using own other Cons.prems(2) that by (cases "j = bwd_index b") (auto simp: unmarked_def)
  moreover have "skipped_bits m1 \<subseteq> main_bits m1"
    using own other(1,2) Cons.prems(3) unfolding unmarked_def by (metis subset_iff)
  moreover have "\<forall>c\<in>set bs. case c of Bwd_step i g \<Rightarrow> loop_ctr m1 i = 0 | Bwd_loop i g \<Rightarrow> (i \<in> main_bits m1 \<longleftrightarrow> 0 < loop_ctr m1 i)"
  proof
    fix c assume c: "c \<in> set bs"
    then have "bwd_index c \<in> bwd_index ` set bs" by (rule imageI)
    then have "bwd_index c \<noteq> bwd_index b" using Cons.prems(1) by auto
    from other [OF this] c Cons.prems(4) show "case c of Bwd_step i g \<Rightarrow> loop_ctr m1 i = 0 | Bwd_loop i g \<Rightarrow> (i \<in> main_bits m1 \<longleftrightarrow> 0 < loop_ctr m1 i)"
      by (auto split: bwd_item.splits)
  qed
  ultimately show ?case using Cons.IH [of m1 s1] Cons.prems(1) b by simp
qed simp

lemma undo_marks_of:
  assumes "marks_of L ds m" "case b of Bwd_step i g \<Rightarrow> i \<notin> L | Bwd_loop i g \<Rightarrow> i \<in> L \<or> i \<notin> main_bits m"
  shows "undo m b = undo_done ds b"
proof (cases b)
  case (Bwd_loop i g)
  then have "loop_ctr m i = count_list ds i"
    using assms by (cases "i \<in> L") (auto simp: marks_of_def)
  then show ?thesis using Bwd_loop by simp
qed (use assms in \<open>auto simp: marks_of_def\<close>)

text \<open>The stop function of an object whose marks record \<open>ds\<close>.\<close>
lemma bwd_steps_done:
  assumes match: "matching fs bs" and m: "marks_of (loop_ids fs) ds m" "main_bits m \<subseteq> set (step_ids fs) \<union> loop_ids fs"
  shows "fst (bwd_steps bs (s, m)) = fold (undo_done ds) bs s" "unmarked (snd (bwd_steps bs (s, m))) i"
proof -
  let ?m = "m\<lparr>outer_bit := False\<rparr>"
  have m': "marks_of (loop_ids fs) ds ?m" "main_bits ?m \<subseteq> set (step_ids fs) \<union> loop_ids fs" using m by (auto simp: marks_of_def)
  have d: "distinct (map bwd_index bs)" and kinds: "\<And>b. b \<in> set bs \<Longrightarrow> case b of Bwd_step i g \<Rightarrow> i \<notin> loop_ids fs | Bwd_loop i g \<Rightarrow> i \<notin> set (step_ids fs)"
    and sub: "set (step_ids fs) \<union> loop_ids fs \<subseteq> bwd_index ` set bs"
    using match by (auto simp: matching_def)
  have "undo ?m b = undo_done ds b" if "b \<in> set bs" for b
    using kinds [OF that] m'(2) by (intro undo_marks_of [OF m'(1)]) (auto split: bwd_item.splits)
  then have "fold (undo ?m) bs s = fold (undo_done ds) bs s" by (intro fold_cong) auto
  then show "fst (bwd_steps bs (s, m)) = fold (undo_done ds) bs s"
    using bwd_steps_undo [OF d, of s ?m] by (simp add: bwd_steps_def)
  have "unmarked ?m j" if "j \<notin> bwd_index ` set bs" for j
    using that m' sub by (auto simp: unmarked_def marks_of_def)
  moreover have "\<forall>b\<in>set bs. case b of Bwd_step i g \<Rightarrow> loop_ctr ?m i = 0 | Bwd_loop i g \<Rightarrow> (i \<in> main_bits ?m \<longleftrightarrow> 0 < loop_ctr ?m i)"
  proof
    fix b assume "b \<in> set bs"
    from kinds [OF \<open>b \<in> set bs\<close>] show "case b of Bwd_step i g \<Rightarrow> loop_ctr ?m i = 0 | Bwd_loop i g \<Rightarrow> (i \<in> main_bits ?m \<longleftrightarrow> 0 < loop_ctr ?m i)"
    proof (cases b)
      case (Bwd_loop i g)
      then have "i \<notin> set (step_ids fs)" using \<open>b \<in> set bs\<close> kinds by fastforce
      then show ?thesis
        using m' Bwd_loop by (cases "i \<in> loop_ids fs") (auto simp: marks_of_def zero_less_iff_neq_zero)
    qed (use m' in \<open>auto simp: marks_of_def\<close>)
  qed
  moreover have "skipped_bits ?m \<subseteq> main_bits ?m" using m'(1) by (auto simp: marks_of_def)
  ultimately show "unmarked (snd (bwd_steps bs (s, m))) i"
    using bwd_steps_unmark [OF d, of ?m s i] by (simp add: bwd_steps_def)
qed

text \<open>
  C36: The marks of an object are as good as a record of what was done.  Starting an object runs its steps in order up to the first that fails.  If one fails
  with an error, exactly the steps and the loop iterations that were run before it and succeeded are undone, in the order of the stop function: not the failing step, not
  a step whose condition was false, nothing twice; the object returns the error of the failing step, and no mark is left. If none fails, the object
  is started, and its stop function will undo exactly the steps that were run. A step that fails with \<^verbatim>\<open>MTLK_ERR_OK\<close> as its error is not noticed: the start
  ends there, nothing is undone and success is returned.
\<close>
theorem startup_rolls_back_exactly:
  assumes "matching fs bs"
  shows "case plain_run fs s of
      (None, s', ds) \<Rightarrow> (\<exists>m. start_object fs bs (s, fresh_marks) = (MTLK_ERR_OK, s', m) \<and> fst (bwd_steps bs (s', m)) = fold (undo_done ds) bs s')
    | (Some e, s', ds) \<Rightarrow>
        (\<exists>m. if e = MTLK_ERR_OK then start_object fs bs (s, fresh_marks) = (MTLK_ERR_OK, s', m)
             else start_object fs bs (s, fresh_marks) = (e, fold (undo_done ds) bs s', m) \<and>
               main_bits m = {} \<and> skipped_bits m = {} \<and> loop_ctr m = (\<lambda>_. 0))"
proof -
  obtain r s' ds where p: "plain_run fs s = (r, s', ds)" by (metis prod_cases3)
  have "fresh_marks\<lparr>main_bits := {}, skipped_bits := {}\<rparr> = fresh_marks" by (simp add: fresh_marks_def)
  moreover obtain m where m: "fwd_steps fs (s, fresh_marks) = (case r of None \<Rightarrow> MTLK_ERR_OK | Some e \<Rightarrow> e, s', m)"
      "marks_of (loop_ids fs) ds m" "main_bits m \<subseteq> set (step_ids fs) \<union> loop_ids fs"
    using fwd_steps_plain [of "loop_ids fs" "[]" fresh_marks fs s r s' ds] assms p by (auto simp: matching_def marks_of_def fresh_marks_def)
  ultimately have run: "start_object fs bs (s, fresh_marks) =
      (let res = (case r of None \<Rightarrow> MTLK_ERR_OK | Some e \<Rightarrow> e); m' = m\<lparr>outer_bit := True\<rparr>
       in if res = MTLK_ERR_OK then (MTLK_ERR_OK, s', m') else (res, bwd_steps bs (s', m')))"
    by (cases r) (simp_all add: start_object_def Let_def)
  have "marks_of (loop_ids fs) ds (m\<lparr>outer_bit := True\<rparr>)" "main_bits (m\<lparr>outer_bit := True\<rparr>) \<subseteq> set (step_ids fs) \<union> loop_ids fs"
    using m(2,3) by (auto simp: marks_of_def)
  note B = bwd_steps_done [OF assms this]
  have "main_bits (snd (bwd_steps bs (s', m\<lparr>outer_bit := True\<rparr>))) = {}" "skipped_bits (snd (bwd_steps bs (s', m\<lparr>outer_bit := True\<rparr>))) = {}"
    "loop_ctr (snd (bwd_steps bs (s', m\<lparr>outer_bit := True\<rparr>))) = (\<lambda>_. 0)"
    using B(2) by (auto simp: unmarked_def)
  moreover have "bwd_steps bs (s', m\<lparr>outer_bit := True\<rparr>) = (fold (undo_done ds) bs s', snd (bwd_steps bs (s', m\<lparr>outer_bit := True\<rparr>)))"
    using B(1) by (simp add: prod_eq_iff)
  ultimately have failed: "\<exists>m'. bwd_steps bs (s', m\<lparr>outer_bit := True\<rparr>) = (fold (undo_done ds) bs s', m') \<and>
      main_bits m' = {} \<and> skipped_bits m' = {} \<and> loop_ctr m' = (\<lambda>_. 0)" by blast
  show ?thesis
  proof (cases r)
    case None
    then show ?thesis using p run B(1) by (simp add: Let_def)
  next
    case (Some e)
    then show ?thesis using p run failed by (cases "e = MTLK_ERR_OK") (simp_all add: Let_def)
  qed
qed

text \<open>
  An object with an allocation, a skipped step, a loop that fails at its third iteration and a step that is never reached.
\<close>
definition ex_fwd :: "nat list fwd_item list" where
  "ex_fwd = [Fwd_step 0 (\<lambda>_. True) (\<lambda>s. (None, s @ [10])), Fwd_step 1 (\<lambda>_. False) (\<lambda>s. (None, s @ [11])),
     Fwd_loop 2 (\<lambda>s. (None, s @ [20])), Fwd_loop 2 (\<lambda>s. (None, s @ [21])),
     Fwd_loop 2 (\<lambda>s. (Some MTLK_ERR_NO_MEM, s)), Fwd_step 3 (\<lambda>_. True) (\<lambda>s. (None, s @ [13]))]"

definition ex_bwd :: "nat list bwd_item list" where
  "ex_bwd = [Bwd_step 3 (\<lambda>s. s @ [113]), Bwd_loop 2 (\<lambda>j s. s @ [120 + j]), Bwd_step 1 (\<lambda>s. s @ [111]), Bwd_step 0 (\<lambda>s. s @ [110])]"

theorem startup_rolls_back_exactly_witness:
  "matching ex_fwd ex_bwd \<and>
   (\<exists>m. start_object ex_fwd ex_bwd ([], fresh_marks) = (MTLK_ERR_NO_MEM, [10, 20, 21, 120, 121, 110], m) \<and> main_bits m = {})"
proof -
  have m: "matching ex_fwd ex_bwd" by (auto simp: matching_def ex_fwd_def ex_bwd_def)
  have p: "plain_run ex_fwd [] = (Some MTLK_ERR_NO_MEM, [10, 20, 21], [0, 2, 2])" by (simp add: ex_fwd_def)
  have u: "fold (undo_done [0, 2, 2]) ex_bwd [10, 20, 21] = [10, 20, 21, 120, 121, 110]" by (simp add: ex_bwd_def upt_rec)
  show ?thesis using startup_rolls_back_exactly [OF m, of "[]"] m p u by auto
qed

end
