(* ===== verification/Station.thy ===== *)
theory Station
  imports Rod Addba Startup
begin

unbundle bit_operations_syntax

text \<open>
  A connected station, \<^verbatim>\<open>sta_entry\<close> of \<^verbatim>\<open>driver/shared/stadb.c\<close> and \<^verbatim>\<open>stadb.h\<close>: eight reordering queues, the block-ack
  peer whose callbacks drive them, the per-TID transmit counters that decide when aggregation is negotiated, the packet
  filter, the supervision timers and the beacon bookkeeping.  The station owns the block-ack peer: what the peer reports
  is handed to the callbacks below in the order in which it was reported; none of them touches the peer.
  Calls that leave the component are recorded in \<open>st_log\<close>.  The conversion of clock ticks to milliseconds is the argument
  \<open>to_ms\<close>, the clock is the argument \<open>now\<close>.  An index outside one of the arrays of eight is a fault.
\<close>

section \<open>Data\<close>

definition NTS_TIDS :: nat where "NTS_TIDS = 8"
definition DEFAULT_KEEPALIVE_TIMEOUT :: nat where "DEFAULT_KEEPALIVE_TIMEOUT = 1000"
definition DEFAULT_AGGR_OPEN_THRESHOLD :: nat where "DEFAULT_AGGR_OPEN_THRESHOLD = 5"
definition DEFAULT_BEACON_INTERVAL :: nat where "DEFAULT_BEACON_INTERVAL = 100"

datatype sta_info_cnt_id =
    MTLK_STAI_CNT_PACKETS_RECEIVED | MTLK_STAI_CNT_BYTES_RECEIVED | MTLK_STAI_CNT_PACKETS_SENT
  | MTLK_STAI_CNT_TX_PACKETS_DISCARDED_FW | MTLK_STAI_CNT_RX_PACKETS_DISCARDED_DRV_TOO_OLD
  | MTLK_STAI_CNT_RX_PACKETS_DISCARDED_DRV_DUPLICATE | MTLK_STAI_CNT_TX_PACKETS_DISCARDED_DRV_NO_RESOURCES
  | MTLK_STAI_CNT_TX_PACKETS_DISCARDED_SQ_OVERFLOW | MTLK_STAI_CNT_TX_PACKETS_DISCARDED_EAPOL_FILTER
  | MTLK_STAI_CNT_TX_PACKETS_DISCARDED_DROP_ALL_FILTER | MTLK_STAI_CNT_TX_PACKETS_DISCARDED_TX_QUEUE_OVERFLOW
  | MTLK_STAI_CNT_BYTES_SENT | MTLK_STAI_CNT_FWD_RX_PACKETS | MTLK_STAI_CNT_FWD_RX_BYTES
  | MTLK_STAI_CNT_UNICAST_PACKETS_SENT | MTLK_STAI_CNT_UNICAST_PACKETS_RECEIVED | MTLK_STAI_CNT_PS_MODE_ENTRANCES
  | MTLK_STAI_CNT_TX_PACKETS_DISCARDED_ACM | MTLK_STAI_CNT_TX_PACKETS_DISCARDED_EAPOL_CLONED
  | MTLK_STAI_CNT_ADDBA addba_cnt

datatype mtlk_pckt_filter = MTLK_PCKT_FLTR_ALLOW_ALL | MTLK_PCKT_FLTR_ALLOW_802_1X | MTLK_PCKT_FLTR_DISCARD_ALL

datatype sta_timer = Keepalive_timer | Idle_timer

datatype sta_event =
    On_sta_keepalive | On_sta_inactive | Schedule_revival nat
  | Process_tx_packet nat nat | Process_rx_packet nat | Process_rssi_sample nat
  | Sq_set_pm_enabled bool | Sq_peer_init nat | Sq_peer_cleanup
  | Timer_set sta_timer nat | Timer_cancel sta_timer
  | Irbd_init | Irbd_cleanup | Stat_handler_register | Stat_handler_unregister

text \<open>The fields of the database that the station reads.\<close>
record sta_params =
  sta_keepalive_timeout :: nat
  keepalive_interval :: nat
  aggr_open_threshold :: nat

record station =
  st_ref :: nat
  st_filter :: mtlk_pckt_filter
  st_dot11n :: bool
  st_cipher :: nat
  st_tstamp :: nat
  st_conn_tstamp :: nat
  st_rod :: "reordering_queue list"
  st_ba :: addba_peer
  st_tx_packets :: "nat list"
  st_aggr_inited :: "bool list"
  st_beacon_interval :: nat
  st_beacon_tstamp :: nat
  st_cnts :: "sta_info_cnt_id \<Rightarrow> nat"
  st_log :: "sta_event list"

definition sta_emit :: "sta_event \<Rightarrow> station \<Rightarrow> station" where
  "sta_emit e s = s\<lparr>st_log := st_log s @ [e]\<rparr>"

definition mtlk_sta_inc_cnt :: "sta_info_cnt_id \<Rightarrow> station \<Rightarrow> station" where
  "mtlk_sta_inc_cnt i s = s\<lparr>st_cnts := (st_cnts s)(i := u32_inc (st_cnts s i))\<rparr>"

definition mtlk_sta_add_cnt :: "sta_info_cnt_id \<Rightarrow> nat \<Rightarrow> station \<Rightarrow> station" where
  "mtlk_sta_add_cnt i v s = s\<lparr>st_cnts := (st_cnts s)(i := (st_cnts s i + v) mod u32_max)\<rparr>"

section \<open>Supervision timers\<close>

text \<open>The timers return the delay after which they are called again; 0 stops them.\<close>
definition mtlk_sta_keepalive_tmr :: "sta_params \<Rightarrow> (nat \<Rightarrow> nat) \<Rightarrow> nat \<Rightarrow> station \<Rightarrow> nat \<times> station" where
  "mtlk_sta_keepalive_tmr cfg to_ms now s =
     (let timeout = keepalive_interval cfg in
      if timeout = 0 then (DEFAULT_KEEPALIVE_TIMEOUT, s)
      else let msecs = to_ms (u32_sub now (st_tstamp s)) in
      if timeout \<le> msecs then (timeout, sta_emit On_sta_keepalive s) else (timeout - msecs, s))"

definition mtlk_sta_data_disconnect_tmr :: "sta_params \<Rightarrow> bool \<Rightarrow> (nat \<Rightarrow> nat) \<Rightarrow> nat \<Rightarrow> station \<Rightarrow> nat \<times> station" where
  "mtlk_sta_data_disconnect_tmr cfg inactivity_on to_ms now s =
     (let timeout = sta_keepalive_timeout cfg in
      if timeout = 0 then (DEFAULT_KEEPALIVE_TIMEOUT, s)
      else if \<not> inactivity_on then (timeout, s\<lparr>st_tstamp := now\<rparr>)
      else let msecs = to_ms (u32_sub now (st_tstamp s)) in
      if timeout \<le> msecs then (0, sta_emit On_sta_inactive s) else (timeout - msecs, s))"

section \<open>Reordering queues\<close>

type_synonym sta_state = "station \<times> mtlk_core"

text \<open>One queue of the station is replaced by the result of an operation on it.\<close>
definition on_rod :: "nat \<Rightarrow> (rod_state \<Rightarrow> (c_fault + rod_state) option) \<Rightarrow> sta_state \<Rightarrow> (c_fault + sta_state) option" where
  "on_rod i f sc =
     (let (s, c) = sc in
      if length (st_rod s) \<le> i then Some (Inl Out_of_bounds)
      else case f (st_rod s ! i, c) of
        None \<Rightarrow> None
      | Some (Inl e) \<Rightarrow> Some (Inl e)
      | Some (Inr (q, c')) \<Rightarrow> Some (Inr (s\<lparr>st_rod := (st_rod s)[i := q]\<rparr>, c')))"

definition mtlk_sta_destroy_rod_queue :: "os_env \<Rightarrow> nat \<Rightarrow> nat \<Rightarrow> sta_state \<Rightarrow> (c_fault + sta_state) option" where
  "mtlk_sta_destroy_rod_queue env now prio_id sc =
     on_rod prio_id (\<lambda>(q, c). if mtlk_is_used_rod_queue q \<noteq> 0 then mtlk_clear_rod_queue env now (q, c) else Some (Inr (q, c))) sc"

text \<open>\<open>wss_ok\<close> and \<open>open_res\<close>: the outcomes of the allocations of the queue's statistics.\<close>
definition mtlk_sta_create_rod_queue ::
    "os_env \<Rightarrow> nat \<Rightarrow> bool \<Rightarrow> mtlk_error \<Rightarrow> nat \<Rightarrow> nat \<Rightarrow> nat \<Rightarrow> sta_state \<Rightarrow> (c_fault + sta_state) option" where
  "mtlk_sta_create_rod_queue env now wss_ok open_res prio_id win_size ssn sc =
     (if NTS_TIDS \<le> prio_id then Some (Inr sc)
      else on_rod prio_id (\<lambda>qc. map_option (map_sum id snd) (mtlk_create_rod_queue env now wss_ok open_res win_size ssn qc)) sc)"

text \<open>A loop over the queues that stops at a fault.\<close>
fun on_rods :: "nat list \<Rightarrow> (rod_state \<Rightarrow> (c_fault + rod_state) option) \<Rightarrow> sta_state \<Rightarrow> (c_fault + sta_state) option" where
  "on_rods [] f sc = Some (Inr sc)"
| "on_rods (i # is) f sc =
     (case on_rod i f sc of None \<Rightarrow> None | Some (Inl e) \<Rightarrow> Some (Inl e) | Some (Inr sc') \<Rightarrow> on_rods is f sc')"

definition mtlk_sta_flush :: "os_env \<Rightarrow> nat \<Rightarrow> sta_state \<Rightarrow> (c_fault + sta_state) option" where
  "mtlk_sta_flush env now sc = on_rods [0..<NTS_TIDS] (mtlk_handle_rod_queue_timer env now) sc"

definition mtlk_sta_reorder_packet ::
    "os_env \<Rightarrow> (nat \<Rightarrow> nat) \<Rightarrow> nat \<Rightarrow> nat \<Rightarrow> nat \<Rightarrow> mtlk_nbuf \<Rightarrow> sta_state \<Rightarrow> (c_fault + sta_state) option" where
  "mtlk_sta_reorder_packet env to_ms now tid seq nb sc =
     on_rod tid (\<lambda>(q, c). Some (mtlk_reorder_packet env now seq nb (mtlk_rod_queue_set_last_rx_time (to_ms now) q, c))) sc"

definition mtlk_sta_process_bar :: "os_env \<Rightarrow> nat \<Rightarrow> nat \<Rightarrow> nat \<Rightarrow> sta_state \<Rightarrow> (c_fault + sta_state) option" where
  "mtlk_sta_process_bar env now tid ssn sc = on_rod tid (\<lambda>qc. Some (map_sum id snd (mtlk_rod_process_bar env now ssn qc))) sc"

definition mtlk_sta_zero_rod_reply_counters :: "station \<Rightarrow> station" where
  "mtlk_sta_zero_rod_reply_counters s = s\<lparr>st_rod := map mtlk_rod_queue_clear_reply_counter (st_rod s)\<rparr>"

section \<open>Transmit counters, filter, counters\<close>

definition mtlk_sta_reset_tx_cntrs :: "station \<Rightarrow> station" where
  "mtlk_sta_reset_tx_cntrs s = s\<lparr>st_tx_packets := map (\<lambda>_. 0) (st_tx_packets s)\<rparr>"

definition mtlk_sta_reset_aggr_inited :: "station \<Rightarrow> station" where
  "mtlk_sta_reset_aggr_inited s = s\<lparr>st_aggr_inited := map (\<lambda>_. False) (st_aggr_inited s)\<rparr>"

definition mtlk_sta_reset_cnts :: "station \<Rightarrow> station" where
  "mtlk_sta_reset_cnts s = s\<lparr>st_cnts := (\<lambda>_. 0)\<rparr>"

text \<open>The task is scheduled, or the failure to do so is logged and nothing else happens.\<close>
definition mtlk_sta_schedule_aggregation_revival_tid :: "bool \<Rightarrow> nat \<Rightarrow> station \<Rightarrow> station" where
  "mtlk_sta_schedule_aggregation_revival_tid sched_ok tid s = (if sched_ok then sta_emit (Schedule_revival tid) s else s)"

definition mtlk_sta_set_packets_filter :: "mtlk_pckt_filter \<Rightarrow> station \<Rightarrow> station" where
  "mtlk_sta_set_packets_filter f s =
     (if st_filter s \<noteq> f then mtlk_sta_reset_tx_cntrs (s\<lparr>st_filter := f\<rparr>) else s)"

definition mtlk_sta_addba_restart_tx_count_tid :: "nat \<Rightarrow> station \<Rightarrow> c_fault + station" where
  "mtlk_sta_addba_restart_tx_count_tid tid s =
     (if length (st_tx_packets s) \<le> tid \<or> length (st_aggr_inited s) \<le> tid then Inl Out_of_bounds
      else Inr (s\<lparr>st_tx_packets := (st_tx_packets s)[tid := 0], st_aggr_inited := (st_aggr_inited s)[tid := False]\<rparr>))"

definition mtlk_sta_update_tx :: "sta_params \<Rightarrow> bool \<Rightarrow> nat \<Rightarrow> station \<Rightarrow> c_fault + station" where
  "mtlk_sta_update_tx cfg sched_ok tid s =
     (if \<not> st_dot11n s then Inr s
      else if length (st_aggr_inited s) \<le> tid \<or> length (st_tx_packets s) \<le> tid then Inl Out_of_bounds
      else if st_aggr_inited s ! tid = False \<and> st_filter s = MTLK_PCKT_FLTR_ALLOW_ALL then
        (let n = u32_inc (st_tx_packets s ! tid);
             s1 = s\<lparr>st_tx_packets := (st_tx_packets s)[tid := n]\<rparr>
         in if n = aggr_open_threshold cfg then
              Inr (mtlk_sta_schedule_aggregation_revival_tid sched_ok tid
                (s1\<lparr>st_tx_packets := (st_tx_packets s1)[tid := 0], st_aggr_inited := (st_aggr_inited s1)[tid := True]\<rparr>))
            else Inr s1)
      else Inr s)"

definition mtlk_sta_on_packet_sent :: "nat \<Rightarrow> nat \<Rightarrow> bool \<Rightarrow> nat \<Rightarrow> station \<Rightarrow> station" where
  "mtlk_sta_on_packet_sent now len unicast retransmissions s =
     (let s1 = s\<lparr>st_tstamp := now\<rparr> in
      if len \<noteq> 0 then
        (let s2 = mtlk_sta_add_cnt MTLK_STAI_CNT_BYTES_SENT len (mtlk_sta_inc_cnt MTLK_STAI_CNT_PACKETS_SENT s1);
             s3 = (if unicast then mtlk_sta_inc_cnt MTLK_STAI_CNT_UNICAST_PACKETS_SENT s2 else s2)
         in sta_emit (Process_tx_packet len retransmissions) s3)
      else s1)"

definition mtlk_sta_on_packet_dropped :: "sta_info_cnt_id \<Rightarrow> station \<Rightarrow> station" where
  "mtlk_sta_on_packet_dropped reason s = mtlk_sta_inc_cnt reason s"

definition mtlk_sta_on_frame_arrived :: "nat \<Rightarrow> nat \<Rightarrow> station \<Rightarrow> station" where
  "mtlk_sta_on_frame_arrived now rssi s = sta_emit (Process_rssi_sample rssi) (s\<lparr>st_tstamp := now\<rparr>)"

definition mtlk_sta_on_packet_indicated :: "nat \<Rightarrow> bool \<Rightarrow> station \<Rightarrow> station" where
  "mtlk_sta_on_packet_indicated len unicast s =
     (let s1 = mtlk_sta_add_cnt MTLK_STAI_CNT_BYTES_RECEIVED len (mtlk_sta_inc_cnt MTLK_STAI_CNT_PACKETS_RECEIVED s);
          s2 = (if unicast then mtlk_sta_inc_cnt MTLK_STAI_CNT_UNICAST_PACKETS_RECEIVED s1 else s1)
      in sta_emit (Process_rx_packet len) s2)"

definition mtlk_sta_on_rx_packet_forwarded :: "nat \<Rightarrow> station \<Rightarrow> station" where
  "mtlk_sta_on_rx_packet_forwarded len s =
     mtlk_sta_add_cnt MTLK_STAI_CNT_FWD_RX_BYTES len (mtlk_sta_inc_cnt MTLK_STAI_CNT_FWD_RX_PACKETS s)"

text \<open>Returns the number of beacons missed since the last one, an \<^verbatim>\<open>int\<close> computed by an unsigned division.\<close>
definition mtlk_sta_update_beacon_interval :: "(nat \<Rightarrow> nat) \<Rightarrow> nat \<Rightarrow> nat \<Rightarrow> station \<Rightarrow> c_fault + nat \<times> station" where
  "mtlk_sta_update_beacon_interval to_ms now beacon_interval s =
     (let s1 = (if beacon_interval \<noteq> 0 then s\<lparr>st_beacon_interval := beacon_interval\<rparr> else s) in
      if st_beacon_tstamp s1 \<noteq> 0 then
        (if st_beacon_interval s1 = 0 then Inl Div_by_zero
         else Inr (to_ms (u32_sub now (st_beacon_tstamp s1)) div st_beacon_interval s1, s1\<lparr>st_beacon_tstamp := now\<rparr>))
      else Inr (0, s1\<lparr>st_beacon_tstamp := now\<rparr>))"

definition mtlk_sta_set_pm_enabled :: "bool \<Rightarrow> station \<Rightarrow> station" where
  "mtlk_sta_set_pm_enabled enabled s =
     (let s1 = sta_emit (Sq_set_pm_enabled enabled) s
      in if enabled then mtlk_sta_inc_cnt MTLK_STAI_CNT_PS_MODE_ENTRANCES s1 else s1)"

section \<open>Callbacks of the block-ack peer\<close>

text \<open>What the environment answers while the callbacks run.\<close>
record clb_env =
  clb_now :: nat
  clb_wss_ok :: bool
  clb_open_res :: mtlk_error
  clb_sched_ok :: bool

text \<open>The table \<^verbatim>\<open>addba_api\<close> of \<^verbatim>\<open>_mtlk_sta_init\<close>.\<close>
fun sta_addba_callback :: "os_env \<Rightarrow> clb_env \<Rightarrow> addba_event \<Rightarrow> sta_state \<Rightarrow> (c_fault + sta_state) option" where
  "sta_addba_callback env ce (On_stop_aggregation t) (s, c) = Some (map_sum id (\<lambda>s. (s, c)) (mtlk_sta_addba_restart_tx_count_tid t s))"
| "sta_addba_callback env ce (On_start_reordering t ssn w) sc =
     mtlk_sta_create_rod_queue env (clb_now ce) (clb_wss_ok ce) (clb_open_res ce) t w ssn sc"
| "sta_addba_callback env ce (On_stop_reordering t) sc = mtlk_sta_destroy_rod_queue env (clb_now ce) t sc"
| "sta_addba_callback env ce (On_ba_req_rejected t) (s, c) =
     Some (Inr (mtlk_sta_schedule_aggregation_revival_tid (clb_sched_ok ce) t s, c))"
| "sta_addba_callback env ce (On_ba_req_unconfirmed t) (s, c) = Some (map_sum id (\<lambda>s. (s, c)) (mtlk_sta_addba_restart_tx_count_tid t s))"
| "sta_addba_callback env ce _ sc = Some (Inr sc)"

fun sta_addba_callbacks :: "os_env \<Rightarrow> clb_env \<Rightarrow> addba_event list \<Rightarrow> sta_state \<Rightarrow> (c_fault + sta_state) option" where
  "sta_addba_callbacks env ce [] sc = Some (Inr sc)"
| "sta_addba_callbacks env ce (e # es) sc =
     (case sta_addba_callback env ce e sc of
        None \<Rightarrow> None | Some (Inl f) \<Rightarrow> Some (Inl f) | Some (Inr sc') \<Rightarrow> sta_addba_callbacks env ce es sc')"

text \<open>An operation of the block-ack peer and the callbacks it makes.\<close>
definition sta_with_peer :: "os_env \<Rightarrow> clb_env \<Rightarrow> (addba_peer \<Rightarrow> addba_peer) \<Rightarrow> sta_state \<Rightarrow> (c_fault + sta_state) option" where
  "sta_with_peer env ce f sc =
     (let (s, c) = sc; p = f (st_ba s)
      in sta_addba_callbacks env ce (drop (length (ap_log (st_ba s))) (ap_log p)) (s\<lparr>st_ba := p\<rparr>, c))"

text \<open>The argument \<^verbatim>\<open>get_last_rx_timestamp\<close> of the peer.\<close>
definition mtlk_sta_get_addba_last_rx_timestamp :: "nat \<Rightarrow> station \<Rightarrow> c_fault + nat" where
  "mtlk_sta_get_addba_last_rx_timestamp tid s =
     (if length (st_rod s) \<le> tid then Inl Out_of_bounds else Inr (mtlk_rod_queue_get_last_rx_time (st_rod s ! tid)))"

section \<open>Start and stop\<close>

type_synonym sta_run = "(c_fault + sta_state) option"

definition on_run :: "(sta_state \<Rightarrow> sta_run) \<Rightarrow> sta_run \<Rightarrow> sta_run" where
  "on_run f x = (case x of Some (Inr sc) \<Rightarrow> f sc | _ \<Rightarrow> x)"

definition on_sta :: "(station \<Rightarrow> station) \<Rightarrow> sta_run \<Rightarrow> sta_run" where
  "on_sta f = on_run (\<lambda>(s, c). Some (Inr (f s, c)))"

text \<open>What the steps of the start answer: the locks of the queues, the timers, the message bus and the statistics handler.\<close>
record start_env =
  lock_res :: "nat \<Rightarrow> mtlk_error"
  kalv_res :: mtlk_error
  idle_res :: mtlk_error
  irbd_res :: mtlk_error
  stat_handler :: bool

definition step_res :: "mtlk_error \<Rightarrow> ('s \<Rightarrow> 's) \<Rightarrow> 's \<Rightarrow> mtlk_error option \<times> 's" where
  "step_res r f x = (if r = MTLK_ERR_OK then (None, f x) else (Some r, x))"

text \<open>The assignments between the loop over the queues and the next step, which cannot fail.\<close>
definition sta_start_defaults :: "nat \<Rightarrow> bool \<Rightarrow> station \<Rightarrow> station" where
  "sta_start_defaults now dot11n_mode s =
     (mtlk_sta_set_packets_filter MTLK_PCKT_FLTR_ALLOW_ALL
       (s\<lparr>st_conn_tstamp := now, st_tstamp := now, st_dot11n := dot11n_mode, st_cipher := 0\<rparr>))
     \<lparr>st_beacon_interval := DEFAULT_BEACON_INTERVAL, st_beacon_tstamp := 0\<rparr>"

definition timer_delay :: "nat \<Rightarrow> nat" where
  "timer_delay v = (if v \<noteq> 0 then v else DEFAULT_KEEPALIVE_TIMEOUT)"

definition sta_start_steps ::
    "os_env \<Rightarrow> clb_env \<Rightarrow> sta_params \<Rightarrow> start_env \<Rightarrow> nat \<Rightarrow> bool \<Rightarrow> sta_run fwd_item list" where
  "sta_start_steps env ce cfg se addr dot11n_mode =
     map (\<lambda>i. Fwd_loop 0 (step_res (lock_res se i) id)) [0..<NTS_TIDS] @
     [Fwd_step 1 (\<lambda>_. True) (\<lambda>x. (None, on_sta (\<lambda>s. mtlk_sta_reset_tx_cntrs (sta_start_defaults (clb_now ce) dot11n_mode s)) x)),
      Fwd_step 2 (\<lambda>_. True) (\<lambda>x. (None, on_sta mtlk_sta_reset_aggr_inited x)),
      Fwd_step 3 (\<lambda>_. True) (\<lambda>x. (None, on_sta (sta_emit (Sq_peer_init 64)) x)),
      Fwd_step 4 (\<lambda>x. case x of Some (Inr (s, c)) \<Rightarrow> st_dot11n s | _ \<Rightarrow> False)
        (\<lambda>x. (None, on_run (sta_with_peer env ce (\<lambda>p. snd (mtlk_addba_peer_start addr p))) x)),
      Fwd_step 5 (\<lambda>_. True) (step_res (kalv_res se) (on_sta (sta_emit (Timer_set Keepalive_timer (timer_delay (keepalive_interval cfg)))))),
      Fwd_step 6 (\<lambda>_. True) (step_res (idle_res se) (on_sta (sta_emit (Timer_set Idle_timer (timer_delay (sta_keepalive_timeout cfg)))))),
      Fwd_step 7 (\<lambda>_. True) (step_res (irbd_res se) (on_sta (sta_emit Irbd_init))),
      Fwd_step 8 (\<lambda>_. True) (step_res (if stat_handler se then MTLK_ERR_OK else MTLK_ERR_UNKNOWN) (on_sta (sta_emit Stat_handler_register)))]"

definition sta_stop_steps :: "os_env \<Rightarrow> clb_env \<Rightarrow> sta_run bwd_item list" where
  "sta_stop_steps env ce =
     [Bwd_step 8 (on_sta (sta_emit Stat_handler_unregister)),
      Bwd_step 7 (on_sta (sta_emit Irbd_cleanup)),
      Bwd_step 6 (on_sta (sta_emit (Timer_cancel Idle_timer))),
      Bwd_step 5 (on_sta (sta_emit (Timer_cancel Keepalive_timer))),
      Bwd_step 4 (on_run (sta_with_peer env ce mtlk_addba_peer_stop)),
      Bwd_step 3 (on_sta (sta_emit Sq_peer_cleanup)),
      Bwd_step 2 id,
      Bwd_step 1 id,
      Bwd_loop 0 (\<lambda>i. on_run (mtlk_sta_destroy_rod_queue env (clb_now ce) i))]"

definition mtlk_sta_start ::
    "os_env \<Rightarrow> clb_env \<Rightarrow> sta_params \<Rightarrow> start_env \<Rightarrow> nat \<Rightarrow> bool \<Rightarrow> sta_run \<times> marks \<Rightarrow> mtlk_error \<times> sta_run \<times> marks" where
  "mtlk_sta_start env ce cfg se addr dot11n_mode xm =
     start_object (sta_start_steps env ce cfg se addr dot11n_mode) (sta_stop_steps env ce) xm"

definition mtlk_sta_stop :: "os_env \<Rightarrow> clb_env \<Rightarrow> sta_run \<times> marks \<Rightarrow> sta_run \<times> marks" where
  "mtlk_sta_stop env ce xm = bwd_steps (sta_stop_steps env ce) xm"

section \<open>Opening a reordering window\<close>

text \<open>The packets that wait in a queue, with or without an agreement.\<close>
definition rod_holds :: "reordering_queue \<Rightarrow> mtlk_nbuf list \<Rightarrow> bool" where
  "rod_holds q ps = (rod_idle q \<and> ps = [] \<or> (\<exists>w. rod_sim q w \<and> ps = held (snd w)))"

lemma rod_sim_used: "rod_sim q w \<Longrightarrow> used q = 1"
  by (simp add: rod_sim_def rod_inv_def rod_core_def)

lemma rod_create_used:
  assumes "rod_sim q w" "0 < W" "W \<le> MAX_REORD_WINDOW" "W dvd SEQUENCE_NUMBER_LIMIT" "ssn < SEQUENCE_NUMBER_LIMIT"
  shows "\<exists>q' c'. mtlk_create_rod_queue env now True MTLK_ERR_OK W ssn (q, c) = Some (Inr (MTLK_ERR_OK, q', c'))
    \<and> rod_sim q' (ssn, replicate W None) \<and> disposed c' = disposed c @ map nb_id (held (snd w))"
proof -
  obtain q1 c1 where cl: "mtlk_clear_rod_queue env now (q, c) = Some (Inr (q1, c1))" "rod_idle q1"
    "disposed c1 = disposed c @ map nb_id (held (snd w))"
    using rod_clear_idle [OF assms(1)] by blast
  then obtain q2 where f: "mtlk_flush_rod_queue env now (q, c) = Some (Inr (q2, c1))" "q1 = q2\<lparr>used := 0\<rparr>"
    using rod_sim_used [OF assms(1)] by (auto simp: mtlk_clear_rod_queue_def split: option.splits sum.splits)
  obtain q' where "mtlk_create_rod_queue env now True MTLK_ERR_OK W ssn (q1, c1) = Some (Inr (MTLK_ERR_OK, q', c1))"
    "rod_sim q' (ssn, replicate W None)"
    using rod_create_idle [OF cl(2) assms(2-5)] by blast
  then show ?thesis using f cl(3) rod_sim_used [OF assms(1)] by (auto simp: mtlk_create_rod_queue_def)
qed

lemma rod_holds_create:
  assumes "rod_holds q ps" "0 < W" "W \<le> MAX_REORD_WINDOW" "W dvd SEQUENCE_NUMBER_LIMIT" "ssn < SEQUENCE_NUMBER_LIMIT"
  shows "\<exists>q' c'. mtlk_create_rod_queue env now True MTLK_ERR_OK W ssn (q, c) = Some (Inr (MTLK_ERR_OK, q', c'))
    \<and> rod_sim q' (ssn, replicate W None) \<and> disposed c' = disposed c @ map nb_id ps"
  using assms(1) unfolding rod_holds_def
proof (elim disjE conjE exE)
  assume "rod_idle q" "ps = []"
  then show ?thesis using rod_create_idle [OF _ assms(2-5)] by fastforce
next
  fix w assume "rod_sim q w" "ps = held (snd w)"
  then show ?thesis using rod_create_used [OF _ assms(2-5)] by blast
qed

lemma rod_holds_clear:
  assumes "rod_holds q ps"
  shows "\<exists>q' c'. (if mtlk_is_used_rod_queue q \<noteq> 0 then mtlk_clear_rod_queue env now (q, c) else Some (Inr (q, c))) = Some (Inr (q', c'))
    \<and> rod_holds q' [] \<and> disposed c' = disposed c @ map nb_id ps"
proof -
  from assms consider (idle) "rod_idle q" "ps = []" | (busy) w where "rod_sim q w" "ps = held (snd w)"
    unfolding rod_holds_def by blast
  then show ?thesis
  proof cases
    case idle
    then show ?thesis by (auto simp: rod_holds_def rod_idle_def mtlk_is_used_rod_queue_def)
  next
    case busy
    then show ?thesis using rod_clear_idle [of q w env now c] rod_sim_used [of q w]
      by (auto simp: rod_holds_def mtlk_is_used_rod_queue_def)
  qed
qed

text \<open>The conditions under which a request for a block-ack agreement is accepted and the answer goes out.\<close>
definition addba_req_granted :: "addba_env \<Rightarrow> nat \<Rightarrow> nat \<Rightarrow> nat \<Rightarrow> addba_peer \<Rightarrow> bool" where
  "addba_req_granted e t ack_policy rate p =
     (ap_active p \<and> t < MTLK_ADDBA_NOF_TIDs \<and> mtlk_addba_is_allowed_rate rate \<and> accept_aggr (ad_cfg (ap_addba p) t) \<and> ack_policy \<noteq> 0
      \<and> rx_msg (ap_rx p t) = Msg_free \<and> msg_avail e t \<and> send_ok e t
      \<and> fst (mtlk_reflim_try_ref (reord_reflim (ap_addba (snd (mtlk_addba_peer_reset_rx_state t p))))))"

text \<open>Such a request makes the peer stop the former reordering, if there is one, and then start the new one.\<close>
lemma addba_req_granted_events:
  assumes "addba_req_granted e t ack_policy rate p"
  shows "\<exists>r st. drop (length (ap_log p)) (ap_log (mtlk_addba_peer_on_addba_req_rx e ssn t W dlgt tmout ack_policy rate p))
    = r # (if st then [On_stop_reordering t] else []) @ [On_start_reordering t ssn (mtlk_addba_correct_res_win_size W)]
    \<and> (\<forall>env ce sc. sta_addba_callback env ce r sc = Some (Inr sc))"
proof -
  let ?p0 = "cntr_inc MTLK_ADDBAPI_CNT_ADDBA_REQUEST_RX p"
  obtain st p1 where r: "mtlk_addba_peer_reset_rx_state t ?p0 = (st, p1)" by fastforce
  have p1: "ap_log p1 = ap_log p" "rx_msg (ap_rx p1 t) = rx_msg (ap_rx p t)" "ad_cfg (ap_addba p1) = ad_cfg (ap_addba p)"
    "reord_reflim (ap_addba p1) = reord_reflim (ap_addba (snd (mtlk_addba_peer_reset_rx_state t p)))"
    using r by (auto simp: mtlk_addba_peer_reset_rx_state_def cntr_inc_def cntr_dec_def upd_rx_def upd_addba_def split: if_splits)
  obtain rl where rl: "mtlk_reflim_try_ref (reord_reflim (ap_addba p1)) = (True, rl)"
    using assms p1(4) by (cases "mtlk_reflim_try_ref (reord_reflim (ap_addba p1))") (auto simp: addba_req_granted_def)
  have v: "addba_req_verdict t W ack_policy rate p1
      = (Some (mtlk_addba_correct_res_win_size W), upd_addba (\<lambda>a. a\<lparr>reord_reflim := rl\<rparr>) p1)"
    using assms p1(3) rl by (simp add: addba_req_verdict_def addba_req_granted_def)
  have "mtlk_addba_peer_on_addba_req_rx e ssn t W dlgt tmout ack_policy rate p
      = addba_req_answer e ssn t dlgt tmout st (addba_req_verdict t W ack_policy rate p1)"
    using assms p1 r by (simp add: mtlk_addba_peer_on_addba_req_rx_def Let_def addba_req_granted_def rx_msg_get_empty_def cntr_inc_def)
  then have "ap_log (mtlk_addba_peer_on_addba_req_rx e ssn t W dlgt tmout ack_policy rate p)
      = ap_log p @ Tx_addba_res t dlgt MTLK_ADDBA_RES_CODE_SUCCESS (Some (tmout, mtlk_addba_correct_res_win_size W))
        # (if st then [On_stop_reordering t] else []) @ [On_start_reordering t ssn (mtlk_addba_correct_res_win_size W)]"
    using assms p1(1) unfolding v
    by (simp add: addba_req_answer_def Let_def addba_req_granted_def cntr_inc_def ap_emit_def upd_rx_def upd_addba_def)
  then show ?thesis by auto
qed

lemma on_rodI:
  assumes "i < length (st_rod s)" "f (st_rod s ! i, c) = Some (Inr (q, c'))"
  shows "on_rod i f (s, c) = Some (Inr (s\<lparr>st_rod := (st_rod s)[i := q]\<rparr>, c'))"
  using assms by (simp add: on_rod_def)

lemma callbacks_append:
  "sta_addba_callbacks env ce (xs @ ys) sc = (case sta_addba_callbacks env ce xs sc of
     None \<Rightarrow> None | Some (Inl f) \<Rightarrow> Some (Inl f) | Some (Inr sc') \<Rightarrow> sta_addba_callbacks env ce ys sc')"
  by (induction xs arbitrary: sc) (auto split: option.split sum.split)

text \<open>The stop notification, if any, leaves the packets of the TID handed over or still waiting.\<close>
lemma callbacks_stop:
  assumes "t < length (st_rod s)" "rod_holds (st_rod s ! t) ps"
  shows "\<exists>q c' ps1 ps2. sta_addba_callbacks env ce (if st then [On_stop_reordering t] else []) (s, c)
      = Some (Inr (s\<lparr>st_rod := (st_rod s)[t := q]\<rparr>, c')) \<and> ps = ps1 @ ps2 \<and> rod_holds q ps2 \<and> disposed c' = disposed c @ map nb_id ps1"
proof (cases st)
  case True
  obtain q c' where "(if mtlk_is_used_rod_queue (st_rod s ! t) \<noteq> 0 then mtlk_clear_rod_queue env (clb_now ce) (st_rod s ! t, c)
      else Some (Inr (st_rod s ! t, c))) = Some (Inr (q, c'))" "rod_holds q []" "disposed c' = disposed c @ map nb_id ps"
    using rod_holds_clear [OF assms(2)] by blast
  moreover from this have "mtlk_sta_destroy_rod_queue env (clb_now ce) t (s, c) = Some (Inr (s\<lparr>st_rod := (st_rod s)[t := q]\<rparr>, c'))"
    unfolding mtlk_sta_destroy_rod_queue_def by (intro on_rodI [OF assms(1)]) simp
  ultimately show ?thesis using True
    by (intro exI [of _ q] exI [of _ c'] exI [of _ ps] exI [of _ "[]"]) simp
next
  case False
  then show ?thesis using assms(2)
    by (intro exI [of _ "st_rod s ! t"] exI [of _ c] exI [of _ "[]"] exI [of _ ps]) simp
qed

text \<open>The handler of a granted request, up to the creation of the new queue.\<close>
lemma station_addba_create:
  assumes "addba_req_granted e t ack_policy rate (st_ba s)" "length (st_rod s) = NTS_TIDS" "rod_holds (st_rod s ! t) ps"
  shows "\<exists>q c1 ps1 ps2. ps = ps1 @ ps2 \<and> rod_holds q ps2 \<and> disposed c1 = disposed c @ map nb_id ps1
    \<and> (\<forall>res q' c'. mtlk_create_rod_queue env (clb_now ce) (clb_wss_ok ce) (clb_open_res ce) (mtlk_addba_correct_res_win_size W) ssn (q, c1)
          = Some (Inr (res, q', c'))
        \<longrightarrow> sta_with_peer env ce (mtlk_addba_peer_on_addba_req_rx e ssn t W dlgt tmout ack_policy rate) (s, c)
          = Some (Inr (s\<lparr>st_ba := mtlk_addba_peer_on_addba_req_rx e ssn t W dlgt tmout ack_policy rate (st_ba s),
                      st_rod := (st_rod s)[t := q']\<rparr>, c')))"
proof -
  let ?p = "mtlk_addba_peer_on_addba_req_rx e ssn t W dlgt tmout ack_policy rate (st_ba s)"
  let ?s = "s\<lparr>st_ba := ?p\<rparr>"
  have t: "t < NTS_TIDS" "t < length (st_rod ?s)"
    using assms(1,2) by (auto simp: addba_req_granted_def NTS_TIDS_def MTLK_ADDBA_NOF_TIDs_def)
  obtain r st where ev: "drop (length (ap_log (st_ba s))) (ap_log ?p)
      = r # (if st then [On_stop_reordering t] else []) @ [On_start_reordering t ssn (mtlk_addba_correct_res_win_size W)]"
    "sta_addba_callback env ce r (?s, c) = Some (Inr (?s, c))"
    using addba_req_granted_events [OF assms(1)] by metis
  obtain q c1 ps1 ps2 where q: "sta_addba_callbacks env ce (if st then [On_stop_reordering t] else []) (?s, c)
      = Some (Inr (?s\<lparr>st_rod := (st_rod ?s)[t := q]\<rparr>, c1))" "ps = ps1 @ ps2" "rod_holds q ps2" "disposed c1 = disposed c @ map nb_id ps1"
    using callbacks_stop [OF t(2), of ps env ce st c] assms(3) by auto
  have "sta_with_peer env ce (mtlk_addba_peer_on_addba_req_rx e ssn t W dlgt tmout ack_policy rate) (s, c)
      = Some (Inr (?s\<lparr>st_rod := (st_rod s)[t := q']\<rparr>, c'))"
    if "mtlk_create_rod_queue env (clb_now ce) (clb_wss_ok ce) (clb_open_res ce) (mtlk_addba_correct_res_win_size W) ssn (q, c1)
      = Some (Inr (res, q', c'))" for res q' c'
    using ev q(1) that t
    by (simp add: sta_with_peer_def Let_def callbacks_append mtlk_sta_create_rod_queue_def on_rod_def)
  then show ?thesis using q(2-4) by auto
qed

text \<open>
  C8: A block-ack request that is accepted opens the reordering window it asks for.  Through the answer of the peer and the
  station's callbacks, the queue of the TID becomes an empty window of the requested size (64 when the request leaves it
  open), if it is at most 64 and divides the sequence space and the allocations of the callbacks succeed, at the requested sequence number, whatever agreement was there before; the packets that were waiting are handed
  over first, in order, and the queues of the other TIDs are untouched.
\<close>
theorem station_addba_opens_window:
  assumes "addba_req_granted e t ack_policy rate (st_ba s)" "length (st_rod s) = NTS_TIDS" "rod_holds (st_rod s ! t) ps"
    and "W' = (if W = 0 then 64 else W)" "W' \<le> MAX_REORD_WINDOW" "W' dvd SEQUENCE_NUMBER_LIMIT" "ssn < SEQUENCE_NUMBER_LIMIT"
    and "clb_wss_ok ce" "clb_open_res ce = MTLK_ERR_OK"
  shows "\<exists>s' c'. sta_with_peer env ce (mtlk_addba_peer_on_addba_req_rx e ssn t W dlgt tmout ack_policy rate) (s, c) = Some (Inr (s', c'))
    \<and> rod_sim (st_rod s' ! t) (ssn, replicate W' None) \<and> disposed c' = disposed c @ map nb_id ps
    \<and> (\<forall>i. i \<noteq> t \<longrightarrow> st_rod s' ! i = st_rod s ! i) \<and> length (st_rod s') = NTS_TIDS"
proof -
  have t: "t < length (st_rod s)"
    using assms(1,2) by (auto simp: addba_req_granted_def NTS_TIDS_def MTLK_ADDBA_NOF_TIDs_def)
  have W: "mtlk_addba_correct_res_win_size W = W'" "0 < W'"
    using assms(4) by (auto simp: mtlk_addba_correct_res_win_size_def addba_consts)
  obtain q c1 ps1 ps2 where q: "ps = ps1 @ ps2" "rod_holds q ps2" "disposed c1 = disposed c @ map nb_id ps1"
    "\<And>res q' c'. mtlk_create_rod_queue env (clb_now ce) True MTLK_ERR_OK W' ssn (q, c1) = Some (Inr (res, q', c'))
        \<Longrightarrow> sta_with_peer env ce (mtlk_addba_peer_on_addba_req_rx e ssn t W dlgt tmout ack_policy rate) (s, c)
          = Some (Inr (s\<lparr>st_ba := mtlk_addba_peer_on_addba_req_rx e ssn t W dlgt tmout ack_policy rate (st_ba s),
                      st_rod := (st_rod s)[t := q']\<rparr>, c'))"
    using station_addba_create [OF assms(1-3), of c env ce W ssn dlgt tmout] assms(8,9) W(1) by auto
  obtain q' c' where q': "mtlk_create_rod_queue env (clb_now ce) True MTLK_ERR_OK W' ssn (q, c1) = Some (Inr (MTLK_ERR_OK, q', c'))"
    "rod_sim q' (ssn, replicate W' None)" "disposed c' = disposed c1 @ map nb_id ps2"
    using rod_holds_create [OF q(2) W(2) assms(5-7)] by blast
  show ?thesis using q(1,3) q(4) [OF q'(1)] q'(2,3) t assms(2) by auto
qed

lemma rod_holds_create_any:
  assumes "rod_holds q ps"
  shows "\<exists>q2 c'. mtlk_create_rod_queue env now True MTLK_ERR_OK W ssn (q, c) = Some (Inr (MTLK_ERR_OK,
    q2\<lparr>used := 1, q_count := 0, head := ssn, window_size := W, last_sent := now, rod_stats := zero_stats, wss_cntrs := (\<lambda>_. 0)\<rparr>, c'))"
proof -
  from assms consider (idle) "rod_idle q" | (busy) w where "rod_sim q w" unfolding rod_holds_def by blast
  then show ?thesis
  proof cases
    case idle
    then show ?thesis by (auto simp: rod_idle_def mtlk_create_rod_queue_def)
  next
    case busy
    then obtain q1 c1 where "mtlk_clear_rod_queue env now (q, c) = Some (Inr (q1, c1))" using rod_clear_idle by blast
    then show ?thesis using rod_sim_used [OF busy]
      by (auto simp: mtlk_clear_rod_queue_def mtlk_create_rod_queue_def split: option.splits sum.splits)
  qed
qed

text \<open>
  C9: The window of a block-ack request is not checked.  For every window above 64, a request that the peer accepts opens a
  queue in which a packet of the window whose slot is 64 or more is stored outside \<^verbatim>\<open>nbuf[64]\<close>: a station can make the
  driver write beyond the array.
\<close>
theorem station_addba_window_overruns:
  assumes "addba_req_granted e t ack_policy rate (st_ba s)" "length (st_rod s) = NTS_TIDS" "rod_holds (st_rod s ! t) ps"
    and "64 < W" "SEQ_DISTANCE ssn seq < W" "W \<le> 255" "64 \<le> seq mod W" "clb_wss_ok ce" "clb_open_res ce = MTLK_ERR_OK"
  shows "\<exists>s' c'. sta_with_peer env ce (mtlk_addba_peer_on_addba_req_rx e ssn t W dlgt tmout ack_policy rate) (s, c) = Some (Inr (s', c'))
    \<and> mtlk_sta_reorder_packet env to_ms now t seq nb (s', c') = Some (Inl Out_of_bounds)"
proof -
  have t: "t < length (st_rod s)"
    using assms(1,2) by (auto simp: addba_req_granted_def NTS_TIDS_def MTLK_ADDBA_NOF_TIDs_def)
  have W: "mtlk_addba_correct_res_win_size W = W" using assms(4) by (simp add: mtlk_addba_correct_res_win_size_def)
  obtain q c1 ps2 where q: "rod_holds q ps2"
    "\<And>res q' c'. mtlk_create_rod_queue env (clb_now ce) True MTLK_ERR_OK W ssn (q, c1) = Some (Inr (res, q', c'))
        \<Longrightarrow> sta_with_peer env ce (mtlk_addba_peer_on_addba_req_rx e ssn t W dlgt tmout ack_policy rate) (s, c)
          = Some (Inr (s\<lparr>st_ba := mtlk_addba_peer_on_addba_req_rx e ssn t W dlgt tmout ack_policy rate (st_ba s),
                      st_rod := (st_rod s)[t := q']\<rparr>, c'))"
    using station_addba_create [OF assms(1-3), of c env ce W ssn dlgt tmout] assms(8,9) W by auto
  obtain q2 c' where q2: "mtlk_create_rod_queue env (clb_now ce) True MTLK_ERR_OK W ssn (q, c1) = Some (Inr (MTLK_ERR_OK,
      q2\<lparr>used := 1, q_count := 0, head := ssn, window_size := W, last_sent := clb_now ce, rod_stats := zero_stats, wss_cntrs := (\<lambda>_. 0)\<rparr>, c'))"
    using rod_holds_create_any [OF q(1)] by blast
  have "mtlk_reorder_packet env now seq nb (mtlk_rod_queue_set_last_rx_time (to_ms now)
      (q2\<lparr>used := 1, q_count := 0, head := ssn, window_size := W, last_sent := clb_now ce, rod_stats := zero_stats, wss_cntrs := (\<lambda>_. 0)\<rparr>), c')
      = Inl Out_of_bounds"
    using assms(4-7)
    by (simp add: mtlk_reorder_packet_def mtlk_rod_queue_set_last_rx_time_def rod_insert_def Let_def rod_consts)
  then show ?thesis using q(2) [OF q2] t by (auto simp: mtlk_sta_reorder_packet_def on_rod_def)
qed

section \<open>Opening aggregation\<close>

fun update_txs :: "sta_params \<Rightarrow> nat \<Rightarrow> nat \<Rightarrow> station \<Rightarrow> c_fault + station" where
  "update_txs cfg tid 0 s = Inr s"
| "update_txs cfg tid (Suc n) s = bind_result (mtlk_sta_update_tx cfg True tid s) (update_txs cfg tid n)"

definition tx_ready :: "nat \<Rightarrow> station \<Rightarrow> bool" where
  "tx_ready tid s = (st_dot11n s \<and> st_filter s = MTLK_PCKT_FLTR_ALLOW_ALL \<and> tid < length (st_tx_packets s) \<and> tid < length (st_aggr_inited s))"

lemma update_tx_inited:
  assumes "tx_ready tid s" "st_aggr_inited s ! tid"
  shows "update_txs cfg tid n s = Inr s"
  using assms by (induction n) (auto simp: mtlk_sta_update_tx_def tx_ready_def bind_result_def)

lemma update_txs_counting:
  assumes "tx_ready tid s" "\<not> st_aggr_inited s ! tid" "st_tx_packets s ! tid + n < k" "k < u32_max" "aggr_open_threshold cfg = k"
  shows "update_txs cfg tid n s = Inr (s\<lparr>st_tx_packets := (st_tx_packets s)[tid := st_tx_packets s ! tid + n]\<rparr>)"
  using assms
proof (induction n arbitrary: s)
  case 0
  then show ?case by simp
next
  case (Suc n)
  have "mtlk_sta_update_tx cfg True tid s = Inr (s\<lparr>st_tx_packets := (st_tx_packets s)[tid := st_tx_packets s ! tid + 1]\<rparr>)"
    using Suc.prems by (simp add: mtlk_sta_update_tx_def tx_ready_def Let_def u32_simps)
  then show ?case using Suc.IH [of "s\<lparr>st_tx_packets := (st_tx_packets s)[tid := st_tx_packets s ! tid + 1]\<rparr>"] Suc.prems
    by (simp add: tx_ready_def bind_result_def)
qed

lemma update_txs_add: "update_txs cfg tid (m + n) s = bind_result (update_txs cfg tid m s) (update_txs cfg tid n)"
  by (induction m arbitrary: s) (auto simp: bind_result_def split: sum.split)

text \<open>
  Aggregation is negotiated once, at the configured number of packets.  A station that supports it, whose filter lets
  all packets pass and whose counter of the TID is at zero, schedules the negotiation exactly at the packet that reaches
  the threshold and not again, however many packets follow; once the agreement is gone, the count starts over.
\<close>
lemma station_opens_aggregation_once:
  assumes "tx_ready tid s" "\<not> st_aggr_inited s ! tid" "st_tx_packets s ! tid = 0" "aggr_open_threshold cfg = k" "0 < k" "k < u32_max"
  shows "\<exists>s1. update_txs cfg tid n s = Inr s1
    \<and> st_log s1 = st_log s @ (if n < k then [] else [Schedule_revival tid])
    \<and> (\<exists>s2. mtlk_sta_addba_restart_tx_count_tid tid s1 = Inr s2 \<and> tx_ready tid s2 \<and> \<not> st_aggr_inited s2 ! tid \<and> st_tx_packets s2 ! tid = 0)"
proof (cases "n < k")
  case True
  then show ?thesis using assms update_txs_counting [OF assms(1,2) _ assms(6,4), of n]
    by (auto simp: tx_ready_def mtlk_sta_addba_restart_tx_count_tid_def)
next
  case False
  obtain k' where k': "k = Suc k'" using assms(5) by (cases k) auto
  let ?s = "s\<lparr>st_tx_packets := (st_tx_packets s)[tid := k']\<rparr>"
  let ?u = "sta_emit (Schedule_revival tid) (s\<lparr>st_tx_packets := (st_tx_packets s)[tid := 0], st_aggr_inited := (st_aggr_inited s)[tid := True]\<rparr>)"
  have "update_txs cfg tid k' s = Inr ?s"
    using update_txs_counting [OF assms(1,2) _ assms(6,4), of k'] assms(3) k' by simp
  moreover have "mtlk_sta_update_tx cfg True tid ?s = Inr ?u"
    using assms k' by (simp add: mtlk_sta_update_tx_def tx_ready_def Let_def u32_simps mtlk_sta_schedule_aggregation_revival_tid_def)
  moreover have "update_txs cfg tid m ?u = Inr ?u" for m
    using assms(1) by (intro update_tx_inited) (auto simp: tx_ready_def sta_emit_def)
  ultimately have "update_txs cfg tid (k' + Suc (n - k)) s = Inr ?u" by (simp only: update_txs_add update_txs.simps bind_result_simps)
  moreover have "k' + Suc (n - k) = n" using False k' by simp
  ultimately have "update_txs cfg tid n s = Inr ?u" by (simp only:)
  then show ?thesis using assms False
    by (intro exI [of _ ?u]) (simp add: tx_ready_def sta_emit_def mtlk_sta_addba_restart_tx_count_tid_def)
qed

section \<open>Examples\<close>

definition ex_station :: station where
  "ex_station = \<lparr>st_ref = 1, st_filter = MTLK_PCKT_FLTR_ALLOW_ALL, st_dot11n = True, st_cipher = 0, st_tstamp = 0, st_conn_tstamp = 0,
     st_rod = replicate 8 ex_queue, st_ba = ex_peer0\<lparr>ap_active := True\<rparr>, st_tx_packets = replicate 8 0, st_aggr_inited = replicate 8 False,
     st_beacon_interval = 100, st_beacon_tstamp = 0, st_cnts = (\<lambda>_. 0), st_log = []\<rparr>"

definition ex_clb :: clb_env where
  "ex_clb = \<lparr>clb_now = 0, clb_wss_ok = True, clb_open_res = MTLK_ERR_OK, clb_sched_ok = True\<rparr>"

definition ex_params :: sta_params where
  "ex_params = \<lparr>sta_keepalive_timeout = 60000, keepalive_interval = 30000, aggr_open_threshold = DEFAULT_AGGR_OPEN_THRESHOLD\<rparr>"

lemma ex_granted: "addba_req_granted (ex_env 9) 5 1 0xFFFF (st_ba ex_station)"
  by (simp add: addba_req_granted_def ex_station_def ex_defs addba_consts mtlk_addba_is_allowed_rate_def
      mtlk_addba_peer_reset_rx_state_def mtlk_reflim_init_def mtlk_reflim_try_ref_def Let_def u32_inc_def u32_max_def)

lemma ex_holds: "rod_holds (st_rod ex_station ! 5) []" "length (st_rod ex_station) = NTS_TIDS"
  using ex_queue_idle by (simp_all add: rod_holds_def ex_station_def NTS_TIDS_def)

theorem station_addba_opens_window_witness:
  "\<exists>s' c'. sta_with_peer linux_env ex_clb (mtlk_addba_peer_on_addba_req_rx (ex_env 9) 100 5 0 7 0 1 0xFFFF) (ex_station, ex_core) = Some (Inr (s', c'))
    \<and> rod_sim (st_rod s' ! 5) (100, replicate 64 None)"
  using station_addba_opens_window [OF ex_granted ex_holds(2,1), of 64 0 100 ex_clb linux_env 7 0 ex_core]
  by (auto simp: ex_clb_def rod_consts)

theorem station_addba_window_overruns_witness:
  "\<exists>s' c'. sta_with_peer linux_env ex_clb (mtlk_addba_peer_on_addba_req_rx (ex_env 9) 0 5 128 7 0 1 0xFFFF) (ex_station, ex_core) = Some (Inr (s', c'))
    \<and> mtlk_sta_reorder_packet linux_env id 1 5 64 (ex_pkt 3) (s', c') = Some (Inl Out_of_bounds)"
  using station_addba_window_overruns [OF ex_granted ex_holds(2,1), of 128 0 64 ex_clb linux_env 7 0 ex_core id 1 "ex_pkt 3"]
  by (simp add: ex_clb_def rod_consts SEQ_DISTANCE_def u32_sub_def u32_max_def)

theorem station_opens_aggregation_once_witness:
  "\<exists>s1. update_txs ex_params 3 7 ex_station = Inr s1 \<and> st_log s1 = [Schedule_revival 3]"
  using station_opens_aggregation_once [of 3 ex_station ex_params 5 7]
  by (auto simp: tx_ready_def ex_station_def ex_params_def DEFAULT_AGGR_OPEN_THRESHOLD_def u32_max_def)

end
