(* ===== verification/Station_Safe.thy ===== *)
theory Station_Safe
  imports Station
begin

text \<open>
  A station over its whole life: every run of receptions, transmissions, timers and block-ack operations keeps the station
  well formed, indexes no array outside its bounds, divides by nothing that is zero and ends, as long as the windows
  that the peer asks for divide the sequence space and fit the array.
\<close>

section \<open>Queues stay well formed\<close>

definition rod_typed :: "reordering_queue \<Rightarrow> bool" where
  "rod_typed q = (rod_idle q \<or> (\<exists>w. rod_sim q w))"

lemma rod_typed_holds: "rod_typed q \<longleftrightarrow> (\<exists>ps. rod_holds q ps)"
  by (auto simp: rod_typed_def rod_holds_def)

lemma rod_typedI: "rod_sim q w \<Longrightarrow> rod_typed q"
  by (auto simp only: rod_typed_def)

text \<open>The absolute position of a window is only known up to the length of the sequence space.\<close>
lemma rod_sim_shift:
  assumes "rod_sim q (A, ws)"
  shows "rod_sim q (A + SEQUENCE_NUMBER_LIMIT, ws)"
proof -
  have "window_size q dvd SEQUENCE_NUMBER_LIMIT" using rod_simD(1) [OF assms] by (simp add: rod_core_def)
  then obtain k where k: "SEQUENCE_NUMBER_LIMIT = window_size q * k" by (rule dvdE)
  have "(A + SEQUENCE_NUMBER_LIMIT + i) mod window_size q = (A + i) mod window_size q" for i
    unfolding k by (metis add.assoc add.commute mod_mult_self2)
  then have "win_of (A + SEQUENCE_NUMBER_LIMIT) q = win_of A q" by (simp add: win_of_def)
  then show ?thesis using assms by (simp add: rod_sim_def rod_pos_def)
qed

lemma reach_residue:
  assumes "seq < 4096"
  obtains n where "within_reach (A + 4096) n" "n mod 4096 = seq"
proof -
  obtain k a where A: "A = 4096 * k + a" "a < 4096" using mod_less_divisor [of 4096 A] by (metis mult_div_mod_eq zero_less_numeral)
  have m: "(4096 * j + seq) mod 4096 = seq" for j using assms by simp
  consider "a + 2048 < seq" | "seq + 2048 \<le> a" | "seq \<le> a + 2048" "a < seq + 2048" by linarith
  then show ?thesis
  proof cases
    case 1
    then show ?thesis using that [OF _ m [of "k"]] A assms by (simp add: within_reach_def)
  next
    case 2
    then show ?thesis using that [OF _ m [of "k + 2"]] A assms by (simp add: within_reach_def)
  next
    case 3
    then show ?thesis using that [OF _ m [of "k + 1"]] A assms by (simp add: within_reach_def)
  qed
qed

lemma rod_sim_reach:
  assumes "rod_sim q w" "seq < SEQUENCE_NUMBER_LIMIT"
  obtains w' n where "rod_sim q w'" "within_reach (fst w') n" "n mod SEQUENCE_NUMBER_LIMIT = seq"
proof -
  have "rod_sim q (fst w + SEQUENCE_NUMBER_LIMIT, snd w)" using rod_sim_shift [of q "fst w" "snd w"] assms(1) by simp
  moreover obtain n where "within_reach (fst w + 4096) n" "n mod 4096 = seq"
    using reach_residue [of seq "fst w"] assms(2) by (auto simp: SEQUENCE_NUMBER_LIMIT_def)
  ultimately show ?thesis using that [of "(fst w + SEQUENCE_NUMBER_LIMIT, snd w)" n] by (simp add: SEQUENCE_NUMBER_LIMIT_def)
qed

lemma sendup_rsc_ok:
  assumes "rsc_ok r"
  shows "rsc_ok (snd (snd (mtlk_detect_replay_or_sendup env c nb r)))"
proof -
  obtain res c' r' where r: "mtlk_detect_replay_or_sendup env c nb r = (res, c', r')" by (metis prod_cases3)
  show ?thesis using sendup_verdict [OF assms r] assms by (auto simp: r split: option.splits if_splits)
qed

lemma rod_typed_packet:
  assumes "rod_typed q" "seq < SEQUENCE_NUMBER_LIMIT"
  shows "\<exists>q' c'. mtlk_reorder_packet env now seq nb (q, c) = Inr (q', c') \<and> rod_typed q'"
proof (cases "rod_idle q")
  case True
  then show ?thesis using sendup_rsc_ok [of "rsc q" env c nb]
    by (auto simp: mtlk_reorder_packet_def rod_typed_def rod_idle_def split: prod.split)
next
  case False
  then obtain w0 where "rod_sim q w0" using assms(1) by (auto simp: rod_typed_def)
  from rod_sim_reach [OF this assms(2)] obtain w n where w: "rod_sim q w" "within_reach (fst w) n" "n mod SEQUENCE_NUMBER_LIMIT = seq" by metis
  obtain rel drp w' where "spec_receive n nb w = (rel, drp, w')" by (metis prod_cases3)
  from mtlk_reorder_packet_refines [OF w(1,2) this, of env now c] w(3) show ?thesis by (auto intro: rod_typedI)
qed

lemma rod_typed_bar:
  assumes "rod_typed q" "ssn < SEQUENCE_NUMBER_LIMIT"
  shows "\<exists>r q' c'. mtlk_rod_process_bar env now ssn (q, c) = Inr (r, q', c') \<and> rod_typed q'"
proof (cases "rod_idle q")
  case True
  then show ?thesis by (auto simp: mtlk_rod_process_bar_def rod_typed_def rod_idle_def)
next
  case False
  then obtain w0 where "rod_sim q w0" using assms(1) by (auto simp: rod_typed_def)
  from rod_sim_reach [OF this assms(2)] obtain w n where w: "rod_sim q w" "within_reach (fst w) n" "n mod SEQUENCE_NUMBER_LIMIT = ssn" by metis
  obtain rel w' where "spec_bar n w = (rel, w')" by (metis surj_pair)
  from mtlk_rod_process_bar_refines [OF w(1,2) this, of env now c] w(3) show ?thesis by (auto intro: rod_typedI)
qed

lemma rod_typed_timer:
  assumes "rod_typed q"
  shows "\<exists>q' c'. mtlk_handle_rod_queue_timer env now (q, c) = Some (Inr (q', c')) \<and> rod_typed q'"
proof (cases "rod_idle q")
  case True
  then show ?thesis by (auto simp: mtlk_handle_rod_queue_timer_def rod_typed_def rod_idle_def)
next
  case False
  then obtain w where "rod_sim q w" using assms(1) by (auto simp: rod_typed_def)
  from rod_step_refines [OF this, of Flush_timer env now c] show ?thesis by (auto intro: rod_typedI)
qed

section \<open>What the block-ack peer reports\<close>

definition window_ok :: "nat \<Rightarrow> bool" where
  "window_ok W = (0 < W \<and> W \<le> MAX_REORD_WINDOW \<and> W dvd SEQUENCE_NUMBER_LIMIT)"

fun event_ok :: "addba_event \<Rightarrow> bool" where
  "event_ok (On_stop_aggregation t) = (t < MTLK_ADDBA_NOF_TIDs)"
| "event_ok (On_start_reordering t ssn W) = (t < MTLK_ADDBA_NOF_TIDs \<and> ssn < SEQUENCE_NUMBER_LIMIT \<and> window_ok W)"
| "event_ok (On_stop_reordering t) = (t < MTLK_ADDBA_NOF_TIDs)"
| "event_ok (On_ba_req_unconfirmed t) = (t < MTLK_ADDBA_NOF_TIDs)"
| "event_ok _ = True"

text \<open>From \<open>p\<close> to \<open>q\<close> only acceptable events were added to the log.\<close>
definition reports :: "addba_peer \<Rightarrow> addba_peer \<Rightarrow> bool" where
  "reports p q = (\<exists>es. ap_log q = ap_log p @ es \<and> list_all event_ok es)"

lemma reports_refl [simp]: "reports p p"
  by (simp add: reports_def)

lemma reports_emit: "reports p q \<Longrightarrow> event_ok e \<Longrightarrow> reports p (ap_emit e q)"
  by (auto simp: reports_def ap_emit_def)

lemma reports_frame [simp]:
  "reports p (upd_tx t f q) = reports p q" "reports p (upd_rx t g q) = reports p q" "reports p (upd_addba h q) = reports p q"
  "reports p (cntr_inc x q) = reports p q" "reports p (cntr_dec x q) = reports p q"
  "reports p (q\<lparr>ap_addr := a\<rparr>) = reports p q" "reports p (q\<lparr>ap_active := b\<rparr>) = reports p q"
  by (simp_all add: reports_def addba_upd_defs)

lemma reports_reset:
  "mtlk_addba_peer_reset_tx_state t q = (st, q') \<Longrightarrow> reports p q' = reports p q"
  "mtlk_addba_peer_reset_rx_state t q = (st, q') \<Longrightarrow> reports p q' = reports p q"
  by (auto simp: mtlk_addba_peer_reset_tx_state_def mtlk_addba_peer_reset_rx_state_def split: if_splits)

lemma reports_verdict: "addba_req_verdict t W pol rate q = (acc, q') \<Longrightarrow> reports p q' = reports p q"
  by (auto simp: addba_req_verdict_def split: if_splits prod.splits bool.splits)

lemma reports_tx_req: "reports p q \<Longrightarrow> reports p (mtlk_addba_peer_tx_addba_req e t q)"
  by (auto simp: mtlk_addba_peer_tx_addba_req_def mtlk_addba_peer_on_addba_req_sent_def mtlk_addba_peer_fill_addba_req_def Let_def
      split: prod.split bool.split intro: reports_emit)

lemma reports_close: "reports p q \<Longrightarrow> reports p (mtlk_addba_peer_close_aggr_req e t q)"
  by (auto simp: mtlk_addba_peer_close_aggr_req_def intro: reports_emit)

lemma reports_delba: "reports p q \<Longrightarrow> reports p (mtlk_addba_peer_send_rx_delba_req e t q)"
  by (auto simp: mtlk_addba_peer_send_rx_delba_req_def intro: reports_emit)

lemma reports_check:
  assumes "t < MTLK_ADDBA_NOF_TIDs" "reports p q"
  shows "reports p (check_delba_tid e t q)" "reports p (check_addba_res_rx_tid e t q)"
  using assms reports_delba
  by (auto simp: check_delba_tid_def check_addba_res_rx_tid_def Let_def dest: reports_reset(1) intro!: reports_emit
      simp: reports_reset(1) [OF surjective_pairing])

lemma reports_cfm:
  assumes "t < MTLK_ADDBA_NOF_TIDs" "reports p q"
  shows "reports p (addba_tx_cfm e cf ok t q)" "reports p (addba_rx_cfm cf ok t q)"
  using assms
  by (auto simp: addba_tx_cfm_def addba_rx_cfm_def addba_req_tx_cfm_clb_def open_aggr_cfm_clb_def close_aggr_cfm_clb_def
      addba_res_tx_cfm_clb_def delba_req_tx_cfm_clb_def Let_def reports_reset(2) [OF surjective_pairing]
      split: man_msg.split addba_clb.split prod.split intro!: reports_emit dest: reports_reset)

lemma reports_stop_tid:
  assumes "t < MTLK_ADDBA_NOF_TIDs" "reports p q"
  shows "reports p (peer_stop_tid t q)"
proof -
  obtain st p1 where 1: "mtlk_addba_peer_reset_tx_state t q = (st, p1)" by fastforce
  define p3 where "p3 = (if st then ap_emit (On_stop_aggregation t) (upd_tx t (\<lambda>x. x\<lparr>tx_msg := Msg_free\<rparr>) p1)
     else upd_tx t (\<lambda>x. x\<lparr>tx_msg := Msg_free\<rparr>) p1)"
  obtain st' p4 where 4: "mtlk_addba_peer_reset_rx_state t p3 = (st', p4)" by fastforce
  have "reports p p3" using assms reports_reset(1) [OF 1, of p] by (auto simp: p3_def intro: reports_emit)
  then have "reports p p4" using reports_reset(2) [OF 4, of p] by simp
  then show ?thesis using assms(1) 1 4 by (auto simp: peer_stop_tid_def Let_def p3_def intro: reports_emit)
qed

lemma reports_fold:
  assumes "\<And>t q. t \<in> set ts \<Longrightarrow> reports p q \<Longrightarrow> reports p (f t q)" "reports p q"
  shows "reports p (fold f ts q)"
  using fold_inv [of ts "reports p" f q] assms by blast

text \<open>What a request may ask for.\<close>
fun request_ok :: "addba_op \<Rightarrow> bool" where
  "request_ok (Op_addba_req_rx ssn t win dlgt tmout pol rate) = (ssn < SEQUENCE_NUMBER_LIMIT \<and> (win = 0 \<or> window_ok win))"
| "request_ok _ = True"

lemma reports_request:
  assumes "ssn < SEQUENCE_NUMBER_LIMIT" "win = 0 \<or> window_ok win"
  shows "reports p (mtlk_addba_peer_on_addba_req_rx e ssn t win dlgt tmout pol rate p)"
proof -
  let ?p0 = "cntr_inc MTLK_ADDBAPI_CNT_ADDBA_REQUEST_RX p"
  obtain st p1 where 1: "mtlk_addba_peer_reset_rx_state t ?p0 = (st, p1)" by fastforce
  obtain acc p2 where 2: "addba_req_verdict t win pol rate p1 = (acc, p2)" by fastforce
  have r: "reports p p1" "reports p p2" using reports_reset(2) [OF 1, of p] reports_verdict [OF 2, of p] by simp_all
  have "window_ok (mtlk_addba_correct_res_win_size win)"
    using assms(2) by (auto simp: mtlk_addba_correct_res_win_size_def window_ok_def addba_consts rod_consts)
  moreover have "acc = Some W \<Longrightarrow> W = mtlk_addba_correct_res_win_size win" for W
    using 2 by (auto simp: addba_req_verdict_def split: if_splits prod.splits bool.splits)
  ultimately have W: "acc = Some W \<Longrightarrow> window_ok W" for W by metis
  show ?thesis
    using 1 2 r W assms(1)
    by (cases acc) (auto simp: mtlk_addba_peer_on_addba_req_rx_def addba_req_answer_def Let_def intro!: reports_emit)
qed

lemma reports_stop_all: "reports p q \<Longrightarrow> reports p (mtlk_addba_peer_stop_all q)"
  unfolding mtlk_addba_peer_stop_all_def by (intro reports_fold reports_stop_tid) (auto simp: tids_bound)

lemma reports_received:
  assumes "t < MTLK_ADDBA_NOF_TIDs"
  shows "reports p (addba_after (e, Op_delba_rx t ini) p)" "reports p (addba_after (e, Op_addba_res_rx res t dlgt) p)"
  using assms reports_close [OF reports_refl [of p]]
  by (auto simp: mtlk_addba_peer_on_delba_req_rx_def mtlk_addba_peer_on_addba_res_rx_def addba_res_accepted_def
      addba_res_rejected_def addba_open_event_def Let_def reports_reset(1) [OF surjective_pairing]
      split: sum.split prod.split intro!: reports_emit dest: reports_reset(2) [of t p _ _ p])

lemma reports_step:
  assumes "tid_ok op" "request_ok op"
  shows "reports p (addba_after (e, op) p)"
proof (cases op)
  case (Op_negotiate g rate)
  have "reports p (mtlk_addba_peer_start_negotiation_all g e p)"
    unfolding mtlk_addba_peer_start_negotiation_all_def by (intro reports_fold) (auto simp: Let_def reports_tx_req)
  then show ?thesis using Op_negotiate by (simp add: mtlk_addba_peer_start_negotiation_def)
next
  case Op_iterate
  have "reports p (mtlk_addba_peer_check_delba_timeouts e p)"
    unfolding mtlk_addba_peer_check_delba_timeouts_def by (intro reports_fold) (auto simp: reports_check tids_bound)
  then have "reports p (mtlk_addba_peer_check_addba_res_rx_timeouts e (mtlk_addba_peer_check_delba_timeouts e p))"
    unfolding mtlk_addba_peer_check_addba_res_rx_timeouts_def by (intro reports_fold) (auto simp: reports_check tids_bound)
  then show ?thesis using Op_iterate by (simp add: mtlk_addba_peer_iterate_def)
next
  case (Op_addba_req_rx ssn t win dlgt tmout pol rate)
  then show ?thesis using assms reports_request by auto
qed (use assms in \<open>auto simp: mtlk_addba_peer_start_def mtlk_addba_peer_stop_def mtlk_addba_peer_start_aggr_negotiation_def
      mtlk_addba_reconfigure_def reports_stop_all reports_tx_req reports_cfm reports_received [unfolded addba_after_simps]\<close>)

section \<open>The life of a station\<close>

datatype sta_op =
    Sta_rx_packet nat nat mtlk_nbuf
  | Sta_rx_bar nat nat
  | Sta_flush
  | Sta_addba addba_env clb_env addba_op
  | Sta_update_tx bool nat
  | Sta_set_filter mtlk_pckt_filter
  | Sta_zero_rsc
  | Sta_beacon nat
  | Sta_keepalive_tmr
  | Sta_idle_tmr bool
  | Sta_packet_sent nat bool nat
  | Sta_packet_indicated nat bool

definition lift_sta :: "mtlk_core \<Rightarrow> c_fault + station \<Rightarrow> sta_run" where
  "lift_sta c r = Some (map_sum id (\<lambda>s. (s, c)) r)"

fun sta_step :: "os_env \<Rightarrow> (nat \<Rightarrow> nat) \<Rightarrow> sta_params \<Rightarrow> nat \<times> sta_op \<Rightarrow> sta_state \<Rightarrow> sta_run" where
  "sta_step env to_ms cfg (now, Sta_rx_packet tid seq nb) sc = mtlk_sta_reorder_packet env to_ms now tid seq nb sc"
| "sta_step env to_ms cfg (now, Sta_rx_bar tid ssn) sc = mtlk_sta_process_bar env now tid ssn sc"
| "sta_step env to_ms cfg (now, Sta_flush) sc = mtlk_sta_flush env now sc"
| "sta_step env to_ms cfg (now, Sta_addba e ce op) (s, c) =
     (case addba_step (e, op) (st_ba s) of Inl f \<Rightarrow> Some (Inl f) | Inr p \<Rightarrow> sta_with_peer env ce (\<lambda>_. p) (s, c))"
| "sta_step env to_ms cfg (now, Sta_update_tx sched_ok tid) (s, c) = lift_sta c (mtlk_sta_update_tx cfg sched_ok tid s)"
| "sta_step env to_ms cfg (now, Sta_set_filter f) (s, c) = Some (Inr (mtlk_sta_set_packets_filter f s, c))"
| "sta_step env to_ms cfg (now, Sta_zero_rsc) (s, c) = Some (Inr (mtlk_sta_zero_rod_reply_counters s, c))"
| "sta_step env to_ms cfg (now, Sta_beacon i) (s, c) = lift_sta c (map_sum id snd (mtlk_sta_update_beacon_interval to_ms now i s))"
| "sta_step env to_ms cfg (now, Sta_keepalive_tmr) (s, c) = Some (Inr (snd (mtlk_sta_keepalive_tmr cfg to_ms now s), c))"
| "sta_step env to_ms cfg (now, Sta_idle_tmr on) (s, c) = Some (Inr (snd (mtlk_sta_data_disconnect_tmr cfg on to_ms now s), c))"
| "sta_step env to_ms cfg (now, Sta_packet_sent len uc retr) (s, c) = Some (Inr (mtlk_sta_on_packet_sent now len uc retr s, c))"
| "sta_step env to_ms cfg (now, Sta_packet_indicated len uc) (s, c) = Some (Inr (mtlk_sta_on_packet_indicated len uc s, c))"

fun sta_run_ops :: "os_env \<Rightarrow> (nat \<Rightarrow> nat) \<Rightarrow> sta_params \<Rightarrow> (nat \<times> sta_op) list \<Rightarrow> sta_state \<Rightarrow> sta_run" where
  "sta_run_ops env to_ms cfg [] sc = Some (Inr sc)"
| "sta_run_ops env to_ms cfg (x # xs) sc = on_run (sta_run_ops env to_ms cfg xs) (sta_step env to_ms cfg x sc)"

text \<open>The TIDs and sequence numbers of packets come from fields of three and twelve bits.\<close>
fun sta_op_ok :: "sta_op \<Rightarrow> bool" where
  "sta_op_ok (Sta_rx_packet tid seq nb) = (tid < NTS_TIDS \<and> seq < SEQUENCE_NUMBER_LIMIT)"
| "sta_op_ok (Sta_rx_bar tid ssn) = (tid < NTS_TIDS \<and> ssn < SEQUENCE_NUMBER_LIMIT)"
| "sta_op_ok (Sta_addba e ce op) = (tid_ok op \<and> request_ok op)"
| "sta_op_ok (Sta_update_tx sched_ok tid) = (tid < NTS_TIDS)"
| "sta_op_ok _ = True"

definition station_wf :: "station \<Rightarrow> bool" where
  "station_wf s = (length (st_rod s) = NTS_TIDS \<and> list_all rod_typed (st_rod s) \<and> length (st_tx_packets s) = NTS_TIDS
     \<and> length (st_aggr_inited s) = NTS_TIDS \<and> 0 < st_beacon_interval s)"

definition run_wf :: "sta_run \<Rightarrow> bool" where
  "run_wf x = (\<exists>s c. x = Some (Inr (s, c)) \<and> station_wf s)"

lemma on_rod_wf:
  assumes "station_wf s" "i < NTS_TIDS" "\<And>q. rod_typed q \<Longrightarrow> \<exists>q' c'. f (q, c) = Some (Inr (q', c')) \<and> rod_typed q'"
  shows "run_wf (on_rod i f (s, c))"
proof -
  have "rod_typed (st_rod s ! i)" using assms(1,2) by (simp add: station_wf_def list_all_length)
  then obtain q' c' where q: "f (st_rod s ! i, c) = Some (Inr (q', c'))" "rod_typed q'" using assms(3) by blast
  have "list_all rod_typed ((st_rod s)[i := q'])"
    using assms(1) q(2) by (auto simp: station_wf_def list_all_iff dest!: set_update_subset_insert [THEN subsetD])
  then show ?thesis using assms(1,2) q(1) by (auto simp: run_wf_def on_rod_def station_wf_def)
qed

lemma on_run_wf: "run_wf x \<Longrightarrow> (\<And>s c. station_wf s \<Longrightarrow> run_wf (f (s, c))) \<Longrightarrow> run_wf (on_run f x)"
  by (auto simp: run_wf_def on_run_def)

lemma on_rods_wf:
  assumes "station_wf s" "\<forall>i \<in> set is. i < NTS_TIDS" "\<And>q c. rod_typed q \<Longrightarrow> \<exists>q' c'. f (q, c) = Some (Inr (q', c')) \<and> rod_typed q'"
  shows "run_wf (on_rods is f (s, c))"
  using assms(1,2)
proof (induction "is" arbitrary: s c)
  case (Cons i "is")
  have "run_wf (on_rod i f (s, c))" using Cons.prems assms(3) by (intro on_rod_wf) auto
  then show ?case using Cons.IH Cons.prems by (auto simp: run_wf_def)
qed (simp add: run_wf_def)

lemma rod_typed_create:
  assumes "rod_typed q" "window_ok W" "ssn < SEQUENCE_NUMBER_LIMIT"
  shows "\<exists>res q' c'. mtlk_create_rod_queue env now wss_ok open_res W ssn (q, c) = Some (Inr (res, q', c')) \<and> rod_typed q'"
proof -
  obtain ps where ps: "rod_holds q ps" using assms(1) by (auto simp: rod_typed_holds)
  obtain q' c' where ok: "mtlk_create_rod_queue env now True MTLK_ERR_OK W ssn (q, c) = Some (Inr (MTLK_ERR_OK, q', c'))"
    "rod_sim q' (ssn, replicate W None)"
    using rod_holds_create [OF ps _ _ _ assms(3), of W env now c] assms(2) by (auto simp: window_ok_def)
  have "\<exists>q' c'. (if used q = 1 then mtlk_flush_rod_queue env now (q, c) else Some (Inr (q, c))) = Some (Inr (q', c')) \<and> rod_typed q'"
  proof (cases "rod_idle q")
    case True
    then show ?thesis by (auto simp: rod_idle_def rod_typed_def)
  next
    case False
    then obtain w where w: "rod_sim q w" using assms(1) by (auto simp: rod_typed_def)
    obtain rel w' where "spec_flush w = (rel, w')" by (metis surj_pair)
    from mtlk_flush_rod_queue_refines [OF w this, of env now c] show ?thesis
      using rod_sim_used [OF w] by (auto intro: rod_typedI)
  qed
  then show ?thesis using ok by (cases "wss_ok \<and> open_res = MTLK_ERR_OK") (auto simp: mtlk_create_rod_queue_def intro: rod_typedI)
qed

lemma rod_typed_clear:
  assumes "rod_typed q"
  shows "\<exists>q' c'. (if mtlk_is_used_rod_queue q \<noteq> 0 then mtlk_clear_rod_queue env now (q, c) else Some (Inr (q, c))) = Some (Inr (q', c')) \<and> rod_typed q'"
  using assms rod_holds_clear [of q _ env now c] unfolding rod_typed_holds by blast

lemma callback_wf:
  assumes "station_wf s" "event_ok ev"
  shows "run_wf (sta_addba_callback env ce ev (s, c))"
proof (cases ev)
  case (On_start_reordering t ssn W)
  have "run_wf (on_rod t (\<lambda>qc. map_option (map_sum id snd) (mtlk_create_rod_queue env (clb_now ce) (clb_wss_ok ce) (clb_open_res ce) W ssn qc)) (s, c))"
  proof (rule on_rod_wf [OF assms(1)])
    show "t < NTS_TIDS" using assms(2) On_start_reordering by (simp add: NTS_TIDS_def MTLK_ADDBA_NOF_TIDs_def)
    show "\<exists>q' c'. map_option (map_sum id snd) (mtlk_create_rod_queue env (clb_now ce) (clb_wss_ok ce) (clb_open_res ce) W ssn (q, c)) = Some (Inr (q', c')) \<and> rod_typed q'"
      if "rod_typed q" for q
      using rod_typed_create [OF that, of W ssn env "clb_now ce" "clb_wss_ok ce" "clb_open_res ce" c] assms(2) On_start_reordering by auto
  qed
  then show ?thesis using On_start_reordering assms by (auto simp: mtlk_sta_create_rod_queue_def run_wf_def)
next
  case (On_stop_reordering t)
  have "t < NTS_TIDS" using assms(2) On_stop_reordering by (simp add: NTS_TIDS_def MTLK_ADDBA_NOF_TIDs_def)
  then have "run_wf (mtlk_sta_destroy_rod_queue env (clb_now ce) t (s, c))"
    unfolding mtlk_sta_destroy_rod_queue_def by (rule on_rod_wf [OF assms(1)]) (simp add: rod_typed_clear [simplified])
  then show ?thesis using On_stop_reordering by simp
qed (use assms in \<open>auto simp: run_wf_def station_wf_def mtlk_sta_addba_restart_tx_count_tid_def NTS_TIDS_def MTLK_ADDBA_NOF_TIDs_def
      mtlk_sta_schedule_aggregation_revival_tid_def sta_emit_def\<close>)

lemma callbacks_wf:
  assumes "station_wf s" "list_all event_ok es"
  shows "run_wf (sta_addba_callbacks env ce es (s, c))"
  using assms
proof (induction es arbitrary: s c)
  case (Cons e es)
  then have "run_wf (sta_addba_callback env ce e (s, c))" by (intro callback_wf) auto
  then show ?case using Cons by (auto simp: run_wf_def)
qed (simp add: run_wf_def)

lemma sta_step_wf:
  assumes "station_wf s" "sta_op_ok op"
  shows "run_wf (sta_step env to_ms cfg (now, op) (s, c))"
proof (cases op)
  case (Sta_rx_packet tid seq nb)
  have set: "rod_typed (mtlk_rod_queue_set_last_rx_time (to_ms now) q) = rod_typed q" for q
    by (simp add: rod_typed_def mtlk_rod_queue_set_last_rx_time_def rod_idle_def rod_sim_def rod_inv_def rod_core_def rod_pos_def win_of_def)
  show ?thesis using Sta_rx_packet assms(2) rod_typed_packet set
    by (auto simp: mtlk_sta_reorder_packet_def intro!: on_rod_wf [OF assms(1)])
next
  case (Sta_rx_bar tid ssn)
  have "\<exists>q' c'. Some (map_sum id snd (mtlk_rod_process_bar env now ssn (q, c))) = Some (Inr (q', c')) \<and> rod_typed q'" if "rod_typed q" for q
    using rod_typed_bar [OF that, of ssn env now c] assms(2) Sta_rx_bar by auto
  then show ?thesis using Sta_rx_bar assms(2) by (auto simp: mtlk_sta_process_bar_def intro!: on_rod_wf [OF assms(1)])
next
  case Sta_flush
  then show ?thesis using rod_typed_timer by (auto simp: mtlk_sta_flush_def intro!: on_rods_wf [OF assms(1)])
next
  case (Sta_addba e ce aop)
  then obtain es where "ap_log (addba_after (e, aop) (st_ba s)) = ap_log (st_ba s) @ es" "list_all event_ok es"
    using reports_step [of aop "st_ba s" e] assms(2) by (auto simp: reports_def)
  moreover have "station_wf (s\<lparr>st_ba := x\<rparr>)" for x using assms(1) by (simp add: station_wf_def)
  moreover have "addba_step (e, aop) (st_ba s) = Inr (addba_after (e, aop) (st_ba s))"
    using Sta_addba assms(2) by (simp add: addba_step_returns tid_ok_def)
  ultimately show ?thesis using Sta_addba callbacks_wf by (simp add: sta_with_peer_def Let_def)
next
  case Sta_zero_rsc
  have "rod_typed (mtlk_rod_queue_clear_reply_counter q)" if "rod_typed q" for q
  proof -
    have "rsc_ok (rsc q)" using that by (auto simp: rod_typed_def rod_idle_def rod_sim_def rod_inv_def rod_core_def)
    then show ?thesis using that
      by (simp add: rod_typed_def mtlk_rod_queue_clear_reply_counter_def rod_idle_def rod_sim_def rod_inv_def rod_core_def rod_pos_def win_of_def rsc_ok_def)
  qed
  then show ?thesis using Sta_zero_rsc assms(1) by (auto simp: run_wf_def station_wf_def mtlk_sta_zero_rod_reply_counters_def list_all_iff)
qed (use assms in \<open>auto simp: run_wf_def station_wf_def lift_sta_def mtlk_sta_update_tx_def mtlk_sta_set_packets_filter_def
      mtlk_sta_reset_tx_cntrs_def mtlk_sta_update_beacon_interval_def mtlk_sta_keepalive_tmr_def mtlk_sta_data_disconnect_tmr_def
      mtlk_sta_on_packet_sent_def mtlk_sta_on_packet_indicated_def mtlk_sta_schedule_aggregation_revival_tid_def mtlk_sta_inc_cnt_def
      mtlk_sta_add_cnt_def sta_emit_def Let_def\<close>)

text \<open>
  C10: A station never runs out of its arrays.  From a well-formed station, every sequence of packets, block-ack requests and
  control frames, timers, confirmations and block-ack operations runs to its end without a fault (an index outside one
  of the eight queues, the 64 slots or the counters of the TIDs, a division by the beacon interval or the window size) and leaves
  the station well formed, provided the block-ack requests ask for windows that divide the sequence space and fit the slots, and
  the DELBAs and block-ack answers it receives, like the calls of its owner, are for TIDs below 8. The driver checks neither of the two.
\<close>
theorem station_stays_well_formed:
  assumes "station_wf s" "\<forall>x \<in> set xs. sta_op_ok (snd x)"
  shows "\<exists>s' c'. sta_run_ops env to_ms cfg xs (s, c) = Some (Inr (s', c')) \<and> station_wf s'"
proof -
  have "run_wf (sta_run_ops env to_ms cfg xs (s, c))"
    using assms
  proof (induction xs arbitrary: s c)
    case (Cons x xs)
    then show ?case using sta_step_wf [of s "snd x" env to_ms cfg "fst x"] by (auto intro!: on_run_wf)
  qed (simp add: run_wf_def)
  then show ?thesis by (simp add: run_wf_def)
qed

theorem station_stays_well_formed_witness:
  "\<exists>s' c'. sta_run_ops linux_env id ex_params [(1, Sta_addba (ex_env 9) ex_clb (Op_addba_req_rx 100 5 32 9 0 1 0xFFFF)),
      (2, Sta_rx_packet 5 101 (ex_pkt 1)), (3, Sta_flush), (4, Sta_beacon 0)] (ex_station, ex_core) = Some (Inr (s', c')) \<and> station_wf s'"
proof -
  have "station_wf ex_station"
    using ex_queue_idle by (simp add: station_wf_def ex_station_def NTS_TIDS_def rod_typed_def list_all_iff)
  then show ?thesis by (rule station_stays_well_formed) (auto simp: NTS_TIDS_def rod_consts window_ok_def)
qed

end
