(* ===== verification/Hash.thy ===== *)
theory Hash
  imports Wave_Prelude
begin

text \<open>
  The generic intrusive hash table of \<^verbatim>\<open>shared/mtlkhash.h\<close>, at the key type of
  \<^verbatim>\<open>shared/mtlkhash_ieee_addr.c\<close>, the only one the station database uses.  Entries are
  identified by numbers; a bucket is the list of the entries chained in it, from the head on.  A cursor of an
  enumeration is the entry it will return next, or the head of the bucket, which is \<^term>\<open>None\<close>.  The interface \<open>kv_store\<close>
  is what the databases rely on.
\<close>

section \<open>Operations\<close>

record hash_entry =
  h_key :: mac_addr
  h_idx :: nat

record hash =
  h_lists :: "nat list list"
  h_ent :: "nat \<Rightarrow> hash_entry"

definition nof_buckets :: "hash \<Rightarrow> nat" where
  "nof_buckets h = length (h_lists h)"

definition mtlk_hash_ieee_addr_hashval :: "mac_addr \<Rightarrow> nat \<Rightarrow> nat" where
  "mtlk_hash_ieee_addr_hashval key n = and (unat (key ! 5)) (n - 1)"

definition mtlk_hash_init :: "nat \<Rightarrow> hash" where
  "mtlk_hash_init n = \<lparr>h_lists = replicate n [], h_ent = (\<lambda>_. \<lparr>h_key = [], h_idx = 0\<rparr>)\<rparr>"

text \<open>\<^verbatim>\<open>__mtlk_hash_init\<close>: the array of lists may not be available.\<close>
definition mtlk_hash_init_ieee_addr :: "bool \<Rightarrow> nat \<Rightarrow> hash \<Rightarrow> mtlk_error \<times> hash" where
  "mtlk_hash_init_ieee_addr alloc n h = (if alloc then (MTLK_ERR_OK, mtlk_hash_init n) else (MTLK_ERR_NO_MEM, h))"

definition mtlk_hash_find :: "mac_addr \<Rightarrow> hash \<Rightarrow> nat option" where
  "mtlk_hash_find key h =
     find (\<lambda>x. h_key (h_ent h x) = key) (h_lists h ! mtlk_hash_ieee_addr_hashval key (nof_buckets h))"

text \<open>\<^verbatim>\<open>__mtlk_hash_insert\<close> and \<^verbatim>\<open>__mtlk_hash_remove\<close>.\<close>
definition hash_link :: "mac_addr \<Rightarrow> nat \<Rightarrow> hash \<Rightarrow> hash" where
  "hash_link key x h =
     (let i = mtlk_hash_ieee_addr_hashval key (nof_buckets h)
      in h\<lparr>h_ent := (h_ent h)(x := \<lparr>h_key = key, h_idx = i\<rparr>), h_lists := (h_lists h)[i := h_lists h ! i @ [x]]\<rparr>)"

definition mtlk_hash_remove :: "nat \<Rightarrow> hash \<Rightarrow> hash" where
  "mtlk_hash_remove x h =
     (let i = h_idx (h_ent h x) in h\<lparr>h_lists := (h_lists h)[i := remove1 x (h_lists h ! i)]\<rparr>)"

definition mtlk_hash_insert :: "mac_addr \<Rightarrow> nat \<Rightarrow> hash \<Rightarrow> nat option \<times> hash" where
  "mtlk_hash_insert key x h =
     (case mtlk_hash_find key h of None \<Rightarrow> (None, hash_link key x h) | Some prev \<Rightarrow> (Some prev, h))"

definition mtlk_hash_insert_replace :: "mac_addr \<Rightarrow> nat \<Rightarrow> hash \<Rightarrow> nat option \<times> hash" where
  "mtlk_hash_insert_replace key x h =
     (case mtlk_hash_find key h of
        None \<Rightarrow> (None, hash_link key x h)
      | Some prev \<Rightarrow> (Some prev, hash_link key x (mtlk_hash_remove prev h)))"

text \<open>The entry after \<open>x\<close> in a bucket (\<^verbatim>\<open>mtlk_dlist_next\<close>); \<^term>\<open>None\<close> is the head.\<close>
fun dlist_next :: "'a list \<Rightarrow> 'a \<Rightarrow> 'a option" where
  "dlist_next [] x = None"
| "dlist_next (y # ys) x = (if y = x then (case ys of [] \<Rightarrow> None | z # _ \<Rightarrow> Some z) else dlist_next ys x)"

definition dlist_first :: "'a list \<Rightarrow> 'a option" where
  "dlist_first xs = (case xs of [] \<Rightarrow> None | x # _ \<Rightarrow> Some x)"

text \<open>The loop of \<^verbatim>\<open>__mtlk_hash_enum_next\<close> over the remaining buckets.\<close>
fun enum_skip :: "nat list list \<Rightarrow> nat \<Rightarrow> (nat \<times> nat) option" where
  "enum_skip [] i = None"
| "enum_skip (xs # rest) i = (case xs of [] \<Rightarrow> enum_skip rest (Suc i) | x # _ \<Rightarrow> Some (x, i))"

text \<open>A cursor is the next entry and its bucket; the result is the entry returned and the new cursor.\<close>
definition mtlk_hash_enum_next :: "hash \<Rightarrow> nat option \<times> nat \<Rightarrow> (nat \<times> nat option \<times> nat) option" where
  "mtlk_hash_enum_next h e =
     (case (case fst e of Some x \<Rightarrow> Some (x, snd e) | None \<Rightarrow> enum_skip (drop (Suc (snd e)) (h_lists h)) (Suc (snd e))) of
        None \<Rightarrow> None
      | Some (x, i) \<Rightarrow> Some (x, dlist_next (h_lists h ! i) x, i))"

definition mtlk_hash_enum_first :: "hash \<Rightarrow> (nat \<times> nat option \<times> nat) option" where
  "mtlk_hash_enum_first h = mtlk_hash_enum_next h (dlist_first (h_lists h ! 0), 0)"

section \<open>The interface of the databases\<close>

text \<open>
  A store of entries under keys: \<open>view\<close> is the map it stands for.  An entry that is not stored can be
  inserted under a free key; a stored entry can be removed.
\<close>
locale kv_store =
  fixes insert :: "'k \<Rightarrow> 'e \<Rightarrow> 's \<Rightarrow> 'e option \<times> 's"
    and lookup :: "'k \<Rightarrow> 's \<Rightarrow> 'e option"
    and remove :: "'e \<Rightarrow> 's \<Rightarrow> 's"
    and view :: "'s \<Rightarrow> 'k \<rightharpoonup> 'e"
    and ok :: "'s \<Rightarrow> bool"
    and valid :: "'k \<Rightarrow> bool"
  assumes lookup: "ok s \<Longrightarrow> valid k \<Longrightarrow> lookup k s = view s k"
    and insert_new: "ok s \<Longrightarrow> valid k \<Longrightarrow> view s k = None \<Longrightarrow> e \<notin> ran (view s)
      \<Longrightarrow> \<exists>s'. insert k e s = (None, s') \<and> ok s' \<and> view s' = (view s)(k \<mapsto> e)"
    and insert_old: "ok s \<Longrightarrow> valid k \<Longrightarrow> view s k = Some e' \<Longrightarrow> insert k e s = (Some e', s)"
    and remove: "ok s \<Longrightarrow> view s k = Some e \<Longrightarrow> ok (remove e s) \<and> view (remove e s) = (view s)(k := None)"
    and finite_view: "ok s \<Longrightarrow> finite (dom (view s))"
begin

lemma insert_lookup:
  assumes "ok s" "valid k" "e \<notin> ran (view s)" "insert k e s = (None, s')"
  shows "ok s'" "lookup k s' = Some e" "\<And>k'. valid k' \<Longrightarrow> k' \<noteq> k \<Longrightarrow> lookup k' s' = lookup k' s"
    "card (dom (view s')) = Suc (card (dom (view s)))"
proof -
  have n: "view s k = None"
    using insert_old [OF assms(1,2)] assms(4) by (cases "view s k") auto
  then have s': "ok s'" "view s' = (view s)(k \<mapsto> e)"
    using insert_new [OF assms(1,2) n assms(3)] assms(4) by auto
  then show "ok s'" "lookup k s' = Some e" using lookup assms(2) by auto
  show "\<And>k'. valid k' \<Longrightarrow> k' \<noteq> k \<Longrightarrow> lookup k' s' = lookup k' s" using lookup s' assms(1) by auto
  have "dom (view s') = Set.insert k (dom (view s))" "k \<notin> dom (view s)" using s'(2) n by auto
  then show "card (dom (view s')) = Suc (card (dom (view s)))"
    using finite_view [OF assms(1)] by simp
qed

lemma remove_card:
  assumes "ok s" "view s k = Some e"
  shows "Suc (card (dom (view (remove e s)))) = card (dom (view s))"
proof -
  have "dom (view (remove e s)) = dom (view s) - {k}" "k \<in> dom (view s)"
    using remove [OF assms] assms(2) by auto
  then show ?thesis using finite_view [OF assms(1)] by (metis card_Suc_Diff1)
qed

end

section \<open>The table implements the interface\<close>

definition hash_ok :: "hash \<Rightarrow> bool" where
  "hash_ok h = (0 < nof_buckets h \<and> distinct (concat (h_lists h)) \<and> distinct (map (\<lambda>x. h_key (h_ent h x)) (concat (h_lists h)))
     \<and> (\<forall>i < nof_buckets h. \<forall>x \<in> set (h_lists h ! i).
          h_idx (h_ent h x) = i \<and> length (h_key (h_ent h x)) = 6
          \<and> mtlk_hash_ieee_addr_hashval (h_key (h_ent h x)) (nof_buckets h) = i))"

definition hash_view :: "hash \<Rightarrow> mac_addr \<rightharpoonup> nat" where
  "hash_view h = map_of (map (\<lambda>x. (h_key (h_ent h x), x)) (concat (h_lists h)))"

lemma hashval_less:
  assumes "0 < n"
  shows "mtlk_hash_ieee_addr_hashval key n < n"
proof -
  have "int (and (unat (key ! 5)) (n - 1)) \<le> int (n - 1)"
    by (simp only: of_nat_and_eq) simp
  then show ?thesis using assms by (simp add: mtlk_hash_ieee_addr_hashval_def)
qed

lemma mset_concat_update:
  "i < length xss \<Longrightarrow> mset (concat (xss[i := ys])) + mset (xss ! i) = mset (concat xss) + mset ys"
  by (induction xss arbitrary: i) (auto split: nat.split simp: add.commute add.left_commute)

lemma in_concat_nth: "x \<in> set (concat xss) \<longleftrightarrow> (\<exists>i < length xss. x \<in> set (xss ! i))"
  by (metis in_set_conv_nth set_concat UN_iff)

lemma map_eqI:
  assumes "\<And>k y. m k = Some y \<longleftrightarrow> m' k = Some y"
  shows "m = m'"
proof
  fix k
  show "m k = m' k" using assms [of k] option.exhaust [of "m k"] option.exhaust [of "m' k"] by metis
qed

lemma hash_okD:
  assumes "hash_ok h" "i < nof_buckets h" "x \<in> set (h_lists h ! i)"
  shows "h_idx (h_ent h x) = i" "length (h_key (h_ent h x)) = 6"
    "mtlk_hash_ieee_addr_hashval (h_key (h_ent h x)) (nof_buckets h) = i"
  using assms by (auto simp: hash_ok_def)

lemma hash_ok_cong: "h_lists h' = h_lists h \<Longrightarrow> h_ent h' = h_ent h \<Longrightarrow> hash_ok h' = hash_ok h"
  by (simp only: hash_ok_def nof_buckets_def)

lemma hash_mem:
  assumes "hash_ok h" "x \<in> set (concat (h_lists h))"
  shows "h_idx (h_ent h x) < nof_buckets h" "x \<in> set (h_lists h ! h_idx (h_ent h x))"
    "h_idx (h_ent h x) = mtlk_hash_ieee_addr_hashval (h_key (h_ent h x)) (nof_buckets h)"
proof -
  obtain i where i: "i < nof_buckets h" "x \<in> set (h_lists h ! i)"
    using assms(2) by (auto simp only: in_concat_nth nof_buckets_def)
  note hash_okD [OF assms(1) i]
  with i show "h_idx (h_ent h x) < nof_buckets h" "x \<in> set (h_lists h ! h_idx (h_ent h x))"
    "h_idx (h_ent h x) = mtlk_hash_ieee_addr_hashval (h_key (h_ent h x)) (nof_buckets h)" by auto
qed

lemma hash_view_iff:
  assumes "hash_ok h"
  shows "hash_view h k = Some x \<longleftrightarrow> x \<in> set (concat (h_lists h)) \<and> h_key (h_ent h x) = k"
proof -
  have "distinct (map fst (map (\<lambda>x. (h_key (h_ent h x), x)) (concat (h_lists h))))"
    using assms by (simp add: hash_ok_def comp_def)
  from map_of_eq_Some_iff [OF this] show ?thesis by (auto simp: hash_view_def)
qed

lemma hash_view_ran: "hash_ok h \<Longrightarrow> ran (hash_view h) = set (concat (h_lists h))"
  using hash_view_iff [of h] by (auto simp: ran_def)

lemma hash_find_view:
  assumes "hash_ok h"
  shows "mtlk_hash_find k h = hash_view h k"
proof (cases "hash_view h k")
  case None
  have "h_key (h_ent h x) \<noteq> k" if "x \<in> set (h_lists h ! mtlk_hash_ieee_addr_hashval k (nof_buckets h))" for x
  proof -
    have "x \<in> set (concat (h_lists h))"
      using that hashval_less [of "nof_buckets h" k] assms unfolding in_concat_nth hash_ok_def nof_buckets_def by blast
    then show ?thesis using None hash_view_iff [OF assms, of k x] by auto
  qed
  then show ?thesis using None by (auto simp: mtlk_hash_find_def find_None_iff)
next
  case (Some x)
  let ?l = "h_lists h ! mtlk_hash_ieee_addr_hashval k (nof_buckets h)"
  have x: "x \<in> set (concat (h_lists h))" "h_key (h_ent h x) = k"
    using Some hash_view_iff [OF assms] by auto
  then have "x \<in> set ?l" using hash_mem [OF assms x(1)] by simp
  then obtain y where y: "find (\<lambda>x. h_key (h_ent h x) = k) ?l = Some y"
    using x(2) by (cases "find (\<lambda>x. h_key (h_ent h x) = k) ?l") (auto simp: find_None_iff)
  then have "h_key (h_ent h y) = k" "y \<in> set ?l" by (auto simp: find_Some_iff)
  moreover have "0 < nof_buckets h" using assms by (simp add: hash_ok_def)
  ultimately have "y \<in> set (concat (h_lists h))" "h_key (h_ent h y) = k"
    using hashval_less [of "nof_buckets h" k] unfolding in_concat_nth nof_buckets_def by blast+
  then have "hash_view h k = Some y" using hash_view_iff [OF assms, of k y] by blast
  then show ?thesis using y Some by (simp add: mtlk_hash_find_def)
qed

lemma hash_link_ok:
  assumes "hash_ok h" "length k = 6" "hash_view h k = None" "x \<notin> set (concat (h_lists h))"
  shows "hash_ok (hash_link k x h)" "hash_view (hash_link k x h) = (hash_view h)(k \<mapsto> x)"
proof -
  let ?h = "hash_link k x h" and ?i = "mtlk_hash_ieee_addr_hashval k (nof_buckets h)"
  let ?L = "(h_lists h)[?i := h_lists h ! ?i @ [x]]"
  have n: "0 < nof_buckets h" and i: "?i < length (h_lists h)"
    using assms(1) hashval_less [of "nof_buckets h" k] by (auto simp: hash_ok_def nof_buckets_def)
  have L: "h_lists ?h = ?L" "h_ent ?h = (h_ent h)(x := \<lparr>h_key = k, h_idx = ?i\<rparr>)" "nof_buckets ?h = nof_buckets h"
    by (simp_all add: hash_link_def Let_def nof_buckets_def)
  have ms: "mset (concat ?L) = add_mset x (mset (concat (h_lists h)))"
    using mset_concat_update [OF i, of "h_lists h ! ?i @ [x]"] by simp
  then have st: "set (concat ?L) = insert x (set (concat (h_lists h)))"
    by (metis set_mset_add_mset_insert set_mset_mset)
  have "distinct (x # concat (h_lists h))" using assms(1,4) by (simp add: hash_ok_def)
  then have d: "distinct (concat ?L)" using ms mset_eq_imp_distinct_iff [of "x # concat (h_lists h)" "concat ?L"] by simp
  have kx: "k \<notin> (\<lambda>y. h_key (h_ent h y)) ` set (concat (h_lists h))"
    using assms(3) hash_view_iff [OF assms(1), of k] by auto
  have eqk: "map (\<lambda>y. h_key (h_ent ?h y)) (concat (h_lists h)) = map (\<lambda>y. h_key (h_ent h y)) (concat (h_lists h))"
    using assms(4) by (auto simp: L)
  have "mset (map (\<lambda>y. h_key (h_ent ?h y)) (concat ?L)) = mset (k # map (\<lambda>y. h_key (h_ent ?h y)) (concat (h_lists h)))"
    using ms by (simp add: L)
  then have dk: "distinct (map (\<lambda>y. h_key (h_ent ?h y)) (concat ?L))"
    using mset_eq_imp_distinct_iff kx eqk assms(1) by (metis (no_types, lifting) distinct.simps(2) hash_ok_def image_set)
  have "h_idx (h_ent ?h y) = j \<and> length (h_key (h_ent ?h y)) = 6 \<and> mtlk_hash_ieee_addr_hashval (h_key (h_ent ?h y)) (nof_buckets h) = j"
    if "j < nof_buckets h" "y \<in> set (?L ! j)" for j y
  proof (cases "y = x")
    case True
    have "j = ?i"
    proof (rule ccontr)
      assume "j \<noteq> ?i"
      then have "x \<in> set (h_lists h ! j)" using that True by simp
      then show False using assms(4) that(1) unfolding in_concat_nth nof_buckets_def by blast
    qed
    then show ?thesis using True assms(2) by (simp add: L)
  next
    case False
    then have "y \<in> set (h_lists h ! j)" using that by (cases "j = ?i") (auto simp: nof_buckets_def)
    then show ?thesis using hash_okD [OF assms(1) that(1)] False by (simp add: L)
  qed
  then show ok: "hash_ok ?h" unfolding hash_ok_def using n d dk by (simp add: L(1,3))
  have new: "y \<in> insert x S \<and> h_key (h_ent ?h y) = k' \<longleftrightarrow> (if k' = k then y = x else y \<in> S \<and> h_key (h_ent h y) = k')"
    if "x \<notin> S" "k \<notin> (\<lambda>y. h_key (h_ent h y)) ` S" for S k' y
    using that by (auto simp: L(2))
  have "hash_view ?h k' = Some y \<longleftrightarrow> ((hash_view h)(k \<mapsto> x)) k' = Some y" for k' y
    unfolding hash_view_iff [OF ok] L(1) st using new [OF assms(4) kx, of y k'] hash_view_iff [OF assms(1), of k' y] by auto
  then show "hash_view ?h = (hash_view h)(k \<mapsto> x)" by (rule map_eqI)
qed

lemma hash_remove_ok:
  assumes "hash_ok h" "hash_view h k = Some x"
  shows "hash_ok (mtlk_hash_remove x h)" "hash_view (mtlk_hash_remove x h) = (hash_view h)(k := None)"
    "set (concat (h_lists (mtlk_hash_remove x h))) = set (concat (h_lists h)) - {x}"
proof -
  let ?h = "mtlk_hash_remove x h" and ?i = "h_idx (h_ent h x)"
  let ?L = "(h_lists h)[?i := remove1 x (h_lists h ! ?i)]"
  have x: "x \<in> set (concat (h_lists h))" "h_key (h_ent h x) = k" using assms hash_view_iff by auto
  note M = hash_mem [OF assms(1) x(1)]
  have L: "h_lists ?h = ?L" "h_ent ?h = h_ent h" "nof_buckets ?h = nof_buckets h"
    by (simp_all add: mtlk_hash_remove_def Let_def nof_buckets_def)
  have i: "?i < length (h_lists h)" using M(1) by (simp add: nof_buckets_def)
  have r: "mset (h_lists h ! ?i) = add_mset x (mset (remove1 x (h_lists h ! ?i)))"
    using M(2) by simp
  have "mset (concat ?L) + mset (h_lists h ! ?i) = mset (concat (h_lists h)) + mset (remove1 x (h_lists h ! ?i))"
    by (rule mset_concat_update [OF i])
  then have ms: "add_mset x (mset (concat ?L)) = mset (concat (h_lists h))"
    unfolding r by (metis add_right_cancel union_mset_add_mset_left union_mset_add_mset_right)
  then have "mset (x # concat ?L) = mset (concat (h_lists h))" by simp
  then have d: "distinct (x # concat ?L)"
    using assms(1) mset_eq_imp_distinct_iff unfolding hash_ok_def by blast
  have "mset (map (\<lambda>y. h_key (h_ent h y)) (x # concat ?L)) = mset (map (\<lambda>y. h_key (h_ent h y)) (concat (h_lists h)))"
    using \<open>mset (x # concat ?L) = mset (concat (h_lists h))\<close> by (metis mset_map)
  then have dk: "distinct (map (\<lambda>y. h_key (h_ent h y)) (x # concat ?L))"
    using assms(1) mset_eq_imp_distinct_iff unfolding hash_ok_def by blast
  have "set (x # concat ?L) = set (concat (h_lists h))"
    using \<open>mset (x # concat ?L) = mset (concat (h_lists h))\<close> by (rule mset_eq_setD)
  then show st: "set (concat (h_lists ?h)) = set (concat (h_lists h)) - {x}" using d by (auto simp: L)
  have sub: "y \<in> set (h_lists h ! j)" if "j < nof_buckets h" "y \<in> set (?L ! j)" for j y
    using that set_remove1_subset [of x "h_lists h ! ?i"] by (cases "j = ?i") (auto simp: nof_buckets_def)
  have "0 < nof_buckets h" using assms(1) by (simp add: hash_ok_def)
  moreover have "distinct (concat ?L)" "distinct (map (\<lambda>y. h_key (h_ent h y)) (concat ?L))"
    using d dk by (simp_all only: distinct.simps list.map)
  ultimately show ok: "hash_ok ?h"
    unfolding hash_ok_def L using sub hash_okD [OF assms(1)] by blast
  have "hash_view ?h k' = Some y \<longleftrightarrow> ((hash_view h)(k := None)) k' = Some y" for k' y
  proof (cases "k' = k")
    case True
    have "y = x" if "y \<in> set (concat (h_lists h))" "h_key (h_ent h y) = k"
      using that hash_view_iff [OF assms(1), of k y] assms(2) by simp
    then show ?thesis unfolding hash_view_iff [OF ok] st L(2) True by simp blast
  next
    case False
    have "y \<noteq> x" if "h_key (h_ent h y) = k'" using that False x(2) by metis
    then show ?thesis unfolding hash_view_iff [OF ok] st L(2) using False hash_view_iff [OF assms(1), of k' y] by simp blast
  qed
  then show "hash_view ?h = (hash_view h)(k := None)" by (rule map_eqI)
qed

interpretation ieee_hash: kv_store mtlk_hash_insert mtlk_hash_find mtlk_hash_remove hash_view hash_ok "\<lambda>k. length k = 6"
proof (unfold_locales, goal_cases)
  case (1 s k)
  then show ?case by (simp add: hash_find_view)
next
  case (2 s k e)
  then show ?case using hash_link_ok [of s k e] hash_find_view [of s k] hash_view_ran [of s]
    by (auto simp: mtlk_hash_insert_def)
next
  case (3 s k e' e)
  then show ?case using hash_find_view [of s k] by (simp add: mtlk_hash_insert_def)
next
  case (4 s k e)
  then show ?case using hash_remove_ok [of s k e] by simp
next
  case (5 s)
  then show ?case by (simp add: hash_view_def finite_dom_map_of)
qed

section \<open>Enumeration\<close>

text \<open>
  The loop \<^verbatim>\<open>h = enum_first; while (h) { body; h = enum_next; }\<close> of the databases, whose body may change the
  table.  The first argument bounds the rounds; \<^term>\<open>None\<close> means that it was too small.
\<close>
fun hash_loop :: "nat \<Rightarrow> (nat \<Rightarrow> hash \<Rightarrow> hash) \<Rightarrow> (nat \<times> nat option \<times> nat) option \<Rightarrow> hash \<Rightarrow> (nat list \<times> hash) option" where
  "hash_loop f body None h = Some ([], h)"
| "hash_loop 0 body (Some _) h = None"
| "hash_loop (Suc f) body (Some (x, e)) h =
     (let h' = body x h
      in map_option (\<lambda>(xs, h''). (x # xs, h'')) (hash_loop f body (mtlk_hash_enum_next h' e) h'))"

definition hash_foreach :: "nat \<Rightarrow> (nat \<Rightarrow> hash \<Rightarrow> hash) \<Rightarrow> hash \<Rightarrow> (nat list \<times> hash) option" where
  "hash_foreach f body h = hash_loop f body (mtlk_hash_enum_first h) h"

text \<open>What a cursor has still to visit.\<close>
definition from_entry :: "'a option \<Rightarrow> 'a list \<Rightarrow> 'a list" where
  "from_entry c xs = (case c of None \<Rightarrow> [] | Some x \<Rightarrow> dropWhile (\<lambda>y. y \<noteq> x) xs)"

definition remaining :: "hash \<Rightarrow> nat option \<times> nat \<Rightarrow> nat list" where
  "remaining h e = from_entry (fst e) (h_lists h ! snd e) @ concat (drop (Suc (snd e)) (h_lists h))"

lemma from_entry_next:
  "distinct xs \<Longrightarrow> x \<in> set xs \<Longrightarrow> from_entry (Some x) xs = x # from_entry (dlist_next xs x) xs"
proof (induction xs)
  case (Cons y ys)
  show ?case
  proof (cases "y = x")
    case True
    then show ?thesis using Cons.prems by (cases ys) (auto simp: from_entry_def)
  next
    case False
    then have IH: "from_entry (Some x) ys = x # from_entry (dlist_next ys x) ys" using Cons by auto
    have "z \<noteq> y" if "dlist_next ys x = Some z" for z
    proof -
      have "z \<in> set ys" using that by (induction ys) (auto split: if_splits list.splits)
      then show ?thesis using Cons.prems(1) by auto
    qed
    then show ?thesis using IH False by (auto simp: from_entry_def split: option.splits)
  qed
qed simp

lemma enum_skip_spec:
  "case enum_skip xss i of
     None \<Rightarrow> concat xss = []
   | Some (x, j) \<Rightarrow> i \<le> j \<and> j - i < length xss \<and> x \<in> set (xss ! (j - i))
       \<and> concat xss = from_entry (Some x) (xss ! (j - i)) @ concat (drop (Suc (j - i)) xss)"
proof (induction xss i rule: enum_skip.induct)
  case (2 xs rest i)
  show ?case
  proof (cases xs)
    case Nil
    show ?thesis
    proof (cases "enum_skip rest (Suc i)")
      case (Some p)
      obtain x j where p: "p = (x, j)" by fastforce
      have "Suc i \<le> j" "j - Suc i < length rest" "x \<in> set (rest ! (j - Suc i))"
        "concat rest = from_entry (Some x) (rest ! (j - Suc i)) @ concat (drop (Suc (j - Suc i)) rest)"
        using 2 [OF Nil] Some p by auto
      moreover have "j - i = Suc (j - Suc i)" using \<open>Suc i \<le> j\<close> by simp
      ultimately show ?thesis using Nil Some p by simp
    qed (use 2 [OF Nil] Nil in simp)
  qed (simp add: from_entry_def)
qed simp

lemma enum_next_remaining:
  assumes "hash_ok h" "snd e < nof_buckets h" "\<forall>x. fst e = Some x \<longrightarrow> x \<in> set (h_lists h ! snd e)"
  shows "case mtlk_hash_enum_next h e of
      None \<Rightarrow> remaining h e = []
    | Some (x, e') \<Rightarrow> remaining h e = x # remaining h e' \<and> snd e' < nof_buckets h \<and> x \<in> set (h_lists h ! snd e')
        \<and> (\<forall>y. fst e' = Some y \<longrightarrow> y \<in> set (h_lists h ! snd e'))"
proof -
  have d: "distinct (h_lists h ! i)" if "i < nof_buckets h" for i
    using assms(1) that by (auto simp: hash_ok_def nof_buckets_def distinct_concat_iff)
  have nx: "\<forall>y. dlist_next xs x = Some y \<longrightarrow> y \<in> set xs" for xs :: "nat list" and x
    by (induction xs) (auto split: option.splits list.splits)
  have step: "remaining h (Some x, i) = x # remaining h (dlist_next (h_lists h ! i) x, i)"
    if "i < nof_buckets h" "x \<in> set (h_lists h ! i)" for x i
    using from_entry_next [OF d [OF that(1)] that(2)] by (simp add: remaining_def)
  show ?thesis
  proof (cases "fst e")
    case (Some x)
    obtain i where e: "e = (Some x, i)" using Some by (cases e) auto
    show ?thesis using step [of i x] nx [of "h_lists h ! i" x] assms(2,3) unfolding e
      by (simp add: mtlk_hash_enum_next_def)
  next
    case None
    let ?r = "enum_skip (drop (Suc (snd e)) (h_lists h)) (Suc (snd e))"
    note S = enum_skip_spec [of "drop (Suc (snd e)) (h_lists h)" "Suc (snd e)"]
    have R: "remaining h e = concat (drop (Suc (snd e)) (h_lists h))" using None by (simp add: remaining_def from_entry_def)
    show ?thesis
    proof (cases ?r)
      case N: None
      then show ?thesis using None S R by (simp add: mtlk_hash_enum_next_def)
    next
      case (Some p)
      obtain x j where p: "p = (x, j)" by fastforce
      have j: "Suc (snd e) \<le> j" "j < nof_buckets h" using S Some p by (auto simp: nof_buckets_def)
      have nth: "drop (Suc (snd e)) (h_lists h) ! (j - Suc (snd e)) = h_lists h ! j" using j by (simp add: nof_buckets_def)
      have x: "x \<in> set (h_lists h ! j)" using S Some p nth by simp
      have "remaining h e = from_entry (Some x) (h_lists h ! j) @ concat (drop (Suc j) (h_lists h))"
        using S Some p nth R j(1) by simp
      also have "\<dots> = remaining h (Some x, j)" by (simp add: remaining_def)
      also have "\<dots> = x # remaining h (dlist_next (h_lists h ! j) x, j)" using step j(2) x by blast
      finally show ?thesis using None Some p j x nx [of "h_lists h ! j" x] by (simp add: mtlk_hash_enum_next_def)
    qed
  qed
qed

text \<open>A body that keeps the table or removes the entry it was given.\<close>
definition gentle :: "(nat \<Rightarrow> hash \<Rightarrow> hash) \<Rightarrow> bool" where
  "gentle body = (\<forall>x h. h_ent (body x h) = h_ent h \<and> (h_lists (body x h) = h_lists h
     \<or> h_lists (body x h) = h_lists (mtlk_hash_remove x h)))"

lemma from_entry_remove1:
  assumes "distinct xs" "x \<notin> set (from_entry c xs)" "\<forall>y. c = Some y \<longrightarrow> y \<in> set xs"
  shows "from_entry c (remove1 x xs) = from_entry c xs"
  using assms by (induction xs) (auto simp: from_entry_def remove1_idem split: option.splits if_splits)

lemma gentle_remaining:
  assumes "hash_ok h" "gentle body" "i < nof_buckets h" "x \<in> set (h_lists h ! i)"
    and "x \<notin> set (remaining h (c, i))" "\<forall>y. c = Some y \<longrightarrow> y \<in> set (h_lists h ! i)"
  shows "hash_ok (body x h)" "remaining (body x h) (c, i) = remaining h (c, i)" "nof_buckets (body x h) = nof_buckets h"
    "\<forall>y. c = Some y \<longrightarrow> y \<in> set (h_lists (body x h) ! i)"
proof -
  have xc: "x \<in> set (concat (h_lists h))" using assms(3,4) unfolding in_concat_nth nof_buckets_def by blast
  have idx: "h_idx (h_ent h x) = i" using hash_okD(1) [OF assms(1,3,4)] .
  have v: "hash_view h (h_key (h_ent h x)) = Some x" using hash_view_iff [OF assms(1)] xc by blast
  have E: "h_ent (body x h) = h_ent h" using assms(2) by (simp add: gentle_def)
  have d: "distinct (h_lists h ! i)" using assms(1,3) by (auto simp: hash_ok_def nof_buckets_def distinct_concat_iff)
  consider (keep) "h_lists (body x h) = h_lists h" | (rem) "h_lists (body x h) = h_lists (mtlk_hash_remove x h)"
    using assms(2) by (auto simp: gentle_def)
  then have "hash_ok (body x h) \<and> remaining (body x h) (c, i) = remaining h (c, i) \<and> nof_buckets (body x h) = nof_buckets h
    \<and> (\<forall>y. c = Some y \<longrightarrow> y \<in> set (h_lists (body x h) ! i))"
  proof cases
    case keep
    then show ?thesis using assms(1,6) E by (simp add: hash_ok_def nof_buckets_def remaining_def)
  next
    case rem
    have L: "h_lists (body x h) = (h_lists h)[i := remove1 x (h_lists h ! i)]"
      using rem idx by (simp add: mtlk_hash_remove_def Let_def)
    have "hash_ok (body x h)"
      using hash_remove_ok(1) [OF assms(1) v] hash_ok_cong [of "body x h" "mtlk_hash_remove x h"] rem E
      by (simp add: mtlk_hash_remove_def Let_def)
    moreover have "x \<notin> set (from_entry c (h_lists h ! i))" using assms(5) by (simp add: remaining_def)
    moreover have "y \<in> set (remove1 x (h_lists h ! i))" if "c = Some y" for y
    proof -
      have "y \<in> set (h_lists h ! i)" using assms(6) that by simp
      moreover have "y \<noteq> x"
        using \<open>x \<notin> set (from_entry c (h_lists h ! i))\<close> from_entry_next [OF d \<open>y \<in> set (h_lists h ! i)\<close>] that by auto
      ultimately show ?thesis by (simp add: in_set_remove1)
    qed
    ultimately show ?thesis
      using from_entry_remove1 [OF d _ assms(6)] assms(3) L
      by (auto simp: remaining_def nof_buckets_def drop_update_cancel split: option.splits)
  qed
  then show "hash_ok (body x h)" "remaining (body x h) (c, i) = remaining h (c, i)" "nof_buckets (body x h) = nof_buckets h"
    "\<forall>y. c = Some y \<longrightarrow> y \<in> set (h_lists (body x h) ! i)" by blast+
qed

lemma distinct_remaining:
  assumes "hash_ok h" "snd e < nof_buckets h"
  shows "distinct (remaining h e)"
proof -
  have "concat (h_lists h) = concat (take (snd e) (h_lists h)) @ h_lists h ! snd e @ concat (drop (Suc (snd e)) (h_lists h))"
    using assms(2) by (metis concat.simps(2) concat_append id_take_nth_drop nof_buckets_def)
  moreover have "distinct (concat (h_lists h))" using assms(1) by (simp add: hash_ok_def)
  ultimately have "distinct (h_lists h ! snd e @ concat (drop (Suc (snd e)) (h_lists h)))"
    by (metis distinct_append)
  then show ?thesis
    unfolding remaining_def from_entry_def
    by (auto simp del: set_concat split: option.splits dest: set_dropWhileD)
qed

definition cursor_ok :: "hash \<Rightarrow> nat option \<times> nat \<Rightarrow> bool" where
  "cursor_ok h e = (snd e < nof_buckets h \<and> (\<forall>x. fst e = Some x \<longrightarrow> x \<in> set (h_lists h ! snd e)))"

lemma hash_loop_visits:
  assumes "hash_ok h" "gentle body" "cursor_ok h e" "length (remaining h e) \<le> f"
  shows "hash_loop f body (mtlk_hash_enum_next h e) h = Some (remaining h e, fold body (remaining h e) h)
    \<and> hash_ok (fold body (remaining h e) h)"
  using assms(1,3,4)
proof (induction f arbitrary: h e)
  case 0
  then show ?case
    using enum_next_remaining [of h e] by (cases "mtlk_hash_enum_next h e") (auto simp: cursor_ok_def)
next
  case (Suc f)
  note E = enum_next_remaining [of h e]
  show ?case
  proof (cases "mtlk_hash_enum_next h e")
    case None
    then show ?thesis using E Suc.prems by (simp add: cursor_ok_def)
  next
    case (Some r)
    obtain x c i where r: "r = (x, c, i)" by (cases r) auto
    have R: "remaining h e = x # remaining h (c, i)" "i < nof_buckets h" "x \<in> set (h_lists h ! i)"
      "\<forall>y. c = Some y \<longrightarrow> y \<in> set (h_lists h ! i)"
      using E Suc.prems Some r by (auto simp: cursor_ok_def)
    have "x \<notin> set (remaining h (c, i))"
      using distinct_remaining [OF Suc.prems(1), of e] Suc.prems(2) R(1) by (simp add: cursor_ok_def)
    note G = gentle_remaining [OF Suc.prems(1) assms(2) R(2,3) this R(4)]
    have "cursor_ok (body x h) (c, i)" using G(3,4) R(2) by (simp add: cursor_ok_def)
    from Suc.IH [OF G(1) this] show ?thesis
      using Some r R(1) G(2) Suc.prems(3) by simp
  qed
qed

text \<open>
  The enumeration started on an unchanged table visits every entry once, in bucket order, even when the body removes
  the entry it visits: the cursor is already past it.
\<close>
lemma hash_foreach_visits:
  assumes "hash_ok h" "gentle body" "length (concat (h_lists h)) \<le> f"
  shows "hash_foreach f body h = Some (concat (h_lists h), fold body (concat (h_lists h)) h)
    \<and> hash_ok (fold body (concat (h_lists h)) h)"
proof -
  let ?e = "(dlist_first (h_lists h ! 0), 0::nat)"
  have n: "0 < nof_buckets h" using assms(1) by (simp add: hash_ok_def)
  then obtain l ls where L: "h_lists h = l # ls" by (cases "h_lists h") (auto simp: nof_buckets_def)
  have "remaining h ?e = concat (h_lists h)"
    using L by (cases l) (auto simp: remaining_def from_entry_def dlist_first_def)
  moreover have "cursor_ok h ?e"
    using n L by (cases l) (auto simp: cursor_ok_def dlist_first_def)
  ultimately show ?thesis
    using hash_loop_visits [OF assms(1,2), of ?e f] assms(3) by (simp add: hash_foreach_def mtlk_hash_enum_first_def)
qed

lemma gentle_keep [simp]: "gentle (\<lambda>_ h. h)"
  by (simp add: gentle_def)

lemma gentle_remove [simp]: "gentle mtlk_hash_remove"
  by (simp add: gentle_def mtlk_hash_remove_def Let_def)

lemma hash_remove_all:
  assumes "hash_ok h" "distinct xs" "set xs \<subseteq> set (concat (h_lists h))"
  shows "hash_ok (fold mtlk_hash_remove xs h)
    \<and> set (concat (h_lists (fold mtlk_hash_remove xs h))) = set (concat (h_lists h)) - set xs"
  using assms
proof (induction xs arbitrary: h)
  case (Cons x xs)
  have x: "x \<in> set (concat (h_lists h))" using Cons.prems(3) by (simp del: set_concat)
  then have v: "hash_view h (h_key (h_ent h x)) = Some x" using hash_view_iff [OF Cons.prems(1)] by blast
  note R = hash_remove_ok [OF Cons.prems(1) v]
  have "set xs \<subseteq> set (concat (h_lists (mtlk_hash_remove x h)))"
    using Cons.prems(2,3) unfolding R(3) by (auto simp del: set_concat)
  from Cons.IH [OF R(1) _ this] Cons.prems(2) show ?case
    unfolding R(3) by (auto simp del: set_concat)
qed (simp del: set_concat)

text \<open>Removing every entry while enumerating empties the table.\<close>
lemma hash_foreach_remove:
  assumes "hash_ok h" "length (concat (h_lists h)) \<le> f"
  shows "\<exists>h'. hash_foreach f mtlk_hash_remove h = Some (concat (h_lists h), h') \<and> hash_ok h' \<and> concat (h_lists h') = []"
proof -
  have d: "distinct (concat (h_lists h))" using assms(1) by (simp add: hash_ok_def)
  have "concat (h_lists (fold mtlk_hash_remove (concat (h_lists h)) h)) = []"
    using hash_remove_all [OF assms(1) d] by (simp del: set_concat flip: set_empty)
  then show ?thesis
    using hash_foreach_visits [OF assms(1) gentle_remove assms(2)] by blast
qed

lemma hash_init_ok [simp]:
  assumes "0 < n"
  shows "hash_ok (mtlk_hash_init n)" "hash_view (mtlk_hash_init n) = Map.empty"
  using assms by (auto simp: hash_ok_def mtlk_hash_init_def nof_buckets_def hash_view_def)

section \<open>Runs of the table and of the map\<close>

datatype hash_op = Op_insert mac_addr nat | Op_remove nat

fun hash_step :: "hash_op \<Rightarrow> hash \<Rightarrow> hash" where
  "hash_step (Op_insert k x) h = snd (mtlk_hash_insert k x h)"
| "hash_step (Op_remove x) h = mtlk_hash_remove x h"

text \<open>
  The same run on a map.  \<^term>\<open>None\<close> is a misuse: an entry that is already linked, or an address that is not six bytes
  long, is inserted, or an entry that is not linked is removed.
\<close>
fun map_step :: "hash_op \<Rightarrow> (mac_addr \<rightharpoonup> nat) \<Rightarrow> (mac_addr \<rightharpoonup> nat) option" where
  "map_step (Op_insert k x) m =
     (if length k = 6 \<and> x \<notin> ran m then Some (if m k = None then m(k \<mapsto> x) else m) else None)"
| "map_step (Op_remove x) m = (if x \<in> ran m then Some (\<lambda>k. if m k = Some x then None else m k) else None)"

fun map_run :: "hash_op list \<Rightarrow> (mac_addr \<rightharpoonup> nat) \<Rightarrow> (mac_addr \<rightharpoonup> nat) option" where
  "map_run [] m = Some m"
| "map_run (op # ops) m = (case map_step op m of None \<Rightarrow> None | Some m' \<Rightarrow> map_run ops m')"

lemma hash_view_inj: "hash_ok h \<Longrightarrow> hash_view h k = Some x \<Longrightarrow> hash_view h k' = Some x \<Longrightarrow> k = k'"
  by (simp add: hash_view_iff)

lemma hash_step_refines:
  assumes "hash_ok h" "map_step op (hash_view h) = Some m"
  shows "hash_ok (hash_step op h)" "hash_view (hash_step op h) = m"
proof -
  have "hash_ok (hash_step op h) \<and> hash_view (hash_step op h) = m"
  proof (cases op)
    case (Op_insert k x)
    then have a: "length k = 6" "x \<notin> ran (hash_view h)" "m = (if hash_view h k = None then (hash_view h)(k \<mapsto> x) else hash_view h)"
      using assms(2) by (auto split: if_splits)
    show ?thesis
    proof (cases "hash_view h k")
      case None
      obtain h' where h': "mtlk_hash_insert k x h = (None, h')" "hash_ok h'" "hash_view h' = (hash_view h)(k \<mapsto> x)"
        using ieee_hash.insert_new [OF assms(1) a(1) None a(2)] by blast
      then have "hash_step op h = h'" "m = hash_view h'" using Op_insert a(3) None by simp_all
      then show ?thesis using h'(2) by simp
    next
      case (Some e)
      then show ?thesis using ieee_hash.insert_old [OF assms(1) a(1) Some, of x] a Op_insert assms(1) by simp
    qed
  next
    case (Op_remove x)
    then have a: "x \<in> ran (hash_view h)" "m = (\<lambda>k. if hash_view h k = Some x then None else hash_view h k)"
      using assms(2) by (auto split: if_splits)
    then obtain k where k: "hash_view h k = Some x" by (auto simp: ran_def)
    have "(hash_view h)(k := None) = m"
    proof
      fix k'
      show "((hash_view h)(k := None)) k' = m k'"
        using k hash_view_inj [OF assms(1) k, of k'] unfolding a(2) by (cases "k' = k") auto
    qed
    then show ?thesis using ieee_hash.remove [OF assms(1) k] Op_remove by simp
  qed
  then show "hash_ok (hash_step op h)" "hash_view (hash_step op h) = m" by blast+
qed

lemma hash_run_refines:
  "hash_ok h \<Longrightarrow> map_run ops (hash_view h) = Some m \<Longrightarrow> hash_ok (fold hash_step ops h) \<and> hash_view (fold hash_step ops h) = m"
  by (induction ops arbitrary: h) (auto split: option.splits simp: hash_step_refines)

lemma hash_card:
  assumes "hash_ok h"
  shows "length (concat (h_lists h)) = card (dom (hash_view h))"
proof -
  let ?ks = "map (\<lambda>x. h_key (h_ent h x)) (concat (h_lists h))"
  have "dom (hash_view h) = set ?ks"
    by (simp add: hash_view_def dom_map_of_conv_image_fst image_image del: set_concat)
  moreover have "distinct ?ks" using assms by (simp add: hash_ok_def)
  ultimately show ?thesis using distinct_card [of ?ks] by simp
qed

text \<open>
  C29: The hash table is a finite map.  After any run of insertions and removals that links an entry at most once, a lookup
  returns exactly what the map holds, an insertion under an occupied address returns the entry that is there and changes
  nothing, and an enumeration returns, within as many rounds as there are entries, every stored entry exactly once.
\<close>
theorem hash_refines_map:
  assumes "0 < n" "map_run ops Map.empty = Some m"
  shows "(\<forall>k. mtlk_hash_find k (fold hash_step ops (mtlk_hash_init n)) = m k)
    \<and> (\<forall>k x y. m k = Some y \<longrightarrow>
         mtlk_hash_insert k x (fold hash_step ops (mtlk_hash_init n)) = (Some y, fold hash_step ops (mtlk_hash_init n)))
    \<and> (\<exists>xs. hash_foreach (card (dom m)) (\<lambda>_ h. h) (fold hash_step ops (mtlk_hash_init n))
          = Some (xs, fold hash_step ops (mtlk_hash_init n)) \<and> distinct xs \<and> set xs = ran m)"
proof -
  let ?h = "fold hash_step ops (mtlk_hash_init n)"
  have "map_run ops (hash_view (mtlk_hash_init n)) = Some m" using assms by simp
  from hash_run_refines [OF hash_init_ok(1) [OF assms(1)] this]
  have ok: "hash_ok ?h" and v: "hash_view ?h = m" by blast+
  have id: "fold (\<lambda>_ h. h) xs g = g" for xs :: "nat list" and g :: hash by (induction xs) auto
  have "hash_foreach (card (dom m)) (\<lambda>_ h. h) ?h = Some (concat (h_lists ?h), ?h)"
    using hash_foreach_visits [OF ok gentle_keep] hash_card [OF ok] v id by simp
  moreover have "distinct (concat (h_lists ?h))" "set (concat (h_lists ?h)) = ran m"
    using ok hash_view_ran [OF ok] v by (auto simp: hash_ok_def simp del: set_concat)
  ultimately have "\<exists>xs. hash_foreach (card (dom m)) (\<lambda>_ h. h) ?h = Some (xs, ?h) \<and> distinct xs \<and> set xs = ran m"
    by blast
  moreover have "\<forall>k. mtlk_hash_find k ?h = m k" using hash_find_view [OF ok] v by simp
  moreover have "\<forall>k x y. m k = Some y \<longrightarrow> mtlk_hash_insert k x ?h = (Some y, ?h)"
    using hash_find_view [OF ok] v by (simp add: mtlk_hash_insert_def)
  ultimately show ?thesis by blast
qed

definition ex_mac :: "byte \<Rightarrow> mac_addr" where
  "ex_mac b = [0, 0, 0, 0, 0, b]"

lemma ex_mac_neq [simp]: "length (ex_mac b) = 6" "ex_mac b = ex_mac c \<longleftrightarrow> b = c"
  by (simp_all add: ex_mac_def)

theorem hash_refines_map_witness:
  "mtlk_hash_find (ex_mac 3) (fold hash_step [Op_insert (ex_mac 3) 7, Op_insert (ex_mac 19) 8, Op_remove 8] (mtlk_hash_init 16)) = Some 7"
proof -
  let ?m = "\<lambda>k. if [ex_mac 3 \<mapsto> 7 :: nat, ex_mac 19 \<mapsto> 8] k = Some 8 then None else [ex_mac 3 \<mapsto> 7, ex_mac 19 \<mapsto> 8] k"
  have "map_run [Op_insert (ex_mac 3) 7, Op_insert (ex_mac 19) 8, Op_remove 8] Map.empty = Some ?m"
    by (simp add: ran_map_upd)
  from hash_refines_map [OF _ this, of 16]
  have "mtlk_hash_find (ex_mac 3) (fold hash_step [Op_insert (ex_mac 3) 7, Op_insert (ex_mac 19) 8, Op_remove 8] (mtlk_hash_init 16))
    = ?m (ex_mac 3)" by (simp del: fold_simps hash_step.simps)
  then show ?thesis by simp
qed

lemma fold_filter_remove:
  "fold (\<lambda>x h. if P x then mtlk_hash_remove x h else h) xs h = fold mtlk_hash_remove (filter P xs) h"
  by (induction xs arbitrary: h) auto

text \<open>
  An enumeration whose body removes some of the entries it visits, as the databases do when they disconnect stations or
  drop the hosts behind a station, still ends, visits every entry exactly once and leaves exactly the other entries:
  the cursor has left the entry before the body runs.
\<close>
lemma hash_enumeration_survives_removal:
  assumes "hash_ok h" "card (dom (hash_view h)) \<le> f"
  shows "\<exists>xs h'. hash_foreach f (\<lambda>x h. if P x then mtlk_hash_remove x h else h) h = Some (xs, h')
    \<and> distinct xs \<and> set xs = ran (hash_view h) \<and> hash_ok h' \<and> ran (hash_view h') = {x \<in> ran (hash_view h). \<not> P x}"
proof -
  let ?b = "\<lambda>x h. if P x then mtlk_hash_remove x h else h" and ?xs = "concat (h_lists h)"
  have "gentle ?b" by (simp add: gentle_def mtlk_hash_remove_def Let_def)
  from hash_foreach_visits [OF assms(1) this] assms hash_card
  have F: "hash_foreach f ?b h = Some (?xs, fold mtlk_hash_remove (filter P ?xs) h)"
    by (simp add: fold_filter_remove)
  have d: "distinct (filter P ?xs)" "set (filter P ?xs) \<subseteq> set ?xs"
    using assms(1) by (simp_all add: hash_ok_def del: set_concat)
  note R = hash_remove_all [OF assms(1) d]
  have "ran (hash_view (fold mtlk_hash_remove (filter P ?xs) h)) = {x \<in> ran (hash_view h). \<not> P x}"
    using R hash_view_ran assms(1) by (auto simp del: set_concat)
  moreover have "distinct ?xs" "set ?xs = ran (hash_view h)"
    using assms(1) hash_view_ran [OF assms(1)] by (auto simp: hash_ok_def simp del: set_concat)
  ultimately show ?thesis using F R by blast
qed

theorem hash_enumeration_survives_removal_witness:
  "\<exists>xs h'. hash_foreach 2 (\<lambda>x h. if x = 8 then mtlk_hash_remove x h else h)
       (fold hash_step [Op_insert (ex_mac 3) 7, Op_insert (ex_mac 19) 8] (mtlk_hash_init 16)) = Some (xs, h')
     \<and> ran (hash_view h') = {7}"
proof -
  let ?h = "fold hash_step [Op_insert (ex_mac 3) 7, Op_insert (ex_mac 19) 8] (mtlk_hash_init 16)"
  have "map_run [Op_insert (ex_mac 3) 7, Op_insert (ex_mac 19) 8] (hash_view (mtlk_hash_init 16))
    = Some [ex_mac 3 \<mapsto> 7, ex_mac 19 \<mapsto> 8]"
    by (simp add: ran_map_upd)
  then have ok: "hash_ok ?h" and v: "hash_view ?h = [ex_mac 3 \<mapsto> 7, ex_mac 19 \<mapsto> 8]"
    using hash_run_refines hash_init_ok(1) [of 16] by (metis (no_types) zero_less_numeral)+
  have "card (dom (hash_view ?h)) \<le> 2" "{x \<in> ran (hash_view ?h). x \<noteq> 8} = {7}"
    unfolding v by (auto simp: ran_map_upd)
  with hash_enumeration_survives_removal [OF ok, of 2 "\<lambda>x. x = 8"] show ?thesis by metis
qed

end
