(* ===== verification/Stadb.thy ===== *)
theory Stadb
  imports Station Hash
begin

text \<open>
  The databases of \<^verbatim>\<open>driver/shared/stadb.c\<close>: the stations that are connected, and the hosts known to be behind
  them.  Stations and hosts are heap objects that are reference counted and owned, respectively; both databases find
  them through a hash table (\<^verbatim>\<open>mtlkhash.h\<close>).  Objects are natural numbers, the heaps are finite maps, and an
  access to an object that has been freed sets \<open>db_uaf\<close>.  The references that other parts of the driver hold
  (callers of the look-up functions, buffers, iterators) are counted outside the state.  Outcomes of allocations and
  timers, the clock and the identity of a new object are arguments; what leaves the component is appended to \<open>db_log\<close>.
  The kernel's test for a valid Ethernet address is the argument \<open>valid\<close>.  The stop of a station, which \<^verbatim>\<open>Station\<close> models, is one of these events.
\<close>

section \<open>State\<close>

definition MTLK_STADB_HASH_NOF_BUCKETS :: nat where "MTLK_STADB_HASH_NOF_BUCKETS = 16"
definition MTLK_HSTDB_HASH_NOF_BUCKETS :: nat where "MTLK_HSTDB_HASH_NOF_BUCKETS = 16"

record host_entry =
  ho_tstamp :: nat
  ho_sta :: "nat option"

datatype db_event = Mc_drop_sta mac_addr | Sta_stop nat | Disconnect_clb nat

record sta_db =
  db_heap :: "nat \<Rightarrow> station option"
  db_hash :: hash
  db_cnt :: nat
  db_hosts :: "nat \<Rightarrow> host_entry option"
  hdb_hash :: hash
  hdb_cnt :: nat
  default_host :: mac_addr
  local_mac :: mac_addr
  wds_host_timeout :: nat
  db_uaf :: bool
  db_log :: "db_event list"

definition db_init :: sta_db where
  "db_init = \<lparr>db_heap = (\<lambda>_. None), db_hash = mtlk_hash_init MTLK_STADB_HASH_NOF_BUCKETS, db_cnt = 0,
     db_hosts = (\<lambda>_. None), hdb_hash = mtlk_hash_init MTLK_HSTDB_HASH_NOF_BUCKETS, hdb_cnt = 0,
     default_host = replicate 6 0, local_mac = replicate 6 0, wds_host_timeout = 0, db_uaf = False, db_log = []\<rparr>"

definition db_emit :: "db_event \<Rightarrow> sta_db \<Rightarrow> sta_db" where
  "db_emit e d = d\<lparr>db_log := db_log d @ [e]\<rparr>"

text \<open>An operation on a station object.\<close>
definition on_station :: "(station \<Rightarrow> station) \<Rightarrow> nat \<Rightarrow> sta_db \<Rightarrow> sta_db" where
  "on_station f x d = (case db_heap d x of None \<Rightarrow> d\<lparr>db_uaf := True\<rparr> | Some s \<Rightarrow> d\<lparr>db_heap := (db_heap d)(x \<mapsto> f s)\<rparr>)"

definition entries :: "hash \<Rightarrow> nat list" where
  "entries h = concat (h_lists h)"

text \<open>
  \<^verbatim>\<open>h = enum_first; while (h) { body; h = enum_next; }\<close> over the table \<open>get\<close> of the state.  The rounds are bounded by
  the number of entries at the beginning; \<^term>\<open>None\<close> means that there were more.
\<close>
fun db_loop :: "nat \<Rightarrow> ('d \<Rightarrow> hash) \<Rightarrow> (nat \<Rightarrow> 'd \<Rightarrow> 'd) \<Rightarrow> (nat \<times> nat option \<times> nat) option \<Rightarrow> 'd \<Rightarrow> 'd option" where
  "db_loop f get body None d = Some d"
| "db_loop 0 get body (Some _) d = None"
| "db_loop (Suc f) get body (Some (x, e)) d = (let d' = body x d in db_loop f get body (mtlk_hash_enum_next (get d') e) d')"

definition db_foreach :: "('d \<Rightarrow> hash) \<Rightarrow> (nat \<Rightarrow> 'd \<Rightarrow> 'd) \<Rightarrow> 'd \<Rightarrow> 'd option" where
  "db_foreach get body d = db_loop (length (entries (get d))) get body (mtlk_hash_enum_first (get d)) d"

section \<open>Stations\<close>

definition mtlk_sta_incref :: "nat \<Rightarrow> sta_db \<Rightarrow> sta_db" where
  "mtlk_sta_incref x d = on_station (\<lambda>s. s\<lparr>st_ref := u32_inc (st_ref s)\<rparr>) x d"

text \<open>\<^verbatim>\<open>mtlk_sta_decref\<close> with \<^verbatim>\<open>__mtlk_sta_on_unref_private\<close>: the object is freed with the last reference.\<close>
definition mtlk_sta_decref :: "nat \<Rightarrow> sta_db \<Rightarrow> sta_db" where
  "mtlk_sta_decref x d =
     (case db_heap d x of
        None \<Rightarrow> d\<lparr>db_uaf := True\<rparr>
      | Some s \<Rightarrow> d\<lparr>db_heap := (db_heap d)(x := (if u32_dec (st_ref s) = 0 then None else Some (s\<lparr>st_ref := u32_dec (st_ref s)\<rparr>)))\<rparr>)"

text \<open>\<open>s0\<close>: the station as \<^verbatim>\<open>_mtlk_sta_init\<close> and \<^verbatim>\<open>_mtlk_sta_start\<close> leave it.\<close>
definition mtlk_stadb_add_sta ::
    "bool \<Rightarrow> mtlk_error \<Rightarrow> mtlk_error \<Rightarrow> nat \<Rightarrow> station \<Rightarrow> mac_addr \<Rightarrow> sta_db \<Rightarrow> nat option \<times> sta_db" where
  "mtlk_stadb_add_sta alloc init_res start_res x s0 mac d =
     (if \<not> alloc then (None, d)
      else if init_res \<noteq> MTLK_ERR_OK then (None, d)
      else let d1 = mtlk_sta_incref x (d\<lparr>db_heap := (db_heap d)(x \<mapsto> s0\<lparr>st_ref := 0\<rparr>)\<rparr>) in
      if start_res \<noteq> MTLK_ERR_OK then (None, d1\<lparr>db_heap := (db_heap d1)(x := None)\<rparr>)
      else case mtlk_hash_insert mac x (db_hash d1) of
        (None, h) \<Rightarrow> (Some x, mtlk_sta_incref x (d1\<lparr>db_hash := h, db_cnt := u32_inc (db_cnt d1)\<rparr>))
      | (Some _, h) \<Rightarrow> (None, db_emit (Sta_stop x) (d1\<lparr>db_hash := h, db_heap := (db_heap d1)(x := None)\<rparr>)))"

definition mtlk_stadb_remove_sta_internal :: "nat \<Rightarrow> sta_db \<Rightarrow> sta_db" where
  "mtlk_stadb_remove_sta_internal x d =
     (let addr = h_key (h_ent (db_hash d) x);
          d1 = d\<lparr>db_cnt := u32_dec (db_cnt d), db_hash := mtlk_hash_remove x (db_hash d)\<rparr>
      in mtlk_sta_decref x (db_emit (Sta_stop x) (db_emit (Mc_drop_sta addr) d1)))"

definition mtlk_stadb_remove_sta :: "nat \<Rightarrow> sta_db \<Rightarrow> sta_db" where
  "mtlk_stadb_remove_sta x d = mtlk_stadb_remove_sta_internal x d"

definition mtlk_stadb_find_sta :: "mac_addr \<Rightarrow> sta_db \<Rightarrow> nat option \<times> sta_db" where
  "mtlk_stadb_find_sta mac d =
     (case mtlk_hash_find mac (db_hash d) of None \<Rightarrow> (None, d) | Some x \<Rightarrow> (Some x, mtlk_sta_incref x d))"

definition mtlk_stadb_get_ap :: "sta_db \<Rightarrow> nat option \<times> sta_db" where
  "mtlk_stadb_get_ap d =
     (case mtlk_hash_enum_first (db_hash d) of None \<Rightarrow> (None, d) | Some (x, _) \<Rightarrow> (Some x, mtlk_sta_incref x d))"

definition mtlk_stadb_is_empty :: "sta_db \<Rightarrow> bool" where
  "mtlk_stadb_is_empty d = (db_cnt d = 0)"

definition mtlk_stadb_reset_cnts :: "sta_db \<Rightarrow> sta_db option" where
  "mtlk_stadb_reset_cnts d = db_foreach db_hash (on_station mtlk_sta_reset_cnts) d"

text \<open>The wait for outstanding packets between the two loops does not touch the database.\<close>
definition mtlk_stadb_disconnect_all :: "sta_db \<Rightarrow> sta_db option" where
  "mtlk_stadb_disconnect_all d =
     (case db_foreach db_hash (on_station (mtlk_sta_set_packets_filter MTLK_PCKT_FLTR_DISCARD_ALL)) d of
        None \<Rightarrow> None
      | Some d1 \<Rightarrow> db_foreach db_hash (\<lambda>x d. mtlk_stadb_remove_sta_internal x (db_emit (Disconnect_clb x) d)) d1)"

text \<open>The task scheduled to negotiate aggregation again.\<close>
definition mtlk_stadb_on_addba_revive_aggregation_tid :: "addba_env \<Rightarrow> mac_addr \<Rightarrow> nat \<Rightarrow> sta_db \<Rightarrow> sta_db" where
  "mtlk_stadb_on_addba_revive_aggregation_tid e mac tid d =
     (case mtlk_stadb_find_sta mac d of
        (None, d1) \<Rightarrow> d1
      | (Some x, d1) \<Rightarrow>
          mtlk_sta_decref x (on_station (\<lambda>s. s\<lparr>st_ba := mtlk_addba_peer_start_aggr_negotiation e tid (st_ba s)\<rparr>) x d1))"

text \<open>\<^verbatim>\<open>mtlk_stadb_iterator_t\<close>.\<close>
record stadb_iterator =
  it_arr :: "nat option list"
  it_size :: nat
  it_idx :: nat

definition mtlk_stadb_iterate_next :: "stadb_iterator \<Rightarrow> nat option \<times> stadb_iterator" where
  "mtlk_stadb_iterate_next it =
     (if it_idx it < it_size it then (it_arr it ! it_idx it, it\<lparr>it_idx := u32_inc (it_idx it)\<rparr>) else (None, it))"

text \<open>A null pointer in the array would be dereferenced.\<close>
definition decref_entry :: "nat option \<Rightarrow> sta_db \<Rightarrow> sta_db" where
  "decref_entry r d = (case r of None \<Rightarrow> d\<lparr>db_uaf := True\<rparr> | Some x \<Rightarrow> mtlk_sta_decref x d)"

definition mtlk_stadb_iterate_done :: "stadb_iterator \<Rightarrow> sta_db \<Rightarrow> sta_db" where
  "mtlk_stadb_iterate_done it d = fold decref_entry (take (it_size it) (it_arr it)) d"

definition mtlk_stadb_iterate_first :: "bool \<Rightarrow> sta_db \<Rightarrow> (nat option \<times> stadb_iterator option) \<times> sta_db" where
  "mtlk_stadb_iterate_first alloc d =
     (let size = db_cnt d in
      if size = 0 then ((None, None), d)
      else if \<not> alloc then ((None, None), d)
      else let xs = take size (entries (db_hash d));
               arr = map Some xs @ replicate (size - length xs) None;
               d1 = fold mtlk_sta_incref xs d;
               (res, it) = mtlk_stadb_iterate_next \<lparr>it_arr = arr, it_size = size, it_idx = 0\<rparr>
           in if res = None then ((None, None), mtlk_stadb_iterate_done it d1) else ((res, Some it), d1))"

section \<open>Hosts\<close>

definition mtlk_is_hst_behind_sta :: "host_entry \<Rightarrow> nat \<Rightarrow> bool" where
  "mtlk_is_hst_behind_sta h x = (ho_sta h = Some x)"

definition host_decref :: "host_entry \<Rightarrow> sta_db \<Rightarrow> sta_db" where
  "host_decref h d = (case ho_sta h of None \<Rightarrow> d\<lparr>db_uaf := True\<rparr> | Some x \<Rightarrow> mtlk_sta_decref x d)"

text \<open>\<^verbatim>\<open>_mtlk_hst_start\<close>: the station is referenced, and released again if the timer cannot be set.\<close>
definition mtlk_hst_start :: "nat \<Rightarrow> mtlk_error \<Rightarrow> nat \<Rightarrow> sta_db \<Rightarrow> mtlk_error \<times> host_entry \<times> sta_db" where
  "mtlk_hst_start now timer_res x d =
     (let d1 = mtlk_sta_incref x d in
      if timer_res = MTLK_ERR_OK then (MTLK_ERR_OK, \<lparr>ho_tstamp = now, ho_sta = Some x\<rparr>, d1)
      else (timer_res, \<lparr>ho_tstamp = now, ho_sta = None\<rparr>, mtlk_sta_decref x d1))"

definition mtlk_hst_stop :: "host_entry \<Rightarrow> sta_db \<Rightarrow> host_entry \<times> sta_db" where
  "mtlk_hst_stop h d = (h\<lparr>ho_sta := None\<rparr>, host_decref h d)"

definition mtlk_hst_update :: "nat \<Rightarrow> nat \<Rightarrow> host_entry \<Rightarrow> host_entry" where
  "mtlk_hst_update now x h = h\<lparr>ho_tstamp := now, ho_sta := Some x\<rparr>"

text \<open>The host with the smallest age; of equal ages, and of the age \<^verbatim>\<open>0xFFFFFFFF\<close>, the first and none, respectively.\<close>
definition newest_step :: "nat \<Rightarrow> sta_db \<Rightarrow> nat \<Rightarrow> nat option \<times> nat \<Rightarrow> nat option \<times> nat" where
  "newest_step now d y a =
     (case db_hosts d y of
        None \<Rightarrow> a
      | Some h \<Rightarrow> (let diff = u32_sub now (ho_tstamp h) in if diff < snd a then (Some y, diff) else a))"

definition mtlk_hstdb_recalc_default_host_unsafe :: "nat \<Rightarrow> sta_db \<Rightarrow> sta_db" where
  "mtlk_hstdb_recalc_default_host_unsafe now d =
     (case fst (fold (newest_step now d) (entries (hdb_hash d)) (None, u32_max - 1)) of
        None \<Rightarrow> d\<lparr>default_host := replicate 6 0\<rparr>
      | Some y \<Rightarrow> d\<lparr>default_host := h_key (h_ent (hdb_hash d) y)\<rparr>)"

definition mtlk_hstdb_update_default_host :: "(mac_addr \<Rightarrow> bool) \<Rightarrow> mac_addr \<Rightarrow> sta_db \<Rightarrow> sta_db" where
  "mtlk_hstdb_update_default_host valid mac d =
     (if \<not> valid (default_host d) \<or> default_host d = local_mac d
      then d\<lparr>default_host := mac\<rparr> else d)"

definition mtlk_hstdb_add_host ::
    "(mac_addr \<Rightarrow> bool) \<Rightarrow> bool \<Rightarrow> mtlk_error \<Rightarrow> mtlk_error \<Rightarrow> nat \<Rightarrow> nat \<Rightarrow> mac_addr \<Rightarrow> nat \<Rightarrow> sta_db \<Rightarrow> sta_db" where
  "mtlk_hstdb_add_host valid alloc init_res timer_res now y mac x d =
     (if \<not> alloc then d
      else if init_res \<noteq> MTLK_ERR_OK then d
      else case mtlk_hst_start now timer_res x d of (res, h, d1) \<Rightarrow>
        if res \<noteq> MTLK_ERR_OK then d1
        else case mtlk_hash_insert mac y (hdb_hash d1) of
          (None, hh) \<Rightarrow>
            mtlk_hstdb_update_default_host valid mac
              (mtlk_sta_incref x (d1\<lparr>db_hosts := (db_hosts d1)(y \<mapsto> h), hdb_hash := hh, hdb_cnt := u32_inc (hdb_cnt d1)\<rparr>))
        | (Some _, hh) \<Rightarrow> snd (mtlk_hst_stop h (d1\<lparr>hdb_hash := hh\<rparr>)))"

definition mtlk_hstdb_update_host ::
    "(mac_addr \<Rightarrow> bool) \<Rightarrow> bool \<Rightarrow> mtlk_error \<Rightarrow> mtlk_error \<Rightarrow> nat \<Rightarrow> nat \<Rightarrow> mac_addr \<Rightarrow> nat \<Rightarrow> sta_db \<Rightarrow> sta_db" where
  "mtlk_hstdb_update_host valid alloc init_res timer_res now y mac x d =
     (case mtlk_hash_find mac (hdb_hash d) of
        Some z \<Rightarrow> (case db_hosts d z of
                     None \<Rightarrow> d\<lparr>db_uaf := True\<rparr>
                   | Some h \<Rightarrow> d\<lparr>db_hosts := (db_hosts d)(z \<mapsto> mtlk_hst_update now x h)\<rparr>)
      | None \<Rightarrow> mtlk_hstdb_add_host valid alloc init_res timer_res now y mac x d)"

definition mtlk_hstdb_remove_host_unsafe :: "nat \<Rightarrow> sta_db \<Rightarrow> sta_db" where
  "mtlk_hstdb_remove_host_unsafe y d =
     (case db_hosts d y of
        None \<Rightarrow> d\<lparr>db_uaf := True\<rparr>
      | Some h \<Rightarrow> (let d1 = snd (mtlk_hst_stop h (host_decref h d)) in d1\<lparr>db_hosts := (db_hosts d1)(y := None)\<rparr>))"

definition mtlk_hstdb_hash_remove :: "nat \<Rightarrow> sta_db \<Rightarrow> sta_db" where
  "mtlk_hstdb_hash_remove y d = d\<lparr>hdb_cnt := u32_dec (hdb_cnt d), hdb_hash := mtlk_hash_remove y (hdb_hash d)\<rparr>"

definition mtlk_hstdb_remove_host :: "nat \<Rightarrow> nat \<Rightarrow> sta_db \<Rightarrow> sta_db" where
  "mtlk_hstdb_remove_host now y d =
     (let mac = h_key (h_ent (hdb_hash d) y);
          d1 = mtlk_hstdb_hash_remove y d;
          d2 = (if default_host d1 = mac then mtlk_hstdb_recalc_default_host_unsafe now d1 else d1)
      in mtlk_hstdb_remove_host_unsafe y d2)"

text \<open>The body of the loop of \<^verbatim>\<open>mtlk_hstdb_remove_all_by_sta\<close>, with the flag \<^verbatim>\<open>recalc_def_host\<close>.\<close>
definition remove_if_behind :: "nat \<Rightarrow> nat \<Rightarrow> sta_db \<times> bool \<Rightarrow> sta_db \<times> bool" where
  "remove_if_behind x y a =
     (let (d, recalc) = a in
      case db_hosts d y of
        None \<Rightarrow> (d\<lparr>db_uaf := True\<rparr>, recalc)
      | Some h \<Rightarrow>
          if mtlk_is_hst_behind_sta h x then
            (let mac = h_key (h_ent (hdb_hash d) y)
             in (mtlk_hstdb_remove_host_unsafe y (mtlk_hstdb_hash_remove y d), recalc \<or> default_host d = mac))
          else (d, recalc))"

definition mtlk_hstdb_remove_all_by_sta :: "nat \<Rightarrow> nat \<Rightarrow> sta_db \<Rightarrow> (mtlk_error \<times> sta_db) option" where
  "mtlk_hstdb_remove_all_by_sta now x d =
     map_option (\<lambda>(d', recalc). (MTLK_ERR_OK, if recalc then mtlk_hstdb_recalc_default_host_unsafe now d' else d'))
       (db_foreach (\<lambda>a. hdb_hash (fst a)) (remove_if_behind x) (d, False))"

text \<open>The timer of a host; 0 stops it.\<close>
definition mtlk_host_wds_disconnect_tmr :: "(nat \<Rightarrow> nat) \<Rightarrow> nat \<Rightarrow> nat \<Rightarrow> sta_db \<Rightarrow> nat \<times> sta_db" where
  "mtlk_host_wds_disconnect_tmr to_ms now y d =
     (let timeout = (wds_host_timeout d * 1000) mod u32_max in
      case db_hosts d y of
        None \<Rightarrow> (0, d\<lparr>db_uaf := True\<rparr>)
      | Some h \<Rightarrow>
          if ho_sta h = None then (0, d)
          else if timeout = 0 then (DEFAULT_KEEPALIVE_TIMEOUT, d)
          else let msecs = to_ms (u32_sub now (ho_tstamp h)) in
          if timeout \<le> msecs then (0, mtlk_hstdb_remove_host now y d) else (timeout - msecs, d))"

definition mtlk_hstdb_find_sta :: "mac_addr \<Rightarrow> sta_db \<Rightarrow> nat option \<times> sta_db" where
  "mtlk_hstdb_find_sta mac d =
     (case mtlk_hash_find mac (hdb_hash d) of
        None \<Rightarrow> (None, d)
      | Some y \<Rightarrow> (case db_hosts d y of
          None \<Rightarrow> (None, d\<lparr>db_uaf := True\<rparr>)
        | Some h \<Rightarrow> (case ho_sta h of None \<Rightarrow> (None, d\<lparr>db_uaf := True\<rparr>) | Some x \<Rightarrow> (Some x, mtlk_sta_incref x d))))"

definition mtlk_hstdb_set_local_mac :: "(mac_addr \<Rightarrow> bool) \<Rightarrow> mac_addr \<Rightarrow> sta_db \<Rightarrow> mtlk_error \<times> sta_db" where
  "mtlk_hstdb_set_local_mac valid mac d =
     (if valid mac then (MTLK_ERR_OK, d\<lparr>local_mac := mac\<rparr>) else (MTLK_ERR_PARAMS, d))"

definition mtlk_hstdb_get_default_host :: "(mac_addr \<Rightarrow> bool) \<Rightarrow> sta_db \<Rightarrow> mac_addr option" where
  "mtlk_hstdb_get_default_host valid d = (if valid (default_host d) then Some (default_host d) else None)"

text \<open>\<^verbatim>\<open>mtlk_hstdb_iterate_first\<close>: the addresses of the hosts behind a station, zero filled.\<close>
definition mtlk_hstdb_iterate_addrs :: "nat \<Rightarrow> sta_db \<Rightarrow> mac_addr list" where
  "mtlk_hstdb_iterate_addrs x d =
     (let ys = take (hdb_cnt d) (filter (\<lambda>y. case db_hosts d y of Some h \<Rightarrow> mtlk_is_hst_behind_sta h x | None \<Rightarrow> False) (entries (hdb_hash d)));
          as = map (\<lambda>y. h_key (h_ent (hdb_hash d) y)) ys
      in as @ replicate (hdb_cnt d - length as) (replicate 6 0))"

end
