(* ===== verification/Stadb_Refs.thy ===== *)
theory Stadb_Refs
  imports Stadb
begin

text \<open>
  Reference accounting of the station and host databases.  In every reachable state the reference count of a station is the number
  of its holders: one for the station table, two for every host behind it and one for each reference given to a
  caller.  So a station is freed exactly when nobody refers to it, and no freed object is used, as long as a host stays
  behind the station it was registered with; the second theorem shows that this is needed.
\<close>

section \<open>Enumerating with a body that changes the state\<close>

lemma db_loop_visits:
  assumes "hash_ok (get d)" "cursor_ok (get d) e" "length (remaining (get d) e) \<le> f"
    and body: "\<And>x d. get (body x d) = get d \<or> get (body x d) = mtlk_hash_remove x (get d)"
  shows "db_loop f get body (mtlk_hash_enum_next (get d) e) d = Some (fold body (remaining (get d) e) d)"
  using assms(1-3)
proof (induction f arbitrary: d e)
  case 0
  then show ?case using enum_next_remaining [of "get d" e] by (cases "mtlk_hash_enum_next (get d) e") (auto simp: cursor_ok_def)
next
  case (Suc f)
  note E = enum_next_remaining [of "get d" e]
  show ?case
  proof (cases "mtlk_hash_enum_next (get d) e")
    case None
    then show ?thesis using E Suc.prems by (simp add: cursor_ok_def)
  next
    case (Some r)
    obtain x c i where r: "r = (x, c, i)" by (cases r) auto
    have R: "remaining (get d) e = x # remaining (get d) (c, i)" "i < nof_buckets (get d)" "x \<in> set (h_lists (get d) ! i)"
      "\<forall>y. c = Some y \<longrightarrow> y \<in> set (h_lists (get d) ! i)"
      using E Suc.prems Some r by (auto simp: cursor_ok_def)
    have x: "x \<notin> set (remaining (get d) (c, i))"
      using distinct_remaining [OF Suc.prems(1), of e] Suc.prems(2) R(1) by (simp add: cursor_ok_def)
    have G: "hash_ok (get (body x d))" "remaining (get (body x d)) (c, i) = remaining (get d) (c, i)"
      "nof_buckets (get (body x d)) = nof_buckets (get d)" "\<forall>y. c = Some y \<longrightarrow> y \<in> set (h_lists (get (body x d)) ! i)"
      using body [of x d] gentle_remaining [OF Suc.prems(1) gentle_remove R(2,3) x R(4)] Suc.prems(1) R(4) by auto
    have "cursor_ok (get (body x d)) (c, i)" using G(3,4) R(2) by (simp add: cursor_ok_def)
    from Suc.IH [OF G(1) this] show ?thesis using Some r R(1) G(2) Suc.prems(3) by (simp add: Let_def)
  qed
qed

lemma enum_first_cursor:
  assumes "hash_ok h"
  shows "remaining h (dlist_first (h_lists h ! 0), 0) = entries h" "cursor_ok h (dlist_first (h_lists h ! 0), 0)"
proof -
  have n: "0 < nof_buckets h" using assms by (simp add: hash_ok_def)
  then obtain l ls where L: "h_lists h = l # ls" by (cases "h_lists h") (auto simp: nof_buckets_def)
  show "remaining h (dlist_first (h_lists h ! 0), 0) = entries h"
    using L by (cases l) (auto simp: remaining_def from_entry_def dlist_first_def entries_def)
  show "cursor_ok h (dlist_first (h_lists h ! 0), 0)"
    using n L by (cases l) (auto simp: cursor_ok_def dlist_first_def)
qed

lemma db_foreach_visits:
  assumes "hash_ok (get d)" "\<And>x d. get (body x d) = get d \<or> get (body x d) = mtlk_hash_remove x (get d)"
  shows "db_foreach get body d = Some (fold body (entries (get d)) d)"
  using db_loop_visits [OF assms(1) enum_first_cursor(2) [OF assms(1)] _ assms(2), of "length (entries (get d))"]
    enum_first_cursor(1) [OF assms(1)]
  by (simp add: db_foreach_def mtlk_hash_enum_first_def)

lemma enum_first_entries:
  assumes "hash_ok h"
  shows "case mtlk_hash_enum_first h of None \<Rightarrow> entries h = [] | Some (x, _) \<Rightarrow> x \<in> set (entries h)"
  using enum_next_remaining [OF assms, of "(dlist_first (h_lists h ! 0), 0)"] enum_first_cursor [OF assms]
  by (auto simp: mtlk_hash_enum_first_def cursor_ok_def split: option.splits simp del: set_concat)

section \<open>Counts\<close>

text \<open>Every live station has the count \<open>R\<close> says, and it is positive; nobody refers to a freed one.\<close>
definition counts :: "(nat \<Rightarrow> nat) \<Rightarrow> sta_db \<Rightarrow> bool" where
  "counts R d = ((\<forall>x. db_heap d x = None \<longrightarrow> R x = 0) \<and> (\<forall>x s. db_heap d x = Some s \<longrightarrow> st_ref s = R x \<and> 0 < R x))"

lemma counts_live: "counts R d \<Longrightarrow> 0 < R x \<Longrightarrow> \<exists>s. db_heap d x = Some s \<and> st_ref s = R x"
  by (cases "db_heap d x") (auto simp: counts_def)

lemma counts_dead: "counts R d \<Longrightarrow> R x = 0 \<Longrightarrow> db_heap d x = None"
  unfolding counts_def by (metis less_numeral_extra(3) not_None_eq)

lemma counts_cong: "db_heap d' = db_heap d \<Longrightarrow> counts R d' = counts R d"
  by (simp add: counts_def)

text \<open>Everything but the station objects is as before.\<close>
definition same_tables :: "sta_db \<Rightarrow> sta_db \<Rightarrow> bool" where
  "same_tables d d' = (db_hash d' = db_hash d \<and> db_cnt d' = db_cnt d \<and> db_hosts d' = db_hosts d \<and> hdb_hash d' = hdb_hash d
     \<and> hdb_cnt d' = hdb_cnt d \<and> db_uaf d' = db_uaf d)"

lemma incref_counts:
  assumes "counts R d" "0 < R x" "R x + 1 < u32_max"
  shows "counts (R(x := R x + 1)) (mtlk_sta_incref x d)" "same_tables d (mtlk_sta_incref x d)"
proof -
  obtain s where s: "db_heap d x = Some s" "st_ref s = R x" using counts_live [OF assms(1,2)] by blast
  show "counts (R(x := R x + 1)) (mtlk_sta_incref x d)"
    using assms s by (auto simp: counts_def mtlk_sta_incref_def on_station_def u32_simps)
  show "same_tables d (mtlk_sta_incref x d)" using s by (simp add: same_tables_def mtlk_sta_incref_def on_station_def)
qed

lemma decref_counts:
  assumes "counts R d" "0 < R x" "R x < u32_max"
  shows "counts (R(x := R x - 1)) (mtlk_sta_decref x d)" "same_tables d (mtlk_sta_decref x d)"
proof -
  obtain s where s: "db_heap d x = Some s" "st_ref s = R x" using counts_live [OF assms(1,2)] by blast
  have "u32_dec (st_ref s) = R x - 1" using assms s by (simp add: u32_simps)
  then show "counts (R(x := R x - 1)) (mtlk_sta_decref x d)"
    using assms s by (auto simp: counts_def mtlk_sta_decref_def)
  show "same_tables d (mtlk_sta_decref x d)" using s by (simp add: same_tables_def mtlk_sta_decref_def)
qed

lemma on_station_counts:
  assumes "counts R d" "0 < R x" "\<And>s. st_ref (f s) = st_ref s"
  shows "counts R (on_station f x d)" "same_tables d (on_station f x d)"
proof -
  obtain s where s: "db_heap d x = Some s" "st_ref s = R x" using counts_live [OF assms(1,2)] by blast
  show "counts R (on_station f x d)" using assms s by (auto simp: counts_def on_station_def)
  show "same_tables d (on_station f x d)" using s by (simp add: same_tables_def on_station_def)
qed

lemma same_tables_trans: "same_tables d d1 \<Longrightarrow> same_tables d1 d2 \<Longrightarrow> same_tables d d2"
  by (simp add: same_tables_def)

lemma same_tables_refl [simp]: "same_tables d d"
  by (simp add: same_tables_def)

section \<open>The holders of a station\<close>

definition members :: "hash \<Rightarrow> nat set" where
  "members h = set (entries h)"

definition behind :: "sta_db \<Rightarrow> nat \<Rightarrow> nat set" where
  "behind d x = {y \<in> members (hdb_hash d). map_option ho_sta (db_hosts d y) = Some (Some x)}"

definition refs :: "nat multiset \<Rightarrow> sta_db \<Rightarrow> nat \<Rightarrow> nat" where
  "refs H d x = count H x + of_bool (x \<in> members (db_hash d)) + 2 * card (behind d x)"

definition tables_ok :: "sta_db \<Rightarrow> bool" where
  "tables_ok d = (hash_ok (db_hash d) \<and> hash_ok (hdb_hash d) \<and> db_cnt d = card (members (db_hash d)) \<and> hdb_cnt d = card (members (hdb_hash d))
     \<and> (\<forall>y. db_hosts d y \<noteq> None \<longleftrightarrow> y \<in> members (hdb_hash d)) \<and> (\<forall>y h. db_hosts d y = Some h \<longrightarrow> ho_sta h \<noteq> None))"

definition db_inv :: "nat multiset \<Rightarrow> sta_db \<Rightarrow> bool" where
  "db_inv H d = (tables_ok d \<and> counts (refs H d) d \<and> \<not> db_uaf d)"

text \<open>No counter is about to wrap.\<close>
definition roomy :: "nat multiset \<Rightarrow> sta_db \<Rightarrow> bool" where
  "roomy H d = ((\<forall>x. refs H d x + 3 < u32_max) \<and> db_cnt d + 1 < u32_max \<and> hdb_cnt d + 1 < u32_max)"

lemma roomyD: "roomy H d \<Longrightarrow> refs H d x + 3 < u32_max" "roomy H d \<Longrightarrow> db_cnt d + 1 < u32_max" "roomy H d \<Longrightarrow> hdb_cnt d + 1 < u32_max"
  by (auto simp: roomy_def)

lemma finite_members [simp]: "finite (members h)"
  by (simp add: members_def)

lemma finite_behind [simp]: "finite (behind d x)"
  by (simp add: behind_def)

lemma hash_insert_members:
  assumes "hash_ok h" "length k = 6" "x \<notin> members h" "mtlk_hash_insert k x h = (r, h')"
  shows "hash_ok h' \<and> (case r of None \<Rightarrow> members h' = insert x (members h) | Some _ \<Rightarrow> h' = h)"
proof (cases "mtlk_hash_find k h")
  case None
  then have v: "hash_view h k = None" using hash_find_view [OF assms(1)] by simp
  have "x \<notin> set (concat (h_lists h))" using assms(3) unfolding members_def entries_def .
  from hash_link_ok [OF assms(1,2) v this] have L: "hash_ok (hash_link k x h)" "ran (hash_view (hash_link k x h)) = insert x (ran (hash_view h))"
    using v by (simp_all add: ran_map_upd)
  have "members (hash_link k x h) = insert x (members h)"
    using L hash_view_ran [OF L(1)] hash_view_ran [OF assms(1)] by (simp only: members_def entries_def)
  then show ?thesis using assms(4) None L(1) by (auto simp: mtlk_hash_insert_def)
qed (use assms in \<open>auto simp: mtlk_hash_insert_def split: option.split\<close>)

lemma hash_remove_members:
  assumes "hash_ok h" "x \<in> members h"
  shows "hash_ok (mtlk_hash_remove x h)" "members (mtlk_hash_remove x h) = members h - {x}"
proof -
  have "distinct [x]" "set [x] \<subseteq> set (concat (h_lists h))" using assms(2) by (simp_all add: members_def entries_def)
  from hash_remove_all [OF assms(1) this] show "hash_ok (mtlk_hash_remove x h)" "members (mtlk_hash_remove x h) = members h - {x}"
    by (simp_all only: fold.simps id_apply o_apply members_def entries_def) auto
qed

lemma hash_find_member:
  assumes "hash_ok h" "mtlk_hash_find k h = Some x"
  shows "x \<in> members h"
  using assms hash_find_view [OF assms(1)] hash_view_iff [OF assms(1)] by (simp add: members_def entries_def del: set_concat)

lemma same_tables_refs:
  assumes "same_tables d d'"
  shows "refs H d' = refs H d" "behind d' = behind d" "tables_ok d' = tables_ok d" "roomy H d' = roomy H d"
proof -
  show b: "behind d' = behind d" using assms by (auto simp: fun_eq_iff behind_def same_tables_def)
  show r: "refs H d' = refs H d" using assms b by (simp add: fun_eq_iff refs_def same_tables_def)
  show "tables_ok d' = tables_ok d" "roomy H d' = roomy H d" using assms r by (simp_all add: tables_ok_def roomy_def same_tables_def)
qed

lemma db_inv_move:
  assumes "db_inv H d" "same_tables d d'" "counts (refs H' d) d'"
  shows "db_inv H' d'"
  using assms same_tables_refs [OF assms(2)] by (simp add: db_inv_def same_tables_def)

text \<open>A reference is given to a caller, or given back.\<close>
lemma incref_inv:
  assumes "db_inv H d" "roomy H d" "0 < refs H d x"
  shows "db_inv (add_mset x H) (mtlk_sta_incref x d)"
proof -
  have c: "counts (refs H d) d" using assms(1) by (simp add: db_inv_def)
  have "refs (add_mset x H) d = (refs H d)(x := refs H d x + 1)" by (auto simp: refs_def)
  then show ?thesis using db_inv_move [OF assms(1) incref_counts(2) [OF c assms(3)]] incref_counts(1) [OF c assms(3)] roomyD(1) [OF assms(2), of x] by simp
qed

lemma decref_inv:
  assumes "db_inv H d" "roomy H d" "x \<in># H"
  shows "db_inv (H - {#x#}) (mtlk_sta_decref x d)"
proof -
  have c: "counts (refs H d) d" using assms(1) by (simp add: db_inv_def)
  have p: "0 < refs H d x" "refs H d x < u32_max" using assms(3) roomyD(1) [OF assms(2), of x] by (auto simp: refs_def)
  have "refs (H - {#x#}) d = (refs H d)(x := refs H d x - 1)" using assms(3) by (auto simp: refs_def)
  then show ?thesis using db_inv_move [OF assms(1) decref_counts(2) [OF c p]] decref_counts(1) [OF c p] by simp
qed

lemma member_refs: "x \<in> members (db_hash d) \<Longrightarrow> 0 < refs H d x"
  by (simp add: refs_def)

section \<open>Station operations keep the accounts\<close>

lemma db_invD:
  assumes "db_inv H d"
  shows "hash_ok (db_hash d)" "hash_ok (hdb_hash d)" "db_cnt d = card (members (db_hash d))" "hdb_cnt d = card (members (hdb_hash d))"
    "counts (refs H d) d" "\<not> db_uaf d" "tables_ok d"
  using assms by (auto simp: db_inv_def tables_ok_def)

lemma fresh_refs:
  assumes "db_inv H d" "db_heap d x = None"
  shows "x \<notin># H" "x \<notin> members (db_hash d)" "behind d x = {}"
proof -
  have "refs H d x = 0" using db_invD(5) [OF assms(1)] assms(2) by (simp add: counts_def)
  then show "x \<notin># H" "x \<notin> members (db_hash d)" "behind d x = {}" by (auto simp: refs_def not_in_iff split: if_splits)
qed

lemma add_sta_inv:
  assumes "db_inv H d" "roomy H d" "db_heap d x = None" "length mac = 6"
    and "mtlk_stadb_add_sta alloc init_res start_res x s0 mac d = (r, d')"
  shows "case r of None \<Rightarrow> db_inv H d' | Some z \<Rightarrow> z = x \<and> db_inv (add_mset x H) d'"
proof (cases "alloc \<and> init_res = MTLK_ERR_OK \<and> start_res = MTLK_ERR_OK")
  case False
  have "d\<lparr>db_heap := (db_heap d)(x := None)\<rparr> = d" using assms(3) by (simp add: fun_upd_idem)
  then show ?thesis using False assms(1,5)
    by (auto simp: mtlk_stadb_add_sta_def mtlk_sta_incref_def on_station_def Let_def split: if_splits)
next
  case True
  note F = fresh_refs [OF assms(1,3)] and D = db_invD [OF assms(1)]
  obtain q h where q: "mtlk_hash_insert mac x (db_hash d) = (q, h)" by fastforce
  note M = hash_insert_members [OF D(1) assms(4) F(2) q]
  have one: "u32_inc 0 = 1" "u32_inc (Suc 0) = 2" "u32_inc (db_cnt d) = db_cnt d + 1"
    using roomyD(2) [OF assms(2)] by (simp_all add: u32_simps u32_inc_def u32_max_def)
  show ?thesis
  proof (cases q)
    case None
    then have m: "members h = insert x (members (db_hash d))" "hash_ok h" using M by auto
    define e where "e = d\<lparr>db_heap := (db_heap d)(x \<mapsto> s0\<lparr>st_ref := 2\<rparr>), db_hash := h, db_cnt := db_cnt d + 1\<rparr>"
    have e: "r = Some x" "d' = e"
      using assms(5) True None q one by (auto simp: mtlk_stadb_add_sta_def mtlk_sta_incref_def on_station_def Let_def e_def)
    have "behind e = behind d" by (auto simp: fun_eq_iff behind_def e_def)
    then have "refs (add_mset x H) e = (refs H d)(x := 2)" using F m by (auto simp: fun_eq_iff refs_def e_def not_in_iff)
    then have "counts (refs (add_mset x H) e) e" using D(5) assms(3) by (auto simp: counts_def e_def)
    moreover have "tables_ok e" using D(3,7) m F(2) by (simp add: tables_ok_def e_def)
    ultimately show ?thesis using e D(6) by (simp add: db_inv_def e_def)
  next
    case (Some z)
    have "d' = db_emit (Sta_stop x) (d\<lparr>db_hash := h, db_heap := (db_heap d)(x := None)\<rparr>)" "r = None" "h = db_hash d"
      using assms(5) True Some q M by (auto simp: mtlk_stadb_add_sta_def mtlk_sta_incref_def on_station_def Let_def)
    then have s: "same_tables d d'" "db_heap d' = db_heap d" "r = None" using assms(3) by (auto simp: same_tables_def db_emit_def)
    then show ?thesis using db_inv_move [OF assms(1) s(1), of H] counts_cong [OF s(2), of "refs H d"] D(5) by simp
  qed
qed

lemma find_sta_inv:
  assumes "db_inv H d" "roomy H d" "mtlk_stadb_find_sta mac d = (r, d')"
  shows "case r of None \<Rightarrow> d' = d | Some x \<Rightarrow> x \<in> members (db_hash d) \<and> db_inv (add_mset x H) d'"
  using assms incref_inv [OF assms(1,2)] member_refs hash_find_member [OF db_invD(1) [OF assms(1)]]
  by (auto simp: mtlk_stadb_find_sta_def split: option.splits)

lemma get_ap_inv:
  assumes "db_inv H d" "roomy H d" "mtlk_stadb_get_ap d = (r, d')"
  shows "case r of None \<Rightarrow> d' = d | Some x \<Rightarrow> x \<in> members (db_hash d) \<and> db_inv (add_mset x H) d'"
  using assms incref_inv [OF assms(1,2)] member_refs enum_first_entries [OF db_invD(1) [OF assms(1)]]
  by (auto simp: mtlk_stadb_get_ap_def members_def split: option.splits)

lemma remove_sta_inv:
  assumes "db_inv H d" "roomy H d" "x \<in> members (db_hash d)"
  shows "db_inv H (mtlk_stadb_remove_sta_internal x d)"
    "members (db_hash (mtlk_stadb_remove_sta_internal x d)) = members (db_hash d) - {x}"
    "roomy H (mtlk_stadb_remove_sta_internal x d)"
proof -
  note D = db_invD [OF assms(1)]
  note R = hash_remove_members [OF D(1) assms(3)]
  define e where "e = db_emit (Sta_stop x) (db_emit (Mc_drop_sta (h_key (h_ent (db_hash d) x)))
     (d\<lparr>db_cnt := u32_dec (db_cnt d), db_hash := mtlk_hash_remove x (db_hash d)\<rparr>))"
  have d': "mtlk_stadb_remove_sta_internal x d = mtlk_sta_decref x e"
    by (simp add: mtlk_stadb_remove_sta_internal_def e_def Let_def)
  have f: "db_heap e = db_heap d" "db_hash e = mtlk_hash_remove x (db_hash d)" "db_hosts e = db_hosts d" "hdb_hash e = hdb_hash d"
    "hdb_cnt e = hdb_cnt d" "db_uaf e = db_uaf d" "db_cnt e = u32_dec (db_cnt d)" by (simp_all add: e_def db_emit_def)
  have p: "0 < refs H d x" "refs H d x < u32_max" using member_refs [OF assms(3)] roomyD(1) [OF assms(2), of x] by auto
  have "counts (refs H d) e" using D(5) f(1) by (simp add: counts_def)
  note C = decref_counts [OF this p]
  have "behind e = behind d" using f by (auto simp: fun_eq_iff behind_def)
  then have refs: "refs H e = (refs H d)(x := refs H d x - 1)" using assms(3) R(2) f(2) by (auto simp: fun_eq_iff refs_def)
  have cnt: "u32_dec (db_cnt d) = db_cnt d - 1" "0 < db_cnt d"
    using D(3) assms(3) roomyD(2) [OF assms(2)] card_gt_0_iff [of "members (db_hash d)"] by (auto simp: u32_simps)
  have "tables_ok e" using D(3,7) f R assms(3) cnt by (simp add: tables_ok_def card_Diff_singleton)
  then have "tables_ok (mtlk_sta_decref x e)" using same_tables_refs(3) [OF C(2)] by simp
  then show "db_inv H (mtlk_stadb_remove_sta_internal x d)"
    unfolding d' db_inv_def using C refs same_tables_refs(1) [OF C(2)] D(6) f(6) by (simp add: same_tables_def)
  show "members (db_hash (mtlk_stadb_remove_sta_internal x d)) = members (db_hash d) - {x}"
    unfolding d' using C(2) f(2) R(2) by (simp add: same_tables_def)
  have "refs H d x - 1 + 3 < u32_max" using roomyD(1) [OF assms(2), of x] by linarith
  then have "roomy H e" unfolding roomy_def refs f cnt using roomyD [OF assms(2)] cnt by (auto simp: less_imp_diff_less)
  then show "roomy H (mtlk_stadb_remove_sta_internal x d)" unfolding d' using same_tables_refs(4) [OF C(2)] by simp
qed

lemma fold_on_station:
  assumes "counts R d" "\<forall>x \<in> set xs. 0 < R x" "\<And>s. st_ref (f s) = st_ref s"
  shows "counts R (fold (on_station f) xs d)" "same_tables d (fold (on_station f) xs d)"
proof -
  have "counts R (fold (on_station f) xs d) \<and> same_tables d (fold (on_station f) xs d)"
    using assms(1,2)
  proof (induction xs arbitrary: d)
    case (Cons x xs)
    have "counts R (on_station f x d)" "same_tables d (on_station f x d)" using on_station_counts [OF Cons.prems(1) _ assms(3)] Cons.prems(2) by auto
    then show ?case using Cons.IH [of "on_station f x d"] Cons.prems(2) by (auto intro: same_tables_trans)
  qed simp
  then show "counts R (fold (on_station f) xs d)" "same_tables d (fold (on_station f) xs d)" by blast+
qed

lemma foreach_station_inv:
  assumes "db_inv H d" "\<And>s. st_ref (f s) = st_ref s"
  shows "\<exists>d'. db_foreach db_hash (on_station f) d = Some d' \<and> db_inv H d' \<and> same_tables d d'"
proof -
  note D = db_invD [OF assms(1)]
  have "db_hash (on_station f x d) = db_hash d" for x d by (simp add: on_station_def split: option.split)
  then have "db_foreach db_hash (on_station f) d = Some (fold (on_station f) (entries (db_hash d)) d)"
    using db_foreach_visits [where get = db_hash and d = d] D(1) by blast
  moreover have "\<forall>x \<in> set (entries (db_hash d)). 0 < refs H d x" using member_refs by (simp add: members_def)
  note F = fold_on_station [OF D(5) this assms(2)]
  ultimately show ?thesis using F db_inv_move [OF assms(1) F(2)] by blast
qed

lemma fold_remove_inv:
  assumes "db_inv H d" "roomy H d" "distinct xs" "set xs \<subseteq> members (db_hash d)"
  shows "db_inv H (fold (\<lambda>x d. mtlk_stadb_remove_sta_internal x (db_emit (Disconnect_clb x) d)) xs d)
    \<and> members (db_hash (fold (\<lambda>x d. mtlk_stadb_remove_sta_internal x (db_emit (Disconnect_clb x) d)) xs d)) = members (db_hash d) - set xs"
  using assms
proof (induction xs arbitrary: d)
  case (Cons x xs)
  let ?e = "db_emit (Disconnect_clb x) d"
  have s: "same_tables d ?e" "db_heap ?e = db_heap d" by (simp_all add: same_tables_def db_emit_def)
  have e: "db_inv H ?e" "roomy H ?e" "x \<in> members (db_hash ?e)"
    using Cons.prems(2,4) db_inv_move [OF Cons.prems(1) s(1)] counts_cong [OF s(2)] db_invD(5) [OF Cons.prems(1)] same_tables_refs(4) [OF s(1)] s(1)
    by (simp_all add: same_tables_def)
  note R = remove_sta_inv [OF e]
  have "set xs \<subseteq> members (db_hash (mtlk_stadb_remove_sta_internal x ?e))"
    using R(2) Cons.prems(3,4) s(1) by (auto simp: same_tables_def)
  from Cons.IH [OF R(1,3) _ this] Cons.prems(3) R(2) s(1) show ?case by (auto simp: same_tables_def)
qed simp

lemma set_filter_ref: "st_ref (mtlk_sta_set_packets_filter f s) = st_ref s"
  by (simp add: mtlk_sta_set_packets_filter_def mtlk_sta_reset_tx_cntrs_def)

lemma disconnect_all_inv:
  assumes "db_inv H d" "roomy H d"
  shows "\<exists>d'. mtlk_stadb_disconnect_all d = Some d' \<and> db_inv H d' \<and> members (db_hash d') = {}"
proof -
  obtain d1 where 1: "db_foreach db_hash (on_station (mtlk_sta_set_packets_filter MTLK_PCKT_FLTR_DISCARD_ALL)) d = Some d1"
    "db_inv H d1" "same_tables d d1"
    using foreach_station_inv [where f = "mtlk_sta_set_packets_filter MTLK_PCKT_FLTR_DISCARD_ALL", OF assms(1) set_filter_ref] by blast
  let ?b = "\<lambda>x d. mtlk_stadb_remove_sta_internal x (db_emit (Disconnect_clb x) d)"
  have "db_hash (?b x e) = db_hash e \<or> db_hash (?b x e) = mtlk_hash_remove x (db_hash e)" for x e
    by (simp add: mtlk_stadb_remove_sta_internal_def mtlk_sta_decref_def db_emit_def Let_def split: option.split)
  then have 2: "db_foreach db_hash ?b d1 = Some (fold ?b (entries (db_hash d1)) d1)"
    by (rule db_foreach_visits [where get = db_hash, OF db_invD(1) [OF 1(2)]])
  have "distinct (entries (db_hash d1))" using db_invD(1) [OF 1(2)] by (simp add: hash_ok_def entries_def)
  from fold_remove_inv [OF 1(2) _ this] show ?thesis
    using 1(1) 2 same_tables_refs(4) [OF 1(3)] assms(2) by (simp add: mtlk_stadb_disconnect_all_def members_def)
qed

text \<open>An iterator holds one reference to every station until it is done.\<close>
lemma fold_incref:
  assumes "counts R d" "distinct xs" "\<forall>x \<in> set xs. 0 < R x \<and> R x + 1 < u32_max"
  shows "counts (\<lambda>x. R x + of_bool (x \<in> set xs)) (fold mtlk_sta_incref xs d) \<and> same_tables d (fold mtlk_sta_incref xs d)"
  using assms
proof (induction xs arbitrary: d R)
  case (Cons x xs)
  have x: "0 < R x" "R x + 1 < u32_max" using Cons.prems(3) by auto
  note I = incref_counts [OF Cons.prems(1) x]
  have "(\<lambda>z. (R(x := R x + 1)) z + of_bool (z \<in> set xs)) = (\<lambda>z. R z + of_bool (z \<in> set (x # xs)))"
    using Cons.prems(2) by (auto simp: fun_eq_iff)
  moreover have "\<forall>z \<in> set xs. 0 < (R(x := R x + 1)) z \<and> (R(x := R x + 1)) z + 1 < u32_max" using Cons.prems(2,3) by auto
  from Cons.IH [OF I(1) _ this] Cons.prems(2) have "counts (\<lambda>z. (R(x := R x + 1)) z + of_bool (z \<in> set xs)) (fold mtlk_sta_incref xs (mtlk_sta_incref x d))
    \<and> same_tables (mtlk_sta_incref x d) (fold mtlk_sta_incref xs (mtlk_sta_incref x d))" by simp
  ultimately show ?case using I(2) by (auto intro: same_tables_trans)
qed simp

lemma fold_decref_inv:
  assumes "db_inv (mset xs + H) d" "\<forall>x. refs (mset xs + H) d x < u32_max"
  shows "db_inv H (fold mtlk_sta_decref xs d) \<and> same_tables d (fold mtlk_sta_decref xs d)"
  using assms
proof (induction xs arbitrary: d)
  case (Cons x xs)
  have c: "counts (refs (mset (x # xs) + H) d) d" using db_invD(5) [OF Cons.prems(1)] .
  have p: "0 < refs (mset (x # xs) + H) d x" "refs (mset (x # xs) + H) d x < u32_max"
    using Cons.prems(2) [THEN spec, of x] by (simp_all add: refs_def)
  note C = decref_counts [OF c p]
  have r: "(refs (mset (x # xs) + H) d)(x := refs (mset (x # xs) + H) d x - 1) = refs (mset xs + H) d" by (auto simp: fun_eq_iff refs_def)
  have i: "db_inv (mset xs + H) (mtlk_sta_decref x d)" using db_inv_move [OF Cons.prems(1) C(2)] C(1) unfolding r by simp
  have "refs (mset xs + H) d z \<le> refs (mset (x # xs) + H) d z" for z by (simp add: refs_def)
  then have "\<forall>z. refs (mset xs + H) (mtlk_sta_decref x d) z < u32_max"
    using Cons.prems(2) same_tables_refs(1) [OF C(2)] by (metis le_less_trans)
  from Cons.IH [OF i this] show ?case using C(2) by (auto intro: same_tables_trans)
qed simp

lemma iterate_first_inv:
  assumes "db_inv H d" "roomy H d" "mtlk_stadb_iterate_first alloc d = ((r, it), d')"
  shows "case it of None \<Rightarrow> d' = d
    | Some i \<Rightarrow> r \<noteq> None \<and> it_arr i = map Some (entries (db_hash d)) \<and> it_size i = length (it_arr i) \<and> db_inv (mset (entries (db_hash d)) + H) d'"
proof (cases "db_cnt d = 0 \<or> \<not> alloc")
  case True
  then show ?thesis using assms(3) by (auto simp: mtlk_stadb_iterate_first_def Let_def split: if_splits)
next
  case False
  note D = db_invD [OF assms(1)]
  let ?xs = "entries (db_hash d)"
  have d: "distinct ?xs" using D(1) by (simp add: hash_ok_def entries_def)
  then have n: "db_cnt d = length ?xs" using D(3) by (simp add: members_def distinct_card)
  then obtain x xs where xs: "?xs = x # xs" using False by (cases ?xs) auto
  have e: "it = Some \<lparr>it_arr = map Some ?xs, it_size = length ?xs, it_idx = u32_inc 0\<rparr>" "r = Some x" "d' = fold mtlk_sta_incref ?xs d"
    using assms(3) False n xs by (auto simp: mtlk_stadb_iterate_first_def mtlk_stadb_iterate_next_def Let_def)
  have "\<forall>x \<in> set ?xs. 0 < refs H d x \<and> refs H d x + 1 < u32_max"
    using member_refs [of _ d H] roomyD(1) [OF assms(2)] by (metis add_lessD1 add_less_cancel_left less_trans members_def one_less_numeral_iff semiring_norm(77))
  from fold_incref [OF D(5) d this] have C: "counts (\<lambda>x. refs H d x + of_bool (x \<in> set ?xs)) d'" "same_tables d d'" unfolding e(3) by blast+
  have "(\<lambda>x. refs H d x + of_bool (x \<in> set ?xs)) = refs (mset ?xs + H) d"
    using d by (auto simp: fun_eq_iff refs_def distinct_count_atmost_1)
  then show ?thesis using db_inv_move [OF assms(1) C(2)] C(1) e by simp
qed

lemma iterate_done_inv:
  assumes "db_inv (mset xs + H) d" "roomy (mset xs + H) d" "it_arr it = map Some xs" "it_size it = length xs"
  shows "db_inv H (mtlk_stadb_iterate_done it d)"
proof -
  have "(\<lambda>x. decref_entry (Some x)) = mtlk_sta_decref" by (simp add: fun_eq_iff decref_entry_def)
  then have "fold decref_entry (map Some xs) d = fold mtlk_sta_decref xs d" by (simp add: fold_map comp_def)
  moreover have "\<forall>x. refs (mset xs + H) d x < u32_max" using roomyD(1) [OF assms(2)] by (meson add_lessD1)
  ultimately show ?thesis using fold_decref_inv [OF assms(1)] assms(3,4) by (simp add: mtlk_stadb_iterate_done_def)
qed

lemma revive_inv:
  assumes "db_inv H d" "roomy H d"
  shows "db_inv H (mtlk_stadb_on_addba_revive_aggregation_tid e mac tid d)"
proof -
  obtain r d1 where r: "mtlk_stadb_find_sta mac d = (r, d1)" by fastforce
  show ?thesis
  proof (cases r)
    case None
    then show ?thesis using r assms find_sta_inv [OF assms r] by (simp add: mtlk_stadb_on_addba_revive_aggregation_tid_def)
  next
    case (Some x)
    let ?f = "\<lambda>s. s\<lparr>st_ba := mtlk_addba_peer_start_aggr_negotiation e tid (st_ba s)\<rparr>"
    have x: "x \<in> members (db_hash d)" "db_inv (add_mset x H) d1" using find_sta_inv [OF assms r] Some by auto
    have d1: "d1 = mtlk_sta_incref x d" using r Some by (auto simp: mtlk_stadb_find_sta_def split: option.splits)
    have s: "same_tables d d1" unfolding d1
      using incref_counts(2) [OF db_invD(5) [OF assms(1)] member_refs [OF x(1)]] roomyD(1) [OF assms(2), of x] by simp
    have p: "0 < refs (add_mset x H) d1 x" by (simp add: refs_def)
    note S = on_station_counts [OF db_invD(5) [OF x(2)] p, of ?f]
    have i: "db_inv (add_mset x H) (on_station ?f x d1)" using db_inv_move [OF x(2)] S by simp
    have "refs (add_mset x H) (on_station ?f x d1) x < u32_max"
      using roomyD(1) [OF assms(2), of x] same_tables_refs(1) [OF S(2)] same_tables_refs(1) [OF s] by (simp add: refs_def)
    moreover have "0 < refs (add_mset x H) (on_station ?f x d1) x" by (simp add: refs_def)
    ultimately have C: "counts ((refs (add_mset x H) (on_station ?f x d1))(x := refs (add_mset x H) (on_station ?f x d1) x - 1)) (mtlk_sta_decref x (on_station ?f x d1))"
      "same_tables (on_station ?f x d1) (mtlk_sta_decref x (on_station ?f x d1))"
      using decref_counts [OF db_invD(5) [OF i]] by blast+
    have "(refs (add_mset x H) (on_station ?f x d1))(x := refs (add_mset x H) (on_station ?f x d1) x - 1) = refs H (on_station ?f x d1)"
      by (auto simp: fun_eq_iff refs_def)
    then show ?thesis using C db_inv_move [OF i C(2)] r Some by (simp add: mtlk_stadb_on_addba_revive_aggregation_tid_def)
  qed
qed

section \<open>Host operations keep the accounts\<close>

lemma recalc_same [simp]: "same_tables d (mtlk_hstdb_recalc_default_host_unsafe now d)" "db_heap (mtlk_hstdb_recalc_default_host_unsafe now d) = db_heap d"
  by (simp_all add: same_tables_def mtlk_hstdb_recalc_default_host_unsafe_def split: option.split)

lemma update_default_same [simp]: "same_tables d (mtlk_hstdb_update_default_host valid mac d)" "db_heap (mtlk_hstdb_update_default_host valid mac d) = db_heap d"
  by (simp_all add: same_tables_def mtlk_hstdb_update_default_host_def)

lemma db_inv_cong:
  assumes "same_tables d d'" "db_heap d' = db_heap d"
  shows "db_inv H d' = db_inv H d"
  using assms same_tables_refs [OF assms(1)] counts_cong [OF assms(2)] by (simp add: db_inv_def same_tables_def)

lemma incdec_inv:
  assumes "db_inv H d" "roomy H d" "0 < refs H d x"
  shows "db_inv H (mtlk_sta_decref x (mtlk_sta_incref x d))"
proof -
  note I = incref_counts [OF db_invD(5) [OF assms(1)] assms(3)]
  have r: "refs H d x + 1 < u32_max" using roomyD(1) [OF assms(2), of x] by linarith
  have "counts (refs H d) (mtlk_sta_decref x (mtlk_sta_incref x d))" "same_tables (mtlk_sta_incref x d) (mtlk_sta_decref x (mtlk_sta_incref x d))"
    using decref_counts [OF I(1) [OF r], of x] r by simp_all
  then show ?thesis using db_inv_move [OF assms(1) same_tables_trans [OF I(2) [OF r]]] by blast
qed

lemma tables_okD:
  assumes "tables_ok d"
  shows "db_hosts d y \<noteq> None \<longleftrightarrow> y \<in> members (hdb_hash d)" "db_hosts d y = Some h \<Longrightarrow> ho_sta h \<noteq> None"
  using assms by (auto simp: tables_ok_def)

lemma host_live:
  assumes "tables_ok d" "y \<in> members (hdb_hash d)"
  obtains h x where "db_hosts d y = Some h" "ho_sta h = Some x" "y \<in> behind d x"
proof -
  obtain h where h: "db_hosts d y = Some h" using tables_okD(1) [OF assms(1), of y] assms(2) by blast
  moreover obtain x where "ho_sta h = Some x" using tables_okD(2) [OF assms(1) h] by blast
  ultimately show ?thesis using that assms(2) by (simp add: behind_def)
qed

lemma behind_refs: "y \<in> behind d x \<Longrightarrow> 2 \<le> refs H d x"
  using card_gt_0_iff [of "behind d x"] by (auto simp: refs_def)

lemma add_host_inv:
  assumes "db_inv H d" "roomy H d" "db_hosts d y = None" "length mac = 6" "0 < refs H d x"
  shows "db_inv H (mtlk_hstdb_add_host valid alloc init_res timer_res now y mac x d)"
proof (cases "alloc \<and> init_res = MTLK_ERR_OK \<and> timer_res = MTLK_ERR_OK")
  case False
  then show ?thesis using assms(1) incdec_inv [OF assms(1,2,5)]
    by (auto simp: mtlk_hstdb_add_host_def mtlk_hst_start_def Let_def)
next
  case True
  note D = db_invD [OF assms(1)]
  have r: "refs H d x + 1 < u32_max" "refs H d x + 2 < u32_max" using roomyD(1) [OF assms(2), of x] by linarith+
  define d1 where "d1 = mtlk_sta_incref x d"
  have I: "counts ((refs H d)(x := refs H d x + 1)) d1" "same_tables d d1"
    unfolding d1_def using incref_counts [OF D(5) assms(5) r(1)] by blast+
  have y: "y \<notin> members (hdb_hash d)" using tables_okD(1) [OF D(7), of y] assms(3) by blast
  obtain q hh where q: "mtlk_hash_insert mac y (hdb_hash d) = (q, hh)" by fastforce
  note M = hash_insert_members [OF D(2) assms(4) y q]
  have q1: "mtlk_hash_insert mac y (hdb_hash d1) = (q, hh)" using q I(2) by (simp add: same_tables_def)
  let ?h = "\<lparr>ho_tstamp = now, ho_sta = Some x\<rparr>"
  show ?thesis
  proof (cases q)
    case None
    then have m: "members hh = insert y (members (hdb_hash d))" "hash_ok hh" using M by auto
    define e where "e = d1\<lparr>db_hosts := (db_hosts d1)(y \<mapsto> ?h), hdb_hash := hh, hdb_cnt := u32_inc (hdb_cnt d1)\<rparr>"
    have e: "db_hash e = db_hash d" "db_cnt e = db_cnt d" "db_hosts e = (db_hosts d)(y \<mapsto> ?h)" "hdb_hash e = hh" "hdb_cnt e = hdb_cnt d + 1"
      "db_uaf e = db_uaf d" "db_heap e = db_heap d1"
      using I(2) roomyD(3) [OF assms(2)] by (simp_all add: e_def same_tables_def u32_simps)
    have b: "behind e z = (if z = x then insert y (behind d x) else behind d z)" for z using y m by (auto simp: behind_def e)
    have "y \<notin> behind d x" using y by (simp add: behind_def)
    then have re: "refs H e = (refs H d)(x := refs H d x + 2)" using b by (auto simp: fun_eq_iff refs_def e)
    have "counts ((refs H d)(x := refs H d x + 1)) e" using I(1) counts_cong [OF e(7)] by simp
    note J = incref_counts [OF this, of x]
    have C: "counts (refs H e) (mtlk_sta_incref x e)" "same_tables e (mtlk_sta_incref x e)" using J r unfolding re by simp_all
    have "tables_ok e" using D(4,7) m y by (auto simp: tables_ok_def e)
    then have "db_inv H (mtlk_sta_incref x e)"
      using C D(6) e(6) same_tables_refs(1,3) [OF C(2)] by (simp add: db_inv_def same_tables_def)
    moreover have "mtlk_hstdb_add_host valid alloc init_res timer_res now y mac x d = mtlk_hstdb_update_default_host valid mac (mtlk_sta_incref x e)"
      using True None q1 by (simp add: mtlk_hstdb_add_host_def mtlk_hst_start_def Let_def e_def d1_def)
    ultimately show ?thesis using db_inv_cong [OF update_default_same] by simp
  next
    case (Some z)
    have "hh = hdb_hash d1" using M Some I(2) by (simp add: same_tables_def)
    then have "mtlk_hstdb_add_host valid alloc init_res timer_res now y mac x d = mtlk_sta_decref x d1"
      using True Some q1 by (simp add: mtlk_hstdb_add_host_def mtlk_hst_start_def mtlk_hst_stop_def host_decref_def Let_def d1_def)
    then show ?thesis using incdec_inv [OF assms(1,2,5)] by (simp add: d1_def)
  qed
qed

lemma drop_host_inv:
  assumes "db_inv H d" "roomy H d" "y \<in> members (hdb_hash d)" "same_tables (mtlk_hstdb_hash_remove y d) e" "db_heap e = db_heap d"
  shows "db_inv H (mtlk_hstdb_remove_host_unsafe y e)" "roomy H (mtlk_hstdb_remove_host_unsafe y e)"
    "members (hdb_hash (mtlk_hstdb_remove_host_unsafe y e)) = members (hdb_hash d) - {y}"
    "db_hosts (mtlk_hstdb_remove_host_unsafe y e) = (db_hosts d)(y := None)"
proof -
  note D = db_invD [OF assms(1)]
  note R = hash_remove_members [OF D(2) assms(3)]
  obtain h x where h: "db_hosts d y = Some h" "ho_sta h = Some x" "y \<in> behind d x" by (rule host_live [OF D(7) assms(3)])
  have cnt: "u32_dec (hdb_cnt d) = hdb_cnt d - 1" "0 < hdb_cnt d"
    using D(4) assms(3) roomyD(3) [OF assms(2)] card_gt_0_iff [of "members (hdb_hash d)"] by (auto simp: u32_simps)
  have f: "db_hash e = db_hash d" "db_cnt e = db_cnt d" "db_hosts e = db_hosts d" "hdb_hash e = mtlk_hash_remove y (hdb_hash d)"
    "hdb_cnt e = hdb_cnt d - 1" "db_uaf e = db_uaf d"
    using assms(4) cnt by (simp_all add: same_tables_def mtlk_hstdb_hash_remove_def)
  have c: "counts (refs H d) e" using D(5) counts_cong [OF assms(5)] by simp
  have two: "2 \<le> refs H d x" using behind_refs [OF h(3)] .
  have p: "0 < refs H d x" "refs H d x < u32_max" using two roomyD(1) [OF assms(2), of x] by linarith+
  define e1 where "e1 = mtlk_sta_decref x e"
  have 1: "counts ((refs H d)(x := refs H d x - 1)) e1" "same_tables e e1" unfolding e1_def using decref_counts [OF c p] by blast+
  define e2 where "e2 = mtlk_sta_decref x e1"
  have 2: "counts ((refs H d)(x := refs H d x - 2)) e2" "same_tables e1 e2"
    unfolding e2_def using decref_counts [OF 1(1), of x] two p(2) by (simp_all add: less_imp_diff_less numeral_2_eq_2)
  define e3 where "e3 = e2\<lparr>db_hosts := (db_hosts e2)(y := None)\<rparr>"
  have d': "mtlk_hstdb_remove_host_unsafe y e = e3"
    using h f(3) by (simp add: mtlk_hstdb_remove_host_unsafe_def mtlk_hst_stop_def host_decref_def Let_def e1_def e2_def e3_def)
  have g: "db_hash e3 = db_hash d" "db_cnt e3 = db_cnt d" "db_hosts e3 = (db_hosts d)(y := None)" "hdb_hash e3 = mtlk_hash_remove y (hdb_hash d)"
    "hdb_cnt e3 = hdb_cnt d - 1" "db_uaf e3 = db_uaf d" "db_heap e3 = db_heap e2"
    using f 1(2) 2(2) by (simp_all add: e3_def same_tables_def)
  have b: "behind e3 z = (if z = x then behind d x - {y} else behind d z)" for z
    unfolding behind_def g(3,4) R(2) using h(1,2) by auto
  have re: "refs H e3 = (refs H d)(x := refs H d x - 2)" using b h(3) card_gt_0_iff [of "behind d x"] by (auto simp: fun_eq_iff refs_def g)
  have t: "tables_ok e3" using D(4,7) R assms(3) by (auto simp: tables_ok_def g card_Diff_singleton)
  show "db_inv H (mtlk_hstdb_remove_host_unsafe y e)"
    unfolding d' db_inv_def re using t D(6) 2(1) counts_cong [OF g(7)] by (simp add: g)
  have le: "refs H e3 z \<le> refs H d z" for z unfolding re by simp
  have "refs H e3 z + 3 < u32_max" for z using le [of z] roomyD(1) [OF assms(2), of z] by linarith
  then show "roomy H (mtlk_hstdb_remove_host_unsafe y e)"
    unfolding d' roomy_def g using roomyD(2,3) [OF assms(2)] by auto
  show "members (hdb_hash (mtlk_hstdb_remove_host_unsafe y e)) = members (hdb_hash d) - {y}" unfolding d' g using R(2) by simp
  show "db_hosts (mtlk_hstdb_remove_host_unsafe y e) = (db_hosts d)(y := None)" unfolding d' g by simp
qed

lemma remove_host_inv:
  assumes "db_inv H d" "roomy H d" "y \<in> members (hdb_hash d)"
  shows "db_inv H (mtlk_hstdb_remove_host now y d)"
proof -
  have "same_tables (mtlk_hstdb_hash_remove y d) e \<and> db_heap e = db_heap d"
    if "e = (if b then mtlk_hstdb_recalc_default_host_unsafe now (mtlk_hstdb_hash_remove y d) else mtlk_hstdb_hash_remove y d)" for e b
    using that by (simp add: mtlk_hstdb_hash_remove_def)
  then show ?thesis using drop_host_inv(1) [OF assms] by (simp add: mtlk_hstdb_remove_host_def Let_def)
qed

lemma fold_behind_inv:
  assumes "db_inv H d" "roomy H d" "distinct ys" "set ys \<subseteq> members (hdb_hash d)"
  shows "case fold (remove_if_behind x) ys (d, b) of (d', b') \<Rightarrow> db_inv H d' \<and> behind d' x = behind d x - set ys"
  using assms
proof (induction ys arbitrary: d b)
  case (Cons y ys)
  note D = db_invD [OF Cons.prems(1)]
  have y: "y \<in> members (hdb_hash d)" using Cons.prems(4) by simp
  obtain h z where h: "db_hosts d y = Some h" "ho_sta h = Some z" "y \<in> behind d z" by (rule host_live [OF D(7) y])
  show ?case
  proof (cases "z = x")
    case False
    then have "remove_if_behind x y (d, b) = (d, b)" "y \<notin> behind d x" using h by (auto simp: remove_if_behind_def mtlk_is_hst_behind_sta_def behind_def)
    then show ?thesis using Cons.IH [OF Cons.prems(1,2), of b] Cons.prems(3,4) by auto
  next
    case True
    let ?d = "mtlk_hstdb_remove_host_unsafe y (mtlk_hstdb_hash_remove y d)"
    obtain b1 where b1: "remove_if_behind x y (d, b) = (?d, b1)" using h True by (simp add: remove_if_behind_def mtlk_is_hst_behind_sta_def Let_def)
    note R = drop_host_inv [OF Cons.prems(1,2) y, of "mtlk_hstdb_hash_remove y d"]
    have R': "db_inv H ?d" "roomy H ?d" "members (hdb_hash ?d) = members (hdb_hash d) - {y}" "db_hosts ?d = (db_hosts d)(y := None)"
      using R by (simp_all add: mtlk_hstdb_hash_remove_def)
    have s: "set ys \<subseteq> members (hdb_hash ?d)" using R'(3) Cons.prems(3,4) by auto
    have "behind ?d x = behind d x - {y}" using R'(3,4) by (auto simp: behind_def)
    then show ?thesis using Cons.IH [OF R'(1,2) _ s, of b1] Cons.prems(3) b1 by (auto split: prod.splits)
  qed
qed auto

lemma remove_all_by_sta_inv:
  assumes "db_inv H d" "roomy H d"
  shows "\<exists>d'. mtlk_hstdb_remove_all_by_sta now x d = Some (MTLK_ERR_OK, d') \<and> db_inv H d' \<and> behind d' x = {}"
proof -
  note D = db_invD [OF assms(1)]
  let ?get = "\<lambda>a :: sta_db \<times> bool. hdb_hash (fst a)" and ?ys = "entries (hdb_hash d)"
  have k: "hdb_hash (mtlk_sta_decref x d) = hdb_hash d" "hdb_hash (host_decref h d) = hdb_hash d" for x h d
    by (simp_all add: host_decref_def mtlk_sta_decref_def split: option.split)
  have "?get (remove_if_behind x y a) = ?get a \<or> ?get (remove_if_behind x y a) = mtlk_hash_remove y (?get a)" for y a
    by (auto simp: remove_if_behind_def mtlk_hstdb_remove_host_unsafe_def mtlk_hst_stop_def mtlk_hstdb_hash_remove_def k Let_def split: prod.split option.split)
  then have F: "db_foreach ?get (remove_if_behind x) (d, False) = Some (fold (remove_if_behind x) ?ys (d, False))"
    using db_foreach_visits [where get = ?get and d = "(d, False)"] D(2) by auto
  obtain d1 b1 where f: "fold (remove_if_behind x) ?ys (d, False) = (d1, b1)" by fastforce
  have "distinct ?ys" using D(2) by (simp add: hash_ok_def entries_def)
  from fold_behind_inv [OF assms this, of x False] have d1: "db_inv H d1" "behind d1 x = {}"
    unfolding f by (auto simp: members_def behind_def)
  let ?d = "if b1 then mtlk_hstdb_recalc_default_host_unsafe now d1 else d1"
  have s: "same_tables d1 ?d" "db_heap ?d = db_heap d1" by simp_all
  have "mtlk_hstdb_remove_all_by_sta now x d = Some (MTLK_ERR_OK, ?d)" using F f by (simp add: mtlk_hstdb_remove_all_by_sta_def)
  moreover have "db_inv H ?d" using db_inv_cong [OF s] d1(1) by simp
  moreover have "behind ?d x = {}" using same_tables_refs(2) [OF s(1)] d1(2) by simp
  ultimately show ?thesis by blast
qed

lemma hstdb_find_inv:
  assumes "db_inv H d" "roomy H d" "mtlk_hstdb_find_sta mac d = (r, d')"
  shows "case r of None \<Rightarrow> d' = d | Some x \<Rightarrow> behind d x \<noteq> {} \<and> db_inv (add_mset x H) d'"
proof (cases "mtlk_hash_find mac (hdb_hash d)")
  case None
  then show ?thesis using assms(3) by (auto simp: mtlk_hstdb_find_sta_def)
next
  case (Some y)
  note D = db_invD [OF assms(1)]
  obtain h x where h: "db_hosts d y = Some h" "ho_sta h = Some x" "y \<in> behind d x"
    by (rule host_live [OF D(7) hash_find_member [OF D(2) Some]])
  have "0 < refs H d x" using behind_refs [OF h(3), of H] by simp
  moreover have "r = Some x" "d' = mtlk_sta_incref x d" using assms(3) Some h by (auto simp: mtlk_hstdb_find_sta_def)
  ultimately show ?thesis using incref_inv [OF assms(1,2)] h(3) by auto
qed

lemma update_host_inv:
  assumes "db_inv H d" "roomy H d" "db_hosts d y = None" "length mac = 6" "0 < refs H d x"
    and "\<And>z. mtlk_hash_find mac (hdb_hash d) = Some z \<Longrightarrow> z \<in> behind d x"
  shows "db_inv H (mtlk_hstdb_update_host valid alloc init_res timer_res now y mac x d)"
proof (cases "mtlk_hash_find mac (hdb_hash d)")
  case None
  then show ?thesis using add_host_inv [OF assms(1-5)] by (simp add: mtlk_hstdb_update_host_def)
next
  case (Some z)
  then obtain h where h: "db_hosts d z = Some h" "ho_sta h = Some x" "z \<in> members (hdb_hash d)" using assms(6) by (auto simp: behind_def)
  define e where "e = d\<lparr>db_hosts := (db_hosts d)(z \<mapsto> mtlk_hst_update now x h)\<rparr>"
  have "behind e = behind d" using h by (auto simp: fun_eq_iff behind_def e_def mtlk_hst_update_def)
  then have "refs H e = refs H d" by (simp add: fun_eq_iff refs_def e_def)
  moreover have "tables_ok e" using db_invD(7) [OF assms(1)] h by (auto simp: tables_ok_def e_def mtlk_hst_update_def)
  ultimately have "db_inv H e" using assms(1) by (simp add: db_inv_def e_def counts_def)
  then show ?thesis using Some h by (simp add: mtlk_hstdb_update_host_def e_def)
qed

section \<open>Reachable states\<close>

definition held_ref :: "nat option \<Rightarrow> nat multiset" where
  "held_ref r = (case r of None \<Rightarrow> {#} | Some x \<Rightarrow> {#x#})"

text \<open>
  The operations of the databases in any order, with the references that callers hold.  A caller gives back only what it
  holds and passes only stations it holds a reference to; a host that is already known is updated with the station it is
  behind.
\<close>
inductive db_reach :: "nat multiset \<Rightarrow> sta_db \<Rightarrow> bool" where
  init: "db_reach {#} db_init"
| add: "db_reach H d \<Longrightarrow> roomy H d \<Longrightarrow> db_heap d x = None \<Longrightarrow> length mac = 6
     \<Longrightarrow> mtlk_stadb_add_sta alloc init_res start_res x s0 mac d = (r, d') \<Longrightarrow> db_reach (held_ref r + H) d'"
| find: "db_reach H d \<Longrightarrow> roomy H d \<Longrightarrow> mtlk_stadb_find_sta mac d = (r, d') \<Longrightarrow> db_reach (held_ref r + H) d'"
| get_ap: "db_reach H d \<Longrightarrow> roomy H d \<Longrightarrow> mtlk_stadb_get_ap d = (r, d') \<Longrightarrow> db_reach (held_ref r + H) d'"
| find_host: "db_reach H d \<Longrightarrow> roomy H d \<Longrightarrow> mtlk_hstdb_find_sta mac d = (r, d') \<Longrightarrow> db_reach (held_ref r + H) d'"
| acquire: "db_reach H d \<Longrightarrow> roomy H d \<Longrightarrow> x \<in># H \<Longrightarrow> db_reach (add_mset x H) (mtlk_sta_incref x d)"
| release: "db_reach H d \<Longrightarrow> roomy H d \<Longrightarrow> x \<in># H \<Longrightarrow> db_reach (H - {#x#}) (mtlk_sta_decref x d)"
| remove: "db_reach H d \<Longrightarrow> roomy H d \<Longrightarrow> x \<in> members (db_hash d) \<Longrightarrow> db_reach H (mtlk_stadb_remove_sta x d)"
| disconnect: "db_reach H d \<Longrightarrow> roomy H d \<Longrightarrow> mtlk_stadb_disconnect_all d = Some d' \<Longrightarrow> db_reach H d'"
| reset_cnts: "db_reach H d \<Longrightarrow> mtlk_stadb_reset_cnts d = Some d' \<Longrightarrow> db_reach H d'"
| iterate: "db_reach H d \<Longrightarrow> roomy H d \<Longrightarrow> mtlk_stadb_iterate_first alloc d = ((r, Some it), d')
     \<Longrightarrow> db_reach (mset (entries (db_hash d)) + H) d'"
| iterate_done: "db_reach (mset xs + H) d \<Longrightarrow> roomy (mset xs + H) d \<Longrightarrow> it_arr it = map Some xs \<Longrightarrow> it_size it = length xs
     \<Longrightarrow> db_reach H (mtlk_stadb_iterate_done it d)"
| revive: "db_reach H d \<Longrightarrow> roomy H d \<Longrightarrow> db_reach H (mtlk_stadb_on_addba_revive_aggregation_tid e mac tid d)"
| update_host: "db_reach H d \<Longrightarrow> roomy H d \<Longrightarrow> db_hosts d y = None \<Longrightarrow> length mac = 6 \<Longrightarrow> x \<in># H
     \<Longrightarrow> (\<And>z. mtlk_hash_find mac (hdb_hash d) = Some z \<Longrightarrow> z \<in> behind d x)
     \<Longrightarrow> db_reach H (mtlk_hstdb_update_host valid alloc init_res timer_res now y mac x d)"
| remove_all_by_sta: "db_reach H d \<Longrightarrow> roomy H d \<Longrightarrow> mtlk_hstdb_remove_all_by_sta now x d = Some (res, d') \<Longrightarrow> db_reach H d'"
| wds_timer: "db_reach H d \<Longrightarrow> roomy H d \<Longrightarrow> y \<in> members (hdb_hash d) \<Longrightarrow> db_reach H (snd (mtlk_host_wds_disconnect_tmr to_ms now y d))"

lemma held_ref_inv: "(case r of None \<Rightarrow> db_inv H d' | Some x \<Rightarrow> db_inv (add_mset x H) d') \<Longrightarrow> db_inv (held_ref r + H) d'"
  by (simp add: held_ref_def split: option.splits)

lemma init_inv: "db_inv {#} db_init"
proof -
  have "members (mtlk_hash_init n) = {}" for n by (auto simp: members_def entries_def mtlk_hash_init_def)
  then show ?thesis
    by (simp add: db_inv_def tables_ok_def db_init_def counts_def refs_def behind_def MTLK_STADB_HASH_NOF_BUCKETS_def MTLK_HSTDB_HASH_NOF_BUCKETS_def)
qed

lemma reach_inv: "db_reach H d \<Longrightarrow> db_inv H d"
proof (induction rule: db_reach.induct)
  case init
  then show ?case by (rule init_inv)
next
  case (add H d x mac alloc init_res start_res s0 r d')
  then show ?case using add_sta_inv [OF add.IH add.hyps(2-5)] by (intro held_ref_inv) (auto split: option.splits)
next
  case (find H d mac r d')
  then show ?case using find_sta_inv [OF find.IH find.hyps(2,3)] by (intro held_ref_inv) (auto split: option.splits)
next
  case (get_ap H d r d')
  then show ?case using get_ap_inv [OF get_ap.IH get_ap.hyps(2,3)] by (intro held_ref_inv) (auto split: option.splits)
next
  case (find_host H d mac r d')
  then show ?case using hstdb_find_inv [OF find_host.IH find_host.hyps(2,3)] by (intro held_ref_inv) (auto split: option.splits)
next
  case (acquire H d x)
  then show ?case by (intro incref_inv) (auto simp: refs_def)
next
  case (release H d x)
  then show ?case by (intro decref_inv)
next
  case (remove H d x)
  then show ?case using remove_sta_inv(1) by (simp add: mtlk_stadb_remove_sta_def)
next
  case (disconnect H d d')
  then show ?case using disconnect_all_inv [OF disconnect.IH disconnect.hyps(2)] by auto
next
  case (reset_cnts H d d')
  then show ?case using foreach_station_inv [OF reset_cnts.IH, of mtlk_sta_reset_cnts] by (auto simp: mtlk_stadb_reset_cnts_def mtlk_sta_reset_cnts_def)
next
  case (iterate H d alloc r it d')
  then show ?case using iterate_first_inv [OF iterate.IH iterate.hyps(2,3)] by simp
next
  case (iterate_done xs H d it)
  then show ?case by (intro iterate_done_inv)
next
  case (revive H d e mac tid)
  then show ?case by (intro revive_inv)
next
  case (update_host H d y mac x valid alloc init_res timer_res now)
  then show ?case by (intro update_host_inv) (auto simp: refs_def)
next
  case (remove_all_by_sta H d now x res d')
  then show ?case using remove_all_by_sta_inv [OF remove_all_by_sta.IH remove_all_by_sta.hyps(2), of now x] by auto
next
  case (wds_timer H d y to_ms now)
  have "snd (mtlk_host_wds_disconnect_tmr to_ms now y d) \<in> {d, mtlk_hstdb_remove_host now y d}"
    using tables_okD(1) [OF db_invD(7) [OF wds_timer.IH], of y] wds_timer.hyps(3) by (auto simp: mtlk_host_wds_disconnect_tmr_def Let_def)
  then show ?case using remove_host_inv [OF wds_timer.IH wds_timer.hyps(2,3)] wds_timer.IH by auto
qed

text \<open>
  C13: Stations live exactly as long as somebody refers to them, as long as no host roams: a host that is known is updated
  only with the station it is already behind, for other updates this fails.  In every state of the two databases that is reachable so the reference
  count of each station is the number of its holders (the station table, twice each host behind it, and the references
  given out by look-ups, iterators and buffers), a station without holders has been freed and one with a holder has
  not, no freed object was ever touched, and the counters of the tables are their numbers of entries.  Disconnecting all
  stations ends and leaves the database empty.
\<close>
theorem stadb_references_balance:
  assumes "db_reach H d"
  shows "\<not> db_uaf d \<and> (\<forall>x. if refs H d x = 0 then db_heap d x = None else \<exists>s. db_heap d x = Some s \<and> st_ref s = refs H d x)
    \<and> db_cnt d = card (members (db_hash d)) \<and> hdb_cnt d = card (members (hdb_hash d))
    \<and> (roomy H d \<longrightarrow> (\<exists>d'. mtlk_stadb_disconnect_all d = Some d' \<and> mtlk_stadb_is_empty d' \<and> members (db_hash d') = {}))"
proof -
  have I: "db_inv H d" using assms by (rule reach_inv)
  note D = db_invD [OF I]
  have "if refs H d x = 0 then db_heap d x = None else \<exists>s. db_heap d x = Some s \<and> st_ref s = refs H d x" for x
    using counts_live [OF D(5), of x] D(5) by (cases "db_heap d x") (auto simp: counts_def)
  moreover have "\<exists>d'. mtlk_stadb_disconnect_all d = Some d' \<and> mtlk_stadb_is_empty d' \<and> members (db_hash d') = {}" if r: "roomy H d"
  proof -
    obtain d' where d': "mtlk_stadb_disconnect_all d = Some d'" "db_inv H d'" "members (db_hash d') = {}"
      using disconnect_all_inv [OF I r] by blast
    then show ?thesis using db_invD(3) [OF d'(2)] by (auto simp: mtlk_stadb_is_empty_def)
  qed
  ultimately show ?thesis using D(3,4,6) by blast
qed

text \<open>
  C14: A host that moves to another station destroys the accounting.  \<^verbatim>\<open>_mtlk_hst_update\<close> only replaces the pointer: when the
  host is removed later, the two references are taken from the new station instead of the old one.  If nobody else
  refers to the new station, it is freed while it is still in the table, and the next packet that looks it up uses a
  freed object; the old station keeps two references that nobody will ever give back.
\<close>
theorem hstdb_roaming_host_frees_station:
  assumes "db_inv H d" "roomy H d" "mtlk_hash_find mac (hdb_hash d) = Some z" "z \<in> behind d a" "a \<noteq> x"
    and "x \<in> members (db_hash d)" "refs H d x = 2"
  shows "let d1 = mtlk_hstdb_update_host valid alloc init_res timer_res now y mac x d; d2 = mtlk_hstdb_remove_host now2 z d1
    in x \<in> members (db_hash d2) \<and> db_heap d2 x = None \<and> db_uaf (snd (mtlk_stadb_find_sta (h_key (h_ent (db_hash d2) x)) d2))
     \<and> (\<exists>s. db_heap d2 a = Some s \<and> st_ref s = refs H d2 a + 2)"
proof -
  note D = db_invD [OF assms(1)]
  obtain h where h: "db_hosts d z = Some h" "z \<in> members (hdb_hash d)" "ho_sta h = Some a" using assms(4) by (auto simp: behind_def)
  note R = hash_remove_members [OF D(2) h(2)]
  define d1 where "d1 = mtlk_hstdb_update_host valid alloc init_res timer_res now y mac x d"
  have d1: "d1 = d\<lparr>db_hosts := (db_hosts d)(z \<mapsto> mtlk_hst_update now x h)\<rparr>"
    unfolding d1_def using assms(3) h(1) by (simp add: mtlk_hstdb_update_host_def)
  obtain e where e: "same_tables (mtlk_hstdb_hash_remove z d1) e" "db_heap e = db_heap d1"
    "mtlk_hstdb_remove_host now2 z d1 = mtlk_hstdb_remove_host_unsafe z e"
  proof
    let ?e = "if default_host (mtlk_hstdb_hash_remove z d1) = h_key (h_ent (hdb_hash d1) z)
      then mtlk_hstdb_recalc_default_host_unsafe now2 (mtlk_hstdb_hash_remove z d1) else mtlk_hstdb_hash_remove z d1"
    show "same_tables (mtlk_hstdb_hash_remove z d1) ?e" "db_heap ?e = db_heap d1"
      "mtlk_hstdb_remove_host now2 z d1 = mtlk_hstdb_remove_host_unsafe z ?e"
      by (simp_all add: mtlk_hstdb_remove_host_def mtlk_hstdb_hash_remove_def Let_def)
  qed
  have f: "db_hash e = db_hash d" "db_hosts e = (db_hosts d)(z \<mapsto> mtlk_hst_update now x h)" "hdb_hash e = mtlk_hash_remove z (hdb_hash d)"
    using e(1) by (simp_all add: same_tables_def mtlk_hstdb_hash_remove_def d1)
  have c: "counts (refs H d) e" using D(5) counts_cong [of e d] e(2) d1 by simp
  have c1: "counts ((refs H d)(x := 1)) (mtlk_sta_decref x e)" "same_tables e (mtlk_sta_decref x e)"
    using decref_counts [OF c, of x] assms(7) by (simp_all add: u32_max_def)
  have c2: "counts ((refs H d)(x := 0)) (mtlk_sta_decref x (mtlk_sta_decref x e))" "same_tables (mtlk_sta_decref x e) (mtlk_sta_decref x (mtlk_sta_decref x e))"
    using decref_counts [OF c1(1), of x] by (simp_all add: u32_max_def)
  define d2 where "d2 = mtlk_hstdb_remove_host now2 z d1"
  have d2: "d2 = (mtlk_sta_decref x (mtlk_sta_decref x e))\<lparr>db_hosts := (db_hosts e)(z := None)\<rparr>"
    unfolding d2_def e(3) using f(2) c1(2) c2(2)
    by (simp add: mtlk_hstdb_remove_host_unsafe_def mtlk_hst_stop_def mtlk_hst_update_def host_decref_def Let_def same_tables_def)
  have g: "db_hash d2 = db_hash d" "hdb_hash d2 = mtlk_hash_remove z (hdb_hash d)" "db_hosts d2 = (db_hosts d)(z := None)"
    using f c1(2) c2(2) by (simp_all add: d2 same_tables_def)
  have hx: "db_heap d2 x = None" using counts_dead [OF c2(1), of x] by (simp add: d2)
  have "mtlk_hash_find (h_key (h_ent (db_hash d) x)) (db_hash d) = Some x"
    using hash_find_view [OF D(1)] hash_view_iff [OF D(1)] assms(6) by (simp add: members_def entries_def del: set_concat)
  then have u: "db_uaf (snd (mtlk_stadb_find_sta (h_key (h_ent (db_hash d2) x)) d2))"
    using hx g(1) by (simp add: mtlk_stadb_find_sta_def mtlk_sta_incref_def on_station_def)
  have "behind d2 a = behind d a - {z}" unfolding behind_def g(2,3) R(2) by auto
  moreover have "0 < card (behind d a)" using assms(4) by (auto simp: card_gt_0_iff)
  ultimately have "refs H d a = refs H d2 a + 2" using card_Diff_singleton [OF assms(4)] by (simp add: refs_def g(1))
  moreover have "\<exists>s. db_heap d2 a = Some s \<and> st_ref s = refs H d a"
    using counts_live [OF c2(1), of a] assms(5) behind_refs [OF assms(4), of H] by (auto simp: d2)
  ultimately show ?thesis using hx u assms(6) g(1) unfolding Let_def d1_def [symmetric] d2_def [symmetric] by simp
qed

section \<open>Examples\<close>

text \<open>Two stations, and a host behind the first.\<close>
definition ex_db1 :: sta_db where
  "ex_db1 = snd (mtlk_stadb_add_sta True MTLK_ERR_OK MTLK_ERR_OK 1 ex_station (ex_mac 1) db_init)"

definition ex_db2 :: sta_db where
  "ex_db2 = snd (mtlk_stadb_add_sta True MTLK_ERR_OK MTLK_ERR_OK 2 ex_station (ex_mac 2) ex_db1)"

definition ex_db3 :: sta_db where
  "ex_db3 = mtlk_hstdb_update_host (\<lambda>m. m \<noteq> replicate 6 0) True MTLK_ERR_OK MTLK_ERR_OK 100 5 (ex_mac 9) 1 ex_db2"

lemmas ex_db_eval = ex_db1_def ex_db2_def ex_db3_def mtlk_stadb_add_sta_def mtlk_sta_incref_def on_station_def db_init_def mtlk_hash_insert_def
  mtlk_hash_find_def mtlk_hash_ieee_addr_hashval_def hash_link_def mtlk_hash_init_def nof_buckets_def ex_mac_def
  mtlk_hstdb_update_host_def mtlk_hstdb_add_host_def mtlk_hst_start_def mtlk_hstdb_update_default_host_def Let_def
  MTLK_STADB_HASH_NOF_BUCKETS_def MTLK_HSTDB_HASH_NOF_BUCKETS_def members_def entries_def refs_def behind_def u32_inc_def u32_max_def roomy_def

lemma ex_hashval: "mtlk_hash_ieee_addr_hashval (ex_mac 1) 16 = 1" "mtlk_hash_ieee_addr_hashval (ex_mac 2) 16 = 2" "mtlk_hash_ieee_addr_hashval (ex_mac 9) 16 = 9"
  by (simp_all add: mtlk_hash_ieee_addr_hashval_def ex_mac_def)

lemma ex_db1_eval: "mtlk_stadb_add_sta True MTLK_ERR_OK MTLK_ERR_OK 1 ex_station (ex_mac 1) db_init = (Some 1, ex_db1)"
  by (simp add: ex_db_eval)

lemma ex_db1_reach: "db_reach {#1#} ex_db1" "roomy {#1#} ex_db1"
proof -
  have "roomy {#} db_init" by (simp add: ex_db_eval)
  then show "db_reach {#1#} ex_db1" using db_reach.add [OF db_reach.init _ _ _ ex_db1_eval] by (simp add: held_ref_def db_init_def)
  show "roomy {#1#} ex_db1" by (simp add: ex_db_eval)
qed

lemma ex_db2_reach: "db_reach {#1, 2#} ex_db2" "roomy {#1, 2#} ex_db2"
proof -
  have "mtlk_stadb_add_sta True MTLK_ERR_OK MTLK_ERR_OK 2 ex_station (ex_mac 2) ex_db1 = (Some 2, ex_db2)" by (simp add: ex_db_eval)
  from db_reach.add [OF ex_db1_reach _ _ this] show "db_reach {#1, 2#} ex_db2" by (simp add: held_ref_def ex_db_eval add_mset_commute)
  show "roomy {#1, 2#} ex_db2" by (simp add: ex_db_eval)
qed

lemma refs_bound: "refs H d x \<le> size H + 1 + 2 * card (members (hdb_hash d))"
proof -
  have "card (behind d x) \<le> card (members (hdb_hash d))" by (intro card_mono) (auto simp: behind_def)
  then show ?thesis using count_le_size [of H x] by (auto simp: refs_def)
qed

lemma ex_members [simp]: "2 \<in> members (db_hash ex_db2)" "2 \<in> members (db_hash ex_db3)" "5 \<in> members (hdb_hash ex_db3)"
proof -
  have *: "\<exists>xs \<in> set xss. x \<in> set xs" if "i < length xss" "x \<in> set (xss ! i)" for i :: nat and xss and x :: nat
    using that nth_mem by blast
  show "2 \<in> members (db_hash ex_db2)" "2 \<in> members (db_hash ex_db3)" "5 \<in> members (hdb_hash ex_db3)"
    using * [of 2 "(replicate 16 [])[1 := [1], 2 := [2]]" 2] * [of 9 "(replicate 16 [])[9 := [5]]" 5] by (simp_all add: ex_db_eval)
qed

theorem stadb_references_balance_witness:
  "(\<exists>s. db_heap ex_db2 2 = Some s \<and> st_ref s = 2)
   \<and> (\<exists>d'. mtlk_stadb_disconnect_all ex_db2 = Some d' \<and> mtlk_stadb_is_empty d')"
proof -
  have "behind ex_db2 2 = {}" by (simp add: ex_db_eval)
  then have "refs {#1, 2#} ex_db2 2 = 2" using ex_members(1) by (simp add: refs_def)
  then show ?thesis using stadb_references_balance [OF ex_db2_reach(1)] ex_db2_reach(2) by (metis zero_neq_numeral)
qed

lemma ex_db3_facts:
  "db_inv {#1, 2#} ex_db3" "roomy {#1, 2#} ex_db3" "mtlk_hash_find (ex_mac 9) (hdb_hash ex_db3) = Some 5" "5 \<in> behind ex_db3 1"
  "2 \<in> members (db_hash ex_db3)" "refs {#1, 2#} ex_db3 2 = 2"
proof -
  have "db_reach {#1, 2#} ex_db3"
    unfolding ex_db3_def by (rule db_reach.update_host [OF ex_db2_reach]) (simp_all add: ex_db_eval)
  then show i: "db_inv {#1, 2#} ex_db3" by (rule reach_inv)
  show "mtlk_hash_find (ex_mac 9) (hdb_hash ex_db3) = Some 5" by (simp add: ex_db_eval)
  have "map_option ho_sta (db_hosts ex_db3 5) = Some (Some 1)" by (simp add: ex_db_eval)
  then show "5 \<in> behind ex_db3 1" using ex_members(3) by (simp add: behind_def)
  show m: "2 \<in> members (db_hash ex_db3)" by simp
  have c: "db_cnt ex_db3 = 2" "hdb_cnt ex_db3 = 1" by (simp_all add: ex_db_eval)
  have "refs {#1, 2#} ex_db3 x + 3 < u32_max" for x
    using refs_bound [of "{#1, 2#}" ex_db3 x] db_invD(4) [OF i] c by (simp add: u32_max_def)
  then show "roomy {#1, 2#} ex_db3" using c by (simp add: roomy_def u32_max_def)
  have "behind ex_db3 2 = {}" by (auto simp: ex_db_eval split: if_splits)
  then show "refs {#1, 2#} ex_db3 2 = 2" using m by (simp add: refs_def)
qed

theorem hstdb_roaming_host_frees_station_witness:
  "let d1 = mtlk_hstdb_update_host (\<lambda>m. m \<noteq> replicate 6 0) True MTLK_ERR_OK MTLK_ERR_OK 200 6 (ex_mac 9) 2 ex_db3;
       d2 = mtlk_hstdb_remove_host 300 5 d1
   in 2 \<in> members (db_hash d2) \<and> db_heap d2 2 = None"
  using hstdb_roaming_host_frees_station [OF ex_db3_facts(1-4) _ ex_db3_facts(5,6), of "\<lambda>m. m \<noteq> replicate 6 0" True MTLK_ERR_OK MTLK_ERR_OK 200 6 300]
  by (simp add: Let_def)

end
