(* ===== verification/Rates.thy ===== *)
theory Rates
  imports Wave_Prelude
begin

text \<open>
  Bit rates and network modes: the bit field macros of \<^verbatim>\<open>wireless/shared/mtlkbfield.h\<close>, the two rate
  tables of \<^verbatim>\<open>driver/shared/bitrate.c\<close> (the one indexed by the rate index, the spectrum mode and
  the cyclic prefix that the configuration uses, and the one searched by the hardware's rate word that the
  receive statistics use) with their conversions, and the network modes of \<^verbatim>\<open>driver/shared/mtlkaux.c\<close>
  with their operational and basic rate sets.
\<close>

unbundle bit_operations_syntax

section \<open>Bit fields\<close>

definition MTLK_U_BITS_GET :: "'a::len word \<Rightarrow> nat \<Rightarrow> nat \<Rightarrow> 'a word" where
  "MTLK_U_BITS_GET bf from len = drop_bit from bf AND mask len"

definition MTLK_U_BITS_ZERO :: "'a::len word \<Rightarrow> nat \<Rightarrow> nat \<Rightarrow> 'a word" where
  "MTLK_U_BITS_ZERO bf from len = bf AND NOT (push_bit from (mask len))"

definition MTLK_U_BITS_SET :: "'a::len word \<Rightarrow> nat \<Rightarrow> nat \<Rightarrow> 'a word \<Rightarrow> 'a word" where
  "MTLK_U_BITS_SET bf from len val =
     MTLK_U_BITS_ZERO bf from len OR (push_bit from val AND push_bit from (mask len))"

definition MTLK_U_BITS_VALUE :: "nat \<Rightarrow> nat \<Rightarrow> 'a::len word \<Rightarrow> 'a word" where
  "MTLK_U_BITS_VALUE from len val = push_bit from (val AND mask len)"

lemmas bits_defs = MTLK_U_BITS_GET_def MTLK_U_BITS_ZERO_def MTLK_U_BITS_SET_def MTLK_U_BITS_VALUE_def

lemma bits_get_value:
  fixes v :: "'a::len word"
  assumes "from + len \<le> LENGTH('a)"
  shows "MTLK_U_BITS_GET (MTLK_U_BITS_VALUE from len v) from len = v AND mask len"
  by (rule bit_word_eqI) (use assms in \<open>auto simp: bits_defs bit_simps\<close>)

lemma bits_get_set:
  fixes v bf :: "'a::len word"
  assumes "from + len \<le> LENGTH('a)"
  shows "MTLK_U_BITS_GET (MTLK_U_BITS_SET bf from len v) from len = v AND mask len"
  by (rule bit_word_eqI) (use assms in \<open>auto simp: bits_defs bit_simps\<close>)

lemma bits_get_set_other:
  fixes v bf :: "'a::len word"
  assumes "from' + len' \<le> from \<or> from + len \<le> from'"
  shows "MTLK_U_BITS_GET (MTLK_U_BITS_SET bf from len v) from' len' = MTLK_U_BITS_GET bf from' len'"
  by (rule bit_word_eqI) (use assms in \<open>auto simp: bits_defs bit_simps dest: bit_imp_le_length\<close>)

lemma bits_get_or:
  fixes a b :: "'a::len word"
  shows "MTLK_U_BITS_GET (a OR b) from len = MTLK_U_BITS_GET a from len OR MTLK_U_BITS_GET b from len"
  by (rule bit_word_eqI) (auto simp: bits_defs bit_simps)

lemma bits_get_value_other:
  fixes v :: "'a::len word"
  assumes "from' + len' \<le> from \<or> from + len \<le> from'"
  shows "MTLK_U_BITS_GET (MTLK_U_BITS_VALUE from len v) from' len' = 0"
  by (rule bit_word_eqI) (use assms in \<open>auto simp: bits_defs bit_simps\<close>)

section \<open>The rate tables\<close>

definition BITRATE_FIRST :: int where "BITRATE_FIRST = 0"
definition BITRATE_LAST :: int where "BITRATE_LAST = 31"
definition MTLK_CORE_BITRATE_AUTO :: int where "MTLK_CORE_BITRATE_AUTO = -1"
definition NO_RATE :: nat where "NO_RATE = 0xFFFF"
definition MTLK_HW_RATE_INVALID :: nat where "MTLK_HW_RATE_INVALID = 0xFFFF"

lemmas rate_consts = BITRATE_FIRST_def BITRATE_LAST_def MTLK_CORE_BITRATE_AUTO_def NO_RATE_def
  MTLK_HW_RATE_INVALID_def

definition bitrates :: "int list" where
  "bitrates =
    [60, 60, 60, 60,
     90, 90, 90, 90,
     120, 120, 120, 120,
     180, 180, 180, 180,
     240, 240, 240, 240,
     360, 360, 360, 360,
     480, 480, 480, 480,
     540, 540, 540, 540,
     20, 20, 20, 20,
     55, 55, 55, 55,
     110, 110, 110, 110,
     10, 10, 10, 10,
     20, 20, 20, 20,
     55, 55, 55, 55,
     110, 110, 110, 110,
     65, 72, 135, 150,
     130, 144, 270, 300,
     195, 217, 405, 450,
     260, 289, 540, 600,
     390, 433, 810, 900,
     520, 578, 1080, 1200,
     585, 650, 1215, 1350,
     650, 722, 1350, 1500,
     130, 144, 270, 300,
     260, 289, 540, 600,
     390, 433, 810, 900,
     520, 578, 1080, 1200,
     780, 867, 1620, 1800,
     1040, 1156, 2160, 2400,
     1170, 1300, 2430, 2700,
     1300, 1444, 2700, 3000,
     1300, 1444, 2700, 3000]"

definition mtlk_bitrate_get_value :: "int \<Rightarrow> int \<Rightarrow> int \<Rightarrow> c_fault + int" where
  "mtlk_bitrate_get_value index sm scp =
    (let i = push_bit 2 index OR push_bit 1 sm OR push_bit 0 scp in
     if 0 \<le> i \<and> i < int (length bitrates) then Inr (100 * 1000 * bitrates ! nat i)
     else Inl Out_of_bounds)"

text \<open>The loop of \<^verbatim>\<open>mtlk_bitrate_rates_to_idx\<close>, from the index \<open>i\<close> on.\<close>
function rates_to_idx_loop :: "int \<Rightarrow> int \<Rightarrow> int \<Rightarrow> int \<Rightarrow> c_fault + (mtlk_error + nat)" where
  "rates_to_idx_loop bps sm scp i =
    (if BITRATE_LAST < i then Inr (Inl MTLK_ERR_PARAMS)
     else bind_result (mtlk_bitrate_get_value i sm scp)
       (\<lambda>v. if bps = v then Inr (Inr (nat i)) else rates_to_idx_loop bps sm scp (i + 1)))"
  by pat_completeness auto
termination
  by (relation "measure (\<lambda>(_, _, _, i). nat (BITRATE_LAST + 1 - i))") auto

declare rates_to_idx_loop.simps [simp del]

text \<open>The sum of the two products is computed in a 32-bit \<^verbatim>\<open>int\<close>.\<close>
definition mtlk_bitrate_rates_to_idx :: "int \<Rightarrow> int \<Rightarrow> int \<Rightarrow> int \<Rightarrow> c_fault + (mtlk_error + nat)" where
  "mtlk_bitrate_rates_to_idx int_rate frac_rate spectrum_mode short_cyclic_prefix =
    (if MTLK_CORE_BITRATE_AUTO = int_rate \<and> MTLK_CORE_BITRATE_AUTO = frac_rate then Inr (Inr NO_RATE)
     else rates_to_idx_loop (signed_take_bit 31 (1000000 * int_rate + 100000 * frac_rate))
       spectrum_mode short_cyclic_prefix BITRATE_FIRST)"

definition mtlk_bitrate_idx_to_rates :: "nat \<Rightarrow> int \<Rightarrow> int \<Rightarrow> c_fault + (mtlk_error + int \<times> int)" where
  "mtlk_bitrate_idx_to_rates index spectrum_mode short_cyclic_prefix =
    (if index = NO_RATE then Inr (Inr (MTLK_CORE_BITRATE_AUTO, MTLK_CORE_BITRATE_AUTO))
     else if int index \<le> BITRATE_LAST then
       bind_result (mtlk_bitrate_get_value (int index) spectrum_mode short_cyclic_prefix)
         (\<lambda>bps. Inr (Inr (bps div 1000000, (bps mod 1000000) div 100000)))
     else Inr (Inl MTLK_ERR_PARAMS))"

record mtlk_hw_rate_info =
  hwr_rate :: nat
  hwr_tcr2 :: byte
  hwr_scp :: nat

definition HW_RATE_TCR2 :: "byte \<Rightarrow> byte \<Rightarrow> byte \<Rightarrow> byte \<Rightarrow> byte" where
  "HW_RATE_TCR2 mcs b ht cb =
     MTLK_U_BITS_VALUE 7 1 cb OR MTLK_U_BITS_VALUE 6 1 ht OR MTLK_U_BITS_VALUE 5 1 b OR MTLK_U_BITS_VALUE 0 5 mcs"

definition HW_RATE_ENTRY :: "nat \<Rightarrow> byte \<Rightarrow> byte \<Rightarrow> byte \<Rightarrow> byte \<Rightarrow> nat \<Rightarrow> mtlk_hw_rate_info" where
  "HW_RATE_ENTRY rate mcs b ht cb scp =
     \<lparr>hwr_rate = rate, hwr_tcr2 = HW_RATE_TCR2 mcs b ht cb, hwr_scp = scp\<rparr>"

definition hw_brate_info :: "mtlk_hw_rate_info list" where
  "hw_brate_info =
    [HW_RATE_ENTRY 60 0 0 0 0 0, HW_RATE_ENTRY 90 1 0 0 0 0,
     HW_RATE_ENTRY 120 2 0 0 0 0, HW_RATE_ENTRY 180 3 0 0 0 0,
     HW_RATE_ENTRY 240 4 0 0 0 0, HW_RATE_ENTRY 360 5 0 0 0 0,
     HW_RATE_ENTRY 480 6 0 0 0 0, HW_RATE_ENTRY 540 7 0 0 0 0,
     HW_RATE_ENTRY 20 1 1 0 0 0, HW_RATE_ENTRY 55 2 1 0 0 0,
     HW_RATE_ENTRY 110 3 1 0 0 0, HW_RATE_ENTRY 10 4 1 0 0 0,
     HW_RATE_ENTRY 20 5 1 0 0 0, HW_RATE_ENTRY 55 6 1 0 0 0,
     HW_RATE_ENTRY 110 7 1 0 0 0, HW_RATE_ENTRY 65 0 0 1 0 0,
     HW_RATE_ENTRY 130 1 0 1 0 0, HW_RATE_ENTRY 195 2 0 1 0 0,
     HW_RATE_ENTRY 260 3 0 1 0 0, HW_RATE_ENTRY 390 4 0 1 0 0,
     HW_RATE_ENTRY 520 5 0 1 0 0, HW_RATE_ENTRY 585 6 0 1 0 0,
     HW_RATE_ENTRY 650 7 0 1 0 0, HW_RATE_ENTRY 130 8 0 1 0 0,
     HW_RATE_ENTRY 260 9 0 1 0 0, HW_RATE_ENTRY 390 10 0 1 0 0,
     HW_RATE_ENTRY 520 11 0 1 0 0, HW_RATE_ENTRY 780 12 0 1 0 0,
     HW_RATE_ENTRY 1040 13 0 1 0 0, HW_RATE_ENTRY 1170 14 0 1 0 0,
     HW_RATE_ENTRY 1300 15 0 1 0 0, HW_RATE_ENTRY 60 0 0 0 1 0,
     HW_RATE_ENTRY 90 1 0 0 1 0, HW_RATE_ENTRY 120 2 0 0 1 0,
     HW_RATE_ENTRY 180 3 0 0 1 0, HW_RATE_ENTRY 240 4 0 0 1 0,
     HW_RATE_ENTRY 360 5 0 0 1 0, HW_RATE_ENTRY 480 6 0 0 1 0,
     HW_RATE_ENTRY 540 7 0 0 1 0, HW_RATE_ENTRY 20 1 1 0 1 0,
     HW_RATE_ENTRY 55 2 1 0 1 0, HW_RATE_ENTRY 110 3 1 0 1 0,
     HW_RATE_ENTRY 10 4 1 0 1 0, HW_RATE_ENTRY 20 5 1 0 1 0,
     HW_RATE_ENTRY 55 6 1 0 1 0, HW_RATE_ENTRY 110 7 1 0 1 0,
     HW_RATE_ENTRY 135 0 0 1 1 0, HW_RATE_ENTRY 270 1 0 1 1 0,
     HW_RATE_ENTRY 405 2 0 1 1 0, HW_RATE_ENTRY 540 3 0 1 1 0,
     HW_RATE_ENTRY 810 4 0 1 1 0, HW_RATE_ENTRY 1080 5 0 1 1 0,
     HW_RATE_ENTRY 1215 6 0 1 1 0, HW_RATE_ENTRY 1350 7 0 1 1 0,
     HW_RATE_ENTRY 270 8 0 1 1 0, HW_RATE_ENTRY 540 9 0 1 1 0,
     HW_RATE_ENTRY 810 10 0 1 1 0, HW_RATE_ENTRY 1080 11 0 1 1 0,
     HW_RATE_ENTRY 1620 12 0 1 1 0, HW_RATE_ENTRY 2160 13 0 1 1 0,
     HW_RATE_ENTRY 2430 14 0 1 1 0, HW_RATE_ENTRY 2700 15 0 1 1 0,
     HW_RATE_ENTRY 60 16 0 1 1 0, HW_RATE_ENTRY 72 0 0 1 0 1,
     HW_RATE_ENTRY 144 1 0 1 0 1, HW_RATE_ENTRY 217 2 0 1 0 1,
     HW_RATE_ENTRY 289 3 0 1 0 1, HW_RATE_ENTRY 433 4 0 1 0 1,
     HW_RATE_ENTRY 578 5 0 1 0 1, HW_RATE_ENTRY 650 6 0 1 0 1,
     HW_RATE_ENTRY 722 7 0 1 0 1, HW_RATE_ENTRY 144 8 0 1 0 1,
     HW_RATE_ENTRY 289 9 0 1 0 1, HW_RATE_ENTRY 433 10 0 1 0 1,
     HW_RATE_ENTRY 578 11 0 1 0 1, HW_RATE_ENTRY 867 12 0 1 0 1,
     HW_RATE_ENTRY 1156 13 0 1 0 1, HW_RATE_ENTRY 1300 14 0 1 0 1,
     HW_RATE_ENTRY 1444 15 0 1 0 1, HW_RATE_ENTRY 150 0 0 1 1 1,
     HW_RATE_ENTRY 300 1 0 1 1 1, HW_RATE_ENTRY 450 2 0 1 1 1,
     HW_RATE_ENTRY 600 3 0 1 1 1, HW_RATE_ENTRY 900 4 0 1 1 1,
     HW_RATE_ENTRY 1200 5 0 1 1 1, HW_RATE_ENTRY 1350 6 0 1 1 1,
     HW_RATE_ENTRY 1500 7 0 1 1 1, HW_RATE_ENTRY 300 8 0 1 1 1,
     HW_RATE_ENTRY 600 9 0 1 1 1, HW_RATE_ENTRY 900 10 0 1 1 1,
     HW_RATE_ENTRY 1200 11 0 1 1 1, HW_RATE_ENTRY 1800 12 0 1 1 1,
     HW_RATE_ENTRY 2400 13 0 1 1 1, HW_RATE_ENTRY 2700 14 0 1 1 1,
     HW_RATE_ENTRY 3000 15 0 1 1 1, HW_RATE_ENTRY 67 16 0 1 1 1]"

text \<open>The loop of \<^verbatim>\<open>mtlk_hw_rate_params_to_rate\<close> over the rest of the table.\<close>
fun hw_rate_search :: "byte \<Rightarrow> nat \<Rightarrow> mtlk_hw_rate_info list \<Rightarrow> nat" where
  "hw_rate_search tcr2 scp [] = MTLK_HW_RATE_INVALID"
| "hw_rate_search tcr2 scp (e # es) =
    (if hwr_scp e = scp \<and> hwr_tcr2 e = tcr2 then hwr_rate e else hw_rate_search tcr2 scp es)"

definition mtlk_hw_rate_params_to_rate :: "byte \<Rightarrow> nat \<Rightarrow> nat" where
  "mtlk_hw_rate_params_to_rate hw_param_tcr2 scp = hw_rate_search hw_param_tcr2 scp hw_brate_info"

section \<open>Network modes\<close>

definition NETWORK_11B_ONLY :: nat where "NETWORK_11B_ONLY = 0"
definition NETWORK_11G_ONLY :: nat where "NETWORK_11G_ONLY = 1"
definition NETWORK_11N_2_4_ONLY :: nat where "NETWORK_11N_2_4_ONLY = 2"
definition NETWORK_11BG_MIXED :: nat where "NETWORK_11BG_MIXED = 3"
definition NETWORK_11GN_MIXED :: nat where "NETWORK_11GN_MIXED = 4"
definition NETWORK_11BGN_MIXED :: nat where "NETWORK_11BGN_MIXED = 5"
definition NETWORK_11A_ONLY :: nat where "NETWORK_11A_ONLY = 6"
definition NETWORK_11N_5_ONLY :: nat where "NETWORK_11N_5_ONLY = 7"
definition NETWORK_11AN_MIXED :: nat where "NETWORK_11AN_MIXED = 8"
definition NETWORK_11ABG_MIXED :: nat where "NETWORK_11ABG_MIXED = 9"
definition NETWORK_11ABGN_MIXED :: nat where "NETWORK_11ABGN_MIXED = 10"
definition NETWORK_NONE :: nat where "NETWORK_NONE = 11"
definition NUM_OF_NETWORK_MODES :: nat where "NUM_OF_NETWORK_MODES = 9"
definition NUM_OF_BASIC_RATE_SET_MODES :: nat where "NUM_OF_BASIC_RATE_SET_MODES = 3"
definition MTLK_HW_BAND_5_2_GHZ :: nat where "MTLK_HW_BAND_5_2_GHZ = 0"
definition MTLK_HW_BAND_2_4_GHZ :: nat where "MTLK_HW_BAND_2_4_GHZ = 1"
definition MTLK_HW_BAND_BOTH :: nat where "MTLK_HW_BAND_BOTH = 2"

lemmas net_mode_consts = NETWORK_11B_ONLY_def
  NETWORK_11G_ONLY_def
  NETWORK_11N_2_4_ONLY_def
  NETWORK_11BG_MIXED_def
  NETWORK_11GN_MIXED_def
  NETWORK_11BGN_MIXED_def
  NETWORK_11A_ONLY_def
  NETWORK_11N_5_ONLY_def
  NETWORK_11AN_MIXED_def
  NETWORK_11ABG_MIXED_def
  NETWORK_11ABGN_MIXED_def
  NETWORK_NONE_def
  NUM_OF_NETWORK_MODES_def NUM_OF_BASIC_RATE_SET_MODES_def
lemmas band_consts = MTLK_HW_BAND_5_2_GHZ_def MTLK_HW_BAND_2_4_GHZ_def MTLK_HW_BAND_BOTH_def

definition LM_PHY_11N_RATE_MSK :: "32 word" where "LM_PHY_11N_RATE_MSK = 0xFFFF8000"
definition LM_PHY_11N_RATE_6_5 :: nat where "LM_PHY_11N_RATE_6_5 = 15"
definition LM_PHY_11N_RATE_6_DUP :: nat where "LM_PHY_11N_RATE_6_DUP = 31"

definition mtlk_aux_is_11n_rate :: "nat \<Rightarrow> bool" where
  "mtlk_aux_is_11n_rate rate = (LM_PHY_11N_RATE_6_5 \<le> rate \<and> rate \<le> LM_PHY_11N_RATE_6_DUP)"

definition OperateRateSet :: "32 word list" where
  "OperateRateSet =
    [0x00007f00, 0x00007fff, 0xffffffff, 0x00007fff, 0xffffffff, 0xffffffff,
     0x000000ff, 0xffff80ff, 0xffff80ff,
     0x00007fff, 0xffffffff]"

definition BSSBasicRateSet :: "32 word list list" where
  "BSSBasicRateSet =
    [[0x00007800, 0x00007f00, 0x00001800],
     [0x00007800, 0x00007fff, 0x00001800],
     [0x00007800, 0x00007fff, 0x00001800],
     [0x00001800, 0x00007fff, 0x00001800],
     [0x00007800, 0x00007fff, 0x00001800],
     [0x00007800, 0x00007fff, 0x00001800],
     [0x00000015, 0x000000ff, 0xfeedbeef],
     [0x00000015, 0x000000ff, 0xfeedbeef],
     [0x00000015, 0x000000ff, 0xfeedbeef]]"

definition get_operate_rate_set :: "nat \<Rightarrow> c_fault + 32 word" where
  "get_operate_rate_set net_mode =
    (if net_mode < length OperateRateSet then Inr (OperateRateSet ! net_mode) else Inl Out_of_bounds)"

definition get_basic_rate_set :: "nat \<Rightarrow> nat \<Rightarrow> c_fault + 32 word" where
  "get_basic_rate_set net_mode md =
    (if net_mode < NUM_OF_NETWORK_MODES \<and> md < NUM_OF_BASIC_RATE_SET_MODES
     then Inr (BSSBasicRateSet ! net_mode ! md) else Inl Out_of_bounds)"

definition get_net_mode :: "nat \<Rightarrow> bool \<Rightarrow> nat" where
  "get_net_mode band is_ht =
    (if band = MTLK_HW_BAND_2_4_GHZ then (if is_ht then NETWORK_11BGN_MIXED else NETWORK_11BG_MIXED)
     else if band = MTLK_HW_BAND_5_2_GHZ then (if is_ht then NETWORK_11AN_MIXED else NETWORK_11A_ONLY)
     else if band = MTLK_HW_BAND_BOTH then (if is_ht then NETWORK_11ABGN_MIXED else NETWORK_11ABG_MIXED)
     else 0)"

definition net_mode_to_band :: "nat \<Rightarrow> nat" where
  "net_mode_to_band net_mode =
    (if net_mode \<in> {NETWORK_11BG_MIXED, NETWORK_11BGN_MIXED, NETWORK_11B_ONLY, NETWORK_11GN_MIXED,
         NETWORK_11G_ONLY, NETWORK_11N_2_4_ONLY} then MTLK_HW_BAND_2_4_GHZ
     else if net_mode \<in> {NETWORK_11AN_MIXED, NETWORK_11A_ONLY, NETWORK_11N_5_ONLY} then MTLK_HW_BAND_5_2_GHZ
     else if net_mode \<in> {NETWORK_11ABG_MIXED, NETWORK_11ABGN_MIXED} then MTLK_HW_BAND_BOTH
     else 0)"

definition is_ht_net_mode :: "nat \<Rightarrow> bool" where
  "is_ht_net_mode net_mode =
    (if net_mode \<in> {NETWORK_11ABG_MIXED, NETWORK_11A_ONLY, NETWORK_11BG_MIXED, NETWORK_11B_ONLY,
         NETWORK_11G_ONLY} then False
     else if net_mode \<in> {NETWORK_11ABGN_MIXED, NETWORK_11AN_MIXED, NETWORK_11BGN_MIXED,
         NETWORK_11GN_MIXED, NETWORK_11N_2_4_ONLY, NETWORK_11N_5_ONLY} then True
     else False)"

definition is_mixed_net_mode :: "nat \<Rightarrow> bool" where
  "is_mixed_net_mode net_mode =
    (if net_mode \<in> {NETWORK_11ABG_MIXED, NETWORK_11BG_MIXED, NETWORK_11ABGN_MIXED, NETWORK_11AN_MIXED,
         NETWORK_11BGN_MIXED, NETWORK_11GN_MIXED} then True
     else if net_mode \<in> {NETWORK_11B_ONLY, NETWORK_11G_ONLY, NETWORK_11A_ONLY, NETWORK_11N_2_4_ONLY,
         NETWORK_11N_5_ONLY} then False
     else False)"

definition net_mode_to_string :: "nat \<Rightarrow> string" where
  "net_mode_to_string net_mode =
    (if net_mode = NETWORK_11B_ONLY then ''802.11b''
     else if net_mode = NETWORK_11G_ONLY then ''802.11g''
     else if net_mode = NETWORK_11N_2_4_ONLY then ''802.11n(2.4)''
     else if net_mode = NETWORK_11BG_MIXED then ''802.11bg''
     else if net_mode = NETWORK_11GN_MIXED then ''802.11gn''
     else if net_mode = NETWORK_11BGN_MIXED then ''802.11bgn''
     else if net_mode = NETWORK_11A_ONLY then ''802.11a''
     else if net_mode = NETWORK_11N_5_ONLY then ''802.11n(5.2)''
     else if net_mode = NETWORK_11AN_MIXED then ''802.11an''
     else if net_mode = NETWORK_11ABG_MIXED then ''802.11abg''
     else if net_mode = NETWORK_11ABGN_MIXED then ''802.11abgn''
     else ''invalid mode'')"

section \<open>Conversions\<close>

lemma length_bitrates [simp]: "length bitrates = 128"
  by (simp add: bitrates_def)

lemma bitrates_range: "x \<in> set bitrates \<Longrightarrow> 0 < x \<and> x \<le> 3000"
  by (simp add: bitrates_def) linarith

lemma bitrate_get_value_defined:
  assumes "0 \<le> i" "i \<le> BITRATE_LAST" "sm \<in> {0, 1}" "scp \<in> {0, 1}"
  obtains k where "mtlk_bitrate_get_value i sm scp = Inr (100000 * k)" "0 < k" "k \<le> 3000"
proof -
  let ?i = "push_bit 2 i OR push_bit 1 sm OR push_bit 0 scp"
  have "0 \<le> ?i" using assms by auto
  moreover have "?i < 2 ^ 7"
    using assms by (intro OR_upper) (auto simp: push_bit_eq_mult rate_consts)
  ultimately have "mtlk_bitrate_get_value i sm scp = Inr (100000 * bitrates ! nat ?i)" "nat ?i < length bitrates"
    by (auto simp: mtlk_bitrate_get_value_def Let_def)
  with bitrates_range [OF nth_mem] that show thesis by blast
qed

text \<open>What the search returns: the first index of the wanted value.\<close>
lemma rates_to_idx_loop_first:
  assumes "0 \<le> i" "i \<le> k" "k \<le> BITRATE_LAST" "sm \<in> {0, 1}" "scp \<in> {0, 1}"
    "mtlk_bitrate_get_value k sm scp = Inr v"
    "\<forall>l. i \<le> l \<and> l < k \<longrightarrow> mtlk_bitrate_get_value l sm scp \<noteq> Inr v"
  shows "rates_to_idx_loop v sm scp i = Inr (Inr (nat k))"
  using assms
proof (induction v sm scp i rule: rates_to_idx_loop.induct)
  case (1 bps sm scp i)
  show ?case
  proof (cases "i = k")
    case True
    with 1 show ?thesis by (subst rates_to_idx_loop.simps) simp
  next
    case False
    with 1 have lt: "i < k" "\<not> BITRATE_LAST < i" by auto
    then obtain w where w: "mtlk_bitrate_get_value i sm scp = Inr w"
      using bitrate_get_value_defined [of i sm scp] 1 by (metis linorder_not_less)
    then have "bps \<noteq> w" using 1(8) lt by fastforce
    have "rates_to_idx_loop bps sm scp (i + 1) = Inr (Inr (nat k))"
      by (rule 1(1)) (use 1 lt \<open>bps \<noteq> w\<close> in auto)
    with w \<open>bps \<noteq> w\<close> lt show ?thesis by (subst rates_to_idx_loop.simps) simp
  qed
qed

lemma idx_to_rates_index:
  assumes "int i \<le> BITRATE_LAST" "mtlk_bitrate_get_value (int i) sm scp = Inr v"
  shows "mtlk_bitrate_idx_to_rates i sm scp = Inr (Inr (v div 1000000, (v mod 1000000) div 100000))"
  using assms by (auto simp: mtlk_bitrate_idx_to_rates_def rate_consts)

lemma rate_split:
  fixes v :: int
  assumes "v = 100000 * k"
  shows "1000000 * (v div 1000000) + 100000 * ((v mod 1000000) div 100000) = v"
proof -
  have "v div 1000000 = k div 10" "v mod 1000000 = 100000 * (k mod 10)"
    using assms mult_mod_right [of 100000 k 10] by simp_all
  moreover have "k = 10 * (k div 10) + k mod 10" by simp
  ultimately show ?thesis using assms by (simp only: nonzero_mult_div_cancel_left)
qed

lemma idx_to_rates_inverse:
  assumes "sm \<in> {0, 1}" "scp \<in> {0, 1}" "mtlk_bitrate_idx_to_rates i sm scp = Inr (Inr (a, b))" "i \<noteq> NO_RATE"
  shows "mtlk_bitrate_get_value (int i) sm scp = Inr (1000000 * a + 100000 * b)" "0 \<le> a" "0 \<le> b"
    "1000000 * a + 100000 * b \<le> 300000000" "int i \<le> BITRATE_LAST"
proof -
  show l: "int i \<le> BITRATE_LAST"
    using assms(3,4) by (auto simp: mtlk_bitrate_idx_to_rates_def split: if_splits)
  then obtain k where k: "mtlk_bitrate_get_value (int i) sm scp = Inr (100000 * k)" "0 < k" "k \<le> 3000"
    using bitrate_get_value_defined assms(1,2) by (metis of_nat_0_le_iff)
  from idx_to_rates_index [OF l k(1)] assms(3)
  have ab: "a = 100000 * k div 1000000" "b = (100000 * k) mod 1000000 div 100000" by simp_all
  then have "1000000 * a + 100000 * b = 100000 * k" using rate_split [OF refl] by simp
  with k show "mtlk_bitrate_get_value (int i) sm scp = Inr (1000000 * a + 100000 * b)"
    "1000000 * a + 100000 * b \<le> 300000000" by simp_all
  show "0 \<le> a" "0 \<le> b" using k ab by simp_all
qed

text \<open>
  A rate index that is printed as whole and tenth megabits and entered again gives the smallest index of that rate:
  the second index is never larger, prints the same and no smaller index does; the automatic rate comes back as it is. So
  exactly the indices whose rate no smaller index has survive the round trip.
\<close>
lemma bitrate_round_trip:
  assumes "int i \<le> BITRATE_LAST \<or> i = NO_RATE" "sm \<in> {0, 1}" "scp \<in> {0, 1}"
  shows "\<exists>a b j. mtlk_bitrate_idx_to_rates i sm scp = Inr (Inr (a, b))
    \<and> mtlk_bitrate_rates_to_idx a b sm scp = Inr (Inr j)
    \<and> j \<le> i \<and> mtlk_bitrate_idx_to_rates j sm scp = Inr (Inr (a, b))
    \<and> (\<forall>k < j. mtlk_bitrate_idx_to_rates k sm scp \<noteq> Inr (Inr (a, b)))"
proof (cases "i = NO_RATE")
  case True
  have "mtlk_bitrate_idx_to_rates k sm scp \<noteq> Inr (Inr (-1, -1))" if "k < i" for k
    using idx_to_rates_inverse(2) [OF assms(2,3), of k "-1" "-1"] that True by auto
  then show ?thesis
    using True by (auto simp: mtlk_bitrate_idx_to_rates_def mtlk_bitrate_rates_to_idx_def MTLK_CORE_BITRATE_AUTO_def)
next
  case False
  with assms have l: "int i \<le> BITRATE_LAST" by simp
  then obtain m where "mtlk_bitrate_get_value (int i) sm scp = Inr (100000 * m)"
    using bitrate_get_value_defined assms(2,3) by (metis of_nat_0_le_iff)
  from idx_to_rates_index [OF l this] obtain a b where
    ab: "mtlk_bitrate_idx_to_rates i sm scp = Inr (Inr (a, b))" by blast
  define j where "j = (LEAST j. mtlk_bitrate_idx_to_rates j sm scp = Inr (Inr (a, b)))"
  have j: "mtlk_bitrate_idx_to_rates j sm scp = Inr (Inr (a, b))" "j \<le> i"
    and least: "\<And>k. k < j \<Longrightarrow> mtlk_bitrate_idx_to_rates k sm scp \<noteq> Inr (Inr (a, b))"
    unfolding j_def using ab by (auto intro: LeastI Least_le dest: not_less_Least)
  have nj: "j \<noteq> NO_RATE" using j(2) l by (auto simp: rate_consts)
  let ?v = "1000000 * a + 100000 * b"
  note J = idx_to_rates_inverse [OF assms(2,3) j(1) nj]
  have "rates_to_idx_loop ?v sm scp 0 = Inr (Inr (nat (int j)))"
  proof (rule rates_to_idx_loop_first)
    show "\<forall>l. 0 \<le> l \<and> l < int j \<longrightarrow> mtlk_bitrate_get_value l sm scp \<noteq> Inr ?v"
    proof (intro allI impI notI)
      fix l assume l: "0 \<le> l \<and> l < int j" "mtlk_bitrate_get_value l sm scp = Inr ?v"
      then have "int (nat l) = l" "nat l < j" "int (nat l) \<le> BITRATE_LAST" using J(5) by auto
      with l idx_to_rates_index [of "nat l" sm scp ?v] idx_to_rates_index [OF J(5,1)] j(1) least [of "nat l"]
      show False by simp
    qed
  qed (use J assms in auto)
  moreover have "signed_take_bit 31 ?v = ?v"
    using J by (intro signed_take_bit_int_eq_self) auto
  ultimately have "mtlk_bitrate_rates_to_idx a b sm scp = Inr (Inr j)"
    using J(2,3) by (simp add: mtlk_bitrate_rates_to_idx_def rate_consts)
  with ab j least show ?thesis by blast
qed

text \<open>The hardware's rate word of a rate index: 11a rates come first, then 11b rates from MCS 1 on, then 11n rates.\<close>
definition index_tcr2 :: "nat \<Rightarrow> byte \<Rightarrow> byte" where
  "index_tcr2 i cb =
    (if mtlk_aux_is_11n_rate i then HW_RATE_TCR2 (of_nat (i - 15)) 0 1 cb
     else if 8 \<le> i then HW_RATE_TCR2 (of_nat (i - 7)) 1 0 cb
     else HW_RATE_TCR2 (of_nat i) 0 0 cb)"

definition tables_agree :: "nat \<Rightarrow> nat \<Rightarrow> nat \<Rightarrow> bool" where
  "tables_agree i sm scp \<longleftrightarrow>
    mtlk_bitrate_get_value (int i) (int sm) (int scp) = Inr (100000 * int (mtlk_hw_rate_params_to_rate
      (index_tcr2 i (of_nat sm)) (if mtlk_aux_is_11n_rate i then scp else 0)))"

text \<open>The search on integer triples, which evaluates fast.\<close>
fun triple_search :: "int \<Rightarrow> int \<Rightarrow> (int \<times> int \<times> int) list \<Rightarrow> int" where
  "triple_search t c [] = 65535"
| "triple_search t c ((r, t', c') # es) = (if c' = c \<and> t' = t then r else triple_search t c es)"

lemma hw_rate_search_triples:
  "int (hw_rate_search t c es) =
     triple_search (uint t) (int c) (map (\<lambda>(r, t, c). (int r, uint t, int c)) (map (\<lambda>e. (hwr_rate e, hwr_tcr2 e, hwr_scp e)) es))"
  by (induction es) (auto simp: MTLK_HW_RATE_INVALID_def word_uint_eq_iff)

definition index_code :: "int \<Rightarrow> int \<Rightarrow> int" where
  "index_code i cb = 128 * cb + (if 15 \<le> i then 64 + (i - 15) else if 8 \<le> i then 32 + (i - 7) else i)"

lemma index_tcr2_code:
  assumes "i < 32" "cb \<in> {0, 1}"
  shows "uint (index_tcr2 i (of_nat cb)) = index_code (int i) (int cb)"
proof -
  have "i \<in> set [0..<32]" using assms by simp
  moreover have "list_all (\<lambda>i. uint (index_tcr2 i 0) = index_code (int i) 0 \<and> uint (index_tcr2 i 1) = index_code (int i) 1) [0..<32]"
    by (simp add: upt_conv_Cons index_tcr2_def index_code_def mtlk_aux_is_11n_rate_def LM_PHY_11N_RATE_6_5_def
        LM_PHY_11N_RATE_6_DUP_def HW_RATE_TCR2_def bits_defs mask_eq_exp_minus_1)
  ultimately show ?thesis using assms by (auto simp: list_all_iff)
qed

text \<open>The hardware table as integer triples.\<close>
definition hw_triples :: "(int \<times> int \<times> int) list" where
  "hw_triples = map (\<lambda>(r, t, c). (int r, uint t, int c)) (map (\<lambda>e. (hwr_rate e, hwr_tcr2 e, hwr_scp e)) hw_brate_info)"

lemma hw_triples_eval:
  "hw_triples =
    [(60, 0, 0), (90, 1, 0), (120, 2, 0), (180, 3, 0), (240, 4, 0), (360, 5, 0), (480, 6, 0), (540, 7, 0),
     (20, 33, 0), (55, 34, 0), (110, 35, 0), (10, 36, 0), (20, 37, 0), (55, 38, 0), (110, 39, 0), (65, 64, 0),
     (130, 65, 0), (195, 66, 0), (260, 67, 0), (390, 68, 0), (520, 69, 0), (585, 70, 0), (650, 71, 0), (130, 72, 0),
     (260, 73, 0), (390, 74, 0), (520, 75, 0), (780, 76, 0), (1040, 77, 0), (1170, 78, 0), (1300, 79, 0), (60, 128, 0),
     (90, 129, 0), (120, 130, 0), (180, 131, 0), (240, 132, 0), (360, 133, 0), (480, 134, 0), (540, 135, 0), (20, 161, 0),
     (55, 162, 0), (110, 163, 0), (10, 164, 0), (20, 165, 0), (55, 166, 0), (110, 167, 0), (135, 192, 0), (270, 193, 0),
     (405, 194, 0), (540, 195, 0), (810, 196, 0), (1080, 197, 0), (1215, 198, 0), (1350, 199, 0), (270, 200, 0), (540, 201, 0),
     (810, 202, 0), (1080, 203, 0), (1620, 204, 0), (2160, 205, 0), (2430, 206, 0), (2700, 207, 0), (60, 208, 0), (72, 64, 1),
     (144, 65, 1), (217, 66, 1), (289, 67, 1), (433, 68, 1), (578, 69, 1), (650, 70, 1), (722, 71, 1), (144, 72, 1),
     (289, 73, 1), (433, 74, 1), (578, 75, 1), (867, 76, 1), (1156, 77, 1), (1300, 78, 1), (1444, 79, 1), (150, 192, 1),
     (300, 193, 1), (450, 194, 1), (600, 195, 1), (900, 196, 1), (1200, 197, 1), (1350, 198, 1), (1500, 199, 1), (300, 200, 1),
     (600, 201, 1), (900, 202, 1), (1200, 203, 1), (1800, 204, 1), (2400, 205, 1), (2700, 206, 1), (3000, 207, 1), (67, 208, 1)]"
  by (simp add: hw_triples_def hw_brate_info_def HW_RATE_ENTRY_def HW_RATE_TCR2_def bits_defs mask_eq_exp_minus_1)

lemma triples_agree:
  "list_all (\<lambda>(i, sm, scp). (bitrates ! nat (4 * i + 2 * sm + scp) =
      triple_search (index_code i sm) (if 15 \<le> i then scp else 0) hw_triples) = (i \<noteq> 31))
    [(i, sm, scp). i \<leftarrow> [0..31], sm \<leftarrow> [0, 1], scp \<leftarrow> [0, 1]]"
  unfolding hw_triples_eval
  by code_simp

lemma table_index:
  fixes i sm scp :: int
  assumes "sm \<in> {0, 1}" "scp \<in> {0, 1}"
  shows "push_bit 2 i OR push_bit 1 sm OR push_bit 0 scp = 4 * i + 2 * sm + scp"
proof -
  have "push_bit 1 sm OR scp = 2 * sm + scp" using assms by auto
  moreover have "push_bit 2 i OR (2 * sm + scp) = push_bit 2 i + (2 * sm + scp)"
  proof (rule disjunctive_add_eq_or [symmetric], rule bit_eqI)
    fix n
    show "bit (push_bit 2 i AND (2 * sm + scp)) n \<longleftrightarrow> bit 0 n"
      using assms by (cases n rule: nat.exhaust; cases "n - 1" rule: nat.exhaust) (auto simp: bit_simps)
  qed
  ultimately show ?thesis by (simp add: push_bit_eq_mult)
qed

text \<open>
  The two rate tables tell the same rate, for every spectrum mode and cyclic prefix, of every rate index but one: what the
  configuration calls index 31 has 130 to 300 Mbit/s in the first table, while the hardware's word of that rate, MCS 16 of the
  40 MHz mode, has 6.0 or 6.7 Mbit/s in the second and is not in it at all without channel bonding.
\<close>
lemma rate_tables_agree:
  assumes "i < 32" "sm \<in> {0, 1}" "scp \<in> {0, 1}"
  shows "mtlk_bitrate_get_value (int i) (int sm) (int scp) = Inr (100000 * int (mtlk_hw_rate_params_to_rate
      (index_tcr2 i (of_nat sm)) (if mtlk_aux_is_11n_rate i then scp else 0)))
    \<longleftrightarrow> i \<noteq> LM_PHY_11N_RATE_6_DUP"
proof -
  have n: "mtlk_aux_is_11n_rate i \<longleftrightarrow> 15 \<le> int i"
    using assms by (auto simp: mtlk_aux_is_11n_rate_def LM_PHY_11N_RATE_6_5_def LM_PHY_11N_RATE_6_DUP_def)
  have t: "push_bit 2 (int i) OR push_bit 1 (int sm) OR push_bit 0 (int scp) = 4 * int i + 2 * int sm + int scp"
    by (rule table_index) (use assms in auto)
  have v: "mtlk_bitrate_get_value (int i) (int sm) (int scp) =
      Inr (100000 * bitrates ! nat (4 * int i + 2 * int sm + int scp))"
    unfolding mtlk_bitrate_get_value_def Let_def t using assms by auto
  have h: "int (mtlk_hw_rate_params_to_rate (index_tcr2 i (of_nat sm)) c) =
      triple_search (index_code (int i) (int sm)) (int c) hw_triples" for c
    unfolding mtlk_hw_rate_params_to_rate_def hw_rate_search_triples
    by (simp only: index_tcr2_code [OF assms(1,2)] hw_triples_def)
  have "(int i, int sm, int scp) \<in> set [(i, sm, scp). i \<leftarrow> [0..31], sm \<leftarrow> [0, 1], scp \<leftarrow> [0, 1]]"
    using assms by auto
  with triples_agree have "(bitrates ! nat (4 * int i + 2 * int sm + int scp) =
      triple_search (index_code (int i) (int sm)) (if 15 \<le> int i then int scp else 0) hw_triples) = (int i \<noteq> 31)"
    unfolding list_all_iff by fast
  then show ?thesis
    unfolding v h n by (auto simp: LM_PHY_11N_RATE_6_DUP_def)
qed

theorem rate_tables_agree_witness:
  "mtlk_bitrate_get_value 30 1 1 = Inr (100000 * int (mtlk_hw_rate_params_to_rate (index_tcr2 30 1) 1))
    \<and> mtlk_bitrate_get_value 31 1 1 \<noteq> Inr (100000 * int (mtlk_hw_rate_params_to_rate (index_tcr2 31 1) 1))"
  using rate_tables_agree [of 30 1 1] rate_tables_agree [of 31 1 1]
  by (simp add: LM_PHY_11N_RATE_6_DUP_def mtlk_aux_is_11n_rate_def LM_PHY_11N_RATE_6_5_def)

text \<open>Index 24 and index 18 are both 26 Mbit/s: the second is what comes back.\<close>
theorem bitrate_round_trip_witness:
  "\<exists>a b j. mtlk_bitrate_idx_to_rates 24 0 0 = Inr (Inr (a, b)) \<and> mtlk_bitrate_rates_to_idx a b 0 0 = Inr (Inr j) \<and> j \<le> 24"
  using bitrate_round_trip [of 24 0 0] by (auto simp: BITRATE_LAST_def)

section \<open>Network modes and rate sets\<close>

lemma net_mode_round_trip:
  assumes "band \<in> {MTLK_HW_BAND_5_2_GHZ, MTLK_HW_BAND_2_4_GHZ, MTLK_HW_BAND_BOTH}"
  shows "net_mode_to_band (get_net_mode band is_ht) = band" "is_ht_net_mode (get_net_mode band is_ht) = is_ht"
  using assms
  by (auto simp: net_mode_to_band_def get_net_mode_def is_ht_net_mode_def net_mode_consts band_consts)

lemma get_net_mode_distinct:
  assumes "band \<in> {MTLK_HW_BAND_5_2_GHZ, MTLK_HW_BAND_2_4_GHZ, MTLK_HW_BAND_BOTH}"
    "band' \<in> {MTLK_HW_BAND_5_2_GHZ, MTLK_HW_BAND_2_4_GHZ, MTLK_HW_BAND_BOTH}"
  shows "get_net_mode band ht = get_net_mode band' ht' \<longleftrightarrow> band = band' \<and> ht = ht'"
  using assms by (auto simp: get_net_mode_def net_mode_consts band_consts)

text \<open>The rates of a set, as indices of the first table.\<close>
definition rate_set :: "32 word \<Rightarrow> nat set" where
  "rate_set w = {i. bit w i}"

lemma rate_sets_eval:
  "list_all2 (\<lambda>ops bs. bs ! 1 = ops AND NOT LM_PHY_11N_RATE_MSK \<and> bs ! 0 AND (ops AND NOT LM_PHY_11N_RATE_MSK) = bs ! 0)
     (take 9 OperateRateSet) BSSBasicRateSet"
  by code_simp

lemma basic_rates_extra:
  assumes "net_mode < NUM_OF_NETWORK_MODES"
  shows "BSSBasicRateSet ! net_mode ! 1 = OperateRateSet ! net_mode AND NOT LM_PHY_11N_RATE_MSK"
    "rate_set (BSSBasicRateSet ! net_mode ! 0) \<subseteq> rate_set (OperateRateSet ! net_mode AND NOT LM_PHY_11N_RATE_MSK)"
proof -
  let ?b = "BSSBasicRateSet ! net_mode" and ?o = "OperateRateSet ! net_mode AND NOT LM_PHY_11N_RATE_MSK"
  have "?b ! 1 = ?o" and b: "?b ! 0 AND ?o = ?b ! 0"
    using list_all2_nthD2 [OF rate_sets_eval, of net_mode] assms
    by (simp_all add: NUM_OF_NETWORK_MODES_def BSSBasicRateSet_def del: One_nat_def)
  then show "?b ! 1 = ?o" by simp
  show "rate_set (?b ! 0) \<subseteq> rate_set ?o"
    unfolding rate_set_def using b by (metis (mono_tags, lifting) Collect_mono bit_and_iff)
qed

text \<open>
  A network mode taken from a band and a high-throughput setting gives both back, so the six modes are different; every
  basic rate of a real mode, standard or extended, is one of the mode's operational rates and none of them is an 11n rate, and
  the extended basic set is all the operational rates that are not 11n rates.
\<close>
lemma network_mode_round_trip:
  "band \<in> {MTLK_HW_BAND_5_2_GHZ, MTLK_HW_BAND_2_4_GHZ, MTLK_HW_BAND_BOTH} \<Longrightarrow>
     net_mode_to_band (get_net_mode band is_ht) = band \<and> is_ht_net_mode (get_net_mode band is_ht) = is_ht
     \<and> (get_net_mode band is_ht < NUM_OF_NETWORK_MODES \<longrightarrow>
         (\<exists>ops b. get_operate_rate_set (get_net_mode band is_ht) = Inr ops \<and> get_basic_rate_set (get_net_mode band is_ht) 0 = Inr b
           \<and> get_basic_rate_set (get_net_mode band is_ht) 1 = Inr (ops AND NOT LM_PHY_11N_RATE_MSK)
           \<and> rate_set b \<subseteq> rate_set (ops AND NOT LM_PHY_11N_RATE_MSK)))"
proof -
  assume band: "band \<in> {MTLK_HW_BAND_5_2_GHZ, MTLK_HW_BAND_2_4_GHZ, MTLK_HW_BAND_BOTH}"
  let ?m = "get_net_mode band is_ht"
  have "length OperateRateSet = 11" by (simp add: OperateRateSet_def)
  then have "get_operate_rate_set ?m = Inr (OperateRateSet ! ?m)" "get_basic_rate_set ?m 0 = Inr (BSSBasicRateSet ! ?m ! 0)"
    "get_basic_rate_set ?m 1 = Inr (BSSBasicRateSet ! ?m ! 1)" if "?m < NUM_OF_NETWORK_MODES"
    using that by (auto simp: get_operate_rate_set_def get_basic_rate_set_def
        NUM_OF_NETWORK_MODES_def NUM_OF_BASIC_RATE_SET_MODES_def)
  then show ?thesis
    using net_mode_round_trip [OF band] basic_rates_extra [of ?m] by simp
qed

theorem network_mode_round_trip_witness:
  "net_mode_to_band (get_net_mode MTLK_HW_BAND_BOTH True) = MTLK_HW_BAND_BOTH"
  using network_mode_round_trip [of MTLK_HW_BAND_BOTH True] by simp

end
