(* ===== verification/Serializer.thy ===== *)
theory Serializer
  imports Wave_Prelude
begin

text \<open>
  The task serializer, \<^verbatim>\<open>driver/shared/mtlk_serializer.c\<close> with its Linux thread \<^verbatim>\<open>linux/mtlk_serializer_osdep.c\<close> and the
  remove lock \<^verbatim>\<open>shared/mtlkrmlock.h\<close>: every request to a core that is not handled at once is a command of this
  serializer. Three kinds of threads share its state: the ones that enqueue and cancel, the worker, and the one that stops the
  serializer. Each section under the spin lock, and each access to a flag outside of it, is one step; the worker's
  position is \<open>szr_pc\<close>, the stopping thread's is \<open>szr_stop\<close>, and a cancellation whose callback has not been
  called yet is in \<open>canceling\<close>. Commands are numbers; what their callbacks are called with is the log.
\<close>

section \<open>State\<close>

datatype serializer_result = MTLK_CMD_EXECUTED | MTLK_CMD_CANCELED

record mtlk_command =
  is_in_queue :: bool
  cmd_priority :: nat
  post_exec_callback_ctx :: nat

text \<open>Positions of the worker: \<open>Scan i\<close> is the loop over the priorities of \<^verbatim>\<open>_mtlk_serializer_process_commands\<close>.\<close>
datatype szr_pc = Wait_event | Woken | Checked | Scan nat | Exec nat | Post nat | Clear nat | Ended

datatype stop_pc = Not_started | Started | Wait_tasks | Wait_thread | Stopped

datatype szr_event = Accepted nat | Executed nat | Completed serializer_result nat nat

record mtlk_rmlock =
  ref_cnt :: nat
  rm_evt :: bool

record serializer =
  szr_queues :: "nat list list"
  num_priorities :: nat
  is_running :: bool
  current_command :: "nat option"
  tasks_pending :: mtlk_rmlock
  szr_cmds :: "nat \<Rightarrow> mtlk_command"
  new_event :: bool
  osdep_stop :: bool
  szr_pc :: szr_pc
  szr_stop :: stop_pc
  canceling :: "nat list"
  szr_log :: "szr_event list"

section \<open>Remove lock\<close>

definition mtlk_rmlock_init :: mtlk_rmlock where
  "mtlk_rmlock_init = \<lparr>ref_cnt = 0, rm_evt = False\<rparr>"

definition mtlk_rmlock_acquire :: "mtlk_rmlock \<Rightarrow> mtlk_rmlock" where
  "mtlk_rmlock_acquire l = l\<lparr>ref_cnt := ref_cnt l + 1\<rparr>"

definition mtlk_rmlock_release :: "mtlk_rmlock \<Rightarrow> mtlk_rmlock" where
  "mtlk_rmlock_release l =
    (let l' = l\<lparr>ref_cnt := ref_cnt l - 1\<rparr> in if ref_cnt l' = 0 then l'\<lparr>rm_evt := True\<rparr> else l')"

section \<open>Operations\<close>

definition mtlk_serializer_init :: "nat \<Rightarrow> (nat \<Rightarrow> mtlk_command) \<Rightarrow> serializer" where
  "mtlk_serializer_init n cmds =
    \<lparr>szr_queues = replicate n [], num_priorities = n, is_running = False, current_command = None,
     tasks_pending = \<lparr>ref_cnt = 0, rm_evt = False\<rparr>, szr_cmds = cmds, new_event = False, osdep_stop = False,
     szr_pc = Ended, szr_stop = Not_started, canceling = [], szr_log = []\<rparr>"

definition mtlk_command_init :: "mtlk_command \<Rightarrow> mtlk_command" where
  "mtlk_command_init c = c\<lparr>is_in_queue := False\<rparr>"

definition serializer_osdep_notify :: "serializer \<Rightarrow> serializer" where
  "serializer_osdep_notify s = s\<lparr>new_event := True\<rparr>"

definition serializer_osdep_start :: "serializer \<Rightarrow> serializer" where
  "serializer_osdep_start s = s\<lparr>osdep_stop := False, new_event := False, szr_pc := Wait_event\<rparr>"

definition serializer_start_processing :: "serializer \<Rightarrow> serializer" where
  "serializer_start_processing s = s\<lparr>tasks_pending := mtlk_rmlock_acquire (tasks_pending s), is_running := True\<rparr>"

definition mtlk_serializer_start :: "serializer \<Rightarrow> serializer" where
  "mtlk_serializer_start s =
    (serializer_start_processing (serializer_osdep_start (s\<lparr>tasks_pending := mtlk_rmlock_init\<rparr>)))\<lparr>szr_stop := Started\<rparr>"

definition set_queued :: "nat \<Rightarrow> bool \<Rightarrow> serializer \<Rightarrow> serializer" where
  "set_queued c b s = s\<lparr>szr_cmds := (szr_cmds s)(c := (szr_cmds s c)\<lparr>is_in_queue := b\<rparr>)\<rparr>"

definition mtlk_serializer_enqueue :: "nat \<Rightarrow> nat \<Rightarrow> nat \<Rightarrow> serializer \<Rightarrow> c_fault + mtlk_error \<times> serializer" where
  "mtlk_serializer_enqueue priority c ctx s =
    (if \<not> is_running s then Inr (MTLK_ERR_NOT_READY, s)
     else if is_in_queue (szr_cmds s c) then Inr (MTLK_ERR_BUSY, s)
     else if priority < length (szr_queues s) then
       Inr (MTLK_ERR_OK, serializer_osdep_notify
         (s\<lparr>szr_queues := (szr_queues s)[priority := szr_queues s ! priority @ [c]],
            szr_cmds := (szr_cmds s)(c := \<lparr>is_in_queue = True, cmd_priority = priority, post_exec_callback_ctx = ctx\<rparr>),
            tasks_pending := mtlk_rmlock_acquire (tasks_pending s),
            szr_log := szr_log s @ [Accepted c]\<rparr>))
     else Inl Out_of_bounds)"

text \<open>The locked section of \<^verbatim>\<open>mtlk_serializer_cancel\<close>, and what follows it.\<close>
definition serializer_cancel_locked :: "nat \<Rightarrow> serializer \<Rightarrow> bool \<times> serializer" where
  "serializer_cancel_locked c s =
    (if is_in_queue (szr_cmds s c) then
       (let p = cmd_priority (szr_cmds s c) in
        (True, (set_queued c False s)\<lparr>szr_queues := (szr_queues s)[p := remove1 c (szr_queues s ! p)],
           tasks_pending := mtlk_rmlock_release (tasks_pending s), canceling := c # canceling s\<rparr>))
     else (False, s))"

definition serializer_cancel_callback :: "nat \<Rightarrow> serializer \<Rightarrow> serializer" where
  "serializer_cancel_callback c s =
    s\<lparr>canceling := remove1 c (canceling s),
      szr_log := szr_log s @ [Completed MTLK_CMD_CANCELED c (post_exec_callback_ctx (szr_cmds s c))]\<rparr>"

text \<open>The loop over the priorities starts at the highest; without priorities it does nothing.\<close>
definition scan_top :: "serializer \<Rightarrow> szr_pc" where
  "scan_top s = (case num_priorities s of 0 \<Rightarrow> Wait_event | Suc i \<Rightarrow> Scan i)"

text \<open>One step of the worker, \<^term>\<open>None\<close> when it waits or has ended: \<^verbatim>\<open>thread\<close>, \<^verbatim>\<open>_mtlk_serializer_process_commands\<close>
  and \<^verbatim>\<open>_mtlk_serializer_invoke_command\<close>.\<close>
definition serializer_thread_step :: "serializer \<Rightarrow> serializer option" where
  "serializer_thread_step s =
    (case szr_pc s of
       Wait_event \<Rightarrow> if new_event s then Some (s\<lparr>szr_pc := Woken\<rparr>) else None
     | Woken \<Rightarrow> Some (s\<lparr>szr_pc := (if osdep_stop s then Ended else Checked)\<rparr>)
     | Checked \<Rightarrow> Some (s\<lparr>new_event := False, szr_pc := scan_top s\<rparr>)
     | Scan i \<Rightarrow>
         (case szr_queues s ! i of
            [] \<Rightarrow> Some (s\<lparr>szr_pc := (case i of 0 \<Rightarrow> Wait_event | Suc j \<Rightarrow> Scan j)\<rparr>)
          | c # cs \<Rightarrow> Some ((set_queued c False s)\<lparr>szr_queues := (szr_queues s)[i := cs], current_command := Some c,
              tasks_pending := mtlk_rmlock_release (tasks_pending s), szr_pc := Exec c\<rparr>))
     | Exec c \<Rightarrow> Some (s\<lparr>szr_log := szr_log s @ [Executed c], szr_pc := Post c\<rparr>)
     | Post c \<Rightarrow> Some (s\<lparr>szr_log := szr_log s @ [Completed MTLK_CMD_EXECUTED c (post_exec_callback_ctx (szr_cmds s c))],
         szr_pc := Clear c\<rparr>)
     | Clear c \<Rightarrow> Some (s\<lparr>current_command := None, szr_pc := scan_top s\<rparr>)
     | Ended \<Rightarrow> None)"

text \<open>The three stages of \<^verbatim>\<open>mtlk_serializer_stop\<close>: the last two block until the remove lock is free and the thread has ended.\<close>
definition serializer_stop_processing :: "serializer \<Rightarrow> serializer" where
  "serializer_stop_processing s =
    s\<lparr>is_running := False, tasks_pending := mtlk_rmlock_release (tasks_pending s), szr_stop := Wait_tasks\<rparr>"

definition serializer_osdep_stop :: "serializer \<Rightarrow> serializer" where
  "serializer_osdep_stop s = serializer_osdep_notify (s\<lparr>osdep_stop := True, szr_stop := Wait_thread\<rparr>)"

definition serializer_stopped :: "serializer \<Rightarrow> serializer" where
  "serializer_stopped s = s\<lparr>szr_stop := Stopped\<rparr>"

text \<open>\<^verbatim>\<open>mtlk_serializer_enum_commands\<close>: the commands its callback is called with, until it says to end.\<close>
fun enum_list :: "(nat \<Rightarrow> bool) \<Rightarrow> nat list \<Rightarrow> nat list \<times> bool" where
  "enum_list clb [] = ([], True)"
| "enum_list clb (c # cs) = (if clb c then (let (r, b) = enum_list clb cs in (c # r, b)) else ([c], False))"

fun enum_queues :: "(nat \<Rightarrow> bool) \<Rightarrow> nat list list \<Rightarrow> nat list" where
  "enum_queues clb [] = []"
| "enum_queues clb (q # qs) = (let (r, b) = enum_list clb q in if b then r @ enum_queues clb qs else r)"

definition mtlk_serializer_enum_commands :: "(nat \<Rightarrow> bool) \<Rightarrow> serializer \<Rightarrow> nat list" where
  "mtlk_serializer_enum_commands clb s =
    (case current_command s of
       None \<Rightarrow> enum_queues clb (rev (szr_queues s))
     | Some c \<Rightarrow> c # (if clb c then enum_queues clb (rev (szr_queues s)) else []))"

section \<open>Interleavings\<close>

text \<open>A command that has been taken by the worker or by a cancellation is not enqueued again before its completion.\<close>
definition in_progress :: "nat \<Rightarrow> serializer \<Rightarrow> bool" where
  "in_progress c s \<longleftrightarrow> szr_pc s = Exec c \<or> szr_pc s = Post c \<or> c \<in> set (canceling s)"

inductive szr_step :: "serializer \<Rightarrow> serializer \<Rightarrow> bool" where
  Start: "szr_stop s \<in> {Not_started, Stopped} \<Longrightarrow> szr_step s (mtlk_serializer_start s)"
| Enqueue: "\<not> in_progress c s \<Longrightarrow> mtlk_serializer_enqueue p c ctx s = Inr (r, s') \<Longrightarrow> szr_step s s'"
| Cancel: "szr_step s (snd (serializer_cancel_locked c s))"
| Cancelled: "c \<in> set (canceling s) \<Longrightarrow> szr_step s (serializer_cancel_callback c s)"
| Thread: "serializer_thread_step s = Some s' \<Longrightarrow> szr_step s s'"
| Stop: "szr_stop s = Started \<Longrightarrow> szr_step s (serializer_stop_processing s)"
| Stop_thread: "szr_stop s = Wait_tasks \<Longrightarrow> rm_evt (tasks_pending s) \<Longrightarrow> szr_step s (serializer_osdep_stop s)"
| Stop_done: "szr_stop s = Wait_thread \<Longrightarrow> szr_pc s = Ended \<Longrightarrow> szr_step s (serializer_stopped s)"

inductive szr_reach :: "nat \<Rightarrow> serializer \<Rightarrow> bool" for n where
  Init: "\<forall>c. \<not> is_in_queue (cmds c) \<Longrightarrow> szr_reach n (mtlk_serializer_init n cmds)"
| Step: "szr_reach n s \<Longrightarrow> szr_step s s' \<Longrightarrow> szr_reach n s'"

section \<open>Invariant\<close>

definition queued :: "serializer \<Rightarrow> nat" where
  "queued s = sum_list (map length (szr_queues s))"

text \<open>The lists and the flags of the commands agree, also for those that have left the lists.\<close>
definition szr_lists :: "nat \<Rightarrow> serializer \<Rightarrow> bool" where
  "szr_lists n s \<longleftrightarrow> length (szr_queues s) = n \<and> num_priorities s = n
     \<and> (\<forall>p < n. distinct (szr_queues s ! p) \<and>
         (\<forall>c \<in> set (szr_queues s ! p). is_in_queue (szr_cmds s c) \<and> cmd_priority (szr_cmds s c) = p))
     \<and> (\<forall>c. is_in_queue (szr_cmds s c) \<longrightarrow>
         cmd_priority (szr_cmds s c) < n \<and> c \<in> set (szr_queues s ! cmd_priority (szr_cmds s c)))
     \<and> distinct (canceling s) \<and> (\<forall>c. in_progress c s \<longrightarrow> \<not> is_in_queue (szr_cmds s c))
     \<and> (\<forall>c. szr_pc s = Exec c \<or> szr_pc s = Post c \<longrightarrow> c \<notin> set (canceling s))"

text \<open>No command waits unnoticed: a worker that sleeps, or whose scan has passed its list, finds the event set.\<close>
definition szr_wake :: "serializer \<Rightarrow> bool" where
  "szr_wake s \<longleftrightarrow>
    (case szr_pc s of
       Wait_event \<Rightarrow> queued s \<noteq> 0 \<longrightarrow> new_event s
     | Scan i \<Rightarrow> i < num_priorities s \<and> ((\<exists>j < num_priorities s. i < j \<and> szr_queues s ! j \<noteq> []) \<longrightarrow> new_event s)
     | Ended \<Rightarrow> queued s = 0
     | Woken \<Rightarrow> new_event s
     | Checked \<Rightarrow> new_event s
     | _ \<Rightarrow> True)"

definition szr_current :: "serializer \<Rightarrow> bool" where
  "szr_current s \<longleftrightarrow> current_command s =
    (case szr_pc s of Exec c \<Rightarrow> Some c | Post c \<Rightarrow> Some c | Clear c \<Rightarrow> Some c | _ \<Rightarrow> None)"

definition szr_phase :: "serializer \<Rightarrow> bool" where
  "szr_phase s \<longleftrightarrow>
    (case szr_stop s of
       Not_started \<Rightarrow> \<not> is_running s \<and> szr_pc s = Ended
     | Stopped \<Rightarrow> \<not> is_running s \<and> szr_pc s = Ended
     | Started \<Rightarrow> is_running s \<and> \<not> osdep_stop s \<and> szr_pc s \<noteq> Ended
         \<and> ref_cnt (tasks_pending s) = Suc (queued s) \<and> \<not> rm_evt (tasks_pending s)
     | Wait_tasks \<Rightarrow> \<not> is_running s \<and> \<not> osdep_stop s \<and> szr_pc s \<noteq> Ended
         \<and> ref_cnt (tasks_pending s) = queued s \<and> (rm_evt (tasks_pending s) \<longleftrightarrow> queued s = 0)
     | Wait_thread \<Rightarrow> \<not> is_running s \<and> osdep_stop s \<and> queued s = 0)"

definition accepted :: "nat \<Rightarrow> serializer \<Rightarrow> nat" where
  "accepted c s = length (filter (\<lambda>e. e = Accepted c) (szr_log s))"

definition completed :: "nat \<Rightarrow> serializer \<Rightarrow> nat" where
  "completed c s = length (filter (\<lambda>e. \<exists>r x. e = Completed r c x) (szr_log s))"

text \<open>Every accepted command has been completed once, or is in one place on its way to its completion.\<close>
definition szr_account :: "serializer \<Rightarrow> bool" where
  "szr_account s \<longleftrightarrow> (\<forall>c. accepted c s = completed c s
     + (if is_in_queue (szr_cmds s c) \<or> in_progress c s then 1 else 0))"

definition szr_inv :: "nat \<Rightarrow> serializer \<Rightarrow> bool" where
  "szr_inv n s \<longleftrightarrow> szr_lists n s \<and> szr_wake s \<and> szr_current s \<and> szr_phase s \<and> szr_account s"

lemmas szr_inv_defs = szr_lists_def szr_wake_def szr_current_def szr_phase_def szr_account_def
lemmas szr_op_defs = serializer_osdep_notify_def serializer_osdep_start_def serializer_start_processing_def
  mtlk_rmlock_init_def mtlk_rmlock_acquire_def mtlk_rmlock_release_def set_queued_def

lemma szr_queued_update:
  assumes "p < length qs"
  shows "sum_list (map length (qs[p := q])) = sum_list (map length qs) + length q - length (qs ! p)"
  using assms by (simp add: map_update sum_list_update)

lemma queued_ge: "p < length (szr_queues s) \<Longrightarrow> length (szr_queues s ! p) \<le> queued s"
  unfolding queued_def using member_le_sum_list [of "length (szr_queues s ! p)" "map length (szr_queues s)"]
  by auto

lemma queued_0: "queued s = 0 \<longleftrightarrow> (\<forall>p < length (szr_queues s). szr_queues s ! p = [])"
  by (auto simp: queued_def all_set_conv_all_nth)

lemma distinct_count_list: "distinct xs \<Longrightarrow> c \<in> set xs \<Longrightarrow> count_list xs c = 1"
  by (induction xs) auto

lemma log_counts [simp]:
  "accepted c (s\<lparr>szr_log := szr_log s @ es\<rparr>) = accepted c s + length (filter (\<lambda>e. e = Accepted c) es)"
  "completed c (s\<lparr>szr_log := szr_log s @ es\<rparr>) = completed c s + length (filter (\<lambda>e. \<exists>r x. e = Completed r c x) es)"
  by (simp_all add: accepted_def completed_def)

lemma counts_other [simp]:
  "accepted c (s\<lparr>szr_queues := a\<rparr>) = accepted c s" "completed c (s\<lparr>szr_queues := a\<rparr>) = completed c s"
  "accepted c (s\<lparr>szr_cmds := b\<rparr>) = accepted c s" "completed c (s\<lparr>szr_cmds := b\<rparr>) = completed c s"
  "accepted c (s\<lparr>szr_pc := d\<rparr>) = accepted c s" "completed c (s\<lparr>szr_pc := d\<rparr>) = completed c s"
  "accepted c (s\<lparr>canceling := e\<rparr>) = accepted c s" "completed c (s\<lparr>canceling := e\<rparr>) = completed c s"
  "accepted c (s\<lparr>tasks_pending := f\<rparr>) = accepted c s" "completed c (s\<lparr>tasks_pending := f\<rparr>) = completed c s"
  "accepted c (s\<lparr>new_event := g\<rparr>) = accepted c s" "completed c (s\<lparr>new_event := g\<rparr>) = completed c s"
  "accepted c (s\<lparr>current_command := h\<rparr>) = accepted c s" "completed c (s\<lparr>current_command := h\<rparr>) = completed c s"
  "accepted c (s\<lparr>szr_stop := k\<rparr>) = accepted c s" "completed c (s\<lparr>szr_stop := k\<rparr>) = completed c s"
  "accepted c (s\<lparr>osdep_stop := l\<rparr>) = accepted c s" "completed c (s\<lparr>osdep_stop := l\<rparr>) = completed c s"
  "accepted c (s\<lparr>is_running := m\<rparr>) = accepted c s" "completed c (s\<lparr>is_running := m\<rparr>) = completed c s"
  by (simp_all add: accepted_def completed_def)

lemma queued_other [simp]:
  "queued (s\<lparr>szr_cmds := b\<rparr>) = queued s" "queued (s\<lparr>szr_pc := d\<rparr>) = queued s" "queued (s\<lparr>canceling := e\<rparr>) = queued s"
  "queued (s\<lparr>tasks_pending := f\<rparr>) = queued s" "queued (s\<lparr>new_event := g\<rparr>) = queued s"
  "queued (s\<lparr>current_command := h\<rparr>) = queued s" "queued (s\<lparr>szr_stop := k\<rparr>) = queued s"
  "queued (s\<lparr>osdep_stop := l\<rparr>) = queued s" "queued (s\<lparr>is_running := m\<rparr>) = queued s" "queued (s\<lparr>szr_log := q\<rparr>) = queued s"
  by (simp_all add: queued_def)

lemma in_progress_other [simp]:
  "in_progress c (s\<lparr>szr_queues := a\<rparr>) = in_progress c s" "in_progress c (s\<lparr>szr_cmds := b\<rparr>) = in_progress c s"
  "in_progress c (s\<lparr>tasks_pending := f\<rparr>) = in_progress c s" "in_progress c (s\<lparr>new_event := g\<rparr>) = in_progress c s"
  "in_progress c (s\<lparr>current_command := h\<rparr>) = in_progress c s" "in_progress c (s\<lparr>szr_stop := k\<rparr>) = in_progress c s"
  "in_progress c (s\<lparr>osdep_stop := l\<rparr>) = in_progress c s" "in_progress c (s\<lparr>is_running := m\<rparr>) = in_progress c s"
  "in_progress c (s\<lparr>szr_log := q\<rparr>) = in_progress c s"
  by (simp_all add: in_progress_def)

text \<open>What each part of the invariant does not depend on.\<close>
lemma lists_cong:
  assumes "szr_lists n s" "szr_queues s' = szr_queues s" "num_priorities s' = num_priorities s" "szr_cmds s' = szr_cmds s"
    "canceling s' = canceling s" "\<And>c. szr_pc s' = Exec c \<or> szr_pc s' = Post c \<Longrightarrow> szr_pc s = Exec c \<or> szr_pc s = Post c"
  shows "szr_lists n s'"
  using assms unfolding szr_lists_def in_progress_def by metis

lemma szr_init_inv: "\<forall>c. \<not> is_in_queue (cmds c) \<Longrightarrow> szr_inv n (mtlk_serializer_init n cmds)"
  by (auto simp: szr_inv_def szr_inv_defs mtlk_serializer_init_def in_progress_def queued_def accepted_def completed_def)

lemma start_inv:
  assumes "szr_inv n s" "szr_stop s \<in> {Not_started, Stopped}"
  shows "szr_inv n (mtlk_serializer_start s)"
proof -
  have "szr_lists n (mtlk_serializer_start s)"
    by (rule lists_cong [of n s]) (use assms in \<open>simp_all add: szr_inv_def mtlk_serializer_start_def szr_op_defs\<close>)
  moreover have "queued s = 0" "szr_pc s = Ended"
    using assms by (auto simp: szr_inv_def szr_phase_def szr_wake_def split: szr_pc.splits)
  ultimately show ?thesis
    using assms
    by (simp add: szr_inv_def szr_wake_def szr_current_def szr_phase_def szr_account_def mtlk_serializer_start_def szr_op_defs)
      (simp add: in_progress_def)
qed

lemma enqueue_lists:
  assumes "szr_lists n s" "\<not> in_progress c s" "\<not> is_in_queue (szr_cmds s c)" "p < n"
    "szr_queues s' = (szr_queues s)[p := szr_queues s ! p @ [c]]"
    "szr_cmds s' = (szr_cmds s)(c := \<lparr>is_in_queue = True, cmd_priority = p, post_exec_callback_ctx = ctx\<rparr>)"
    "num_priorities s' = num_priorities s" "canceling s' = canceling s" "szr_pc s' = szr_pc s"
  shows "szr_lists n s'"
proof -
  note L = assms(1) [unfolded szr_lists_def]
  have len: "length (szr_queues s) = n" using L by blast
  have f: "is_in_queue (szr_cmds s d) \<Longrightarrow> cmd_priority (szr_cmds s d) < n \<and> d \<in> set (szr_queues s ! cmd_priority (szr_cmds s d))" for d
    using L by blast
  have new: "c \<notin> set (szr_queues s ! j)" if "j < n" for j using L assms(3) that by blast
  have "distinct (szr_queues s' ! j) \<and> (\<forall>d \<in> set (szr_queues s' ! j). is_in_queue (szr_cmds s' d) \<and> cmd_priority (szr_cmds s' d) = j)"
    if "j < n" for j
  proof (cases "j = p")
    case True
    then show ?thesis using L new [OF that] assms(4-6) by simp
  next
    case False
    have "d \<noteq> c" if "d \<in> set (szr_queues s ! j)" for d using new [OF \<open>j < n\<close>] that by blast
    then show ?thesis using L False that assms(4-6) by simp
  qed
  moreover have "cmd_priority (szr_cmds s' d) < n \<and> d \<in> set (szr_queues s' ! cmd_priority (szr_cmds s' d))"
    if "is_in_queue (szr_cmds s' d)" for d
    using that f [of d] len assms(4-6) by (cases "d = c") (auto simp: nth_list_update)
  moreover have pr: "in_progress d s' = in_progress d s" for d using assms(8,9) by (simp add: in_progress_def)
  moreover have "\<not> is_in_queue (szr_cmds s' d)" if "in_progress d s" for d
    using that L assms(2,6) by (cases "d = c") simp_all
  ultimately show ?thesis
    unfolding szr_lists_def using L assms(5,7-9) by (simp add: pr)
qed

lemma enqueue_inv:
  assumes "szr_inv n s" "\<not> in_progress c s" "mtlk_serializer_enqueue p c ctx s = Inr (r, s')"
  shows "szr_inv n s'"
proof (cases "is_running s \<and> \<not> is_in_queue (szr_cmds s c)")
  case True
  with assms(3) have p: "p < length (szr_queues s)" by (auto simp: mtlk_serializer_enqueue_def split: if_splits)
  have s': "s' = s\<lparr>szr_queues := (szr_queues s)[p := szr_queues s ! p @ [c]],
        szr_cmds := (szr_cmds s)(c := \<lparr>is_in_queue = True, cmd_priority = p, post_exec_callback_ctx = ctx\<rparr>),
        tasks_pending := mtlk_rmlock_acquire (tasks_pending s), szr_log := szr_log s @ [Accepted c], new_event := True\<rparr>"
    using assms(3) True p by (auto simp: mtlk_serializer_enqueue_def serializer_osdep_notify_def)
  have started: "szr_stop s = Started" using assms(1) True by (auto simp: szr_inv_def szr_phase_def split: stop_pc.splits)
  have q: "queued s' = Suc (queued s)" using p queued_ge [OF p] by (simp add: s' queued_def szr_queued_update)
  have pr: "in_progress d s' = in_progress d s" for d by (simp add: s' in_progress_def)
  have "szr_lists n s'"
    by (rule enqueue_lists [of n s c p _ ctx]) (use assms(1,2) True p in \<open>simp_all add: s' szr_inv_def szr_lists_def\<close>)
  moreover have "szr_wake s'" using assms(1) started
    by (simp add: s' szr_inv_def szr_wake_def szr_phase_def split: szr_pc.splits)
  moreover have "szr_current s'" using assms(1) by (simp add: s' szr_inv_def szr_current_def)
  moreover have "szr_phase s'" unfolding szr_phase_def q using assms(1) started
    by (simp add: s' szr_inv_def szr_phase_def mtlk_rmlock_acquire_def)
  moreover have "szr_account s'" unfolding szr_account_def pr
    using assms(1,2) True by (simp add: s' szr_inv_def szr_account_def accepted_def completed_def)
  ultimately show ?thesis by (simp add: szr_inv_def)
qed (use assms in \<open>auto simp: mtlk_serializer_enqueue_def split: if_splits\<close>)

lemma stop_processing_inv:
  assumes "szr_inv n s" "szr_stop s = Started"
  shows "szr_inv n (serializer_stop_processing s)"
proof -
  have "szr_lists n (serializer_stop_processing s)"
    by (rule lists_cong [of n s]) (use assms in \<open>simp_all add: szr_inv_def serializer_stop_processing_def\<close>)
  moreover have "szr_wake (serializer_stop_processing s) \<and> szr_current (serializer_stop_processing s) \<and> szr_phase (serializer_stop_processing s) \<and> szr_account (serializer_stop_processing s)"
    using assms by (simp add: szr_inv_def szr_wake_def szr_current_def szr_phase_def szr_account_def
        serializer_stop_processing_def mtlk_rmlock_release_def Let_def split: szr_pc.splits)
  ultimately show ?thesis by (simp add: szr_inv_def)
qed

lemma osdep_stop_inv:
  assumes "szr_inv n s" "szr_stop s = Wait_tasks" "rm_evt (tasks_pending s)"
  shows "szr_inv n (serializer_osdep_stop s)"
proof -
  have "szr_lists n (serializer_osdep_stop s)"
    by (rule lists_cong [of n s]) (use assms in \<open>simp_all add: szr_inv_def serializer_osdep_stop_def serializer_osdep_notify_def\<close>)
  moreover have "szr_wake (serializer_osdep_stop s) \<and> szr_current (serializer_osdep_stop s) \<and> szr_phase (serializer_osdep_stop s) \<and> szr_account (serializer_osdep_stop s)"
    using assms by (simp add: szr_inv_def szr_wake_def szr_current_def szr_phase_def szr_account_def
        serializer_osdep_stop_def serializer_osdep_notify_def split: szr_pc.splits)
  ultimately show ?thesis by (simp add: szr_inv_def)
qed

lemma stopped_inv:
  assumes "szr_inv n s" "szr_stop s = Wait_thread" "szr_pc s = Ended"
  shows "szr_inv n (serializer_stopped s)"
proof -
  have "szr_lists n (serializer_stopped s)"
    by (rule lists_cong [of n s]) (use assms in \<open>simp_all add: szr_inv_def serializer_stopped_def\<close>)
  moreover have "szr_wake (serializer_stopped s) \<and> szr_current (serializer_stopped s) \<and> szr_phase (serializer_stopped s) \<and> szr_account (serializer_stopped s)"
    using assms by (simp add: szr_inv_def szr_wake_def szr_current_def szr_phase_def szr_account_def serializer_stopped_def)
  ultimately show ?thesis by (simp add: szr_inv_def)
qed

text \<open>A command leaves its list, to be executed or to be reported as cancelled.\<close>
lemma unqueue_lists:
  assumes "szr_lists n s" "p < n" "c \<in> set (szr_queues s ! p)"
    "szr_queues s' = (szr_queues s)[p := remove1 c (szr_queues s ! p)]"
    "szr_cmds s' = (szr_cmds s)(c := (szr_cmds s c)\<lparr>is_in_queue := False\<rparr>)"
    "num_priorities s' = num_priorities s" "distinct (canceling s')"
    "\<And>d. in_progress d s' \<Longrightarrow> d = c \<or> in_progress d s"
    "\<And>d. szr_pc s' = Exec d \<or> szr_pc s' = Post d \<Longrightarrow> d \<notin> set (canceling s')"
  shows "szr_lists n s'"
proof -
  note L = assms(1) [unfolded szr_lists_def]
  have len: "length (szr_queues s) = n" and cp: "cmd_priority (szr_cmds s c) = p" using L assms(2,3) by blast+
  have f: "is_in_queue (szr_cmds s d) \<Longrightarrow> cmd_priority (szr_cmds s d) < n \<and> d \<in> set (szr_queues s ! cmd_priority (szr_cmds s d))"
    and g: "in_progress d s \<Longrightarrow> \<not> is_in_queue (szr_cmds s d)" for d
    using L by blast+
  have q: "distinct (szr_queues s ! j)" "d \<in> set (szr_queues s ! j) \<Longrightarrow> is_in_queue (szr_cmds s d) \<and> cmd_priority (szr_cmds s d) = j"
    if "j < n" for j d using L that by blast+
  have "distinct (szr_queues s' ! j) \<and> (\<forall>d \<in> set (szr_queues s' ! j). is_in_queue (szr_cmds s' d) \<and> cmd_priority (szr_cmds s' d) = j)"
    if "j < n" for j
  proof (cases "j = p")
    case True
    then show ?thesis using q [OF that] assms(4,5) that len by auto
  next
    case False
    have "d \<noteq> c" if "d \<in> set (szr_queues s ! j)" for d using q(2) [OF \<open>j < n\<close> that] False cp by blast
    then show ?thesis using q [OF that] False assms(4,5) by simp
  qed
  moreover have "cmd_priority (szr_cmds s' d) < n \<and> d \<in> set (szr_queues s' ! cmd_priority (szr_cmds s' d))"
    if "is_in_queue (szr_cmds s' d)" for d
    using that f [of d] len q(1) [OF assms(2)] assms(2,4,5) by (cases "d = c") (auto simp: nth_list_update)
  moreover have "\<not> is_in_queue (szr_cmds s' d)" if "in_progress d s'" for d
    using assms(8) [OF that] g [of d] assms(5) by (cases "d = c") simp_all
  ultimately show ?thesis
    unfolding szr_lists_def using L assms(4,6,7,9) by simp
qed

lemma queued_unqueue:
  assumes "p < length (szr_queues s)" "c \<in> set (szr_queues s ! p)"
    "szr_queues s' = (szr_queues s)[p := remove1 c (szr_queues s ! p)]"
  shows "Suc (queued s') = queued s"
proof -
  have "0 < length (szr_queues s ! p)" using assms(2) by (cases "szr_queues s ! p") auto
  moreover have "queued s' = queued s + (length (szr_queues s ! p) - 1) - length (szr_queues s ! p)"
    using assms by (simp add: queued_def szr_queued_update length_remove1)
  ultimately show ?thesis using queued_ge [OF assms(1)] by linarith
qed

text \<open>The remove lock follows: the phase is kept when one command less is queued and one reference is dropped.\<close>
lemma unqueue_phase:
  assumes "szr_phase s" "Suc (queued s') = queued s" "tasks_pending s' = mtlk_rmlock_release (tasks_pending s)"
    "is_running s' = is_running s" "osdep_stop s' = osdep_stop s" "szr_stop s' = szr_stop s"
    "szr_pc s' = Ended \<longleftrightarrow> szr_pc s = Ended"
  shows "szr_phase s'"
proof -
  have "queued s \<noteq> 0" using assms(2) by simp
  moreover have "queued s' = queued s - 1" using assms(2) by simp
  ultimately show ?thesis
    using assms(1,3-7) unfolding szr_phase_def
    by (cases "szr_stop s") (auto simp: mtlk_rmlock_release_def Let_def)
qed

lemma cancel_inv:
  assumes "szr_inv n s"
  shows "szr_inv n (snd (serializer_cancel_locked c s))"
proof (cases "is_in_queue (szr_cmds s c)")
  case True
  define s' where "s' = snd (serializer_cancel_locked c s)"
  let ?p = "cmd_priority (szr_cmds s c)"
  have L: "szr_lists n s" using assms by (simp add: szr_inv_def)
  then have p: "?p < n" "c \<in> set (szr_queues s ! ?p)" "length (szr_queues s) = n" "\<not> in_progress c s" "distinct (canceling s)"
    "\<And>d. szr_pc s = Exec d \<or> szr_pc s = Post d \<Longrightarrow> d \<notin> set (canceling s)"
    using True unfolding szr_lists_def by blast+
  have s': "s' = s\<lparr>szr_queues := (szr_queues s)[?p := remove1 c (szr_queues s ! ?p)],
      szr_cmds := (szr_cmds s)(c := (szr_cmds s c)\<lparr>is_in_queue := False\<rparr>),
      tasks_pending := mtlk_rmlock_release (tasks_pending s), canceling := c # canceling s\<rparr>"
    using True by (simp add: s'_def serializer_cancel_locked_def set_queued_def Let_def)
  have q: "Suc (queued s') = queued s" by (rule queued_unqueue [of ?p _ c]) (use p in \<open>simp_all add: s'\<close>)
  have "szr_lists n s'"
    by (rule unqueue_lists [OF L p(1,2)]) (use p(4-6) in \<open>auto simp: s' in_progress_def\<close>)
  moreover have "szr_wake s'"
    using assms q p(1,3) unfolding szr_inv_def szr_wake_def
    by (auto simp: s' nth_list_update length_remove1 split: szr_pc.splits if_splits)
  moreover have "szr_phase s'"
    by (rule unqueue_phase [OF _ q]) (use assms in \<open>simp_all add: s' szr_inv_def\<close>)
  moreover have "szr_current s'" using assms by (simp add: s' szr_inv_def szr_current_def)
  moreover have "szr_account s'"
    using assms True p(4) by (auto simp: s' szr_inv_def szr_account_def in_progress_def)
  ultimately show ?thesis unfolding s'_def by (simp add: szr_inv_def)
qed (use assms in \<open>simp add: serializer_cancel_locked_def\<close>)

lemma cancelled_inv:
  assumes "szr_inv n s" "c \<in> set (canceling s)"
  shows "szr_inv n (serializer_cancel_callback c s)"
proof -
  let ?s = "serializer_cancel_callback c s"
  have d: "distinct (canceling s)" "\<not> (szr_pc s = Exec c \<or> szr_pc s = Post c)" "\<not> is_in_queue (szr_cmds s c)"
    using assms by (auto simp: szr_inv_def szr_lists_def in_progress_def)
  have pr: "in_progress e ?s \<longleftrightarrow> in_progress e s \<and> e \<noteq> c" for e
    using d by (auto simp: serializer_cancel_callback_def in_progress_def)
  have "szr_lists n ?s"
    using assms(1) d unfolding szr_inv_def szr_lists_def pr by (simp add: serializer_cancel_callback_def)
  moreover have "szr_wake ?s" "szr_current ?s" "szr_phase ?s"
    using assms(1) by (auto simp: szr_inv_def szr_wake_def szr_current_def szr_phase_def serializer_cancel_callback_def
        split: szr_pc.splits stop_pc.splits)
  moreover have "szr_account ?s" unfolding szr_account_def pr
    using assms d by (auto simp: szr_inv_def szr_account_def serializer_cancel_callback_def accepted_def completed_def in_progress_def)
  ultimately show ?thesis by (simp add: szr_inv_def)
qed

lemma thread_inv:
  assumes "szr_inv n s" "serializer_thread_step s = Some s'"
  shows "szr_inv n s'"
proof (cases "szr_pc s")
  case (Scan i)
  have W: "i < n" "(\<exists>j < n. i < j \<and> szr_queues s ! j \<noteq> []) \<longrightarrow> new_event s" and L: "szr_lists n s"
    using assms(1) Scan by (auto simp: szr_inv_def szr_wake_def szr_lists_def)
  have ne: "szr_stop s \<notin> {Not_started, Stopped}" using assms(1) Scan by (auto simp: szr_inv_def szr_phase_def split: stop_pc.splits)
  show ?thesis
  proof (cases "szr_queues s ! i")
    case Nil
    then have s': "s' = s\<lparr>szr_pc := (case i of 0 \<Rightarrow> Wait_event | Suc j \<Rightarrow> Scan j)\<rparr>"
      using assms(2) Scan by (simp add: serializer_thread_step_def)
    have "szr_lists n s'" by (rule lists_cong [OF L]) (use Scan in \<open>auto simp: s' split: nat.splits\<close>)
    moreover have "szr_wake s'"
    proof (cases i)
      case 0
      have "queued s = 0 \<or> (\<exists>j < n. i < j \<and> szr_queues s ! j \<noteq> [])"
        using Nil 0 L by (auto simp: queued_0 szr_lists_def)
      with W 0 show ?thesis by (auto simp: s' szr_wake_def)
    next
      case (Suc j)
      have "(\<exists>k < n. j < k \<and> szr_queues s ! k \<noteq> []) \<longrightarrow> new_event s"
        using W Nil Suc by (metis Suc_lessI)
      then show ?thesis using Suc W L by (simp add: s' szr_wake_def szr_lists_def)
    qed
    moreover have "szr_current s'" "szr_phase s'" "szr_account s'"
      using assms(1) Scan
      by (auto simp: s' szr_inv_def szr_current_def szr_phase_def szr_account_def in_progress_def split: nat.splits stop_pc.splits)
    ultimately show ?thesis by (simp add: szr_inv_def)
  next
    case (Cons c cs)
    then have s': "s' = (set_queued c False s)\<lparr>szr_queues := (szr_queues s)[i := cs], current_command := Some c,
        tasks_pending := mtlk_rmlock_release (tasks_pending s), szr_pc := Exec c\<rparr>"
      using assms(2) Scan by (simp add: serializer_thread_step_def)
    have c: "c \<in> set (szr_queues s ! i)" "is_in_queue (szr_cmds s c)" "c \<notin> set (canceling s)" "distinct (canceling s)"
      "length (szr_queues s) = n"
      using L W(1) Cons by (auto simp: szr_lists_def in_progress_def)
    have r: "szr_queues s' = (szr_queues s)[i := remove1 c (szr_queues s ! i)]" using Cons by (simp add: s' set_queued_def)
    have q: "Suc (queued s') = queued s" by (rule queued_unqueue [OF _ c(1) r]) (use W c in simp)
    have "szr_lists n s'"
      by (rule unqueue_lists [OF L W(1) c(1) r]) (use c Scan in \<open>auto simp: s' set_queued_def in_progress_def\<close>)
    moreover have "szr_phase s'"
      by (rule unqueue_phase [OF _ q]) (use assms(1) Scan in \<open>simp_all add: s' set_queued_def szr_inv_def\<close>)
    moreover have "szr_wake s'" "szr_current s'" by (simp_all add: s' szr_wake_def szr_current_def)
    moreover have "szr_account s'"
      using assms(1) c Scan by (auto simp: s' set_queued_def szr_inv_def szr_account_def in_progress_def)
    ultimately show ?thesis by (simp add: szr_inv_def)
  qed
next
  case Woken
  then have s': "s' = s\<lparr>szr_pc := (if osdep_stop s then Ended else Checked)\<rparr>"
    using assms(2) by (simp add: serializer_thread_step_def)
  have "szr_lists n s'" by (rule lists_cong [of n s]) (use assms(1) in \<open>auto simp: s' szr_inv_def split: if_splits\<close>)
  with assms(1) Woken show ?thesis
    by (auto simp: s' szr_inv_def szr_wake_def szr_current_def szr_phase_def szr_account_def in_progress_def split: stop_pc.splits)
next
  case Checked
  then have s': "s' = s\<lparr>new_event := False, szr_pc := scan_top s\<rparr>"
    using assms(2) by (simp add: serializer_thread_step_def)
  have "szr_lists n s'"
    by (rule lists_cong [of n s]) (use assms(1) in \<open>auto simp: s' szr_inv_def scan_top_def split: nat.splits\<close>)
  with assms(1) Checked show ?thesis
    by (auto simp: s' szr_inv_def szr_wake_def szr_current_def szr_phase_def szr_account_def in_progress_def scan_top_def
        szr_lists_def queued_0 split: stop_pc.splits nat.splits)
next
  case Wait_event
  then have s': "s' = s\<lparr>szr_pc := Woken\<rparr>" and e: "new_event s"
    using assms(2) by (auto simp: serializer_thread_step_def split: if_splits)
  have "szr_lists n s'" by (rule lists_cong [of n s]) (use assms(1) in \<open>auto simp: s' szr_inv_def\<close>)
  with assms(1) Wait_event e show ?thesis
    by (auto simp: s' szr_inv_def szr_wake_def szr_current_def szr_phase_def szr_account_def in_progress_def split: stop_pc.splits)
next
  case (Exec c)
  then have s': "s' = s\<lparr>szr_log := szr_log s @ [Executed c], szr_pc := Post c\<rparr>"
    using assms(2) by (simp add: serializer_thread_step_def)
  have "szr_lists n s'" by (rule lists_cong [of n s]) (use assms(1) Exec in \<open>auto simp: s' szr_inv_def\<close>)
  with assms(1) Exec show ?thesis
    by (auto simp: s' szr_inv_def szr_wake_def szr_current_def szr_phase_def szr_account_def in_progress_def split: stop_pc.splits)
next
  case (Post c)
  then have s': "s' = s\<lparr>szr_log := szr_log s @ [Completed MTLK_CMD_EXECUTED c (post_exec_callback_ctx (szr_cmds s c))],
      szr_pc := Clear c\<rparr>"
    using assms(2) by (simp add: serializer_thread_step_def)
  have c: "c \<notin> set (canceling s)" "\<not> is_in_queue (szr_cmds s c)"
    using assms(1) Post by (auto simp: szr_inv_def szr_lists_def in_progress_def)
  have "szr_lists n s'" by (rule lists_cong [of n s]) (use assms(1) Post in \<open>auto simp: s' szr_inv_def\<close>)
  moreover have "szr_account s'"
    using assms(1) Post c unfolding szr_inv_def szr_account_def by (auto simp: s' in_progress_def)
  ultimately show ?thesis
    using assms(1) Post
    by (auto simp: s' szr_inv_def szr_wake_def szr_current_def szr_phase_def split: stop_pc.splits)
next
  case (Clear c)
  then have s': "s' = s\<lparr>current_command := None, szr_pc := scan_top s\<rparr>"
    using assms(2) by (simp add: serializer_thread_step_def)
  have "szr_lists n s'"
    by (rule lists_cong [of n s]) (use assms(1) in \<open>auto simp: s' szr_inv_def scan_top_def split: nat.splits\<close>)
  with assms(1) Clear show ?thesis
    by (auto simp: s' szr_inv_def szr_wake_def szr_current_def szr_phase_def szr_account_def in_progress_def scan_top_def
        szr_lists_def queued_0 split: stop_pc.splits nat.splits)
qed (use assms in \<open>simp add: serializer_thread_step_def\<close>)

lemma step_inv:
  assumes "szr_step s s'" "szr_inv n s"
  shows "szr_inv n s'"
  using assms
  by (induction rule: szr_step.induct)
    (auto intro: start_inv enqueue_inv cancel_inv cancelled_inv thread_inv stop_processing_inv osdep_stop_inv stopped_inv)

lemma szr_reach_inv: "szr_reach n s \<Longrightarrow> szr_inv n s"
  by (induction rule: szr_reach.induct) (auto intro: szr_init_inv step_inv)

lemma szr_books:
  assumes "szr_reach n s"
  shows "accepted c s = completed c s + (if is_in_queue (szr_cmds s c) \<or> in_progress c s then 1 else 0)"
    and "\<not> (is_in_queue (szr_cmds s c) \<and> in_progress c s)"
    and "\<forall>p < n. count_list (szr_queues s ! p) c = (if is_in_queue (szr_cmds s c) \<and> cmd_priority (szr_cmds s c) = p then 1 else 0)"
    and "szr_stop s \<in> {Started, Wait_tasks} \<longrightarrow> ref_cnt (tasks_pending s) = queued s + (if is_running s then 1 else 0)"
    and "queued s \<noteq> 0 \<longrightarrow> szr_pc s = Wait_event \<longrightarrow> new_event s"
    and "szr_stop s \<in> {Wait_thread, Stopped} \<longrightarrow> queued s = 0"
proof -
  note I = szr_reach_inv [OF assms, unfolded szr_inv_def]
  show "accepted c s = completed c s + (if is_in_queue (szr_cmds s c) \<or> in_progress c s then 1 else 0)"
    using I by (simp add: szr_account_def)
  show "\<not> (is_in_queue (szr_cmds s c) \<and> in_progress c s)" using I by (auto simp: szr_lists_def)
  show "\<forall>p < n. count_list (szr_queues s ! p) c = (if is_in_queue (szr_cmds s c) \<and> cmd_priority (szr_cmds s c) = p then 1 else 0)"
  proof (intro allI impI)
    fix p assume p: "p < n"
    have "c \<in> set (szr_queues s ! p) \<longleftrightarrow> is_in_queue (szr_cmds s c) \<and> cmd_priority (szr_cmds s c) = p"
      "distinct (szr_queues s ! p)" using I p unfolding szr_lists_def by blast+
    then show "count_list (szr_queues s ! p) c = (if is_in_queue (szr_cmds s c) \<and> cmd_priority (szr_cmds s c) = p then 1 else 0)"
      by (simp add: count_list_0_iff distinct_count_list)
  qed
  show "szr_stop s \<in> {Started, Wait_tasks} \<longrightarrow> ref_cnt (tasks_pending s) = queued s + (if is_running s then 1 else 0)"
    using I by (auto simp: szr_phase_def)
  show "queued s \<noteq> 0 \<longrightarrow> szr_pc s = Wait_event \<longrightarrow> new_event s" using I by (auto simp: szr_wake_def)
  show "szr_stop s \<in> {Wait_thread, Stopped} \<longrightarrow> queued s = 0"
    using I by (auto simp: szr_phase_def szr_wake_def)
qed

section \<open>The worker alone\<close>

definition thread_run :: "nat \<Rightarrow> serializer \<Rightarrow> serializer option" where
  "thread_run k s = ((\<lambda>r. Option.bind r serializer_thread_step) ^^ k) (Some s)"

lemma thread_run_0 [simp]: "thread_run 0 s = Some s"
  by (simp add: thread_run_def)

lemma thread_run_Suc: "thread_run (Suc k) s = Option.bind (serializer_thread_step s) (thread_run k)"
proof -
  have "((\<lambda>r. Option.bind r serializer_thread_step) ^^ k) None = None" for k by (induction k) auto
  then show ?thesis
    by (cases "serializer_thread_step s") (simp_all add: thread_run_def funpow_Suc_right fun_eq_iff del: funpow.simps)
qed

lemma thread_run_add: "thread_run j s = Some s1 \<Longrightarrow> thread_run k s1 = r \<Longrightarrow> thread_run (j + k) s = r"
  by (induction j arbitrary: s) (auto simp: thread_run_Suc split: Option.bind_splits)

lemma thread_run_inv: "thread_run k s = Some s' \<Longrightarrow> szr_inv n s \<Longrightarrow> szr_inv n s'"
  by (induction k arbitrary: s) (auto simp: thread_run_Suc split: Option.bind_splits intro: thread_inv)

text \<open>The worker's progress: queued commands first, then a pending event, then its position.\<close>
definition pc_rank :: "nat \<Rightarrow> szr_pc \<Rightarrow> nat" where
  "pc_rank n pc = (case pc of Ended \<Rightarrow> 0 | Checked \<Rightarrow> 1 | Woken \<Rightarrow> 2 | Wait_event \<Rightarrow> 3 | Scan i \<Rightarrow> 4 + i
     | Clear c \<Rightarrow> 4 + n | Post c \<Rightarrow> 5 + n | Exec c \<Rightarrow> 6 + n)"

definition progress :: "(serializer \<times> serializer) set" where
  "progress = measures [queued, \<lambda>s. if new_event s then 1 else 0, \<lambda>s. pc_rank (num_priorities s) (szr_pc s)]"

lemma wf_progress: "wf progress"
  by (simp add: progress_def)

lemma thread_progress:
  assumes "szr_inv n s" "\<not> osdep_stop s" "serializer_thread_step s = Some s'"
  shows "(s', s) \<in> progress \<and> \<not> osdep_stop s'"
proof (cases "szr_pc s")
  case (Scan i)
  show ?thesis
  proof (cases "szr_queues s ! i")
    case (Cons c cs)
    then have s': "s' = (set_queued c False s)\<lparr>szr_queues := (szr_queues s)[i := cs], current_command := Some c,
        tasks_pending := mtlk_rmlock_release (tasks_pending s), szr_pc := Exec c\<rparr>"
      using assms(3) Scan by (simp add: serializer_thread_step_def)
    have "Suc (queued s') = queued s"
      by (rule queued_unqueue [of i s c]) (use Cons Scan assms(1) in \<open>simp_all add: s' set_queued_def szr_inv_def szr_wake_def szr_lists_def\<close>)
    then show ?thesis using assms(2) by (simp add: progress_def s' set_queued_def)
  qed (use assms Scan in \<open>auto simp: serializer_thread_step_def progress_def pc_rank_def split: nat.splits\<close>)
qed (use assms in \<open>auto simp: serializer_thread_step_def progress_def pc_rank_def scan_top_def szr_inv_def szr_wake_def
       split: if_splits nat.splits\<close>)

text \<open>Nothing to do: the worker sleeps, all lists are empty and the event is not set.\<close>
definition szr_quiet :: "serializer \<Rightarrow> bool" where
  "szr_quiet s \<longleftrightarrow> szr_pc s = Wait_event \<and> \<not> new_event s \<and> queued s = 0"

lemma thread_drains:
  assumes "szr_inv n s" "\<not> osdep_stop s" "szr_pc s \<noteq> Ended"
  shows "\<exists>k s'. thread_run k s = Some s' \<and> szr_quiet s' \<and> szr_inv n s' \<and> canceling s' = canceling s"
  using assms
proof (induction s rule: wf_induct_rule [OF wf_progress])
  case (1 s)
  show ?case
  proof (cases "serializer_thread_step s")
    case None
    then have "szr_pc s = Wait_event \<and> \<not> new_event s"
      using 1(4) by (simp add: serializer_thread_step_def split: szr_pc.splits if_splits list.splits)
    moreover from this have "queued s = 0" using 1(2) by (auto simp: szr_inv_def szr_wake_def)
    ultimately show ?thesis using 1(2) by (intro exI [of _ 0] exI [of _ s]) (simp add: szr_quiet_def)
  next
    case (Some s1)
    have c: "canceling s1 = canceling s" "szr_pc s1 \<noteq> Ended"
      using Some 1(3,4) by (auto simp: serializer_thread_step_def scan_top_def set_queued_def
          split: szr_pc.splits if_splits list.splits nat.splits)
    from 1(1) [of s1] thread_progress [OF 1(2,3) Some] thread_inv [OF 1(2) Some] c obtain k s' where
      "thread_run k s1 = Some s'" "szr_quiet s'" "szr_inv n s'" "canceling s' = canceling s" by auto
    with Some show ?thesis by (intro exI [of _ "Suc k"] exI [of _ s']) (simp add: thread_run_Suc)
  qed
qed

text \<open>The commands are taken by priority, then in the order they came.\<close>
definition by_priority :: "serializer \<Rightarrow> nat list" where
  "by_priority s = concat (rev (szr_queues s))"

definition exec_log :: "serializer \<Rightarrow> nat \<Rightarrow> szr_event list" where
  "exec_log s c = [Executed c, Completed MTLK_CMD_EXECUTED c (post_exec_callback_ctx (szr_cmds s c))]"

text \<open>The scan goes down to the highest list that is not empty.\<close>
lemma scan_down:
  assumes "szr_pc s = Scan (j + d)" "\<forall>k. j < k \<and> k \<le> j + d \<longrightarrow> szr_queues s ! k = []"
  shows "thread_run d s = Some (s\<lparr>szr_pc := Scan j\<rparr>)"
  using assms
proof (induction d arbitrary: s)
  case 0
  then show ?case by (cases s) simp
next
  case (Suc d)
  then have "serializer_thread_step s = Some (s\<lparr>szr_pc := Scan (j + d)\<rparr>)"
    by (simp add: serializer_thread_step_def)
  moreover have "thread_run d (s\<lparr>szr_pc := Scan (j + d)\<rparr>) = Some (s\<lparr>szr_pc := Scan (j + d)\<rparr>\<lparr>szr_pc := Scan j\<rparr>)"
    by (rule Suc(1)) (use Suc(3) in auto)
  ultimately show ?case by (simp add: thread_run_Suc)
qed

lemma concat_rev_split:
  assumes "j < length qs" "\<forall>k. j < k \<and> k < length qs \<longrightarrow> qs ! k = []"
  shows "concat (rev qs) = qs ! j @ concat (rev (take j qs))"
proof -
  have "concat (rev (drop (Suc j) qs)) = []"
    using assms(2) by (auto simp: in_set_conv_nth)
  then show ?thesis
    using arg_cong [OF id_take_nth_drop [OF assms(1)], of "\<lambda>q. concat (rev q)"] by simp
qed

text \<open>One round of the loop: the first command by priority is executed and completed.\<close>
lemma thread_round:
  assumes "szr_inv n s" "szr_pc s = Scan (n - 1)" "by_priority s = c # cs" "0 < n"
  shows "\<exists>k s'. thread_run k s = Some s' \<and> szr_inv n s' \<and> szr_pc s' = Scan (n - 1) \<and> by_priority s' = cs
    \<and> szr_log s' = szr_log s @ exec_log s c \<and> (\<forall>d. post_exec_callback_ctx (szr_cmds s' d) = post_exec_callback_ctx (szr_cmds s d))"
proof -
  have n: "length (szr_queues s) = n" "num_priorities s = n" using assms(1) by (auto simp: szr_inv_def szr_lists_def)
  let ?P = "\<lambda>j. j < n \<and> szr_queues s ! j \<noteq> []"
  have "c \<in> set (by_priority s)" using assms(3) by simp
  then have "\<exists>j. ?P j" unfolding by_priority_def by (fastforce simp: in_set_conv_nth n)
  define j where "j = (GREATEST j. ?P j)"
  have j: "?P j" and up: "?P k \<Longrightarrow> k \<le> j" for k
    using \<open>\<exists>j. ?P j\<close> GreatestI_ex_nat [of ?P n] Greatest_le_nat [of ?P _ n] unfolding j_def by auto
  have split: "by_priority s = szr_queues s ! j @ concat (rev (take j (szr_queues s)))"
    unfolding by_priority_def using j up n by (intro concat_rev_split) fastforce+
  with assms(3) j obtain q where q: "szr_queues s ! j = c # q" "cs = q @ concat (rev (take j (szr_queues s)))"
    by (cases "szr_queues s ! j") auto
  define s1 where "s1 = s\<lparr>szr_pc := Scan j\<rparr>"
  have "n - 1 = j + (n - 1 - j)" using j by simp
  moreover have "\<forall>k. j < k \<and> k \<le> j + (n - 1 - j) \<longrightarrow> szr_queues s ! k = []"
  proof (intro allI impI)
    fix k assume k: "j < k \<and> k \<le> j + (n - 1 - j)"
    then have "k < n" using j by linarith
    with up [of k] k show "szr_queues s ! k = []" by linarith
  qed
  ultimately have r1: "thread_run (n - 1 - j) s = Some s1" unfolding s1_def using assms(2) by (intro scan_down) simp_all
  define s2 where "s2 = (set_queued c False s)\<lparr>szr_queues := (szr_queues s)[j := q], szr_pc := Scan (n - 1),
      tasks_pending := mtlk_rmlock_release (tasks_pending s), current_command := None, szr_log := szr_log s @ exec_log s c\<rparr>"
  have r2: "thread_run 4 s1 = Some s2"
    using q(1) assms(4) n
    by (simp add: eval_nat_numeral thread_run_Suc serializer_thread_step_def s1_def s2_def set_queued_def scan_top_def exec_log_def
        split: nat.splits)
  have r: "thread_run (n - 1 - j + 4) s = Some s2" using r1 r2 by (rule thread_run_add)
  have "szr_inv n s2"
    using r assms(1) by (rule thread_run_inv)
  moreover have "by_priority s2 = cs"
  proof -
    have "concat (rev ((szr_queues s)[j := q])) = (szr_queues s)[j := q] ! j @ concat (rev (take j ((szr_queues s)[j := q])))"
      using j up n by (intro concat_rev_split) fastforce+
    then show ?thesis using j n q(2) by (simp add: s2_def by_priority_def set_queued_def)
  qed
  ultimately show ?thesis using r by (intro exI conjI) (auto simp: s2_def set_queued_def)
qed

section \<open>What the serializer promises\<close>

text \<open>
  C15: In every interleaving of enqueueing, cancelling, working and stopping, each command that was accepted is at any time either
  completed, exactly as often as it was accepted, or in exactly one place on its way there: once in the list of its
  priority, in the worker's hands, or cancelled with its callback to come. The reference count of the pending tasks is exact,
  so that the wait in \<^verbatim>\<open>mtlk_serializer_stop\<close> ends exactly when the lists are empty, and no command ever waits in a list
  while the worker sleeps with nothing to wake it (the wake-up of a stop, with empty lists, is not covered: it can be lost).
\<close>
theorem szr_completes_each_command_once:
  assumes "szr_reach n s"
  shows "accepted c s = completed c s + (if is_in_queue (szr_cmds s c) \<or> in_progress c s then 1 else 0)
    \<and> \<not> (is_in_queue (szr_cmds s c) \<and> in_progress c s)
    \<and> (\<forall>p < n. count_list (szr_queues s ! p) c = (if is_in_queue (szr_cmds s c) \<and> cmd_priority (szr_cmds s c) = p then 1 else 0))
    \<and> (szr_stop s \<in> {Started, Wait_tasks} \<longrightarrow> ref_cnt (tasks_pending s) = queued s + (if is_running s then 1 else 0))
    \<and> (queued s \<noteq> 0 \<longrightarrow> szr_pc s = Wait_event \<longrightarrow> new_event s)"
  using szr_books [OF assms] by blast

text \<open>
  C16: From every reachable state of a running serializer the worker alone, without any further event, ends its work after
  finitely many steps with all lists empty: every accepted command that is not being cancelled has been completed.
\<close>
theorem szr_worker_drains:
  assumes "szr_reach n s" "szr_stop s \<in> {Started, Wait_tasks}"
  shows "\<exists>k s'. thread_run k s = Some s' \<and> szr_quiet s' \<and> (\<forall>c. c \<notin> set (canceling s) \<longrightarrow> accepted c s' = completed c s')"
proof -
  note I = szr_reach_inv [OF assms(1)]
  have "\<not> osdep_stop s" "szr_pc s \<noteq> Ended" using I assms(2) by (auto simp: szr_inv_def szr_phase_def)
  from thread_drains [OF I this] obtain k s' where
    d: "thread_run k s = Some s'" "szr_quiet s'" "szr_inv n s'" "canceling s' = canceling s" by blast
  have "\<not> is_in_queue (szr_cmds s' c)" for c
  proof
    assume "is_in_queue (szr_cmds s' c)"
    then obtain p where "p < length (szr_queues s')" "c \<in> set (szr_queues s' ! p)"
      using d(3) unfolding szr_inv_def szr_lists_def by blast
    then show False using d(2) by (auto simp: szr_quiet_def queued_0)
  qed
  then have "accepted c s' = completed c s'" if "c \<notin> set (canceling s)" for c
    using d that by (auto simp: szr_inv_def szr_account_def in_progress_def szr_quiet_def)
  with d show ?thesis by blast
qed

text \<open>
  A worker that starts a scan with the lists \<open>Q\<close> and is left alone executes and completes exactly the commands of \<open>Q\<close>, all of
  a higher priority before any of a lower one and each priority in the order of arrival, and ends in its sleep.
\<close>
lemma szr_serves_by_priority:
  assumes "szr_reach n s" "szr_pc s = Scan (n - 1)" "0 < n"
  shows "\<exists>k s'. thread_run k s = Some s' \<and> szr_pc s' = Scan (n - 1) \<and> queued s' = 0
    \<and> szr_log s' = szr_log s @ concat (map (exec_log s) (concat (rev (szr_queues s))))"
proof -
  have "\<exists>k s'. thread_run k s = Some s' \<and> szr_pc s' = Scan (n - 1) \<and> queued s' = 0
      \<and> szr_log s' = szr_log s @ concat (map (exec_log s) cs)"
    if "by_priority s = cs" "szr_inv n s" "szr_pc s = Scan (n - 1)" for cs s
    using that
  proof (induction cs arbitrary: s)
    case Nil
    then have "queued s = 0" unfolding by_priority_def queued_def by auto
    with Nil show ?case by (intro exI [of _ 0] exI [of _ s]) simp
  next
    case (Cons c cs)
    from thread_round [OF Cons(3,4,2) assms(3)] obtain k s1 where
      s1: "thread_run k s = Some s1" "szr_inv n s1" "szr_pc s1 = Scan (n - 1)" "by_priority s1 = cs"
        "szr_log s1 = szr_log s @ exec_log s c" "exec_log s1 = exec_log s"
      unfolding exec_log_def by blast
    from Cons(1) [OF s1(4,2,3)] obtain k' s' where
      "thread_run k' s1 = Some s'" "szr_pc s' = Scan (n - 1)" "queued s' = 0"
      "szr_log s' = szr_log s1 @ concat (map (exec_log s1) cs)" by blast
    with s1 thread_run_add [OF s1(1)] show ?case by (intro exI [of _ "k + k'"] exI [of _ s']) simp
  qed
  from this [OF _ szr_reach_inv [OF assms(1)] assms(2)] show ?thesis unfolding by_priority_def by blast
qed

text \<open>
  C17: When \<^verbatim>\<open>mtlk_serializer_stop\<close> has returned, the worker has ended, no command is queued or being executed and every accepted
  command has been completed, apart from those a canceller has still to report; and nothing is accepted any more.
\<close>
theorem szr_stop_is_clean:
  assumes "szr_reach n s" "szr_stop s = Stopped"
  shows "szr_pc s = Ended \<and> current_command s = None \<and> queued s = 0
    \<and> (\<forall>c. c \<notin> set (canceling s) \<longrightarrow> accepted c s = completed c s)
    \<and> mtlk_serializer_enqueue p c ctx s = Inr (MTLK_ERR_NOT_READY, s)"
proof -
  note I = szr_reach_inv [OF assms(1)]
  have e: "szr_pc s = Ended" "\<not> is_running s" using I assms(2) by (auto simp: szr_inv_def szr_phase_def)
  then have q: "queued s = 0" "current_command s = None" using I by (auto simp: szr_inv_def szr_wake_def szr_current_def)
  have "\<not> is_in_queue (szr_cmds s c)" for c
  proof
    assume "is_in_queue (szr_cmds s c)"
    then obtain p where "p < length (szr_queues s)" "c \<in> set (szr_queues s ! p)"
      using I unfolding szr_inv_def szr_lists_def by blast
    then show False using q by (auto simp: queued_0)
  qed
  then have "accepted c s = completed c s" if "c \<notin> set (canceling s)" for c
    using I e that by (auto simp: szr_inv_def szr_account_def in_progress_def)
  with e q show ?thesis by (simp add: mtlk_serializer_enqueue_def)
qed

text \<open>The thread that stops the serializer waits for a worker that sleeps, and nothing sets the event.\<close>
definition szr_hangs :: "serializer \<Rightarrow> bool" where
  "szr_hangs s \<longleftrightarrow> szr_stop s = Wait_thread \<and> szr_pc s = Wait_event \<and> \<not> new_event s \<and> \<not> is_running s
     \<and> (\<forall>c. \<not> is_in_queue (szr_cmds s c))"

lemma hang_step: "szr_step s s' \<Longrightarrow> szr_hangs s \<Longrightarrow> szr_hangs s'"
  by (induction rule: szr_step.induct)
    (auto simp: szr_hangs_def mtlk_serializer_enqueue_def serializer_cancel_locked_def serializer_cancel_callback_def
      serializer_thread_step_def)

lemma hangs_forever: "szr_step\<^sup>*\<^sup>* s s' \<Longrightarrow> szr_hangs s \<Longrightarrow> szr_hangs s'"
  by (induction rule: rtranclp_induct) (auto intro: hang_step)

definition ex_cmds :: "nat \<Rightarrow> mtlk_command" where
  "ex_cmds c = \<lparr>is_in_queue = False, cmd_priority = 0, post_exec_callback_ctx = 0\<rparr>"

definition ex_state ::
  "nat list \<Rightarrow> (nat \<Rightarrow> mtlk_command) \<Rightarrow> bool \<Rightarrow> nat \<Rightarrow> bool \<Rightarrow> nat option \<Rightarrow> szr_pc \<Rightarrow> stop_pc \<Rightarrow> szr_event list \<Rightarrow> serializer" where
  "ex_state q cmds ev refs evt cur pc st l =
    \<lparr>szr_queues = [q], num_priorities = 1, is_running = (st = Started), current_command = cur,
     tasks_pending = \<lparr>ref_cnt = refs, rm_evt = evt\<rparr>, szr_cmds = cmds, new_event = ev, osdep_stop = (st = Wait_thread),
     szr_pc = pc, szr_stop = st, canceling = [], szr_log = l\<rparr>"

lemma reach_thread_run: "szr_reach n s \<Longrightarrow> thread_run k s = Some s' \<Longrightarrow> szr_reach n s'"
  by (induction k arbitrary: s) (auto simp: thread_run_Suc split: Option.bind_splits intro: szr_reach.Step szr_step.Thread)

lemma enqueue_reach:
  assumes "szr_reach n s" "\<not> in_progress c s" "mtlk_serializer_enqueue p c ctx s = Inr (r, s')"
  shows "szr_reach n s'"
  using assms by (blast intro: szr_reach.Step szr_step.Enqueue)

text \<open>
  C18: The worker's event can be lost when the serializer is stopped: the thread reads the stop flag before it resets the event, so
  a stop between the two is wiped out. There is a run of two commands and a stop after which the thread sleeps, the event is
  not set, \<^verbatim>\<open>mtlk_serializer_stop\<close> waits for the thread to end, and no further step of anybody changes this.
\<close>
theorem szr_stop_can_hang:
  "\<exists>s. szr_reach 1 s \<and> szr_hangs s \<and> (\<forall>s'. szr_step\<^sup>*\<^sup>* s s' \<longrightarrow> szr_stop s' = Wait_thread \<and> szr_pc s' = Wait_event)"
proof -
  let ?q = "\<lambda>c b. \<lparr>is_in_queue = b, cmd_priority = 0, post_exec_callback_ctx = c\<rparr>"
  define s0 where "s0 = mtlk_serializer_start (mtlk_serializer_init 1 ex_cmds)"
  define s1 where "s1 = ex_state [1] (ex_cmds(1 := ?q 1 True)) True 2 False None Wait_event Started [Accepted 1]"
  define s2 where "s2 = ex_state [] (ex_cmds(1 := ?q 1 False)) False 1 False (Some 1) (Exec 1) Started [Accepted 1]"
  define s3 where "s3 = ex_state [2] (ex_cmds(1 := ?q 1 False, 2 := ?q 2 True)) True 2 False (Some 1) (Exec 1) Started
    [Accepted 1, Accepted 2]"
  define l where "l = [Accepted 1, Accepted 2, Executed 1, Completed MTLK_CMD_EXECUTED 1 1, Executed 2,
    Completed MTLK_CMD_EXECUTED 2 2]"
  define cm where "cm = ex_cmds(1 := ?q 1 False, 2 := ?q 2 False)"
  define s4 where "s4 = ex_state [] cm True 1 False None Wait_event Started l"
  define s5 where "s5 = ex_state [] cm True 0 True None Checked Wait_tasks l"
  define s6 where "s6 = ex_state [] cm False 0 True None Wait_event Wait_thread l"
  note defs = ex_state_def s0_def s1_def s2_def s3_def s4_def s5_def s6_def cm_def l_def
  note ops = mtlk_serializer_enqueue_def mtlk_serializer_start_def mtlk_serializer_init_def szr_op_defs
    thread_run_Suc eval_nat_numeral serializer_thread_step_def scan_top_def in_progress_def ex_cmds_def
    serializer_stop_processing_def serializer_osdep_stop_def Let_def
  have run: "thread_run 4 s1 = Some s2" "mtlk_serializer_enqueue 0 1 1 s0 = Inr (MTLK_ERR_OK, s1)"
    "mtlk_serializer_enqueue 0 2 2 s2 = Inr (MTLK_ERR_OK, s3)" "thread_run 8 s3 = Some s4"
    "thread_run 2 (serializer_stop_processing s4) = Some s5"
    by (simp_all add: defs ops fun_upd_twist)
  have st: "\<not> in_progress 1 s0" "\<not> in_progress 2 s2" "szr_stop s4 = Started"
      "szr_stop s5 = Wait_tasks" "rm_evt (tasks_pending s5)"
    by (simp_all add: defs ops)
  have s6: "thread_run 2 (serializer_osdep_stop s5) = Some s6" "szr_hangs s6"
    by (simp_all add: defs ops szr_hangs_def)
  have "szr_reach 1 s0" unfolding s0_def
    by (rule szr_reach.Step [OF szr_reach.Init szr_step.Start]) (simp_all add: ex_cmds_def mtlk_serializer_init_def)
  then have "szr_reach 1 s1" using st(1) run(2) by (rule enqueue_reach)
  then have "szr_reach 1 s2" using run(1) by (rule reach_thread_run)
  then have "szr_reach 1 s3" using st(2) run(3) by (rule enqueue_reach)
  then have "szr_reach 1 s4" using run(4) by (rule reach_thread_run)
  then have "szr_reach 1 s5" using szr_step.Stop [OF st(3)] run(5) by (blast intro: szr_reach.Step reach_thread_run)
  then have "szr_reach 1 s6" using szr_step.Stop_thread [OF st(4,5)] s6(1) by (blast intro: szr_reach.Step reach_thread_run)
  moreover have "szr_stop s' = Wait_thread \<and> szr_pc s' = Wait_event" if "szr_step\<^sup>*\<^sup>* s6 s'" for s'
    using hangs_forever [OF that s6(2)] by (simp add: szr_hangs_def)
  ultimately show ?thesis using s6(2) by blast
qed

theorem szr_stop_can_hang_witness: "\<exists>s. szr_reach 1 s \<and> szr_stop s = Wait_thread \<and> szr_pc s = Wait_event"
  using szr_stop_can_hang by blast

section \<open>Enumerations\<close>

lemma enum_list_all: "enum_list (\<lambda>_. True) cs = (cs, True)"
  by (induction cs) auto

lemma enum_queues_all: "enum_queues (\<lambda>_. True) qs = concat qs"
  by (induction qs) (auto simp: enum_list_all)

text \<open>Every enumerated command but the current one is still to be completed, and the current one too until its callback was called.\<close>
lemma enumerated_commands:
  assumes "szr_reach n s" "c \<in> set (mtlk_serializer_enum_commands (\<lambda>_. True) s)"
  shows "accepted c s = Suc (completed c s) \<or> szr_pc s = Clear c"
proof -
  note I = szr_reach_inv [OF assms(1)]
  have len: "length (szr_queues s) = n" using I unfolding szr_inv_def szr_lists_def by blast
  have "current_command s = Some c \<or> c \<in> set (concat (rev (szr_queues s)))"
    using assms(2) by (auto simp: mtlk_serializer_enum_commands_def enum_queues_all split: option.splits)
  then have "current_command s = Some c \<or> (\<exists>p < n. c \<in> set (szr_queues s ! p))"
    unfolding len [symmetric] by (auto simp: in_set_conv_nth [of _ "szr_queues s"])
  then show ?thesis
  proof
    assume "current_command s = Some c"
    then show ?thesis
      using I by (auto simp: szr_inv_def szr_current_def szr_account_def in_progress_def split: szr_pc.splits)
  next
    assume "\<exists>p < n. c \<in> set (szr_queues s ! p)"
    then have "is_in_queue (szr_cmds s c)" using I unfolding szr_inv_def szr_lists_def by blast
    then show ?thesis using I by (simp add: szr_inv_def szr_account_def)
  qed
qed

definition ex_started :: serializer where
  "ex_started = mtlk_serializer_start (mtlk_serializer_init 1 ex_cmds)"

definition ex_queued :: serializer where
  "ex_queued = ex_state [1] (ex_cmds(1 := \<lparr>is_in_queue = True, cmd_priority = 0, post_exec_callback_ctx = 1\<rparr>)) True 2 False None
     Wait_event Started [Accepted 1]"

lemmas ex_ops = mtlk_serializer_enqueue_def mtlk_serializer_start_def mtlk_serializer_init_def szr_op_defs
  thread_run_Suc eval_nat_numeral serializer_thread_step_def scan_top_def in_progress_def ex_cmds_def ex_state_def
  serializer_stop_processing_def serializer_osdep_stop_def Let_def ex_started_def ex_queued_def

lemma ex_started_reach: "szr_reach 1 ex_started"
  unfolding ex_started_def
  by (rule szr_reach.Step [OF szr_reach.Init szr_step.Start]) (simp_all add: ex_cmds_def mtlk_serializer_init_def)

lemma ex_queued_reach: "szr_reach 1 ex_queued"
proof (rule enqueue_reach [OF ex_started_reach])
  show "mtlk_serializer_enqueue 0 1 1 ex_started = Inr (MTLK_ERR_OK, ex_queued)" by (simp add: ex_ops)
qed (simp add: ex_ops)

text \<open>
  An enumeration can be given a command that is already completed: between the completion callback, in which the owner of an
  asynchronous request frees the command, and the section that clears \<^verbatim>\<open>current_command\<close>, the serializer still
  reports that command as the current one.
\<close>
lemma szr_enumerates_completed_command:
  "\<exists>s c. szr_reach 1 s \<and> mtlk_serializer_enum_commands (\<lambda>_. True) s = [c] \<and> accepted c s = 1 \<and> completed c s = 1"
proof -
  define s where "s = ex_state [] (ex_cmds(1 := \<lparr>is_in_queue = False, cmd_priority = 0, post_exec_callback_ctx = 1\<rparr>)) False 1 False
    (Some 1) (Clear 1) Started [Accepted 1, Executed 1, Completed MTLK_CMD_EXECUTED 1 1]"
  have "thread_run 6 ex_queued = Some s" by (simp add: ex_ops s_def)
  then have "szr_reach 1 s" by (rule reach_thread_run [OF ex_queued_reach])
  moreover have "mtlk_serializer_enum_commands (\<lambda>_. True) s = [1]" "accepted 1 s = 1" "completed 1 s = 1"
    by (simp_all add: s_def ex_state_def mtlk_serializer_enum_commands_def accepted_def completed_def)
  ultimately show ?thesis by blast
qed

section \<open>Instances\<close>

theorem szr_completes_each_command_once_witness:
  "accepted 1 ex_queued = completed 1 ex_queued + (if is_in_queue (szr_cmds ex_queued 1) \<or> in_progress 1 ex_queued then 1 else 0)"
  using szr_completes_each_command_once [OF ex_queued_reach, of 1] by blast

theorem szr_worker_drains_witness:
  "\<exists>k s'. thread_run k ex_queued = Some s' \<and> szr_quiet s' \<and> accepted 1 s' = completed 1 s'"
proof -
  have "szr_stop ex_queued \<in> {Started, Wait_tasks}" "1 \<notin> set (canceling ex_queued)" by (simp_all add: ex_ops)
  with szr_worker_drains [OF ex_queued_reach] show ?thesis by blast
qed

theorem szr_serves_by_priority_witness:
  "\<exists>s. szr_queues s = [[1]] \<and> (\<exists>k s'. thread_run k s = Some s' \<and> queued s' = 0
     \<and> szr_log s' = szr_log s @ concat (map (exec_log s) (concat (rev (szr_queues s)))))"
proof -
  define s where "s = ex_queued\<lparr>new_event := False, szr_pc := Scan 0\<rparr>"
  have "thread_run 3 ex_queued = Some s" by (simp add: ex_ops s_def)
  then have r: "szr_reach 1 s" by (rule reach_thread_run [OF ex_queued_reach])
  have "szr_pc s = Scan (1 - 1)" "szr_queues s = [[1]]" by (simp_all add: s_def ex_ops)
  with szr_serves_by_priority [OF r] show ?thesis by (intro exI [of _ s]) auto
qed

theorem szr_stop_is_clean_witness:
  "\<exists>s. szr_stop s = Stopped \<and> szr_pc s = Ended \<and> mtlk_serializer_enqueue 0 1 1 s = Inr (MTLK_ERR_NOT_READY, s)"
proof -
  define s1 where "s1 = serializer_stop_processing ex_started"
  have a: "szr_reach 1 s1" unfolding s1_def
    by (rule szr_reach.Step [OF ex_started_reach szr_step.Stop]) (simp add: ex_ops)
  have "szr_step s1 (serializer_osdep_stop s1)" by (rule szr_step.Stop_thread) (simp_all add: s1_def ex_ops)
  with a have b: "szr_reach 1 (serializer_osdep_stop s1)" by (rule szr_reach.Step)
  define s2 where "s2 = (serializer_osdep_stop s1)\<lparr>szr_pc := Ended\<rparr>"
  have "thread_run 2 (serializer_osdep_stop s1) = Some s2" by (simp add: s1_def s2_def ex_ops)
  with b have c: "szr_reach 1 s2" by (rule reach_thread_run)
  have "szr_step s2 (serializer_stopped s2)" by (rule szr_step.Stop_done) (simp_all add: s2_def s1_def ex_ops)
  with c have "szr_reach 1 (serializer_stopped s2)" by (rule szr_reach.Step)
  moreover have "szr_stop (serializer_stopped s2) = Stopped" by (simp add: serializer_stopped_def)
  ultimately show ?thesis using szr_stop_is_clean [of 1 "serializer_stopped s2" 0 1 1] by blast
qed

end
