(* ===== verification/Bss_Cache.thy ===== *)
theory Bss_Cache
  imports Startup "HOL-Library.Sublist"
begin

text \<open>
  The cache of scanned networks, \<^verbatim>\<open>driver/shared/cache.c\<close>: a list of entries sorted by channel with at most one entry per
  BSSID, a cursor for the enumeration, and entries that leave the list when an enumeration meets them after their
  time. An entry carries the address of its \<^verbatim>\<open>cache_entry_t\<close>, since the cursor is compared by address; the country
  element, which the C code keeps in a separate allocation that it clones and frees with the entry, is kept by value.
  Time stamps, the results of the two allocations and the clock are inputs. The interface \<open>bss_cursor\<close> says what an
  enumeration may rely on, and carries the lemmas of its clients.
\<close>

section \<open>State\<close>

record bss_data =
  beacon_timestamp :: nat
  received_timestamp :: nat
  bssid :: mac_addr
  bss_type :: nat
  channel :: nat
  secondary_channel_offset :: nat
  max_rssi :: nat
  all_rssi :: "nat list"
  noise :: nat
  capability :: nat
  beacon_interval :: nat
  essid :: string
  info_elements :: "byte list"
  ie_used_length :: nat
  rsn_offs :: nat
  wpa_offs :: nat
  wps_offs :: nat
  country_code :: nat
  country_ie :: "byte list option"
  is_2_4 :: bool
  is_ht :: bool
  basic_rate_set :: "32 word"
  operational_rate_set :: "32 word"
  spectrum :: nat
  upper_lower :: nat
  power :: int
  forty_mhz_intolerant :: bool

record cache_entry =
  ce_addr :: nat
  local_timestamp :: nat
  is_persistent :: bool
  ce_freq :: bool
  ce_bss :: bss_data

record scan_cache =
  cache_expire :: nat
  cur_entry :: "nat option"
  bss_list :: "cache_entry list"
  modified :: bool

section \<open>Operations\<close>

definition cache_clone_country_ie :: "bool \<Rightarrow> bss_data \<Rightarrow> byte list option" where
  "cache_clone_country_ie alloc b =
    (case country_ie b of None \<Rightarrow> None | Some ie \<Rightarrow> if alloc then Some ie else None)"

text \<open>The first loop of \<^verbatim>\<open>mtlk_cache_register_bss\<close>: unlinks the entry of the BSSID.\<close>
fun unlink_bssid :: "mac_addr \<Rightarrow> cache_entry list \<Rightarrow> (cache_entry \<times> cache_entry list) option" where
  "unlink_bssid a [] = None"
| "unlink_bssid a (e # es) =
    (if bssid (ce_bss e) = a then Some (e, es)
     else case unlink_bssid a es of None \<Rightarrow> None | Some (x, r) \<Rightarrow> Some (x, e # r))"

text \<open>Its last loop: the place is before the first entry of the same or a higher channel.\<close>
fun insert_by_channel :: "cache_entry \<Rightarrow> cache_entry list \<Rightarrow> cache_entry list" where
  "insert_by_channel s [] = [s]"
| "insert_by_channel s (e # es) =
    (if channel (ce_bss e) \<ge> channel (ce_bss s) then s # e # es else e # insert_by_channel s es)"

definition fill_slot :: "nat \<Rightarrow> bool \<Rightarrow> bss_data \<Rightarrow> nat \<Rightarrow> cache_entry" where
  "fill_slot now ie_alloc b addr =
    \<lparr>ce_addr = addr, local_timestamp = now, is_persistent = False, ce_freq = is_2_4 b,
     ce_bss = b\<lparr>country_ie := cache_clone_country_ie ie_alloc b\<rparr>\<rparr>"

text \<open>
  The result has the caller's description too: an empty ESSID in it is replaced by the one the cache had. \<open>slot\<close> is what the
  allocation of a new entry gives.
\<close>
definition mtlk_cache_register_bss ::
  "nat \<Rightarrow> nat option \<Rightarrow> bool \<Rightarrow> bss_data \<Rightarrow> scan_cache \<Rightarrow> bss_data \<times> scan_cache" where
  "mtlk_cache_register_bss now slot ie_alloc b c =
    (case unlink_bssid (bssid b) (bss_list c) of
       Some (place, rest) \<Rightarrow>
         (let b' = (if essid b = [] then b\<lparr>essid := essid (ce_bss place)\<rparr> else b) in
          (b', c\<lparr>modified := True,
                bss_list := insert_by_channel (fill_slot now ie_alloc b' (ce_addr place)) rest\<rparr>))
     | None \<Rightarrow>
         (case slot of
            None \<Rightarrow> (b, c)
          | Some addr \<Rightarrow>
              (b, c\<lparr>modified := True,
                   bss_list := insert_by_channel (fill_slot now ie_alloc b addr) (bss_list c)\<rparr>)))"

definition mtlk_cache_clear :: "scan_cache \<Rightarrow> scan_cache" where
  "mtlk_cache_clear c = c\<lparr>bss_list := [], modified := True, cur_entry := None\<rparr>"

text \<open>The driver's containers are zeroed when they are allocated. A lock that cannot be created undoes the steps before it.\<close>
definition cache_zero :: scan_cache where
  "cache_zero = \<lparr>cache_expire = 0, cur_entry = None, bss_list = [], modified = False\<rparr>"

definition step_result :: "mtlk_error \<Rightarrow> mtlk_error option" where
  "step_result e = (if e = MTLK_ERR_OK then None else Some e)"

definition cache_init_steps :: "nat \<Rightarrow> mtlk_error \<Rightarrow> mtlk_error \<Rightarrow> scan_cache fwd_item list" where
  "cache_init_steps expire lock temp_bss_lock =
    [Fwd_step 0 (\<lambda>_. True) (\<lambda>c. (None, c\<lparr>bss_list := []\<rparr>)),
     Fwd_step 1 (\<lambda>_. True) (\<lambda>c. (step_result lock, c)),
     Fwd_step 2 (\<lambda>_. True) (\<lambda>c. (step_result temp_bss_lock, c)),
     Fwd_step 3 (\<lambda>_. True) (\<lambda>c. (None, c\<lparr>cache_expire := expire\<rparr>))]"

definition cache_cleanup_steps :: "scan_cache bwd_item list" where
  "cache_cleanup_steps = [Bwd_step 3 mtlk_cache_clear, Bwd_step 2 id, Bwd_step 1 id, Bwd_step 0 id]"

definition mtlk_cache_init ::
  "nat \<Rightarrow> mtlk_error \<Rightarrow> mtlk_error \<Rightarrow> scan_cache \<times> marks \<Rightarrow> mtlk_error \<times> scan_cache \<times> marks" where
  "mtlk_cache_init expire lock temp_bss_lock cm =
     start_object (cache_init_steps expire lock temp_bss_lock) cache_cleanup_steps cm"

definition mtlk_cache_cleanup :: "scan_cache \<times> marks \<Rightarrow> scan_cache \<times> marks" where
  "mtlk_cache_cleanup cm = bwd_steps cache_cleanup_steps cm"

definition mtlk_cache_rewind :: "scan_cache \<Rightarrow> scan_cache" where
  "mtlk_cache_rewind c =
    (case bss_list c of [] \<Rightarrow> c\<lparr>cur_entry := None\<rparr> | e # _ \<Rightarrow> c\<lparr>cur_entry := Some (ce_addr e)\<rparr>)"

definition ptr_of :: "cache_entry list \<Rightarrow> nat option" where
  "ptr_of es = (case es of [] \<Rightarrow> None | e # _ \<Rightarrow> Some (ce_addr e))"

definition cache_expired :: "nat \<Rightarrow> nat \<Rightarrow> cache_entry \<Rightarrow> bool" where
  "cache_expired expire cur_time e \<longleftrightarrow>
    expire \<noteq> 0 \<and> u32_sub cur_time (local_timestamp e) > (expire * 1000) mod u32_max \<and> \<not> is_persistent e"

text \<open>The search of the cursor: what is before the entry and what starts with it.\<close>
fun split_at_cur :: "nat \<Rightarrow> cache_entry list \<Rightarrow> (cache_entry list \<times> cache_entry list) option" where
  "split_at_cur p [] = None"
| "split_at_cur p (e # es) =
    (if ce_addr e = p then Some ([], e # es)
     else case split_at_cur p es of None \<Rightarrow> None | Some (a, z) \<Rightarrow> Some (e # a, z))"

text \<open>The loop of \<^verbatim>\<open>mtlk_cache_get_next_bss\<close>: \<open>before\<close> ends with the last entry kept, \<open>es\<close> starts with the cursor's.\<close>
fun get_next_loop :: "nat \<Rightarrow> cache_entry list \<Rightarrow> cache_entry list \<Rightarrow> scan_cache \<Rightarrow> cache_entry option \<times> scan_cache" where
  "get_next_loop cur_time before [] c = (None, c\<lparr>cur_entry := None\<rparr>)"
| "get_next_loop cur_time before (e # es) c =
    (if cache_expired (cache_expire c) cur_time e
     then get_next_loop cur_time before es (c\<lparr>bss_list := before @ es, modified := True\<rparr>)
     else (Some e, c\<lparr>cur_entry := ptr_of es\<rparr>))"

definition mtlk_cache_get_next_bss :: "nat \<Rightarrow> scan_cache \<Rightarrow> cache_entry option \<times> scan_cache" where
  "mtlk_cache_get_next_bss cur_time c =
    (case Option.bind (cur_entry c) (\<lambda>p. split_at_cur p (bss_list c)) of
       None \<Rightarrow> (None, c\<lparr>cur_entry := None\<rparr>)
     | Some (before, es) \<Rightarrow> get_next_loop cur_time before es c)"

text \<open>The enumerations end when there is no next entry; \<open>clk k\<close> is the clock at the k-th call, the first argument is fuel.\<close>
fun bss_count_loop :: "nat \<Rightarrow> (nat \<Rightarrow> nat) \<Rightarrow> nat \<Rightarrow> nat \<Rightarrow> scan_cache \<Rightarrow> (nat \<times> nat \<times> scan_cache) option" where
  "bss_count_loop 0 clk n ies c = None"
| "bss_count_loop (Suc f) clk n ies c =
    (case mtlk_cache_get_next_bss (clk 0) c of
       (None, c') \<Rightarrow> Some (n, ies, c')
     | (Some e, c') \<Rightarrow> bss_count_loop f (\<lambda>k. clk (Suc k)) (u32_inc n)
         ((ies + ie_used_length (ce_bss e)) mod u32_max) c')"

definition mtlk_cache_get_bss_count :: "nat \<Rightarrow> (nat \<Rightarrow> nat) \<Rightarrow> scan_cache \<Rightarrow> (nat \<times> nat \<times> scan_cache) option" where
  "mtlk_cache_get_bss_count f clk c = bss_count_loop f clk 0 0 (mtlk_cache_rewind c)"

fun find_bss_loop :: "nat \<Rightarrow> (nat \<Rightarrow> nat) \<Rightarrow> mac_addr \<Rightarrow> scan_cache \<Rightarrow> (cache_entry option \<times> scan_cache) option" where
  "find_bss_loop 0 clk a c = None"
| "find_bss_loop (Suc f) clk a c =
    (case mtlk_cache_get_next_bss (clk 0) c of
       (None, c') \<Rightarrow> Some (None, c')
     | (Some e, c') \<Rightarrow> if bssid (ce_bss e) = a then Some (Some e, c')
         else find_bss_loop f (\<lambda>k. clk (Suc k)) a c')"

definition mtlk_cache_find_bss_by_bssid ::
  "nat \<Rightarrow> (nat \<Rightarrow> nat) \<Rightarrow> mac_addr \<Rightarrow> scan_cache \<Rightarrow> (cache_entry option \<times> scan_cache) option" where
  "mtlk_cache_find_bss_by_bssid f clk a c = find_bss_loop f clk a (mtlk_cache_rewind c)"

fun find_country_loop ::
  "nat \<Rightarrow> (nat \<Rightarrow> nat) \<Rightarrow> bool \<Rightarrow> nat \<Rightarrow> scan_cache \<Rightarrow> (byte list option \<times> scan_cache) option" where
  "find_country_loop 0 clk alloc cc c = None"
| "find_country_loop (Suc f) clk alloc cc c =
    (case mtlk_cache_get_next_bss (clk 0) c of
       (None, c') \<Rightarrow> Some (None, c')
     | (Some e, c') \<Rightarrow> if country_code (ce_bss e) = cc then Some (cache_clone_country_ie alloc (ce_bss e), c')
         else find_country_loop f (\<lambda>k. clk (Suc k)) alloc cc c')"

definition mtlk_cache_find_first_country_ie ::
  "nat \<Rightarrow> (nat \<Rightarrow> nat) \<Rightarrow> bool \<Rightarrow> nat \<Rightarrow> scan_cache \<Rightarrow> (byte list option \<times> scan_cache) option" where
  "mtlk_cache_find_first_country_ie f clk alloc cc c = find_country_loop f clk alloc cc (mtlk_cache_rewind c)"

definition mtlk_cache_remove_bss_by_bssid :: "mac_addr \<Rightarrow> scan_cache \<Rightarrow> scan_cache" where
  "mtlk_cache_remove_bss_by_bssid a c =
    (case unlink_bssid a (bss_list c) of
       None \<Rightarrow> c
     | Some (e, rest) \<Rightarrow>
         c\<lparr>bss_list := rest, modified := True,
           cur_entry := (if cur_entry c = Some (ce_addr e) then None else cur_entry c)\<rparr>)"

definition mtlk_cache_delete_current :: "scan_cache \<Rightarrow> scan_cache" where
  "mtlk_cache_delete_current c =
    (case cur_entry c of
       None \<Rightarrow> c
     | Some p \<Rightarrow>
         (case split_at_cur p (bss_list c) of
            None \<Rightarrow> c\<lparr>cur_entry := None\<rparr>
          | Some (before, es) \<Rightarrow> c\<lparr>bss_list := before @ tl es, modified := True, cur_entry := None\<rparr>))"

definition mtlk_cache_was_modified :: "scan_cache option \<Rightarrow> bool" where
  "mtlk_cache_was_modified c = (case c of None \<Rightarrow> False | Some c \<Rightarrow> modified c)"

definition mtlk_cache_clear_modified_flag :: "scan_cache option \<Rightarrow> scan_cache option" where
  "mtlk_cache_clear_modified_flag c = map_option (\<lambda>c. c\<lparr>modified := False\<rparr>) c"

fun set_persistent_loop :: "nat \<Rightarrow> mac_addr \<Rightarrow> bool \<Rightarrow> cache_entry list \<Rightarrow> cache_entry list" where
  "set_persistent_loop now a p [] = []"
| "set_persistent_loop now a p (e # es) =
    (if bssid (ce_bss e) = a then e\<lparr>local_timestamp := now, is_persistent := p\<rparr> # es
     else e # set_persistent_loop now a p es)"

definition mtlk_cache_set_persistent :: "nat \<Rightarrow> mac_addr \<Rightarrow> bool \<Rightarrow> scan_cache \<Rightarrow> scan_cache" where
  "mtlk_cache_set_persistent now a p c = c\<lparr>bss_list := set_persistent_loop now a p (bss_list c)\<rparr>"

definition mtlk_cache_get_expiration_time :: "scan_cache \<Rightarrow> nat" where
  "mtlk_cache_get_expiration_time c = cache_expire c mod u32_max"

definition mtlk_cache_set_expiration_time :: "nat \<Rightarrow> scan_cache \<Rightarrow> scan_cache" where
  "mtlk_cache_set_expiration_time t c = c\<lparr>cache_expire := t\<rparr>"

section \<open>Lists of entries\<close>

abbreviation bssids :: "cache_entry list \<Rightarrow> mac_addr list" where
  "bssids es \<equiv> map (\<lambda>e. bssid (ce_bss e)) es"

abbreviation addrs :: "cache_entry list \<Rightarrow> nat list" where
  "addrs es \<equiv> map ce_addr es"

abbreviation channels :: "cache_entry list \<Rightarrow> nat list" where
  "channels es \<equiv> map (\<lambda>e. channel (ce_bss e)) es"

lemma unlink_None: "unlink_bssid a es = None \<longleftrightarrow> a \<notin> set (bssids es)"
  by (induction es) (auto split: option.splits)

lemma unlink_Some:
  assumes "unlink_bssid a es = Some (x, r)"
  obtains pre post where "es = pre @ x # post" "r = pre @ post" "bssid (ce_bss x) = a" "a \<notin> set (bssids pre)"
  using assms
proof (induction es arbitrary: r thesis)
  case (Cons e es)
  show ?case
  proof (cases "bssid (ce_bss e) = a")
    case True
    with Cons(3) show ?thesis by (intro Cons(2) [of "[]" es]) auto
  next
    case False
    with Cons(3) obtain r' where "unlink_bssid a es = Some (x, r')" "r = e # r'"
      by (auto split: option.splits)
    then obtain pre post where "es = pre @ x # post" "r' = pre @ post" "bssid (ce_bss x) = a" "a \<notin> set (bssids pre)"
      using Cons(1) by metis
    with False \<open>r = e # r'\<close> show ?thesis by (intro Cons(2) [of "e # pre" post]) auto
  qed
qed simp

lemma insert_by_channel_split:
  obtains pre post where "es = pre @ post" "insert_by_channel s es = pre @ s # post"
proof (induction es arbitrary: thesis)
  case Nil
  then show ?case by simp
next
  case (Cons e es)
  show ?case
  proof (cases "channel (ce_bss e) \<ge> channel (ce_bss s)")
    case True
    then show ?thesis by (intro Cons(2) [of "[]" "e # es"]) auto
  next
    case False
    obtain pre post where "es = pre @ post" "insert_by_channel s es = pre @ s # post" by (rule Cons(1))
    with False show ?thesis by (intro Cons(2) [of "e # pre" post]) auto
  qed
qed

lemma set_insert_by_channel [simp]: "set (insert_by_channel s es) = insert s (set es)"
  by (induction es) auto

lemma sorted_insert_by_channel:
  "sorted (channels es) \<Longrightarrow> sorted (channels (insert_by_channel s es))"
  by (induction es) auto

lemma distinct_insert_by_channel:
  "distinct (map f (insert_by_channel s es)) \<longleftrightarrow> distinct (map f es) \<and> f s \<notin> f ` set es"
  by (induction es) auto

lemma split_at_None: "split_at_cur p es = None \<longleftrightarrow> p \<notin> set (addrs es)"
  by (induction es) (auto split: option.splits)

lemma split_at_Some:
  assumes "split_at_cur p es = Some (a, z)"
  shows "es = a @ z \<and> ptr_of z = Some p \<and> p \<notin> set (addrs a)"
  using assms
  by (induction es arbitrary: a) (auto simp: ptr_of_def split: if_splits option.splits list.splits)

lemma split_at_intro:
  assumes "p \<notin> set (addrs a)" "ptr_of z = Some p"
  shows "split_at_cur p (a @ z) = Some (a, z)"
  using assms by (induction a) (auto simp: ptr_of_def split: list.splits)

lemma set_persistent_maps:
  "channels (set_persistent_loop now a p es) = channels es" "bssids (set_persistent_loop now a p es) = bssids es"
  "addrs (set_persistent_loop now a p es) = addrs es"
  by (induction es) auto

section \<open>Invariant\<close>

text \<open>Sorted by channel, one entry per network, distinct blocks of memory, and a cursor that is in the list.\<close>
definition cache_ok :: "scan_cache \<Rightarrow> bool" where
  "cache_ok c \<longleftrightarrow> sorted (channels (bss_list c)) \<and> distinct (bssids (bss_list c)) \<and> distinct (addrs (bss_list c))
     \<and> (\<forall>p. cur_entry c = Some p \<longrightarrow> p \<in> set (addrs (bss_list c)))"

lemma cache_ok_modified [simp]: "cache_ok (c\<lparr>modified := b\<rparr>) = cache_ok c"
  by (simp add: cache_ok_def)

lemma cache_ok_no_cursor: "cache_ok c \<Longrightarrow> cache_ok (c\<lparr>cur_entry := None\<rparr>)"
  by (simp add: cache_ok_def)

lemma sorted_drop_mid: "sorted (map f (a @ x # z)) \<Longrightarrow> sorted (map f (a @ z))"
  by (simp add: sorted_append)

lemma cache_ok_drop:
  assumes "cache_ok c" "bss_list c = a @ x # z" "cur' \<noteq> Some (ce_addr x)"
    "cur' = None \<or> cur' = cur_entry c"
  shows "cache_ok (c\<lparr>bss_list := a @ z, cur_entry := cur'\<rparr>)"
  using assms sorted_drop_mid [of "\<lambda>e. channel (ce_bss e)" a x z]
  by (auto simp: cache_ok_def eq_commute [of "Some p" "cur_entry c" for p])

lemma register_ok [wave_inv]:
  assumes "cache_ok c" "\<forall>p. slot = Some p \<longrightarrow> p \<notin> set (addrs (bss_list c))"
  shows "cache_ok (snd (mtlk_cache_register_bss now slot ie b c))"
proof (cases "unlink_bssid (bssid b) (bss_list c)")
  case None
  then have "\<forall>x \<in> set (bss_list c). bssid (ce_bss x) \<noteq> bssid b" by (fastforce simp: unlink_None image_iff)
  with None show ?thesis
    using assms
    by (cases slot) (auto simp: mtlk_cache_register_bss_def cache_ok_def distinct_insert_by_channel sorted_insert_by_channel
        fill_slot_def image_iff)
next
  case (Some pr)
  then obtain x r where u: "unlink_bssid (bssid b) (bss_list c) = Some (x, r)" by (metis surj_pair)
  then obtain pre post where l: "bss_list c = pre @ x # post" "r = pre @ post" "bssid (ce_bss x) = bssid b"
    by (rule unlink_Some)
  let ?b = "if essid b = [] then b\<lparr>essid := essid (ce_bss x)\<rparr> else b"
  have "sorted (channels r)" using assms(1) l sorted_drop_mid [of "\<lambda>e. channel (ce_bss e)" pre x post] by (simp add: cache_ok_def)
  then have "sorted (channels (insert_by_channel (fill_slot now ie ?b (ce_addr x)) r))"
    by (rule sorted_insert_by_channel)
  moreover have "bssid (ce_bss (fill_slot now ie ?b (ce_addr x))) = bssid (ce_bss x)"
    "ce_addr (fill_slot now ie ?b (ce_addr x)) = ce_addr x"
    using l by (simp_all add: fill_slot_def)
  ultimately show ?thesis
    using assms(1) l u by (auto simp: mtlk_cache_register_bss_def cache_ok_def distinct_insert_by_channel Let_def)
qed

lemma rewind_ok [wave_inv]: "cache_ok c \<Longrightarrow> cache_ok (mtlk_cache_rewind c)"
  by (auto simp: mtlk_cache_rewind_def cache_ok_def split: list.splits)

lemma clear_ok [wave_inv]: "cache_ok (mtlk_cache_clear c)"
  by (simp add: mtlk_cache_clear_def cache_ok_def)

lemma remove_ok [wave_inv]:
  assumes "cache_ok c"
  shows "cache_ok (mtlk_cache_remove_bss_by_bssid a c)"
proof (cases "unlink_bssid a (bss_list c)")
  case (Some pr)
  then obtain x r where u: "unlink_bssid a (bss_list c) = Some (x, r)" by (metis surj_pair)
  then obtain pre post where "bss_list c = pre @ x # post" "r = pre @ post" by (rule unlink_Some)
  with u cache_ok_drop [OF assms, of pre x post "if cur_entry c = Some (ce_addr x) then None else cur_entry c"]
  show ?thesis by (auto simp: mtlk_cache_remove_bss_by_bssid_def cache_ok_def)
qed (use assms in \<open>simp add: mtlk_cache_remove_bss_by_bssid_def\<close>)

lemma delete_current_ok [wave_inv]:
  assumes "cache_ok c"
  shows "cache_ok (mtlk_cache_delete_current c)"
proof (cases "cur_entry c")
  case (Some p)
  then have "split_at_cur p (bss_list c) \<noteq> None" using assms by (auto simp: cache_ok_def split_at_None)
  then obtain a z where s: "split_at_cur p (bss_list c) = Some (a, z)" by (metis not_None_eq surj_pair)
  with split_at_Some [OF s] obtain x z' where "z = x # z'" "bss_list c = a @ x # z'"
    by (auto simp: ptr_of_def split: list.splits)
  with cache_ok_drop [OF assms, of a x z' None] Some s show ?thesis
    by (simp add: mtlk_cache_delete_current_def cache_ok_def)
qed (use assms in \<open>simp add: mtlk_cache_delete_current_def\<close>)

lemma set_persistent_ok [wave_inv]: "cache_ok c \<Longrightarrow> cache_ok (mtlk_cache_set_persistent now a p c)"
  unfolding cache_ok_def mtlk_cache_set_persistent_def by (simp add: set_persistent_maps)

lemma set_expiration_ok [wave_inv]: "cache_ok c \<Longrightarrow> cache_ok (mtlk_cache_set_expiration_time t c)"
  by (simp add: cache_ok_def mtlk_cache_set_expiration_time_def)

lemma cache_init_ok [wave_inv]:
  assumes "cur_entry c = None"
  shows "cache_ok (fst (snd (mtlk_cache_init expire lock temp (c, m))))"
  using assms
  by (auto simp: mtlk_cache_init_def start_object_def cache_init_steps_def cache_cleanup_steps_def step_result_def
      bwd_steps_def set_main_def cache_ok_def mtlk_cache_clear_def Let_def)

text \<open>The loop of the enumeration, as a whole: it drops the expired run at the cursor.\<close>
lemma get_next_loop_run:
  assumes "bss_list c = a @ es"
  shows "get_next_loop t a es c =
    (let dead = takeWhile (cache_expired (cache_expire c) t) es; rest = dropWhile (cache_expired (cache_expire c) t) es;
         c' = c\<lparr>bss_list := a @ rest, modified := modified c \<or> dead \<noteq> []\<rparr>
     in case rest of [] \<Rightarrow> (None, c'\<lparr>cur_entry := None\<rparr>) | e # es' \<Rightarrow> (Some e, c'\<lparr>cur_entry := ptr_of es'\<rparr>))"
  using assms by (induction t a es c rule: get_next_loop.induct) (auto simp: Let_def split: list.splits, metis dropWhile_eq_Nil_conv list.discI)

lemma get_next_cases [consumes 2, case_names ended walked]:
  assumes "cache_ok c" "mtlk_cache_get_next_bss t c = (r, c')"
  obtains (ended) "cur_entry c = None" "r = None" "c' = c"
  | (walked) a dead rest where "bss_list c = a @ dead @ rest" "ptr_of (dead @ rest) = cur_entry c" "cur_entry c \<noteq> None"
      "\<forall>e \<in> set dead. cache_expired (cache_expire c) t e"
      "bss_list c' = a @ rest" "cache_expire c' = cache_expire c" "modified c' = (modified c \<or> dead \<noteq> [])"
      "r = (case rest of [] \<Rightarrow> None | e # _ \<Rightarrow> Some e)" "cur_entry c' = ptr_of (tl rest)"
      "rest \<noteq> [] \<Longrightarrow> \<not> cache_expired (cache_expire c) t (hd rest)"
proof (cases "cur_entry c")
  case None
  then have "r = None" "c' = c" using assms(2) by (cases c; simp add: mtlk_cache_get_next_bss_def)+
  with None ended show thesis by blast
next
  case (Some p)
  then have "split_at_cur p (bss_list c) \<noteq> None" using assms by (auto simp: cache_ok_def split_at_None)
  then obtain a z where s: "split_at_cur p (bss_list c) = Some (a, z)" by (metis not_None_eq surj_pair)
  note S = split_at_Some [OF s]
  let ?P = "cache_expired (cache_expire c) t"
  define dead rest where "dead = takeWhile ?P z" and "rest = dropWhile ?P z"
  let ?c = "c\<lparr>bss_list := a @ rest, modified := modified c \<or> dead \<noteq> []\<rparr>"
  have g: "(r, c') = (case rest of [] \<Rightarrow> (None, ?c\<lparr>cur_entry := None\<rparr>) | e # es' \<Rightarrow> (Some e, ?c\<lparr>cur_entry := ptr_of es'\<rparr>))"
    using assms(2) Some s S get_next_loop_run [of c a z t] unfolding dead_def rest_def
    by (simp add: mtlk_cache_get_next_bss_def Let_def)
  have z: "z = dead @ rest" by (simp add: dead_def rest_def)
  show thesis
  proof (rule walked [of a dead rest])
    show "\<forall>e \<in> set dead. ?P e" by (auto simp: dead_def dest: set_takeWhileD)
    show "rest \<noteq> [] \<Longrightarrow> \<not> ?P (hd rest)" unfolding rest_def by (rule hd_dropWhile)
  qed (use S Some g z in \<open>auto simp: ptr_of_def split: list.splits\<close>)
qed

lemma get_next_ok [wave_inv]:
  assumes "cache_ok c"
  shows "cache_ok (snd (mtlk_cache_get_next_bss t c))"
proof -
  obtain r c' where g: "mtlk_cache_get_next_bss t c = (r, c')" by fastforce
  from assms g show ?thesis
  proof (cases rule: get_next_cases)
    case (walked a dead rest)
    have "sorted (channels (a @ rest))" using assms walked(1) by (auto simp: cache_ok_def sorted_append)
    moreover have "\<forall>p. ptr_of (tl rest) = Some p \<longrightarrow> p \<in> set (addrs (a @ rest))"
      by (cases rest) (auto simp: ptr_of_def split: list.splits)
    ultimately show ?thesis using assms walked g by (auto simp: cache_ok_def)
  qed (use g assms in simp)
qed

section \<open>Enumerations\<close>

text \<open>
  What a client of a cursor may rely on: the entries seen and the entries still to come, an advance that passes over a run of
  entries that are not to be kept and stops at the next one that is, and a reset that puts everything ahead again.
\<close>
locale bss_cursor =
  fixes reset :: "'s \<Rightarrow> 's" and advance :: "nat \<Rightarrow> 's \<Rightarrow> 'e option \<times> 's"
    and seen :: "'s \<Rightarrow> 'e list" and todo :: "'s \<Rightarrow> 'e list" and keep :: "'s \<Rightarrow> nat \<Rightarrow> 'e \<Rightarrow> bool" and ok :: "'s \<Rightarrow> bool"
  assumes reset: "ok s \<Longrightarrow> ok (reset s) \<and> seen (reset s) = [] \<and> todo (reset s) = seen s @ todo s \<and> keep (reset s) = keep s"
    and ended: "ok s \<Longrightarrow> advance t s = (None, s') \<Longrightarrow>
      ok s' \<and> seen s' = seen s \<and> todo s' = [] \<and> keep s' = keep s \<and> (\<forall>e \<in> set (todo s). \<not> keep s t e)"
    and moved: "ok s \<Longrightarrow> advance t s = (Some e, s') \<Longrightarrow>
      ok s' \<and> seen s' = seen s @ [e] \<and> keep s' = keep s \<and> keep s t e
      \<and> (\<exists>dead. todo s = dead @ e # todo s' \<and> (\<forall>d \<in> set dead. \<not> keep s t d))"

text \<open>An enumeration that ends at the first entry that satisfies \<open>stop\<close>: the entries it was given, the last one included.\<close>
fun cursor_walk ::
  "(nat \<Rightarrow> 's \<Rightarrow> 'e option \<times> 's) \<Rightarrow> ('e \<Rightarrow> bool) \<Rightarrow> nat \<Rightarrow> (nat \<Rightarrow> nat) \<Rightarrow> 's \<Rightarrow> ('e list \<times> 's) option" where
  "cursor_walk advance stop 0 clk s = None"
| "cursor_walk advance stop (Suc f) clk s =
    (case advance (clk 0) s of
       (None, s') \<Rightarrow> Some ([], s')
     | (Some e, s') \<Rightarrow> if stop e then Some ([e], s')
         else map_option (apfst (Cons e)) (cursor_walk advance stop f (\<lambda>k. clk (Suc k)) s'))"

text \<open>
  The visited entries are those that a list gives when some of its entries, not to be kept at one of the clock's readings, are
  passed over.
\<close>
definition visits :: "(nat \<Rightarrow> 'e \<Rightarrow> bool) \<Rightarrow> (nat \<Rightarrow> nat) \<Rightarrow> 'e list \<Rightarrow> 'e list \<Rightarrow> bool" where
  "visits keep clk zs vis \<longleftrightarrow> subseq vis zs \<and> (\<forall>e \<in> set vis. \<exists>k. keep (clk k) e)
     \<and> (\<forall>e \<in> set zs - set vis. \<exists>k. \<not> keep (clk k) e)"

lemma visits_step:
  assumes "visits keep (\<lambda>k. clk (Suc k)) zs vis" "keep (clk 0) e" "\<forall>d \<in> set dead. \<not> keep (clk 0) d"
  shows "visits keep clk (dead @ e # zs) (e # vis)"
proof -
  have "subseq (e # vis) (dead @ e # zs)"
    using assms(1) by (simp add: visits_def list_emb_append2)
  with assms show ?thesis unfolding visits_def by auto
qed

lemma subseq_set_subset: "subseq xs ys \<Longrightarrow> x \<in> set xs \<Longrightarrow> x \<in> set ys"
  by (metis subseq_conv_nths notin_set_nthsI)

lemma visits_const:
  assumes "visits keep (\<lambda>_. t) zs vis" "distinct zs"
  shows "vis = filter (keep t) zs"
proof -
  have v: "filter (keep t) vis = vis" "set vis = {e \<in> set zs. keep t e}" "subseq vis zs"
    using assms(1) subseq_set_subset by (auto simp: visits_def filter_id_conv)
  then have "subseq vis (filter (keep t) zs)" by (metis subseq_filter)
  moreover have "distinct vis" using v(3) assms(2) by (metis subseq_conv_nths distinct_nthsI)
  then have "length vis = length (filter (keep t) zs)"
    using assms(2) v(2) by (metis distinct_card distinct_filter set_filter)
  ultimately show ?thesis by (rule subseq_same_length)
qed

context bss_cursor
begin

lemma walk_visits:
  assumes "ok s" "length (todo s) < f"
  shows "\<exists>vis s' zs. cursor_walk advance stop f clk s = Some (vis, s') \<and> ok s' \<and> keep s' = keep s
    \<and> seen s' = seen s @ vis \<and> todo s = zs @ todo s' \<and> visits (keep s) clk zs vis
    \<and> (\<forall>e \<in> set (butlast vis). \<not> stop e) \<and> (vis \<noteq> [] \<and> stop (last vis) \<or> (\<forall>e \<in> set vis. \<not> stop e) \<and> todo s' = [])"
  using assms
proof (induction f arbitrary: s clk)
  case (Suc f)
  obtain r s1 where a: "advance (clk 0) s = (r, s1)" by fastforce
  show ?case
  proof (cases r)
    case None
    with ended [OF Suc(2)] a show ?thesis
      by (intro exI [of _ "[]"] exI [of _ s1] exI [of _ "todo s"]) (auto simp: visits_def)
  next
    case (Some e)
    with moved [OF Suc(2)] a obtain dead where m: "ok s1" "seen s1 = seen s @ [e]" "keep s1 = keep s" "keep s (clk 0) e"
      "todo s = dead @ e # todo s1" "\<forall>d \<in> set dead. \<not> keep s (clk 0) d" by metis
    have v: "visits (keep s) clk (dead @ e # zs) (e # vis)" if "visits (keep s) (\<lambda>k. clk (Suc k)) zs vis" for zs vis
      using that m(4,6) by (rule visits_step)
    show ?thesis
    proof (cases "stop e")
      case True
      have "visits (keep s) (\<lambda>k. clk (Suc k)) [] []" by (simp add: visits_def)
      from v [OF this] True a Some m show ?thesis
        by (intro exI [of _ "[e]"] exI [of _ s1] exI [of _ "dead @ [e]"]) auto
    next
      case False
      have "length (todo s1) < f" using Suc(3) m(5) by simp
      from Suc(1) [OF m(1) this, of "\<lambda>k. clk (Suc k)"] obtain vis s' zs where
        w: "cursor_walk advance stop f (\<lambda>k. clk (Suc k)) s1 = Some (vis, s')" "ok s'" "keep s' = keep s1"
          "seen s' = seen s1 @ vis" "todo s1 = zs @ todo s'" "visits (keep s1) (\<lambda>k. clk (Suc k)) zs vis"
          "\<forall>e \<in> set (butlast vis). \<not> stop e" "vis \<noteq> [] \<and> stop (last vis) \<or> (\<forall>e \<in> set vis. \<not> stop e) \<and> todo s' = []"
        by blast
      with v [of zs vis] False a Some m show ?thesis
        by (intro exI [of _ "e # vis"] exI [of _ s'] exI [of _ "dead @ e # zs"]) auto
    qed
  qed
qed simp

text \<open>A whole enumeration keeps exactly what it visits; one under a clock that stands still visits exactly what is to be kept.\<close>
lemma full_walk:
  assumes "ok s" "length (seen s @ todo s) < f"
  shows "\<exists>vis s'. cursor_walk advance (\<lambda>_. False) f clk (reset s) = Some (vis, s') \<and> ok s'
    \<and> seen s' = vis \<and> todo s' = [] \<and> visits (keep s) clk (seen s @ todo s) vis"
  using walk_visits [of "reset s" f "\<lambda>_. False" clk] reset [OF assms(1)] assms(2) by auto

text \<open>A search gives the first entry that is to be kept and that satisfies the condition, and nothing when there is none.\<close>
lemma search_walk:
  assumes "ok s" "length (seen s @ todo s) < f" "distinct (seen s @ todo s)"
  shows "\<exists>vis s'. cursor_walk advance stop f (\<lambda>_. t) (reset s) = Some (vis, s') \<and> ok s'
    \<and> (if \<exists>e \<in> set (seen s @ todo s). keep s t e \<and> stop e
       then vis \<noteq> [] \<and> find (\<lambda>e. keep s t e \<and> stop e) (seen s @ todo s) = Some (last vis) \<and> stop (last vis)
       else \<forall>e \<in> set vis. \<not> stop e)"
proof -
  from walk_visits [of "reset s" f stop "\<lambda>_. t"] reset [OF assms(1)] assms(2) obtain vis s' zs where
    w: "cursor_walk advance stop f (\<lambda>_. t) (reset s) = Some (vis, s')" "ok s'"
      "seen s @ todo s = zs @ todo s'" "visits (keep s) (\<lambda>_. t) zs vis"
      "\<forall>e \<in> set (butlast vis). \<not> stop e" "vis \<noteq> [] \<and> stop (last vis) \<or> (\<forall>e \<in> set vis. \<not> stop e) \<and> todo s' = []"
    by auto
  have vis: "vis = filter (keep s t) zs"
    using w(3,4) assms(3) by (intro visits_const) auto
  show ?thesis
  proof (cases "vis \<noteq> [] \<and> stop (last vis)")
    case True
    then have l: "last vis \<in> set zs" "keep s t (last vis)" using vis last_in_set [of vis] by auto
    have "find stop vis = Some (last vis)"
      using True w(5) by (metis append_butlast_last_id find_append_none find.simps(2))
    then have "find (\<lambda>e. keep s t e \<and> stop e) (seen s @ todo s) = Some (last vis)"
      unfolding vis w(3) by (simp add: find_filter_conv find_append_some)
    with True l w show ?thesis by auto
  next
    case False
    then have "\<forall>e \<in> set (seen s @ todo s). keep s t e \<longrightarrow> \<not> stop e" using w vis by auto
    with False w show ?thesis by auto
  qed
qed

end

section \<open>The cache is such a cursor\<close>

definition cache_seen :: "scan_cache \<Rightarrow> cache_entry list" where
  "cache_seen c = (case cur_entry c of None \<Rightarrow> bss_list c | Some p \<Rightarrow> takeWhile (\<lambda>e. ce_addr e \<noteq> p) (bss_list c))"

definition cache_todo :: "scan_cache \<Rightarrow> cache_entry list" where
  "cache_todo c = (case cur_entry c of None \<Rightarrow> [] | Some p \<Rightarrow> dropWhile (\<lambda>e. ce_addr e \<noteq> p) (bss_list c))"

definition cache_keep :: "scan_cache \<Rightarrow> nat \<Rightarrow> cache_entry \<Rightarrow> bool" where
  "cache_keep c t e = (\<not> cache_expired (cache_expire c) t e)"

lemma seen_todo [simp]: "cache_seen c @ cache_todo c = bss_list c"
  by (simp add: cache_seen_def cache_todo_def split: option.splits)

lemma cursor_split:
  assumes "cache_ok c" "bss_list c = a @ z" "ptr_of z = cur_entry c"
  shows "cache_seen c = a \<and> cache_todo c = z"
proof (cases z)
  case (Cons x z')
  then have "cur_entry c = Some (ce_addr x)" "ce_addr x \<notin> ce_addr ` set a"
    using assms by (auto simp: cache_ok_def ptr_of_def)
  then have "cur_entry c = Some (ce_addr x)" "\<forall>e \<in> set a. ce_addr e \<noteq> ce_addr x"
    by (auto simp: image_iff)
  then show ?thesis using assms(2) Cons by (simp add: cache_seen_def cache_todo_def)
qed (use assms in \<open>simp add: ptr_of_def cache_seen_def cache_todo_def flip: assms(3)\<close>)

interpretation bss_scan: bss_cursor mtlk_cache_rewind mtlk_cache_get_next_bss cache_seen cache_todo cache_keep cache_ok
proof (unfold_locales, goal_cases)
  case (1 c)
  then have r: "cache_ok (mtlk_cache_rewind c)" by (rule rewind_ok)
  have "bss_list (mtlk_cache_rewind c) = [] @ bss_list c" "ptr_of (bss_list c) = cur_entry (mtlk_cache_rewind c)"
    "cache_expire (mtlk_cache_rewind c) = cache_expire c"
    by (auto simp: mtlk_cache_rewind_def ptr_of_def split: list.splits)
  with cursor_split [OF r] r show ?case by (simp add: cache_keep_def fun_eq_iff)
next
  case (2 c t c')
  have ok: "cache_ok c'" using get_next_ok [OF 2(1), of t] 2(2) by simp
  from 2 show ?case
  proof (cases rule: get_next_cases)
    case (walked a dead rest)
    then have rest: "rest = []" by (simp split: list.splits)
    from cursor_split [OF 2(1), of a dead] cursor_split [OF ok, of a "[]"] walked rest ok show ?thesis
      by (simp add: cache_keep_def fun_eq_iff ptr_of_def)
  qed (use 2 in \<open>auto simp: cache_todo_def cache_seen_def\<close>)
next
  case (3 c t e c')
  have ok: "cache_ok c'" using get_next_ok [OF 3(1), of t] 3(2) by simp
  from 3 show ?case
  proof (cases rule: get_next_cases)
    case (walked a dead rest)
    then obtain r where rest: "rest = e # r" by (auto split: list.splits)
    from cursor_split [OF 3(1), of a "dead @ rest"] cursor_split [OF ok, of "a @ [e]" r] walked rest ok show ?thesis
      by (auto simp: cache_keep_def fun_eq_iff)
  qed simp
qed

text \<open>The three loops of the driver are walks of the cursor.\<close>
lemma find_bss_loop_walk:
  "find_bss_loop f clk a c =
    map_option (\<lambda>(vis, c'). (if vis \<noteq> [] \<and> bssid (ce_bss (last vis)) = a then Some (last vis) else None, c'))
      (cursor_walk mtlk_cache_get_next_bss (\<lambda>e. bssid (ce_bss e) = a) f clk c)"
  by (induction f clk a c rule: find_bss_loop.induct) (auto split: prod.splits option.splits simp: option.map_comp comp_def intro!: map_option_cong)

lemma find_country_loop_walk:
  "find_country_loop f clk alloc cc c =
    map_option (\<lambda>(vis, c'). (if vis \<noteq> [] \<and> country_code (ce_bss (last vis)) = cc
        then cache_clone_country_ie alloc (ce_bss (last vis)) else None, c'))
      (cursor_walk mtlk_cache_get_next_bss (\<lambda>e. country_code (ce_bss e) = cc) f clk c)"
  by (induction f clk alloc cc c rule: find_country_loop.induct)
    (auto split: prod.splits option.splits simp: option.map_comp comp_def intro!: map_option_cong)

lemma bss_count_loop_walk:
  "n < u32_max \<Longrightarrow> ies < u32_max \<Longrightarrow> bss_count_loop f clk n ies c =
    map_option (\<lambda>(vis, c'). ((n + length vis) mod u32_max, (ies + sum_list (map (\<lambda>e. ie_used_length (ce_bss e)) vis)) mod u32_max, c'))
      (cursor_walk mtlk_cache_get_next_bss (\<lambda>_. False) f clk c)"
  by (induction f clk n ies c rule: bss_count_loop.induct)
    (auto split: prod.splits option.splits simp: option.map_comp comp_def u32_inc_def mod_simps add.assoc intro!: map_option_cong)

section \<open>What the cache promises\<close>

text \<open>The abstract state is the map from networks to entries; the order, the cursor and the flag are not seen in it.\<close>
definition cache_view :: "scan_cache \<Rightarrow> mac_addr \<rightharpoonup> cache_entry" where
  "cache_view c = map_of (map (\<lambda>e. (bssid (ce_bss e), e)) (bss_list c))"

lemma view_Some:
  assumes "cache_ok c"
  shows "cache_view c a = Some e \<longleftrightarrow> e \<in> set (bss_list c) \<and> bssid (ce_bss e) = a"
proof -
  have "map fst (map (\<lambda>e. (bssid (ce_bss e), e)) (bss_list c)) = bssids (bss_list c)" by simp
  then have "distinct (map fst (map (\<lambda>e. (bssid (ce_bss e), e)) (bss_list c)))"
    using assms by (simp only: cache_ok_def)
  then show ?thesis by (auto simp: cache_view_def map_of_eq_Some_iff simp del: map_map)
qed

lemma view_None: "cache_view c a = None \<longleftrightarrow> a \<notin> set (bssids (bss_list c))"
  by (simp add: cache_view_def map_of_eq_None_iff comp_def image_image)

lemma view_eqI:
  assumes "cache_ok c" "\<And>a e. m a = Some e \<longleftrightarrow> e \<in> set (bss_list c) \<and> bssid (ce_bss e) = a"
  shows "cache_view c = m"
proof
  fix a show "cache_view c a = m a"
    using view_Some [OF assms(1), of a] assms(2) [of a] by (cases "cache_view c a"; cases "m a") auto
qed

datatype cache_op =
    Register nat "nat option" bool bss_data | Remove mac_addr | Set_persistent nat mac_addr bool
  | Get_next nat | Rewind | Delete_current | Clear | Set_expiration nat

fun cache_step :: "cache_op \<Rightarrow> scan_cache \<Rightarrow> scan_cache" where
  "cache_step (Register now slot ie b) c = snd (mtlk_cache_register_bss now slot ie b c)"
| "cache_step (Remove a) c = mtlk_cache_remove_bss_by_bssid a c"
| "cache_step (Set_persistent now a p) c = mtlk_cache_set_persistent now a p c"
| "cache_step (Get_next t) c = snd (mtlk_cache_get_next_bss t c)"
| "cache_step Rewind c = mtlk_cache_rewind c"
| "cache_step Delete_current c = mtlk_cache_delete_current c"
| "cache_step Clear c = mtlk_cache_clear c"
| "cache_step (Set_expiration t) c = mtlk_cache_set_expiration_time t c"

text \<open>An allocation does not return a block that is in use.\<close>
fun op_fresh :: "cache_op \<Rightarrow> scan_cache \<Rightarrow> bool" where
  "op_fresh (Register now (Some p) ie b) c = (p \<notin> set (addrs (bss_list c)))"
| "op_fresh _ c = True"

text \<open>The description that is stored: a network that hides its name keeps the name an active scan found.\<close>
definition merged :: "bss_data \<Rightarrow> cache_entry option \<Rightarrow> bss_data" where
  "merged b old = (case old of None \<Rightarrow> b
     | Some e \<Rightarrow> if essid b = [] then b\<lparr>essid := essid (ce_bss e)\<rparr> else b)"

fun cache_spec :: "cache_op \<Rightarrow> nat \<Rightarrow> (mac_addr \<rightharpoonup> cache_entry) \<Rightarrow> (mac_addr \<rightharpoonup> cache_entry) \<Rightarrow> bool" where
  "cache_spec (Register now slot ie b) x m m' =
    (case (m (bssid b), slot) of
       (None, None) \<Rightarrow> m' = m
     | (None, Some p) \<Rightarrow> m' = m(bssid b \<mapsto> fill_slot now ie b p)
     | (Some e, _) \<Rightarrow> m' = m(bssid b \<mapsto> fill_slot now ie (merged b (Some e)) (ce_addr e)))"
| "cache_spec (Remove a) x m m' = (m' = m(a := None))"
| "cache_spec (Set_persistent now a p) x m m' =
    (m' = m(a := map_option (\<lambda>e. e\<lparr>local_timestamp := now, is_persistent := p\<rparr>) (m a)))"
| "cache_spec (Get_next t) x m m' = (m' \<subseteq>\<^sub>m m \<and> (\<forall>a e. m a = Some e \<longrightarrow> m' a = None \<longrightarrow> cache_expired x t e))"
| "cache_spec Delete_current x m m' = (m' = m \<or> (\<exists>a. m' = m(a := None)))"
| "cache_spec Clear x m m' = (m' = Map.empty)"
| "cache_spec Rewind x m m' = (m' = m)"
| "cache_spec (Set_expiration t) x m m' = (m' = m)"

lemma cache_step_ok: "cache_ok c \<Longrightarrow> op_fresh op c \<Longrightarrow> cache_ok (cache_step op c)"
  by (cases "(op, c)" rule: op_fresh.cases) (auto intro!: wave_inv)

lemma register_spec:
  assumes "cache_ok c" "op_fresh (Register now slot ie b) c"
  shows "cache_spec (Register now slot ie b) x (cache_view c) (cache_view (cache_step (Register now slot ie b) c))"
proof (cases "unlink_bssid (bssid b) (bss_list c)")
  case None
  then have n: "cache_view c (bssid b) = None" by (simp add: unlink_None view_None)
  show ?thesis
  proof (cases slot)
    case (Some p)
    let ?e = "fill_slot now ie b p"
    have "bssid (ce_bss ?e) = bssid b" by (simp add: fill_slot_def)
    moreover have "bss_list (cache_step (Register now slot ie b) c) = insert_by_channel ?e (bss_list c)"
      using None Some by (simp add: mtlk_cache_register_bss_def)
    ultimately have "cache_view (cache_step (Register now slot ie b) c) = (cache_view c)(bssid b \<mapsto> ?e)"
      using n view_Some [OF assms(1)] by (intro view_eqI cache_step_ok assms) (auto simp: view_None image_iff)
    with n Some show ?thesis by simp
  qed (use None n in \<open>simp add: mtlk_cache_register_bss_def\<close>)
next
  case (Some pr)
  then obtain x r where u: "unlink_bssid (bssid b) (bss_list c) = Some (x, r)" by (metis surj_pair)
  then obtain pre post where l: "bss_list c = pre @ x # post" "r = pre @ post" "bssid (ce_bss x) = bssid b"
    by (rule unlink_Some)
  have v: "cache_view c (bssid b) = Some x" using l by (simp add: view_Some [OF assms(1)])
  let ?e = "fill_slot now ie (merged b (Some x)) (ce_addr x)"
  have "bssid (ce_bss ?e) = bssid b" by (simp add: fill_slot_def merged_def)
  moreover have "bss_list (cache_step (Register now slot ie b) c) = insert_by_channel ?e r"
    using u by (simp add: mtlk_cache_register_bss_def merged_def Let_def)
  moreover have "e \<in> set r \<longleftrightarrow> e \<in> set (bss_list c) \<and> bssid (ce_bss e) \<noteq> bssid b" for e
    using assms(1) l by (auto simp: cache_ok_def image_iff)
  ultimately have "cache_view (cache_step (Register now slot ie b) c) = (cache_view c)(bssid b \<mapsto> ?e)"
    using view_Some [OF assms(1)] by (intro view_eqI cache_step_ok assms) auto
  with v show ?thesis by simp
qed

lemma unlinked_view:
  assumes "cache_ok c" "cache_ok c'" "bss_list c = pre @ x # post" "bss_list c' = pre @ post"
  shows "cache_view c' = (cache_view c)(bssid (ce_bss x) := None)"
  using assms(1,3,4) view_Some [OF assms(1)]
  by (intro view_eqI assms(2)) (auto simp: cache_ok_def image_iff)

lemma remove_spec:
  assumes "cache_ok c"
  shows "cache_spec (Remove a) x (cache_view c) (cache_view (cache_step (Remove a) c))"
proof (cases "unlink_bssid a (bss_list c)")
  case None
  then have "cache_view c a = None" by (simp add: unlink_None view_None)
  with None show ?thesis by (simp add: mtlk_cache_remove_bss_by_bssid_def fun_upd_idem)
next
  case (Some pr)
  then obtain e r where u: "unlink_bssid a (bss_list c) = Some (e, r)" by (metis surj_pair)
  then obtain pre post where l: "bss_list c = pre @ e # post" "r = pre @ post" "bssid (ce_bss e) = a"
    by (rule unlink_Some)
  have "bss_list (cache_step (Remove a) c) = pre @ post" using u l by (simp add: mtlk_cache_remove_bss_by_bssid_def)
  from unlinked_view [OF assms cache_step_ok [OF assms] l(1) this] l(3) show ?thesis by simp
qed

lemma persistent_spec:
  assumes "cache_ok c"
  shows "cache_spec (Set_persistent now a p) x (cache_view c) (cache_view (cache_step (Set_persistent now a p) c))"
proof -
  have "map_of (map (\<lambda>e. (bssid (ce_bss e), e)) (set_persistent_loop now a p es)) =
      (let m = map_of (map (\<lambda>e. (bssid (ce_bss e), e)) es)
       in m(a := map_option (\<lambda>e. e\<lparr>local_timestamp := now, is_persistent := p\<rparr>) (m a)))" for es
    by (induction es) (auto simp: Let_def fun_eq_iff)
  then show ?thesis by (simp add: cache_view_def mtlk_cache_set_persistent_def Let_def)
qed

lemma get_next_spec:
  assumes "cache_ok c"
  shows "cache_spec (Get_next t) (cache_expire c) (cache_view c) (cache_view (cache_step (Get_next t) c))"
proof -
  obtain r c' where g: "mtlk_cache_get_next_bss t c = (r, c')" by fastforce
  have ok: "cache_ok c'" using get_next_ok [OF assms, of t] g by simp
  from assms g show ?thesis
  proof (cases rule: get_next_cases)
    case (walked a dead rest)
    note v = view_Some [OF assms] view_Some [OF ok]
    have "cache_view c' \<subseteq>\<^sub>m cache_view c"
    proof (unfold map_le_def, rule ballI)
      fix b assume "b \<in> dom (cache_view c')"
      then obtain e where e: "cache_view c' b = Some e" by blast
      then have "e \<in> set (bss_list c)" "bssid (ce_bss e) = b" using v(2) walked(1,5) by auto
      then have "cache_view c b = Some e" using v(1) by blast
      with e show "cache_view c' b = cache_view c b" by simp
    qed
    moreover have "cache_expired (cache_expire c) t e" if "cache_view c b = Some e" "cache_view c' b = None" for b e
    proof -
      have "e \<in> set (a @ dead @ rest)" "bssid (ce_bss e) = b" using that(1) v(1) walked(1) by auto
      moreover have "e \<notin> set (a @ rest)" using that(2) \<open>bssid (ce_bss e) = b\<close> v(2) [of b e] walked(5) by auto
      ultimately show ?thesis using walked(4) by auto
    qed
    ultimately show ?thesis using g by simp
  qed (use g in auto)
qed

lemma delete_current_spec:
  assumes "cache_ok c"
  shows "cache_spec Delete_current x (cache_view c) (cache_view (cache_step Delete_current c))"
proof (cases "cur_entry c")
  case (Some p)
  then have "split_at_cur p (bss_list c) \<noteq> None" using assms by (auto simp: cache_ok_def split_at_None)
  then obtain a z where s: "split_at_cur p (bss_list c) = Some (a, z)" by (metis not_None_eq surj_pair)
  with split_at_Some [OF s] obtain y z' where z: "z = y # z'" "bss_list c = a @ y # z'"
    by (auto simp: ptr_of_def split: list.splits)
  have "bss_list (cache_step Delete_current c) = a @ z'" using Some s z by (simp add: mtlk_cache_delete_current_def)
  from unlinked_view [OF assms cache_step_ok [OF assms] z(2) this] show ?thesis by auto
qed (simp add: mtlk_cache_delete_current_def)

text \<open>
  C37: Every operation of the cache keeps it sorted by channel, with one entry for each network and with its cursor in
  the list, so that the cursor never points to freed memory; and it does to the map from networks to entries what
  its specification says: a registration stores the new description in the network's entry, under the name an active scan had
  found when the new description has none, and makes a new entry for an unknown network unless memory runs out; an enumeration
  step removes only entries that are past their time; no other operation touches another network.
\<close>
theorem cache_refines_map:
  assumes "cache_ok c" "op_fresh op c"
  shows "cache_ok (cache_step op c) \<and> cache_spec op (cache_expire c) (cache_view c) (cache_view (cache_step op c))"
proof -
  have "cache_spec op (cache_expire c) (cache_view c) (cache_view (cache_step op c))"
  proof (cases op)
    case Register
    with assms register_spec show ?thesis by simp
  next
    case Rewind
    then show ?thesis by (simp add: cache_view_def mtlk_cache_rewind_def split: list.splits)
  qed (use assms in \<open>simp_all add: remove_spec persistent_spec get_next_spec delete_current_spec
         del: cache_step.simps(2,3,4,6) cache_spec.simps(2,3,4,5),
       simp_all add: cache_view_def mtlk_cache_clear_def mtlk_cache_set_expiration_time_def\<close>)
  with cache_step_ok [OF assms] show ?thesis by simp
qed

text \<open>A scan that finds a hidden network and a named one on a lower channel, and finds the hidden one again.\<close>
definition ex_bss :: "nat \<Rightarrow> nat \<Rightarrow> string \<Rightarrow> bss_data" where
  "ex_bss a ch name = \<lparr>beacon_timestamp = 0, received_timestamp = 0, bssid = [0, 0, 0, 0, 0, of_nat a], bss_type = 0,
     channel = ch, secondary_channel_offset = 0, max_rssi = 0, all_rssi = [0, 0, 0], noise = 0, capability = 0,
     beacon_interval = 100, essid = name, info_elements = [], ie_used_length = 20, rsn_offs = 0, wpa_offs = 0,
     wps_offs = 0, country_code = 0, country_ie = None, is_2_4 = True, is_ht = True, basic_rate_set = 0,
     operational_rate_set = 0, spectrum = 0, upper_lower = 0, power = 0, forty_mhz_intolerant = False\<rparr>"

definition ex_cache :: scan_cache where
  "ex_cache = fold cache_step [Register 10 (Some 1) True (ex_bss 1 11 ''net''), Register 20 (Some 2) True (ex_bss 2 6 ''b'')]
     (mtlk_cache_set_expiration_time 60 cache_zero)"

lemma ex_cache_ok: "cache_ok ex_cache"
  by (simp add: ex_cache_def cache_zero_def mtlk_cache_set_expiration_time_def mtlk_cache_register_bss_def fill_slot_def
      cache_ok_def ex_bss_def)

theorem cache_refines_map_witness:
  "cache_ok (cache_step (Register 30 None True (ex_bss 1 3 [])) ex_cache)"
  using cache_refines_map [OF ex_cache_ok, of "Register 30 None True (ex_bss 1 3 [])"] by simp

text \<open>
  C38: Counting the networks ends within one call more than the cache has entries, and is also what removes the old ones: the
  entries counted are those still in the cache afterwards, in the same order; every entry that left it was past its time
  and not persistent at one of the clock's readings, every entry that stayed was not so at one; the storage is the sum
  of the lengths of the information elements that stayed.
\<close>
theorem cache_count_purges:
  assumes "cache_ok c" "length (bss_list c) < f"
  shows "\<exists>c'. mtlk_cache_get_bss_count f clk c =
      Some (length (bss_list c') mod u32_max, sum_list (map (\<lambda>e. ie_used_length (ce_bss e)) (bss_list c')) mod u32_max, c')
    \<and> cache_ok c' \<and> cur_entry c' = None \<and> subseq (bss_list c') (bss_list c)
    \<and> (\<forall>e \<in> set (bss_list c) - set (bss_list c'). \<exists>k. cache_expired (cache_expire c) (clk k) e)
    \<and> (\<forall>e \<in> set (bss_list c'). \<exists>k. \<not> cache_expired (cache_expire c) (clk k) e)"
proof -
  obtain vis c' where w: "cursor_walk mtlk_cache_get_next_bss (\<lambda>_. False) f clk (mtlk_cache_rewind c) = Some (vis, c')"
    "cache_ok c'" "cache_seen c' = vis" "cache_todo c' = []" "visits (cache_keep c) clk (bss_list c) vis"
    using bss_scan.full_walk [OF assms(1)] assms(2) by (metis seen_todo)
  have "cur_entry c' = None"
    using w(2,4) by (auto simp: cache_todo_def cache_ok_def dropWhile_eq_Nil_conv split: option.splits)
  moreover have "bss_list c' = vis" using w(3,4) seen_todo [of c'] by simp
  ultimately show ?thesis
    using w by (auto simp: mtlk_cache_get_bss_count_def bss_count_loop_walk visits_def cache_keep_def)
qed

text \<open>
  C39: Looking a network up through an enumeration with expiry gives what a search of the list alone would give among the
  entries that are still valid; the cursor and the old entries it purges on the way do not change the answer.
\<close>
theorem cache_find_equals_search:
  assumes "cache_ok c" "length (bss_list c) < f"
  shows "\<exists>c'. mtlk_cache_find_bss_by_bssid f (\<lambda>_. t) a c =
    Some (find (\<lambda>e. \<not> cache_expired (cache_expire c) t e \<and> bssid (ce_bss e) = a) (bss_list c), c') \<and> cache_ok c'"
proof -
  have d: "distinct (cache_seen c @ cache_todo c)" "length (cache_seen c @ cache_todo c) < f"
    using assms unfolding seen_todo by (auto simp: cache_ok_def distinct_map)
  let ?k = "\<lambda>e. \<not> cache_expired (cache_expire c) t e \<and> bssid (ce_bss e) = a"
  obtain vis c' where w:
    "cursor_walk mtlk_cache_get_next_bss (\<lambda>e. bssid (ce_bss e) = a) f (\<lambda>_. t) (mtlk_cache_rewind c) = Some (vis, c')"
    "cache_ok c'"
    "if \<exists>e \<in> set (bss_list c). ?k e then vis \<noteq> [] \<and> find ?k (bss_list c) = Some (last vis) \<and> bssid (ce_bss (last vis)) = a
     else \<forall>e \<in> set vis. bssid (ce_bss e) \<noteq> a"
    using bss_scan.search_walk [OF assms(1) d(2,1), of "\<lambda>e. bssid (ce_bss e) = a" t]
    unfolding seen_todo cache_keep_def by blast
  have "(if vis \<noteq> [] \<and> bssid (ce_bss (last vis)) = a then Some (last vis) else None) = find ?k (bss_list c)"
  proof (cases "\<exists>e \<in> set (bss_list c). ?k e")
    case False
    then have "find ?k (bss_list c) = None" by (auto simp: find_None_iff)
    moreover have "vis = [] \<or> bssid (ce_bss (last vis)) \<noteq> a"
      using False w(3) last_in_set [of vis] by (simp only: if_False) blast
    ultimately show ?thesis by presburger
  qed (use w(3) in presburger)
  with w(1,2) show ?thesis
    by (simp add: mtlk_cache_find_bss_by_bssid_def find_bss_loop_walk del: find.simps)
qed

theorem cache_count_purges_witness:
  "\<exists>c'. mtlk_cache_get_bss_count 3 (\<lambda>_. 100) ex_cache =
    Some (length (bss_list c') mod u32_max, sum_list (map (\<lambda>e. ie_used_length (ce_bss e)) (bss_list c')) mod u32_max, c')"
proof -
  have "length (bss_list ex_cache) < 3"
    by (simp add: ex_cache_def cache_zero_def mtlk_cache_set_expiration_time_def mtlk_cache_register_bss_def fill_slot_def
        ex_bss_def)
  from cache_count_purges [OF ex_cache_ok this, of "\<lambda>_. 100"] show ?thesis by blast
qed

theorem cache_find_equals_search_witness:
  "\<exists>c'. mtlk_cache_find_bss_by_bssid 3 (\<lambda>_. 100) [0, 0, 0, 0, 0, 1] ex_cache =
    Some (find (\<lambda>e. \<not> cache_expired (cache_expire ex_cache) 100 e \<and> bssid (ce_bss e) = [0, 0, 0, 0, 0, 1]) (bss_list ex_cache), c')"
proof -
  have "length (bss_list ex_cache) < 3"
    by (simp add: ex_cache_def cache_zero_def mtlk_cache_set_expiration_time_def mtlk_cache_register_bss_def fill_slot_def
        ex_bss_def)
  from cache_find_equals_search [OF ex_cache_ok this] show ?thesis by blast
qed

text \<open>
  A network whose entry is persistent, the one a station is connected to, loses that mark as soon as it is heard again, and
  is removed by the next enumeration after its time like any other.
\<close>
lemma cache_persistence_lost:
  assumes "cache_ok c" "cache_view c (bssid b) = Some e" "is_persistent e"
  shows "\<exists>e'. cache_view (snd (mtlk_cache_register_bss now slot ie b c)) (bssid b) = Some e' \<and> \<not> is_persistent e'"
proof -
  have "op_fresh (Register now None ie b) c" by simp
  from register_spec [OF assms(1) this, of 0] assms(2)
  have "\<exists>e'. cache_view (cache_step (Register now None ie b) c) (bssid b) = Some e' \<and> \<not> is_persistent e'"
    by (simp add: fill_slot_def)
  moreover have "mtlk_cache_register_bss now slot ie b c = mtlk_cache_register_bss now None ie b c"
    using assms(2) view_None [of c "bssid b"] unlink_None [of "bssid b" "bss_list c"]
    by (auto simp: mtlk_cache_register_bss_def split: option.splits)
  ultimately show ?thesis by simp
qed

theorem cache_persistence_lost_witness:
  "\<exists>e'. cache_view (snd (mtlk_cache_register_bss 50 None True (ex_bss 1 11 ''net'')
      (mtlk_cache_set_persistent 40 [0, 0, 0, 0, 0, 1] True ex_cache))) [0, 0, 0, 0, 0, 1] = Some e' \<and> \<not> is_persistent e'"
proof -
  let ?c = "mtlk_cache_set_persistent 40 [0, 0, 0, 0, 0, 1] True ex_cache"
  have ok: "cache_ok ?c" by (rule set_persistent_ok [OF ex_cache_ok])
  have b: "bssid (ex_bss 1 11 ''net'') = [0, 0, 0, 0, 0, 1]" by (simp add: ex_bss_def)
  obtain e where "cache_view ?c (bssid (ex_bss 1 11 ''net'')) = Some e" "is_persistent e"
    by (auto simp: ex_cache_def cache_zero_def mtlk_cache_set_expiration_time_def mtlk_cache_register_bss_def fill_slot_def
        ex_bss_def cache_view_def mtlk_cache_set_persistent_def)
  from cache_persistence_lost [OF ok this, of 50 None True] show ?thesis unfolding b .
qed

end
