(* ===== verification/Country.thy ===== *)
theory Country
  imports Wave_Prelude "HOL-Library.Char_ord"
begin

text \<open>
  Country codes, \<^verbatim>\<open>driver/rflib/shared/mtlk_channels.c\<close>: the table of country names and regulatory domains whose index is the
  code kept in the EEPROM, and the conversions. A country name in a received frame is memory that may end after any byte, so
  the comparison with it says when it reads outside.
\<close>

section \<open>The table\<close>

definition MIB_REG_DOMAIN_FCC :: nat where "MIB_REG_DOMAIN_FCC = 0x10"
definition MIB_REG_DOMAIN_DOC :: nat where "MIB_REG_DOMAIN_DOC = 0x20"
definition MIB_REG_DOMAIN_ETSI :: nat where "MIB_REG_DOMAIN_ETSI = 0x30"
definition MIB_REG_DOMAIN_FRANCE :: nat where "MIB_REG_DOMAIN_FRANCE = 0x32"
definition MIB_REG_DOMAIN_UAE :: nat where "MIB_REG_DOMAIN_UAE = 0x33"
definition MIB_REG_DOMAIN_GERMANY :: nat where "MIB_REG_DOMAIN_GERMANY = 0x34"
definition MIB_REG_DOMAIN_MKK :: nat where "MIB_REG_DOMAIN_MKK = 0x40"
definition MIB_REG_DOMAIN_APAC :: nat where "MIB_REG_DOMAIN_APAC = 0x50"

lemmas reg_domains = MIB_REG_DOMAIN_FCC_def MIB_REG_DOMAIN_DOC_def MIB_REG_DOMAIN_ETSI_def MIB_REG_DOMAIN_FRANCE_def MIB_REG_DOMAIN_UAE_def MIB_REG_DOMAIN_GERMANY_def MIB_REG_DOMAIN_MKK_def MIB_REG_DOMAIN_APAC_def

definition country_reg_table :: "(string \<times> nat) list" where
  "country_reg_table =
    [(''??'', 0), (''AF'', MIB_REG_DOMAIN_ETSI), (''AX'', MIB_REG_DOMAIN_ETSI),
     (''AL'', MIB_REG_DOMAIN_ETSI), (''DZ'', MIB_REG_DOMAIN_ETSI), (''AS'', MIB_REG_DOMAIN_ETSI),
     (''AD'', MIB_REG_DOMAIN_ETSI), (''AO'', MIB_REG_DOMAIN_ETSI), (''AI'', MIB_REG_DOMAIN_FCC),
     (''AQ'', MIB_REG_DOMAIN_ETSI), (''AG'', MIB_REG_DOMAIN_FCC), (''AR'', MIB_REG_DOMAIN_FCC),
     (''AM'', MIB_REG_DOMAIN_ETSI), (''AW'', MIB_REG_DOMAIN_FCC), (''AU'', MIB_REG_DOMAIN_APAC),
     (''AT'', MIB_REG_DOMAIN_ETSI), (''AZ'', MIB_REG_DOMAIN_ETSI), (''BS'', MIB_REG_DOMAIN_FCC),
     (''BH'', MIB_REG_DOMAIN_ETSI), (''BD'', MIB_REG_DOMAIN_MKK), (''BB'', MIB_REG_DOMAIN_FCC),
     (''BY'', MIB_REG_DOMAIN_ETSI), (''BE'', MIB_REG_DOMAIN_ETSI), (''BZ'', MIB_REG_DOMAIN_FCC),
     (''BJ'', MIB_REG_DOMAIN_ETSI), (''BM'', MIB_REG_DOMAIN_FCC), (''BT'', MIB_REG_DOMAIN_MKK),
     (''BO'', MIB_REG_DOMAIN_FCC), (''BA'', MIB_REG_DOMAIN_ETSI), (''BW'', MIB_REG_DOMAIN_MKK),
     (''BV'', MIB_REG_DOMAIN_MKK), (''BR'', MIB_REG_DOMAIN_FCC), (''IO'', MIB_REG_DOMAIN_MKK),
     (''BN'', MIB_REG_DOMAIN_MKK), (''BG'', MIB_REG_DOMAIN_ETSI), (''BF'', MIB_REG_DOMAIN_MKK),
     (''BI'', MIB_REG_DOMAIN_ETSI), (''KH'', MIB_REG_DOMAIN_ETSI), (''CM'', MIB_REG_DOMAIN_ETSI),
     (''CA'', MIB_REG_DOMAIN_DOC), (''CV'', MIB_REG_DOMAIN_MKK), (''KY'', MIB_REG_DOMAIN_FCC),
     (''CF'', MIB_REG_DOMAIN_ETSI), (''TD'', MIB_REG_DOMAIN_ETSI), (''CL'', MIB_REG_DOMAIN_FCC),
     (''CN'', MIB_REG_DOMAIN_MKK), (''CX'', MIB_REG_DOMAIN_MKK), (''CC'', MIB_REG_DOMAIN_MKK),
     (''CO'', MIB_REG_DOMAIN_FCC), (''KM'', MIB_REG_DOMAIN_ETSI), (''CG'', MIB_REG_DOMAIN_ETSI),
     (''CD'', MIB_REG_DOMAIN_MKK), (''CK'', MIB_REG_DOMAIN_MKK), (''CR'', MIB_REG_DOMAIN_FCC),
     (''CI'', MIB_REG_DOMAIN_MKK), (''HR'', MIB_REG_DOMAIN_ETSI), (''CU'', MIB_REG_DOMAIN_FCC),
     (''CY'', MIB_REG_DOMAIN_ETSI), (''CZ'', MIB_REG_DOMAIN_ETSI), (''DK'', MIB_REG_DOMAIN_ETSI),
     (''DJ'', MIB_REG_DOMAIN_MKK), (''DM'', MIB_REG_DOMAIN_FCC), (''DO'', MIB_REG_DOMAIN_FCC),
     (''EC'', MIB_REG_DOMAIN_FCC), (''EG'', MIB_REG_DOMAIN_ETSI), (''??'', 0),
     (''??'', 0), (''SV'', MIB_REG_DOMAIN_FCC), (''GQ'', MIB_REG_DOMAIN_ETSI),
     (''ER'', MIB_REG_DOMAIN_ETSI), (''EE'', MIB_REG_DOMAIN_ETSI), (''ET'', MIB_REG_DOMAIN_ETSI),
     (''FK'', MIB_REG_DOMAIN_FCC), (''FO'', MIB_REG_DOMAIN_ETSI), (''FJ'', MIB_REG_DOMAIN_MKK),
     (''FI'', MIB_REG_DOMAIN_ETSI), (''FR'', MIB_REG_DOMAIN_FRANCE), (''GF'', MIB_REG_DOMAIN_ETSI),
     (''PF'', MIB_REG_DOMAIN_ETSI), (''TF'', MIB_REG_DOMAIN_MKK), (''GA'', MIB_REG_DOMAIN_ETSI),
     (''GM'', MIB_REG_DOMAIN_ETSI), (''GE'', MIB_REG_DOMAIN_ETSI), (''DE'', MIB_REG_DOMAIN_GERMANY),
     (''GH'', MIB_REG_DOMAIN_MKK), (''GI'', MIB_REG_DOMAIN_ETSI), (''GR'', MIB_REG_DOMAIN_ETSI),
     (''GL'', MIB_REG_DOMAIN_FCC), (''GD'', MIB_REG_DOMAIN_FCC), (''GP'', MIB_REG_DOMAIN_ETSI),
     (''GU'', MIB_REG_DOMAIN_MKK), (''GT'', MIB_REG_DOMAIN_FCC), (''GG'', MIB_REG_DOMAIN_ETSI),
     (''GN'', MIB_REG_DOMAIN_ETSI), (''GW'', MIB_REG_DOMAIN_ETSI), (''GY'', MIB_REG_DOMAIN_FCC),
     (''HT'', MIB_REG_DOMAIN_FCC), (''HM'', MIB_REG_DOMAIN_MKK), (''VA'', MIB_REG_DOMAIN_ETSI),
     (''HN'', MIB_REG_DOMAIN_FCC), (''HK'', MIB_REG_DOMAIN_APAC), (''HU'', MIB_REG_DOMAIN_ETSI),
     (''IS'', MIB_REG_DOMAIN_ETSI), (''IN'', MIB_REG_DOMAIN_APAC), (''ID'', MIB_REG_DOMAIN_APAC),
     (''IR'', MIB_REG_DOMAIN_ETSI), (''IQ'', MIB_REG_DOMAIN_ETSI), (''IE'', MIB_REG_DOMAIN_ETSI),
     (''IM'', MIB_REG_DOMAIN_ETSI), (''IL'', MIB_REG_DOMAIN_ETSI), (''IT'', MIB_REG_DOMAIN_ETSI),
     (''JM'', MIB_REG_DOMAIN_FCC), (''JP'', MIB_REG_DOMAIN_MKK), (''JE'', MIB_REG_DOMAIN_ETSI),
     (''JO'', MIB_REG_DOMAIN_ETSI), (''KZ'', MIB_REG_DOMAIN_ETSI), (''KE'', MIB_REG_DOMAIN_ETSI),
     (''KI'', MIB_REG_DOMAIN_ETSI), (''KP'', MIB_REG_DOMAIN_MKK), (''KR'', MIB_REG_DOMAIN_MKK),
     (''KW'', MIB_REG_DOMAIN_ETSI), (''KG'', MIB_REG_DOMAIN_ETSI), (''LA'', MIB_REG_DOMAIN_MKK),
     (''LV'', MIB_REG_DOMAIN_ETSI), (''LB'', MIB_REG_DOMAIN_ETSI), (''LS'', MIB_REG_DOMAIN_ETSI),
     (''LR'', MIB_REG_DOMAIN_ETSI), (''LY'', MIB_REG_DOMAIN_ETSI), (''LI'', MIB_REG_DOMAIN_ETSI),
     (''LT'', MIB_REG_DOMAIN_ETSI), (''LU'', MIB_REG_DOMAIN_ETSI), (''MO'', MIB_REG_DOMAIN_ETSI),
     (''MK'', MIB_REG_DOMAIN_ETSI), (''MG'', MIB_REG_DOMAIN_ETSI), (''MW'', MIB_REG_DOMAIN_ETSI),
     (''MY'', MIB_REG_DOMAIN_APAC), (''MV'', MIB_REG_DOMAIN_MKK), (''ML'', MIB_REG_DOMAIN_ETSI),
     (''MT'', MIB_REG_DOMAIN_ETSI), (''MH'', MIB_REG_DOMAIN_MKK), (''MQ'', MIB_REG_DOMAIN_ETSI),
     (''MR'', MIB_REG_DOMAIN_ETSI), (''MU'', MIB_REG_DOMAIN_ETSI), (''YT'', MIB_REG_DOMAIN_ETSI),
     (''MX'', MIB_REG_DOMAIN_FCC), (''FM'', MIB_REG_DOMAIN_MKK), (''MD'', MIB_REG_DOMAIN_ETSI),
     (''MC'', MIB_REG_DOMAIN_ETSI), (''MN'', MIB_REG_DOMAIN_ETSI), (''ME'', MIB_REG_DOMAIN_ETSI),
     (''MS'', MIB_REG_DOMAIN_ETSI), (''MA'', MIB_REG_DOMAIN_ETSI), (''MZ'', MIB_REG_DOMAIN_ETSI),
     (''MM'', MIB_REG_DOMAIN_ETSI), (''NA'', MIB_REG_DOMAIN_ETSI), (''NR'', MIB_REG_DOMAIN_MKK),
     (''NP'', MIB_REG_DOMAIN_MKK), (''NL'', MIB_REG_DOMAIN_ETSI), (''AN'', MIB_REG_DOMAIN_FCC),
     (''NC'', MIB_REG_DOMAIN_MKK), (''NZ'', MIB_REG_DOMAIN_MKK), (''NI'', MIB_REG_DOMAIN_FCC),
     (''NE'', MIB_REG_DOMAIN_ETSI), (''NG'', MIB_REG_DOMAIN_ETSI), (''NU'', MIB_REG_DOMAIN_MKK),
     (''NF'', MIB_REG_DOMAIN_MKK), (''MP'', MIB_REG_DOMAIN_MKK), (''NO'', MIB_REG_DOMAIN_ETSI),
     (''OM'', MIB_REG_DOMAIN_ETSI), (''PK'', MIB_REG_DOMAIN_ETSI), (''PW'', MIB_REG_DOMAIN_MKK),
     (''PA'', MIB_REG_DOMAIN_FCC), (''PG'', MIB_REG_DOMAIN_ETSI), (''PY'', MIB_REG_DOMAIN_FCC),
     (''PE'', MIB_REG_DOMAIN_FCC), (''PH'', MIB_REG_DOMAIN_APAC), (''PN'', MIB_REG_DOMAIN_MKK),
     (''PL'', MIB_REG_DOMAIN_ETSI), (''PT'', MIB_REG_DOMAIN_ETSI), (''PR'', MIB_REG_DOMAIN_FCC),
     (''QA'', MIB_REG_DOMAIN_ETSI), (''RE'', MIB_REG_DOMAIN_ETSI), (''RO'', MIB_REG_DOMAIN_ETSI),
     (''RU'', MIB_REG_DOMAIN_ETSI), (''RW'', MIB_REG_DOMAIN_ETSI), (''BL'', MIB_REG_DOMAIN_FCC),
     (''SH'', MIB_REG_DOMAIN_ETSI), (''KN'', MIB_REG_DOMAIN_FCC), (''LC'', MIB_REG_DOMAIN_FCC),
     (''MF'', MIB_REG_DOMAIN_FCC), (''PM'', MIB_REG_DOMAIN_FCC), (''VC'', MIB_REG_DOMAIN_FCC),
     (''WS'', MIB_REG_DOMAIN_MKK), (''SM'', MIB_REG_DOMAIN_ETSI), (''ST'', MIB_REG_DOMAIN_ETSI),
     (''SA'', MIB_REG_DOMAIN_ETSI), (''SN'', MIB_REG_DOMAIN_ETSI), (''RS'', MIB_REG_DOMAIN_ETSI),
     (''SC'', MIB_REG_DOMAIN_MKK), (''SL'', MIB_REG_DOMAIN_ETSI), (''SG'', MIB_REG_DOMAIN_APAC),
     (''SK'', MIB_REG_DOMAIN_ETSI), (''SI'', MIB_REG_DOMAIN_ETSI), (''SB'', MIB_REG_DOMAIN_MKK),
     (''SO'', MIB_REG_DOMAIN_ETSI), (''ZA'', MIB_REG_DOMAIN_ETSI), (''GS'', MIB_REG_DOMAIN_ETSI),
     (''ES'', MIB_REG_DOMAIN_ETSI), (''LK'', MIB_REG_DOMAIN_MKK), (''SD'', MIB_REG_DOMAIN_ETSI),
     (''SR'', MIB_REG_DOMAIN_FCC), (''SJ'', MIB_REG_DOMAIN_ETSI), (''SZ'', MIB_REG_DOMAIN_ETSI),
     (''SE'', MIB_REG_DOMAIN_ETSI), (''CH'', MIB_REG_DOMAIN_ETSI), (''SY'', MIB_REG_DOMAIN_ETSI),
     (''TW'', MIB_REG_DOMAIN_MKK), (''TJ'', MIB_REG_DOMAIN_ETSI), (''TZ'', MIB_REG_DOMAIN_ETSI),
     (''TH'', MIB_REG_DOMAIN_MKK), (''TL'', MIB_REG_DOMAIN_MKK), (''TG'', MIB_REG_DOMAIN_ETSI),
     (''TK'', MIB_REG_DOMAIN_MKK), (''TO'', MIB_REG_DOMAIN_ETSI), (''TT'', MIB_REG_DOMAIN_ETSI),
     (''TN'', MIB_REG_DOMAIN_ETSI), (''TR'', MIB_REG_DOMAIN_ETSI), (''TM'', MIB_REG_DOMAIN_ETSI),
     (''TC'', MIB_REG_DOMAIN_FCC), (''TV'', MIB_REG_DOMAIN_MKK), (''UG'', MIB_REG_DOMAIN_ETSI),
     (''UA'', MIB_REG_DOMAIN_ETSI), (''AE'', MIB_REG_DOMAIN_UAE), (''GB'', MIB_REG_DOMAIN_ETSI),
     (''US'', MIB_REG_DOMAIN_FCC), (''UM'', MIB_REG_DOMAIN_FCC), (''UY'', MIB_REG_DOMAIN_FCC),
     (''UZ'', MIB_REG_DOMAIN_ETSI), (''VU'', MIB_REG_DOMAIN_MKK), (''??'', 0),
     (''VE'', MIB_REG_DOMAIN_FCC), (''VN'', MIB_REG_DOMAIN_MKK), (''VG'', MIB_REG_DOMAIN_FCC),
     (''VI'', MIB_REG_DOMAIN_FCC), (''WF'', MIB_REG_DOMAIN_ETSI), (''EH'', MIB_REG_DOMAIN_ETSI),
     (''YE'', MIB_REG_DOMAIN_ETSI), (''ZM'', MIB_REG_DOMAIN_ETSI), (''ZW'', MIB_REG_DOMAIN_ETSI)]"

section \<open>Conversions\<close>

definition country_code_to_domain :: "nat \<Rightarrow> nat" where
  "country_code_to_domain country_code =
    (if country_code < length country_reg_table then snd (country_reg_table ! country_code) else 0)"

definition country_code_to_country :: "nat \<Rightarrow> string" where
  "country_code_to_country country_code =
    (if country_code_to_domain country_code \<noteq> 0 then fst (country_reg_table ! country_code) else ''??'')"

text \<open>Whether \<^verbatim>\<open>strncmp\<close> of a string literal with memory is zero: a literal ends with a zero character, the memory ends where it ends.\<close>
fun strncmp_eq :: "nat \<Rightarrow> string \<Rightarrow> string \<Rightarrow> c_fault + bool" where
  "strncmp_eq 0 a m = Inr True"
| "strncmp_eq (Suc n) a [] = Inl Out_of_bounds"
| "strncmp_eq (Suc n) [] (c # m) = Inr (c = CHR 0x00)"
| "strncmp_eq (Suc n) (x # a) (c # m) =
    (if x \<noteq> c then Inr False else if x = CHR 0x00 then Inr True else strncmp_eq n a m)"

text \<open>The loop of \<^verbatim>\<open>country_to_country_code\<close> over the codes that are left.\<close>
fun country_loop :: "string \<Rightarrow> nat list \<Rightarrow> c_fault + nat" where
  "country_loop country [] = Inr 0"
| "country_loop country (code # codes) =
    bind_result (strncmp_eq 2 (country_code_to_country code) country)
      (\<lambda>eq. if eq then Inr code else country_loop country codes)"

definition country_to_country_code :: "string \<Rightarrow> c_fault + nat" where
  "country_to_country_code country = country_loop country [0..<length country_reg_table]"

section \<open>Round trip\<close>

lemma length_country_reg_table [simp]: "length country_reg_table = 249"
  by (simp add: country_reg_table_def)

text \<open>Names as numbers, for the evaluation of the table.\<close>
fun name_code :: "string \<Rightarrow> int" where
  "name_code [a, b] = 256 * of_char a + of_char b"
| "name_code _ = -1"

definition defined_names :: "(string \<times> nat) list" where
  "defined_names = filter (\<lambda>e. snd e \<noteq> 0) country_reg_table"

lemma names_increasing: "successively (<) (sort (map (name_code \<circ> fst) defined_names))"
  unfolding defined_names_def country_reg_table_def reg_domains
  by code_simp

lemma names_two_letters:
  "list_all (\<lambda>e. case fst e of [a, b] \<Rightarrow> a \<noteq> CHR ''?'' \<and> a \<noteq> CHR 0x00 \<and> b \<noteq> CHR 0x00 | _ \<Rightarrow> False) defined_names"
  unfolding defined_names_def country_reg_table_def reg_domains
  by code_simp

lemma successively_distinct: "successively (<) xs \<Longrightarrow> distinct (xs :: 'a :: linorder list)"
  by (simp add: successively_conv_sorted_wrt [OF transp_on_less] strict_sorted_iff)

lemma distinct_filter_nth:
  assumes "distinct (map f (filter P xs))" "i < j" "j < length xs" "P (xs ! i)" "P (xs ! j)"
  shows "f (xs ! i) \<noteq> f (xs ! j)"
proof -
  have "xs = take j xs @ xs ! j # drop (Suc j) xs" using assms(3) by (rule id_take_nth_drop)
  then have "map f (filter P xs) = map f (filter P (take j xs)) @ f (xs ! j) # map f (filter P (drop (Suc j) xs))"
    using assms(5) by (metis filter.simps(2) filter_append list.simps(9) map_append)
  then have "f (xs ! j) \<notin> set (map f (filter P (take j xs)))"
    using assms(1) by simp
  moreover have "xs ! i \<in> set (filter P (take j xs))" using assms by (auto simp: in_set_conv_nth)
  ultimately show ?thesis by (metis imageI set_map)
qed

lemma names_distinct: "distinct (map fst defined_names)"
proof -
  have "distinct (map (name_code \<circ> fst) defined_names)"
    using successively_distinct [OF names_increasing] by simp
  then show ?thesis by (auto simp: distinct_map inj_on_def comp_def)
qed

lemma defined_name:
  assumes "country_code_to_domain code \<noteq> 0"
  obtains a b where "country_code_to_country code = [a, b]" "a \<noteq> CHR ''?''" "a \<noteq> CHR 0x00" "b \<noteq> CHR 0x00"
    "code < 249" "(country_code_to_country code, country_code_to_domain code) = country_reg_table ! code"
    "country_reg_table ! code \<in> set defined_names"
proof -
  have c: "code < 249" "(country_code_to_country code, country_code_to_domain code) = country_reg_table ! code"
    "country_reg_table ! code \<in> set defined_names"
    using assms by (auto simp: country_code_to_domain_def country_code_to_country_def defined_names_def split: if_splits)
  have "case country_code_to_country code of [a, b] \<Rightarrow> a \<noteq> CHR ''?'' \<and> a \<noteq> CHR 0x00 \<and> b \<noteq> CHR 0x00 | _ \<Rightarrow> False"
    using bspec [OF names_two_letters [unfolded list_all_iff] c(3)] by (simp only: c(2) [symmetric] fst_conv)
  with c that show thesis by (auto split: list.splits)
qed

lemma name_unique:
  assumes "country_code_to_domain code \<noteq> 0" "country_code_to_country c = country_code_to_country code"
  shows "c = code"
proof -
  from assms(1) obtain a b where ab: "country_code_to_country code = [a, b]" "a \<noteq> CHR ''?''" "code < 249"
    "(country_code_to_country code, country_code_to_domain code) = country_reg_table ! code"
    by (rule defined_name)
  then have d: "country_code_to_domain c \<noteq> 0" using assms(2) by (auto simp: country_code_to_country_def split: if_splits)
  then obtain x y where "c < 249" "(country_code_to_country c, country_code_to_domain c) = country_reg_table ! c"
    by (rule defined_name)
  moreover have "i = j" if "i < j" "j < 249" "snd (country_reg_table ! i) \<noteq> 0" "snd (country_reg_table ! j) \<noteq> 0"
    "fst (country_reg_table ! i) = fst (country_reg_table ! j)" for i j
    using distinct_filter_nth [OF names_distinct [unfolded defined_names_def] that(1)] that by simp
  ultimately show ?thesis
    using ab d assms by (metis fst_conv linorder_neqE_nat snd_conv)
qed

lemma strncmp_two: "x \<noteq> CHR 0x00 \<Longrightarrow> strncmp_eq 2 [x, y] (a # b # m) = Inr (x = a \<and> y = b)"
  by (simp add: eval_nat_numeral)

lemma country_name_two: "\<exists>x y. country_code_to_country code = [x, y] \<and> x \<noteq> CHR 0x00"
proof (cases "country_code_to_domain code = 0")
  case False
  then show ?thesis by (rule defined_name) blast
qed (simp add: country_code_to_country_def)

lemma country_loop_find:
  "country_loop (a # b # m) codes = Inr (case find (\<lambda>c. country_code_to_country c = [a, b]) codes of None \<Rightarrow> 0 | Some c \<Rightarrow> c)"
proof (induction codes)
  case (Cons c codes)
  obtain x y where "country_code_to_country c = [x, y]" "x \<noteq> CHR 0x00" using country_name_two by blast
  with Cons show ?case by (simp add: strncmp_two)
qed simp

text \<open>
  The code of every country of the table is found again from its name, with whatever follows the name in memory;
  a name that is no country's gives code 0, whose name is the undefined one.
\<close>
lemma country_round_trip:
  assumes "country_code_to_domain code \<noteq> 0"
  shows "country_to_country_code (country_code_to_country code @ m) = Inr code"
proof -
  from assms obtain a b where ab: "country_code_to_country code = [a, b]" "code < 249" by (rule defined_name)
  have f: "find (\<lambda>c. country_code_to_country c = [a, b]) [0..<length country_reg_table] = Some code"
  proof (rule find_upt_unique)
    show "code < length country_reg_table" using ab(2) by (simp only: length_country_reg_table)
    show "d = code" if "country_code_to_country d = [a, b]" for d
      using name_unique [OF assms] that ab(1) by (simp only:)
  qed (rule ab(1))
  show ?thesis unfolding country_to_country_code_def ab append_Cons append_Nil country_loop_find f by simp
qed

lemma country_to_code_total: "\<exists>code < 249. country_to_country_code (a # b # m) = Inr code"
proof -
  let ?f = "find (\<lambda>c. country_code_to_country c = [a, b]) [0..<length country_reg_table]"
  have "c < 249" if "?f = Some c" for c
    using find_upt_less [OF that] by (simp only: length_country_reg_table)
  then show ?thesis unfolding country_to_country_code_def country_loop_find 
    by (auto simp del: upt_rec_numeral length_country_reg_table split: option.split)
qed

lemma country_code_two: "country_to_country_code (a # b # m) = country_to_country_code (a # b # m')"
  unfolding country_to_country_code_def country_loop_find ..

end
