(* ===== verification/Frame_Ie.thy ===== *)
theory Frame_Ie
  imports Bss_Cache Country
begin

text \<open>
  Management frames, \<^verbatim>\<open>driver/shared/frame.c\<close>: the information elements of beacons, probe responses and the frames that carry
  coexistence elements, the dispatch of management frames with the registration of the network in the scan cache, and the
  vendor specific action frames. A frame is its bytes; every access says when it is outside of them. Calls of other
  components are events, except for the registration in the scan cache, which is composed.
\<close>

unbundle bit_operations_syntax

section \<open>Memory\<close>

definition rd :: "byte list \<Rightarrow> nat \<Rightarrow> c_fault + byte" where
  "rd fr i = (if i < length fr then Inr (fr ! i) else Inl Out_of_bounds)"

definition rd16 :: "byte list \<Rightarrow> nat \<Rightarrow> c_fault + nat" where
  "rd16 fr i = bind_result (rd fr i) (\<lambda>a. bind_result (rd fr (i + 1)) (\<lambda>b. Inr (unat a + 256 * unat b)))"

definition rd32 :: "byte list \<Rightarrow> nat \<Rightarrow> c_fault + nat" where
  "rd32 fr i = bind_result (rd16 fr i) (\<lambda>a. bind_result (rd16 fr (i + 2)) (\<lambda>b. Inr (a + 65536 * b)))"

definition slice :: "byte list \<Rightarrow> nat \<Rightarrow> nat \<Rightarrow> c_fault + byte list" where
  "slice fr i n = (if i + n \<le> length fr then Inr (take n (drop i fr)) else Inl Out_of_bounds)"

section \<open>Constants\<close>

definition IE_SSID :: nat where "IE_SSID = 0"
definition IE_SUPPORTED_RATES :: nat where "IE_SUPPORTED_RATES = 1"
definition IE_DS_PARAM_SET :: nat where "IE_DS_PARAM_SET = 3"
definition IE_COUNTRY :: nat where "IE_COUNTRY = 7"
definition IE_PWR_CONSTRAINT :: nat where "IE_PWR_CONSTRAINT = 32"
definition IE_HT_CAPABILITIES :: nat where "IE_HT_CAPABILITIES = 45"
definition IE_RSN :: nat where "IE_RSN = 48"
definition IE_EXT_SUPP_RATES :: nat where "IE_EXT_SUPP_RATES = 50"
definition IE_HT_INFORMATION :: nat where "IE_HT_INFORMATION = 61"
definition IE_COEXISTENCE :: nat where "IE_COEXISTENCE = 72"
definition IE_INTOLERANT_CHANNELS_REPORT :: nat where "IE_INTOLERANT_CHANNELS_REPORT = 73"
definition IE_VENDOR_SPECIFIC :: nat where "IE_VENDOR_SPECIFIC = 221"

lemmas ie_ids = IE_SSID_def IE_SUPPORTED_RATES_def IE_DS_PARAM_SET_def IE_COUNTRY_def IE_PWR_CONSTRAINT_def
  IE_HT_CAPABILITIES_def IE_RSN_def IE_EXT_SUPP_RATES_def IE_HT_INFORMATION_def IE_COEXISTENCE_def
  IE_INTOLERANT_CHANNELS_REPORT_def IE_VENDOR_SPECIFIC_def

definition MAX_INFO_ELEMENTS_LENGTH :: nat where "MAX_INFO_ELEMENTS_LENGTH = 512"
definition BSS_ESSID_MAX_SIZE :: nat where "BSS_ESSID_MAX_SIZE = 32"
definition UMI_MAX_NUMBER_OF_INTOLERANT_CHANNELS :: nat where "UMI_MAX_NUMBER_OF_INTOLERANT_CHANNELS = 30"
definition BASIC_RATE_SET_2DOT4_OPERATIONAL_RATE :: "32 word" where "BASIC_RATE_SET_2DOT4_OPERATIONAL_RATE = 0x7F00"
definition BASIC_RATE_SET_11N_RATE_MSK :: "32 word" where "BASIC_RATE_SET_11N_RATE_MSK = 0xFFFF8000"
definition BASIC_RATE_SET_OFDM_MANDATORY_RATES :: "32 word" where "BASIC_RATE_SET_OFDM_MANDATORY_RATES = 0x15"
definition BSS_DATA_2DOT4_CHANNEL_MAX :: nat where "BSS_DATA_2DOT4_CHANNEL_MAX = 14"

section \<open>The extractors\<close>

text \<open>The rates of the two rate elements, in units of 500 kbit/s, with their bits of the rate set.\<close>
definition phy_rate_bits :: "(nat \<times> 32 word) list" where
  "phy_rate_bits = [(12, 0x1), (18, 0x2), (24, 0x4), (36, 0x8), (48, 0x10), (72, 0x20), (96, 0x40), (108, 0x80),
     (2, 0x800), (4, 0x1100), (11, 0x2200), (22, 0x4400)]"

fun phy_rates_loop :: "byte list \<Rightarrow> nat \<Rightarrow> nat \<Rightarrow> mtlk_error \<Rightarrow> bss_data \<Rightarrow> c_fault + mtlk_error \<times> bss_data" where
  "phy_rates_loop fr p 0 res b = Inr (res, b)"
| "phy_rates_loop fr p (Suc n) res b =
    bind_result (rd fr p) (\<lambda>v.
      (let m = map_of phy_rate_bits (unat (v AND 0x7F));
           rate = (case m of None \<Rightarrow> 0 | Some r \<Rightarrow> r);
           b1 = b\<lparr>operational_rate_set := operational_rate_set b OR rate\<rparr>;
           b2 = (if v AND 0x80 \<noteq> 0 then b1\<lparr>basic_rate_set := basic_rate_set b1 OR rate\<rparr> else b1)
       in phy_rates_loop fr (p + 1) n (if m = None then MTLK_ERR_PARAMS else res) b2))"

definition ie_extract_phy_rates :: "byte list \<Rightarrow> nat \<Rightarrow> nat \<Rightarrow> bss_data \<Rightarrow> c_fault + mtlk_error \<times> bss_data" where
  "ie_extract_phy_rates fr p n b =
    bind_result (phy_rates_loop fr p n MTLK_ERR_OK b) (\<lambda>(res, b').
      Inr (res, if operational_rate_set b' AND BASIC_RATE_SET_2DOT4_OPERATIONAL_RATE \<noteq> 0 then b'\<lparr>is_2_4 := True\<rparr> else b'))"

definition ie_extract_ht_info :: "byte list \<Rightarrow> nat \<Rightarrow> nat \<Rightarrow> bss_data \<Rightarrow> c_fault + mtlk_error \<times> bss_data" where
  "ie_extract_ht_info fr p n b =
    (if n < 2 then Inr (MTLK_ERR_PARAMS, b)
     else bind_result (rd fr p) (\<lambda>ch. bind_result (rd fr (p + 1)) (\<lambda>v.
       let b1 = b\<lparr>channel := unat ch\<rparr>; w = unat (v AND 0x07) in
       Inr (MTLK_ERR_OK,
         if w = 7 then b1\<lparr>spectrum := 1, upper_lower := 1, secondary_channel_offset := 0x30\<rparr>
         else if w = 5 then b1\<lparr>spectrum := 1, upper_lower := 0, secondary_channel_offset := 0x10\<rparr>
         else b1\<lparr>spectrum := 0, upper_lower := 0, secondary_channel_offset := 0\<rparr>))))"

text \<open>The set of schemes starts at byte 3 of the element: its fifth byte is byte 7.\<close>
definition ie_extract_htcap_info :: "byte list \<Rightarrow> nat \<Rightarrow> nat \<Rightarrow> bss_data \<Rightarrow> c_fault + mtlk_error \<times> bss_data" where
  "ie_extract_htcap_info fr p n b =
    (if n < 7 then Inr (MTLK_ERR_PARAMS, b)
     else bind_result (rd16 fr p) (\<lambda>info.
          bind_result (rd fr (p + 3)) (\<lambda>m0. bind_result (rd fr (p + 4)) (\<lambda>m1. bind_result (rd fr (p + 7)) (\<lambda>m4.
            Inr (MTLK_ERR_OK, b\<lparr>forty_mhz_intolerant := (bit info 14),
              operational_rate_set := operational_rate_set b OR push_bit 15 (ucast m0) OR push_bit 23 (ucast m1)
                OR push_bit 31 (ucast m4)\<rparr>))))))"

record coexistence_element =
  information_request :: bool
  forty_mhz_intolerant_el :: bool
  twenty_mhz_width_request :: bool
  scan_exemption_request :: bool
  scan_exemption_grant :: bool

definition ie_extract_coex_el_info :: "byte list \<Rightarrow> nat \<Rightarrow> nat \<Rightarrow> c_fault + (mtlk_error + coexistence_element)" where
  "ie_extract_coex_el_info fr p n =
    (if n \<noteq> 1 then Inr (Inl MTLK_ERR_PARAMS)
     else bind_result (rd fr p) (\<lambda>v. Inr (Inr \<lparr>information_request = bit v 0, forty_mhz_intolerant_el = bit v 1,
       twenty_mhz_width_request = bit v 2, scan_exemption_request = bit v 3, scan_exemption_grant = bit v 4\<rparr>)))"

definition ie_extract_intolerant_channels_report ::
  "byte list \<Rightarrow> nat \<Rightarrow> nat \<Rightarrow> c_fault + (mtlk_error + byte \<times> byte list)" where
  "ie_extract_intolerant_channels_report fr p n =
    (if 2 \<le> n \<and> n \<le> UMI_MAX_NUMBER_OF_INTOLERANT_CHANNELS + 1 then
       bind_result (rd fr p) (\<lambda>c. bind_result (slice fr (p + 1) (n - 1)) (\<lambda>chs. Inr (Inr (c, chs))))
     else Inr (Inl MTLK_ERR_PARAMS))"

section \<open>The elements of a frame\<close>

record ie_env =
  coex_enabled :: bool
  band_2_4 :: bool
  env_is_ap :: bool

definition coex_active :: "'a ie_env_scheme \<Rightarrow> bool" where
  "coex_active env \<longleftrightarrow> coex_enabled env \<and> band_2_4 env"

datatype frame_event =
    Ap_coexistence_element coexistence_element mac_addr
  | Ap_obss_scan_results byte "byte list"
  | Country_code_update nat
  | Find_and_update_ap mac_addr bss_data
  | Scan_bss_found nat
  | Non_ht_beacon nat
  | Aocs_bss_update bss_data
  | Block_ack_action "byte list"
  | Spr_received "byte list" int

text \<open>The events that are calls to the coexistence machine.\<close>
fun coex_event :: "frame_event \<Rightarrow> bool" where
  "coex_event (Ap_coexistence_element el a) = True"
| "coex_event (Ap_obss_scan_results c chs) = True"
| "coex_event (Non_ht_beacon ch) = True"
| "coex_event _ = False"

definition chars :: "byte list \<Rightarrow> string" where
  "chars bs = map (\<lambda>b. char_of (unat b)) bs"

text \<open>A copied name as a C string: it ends at its first zero byte.\<close>
definition essid_of :: "byte list \<Rightarrow> string" where
  "essid_of bs = takeWhile (\<lambda>c. c \<noteq> CHR 0x00) (chars (take BSS_ESSID_MAX_SIZE bs))"

type_synonym ie_state = "bss_data \<times> frame_event list"

text \<open>The body of the \<^verbatim>\<open>switch\<close> of \<^verbatim>\<open>ie_process\<close>: \<open>q\<close> is the element, \<open>q + 2\<close> its data.\<close>
definition ie_switch :: "'a ie_env_scheme \<Rightarrow> byte list \<Rightarrow> nat \<Rightarrow> nat \<Rightarrow> nat \<Rightarrow> ie_state \<Rightarrow> c_fault + ie_state" where
  "ie_switch env fr q ident n st =
    (case st of (b, ev) \<Rightarrow>
     let p = q + 2; keep = (\<lambda>r. bind_result r (\<lambda>(_, b'). Inr (b', ev))) in
     if ident = IE_EXT_SUPP_RATES then keep (ie_extract_phy_rates fr p n (b\<lparr>is_2_4 := True\<rparr>))
     else if ident = IE_SUPPORTED_RATES then keep (ie_extract_phy_rates fr p n b)
     else if ident = IE_HT_INFORMATION then keep (ie_extract_ht_info fr p n b)
     else if ident = IE_SSID then
       bind_result (slice fr p (min n BSS_ESSID_MAX_SIZE)) (\<lambda>d. Inr (b\<lparr>essid := essid_of d\<rparr>, ev))
     else if ident = IE_RSN then Inr (b\<lparr>rsn_offs := ie_used_length b\<rparr>, ev)
     else if ident = IE_VENDOR_SPECIFIC then
       bind_result (slice fr p 4) (\<lambda>d.
         Inr (if d = [0x00, 0x50, 0xF2, 0x01] then b\<lparr>wpa_offs := ie_used_length b\<rparr>
              else if d = [0x00, 0x50, 0xF2, 0x04] then b\<lparr>wps_offs := ie_used_length b\<rparr> else b, ev))
     else if ident = IE_DS_PARAM_SET then bind_result (rd fr p) (\<lambda>c. Inr (b\<lparr>channel := unat c\<rparr>, ev))
     else if ident = IE_HT_CAPABILITIES then keep (ie_extract_htcap_info fr p n (b\<lparr>is_ht := True\<rparr>))
     else if ident = IE_PWR_CONSTRAINT then bind_result (rd fr p) (\<lambda>c. Inr (b\<lparr>power := sint c\<rparr>, ev))
     else if ident = IE_COUNTRY then
       bind_result (country_to_country_code (chars (drop p fr))) (\<lambda>cc. bind_result (slice fr q (n + 2)) (\<lambda>ie.
         Inr (b\<lparr>country_code := cc, country_ie := Some ie\<rparr>, ev)))
     else if ident = IE_COEXISTENCE then
       (if coex_active env then
          bind_result (ie_extract_coex_el_info fr p n) (\<lambda>r. case r of
            Inl _ \<Rightarrow> Inr (b, ev)
          | Inr el \<Rightarrow> Inr (b, if env_is_ap env then ev @ [Ap_coexistence_element el (bssid b)] else ev))
        else Inr (b, ev))
     else if ident = IE_INTOLERANT_CHANNELS_REPORT then
       (if coex_active env \<and> env_is_ap env then
          bind_result (ie_extract_intolerant_channels_report fr p n) (\<lambda>r. case r of
            Inl _ \<Rightarrow> Inr (b, ev)
          | Inr (c, chs) \<Rightarrow> Inr (b, ev @ [Ap_obss_scan_results c chs]))
        else Inr (b, ev))
     else Inr (b, ev))"

definition store_ie :: "byte list \<Rightarrow> bss_data \<Rightarrow> bss_data" where
  "store_ie ie b = b\<lparr>info_elements := take (ie_used_length b) (info_elements b) @ ie @
      drop (ie_used_length b + length ie) (info_elements b)\<rparr>"

text \<open>One element that is not empty: it is copied, interpreted, and counted.\<close>
definition ie_one :: "'a ie_env_scheme \<Rightarrow> byte list \<Rightarrow> nat \<Rightarrow> nat \<Rightarrow> ie_state \<Rightarrow> c_fault + ie_state" where
  "ie_one env fr q n st =
    bind_result (slice fr q (n + 2)) (\<lambda>ie. bind_result (rd fr q) (\<lambda>ident.
      bind_result (ie_switch env fr q (unat ident) n (store_ie ie (fst st), snd st)) (\<lambda>(b, ev).
        Inr (b\<lparr>ie_used_length := ie_used_length b + n + 2\<rparr>, ev))))"

text \<open>The loop: \<^verbatim>\<open>flen\<close> is a signed number that is compared with an unsigned one, so a negative length enters the loop too.\<close>
function ie_loop :: "'a ie_env_scheme \<Rightarrow> byte list \<Rightarrow> nat \<Rightarrow> int \<Rightarrow> ie_state \<Rightarrow> c_fault + ie_state" where
  "ie_loop env fr q flen st =
    (if flen mod 2 ^ 32 > 2 then
       (case rd fr (q + 1) of
          Inl e \<Rightarrow> Inl e
        | Inr lb \<Rightarrow>
            let n = unat lb in
            if int n + 2 > flen then Inr st
            else if ie_used_length (fst st) + n + 2 > MAX_INFO_ELEMENTS_LENGTH then Inr st
            else (case (if n = 0 then Inr st else ie_one env fr q n st) of
                    Inl e \<Rightarrow> Inl e
                  | Inr st' \<Rightarrow> ie_loop env fr (q + n + 2) (flen - (int n + 2)) st'))
     else Inr st)"
  by pat_completeness auto
termination
proof (relation "measure (\<lambda>(env, fr, q, flen, st). nat flen)", goal_cases)
  case (2 env fr q flen st lb n st')
  then have "int n + 2 \<le> flen" by linarith
  then show ?case by simp
qed simp

declare ie_loop.simps [simp del]

definition bss_unusable :: "bss_data \<Rightarrow> bool" where
  "bss_unusable b \<longleftrightarrow>
    (\<not> is_2_4 b \<and> basic_rate_set b AND BASIC_RATE_SET_OFDM_MANDATORY_RATES \<noteq> 0x15)
    \<or> (is_2_4 b \<and> channel b > BSS_DATA_2DOT4_CHANNEL_MAX) \<or> channel b = 0 \<or> operational_rate_set b = 0
    \<or> (spectrum b \<noteq> 0 \<and> operational_rate_set b AND BASIC_RATE_SET_11N_RATE_MSK = 0)"

definition ie_process :: "'a ie_env_scheme \<Rightarrow> byte list \<Rightarrow> nat \<Rightarrow> int \<Rightarrow> ie_state \<Rightarrow> c_fault + ie_state" where
  "ie_process env fr q flen st =
    bind_result (ie_loop env fr q flen
        ((fst st)\<lparr>basic_rate_set := 0, operational_rate_set := 0, ie_used_length := 0,
           rsn_offs := 0xFFFF, wpa_offs := 0xFFFF, wps_offs := 0xFFFF\<rparr>, snd st))
      (\<lambda>(b, ev). Inr (if bss_unusable b then b\<lparr>essid := []\<rparr> else b, ev))"

section \<open>Management frames\<close>

record rx_info =
  rx_channel :: nat
  rx_rssi :: "nat list"
  rx_max_rssi :: nat
  rx_noise :: nat

text \<open>What the rest of the core answers, the clock, and what the two allocations of the scan cache give.\<close>
record man_env = ie_env +
  is_slave_ap :: bool
  scan_running :: bool
  core_country_code :: nat
  man_now :: nat
  man_timestamp :: nat
  man_slot :: "nat option"
  man_ie_alloc :: bool

definition bss_zero :: bss_data where
  "bss_zero = \<lparr>beacon_timestamp = 0, received_timestamp = 0, bssid = replicate 6 0, bss_type = 0,
     channel = 0, secondary_channel_offset = 0, max_rssi = 0, all_rssi = [0, 0, 0], noise = 0, capability = 0,
     beacon_interval = 0, essid = [], info_elements = replicate MAX_INFO_ELEMENTS_LENGTH 0, ie_used_length = 0,
     rsn_offs = 0, wpa_offs = 0, wps_offs = 0, country_code = 0, country_ie = None, is_2_4 = False, is_ht = False,
     basic_rate_set = 0, operational_rate_set = 0, spectrum = 0, upper_lower = 0, power = 0, forty_mhz_intolerant = False\<rparr>"

text \<open>\<^verbatim>\<open>_mtlk_process_coex_info_from_man_frame\<close> and the public action frames: only the coexistence elements matter.\<close>
definition process_coex_info :: "'a ie_env_scheme \<Rightarrow> byte list \<Rightarrow> nat \<Rightarrow> int \<Rightarrow> mac_addr \<Rightarrow> c_fault + frame_event list" where
  "process_coex_info env fr q flen src =
    bind_result (ie_process env fr q flen (bss_zero\<lparr>bssid := src\<rparr>, [])) (\<lambda>(_, ev). Inr ev)"

definition bss_from_head :: "byte list \<Rightarrow> rx_info \<Rightarrow> nat \<Rightarrow> mac_addr \<Rightarrow> c_fault + bss_data" where
  "bss_from_head fr rx ts bss_id =
    bind_result (rd16 fr 34) (\<lambda>cap. bind_result (rd16 fr 32) (\<lambda>intv.
    bind_result (rd32 fr 24) (\<lambda>lo. bind_result (rd32 fr 28) (\<lambda>hi.
      Inr (bss_zero\<lparr>channel := rx_channel rx, bssid := bss_id, capability := cap, beacon_interval := intv,
        beacon_timestamp := lo + 2 ^ 32 * hi, received_timestamp := ts,
        bss_type := (if bit cap 1 then 2 else if bit cap 2 \<or> bit cap 3 then 1 else 0),
        all_rssi := rx_rssi rx, max_rssi := rx_max_rssi rx, noise := rx_noise rx\<rparr>)))))"

text \<open>
  The calls to the coexistence machine that the elements of a frame cause. The machine is an argument here, with a state of its own; it
  enumerates the scan cache, and so may purge it, which is why it is given the cache and returns it. The theory \<open>Frame_Coex\<close> puts the real machine
  in its place.
\<close>
fun coex_calls ::
  "(frame_event \<Rightarrow> 'c \<times> scan_cache \<Rightarrow> c_fault + 'c \<times> scan_cache) \<Rightarrow> frame_event list \<Rightarrow> 'c \<times> scan_cache \<Rightarrow> c_fault + 'c \<times> scan_cache" where
  "coex_calls coex [] x = Inr x"
| "coex_calls coex (e # es) x = bind_result (coex e x) (coex_calls coex es)"

text \<open>
  The beacon and the probe response: the network is described, announced, and registered in the scan cache. The calls to the coexistence machine from
  \<^verbatim>\<open>ie_process\<close> come before the registration, the one for a beacon without HT after it.
\<close>
definition process_beacon ::
  "(frame_event \<Rightarrow> 'c \<times> scan_cache \<Rightarrow> c_fault + 'c \<times> scan_cache) \<Rightarrow> man_env \<Rightarrow> byte list \<Rightarrow> rx_info \<Rightarrow> mac_addr \<Rightarrow> mac_addr \<Rightarrow> 'c \<times> scan_cache
     \<Rightarrow> c_fault + frame_event list \<times> 'c \<times> scan_cache" where
  "process_beacon coex env fr rx src bss_id x =
    bind_result (bss_from_head fr rx (man_timestamp env) bss_id) (\<lambda>b0.
    bind_result (ie_process env fr 36 (int (length fr) - 36) (b0, [])) (\<lambda>(b, ev).
    bind_result (coex_calls coex ev x) (\<lambda>(cs, cache).
      let ev1 = ev @ (if env_is_ap env then [] else [Country_code_update (country_code b)]);
          ev2 = ev1 @ [Find_and_update_ap src b];
          ev3 = ev2 @ (if is_slave_ap env then [] else [Scan_bss_found (channel b)]);
          aocs = (\<lambda>b. if env_is_ap env \<and> scan_running env then [Aocs_bss_update b] else [])
      in if scan_running env \<or> core_country_code env = 0 \<or> coex_enabled env then
           (let (b1, cache1) = mtlk_cache_register_bss (man_now env) (man_slot env) (man_ie_alloc env) b cache in
            if \<not> is_ht b1 \<and> band_2_4 env then
              bind_result (coex (Non_ht_beacon (channel b1)) (cs, cache1)) (\<lambda>x1. Inr (ev3 @ [Non_ht_beacon (channel b1)] @ aocs b1, x1))
            else Inr (ev3 @ aocs b1, cs, cache1))
         else Inr (ev3 @ aocs b, cs, cache))))"

text \<open>The items of a vendor specific frame: \<open>q\<close> is an offset into the frame, with the wrap-around of a 32-bit pointer.\<close>
primrec vsaf_items :: "byte list \<Rightarrow> nat \<Rightarrow> nat \<Rightarrow> int \<Rightarrow> frame_event list \<Rightarrow> c_fault + frame_event list" where
  "vsaf_items fr 0 q flen ev = Inr ev"
| "vsaf_items fr (Suc k) q flen ev =
    bind_result (rd32 fr q) (\<lambda>size. bind_result (rd32 fr (q + 4)) (\<lambda>ident.
      vsaf_items fr k ((q + 8 + size) mod u32_max) (flen - 8 - int size)
        (if ident = 2 then ev @ [Spr_received (drop (q + 8) fr) (flen - 8)] else ev)))"

definition process_action_frame_vendor_specific :: "byte list \<Rightarrow> nat \<Rightarrow> int \<Rightarrow> c_fault + frame_event list" where
  "process_action_frame_vendor_specific fr p flen =
    bind_result (slice fr p 3) (\<lambda>oui.
      if oui \<noteq> [0x00, 0x09, 0x86] then Inr []
      else bind_result (rd32 fr (p + 7)) (\<lambda>size.
        if int size \<noteq> (flen - 15) mod 2 ^ 32 then Inr []
        else bind_result (rd32 fr (p + 3)) (\<lambda>version.
          if version \<noteq> 1 then Inr []
          else bind_result (rd32 fr (p + 11)) (\<lambda>items. vsaf_items fr items (p + 15) (flen - 15) []))))"

definition process_action_frame :: "'a ie_env_scheme \<Rightarrow> byte list \<Rightarrow> mac_addr \<Rightarrow> c_fault + frame_event list" where
  "process_action_frame env fr src =
    bind_result (rd fr 24) (\<lambda>category.
      if category = 3 then Inr [Block_ack_action (drop 25 fr)]
      else if category = 4 then
        bind_result (rd fr 25) (\<lambda>action.
          if action = 0 then process_coex_info env fr 26 (int (length fr) - 26) src else Inr [])
      else if category = 127 then process_action_frame_vendor_specific fr 25 (int (length fr) - 25)
      else Inr [])"

definition mtlk_process_man_frame ::
  "(frame_event \<Rightarrow> 'c \<times> scan_cache \<Rightarrow> c_fault + 'c \<times> scan_cache) \<Rightarrow> man_env \<Rightarrow> byte list \<Rightarrow> rx_info \<Rightarrow> 'c \<times> scan_cache
     \<Rightarrow> c_fault + frame_event list \<times> 'c \<times> scan_cache" where
  "mtlk_process_man_frame coex env fr rx x =
    bind_result (rd16 fr 0) (\<lambda>fc.
      let subtype = fc div 16 mod 16;
          only_coex = (\<lambda>r. bind_result r (\<lambda>ev. bind_result (coex_calls coex (filter coex_event ev) x) (\<lambda>x1. Inr (ev, x1))))
      in
      if subtype \<in> {0, 1, 2, 3, 4} then
        bind_result (slice fr 10 6) (\<lambda>src. only_coex (process_coex_info env fr 24 (int (length fr) - 24) src))
      else if subtype \<in> {5, 8} then
        bind_result (slice fr 10 6) (\<lambda>src. bind_result (slice fr 16 6) (\<lambda>bss_id. process_beacon coex env fr rx src bss_id x))
      else if subtype = 13 then
        bind_result (slice fr 10 6) (\<lambda>src. only_coex (process_action_frame env fr src))
      else Inr ([], x))"

section \<open>What an element depends on\<close>

text \<open>Two frames agree on the next \<open>m\<close> bytes, and both have them.\<close>
definition agree :: "byte list \<Rightarrow> nat \<Rightarrow> byte list \<Rightarrow> nat \<Rightarrow> nat \<Rightarrow> bool" where
  "agree fr q fr' q' m \<longleftrightarrow> q + m \<le> length fr \<and> q' + m \<le> length fr' \<and> take m (drop q fr) = take m (drop q' fr')"

lemma agree_self: "q + m \<le> length fr \<Longrightarrow> agree fr q fr q m"
  by (simp add: agree_def)

lemma agree_sub:
  assumes "agree fr q fr' q' m" "k + j \<le> m"
  shows "agree fr (q + k) fr' (q' + k) j"
proof -
  have "take j (drop k (take m (drop q fr))) = take j (drop k (take m (drop q' fr')))"
    using assms(1) by (simp add: agree_def)
  moreover have "take j (drop k (take m (drop x l))) = take j (drop (x + k) l)" for x and l :: "byte list"
    using assms(2) by (simp add: drop_take min_absorb1 add.commute)
  ultimately show ?thesis using assms by (simp add: agree_def)
qed

lemma agree_slice:
  assumes "agree fr q fr' q' m" "k + j \<le> m"
  shows "slice fr (q + k) j = slice fr' (q' + k) j \<and> (\<exists>d. slice fr' (q' + k) j = Inr d \<and> length d = j)"
  using agree_sub [OF assms] by (auto simp: agree_def slice_def)

lemma agree_rd:
  assumes "agree fr q fr' q' m" "k < m"
  shows "rd fr (q + k) = rd fr' (q' + k) \<and> (\<exists>v. rd fr' (q' + k) = Inr v)"
proof -
  have "agree fr (q + k) fr' (q' + k) 1" by (rule agree_sub [OF assms(1)]) (use assms(2) in simp)
  then show ?thesis by (auto simp: agree_def rd_def take_Suc_conv_app_nth hd_drop_conv_nth take_Suc)
qed

lemma agree_rd16:
  assumes "agree fr q fr' q' m" "k + 1 < m"
  shows "rd16 fr (q + k) = rd16 fr' (q' + k) \<and> (\<exists>v. rd16 fr' (q' + k) = Inr v)"
  using agree_rd [OF assms(1), of k] agree_rd [OF assms(1), of "k + 1"] assms(2) by (auto simp: rd16_def add.assoc)

lemma agree_phy_rates:
  assumes "agree fr p fr' p' n"
  shows "phy_rates_loop fr p n res b = phy_rates_loop fr' p' n res b \<and> (\<exists>r. phy_rates_loop fr' p' n res b = Inr r)"
  using assms
proof (induction n arbitrary: p p' res b)
  case (Suc n)
  have "agree fr (p + 1) fr' (p' + 1) n" using agree_sub [OF Suc(2), of 1 n] by simp
  note IH = Suc(1) [OF this]
  from agree_rd [OF Suc(2), of 0] obtain v where "rd fr p = Inr v" "rd fr' p' = Inr v" by auto
  with IH show ?case by (simp add: Let_def del: One_nat_def)
qed simp

text \<open>How many bytes of data an element of length \<open>n\<close> makes the driver read.\<close>
definition ie_reach :: "nat \<Rightarrow> nat \<Rightarrow> nat" where
  "ie_reach ident n =
    (if ident = IE_VENDOR_SPECIFIC then max n 4
     else if ident = IE_HT_CAPABILITIES \<and> n = 7 then 8
     else if ident = IE_COUNTRY then max n 2 else n)"

lemma ie_reach_bounds: "n \<le> ie_reach ident n" "0 < n \<Longrightarrow> ie_reach ident n \<le> n + 3"
  by (auto simp: ie_reach_def)

lemma agree_country:
  assumes "agree fr p fr' p' 2"
  shows "country_to_country_code (chars (drop p fr)) = country_to_country_code (chars (drop p' fr'))
    \<and> (\<exists>c. country_to_country_code (chars (drop p' fr')) = Inr c)"
proof -
  have e: "drop x l = l ! x # l ! (x + 1) # drop (x + 2) l" if "x + 2 \<le> length l" for x and l :: "byte list"
    using that by (simp add: Cons_nth_drop_Suc)
  obtain v w where "fr ! p = v" "fr' ! p' = v" "fr ! (p + 1) = w" "fr' ! (p' + 1) = w"
    using agree_rd [OF assms, of 0] agree_rd [OF assms, of 1] by (auto simp: rd_def split: if_splits)
  moreover have "p + 2 \<le> length fr" "p' + 2 \<le> length fr'" using assms by (auto simp: agree_def)
  ultimately have "chars (drop p fr) = char_of (unat v) # char_of (unat w) # chars (drop (p + 2) fr)"
    "chars (drop p' fr') = char_of (unat v) # char_of (unat w) # chars (drop (p' + 2) fr')"
    by (simp_all add: e chars_def)
  then show ?thesis using country_to_code_total country_code_two by metis
qed

text \<open>The extractors agree and succeed where the frames do, and keep what is stored.\<close>
definition same_store :: "bss_data \<Rightarrow> bss_data \<Rightarrow> bool" where
  "same_store b b' \<longleftrightarrow> ie_used_length b' = ie_used_length b \<and> info_elements b' = info_elements b \<and> bssid b' = bssid b
     \<and> rsn_offs b' = rsn_offs b"

text \<open>Only an RSN element moves the offset of the RSN element.\<close>
definition store_kept :: "nat \<Rightarrow> bss_data \<Rightarrow> bss_data \<Rightarrow> bool" where
  "store_kept ident b b' \<longleftrightarrow> ie_used_length b' = ie_used_length b \<and> info_elements b' = info_elements b \<and> bssid b' = bssid b
     \<and> rsn_offs b' = (if ident = IE_RSN then ie_used_length b else rsn_offs b)"

lemma same_store_refl [simp]: "same_store b b"
  by (simp add: same_store_def)

lemma phy_rates_store: "phy_rates_loop fr p n res b = Inr (r, b') \<Longrightarrow> same_store b b'"
  by (induction n arbitrary: p res b)
    (auto simp: bind_result_Inr Let_def same_store_def split: if_splits)

lemma agree_extract_phy_rates:
  assumes "agree fr p fr' p' n"
  shows "ie_extract_phy_rates fr p n b = ie_extract_phy_rates fr' p' n b
    \<and> (\<exists>r b'. ie_extract_phy_rates fr' p' n b = Inr (r, b') \<and> same_store b b')"
  using agree_phy_rates [OF assms, of MTLK_ERR_OK b] phy_rates_store [of fr' p' n MTLK_ERR_OK b]
  by (auto simp: ie_extract_phy_rates_def same_store_def)

lemma agree_extract_ht_info:
  assumes "agree fr p fr' p' n"
  shows "ie_extract_ht_info fr p n b = ie_extract_ht_info fr' p' n b
    \<and> (\<exists>r b'. ie_extract_ht_info fr' p' n b = Inr (r, b') \<and> same_store b b')"
  using agree_rd [OF assms, of 0] agree_rd [OF assms, of 1]
  by (auto simp: ie_extract_ht_info_def same_store_def Let_def)

lemma agree_extract_htcap_info:
  assumes "agree fr p fr' p' m" "n = 7 \<longrightarrow> 8 \<le> m" "n \<le> m"
  shows "ie_extract_htcap_info fr p n b = ie_extract_htcap_info fr' p' n b
    \<and> (\<exists>r b'. ie_extract_htcap_info fr' p' n b = Inr (r, b') \<and> same_store b b')"
proof (cases "n < 7")
  case False
  then have "7 < m" using assms(2,3) by linarith
  then show ?thesis
    using agree_rd16 [OF assms(1), of 0] agree_rd [OF assms(1), of 3] agree_rd [OF assms(1), of 4] agree_rd [OF assms(1), of 7]
    by (auto simp: ie_extract_htcap_info_def same_store_def False)
qed (simp add: ie_extract_htcap_info_def)

lemma agree_extract_coex:
  assumes "agree fr p fr' p' n"
  shows "ie_extract_coex_el_info fr p n = ie_extract_coex_el_info fr' p' n \<and> (\<exists>r. ie_extract_coex_el_info fr' p' n = Inr r)"
    "ie_extract_intolerant_channels_report fr p n = ie_extract_intolerant_channels_report fr' p' n
      \<and> (\<exists>r. ie_extract_intolerant_channels_report fr' p' n = Inr r)"
  using agree_rd [OF assms, of 0] agree_slice [OF assms, of 1 "n - 1"]
  by (auto simp: ie_extract_coex_el_info_def ie_extract_intolerant_channels_report_def)

lemma ie_switch_agree:
  assumes a: "agree fr q fr' q' (ie_reach ident n + 2)" and n: "0 < n"
  shows "ie_switch env fr q ident n (b, ev) = ie_switch env fr' q' ident n (b, ev)
    \<and> (\<exists>b' ev'. ie_switch env fr' q' ident n (b, ev) = Inr (b', ev') \<and> store_kept ident b b')"
proof -
  have d: "agree fr (q + 2) fr' (q' + 2) (ie_reach ident n)" by (rule agree_sub [OF a]) simp
  have dn: "agree fr (q + 2) fr' (q' + 2) n" using agree_sub [OF d, of 0 n] ie_reach_bounds(1) by simp
  have w: "slice fr q (n + 2) = slice fr' q' (n + 2) \<and> (\<exists>d. slice fr' q' (n + 2) = Inr d)"
    using agree_slice [OF a, of 0 "n + 2"] ie_reach_bounds(1) [of n ident] by auto
  have r0: "rd fr (q + 2) = rd fr' (q' + 2) \<and> (\<exists>v. rd fr' (q' + 2) = Inr v)" using agree_rd [OF dn, of 0] n by simp
  consider "ident \<in> {IE_EXT_SUPP_RATES, IE_SUPPORTED_RATES}" | "ident = IE_HT_INFORMATION" | "ident = IE_SSID" | "ident = IE_RSN"
    | "ident = IE_VENDOR_SPECIFIC" | "ident \<in> {IE_DS_PARAM_SET, IE_PWR_CONSTRAINT}" | "ident = IE_HT_CAPABILITIES"
    | "ident = IE_COUNTRY" | "ident \<in> {IE_COEXISTENCE, IE_INTOLERANT_CHANNELS_REPORT}"
    | "ident \<notin> {IE_EXT_SUPP_RATES, IE_SUPPORTED_RATES, IE_HT_INFORMATION, IE_SSID, IE_RSN, IE_VENDOR_SPECIFIC,
        IE_DS_PARAM_SET, IE_PWR_CONSTRAINT, IE_HT_CAPABILITIES, IE_COUNTRY, IE_COEXISTENCE, IE_INTOLERANT_CHANNELS_REPORT}"
    by blast
  then show ?thesis
  proof cases
    case 1
    with agree_extract_phy_rates [OF dn, of b] agree_extract_phy_rates [OF dn, of "b\<lparr>is_2_4 := True\<rparr>"] show ?thesis
      by (auto simp: ie_switch_def ie_ids same_store_def store_kept_def)
  next
    case 2
    with agree_extract_ht_info [OF dn, of b] show ?thesis by (auto simp: ie_switch_def ie_ids same_store_def store_kept_def)
  next
    case 3
    with agree_slice [OF dn, of 0 "min n BSS_ESSID_MAX_SIZE"] show ?thesis by (auto simp: ie_switch_def ie_ids same_store_def store_kept_def)
  next
    case 4
    then show ?thesis by (simp add: ie_switch_def ie_ids same_store_def store_kept_def)
  next
    case 5
    with agree_slice [OF d, of 0 4] show ?thesis by (auto simp: ie_switch_def ie_ids same_store_def store_kept_def ie_reach_def)
  next
    case 6
    with r0 show ?thesis by (auto simp: ie_switch_def ie_ids same_store_def store_kept_def)
  next
    case 7
    with agree_extract_htcap_info [OF d, of n "b\<lparr>is_ht := True\<rparr>"] ie_reach_bounds(1) [of n ident] show ?thesis
      by (auto simp: ie_switch_def ie_ids same_store_def store_kept_def ie_reach_def)
  next
    case 8
    then have "agree fr (q + 2) fr' (q' + 2) 2" using agree_sub [OF d, of 0 2] by (simp add: ie_reach_def ie_ids)
    from agree_country [OF this] 8 w show ?thesis by (auto simp: ie_switch_def ie_ids same_store_def store_kept_def)
  next
    case 9
    with agree_extract_coex [OF dn] show ?thesis by (auto simp: ie_switch_def ie_ids store_kept_def split: sum.splits)
  next
    case 10
    then show ?thesis by (simp add: ie_switch_def store_kept_def)
  qed
qed

lemma ie_one_agree:
  assumes a: "agree fr q fr' q' (ie_reach (unat (fr ! q)) n + 2)" and n: "0 < n"
  shows "ie_one env fr q n st = ie_one env fr' q' n st
    \<and> (\<exists>st' ie. ie_one env fr' q' n st = Inr st' \<and> slice fr' q' (n + 2) = Inr ie
        \<and> ie_used_length (fst st') = ie_used_length (fst st) + n + 2
        \<and> info_elements (fst st') = info_elements (store_ie ie (fst st)) \<and> bssid (fst st') = bssid (fst st)
        \<and> rsn_offs (fst st') = (if unat (fr ! q) = IE_RSN then ie_used_length (fst st) else rsn_offs (fst st)))"
proof -
  obtain v where v: "rd fr q = Inr v" "rd fr' q' = Inr v" "v = fr ! q"
    using agree_rd [OF a, of 0] by (auto simp: rd_def split: if_splits)
  obtain ie where ie: "slice fr q (n + 2) = Inr ie" "slice fr' q' (n + 2) = Inr ie"
    using agree_slice [OF a, of 0 "n + 2"] ie_reach_bounds(1) [of n "unat (fr ! q)"] by auto
  from ie_switch_agree [OF a n, of env "store_ie ie (fst st)" "snd st"] obtain b' ev' where
    "ie_switch env fr q (unat v) n (store_ie ie (fst st), snd st) = Inr (b', ev')"
    "ie_switch env fr' q' (unat v) n (store_ie ie (fst st), snd st) = Inr (b', ev')" "store_kept (unat v) (store_ie ie (fst st)) b'"
    using v(3) by auto
  then show ?thesis using v ie by (auto simp: ie_one_def store_kept_def) (simp_all add: store_ie_def)
qed

section \<open>The loop\<close>

lemma store_ie_length:
  assumes "ie_used_length b + length ie \<le> length (info_elements b)"
  shows "length (info_elements (store_ie ie b)) = length (info_elements b)"
    "take (ie_used_length b + length ie) (info_elements (store_ie ie b)) = take (ie_used_length b) (info_elements b) @ ie"
  using assms by (simp_all add: store_ie_def)

lemma slice_length: "slice fr q n = Inr d \<Longrightarrow> length d = n"
  by (auto simp: slice_def split: if_splits)

lemma ie_loop_end: "\<not> 2 < flen mod 2 ^ 32 \<Longrightarrow> ie_loop env fr q flen st = Inr st"
  by (subst ie_loop.simps) simp

lemma ie_loop_stop:
  assumes "2 < flen mod 2 ^ 32" "rd fr (q + 1) = Inr lb" "n = unat lb"
    "flen < int n + 2 \<or> ie_used_length (fst st) + n + 2 > MAX_INFO_ELEMENTS_LENGTH"
  shows "ie_loop env fr q flen st = Inr st"
  using assms(1,2,4) unfolding assms(3) by (subst ie_loop.simps) (simp only: Let_def sum.case if_True, presburger)

lemma ie_loop_next:
  assumes "2 < flen mod 2 ^ 32" "rd fr (q + 1) = Inr lb" "n = unat lb"
    "\<not> (flen < int n + 2 \<or> ie_used_length (fst st) + n + 2 > MAX_INFO_ELEMENTS_LENGTH)"
    "(if n = 0 then Inr st else ie_one env fr q n st) = Inr st1"
  shows "ie_loop env fr q flen st = ie_loop env fr (q + n + 2) (flen - (int n + 2)) st1"
proof -
  have "\<not> flen < int (unat lb) + 2" "\<not> ie_used_length (fst st) + unat lb + 2 > MAX_INFO_ELEMENTS_LENGTH"
    using assms(3,4) by auto
  with assms(1,2,5) show ?thesis
    unfolding assms(3) by (subst ie_loop.simps) (simp only: Let_def sum.case if_True if_False)
qed

text \<open>With three more bytes of memory after the frame the loop ends without a fault, and writes inside the buffer of the elements.\<close>
lemma ie_loop_total:
  assumes "0 \<le> flen" "int q + flen + 3 \<le> int (length fr)"
    "ie_used_length (fst st) \<le> MAX_INFO_ELEMENTS_LENGTH" "length (info_elements (fst st)) = MAX_INFO_ELEMENTS_LENGTH"
  shows "\<exists>st'. ie_loop env fr q flen st = Inr st' \<and> ie_used_length (fst st') \<le> MAX_INFO_ELEMENTS_LENGTH
    \<and> length (info_elements (fst st')) = MAX_INFO_ELEMENTS_LENGTH"
  using assms
proof (induction env fr q flen st rule: ie_loop.induct)
  case (1 env fr q flen st)
  show ?case
  proof (cases "2 < flen mod 2 ^ 32")
    case True
    then have "q + 1 < length fr" using 1(2,3) by linarith
    then have r: "rd fr (q + 1) = Inr (fr ! (q + 1))" by (simp add: rd_def)
    define n where "n = unat (fr ! (q + 1))"
    show ?thesis
    proof (cases "int n + 2 > flen \<or> ie_used_length (fst st) + n + 2 > MAX_INFO_ELEMENTS_LENGTH")
      case stop: True
      have "ie_loop env fr q flen st = Inr st" by (rule ie_loop_stop [OF True r n_def]) (use stop in auto)
      with 1(4,5) show ?thesis by blast
    next
      case False
      have "\<exists>st1. (if n = 0 then Inr st else ie_one env fr q n st) = Inr st1
        \<and> ie_used_length (fst st1) \<le> MAX_INFO_ELEMENTS_LENGTH \<and> length (info_elements (fst st1)) = MAX_INFO_ELEMENTS_LENGTH"
      proof (cases "n = 0")
        case False
        have "agree fr q fr q (ie_reach (unat (fr ! q)) n + 2)"
          by (rule agree_self) (use ie_reach_bounds(2) [of n "unat (fr ! q)"] False \<open>\<not> (int n + 2 > flen \<or> _)\<close> 1(3) in linarith)
        from ie_one_agree [OF this, of env st] False obtain st1 ie where
          o: "ie_one env fr q n st = Inr st1" "slice fr q (n + 2) = Inr ie"
            "ie_used_length (fst st1) = ie_used_length (fst st) + n + 2"
            "info_elements (fst st1) = info_elements (store_ie ie (fst st))" by auto
        then show ?thesis
          using False \<open>\<not> (int n + 2 > flen \<or> _)\<close> 1(5) store_ie_length(1) [of "fst st" ie] slice_length [OF o(2)] by auto
      qed (use 1(4,5) in simp)
      then obtain st1 where st1: "(if n = 0 then Inr st else ie_one env fr q n st) = Inr st1"
        "ie_used_length (fst st1) \<le> MAX_INFO_ELEMENTS_LENGTH" "length (info_elements (fst st1)) = MAX_INFO_ELEMENTS_LENGTH" by blast
      have "\<exists>st'. ie_loop env fr (q + n + 2) (flen - (int n + 2)) st1 = Inr st' \<and> ie_used_length (fst st') \<le> MAX_INFO_ELEMENTS_LENGTH
          \<and> length (info_elements (fst st')) = MAX_INFO_ELEMENTS_LENGTH"
        by (rule 1(1) [OF True r n_def]) (use False 1(2,3) st1 in auto)
      moreover have "ie_loop env fr q flen st = ie_loop env fr (q + n + 2) (flen - (int n + 2)) st1"
        by (rule ie_loop_next [OF True r n_def _ st1(1)]) (use False in auto)
      ultimately show ?thesis by simp
    qed
  next
    case False
    from ie_loop_end [OF this] 1(4,5) show ?thesis by blast
  qed
qed

section \<open>Frames made of elements\<close>

type_synonym ie = "byte \<times> byte list"

definition enc_ie :: "ie \<Rightarrow> byte list" where
  "enc_ie x = fst x # of_nat (length (snd x)) # snd x"

definition enc_ies :: "ie list \<Rightarrow> byte list" where
  "enc_ies xs = concat (map enc_ie xs)"

text \<open>An element that the driver reads no further than its end.\<close>
definition well_sized :: "ie \<Rightarrow> bool" where
  "well_sized x \<longleftrightarrow> length (snd x) < 256 \<and> (snd x \<noteq> [] \<longrightarrow> ie_reach (unat (fst x)) (length (snd x)) = length (snd x))"

definition ie_effect :: "'a ie_env_scheme \<Rightarrow> ie \<Rightarrow> ie_state \<Rightarrow> ie_state" where
  "ie_effect env x st = (case ie_one env (enc_ie x) 0 (length (snd x)) st of Inr st' \<Rightarrow> st' | Inl _ \<Rightarrow> st)"

abbreviation filled :: "ie list \<Rightarrow> ie list" where
  "filled xs \<equiv> filter (\<lambda>x. snd x \<noteq> []) xs"

lemma enc_ie_length [simp]: "length (enc_ie x) = length (snd x) + 2"
  by (simp add: enc_ie_def)

lemma enc_ies_simps [simp]: "enc_ies [] = []" "enc_ies (x # xs) = enc_ie x @ enc_ies xs"
  by (simp_all add: enc_ies_def)

lemma agree_enc: "agree (pre @ enc_ie x @ post) (length pre) (enc_ie x) 0 (length (snd x) + 2)"
  by (simp add: agree_def)

lemma ie_one_effect:
  assumes "well_sized x" "snd x \<noteq> []"
  shows "ie_one env (pre @ enc_ie x @ post) (length pre) (length (snd x)) st = Inr (ie_effect env x st)"
    "ie_used_length (fst (ie_effect env x st)) = ie_used_length (fst st) + length (enc_ie x)"
    "info_elements (fst (ie_effect env x st)) = info_elements (store_ie (enc_ie x) (fst st))"
    "rsn_offs (fst (ie_effect env x st)) = (if unat (fst x) = IE_RSN then ie_used_length (fst st) else rsn_offs (fst st))"
    "bssid (fst (ie_effect env x st)) = bssid (fst st)"
proof -
  have h: "(pre @ enc_ie x @ post) ! length pre = fst x" by (simp add: enc_ie_def nth_append)
  have a: "agree (pre @ enc_ie x @ post) (length pre) (enc_ie x) 0
      (ie_reach (unat ((pre @ enc_ie x @ post) ! length pre)) (length (snd x)) + 2)"
    unfolding h using agree_enc [of pre x post] assms by (simp add: well_sized_def)
  have "slice (enc_ie x) 0 (length (snd x) + 2) = Inr (enc_ie x)" by (simp add: slice_def)
  with ie_one_agree [OF a, of env st] assms(2) show
    "ie_one env (pre @ enc_ie x @ post) (length pre) (length (snd x)) st = Inr (ie_effect env x st)"
    "ie_used_length (fst (ie_effect env x st)) = ie_used_length (fst st) + length (enc_ie x)"
    "info_elements (fst (ie_effect env x st)) = info_elements (store_ie (enc_ie x) (fst st))"
    "rsn_offs (fst (ie_effect env x st)) = (if unat (fst x) = IE_RSN then ie_used_length (fst st) else rsn_offs (fst st))"
    "bssid (fst (ie_effect env x st)) = bssid (fst st)"
    unfolding h by (auto simp: ie_effect_def)
qed

lemma ie_loop_ies:
  assumes "\<forall>x \<in> set xs. well_sized x" "ie_used_length (fst st) + length (enc_ies xs) \<le> MAX_INFO_ELEMENTS_LENGTH"
  shows "ie_loop env (pre @ enc_ies xs) (length pre) (int (length (enc_ies xs))) st = Inr (fold (ie_effect env) (filled xs) st)"
  using assms
proof (induction xs arbitrary: pre st)
  case Nil
  show ?case by (simp add: ie_loop_end)
next
  case (Cons x xs)
  let ?fr = "pre @ enc_ies (x # xs)" and ?n = "length (snd x)" and ?flen = "int (length (enc_ies (x # xs)))"
  have ws: "well_sized x" and total: "length (enc_ies (x # xs)) \<le> 512"
    using Cons(2,3) by (auto simp: MAX_INFO_ELEMENTS_LENGTH_def)
  have m: "?flen mod 2 ^ 32 = ?flen" using total by (intro mod_pos_pos_trivial) auto
  have r: "rd ?fr (length pre + 1) = Inr (of_nat ?n)" by (simp add: rd_def enc_ie_def nth_append)
  have n: "?n = unat (of_nat ?n :: byte)" using ws by (simp add: well_sized_def unat_of_nat)
  show ?case
  proof (cases "2 < ?flen")
    case False
    then have "length (enc_ies (x # xs)) \<le> 2" by linarith
    then have "length (snd x) = 0" "length (enc_ies xs) = 0" by simp_all
    then have "snd x = []" "enc_ies xs = []" by simp_all
    then have "xs = []" by (cases xs) (auto simp: enc_ie_def)
    with False m \<open>snd x = []\<close> show ?thesis by (simp add: ie_loop_end)
  next
    case True
    define st1 where "st1 = (if ?n = 0 then st else ie_effect env x st)"
    have o: "(if ?n = 0 then Inr st else ie_one env ?fr (length pre) ?n st) = Inr st1"
      using ie_one_effect(1) [OF ws, of env pre "enc_ies xs" st] by (auto simp: st1_def)
    have "ie_loop env ?fr (length pre) ?flen st = ie_loop env ?fr (length pre + ?n + 2) (?flen - (int ?n + 2)) st1"
      by (rule ie_loop_next [OF _ r n _ o]) (use True m Cons(3) in auto)
    also have "\<dots> = ie_loop env ((pre @ enc_ie x) @ enc_ies xs) (length (pre @ enc_ie x)) (int (length (enc_ies xs))) st1"
      by (simp add: add.assoc)
    also have "\<dots> = Inr (fold (ie_effect env) (filled xs) st1)"
      by (rule Cons(1)) (use Cons(2,3) ie_one_effect(2) [OF ws, of env st] in \<open>auto simp: st1_def\<close>)
    finally show ?thesis by (auto simp: st1_def)
  qed
qed

lemma effects_store:
  assumes "\<forall>x \<in> set xs. well_sized x \<and> snd x \<noteq> []" "ie_used_length (fst st) + length (enc_ies xs) \<le> MAX_INFO_ELEMENTS_LENGTH"
    "length (info_elements (fst st)) = MAX_INFO_ELEMENTS_LENGTH"
  shows "let st' = fold (ie_effect env) xs st in
    ie_used_length (fst st') = ie_used_length (fst st) + length (enc_ies xs)
    \<and> length (info_elements (fst st')) = MAX_INFO_ELEMENTS_LENGTH \<and> bssid (fst st') = bssid (fst st)
    \<and> take (ie_used_length (fst st')) (info_elements (fst st')) = take (ie_used_length (fst st)) (info_elements (fst st)) @ enc_ies xs
    \<and> (rsn_offs (fst st') = rsn_offs (fst st) \<and> (\<forall>x \<in> set xs. unat (fst x) \<noteq> IE_RSN)
       \<or> (\<exists>us x vs. xs = us @ x # vs \<and> unat (fst x) = IE_RSN \<and> rsn_offs (fst st') = ie_used_length (fst st) + length (enc_ies us)))"
  using assms
proof (induction xs arbitrary: st)
  case (Cons x xs)
  let ?st = "ie_effect env x st"
  have ws: "well_sized x" "snd x \<noteq> []" using Cons(2) by auto
  note E = ie_one_effect(2-5) [OF ws, of env st]
  have fits: "ie_used_length (fst st) + length (enc_ie x) \<le> length (info_elements (fst st))" using Cons(3,4) by simp
  note S = store_ie_length [OF fits]
  from Cons(1) [of ?st] Cons(2-4) E S have IH: "let st' = fold (ie_effect env) xs ?st in
    ie_used_length (fst st') = ie_used_length (fst ?st) + length (enc_ies xs)
    \<and> length (info_elements (fst st')) = MAX_INFO_ELEMENTS_LENGTH \<and> bssid (fst st') = bssid (fst ?st)
    \<and> take (ie_used_length (fst st')) (info_elements (fst st')) = take (ie_used_length (fst ?st)) (info_elements (fst ?st)) @ enc_ies xs
    \<and> (rsn_offs (fst st') = rsn_offs (fst ?st) \<and> (\<forall>x \<in> set xs. unat (fst x) \<noteq> IE_RSN)
       \<or> (\<exists>us x vs. xs = us @ x # vs \<and> unat (fst x) = IE_RSN \<and> rsn_offs (fst st') = ie_used_length (fst ?st) + length (enc_ies us)))"
    by simp
  let ?st' = "fold (ie_effect env) xs ?st"
  have R: "rsn_offs (fst ?st') = rsn_offs (fst st) \<and> (\<forall>y \<in> set (x # xs). unat (fst y) \<noteq> IE_RSN)
      \<or> (\<exists>us y vs. x # xs = us @ y # vs \<and> unat (fst y) = IE_RSN \<and> rsn_offs (fst ?st') = ie_used_length (fst st) + length (enc_ies us))"
    using IH unfolding Let_def
  proof (elim conjE disjE exE)
    fix us y vs
    assume "xs = us @ y # vs" "unat (fst y) = IE_RSN" "rsn_offs (fst ?st') = ie_used_length (fst ?st) + length (enc_ies us)"
    then show ?thesis using E(1) by (intro disjI2 exI [of _ "x # us"] exI [of _ y] exI [of _ vs]) simp
  next
    assume "rsn_offs (fst ?st') = rsn_offs (fst ?st)" "\<forall>x \<in> set xs. unat (fst x) \<noteq> IE_RSN"
    then show ?thesis
    proof (cases "unat (fst x) = IE_RSN")
      case True
      with \<open>rsn_offs (fst ?st') = rsn_offs (fst ?st)\<close> E(3) show ?thesis
        by (intro disjI2 exI [of _ "[]"] exI [of _ x] exI [of _ xs]) simp
    qed (use E(3) in simp)
  qed
  have u: "ie_used_length (fst ?st') = ie_used_length (fst st) + length (enc_ies (x # xs))"
    and l: "length (info_elements (fst ?st')) = MAX_INFO_ELEMENTS_LENGTH" "bssid (fst ?st') = bssid (fst st)"
    using IH E(1,4) by (simp_all add: Let_def)
  have "take (ie_used_length (fst ?st')) (info_elements (fst ?st')) = take (ie_used_length (fst ?st)) (info_elements (fst ?st)) @ enc_ies xs"
    using IH [unfolded Let_def] by (elim conjE)
  also have "\<dots> = take (ie_used_length (fst st)) (info_elements (fst st)) @ enc_ies (x # xs)"
    using S(2) by (simp only: E(1,2) enc_ies_simps append_assoc)
  finally show ?case unfolding fold_simps Let_def using u l R by blast
qed simp

lemma ie_process_ies:
  assumes "\<forall>x \<in> set xs. well_sized x" "length (enc_ies xs) \<le> MAX_INFO_ELEMENTS_LENGTH"
    "length (info_elements b) = MAX_INFO_ELEMENTS_LENGTH"
  shows "\<exists>b' ev'. ie_process env (pre @ enc_ies xs) (length pre) (int (length (enc_ies xs))) (b, ev) = Inr (b', ev')
    \<and> take (ie_used_length b') (info_elements b') = enc_ies (filled xs) \<and> ie_used_length b' = length (enc_ies (filled xs))
    \<and> bssid b' = bssid b
    \<and> (if \<forall>x \<in> set (filled xs). unat (fst x) \<noteq> IE_RSN then rsn_offs b' = 0xFFFF
       else \<exists>us x vs. filled xs = us @ x # vs \<and> unat (fst x) = IE_RSN \<and> rsn_offs b' = length (enc_ies us))"
proof -
  define ys where "ys = filled xs"
  let ?st = "(b\<lparr>basic_rate_set := 0, operational_rate_set := 0, ie_used_length := 0, rsn_offs := 0xFFFF, wpa_offs := 0xFFFF,
    wps_offs := 0xFFFF\<rparr>, ev)"
  let ?st' = "fold (ie_effect env) ys ?st"
  have len: "length (enc_ies ys) \<le> length (enc_ies xs)" unfolding ys_def by (induction xs) auto
  have ys: "\<forall>x \<in> set ys. well_sized x \<and> snd x \<noteq> []" using assms(1) by (auto simp: ys_def)
  have L: "ie_loop env (pre @ enc_ies xs) (length pre) (int (length (enc_ies xs))) ?st = Inr ?st'"
    unfolding ys_def by (rule ie_loop_ies) (use assms in auto)
  obtain b' ev' where st': "?st' = (b', ev')" by fastforce
  have "rsn_offs b' = 0xFFFF \<and> (\<forall>x \<in> set ys. unat (fst x) \<noteq> IE_RSN)
      \<or> (\<exists>us x vs. ys = us @ x # vs \<and> unat (fst x) = IE_RSN \<and> rsn_offs b' = length (enc_ies us))"
    "take (ie_used_length b') (info_elements b') = enc_ies ys" "ie_used_length b' = length (enc_ies ys)"
    "bssid b' = bssid b"
    using effects_store [OF ys, of ?st env] len assms(2,3) unfolding st' Let_def by (simp, force, simp, simp)
  note F = this
  from F(1) have R: "if \<forall>x \<in> set ys. unat (fst x) \<noteq> IE_RSN then rsn_offs b' = 0xFFFF
      else \<exists>us x vs. ys = us @ x # vs \<and> unat (fst x) = IE_RSN \<and> rsn_offs b' = length (enc_ies us)"
    by (metis in_set_conv_decomp)
  define r where "r = (if bss_unusable b' then b'\<lparr>essid := []\<rparr> else b')"
  have P: "ie_process env (pre @ enc_ies xs) (length pre) (int (length (enc_ies xs))) (b, ev) = Inr (r, ev')"
    using L by (simp add: ie_process_def st' r_def)
  have r: "ie_used_length r = ie_used_length b'" "info_elements r = info_elements b'" "rsn_offs r = rsn_offs b'" "bssid r = bssid b'"
    by (simp_all add: r_def)
  show ?thesis
    unfolding ys_def [symmetric] by (intro exI [of _ r] exI [of _ ev'] conjI P) (unfold r, (rule F(2-4) R)+)
qed

section \<open>What the parser promises\<close>

text \<open>
  C26: A frame body that is a sequence of elements, together no longer than the buffer of 512 bytes, and whose elements the driver does not read beyond
  their ends, is parsed completely: the buffer holds exactly the elements that are not empty, in their order and unchanged,
  and the offset of the RSN element is that of an RSN element in it, or \<^verbatim>\<open>0xFFFF\<close> when there is none.
\<close>
theorem ie_process_round_trip:
  assumes "\<forall>x \<in> set xs. well_sized x" "length (enc_ies xs) \<le> MAX_INFO_ELEMENTS_LENGTH"
    "length (info_elements b) = MAX_INFO_ELEMENTS_LENGTH"
  shows "\<exists>b' ev'. ie_process env (pre @ enc_ies xs) (length pre) (int (length (enc_ies xs))) (b, ev) = Inr (b', ev')
    \<and> take (ie_used_length b') (info_elements b') = enc_ies (filled xs) \<and> ie_used_length b' = length (enc_ies (filled xs))
    \<and> (if \<forall>x \<in> set (filled xs). unat (fst x) \<noteq> IE_RSN then rsn_offs b' = 0xFFFF
       else \<exists>us x vs. filled xs = us @ x # vs \<and> unat (fst x) = IE_RSN \<and> rsn_offs b' = length (enc_ies us))"
  using ie_process_ies [OF assms, of env pre ev] by blast

theorem ie_process_round_trip_witness:
  "\<exists>b' ev'. ie_process \<lparr>coex_enabled = False, band_2_4 = True, env_is_ap = False\<rparr>
      (replicate 36 0 @ enc_ies [(0, [0x61, 0x62]), (1, []), (3, [6]), (48, [1, 0])]) 36 13 (bss_zero, []) = Inr (b', ev')
    \<and> take (ie_used_length b') (info_elements b') = [0, 2, 0x61, 0x62, 3, 1, 6, 48, 2, 1, 0] \<and> ie_used_length b' = 11 \<and> rsn_offs b' = 7"
proof -
  let ?xs = "[(0, [0x61, 0x62]), (1, []), (3, [6]), (48, [1, 0])] :: ie list"
  have a: "\<forall>x \<in> set ?xs. well_sized x" "length (enc_ies ?xs) \<le> MAX_INFO_ELEMENTS_LENGTH"
    "length (info_elements bss_zero) = MAX_INFO_ELEMENTS_LENGTH"
    by (simp_all add: well_sized_def ie_reach_def ie_ids enc_ie_def MAX_INFO_ELEMENTS_LENGTH_def bss_zero_def)
  have f: "filled ?xs = us @ x # vs \<and> unat (fst x) = IE_RSN \<Longrightarrow> length (enc_ies us) = 7" for us x vs
    by (auto simp: Cons_eq_append_conv ie_ids)
  show ?thesis
    using ie_process_round_trip [OF a, of "\<lparr>coex_enabled = False, band_2_4 = True, env_is_ap = False\<rparr>" "replicate 36 0" "[]"] f
    by (auto simp: enc_ie_def ie_ids)
qed

text \<open>
  C28: Parsing the elements of a frame whose body begins within it, or at its end, ends, never writes outside the buffer of the elements, and never reads more than three
  bytes beyond the end of the frame, whatever the body holds: with three more bytes of memory it cannot fault. Two are not enough: a vendor specific
  element with one byte of data at the end makes the driver compare four. A frame that is shorter than its fixed header is not
  covered: the length of its body is negative, and the loop reads further beyond.
\<close>
theorem ie_process_overread_bounded:
  assumes "q \<le> length fr" "3 \<le> length pad" "length (info_elements b) = MAX_INFO_ELEMENTS_LENGTH"
  shows "(\<exists>b' ev'. ie_process env (fr @ pad) q (int (length fr) - int q) (b, ev) = Inr (b', ev')
      \<and> ie_used_length b' \<le> MAX_INFO_ELEMENTS_LENGTH \<and> length (info_elements b') = MAX_INFO_ELEMENTS_LENGTH)
    \<and> ie_process env ([221, 1, 0] @ [0, 0]) 0 3 (b, ev) = Inl Out_of_bounds"
proof
  let ?st = "(b\<lparr>basic_rate_set := 0, operational_rate_set := 0, ie_used_length := 0, rsn_offs := 0xFFFF, wpa_offs := 0xFFFF,
    wps_offs := 0xFFFF\<rparr>, ev)"
  have "\<exists>st'. ie_loop env (fr @ pad) q (int (length fr) - int q) ?st = Inr st' \<and> ie_used_length (fst st') \<le> MAX_INFO_ELEMENTS_LENGTH
      \<and> length (info_elements (fst st')) = MAX_INFO_ELEMENTS_LENGTH"
    by (rule ie_loop_total) (use assms in auto)
  then show "\<exists>b' ev'. ie_process env (fr @ pad) q (int (length fr) - int q) (b, ev) = Inr (b', ev')
      \<and> ie_used_length b' \<le> MAX_INFO_ELEMENTS_LENGTH \<and> length (info_elements b') = MAX_INFO_ELEMENTS_LENGTH"
    by (auto simp: ie_process_def)
  show "ie_process env ([221, 1, 0] @ [0, 0]) 0 3 (b, ev) = Inl Out_of_bounds"
    by (subst ie_process_def, subst ie_loop.simps)
      (simp add: rd_def ie_one_def slice_def ie_switch_def ie_ids store_ie_def MAX_INFO_ELEMENTS_LENGTH_def)
qed

theorem ie_process_overread_bounded_witness:
  "\<exists>b' ev'. ie_process \<lparr>coex_enabled = True, band_2_4 = True, env_is_ap = True\<rparr> ([45, 7, 0, 0, 0, 255, 0, 0, 0] @ [0, 0, 0]) 0 9
      (bss_zero, []) = Inr (b', ev') \<and> ie_used_length b' \<le> 512"
  using ie_process_overread_bounded [of 0 "[45, 7, 0, 0, 0, 255, 0, 0, 0]" "[0, 0, 0]" bss_zero
    "\<lparr>coex_enabled = True, band_2_4 = True, env_is_ap = True\<rparr>" "[]"]
  by (auto simp: bss_zero_def MAX_INFO_ELEMENTS_LENGTH_def)

text \<open>
  An HT capabilities element of seven bytes passes the length check, and makes the driver read an eighth.
\<close>
lemma ht_capabilities_overread:
  "ie_extract_htcap_info (pre @ d) (length pre) (length d) b = Inl Out_of_bounds \<longleftrightarrow> length d = 7"
proof -
  have "rd (pre @ d) (length pre + k) = (if k < length d then Inr (d ! k) else Inl Out_of_bounds)" for k
    by (simp add: rd_def nth_append)
  note r = this this [of 0, simplified] this [of 1, simplified]
  consider "length d < 7" | "length d = 7" "d \<noteq> []" | "7 < length d" "d \<noteq> []" by fastforce
  then show ?thesis
    by cases (simp_all add: ie_extract_htcap_info_def rd16_def r add.assoc)
qed

text \<open>
  A vendor specific action frame whose header is consistent, with no data but a number of items that is not zero, makes the
  driver read the first item beyond the end of the frame: the number of items is never compared with the length.
\<close>
lemma vendor_action_overread:
  "process_action_frame_vendor_specific (pre @ [0x00, 0x09, 0x86, 1, 0, 0, 0, 0, 0, 0, 0, a, b, c, d]) (length pre) 15 =
    (if a = 0 \<and> b = 0 \<and> c = 0 \<and> d = 0 then Inr [] else Inl Out_of_bounds)"
proof -
  let ?h = "[0x00, 0x09, 0x86, 1, 0, 0, 0, 0, 0, 0, 0, a, b, c, d] :: byte list"
  let ?n = "unat a + 256 * unat b + 65536 * (unat c + 256 * unat d)"
  have r: "rd (pre @ ?h) (length pre + k) = (if k < 15 then Inr (?h ! k) else Inl Out_of_bounds)" for k
    by (simp add: rd_def nth_append)
  have r32: "rd32 (pre @ ?h) (length pre + k) = (if k + 3 < 15 then Inr (unat (?h ! k) + 256 * unat (?h ! (k + 1))
      + 65536 * (unat (?h ! (k + 2)) + 256 * unat (?h ! (k + 3)))) else Inl Out_of_bounds)" for k
    by (simp only: rd32_def rd16_def add.assoc r) simp
  have s: "slice (pre @ ?h) (length pre) 3 = Inr [0x00, 0x09, 0x86]" by (simp add: slice_def)
  have z: "?n = 0 \<longleftrightarrow> a = 0 \<and> b = 0 \<and> c = 0 \<and> d = 0" by (simp add: unat_eq_0)
  have "process_action_frame_vendor_specific (pre @ ?h) (length pre) 15 = vsaf_items (pre @ ?h) ?n (length pre + 15) 0 []"
    unfolding process_action_frame_vendor_specific_def s r32 by simp
  also have "\<dots> = (if ?n = 0 then Inr [] else Inl Out_of_bounds)"
    using r32 [of 15] by (cases ?n) (simp_all only: vsaf_items.simps, simp_all)
  finally show ?thesis unfolding z .
qed

lemma rd_append: "i < length h \<Longrightarrow> rd (h @ ies) i = Inr (h ! i)"
  by (simp add: rd_def nth_append)

lemma slice_append: "i + n \<le> length h \<Longrightarrow> slice (h @ ies) i n = Inr (take n (drop i h))"
  by (simp add: slice_def)

lemma bss_from_head_total:
  assumes "length h = 36"
  shows "\<exists>b. bss_from_head (h @ ies) rx ts a = Inr b \<and> bssid b = a \<and> length (info_elements b) = MAX_INFO_ELEMENTS_LENGTH"
  using assms by (simp add: bss_from_head_def rd32_def rd16_def rd_append bss_zero_def)

text \<open>A beacon or probe response of a header and elements that the driver reads no further than their ends reaches \<open>process_beacon\<close>, which describes the network.\<close>
lemma beacon_described:
  assumes "length h = 36" "(unat (h ! 0) + 256 * unat (h ! 1)) div 16 mod 16 \<in> {5, 8}"
    "\<forall>x \<in> set xs. well_sized x" "length (enc_ies xs) \<le> MAX_INFO_ELEMENTS_LENGTH"
  obtains b0 b ev where "bss_from_head (h @ enc_ies xs) rx (man_timestamp env) (take 6 (drop 16 h)) = Inr b0"
    "ie_process env (h @ enc_ies xs) 36 (int (length (h @ enc_ies xs)) - 36) (b0, []) = Inr (b, ev)"
    "bssid b = take 6 (drop 16 h)" "take (ie_used_length b) (info_elements b) = enc_ies (filled xs)"
    "mtlk_process_man_frame coex env (h @ enc_ies xs) rx x = process_beacon coex env (h @ enc_ies xs) rx (take 6 (drop 10 h)) (take 6 (drop 16 h)) x"
proof -
  let ?fr = "h @ enc_ies xs" and ?a = "take 6 (drop 16 h)"
  obtain b0 where b0: "bss_from_head ?fr rx (man_timestamp env) ?a = Inr b0" "bssid b0 = ?a"
    "length (info_elements b0) = MAX_INFO_ELEMENTS_LENGTH"
    using bss_from_head_total [OF assms(1)] by blast
  have "int (length ?fr) - 36 = int (length (enc_ies xs))" using assms(1) by simp
  then obtain b ev where b: "ie_process env ?fr 36 (int (length ?fr) - 36) (b0, []) = Inr (b, ev)" "bssid b = ?a"
    "take (ie_used_length b) (info_elements b) = enc_ies (filled xs)"
    using ie_process_ies [OF assms(3,4) b0(3), of env h "[]"] assms(1) b0(2) by auto
  have "rd16 ?fr 0 = Inr (unat (h ! 0) + 256 * unat (h ! 1))" using assms(1) by (simp add: rd16_def rd_append)
  moreover have "slice ?fr 16 6 = Inr ?a" "slice ?fr 10 6 = Inr (take 6 (drop 10 h))"
    using assms(1) by (simp_all add: slice_append del: append_take_drop_id)
  ultimately have "mtlk_process_man_frame coex env ?fr rx x = process_beacon coex env ?fr rx (take 6 (drop 10 h)) ?a x"
    using assms(2) by (auto simp: mtlk_process_man_frame_def Let_def)
  with that b0(1) b show ?thesis by blast
qed

end
