(* ===== verification/Frame_Ctl.thy ===== *)
theory Frame_Ctl
  imports Frame_Ie Rates
begin

text \<open>
  The rest of \<^verbatim>\<open>driver/shared/frame.c\<close>: control frames (the block-ack request, which moves the window of a reordering queue)
  and the capabilities of a station that connects, as bit fields of what the firmware reports.
\<close>

unbundle bit_operations_syntax

section \<open>Control frames\<close>

definition IEEE80211_STYPE_BAR :: nat where "IEEE80211_STYPE_BAR = 0x80"

definition WLAN_FC_GET_STYPE :: "nat \<Rightarrow> nat" where
  "WLAN_FC_GET_STYPE fc = fc AND 0xF0"

text \<open>The call of \<^verbatim>\<open>mtlk_handle_bar\<close> that the frame leads to: transmitter, TID, starting sequence number.\<close>
definition mtlk_process_ctl_frame :: "byte list \<Rightarrow> c_fault + (mac_addr \<times> nat \<times> nat) option" where
  "mtlk_process_ctl_frame fr =
    bind_result (rd16 fr 0) (\<lambda>fc.
      if WLAN_FC_GET_STYPE fc = IEEE80211_STYPE_BAR then
        bind_result (rd16 fr 16) (\<lambda>bar_ctl. bind_result (rd16 fr 18) (\<lambda>ssn. bind_result (slice fr 10 6) (\<lambda>ta.
          Inr (Some (ta, drop_bit 12 (bar_ctl AND 0xF000) mod 256, drop_bit 4 (ssn AND 0xFFF0))))))
      else Inr None)"

definition NTS_TIDS :: nat where "NTS_TIDS = 8"

datatype bar_verdict = Bar_wrong_tid | Bar_unknown_peer | Bar_processed nat nat

text \<open>\<^verbatim>\<open>mtlk_handle_bar\<close>: the station is looked up only for a TID that has a queue.\<close>
definition mtlk_handle_bar :: "(mac_addr \<Rightarrow> 'sta option) \<Rightarrow> mac_addr \<times> nat \<times> nat \<Rightarrow> bar_verdict \<times> 'sta option" where
  "mtlk_handle_bar find_sta bar =
    (case bar of (ta, tid, ssn) \<Rightarrow>
      if tid \<ge> NTS_TIDS then (Bar_wrong_tid, None)
      else (case find_sta ta of None \<Rightarrow> (Bar_unknown_peer, None) | Some sta \<Rightarrow> (Bar_processed tid ssn, Some sta)))"

definition le16 :: "nat \<Rightarrow> byte list" where
  "le16 v = [of_nat (v mod 256), of_nat (v div 256 mod 256)]"

lemma le16_length [simp]: "length (le16 v) = 2"
  by (simp add: le16_def)

lemma rd16_le16:
  assumes "v < 65536"
  shows "rd16 (pre @ le16 v @ post) (length pre) = Inr v"
proof -
  have "v mod 256 + 256 * (v div 256 mod 256) = v" using assms by (simp add: mod_less)
  then show ?thesis by (simp add: rd16_def rd_def le16_def nth_append unat_of_nat)
qed

lemma upper_field:
  fixes lo hi :: nat
  assumes "lo < 2 ^ k" "hi < 2 ^ m"
  shows "drop_bit k ((lo + 2 ^ k * hi) AND push_bit k (mask m)) = hi"
proof -
  have "drop_bit k (lo + 2 ^ k * hi) = hi" using assms(1) by (simp add: drop_bit_eq_div)
  moreover have "drop_bit k (push_bit k (mask m)) = (mask m :: nat)" by (simp add: drop_bit_push_bit)
  ultimately show ?thesis using assms(2) by (simp add: drop_bit_and take_bit_nat_eq_self flip: take_bit_eq_mask)
qed

lemma upper_field_masks: "push_bit 12 (mask 4) = (0xF000 :: nat)" "push_bit 4 (mask 12) = (0xFFF0 :: nat)"
  by (simp_all add: push_bit_eq_mult mask_eq_exp_minus_1)

text \<open>
  A block-ack request is decoded to its transmitter, the upper four bits of its control word and the upper
  twelve of its sequence control: every sequence number is below 4096, whatever the frame.
\<close>
lemma bar_round_trip:
  assumes "length ra = 6" "length ta = 6" "fc < 65536" "dur < 65536" "WLAN_FC_GET_STYPE fc = IEEE80211_STYPE_BAR"
    "tid < 16" "ssn < 4096" "ctl < 4096" "frag < 16"
  shows "mtlk_process_ctl_frame (le16 fc @ le16 dur @ ra @ ta @ le16 (ctl + 4096 * tid) @ le16 (frag + 16 * ssn) @ post) =
    Inr (Some (ta, tid, ssn))"
proof -
  let ?fr = "le16 fc @ le16 dur @ ra @ ta @ le16 (ctl + 4096 * tid) @ le16 (frag + 16 * ssn) @ post"
  have "rd16 ?fr 0 = Inr fc" using rd16_le16 [OF assms(3), of "[]"] by simp
  moreover have "rd16 ?fr 16 = Inr (ctl + 4096 * tid)"
    using rd16_le16 [of "ctl + 4096 * tid" "le16 fc @ le16 dur @ ra @ ta"] assms by simp
  moreover have "rd16 ?fr 18 = Inr (frag + 16 * ssn)"
    using rd16_le16 [of "frag + 16 * ssn" "le16 fc @ le16 dur @ ra @ ta @ le16 (ctl + 4096 * tid)"] assms by simp
  moreover have "slice ?fr 10 6 = Inr ta" using assms(1,2) by (simp add: slice_def)
  moreover have "drop_bit 12 ((ctl + 4096 * tid) AND 0xF000) mod 256 = tid"
    using upper_field [of ctl 12 tid 4] assms(6,8) unfolding upper_field_masks by simp
  moreover have "drop_bit 4 ((frag + 16 * ssn) AND 0xFFF0) = ssn"
    using upper_field [of frag 4 ssn 12] assms(7,9) unfolding upper_field_masks by simp
  ultimately show ?thesis using assms(5) by (simp add: mtlk_process_ctl_frame_def)
qed

section \<open>Capabilities of a station\<close>

record sta_capabilities =
  NetModesSupported :: "32 word"
  MIMOConfigTX :: byte
  MIMOConfigRX :: byte
  WMMSupported :: byte
  CBSupported :: byte
  SGI20Supported :: byte
  SGI40Supported :: byte
  AMPDUMaxLengthExp :: byte
  AMPDUMinStartSpacing :: byte
  STBCSupported :: bool
  LDPCSupported :: byte
  Vendor :: byte
  LQLDPCEnabled :: byte
  BFSupported :: bool

definition LM_PHY_11A_RATE_MSK :: "32 word" where "LM_PHY_11A_RATE_MSK = 0xFF"
definition LM_PHY_11B_RATE_MSK :: "32 word" where "LM_PHY_11B_RATE_MSK = 0x7F00"
definition LM_PHY_11G_RATE_MSK :: "32 word" where "LM_PHY_11G_RATE_MSK = LM_PHY_11A_RATE_MSK OR LM_PHY_11B_RATE_MSK"
definition MTLK_WSSA_11A_SUPPORTED :: nat where "MTLK_WSSA_11A_SUPPORTED = 0"
definition MTLK_WSSA_11B_SUPPORTED :: nat where "MTLK_WSSA_11B_SUPPORTED = 1"
definition MTLK_WSSA_11G_SUPPORTED :: nat where "MTLK_WSSA_11G_SUPPORTED = 2"
definition MTLK_WSSA_11N_SUPPORTED :: nat where "MTLK_WSSA_11N_SUPPORTED = 3"

lemmas wssa_defs = LM_PHY_11A_RATE_MSK_def LM_PHY_11B_RATE_MSK_def LM_PHY_11G_RATE_MSK_def LM_PHY_11N_RATE_MSK_def
  MTLK_WSSA_11A_SUPPORTED_def MTLK_WSSA_11B_SUPPORTED_def MTLK_WSSA_11G_SUPPORTED_def MTLK_WSSA_11N_SUPPORTED_def

definition MTLK_BIT_SET :: "'a::len word \<Rightarrow> nat \<Rightarrow> bool \<Rightarrow> 'a word" where
  "MTLK_BIT_SET var bitno val = MTLK_U_BITS_SET var bitno 1 (of_bool val)"

definition net_modes_supported :: "bool \<Rightarrow> 32 word \<Rightarrow> 32 word" where
  "net_modes_supported band24 rates =
    (let m = (if band24 then MTLK_BIT_SET (MTLK_BIT_SET 0 MTLK_WSSA_11B_SUPPORTED (rates AND LM_PHY_11B_RATE_MSK \<noteq> 0))
                       MTLK_WSSA_11G_SUPPORTED (rates AND LM_PHY_11G_RATE_MSK \<noteq> 0)
              else MTLK_BIT_SET 0 MTLK_WSSA_11A_SUPPORTED (rates AND LM_PHY_11A_RATE_MSK \<noteq> 0))
     in MTLK_BIT_SET m MTLK_WSSA_11N_SUPPORTED (rates AND LM_PHY_11N_RATE_MSK \<noteq> 0))"

definition mtlk_frame_process_sta_capabilities ::
  "byte \<Rightarrow> 16 word \<Rightarrow> byte \<Rightarrow> 32 word \<Rightarrow> byte \<Rightarrow> 32 word \<Rightarrow> bool \<Rightarrow> sta_capabilities" where
  "mtlk_frame_process_sta_capabilities lq_proprietry ht ampdu tx_bf wme rates band24 =
    (let tx = ucast (MTLK_U_BITS_GET ht 7 1); rx = ucast (MTLK_U_BITS_GET ht 8 2) in
     \<lparr>NetModesSupported = net_modes_supported band24 rates, MIMOConfigTX = tx, MIMOConfigRX = rx, WMMSupported = wme,
      CBSupported = ucast (MTLK_U_BITS_GET ht 1 1), SGI20Supported = ucast (MTLK_U_BITS_GET ht 5 1),
      SGI40Supported = ucast (MTLK_U_BITS_GET ht 6 1), AMPDUMaxLengthExp = MTLK_U_BITS_GET ampdu 0 2,
      AMPDUMinStartSpacing = MTLK_U_BITS_GET ampdu 2 3, STBCSupported = (tx \<noteq> 0 \<or> rx \<noteq> 0),
      LDPCSupported = ucast (MTLK_U_BITS_GET ht 0 1), Vendor = MTLK_U_BITS_GET lq_proprietry 0 3,
      LQLDPCEnabled = MTLK_U_BITS_GET lq_proprietry 3 1, BFSupported = (tx_bf \<noteq> 0)\<rparr>)"

lemma bit_BIT_SET [simp]:
  "k < LENGTH('a) \<Longrightarrow> bit (MTLK_BIT_SET (m :: 'a::len word) k v) j \<longleftrightarrow> (if j = k then v else bit m j)"
  by (auto simp: MTLK_BIT_SET_def bits_defs bit_simps dest: bit_imp_le_length)

text \<open>
  The mode bits are those of the band with the 802.11n bit. The mask of the 802.11g rates contains the 802.11b rates, so
  a station in the 2.4 GHz band that supports a rate of 802.11b is reported as one of 802.11g, whatever else it supports.
\<close>
lemma net_modes_bits:
  "bit (net_modes_supported band24 rates) j \<longleftrightarrow>
    (j = 0 \<and> \<not> band24 \<and> rates AND 0xFF \<noteq> 0) \<or> (j = 1 \<and> band24 \<and> rates AND 0x7F00 \<noteq> 0)
    \<or> (j = 2 \<and> band24 \<and> rates AND 0x7FFF \<noteq> 0) \<or> (j = 3 \<and> rates AND 0xFFFF8000 \<noteq> 0)"
  by (auto simp: net_modes_supported_def Let_def wssa_defs)

lemma g_only_by_b_rates: "bit (net_modes_supported True rates) 1 \<Longrightarrow> bit (net_modes_supported True rates) 2"
proof -
  assume "bit (net_modes_supported True rates) 1"
  then have "rates AND 0x7F00 \<noteq> 0" by (simp add: net_modes_bits)
  moreover have "rates AND 0x7FFF = 0 \<Longrightarrow> rates AND 0x7F00 = 0"
  proof -
    assume "rates AND 0x7FFF = 0"
    moreover have "rates AND 0x7F00 = (rates AND 0x7FFF) AND 0x7F00" by (simp add: and.assoc)
    ultimately show ?thesis by simp
  qed
  ultimately show ?thesis by (auto simp: net_modes_bits)
qed

lemma stbc_iff:
  "STBCSupported (mtlk_frame_process_sta_capabilities lq ht ampdu bf wme rates band24) \<longleftrightarrow> bit ht 7 \<or> bit ht 8 \<or> bit ht 9"
proof -
  have z: "w \<noteq> 0 \<longleftrightarrow> (\<exists>n < 8. bit w n)" for w :: byte
    using bit_word_eqI [of w 0] by auto
  have "ucast (MTLK_U_BITS_GET ht 7 1) \<noteq> (0 :: byte) \<longleftrightarrow> bit ht 7"
    by (auto simp: z bits_defs bit_simps)
  moreover have "ucast (MTLK_U_BITS_GET ht 8 2) \<noteq> (0 :: byte) \<longleftrightarrow> bit ht 8 \<or> bit ht 9"
    by (auto simp: z bits_defs bit_simps less_2_cases_iff intro: exI [of _ 0] exI [of _ 1])
  ultimately show ?thesis unfolding mtlk_frame_process_sta_capabilities_def Let_def by auto
qed

end
