(* ===== verification/Coex.thy ===== *)
theory Coex
  imports Frame_Ie
begin

text \<open>
  The 20/40 MHz coexistence of an access point: the state machine \<^verbatim>\<open>rflib/shared/coex20_40.c\<close> with its children, the
  evaluator of the permission to use 40 MHz (\<^verbatim>\<open>coexlve.c\<close>), the policy of scan exemptions (\<^verbatim>\<open>scexempt.c\<close>), the
  channel switch (\<^verbatim>\<open>cbsmgr.c\<close>) and the frame generator (\<^verbatim>\<open>coexfrgen.c\<close>), and the callbacks the core gives them. The
  channel pairs of \<^verbatim>\<open>mtlk_channels.c\<close> and the scan cache, which the evaluator enumerates, are composed. A call is one step, and its clock
  is read once. The handlers of elements, scan results, beacons, stations and the timer hold the lock of the state machine; \<^verbatim>\<open>mtlk_20_40_limit_to_20\<close>,
  \<^verbatim>\<open>mtlk_20_40_start\<close>, \<^verbatim>\<open>mtlk_20_40_stop\<close> and the setters of the configuration take no lock in the source, so for these calls the step is an assumption: nothing
  else uses the machine meanwhile.
\<close>

section \<open>Channels\<close>

definition UMI_CHANNEL_SW_MODE_SCN :: nat where "UMI_CHANNEL_SW_MODE_SCN = 0"
definition UMI_CHANNEL_SW_MODE_SCA :: nat where "UMI_CHANNEL_SW_MODE_SCA = 0x10"
definition UMI_CHANNEL_SW_MODE_SCB :: nat where "UMI_CHANNEL_SW_MODE_SCB = 0x30"

lemmas sw_modes = UMI_CHANNEL_SW_MODE_SCN_def UMI_CHANNEL_SW_MODE_SCA_def UMI_CHANNEL_SW_MODE_SCB_def

datatype alternate = ALTERNATE_UPPER | ALTERNATE_LOWER

definition rest_of_world_2ghz_pairs :: "(nat \<times> nat \<times> alternate) list" where
  "rest_of_world_2ghz_pairs =
    [(1, 5, ALTERNATE_UPPER), (2, 6, ALTERNATE_UPPER), (3, 7, ALTERNATE_UPPER), (4, 8, ALTERNATE_UPPER),
     (5, 1, ALTERNATE_LOWER), (5, 9, ALTERNATE_UPPER), (6, 2, ALTERNATE_LOWER), (6, 10, ALTERNATE_UPPER),
     (7, 3, ALTERNATE_LOWER), (7, 11, ALTERNATE_UPPER), (8, 4, ALTERNATE_LOWER), (9, 5, ALTERNATE_LOWER),
     (10, 6, ALTERNATE_LOWER), (11, 7, ALTERNATE_LOWER)]"

fun find_pair :: "nat \<Rightarrow> nat \<Rightarrow> (nat \<times> nat \<times> alternate) list \<Rightarrow> nat option" where
  "find_pair p off [] = None"
| "find_pair p off ((q, s, a) # ps) =
    (if p = q \<and> (off = UMI_CHANNEL_SW_MODE_SCA \<and> a = ALTERNATE_UPPER \<or> off = UMI_CHANNEL_SW_MODE_SCB \<and> a = ALTERNATE_LOWER)
     then Some s else find_pair p off ps)"

definition mtlk_channels_find_secondary_channel_no :: "nat \<Rightarrow> nat \<Rightarrow> nat option" where
  "mtlk_channels_find_secondary_channel_no p off =
    (if off = UMI_CHANNEL_SW_MODE_SCA \<or> off = UMI_CHANNEL_SW_MODE_SCB then find_pair p off rest_of_world_2ghz_pairs else None)"

definition channel_to_band_2_4 :: "nat \<Rightarrow> bool" where
  "channel_to_band_2_4 ch \<longleftrightarrow> ch < 36"

definition channel_to_frequency :: "nat \<Rightarrow> nat" where
  "channel_to_frequency ch =
    (if channel_to_band_2_4 ch then 2407 + 5 * ch + (if ch = 14 then 7 else 0)
     else if ch < 180 then 5000 + 5 * ch else 4000 + 5 * ch) mod 2 ^ 16"

section \<open>State\<close>

datatype eCSM_STATES = CSM_STATE_NOT_STARTED | CSM_STATE_20 | CSM_STATE_20_40

datatype coex_counter =
    NOF_COEX_EL_RECEIVED | NOF_COEX_EL_SCAN_EXEMPTION_REQUESTED | NOF_COEX_EL_SCAN_EXEMPTION_GRANTED
  | NOF_COEX_EL_SCAN_EXEMPTION_GRANT_CANCELLED | NOF_CHANNEL_SWITCH_20_TO_40 | NOF_CHANNEL_SWITCH_40_TO_20
  | NOF_CHANNEL_SWITCH_40_TO_40

record intolerant_channel =
  primary :: bool
  primary_detection_ts :: nat
  secondary :: bool
  secondary_detection_ts :: nat
  intolerant :: bool
  intolerant_detection_ts :: nat

record exemption_descriptor =
  ed_addr :: mac_addr
  slot_used :: bool
  supports_coexistence :: bool
  exempt :: bool
  ed_intolerant :: bool
  legacy :: bool

text \<open>The messages that leave the state machine: channel switches and coexistence frames with the grant they carry.\<close>
datatype coex_event = Switch_to_20 nat | Switch_to_40 nat nat | Coex_frame mac_addr bool

record coex_sm =
  coexistence_mode :: bool
  intolerance_mode :: bool
  limited_to_20 :: bool
  exemption_req :: bool
  intolerance_at_first_scan :: bool
  delay_factor :: nat
  obss_scan_interval :: nat
  transition_timer :: "nat option"
  general_detected :: bool
  general_detection_ts :: nat
  channels_list :: "intolerant_channel list"
  csm_state :: eCSM_STATES
  lvt_op_permitted :: bool
  descriptors :: "exemption_descriptor list"
  mode_cfg_enabled :: bool
  timer_step :: bool
  wss_node :: bool
  wss_cntrs :: bool
  coex_cnt :: "coex_counter \<Rightarrow> nat"
  coex_cache :: scan_cache
  coex_log :: "coex_event list"

text \<open>What the core answers during a handler: the clock, the channel in use and its spectrum, the configured channel.\<close>
record coex_env =
  ce_now :: nat
  ce_to_ms :: "nat \<Rightarrow> nat"
  ce_channel_cur :: nat
  ce_channel_cfg :: nat
  ce_spectrum_40 :: bool
  ce_bonding :: alternate

definition get_cur_channels :: "coex_env \<Rightarrow> nat \<times> nat" where
  "get_cur_channels env =
    (ce_channel_cur env,
     if ce_spectrum_40 env then (if ce_bonding env = ALTERNATE_UPPER then UMI_CHANNEL_SW_MODE_SCA else UMI_CHANNEL_SW_MODE_SCB)
     else UMI_CHANNEL_SW_MODE_SCN)"

definition mtlk_osal_time_passed_ms :: "coex_env \<Rightarrow> nat \<Rightarrow> nat" where
  "mtlk_osal_time_passed_ms env ts = ce_to_ms env (u32_sub (ce_now env) ts)"

definition mtlk_osal_time_after :: "nat \<Rightarrow> nat \<Rightarrow> bool" where
  "mtlk_osal_time_after tm1 tm2 \<longleftrightarrow> 2 ^ 31 \<le> u32_sub tm2 tm1"

definition inc_cnt :: "coex_counter \<Rightarrow> coex_sm \<Rightarrow> coex_sm" where
  "inc_cnt k s = s\<lparr>coex_cnt := (coex_cnt s)(k := u32_inc (coex_cnt s k))\<rparr>"

definition emit :: "coex_event \<Rightarrow> coex_sm \<Rightarrow> coex_sm" where
  "emit e s = s\<lparr>coex_log := coex_log s @ [e]\<rparr>"

definition mtlk_20_40_calc_transition_timer :: "coex_sm \<Rightarrow> nat" where
  "mtlk_20_40_calc_transition_timer s = (1000 * delay_factor s * obss_scan_interval s) mod u32_max"

definition timer_set :: "coex_sm \<Rightarrow> coex_sm" where
  "timer_set s = s\<lparr>transition_timer := Some (mtlk_20_40_calc_transition_timer s)\<rparr>"

definition timer_cancel :: "coex_sm \<Rightarrow> coex_sm" where
  "timer_cancel s = s\<lparr>transition_timer := None\<rparr>"

text \<open>The condition under which most handlers arm the transition timer.\<close>
definition timer_set_unless_limited :: "coex_sm \<Rightarrow> coex_sm" where
  "timer_set_unless_limited s = (if \<not> limited_to_20 s \<and> \<not> intolerance_at_first_scan s then timer_set s else s)"

definition active :: "coex_env \<Rightarrow> coex_sm \<Rightarrow> bool" where
  "active env s \<longleftrightarrow> coexistence_mode s \<and> channel_to_band_2_4 (ce_channel_cur env)"

section \<open>The channel switch\<close>

definition switch_to_20 :: "nat \<Rightarrow> coex_sm \<Rightarrow> coex_sm" where
  "switch_to_20 ch s = inc_cnt NOF_CHANNEL_SWITCH_40_TO_20 (emit (Switch_to_20 ch) (s\<lparr>csm_state := CSM_STATE_20\<rparr>))"

definition switch_to_40 :: "nat \<Rightarrow> nat \<Rightarrow> coex_sm \<Rightarrow> coex_sm" where
  "switch_to_40 p off s = inc_cnt NOF_CHANNEL_SWITCH_20_TO_40 (emit (Switch_to_40 p off) (s\<lparr>csm_state := CSM_STATE_20_40\<rparr>))"

section \<open>The data base of intolerance\<close>

text \<open>\<^verbatim>\<open>channels_list[channel - 1]\<close>, for a channel that is not checked: the array has fourteen entries.\<close>
definition channel_at :: "nat \<Rightarrow> coex_sm \<Rightarrow> c_fault + intolerant_channel" where
  "channel_at ch s = (if 1 \<le> ch \<and> ch \<le> length (channels_list s) then Inr (channels_list s ! (ch - 1)) else Inl Out_of_bounds)"

definition channel_upd :: "nat \<Rightarrow> (intolerant_channel \<Rightarrow> intolerant_channel) \<Rightarrow> coex_sm \<Rightarrow> coex_sm" where
  "channel_upd ch f s = s\<lparr>channels_list := (channels_list s)[ch - 1 := f (channels_list s ! (ch - 1))]\<rparr>"

record intolerance_info =
  ii_channel :: nat
  ii_offset :: nat
  ii_timestamp :: nat
  ii_is_ht :: bool
  ii_intolerant :: bool

definition mark_intolerant :: "intolerance_info \<Rightarrow> coex_sm \<Rightarrow> c_fault + coex_sm" where
  "mark_intolerant i s =
    (if ii_is_ht i then Inr s
     else bind_result (channel_at (ii_channel i) s) (\<lambda>c.
       Inr (if \<not> intolerant c \<or> mtlk_osal_time_after (ii_timestamp i) (intolerant_detection_ts c)
            then channel_upd (ii_channel i) (\<lambda>c. c\<lparr>intolerant := True, intolerant_detection_ts := ii_timestamp i\<rparr>) s else s)))"

definition mark_general :: "intolerance_info \<Rightarrow> coex_sm \<Rightarrow> coex_sm" where
  "mark_general i s =
    (if ii_intolerant i \<and> (\<not> general_detected s \<or> mtlk_osal_time_after (ii_timestamp i) (general_detection_ts s))
     then s\<lparr>general_detected := True, general_detection_ts := ii_timestamp i\<rparr> else s)"

definition mark_primary :: "intolerance_info \<Rightarrow> coex_sm \<Rightarrow> c_fault + coex_sm" where
  "mark_primary i s =
    bind_result (channel_at (ii_channel i) s) (\<lambda>c.
      Inr (if \<not> primary c \<or> mtlk_osal_time_after (ii_timestamp i) (primary_detection_ts c)
           then channel_upd (ii_channel i) (\<lambda>c. c\<lparr>primary := True, primary_detection_ts := ii_timestamp i\<rparr>) s else s))"

text \<open>The flag that is tested is that of the entry after the primary channel, not that of the secondary channel.\<close>
definition mark_secondary :: "intolerance_info \<Rightarrow> coex_sm \<Rightarrow> c_fault + coex_sm" where
  "mark_secondary i s =
    (if ii_offset i = UMI_CHANNEL_SW_MODE_SCN then Inr s
     else (case mtlk_channels_find_secondary_channel_no (ii_channel i) (ii_offset i) of
        None \<Rightarrow> Inr s
      | Some sec \<Rightarrow>
          bind_result (channel_at (ii_channel i + 1) s) (\<lambda>c. bind_result (channel_at sec s) (\<lambda>d.
            Inr (if \<not> secondary c \<or> mtlk_osal_time_after (ii_timestamp i) (secondary_detection_ts d)
                 then channel_upd sec (\<lambda>c. c\<lparr>secondary := True, secondary_detection_ts := ii_timestamp i\<rparr>) s else s)))))"

definition intolerance_enumerator_callback :: "coex_env \<Rightarrow> intolerance_info \<Rightarrow> coex_sm \<Rightarrow> c_fault + coex_sm" where
  "intolerance_enumerator_callback env i s =
    (if mtlk_20_40_calc_transition_timer s > mtlk_osal_time_passed_ms env (ii_timestamp i) then
       bind_result (mark_intolerant i s) (\<lambda>s1. bind_result (mark_primary i (mark_general i s1)) (mark_secondary i))
     else Inr s)"

definition info_of :: "bss_data \<Rightarrow> intolerance_info" where
  "info_of b = \<lparr>ii_channel = channel b, ii_offset = secondary_channel_offset b, ii_timestamp = received_timestamp b,
     ii_is_ht = is_ht b, ii_intolerant = forty_mhz_intolerant b\<rparr>"

text \<open>
  The enumeration of the scan cache by the core, with the expiration time of the cache raised to the transition time. The
  cursor ends within one call more than the cache has entries (\<open>cache_entries_total\<close>).
\<close>
definition cache_entries :: "nat \<Rightarrow> scan_cache \<Rightarrow> cache_entry list \<times> scan_cache" where
  "cache_entries now c =
    (case cursor_walk mtlk_cache_get_next_bss (\<lambda>_. False) (Suc (length (bss_list c))) (\<lambda>_. now) (mtlk_cache_rewind c) of
       Some r \<Rightarrow> r | None \<Rightarrow> ([], c))"

fun visit_entries :: "coex_env \<Rightarrow> cache_entry list \<Rightarrow> coex_sm \<Rightarrow> c_fault + coex_sm" where
  "visit_entries env [] s = Inr s"
| "visit_entries env (e # es) s =
    bind_result (intolerance_enumerator_callback env (info_of (ce_bss e)) s) (visit_entries env es)"

definition mtlk_20_40_perform_idb_update :: "coex_env \<Rightarrow> coex_sm \<Rightarrow> c_fault + coex_sm" where
  "mtlk_20_40_perform_idb_update env s =
    (let expiration = mtlk_20_40_calc_transition_timer s; original = cache_expire (coex_cache s);
         c1 = (if original < expiration then mtlk_cache_set_expiration_time expiration (coex_cache s) else coex_cache s);
         (es, c2) = cache_entries (ce_to_ms env (ce_now env)) c1;
         c3 = (if original < expiration then mtlk_cache_set_expiration_time original c2 else c2)
     in bind_result (visit_entries env es s) (\<lambda>s'. Inr (s'\<lparr>coex_cache := c3\<rparr>)))"

fun intolerant_db_update_from_frame :: "coex_env \<Rightarrow> nat list \<Rightarrow> bool \<Rightarrow> coex_sm \<Rightarrow> c_fault + bool \<times> coex_sm" where
  "intolerant_db_update_from_frame env [] cur s = Inr (cur, s)"
| "intolerant_db_update_from_frame env (ch # chs) cur s =
    bind_result (channel_at ch s) (\<lambda>c.
      let now = ce_now env;
          s1 = (if mtlk_osal_time_after now (intolerant_detection_ts c)
                then channel_upd ch (\<lambda>c. c\<lparr>intolerant := True, intolerant_detection_ts := now\<rparr>) s else s);
          s2 = (if mtlk_osal_time_after now (primary_detection_ts c)
                then channel_upd ch (\<lambda>c. c\<lparr>primary := True, primary_detection_ts := now\<rparr>) s1 else s1)
      in intolerant_db_update_from_frame env chs (cur \<or> ch = ce_channel_cur env) s2)"

section \<open>The permission to use 40 MHz\<close>

datatype channel_field = PRIMARY_CHANNEL_DATA | SECONDARY_CHANNEL_DATA | INTOLERANT_CHANNEL_DATA

fun get_required_field :: "channel_field \<Rightarrow> intolerant_channel \<Rightarrow> bool" where
  "get_required_field PRIMARY_CHANNEL_DATA c = primary c"
| "get_required_field SECONDARY_CHANNEL_DATA c = secondary c"
| "get_required_field INTOLERANT_CHANNEL_DATA c = intolerant c"

fun get_required_ts_field :: "channel_field \<Rightarrow> intolerant_channel \<Rightarrow> nat" where
  "get_required_ts_field PRIMARY_CHANNEL_DATA c = primary_detection_ts c"
| "get_required_ts_field SECONDARY_CHANNEL_DATA c = secondary_detection_ts c"
| "get_required_ts_field INTOLERANT_CHANNEL_DATA c = intolerant_detection_ts c"

definition is_in_affected_freq_range :: "nat \<Rightarrow> nat \<Rightarrow> nat \<Rightarrow> bool" where
  "is_in_affected_freq_range p s t \<longleftrightarrow>
    (let mid = (channel_to_frequency p + channel_to_frequency s) div 2 in
     mid \<le> channel_to_frequency t + 25 \<and> channel_to_frequency t \<le> mid + 25)"

text \<open>The loop over the fourteen channels, ended by the first contradiction.\<close>
fun verify_channels_overlapping ::
  "coex_env \<Rightarrow> nat \<Rightarrow> nat \<Rightarrow> channel_field \<Rightarrow> nat \<Rightarrow> nat \<Rightarrow> intolerant_channel list \<Rightarrow> bool" where
  "verify_channels_overlapping env p s f limit n [] = True"
| "verify_channels_overlapping env p s f limit n (c # cs) =
    (if is_in_affected_freq_range p s n \<and> get_required_field f c \<and> limit > mtlk_osal_time_passed_ms env (get_required_ts_field f c)
     then False else verify_channels_overlapping env p s f limit (n + 1) cs)"

definition lve_check_channel_bounds :: "nat \<Rightarrow> bool" where
  "lve_check_channel_bounds ch \<longleftrightarrow> 1 \<le> ch \<and> ch \<le> 14"

definition is_coex_el_intolerant_bit_detected :: "coex_env \<Rightarrow> coex_sm \<Rightarrow> bool \<times> coex_sm" where
  "is_coex_el_intolerant_bit_detected env s =
    (if general_detected s then
       (if mtlk_20_40_calc_transition_timer s > mtlk_osal_time_passed_ms env (general_detection_ts s) then (True, s)
        else (False, s\<lparr>general_detected := False, general_detection_ts := ce_now env\<rparr>))
     else (False, s))"

definition sepm_is_intolerant_or_legacy_station_connected :: "coex_sm \<Rightarrow> bool" where
  "sepm_is_intolerant_or_legacy_station_connected s \<longleftrightarrow> (\<exists>d \<in> set (descriptors s). slot_used d \<and> (ed_intolerant d \<or> legacy d))"

definition lve_is_operation_permitted :: "coex_env \<Rightarrow> nat \<Rightarrow> nat \<Rightarrow> coex_sm \<Rightarrow> c_fault + bool \<times> coex_sm" where
  "lve_is_operation_permitted env p sec s =
    (if intolerance_mode s then Inr (False, s)
     else (case is_coex_el_intolerant_bit_detected env s of (detected, s1) \<Rightarrow>
       if detected \<or> sepm_is_intolerant_or_legacy_station_connected s1 \<or> \<not> lve_check_channel_bounds p
          \<or> \<not> lve_check_channel_bounds sec
       then Inr (False, s1)
       else bind_result (mtlk_20_40_perform_idb_update env s1) (\<lambda>s2.
         let v = (\<lambda>f. verify_channels_overlapping env p sec f (mtlk_20_40_calc_transition_timer s2) 1 (channels_list s2)) in
         Inr (v PRIMARY_CHANNEL_DATA \<and> v INTOLERANT_CHANNEL_DATA \<and> v SECONDARY_CHANNEL_DATA, s2))))"

definition mtlk_coex_lve_evaluate :: "coex_env \<Rightarrow> nat \<Rightarrow> nat \<Rightarrow> coex_sm \<Rightarrow> c_fault + bool \<times> coex_sm" where
  "mtlk_coex_lve_evaluate env p sec s =
    bind_result (lve_is_operation_permitted env p sec s) (\<lambda>(r, s'). Inr (r, s'\<lparr>lvt_op_permitted := r\<rparr>))"

definition mtlk_20_40_is_20_40_operation_permitted :: "coex_env \<Rightarrow> nat \<Rightarrow> nat \<Rightarrow> coex_sm \<Rightarrow> c_fault + bool \<times> coex_sm" where
  "mtlk_20_40_is_20_40_operation_permitted env p off s =
    mtlk_coex_lve_evaluate env p (case mtlk_channels_find_secondary_channel_no p off of None \<Rightarrow> 0 | Some sec \<Rightarrow> sec) s"

text \<open>One candidate of \<^verbatim>\<open>_mtlk_20_40_find_available_channel_pair\<close>.\<close>
definition try_pair :: "coex_env \<Rightarrow> nat \<Rightarrow> coex_sm \<Rightarrow> c_fault + (nat \<times> nat) option \<times> coex_sm" where
  "try_pair env off s =
    (case mtlk_channels_find_secondary_channel_no (ce_channel_cur env) off of
       None \<Rightarrow> Inr (None, s)
     | Some sec \<Rightarrow> bind_result (mtlk_coex_lve_evaluate env (ce_channel_cur env) sec s) (\<lambda>(ok, s').
         Inr (if ok then Some (ce_channel_cur env, off) else None, s')))"

definition find_available_channel_pair :: "coex_env \<Rightarrow> nat \<Rightarrow> coex_sm \<Rightarrow> c_fault + (nat \<times> nat) option \<times> coex_sm" where
  "find_available_channel_pair env forced s =
    bind_result (try_pair env (if forced = UMI_CHANNEL_SW_MODE_SCB then UMI_CHANNEL_SW_MODE_SCB else UMI_CHANNEL_SW_MODE_SCA) s)
      (\<lambda>(r, s1). if r = None \<and> forced = UMI_CHANNEL_SW_MODE_SCN then try_pair env UMI_CHANNEL_SW_MODE_SCB s1 else Inr (r, s1))"

definition check_if_can_remain_40_move_if_not :: "coex_env \<Rightarrow> coex_sm \<Rightarrow> c_fault + coex_sm" where
  "check_if_can_remain_40_move_if_not env s =
    (case get_cur_channels env of (p, off) \<Rightarrow>
     case mtlk_channels_find_secondary_channel_no p off of
       None \<Rightarrow> Inr s
     | Some sec \<Rightarrow> bind_result (mtlk_coex_lve_evaluate env p sec s) (\<lambda>(ok, s1).
         if ok then Inr s1
         else bind_result (find_available_channel_pair env UMI_CHANNEL_SW_MODE_SCN s1) (\<lambda>(r, s2).
           case r of
             Some (p', off') \<Rightarrow> Inr (inc_cnt NOF_CHANNEL_SWITCH_40_TO_40 (emit (Switch_to_40 p' off') s2))
           | None \<Rightarrow> Inr (timer_set_unless_limited (switch_to_20 (fst (get_cur_channels env)) s2)))))"

definition check_if_can_move_to_40_move_if_so :: "coex_env \<Rightarrow> coex_sm \<Rightarrow> c_fault + coex_sm" where
  "check_if_can_move_to_40_move_if_so env s =
    (if intolerance_at_first_scan s then Inr s
     else let forced = (if ce_channel_cfg env \<noteq> 0 \<and> fst (get_cur_channels env) = ce_channel_cfg env
                        then snd (get_cur_channels env) else UMI_CHANNEL_SW_MODE_SCN)
       in bind_result (find_available_channel_pair env forced s) (\<lambda>(r, s1).
         case r of None \<Rightarrow> Inr s1 | Some (p, off) \<Rightarrow> Inr (timer_cancel (switch_to_40 p off s1))))"

section \<open>Scan exemptions\<close>

definition slot_by_addr :: "mac_addr \<Rightarrow> coex_sm \<Rightarrow> nat option" where
  "slot_by_addr a s = find (\<lambda>i. slot_used (descriptors s ! i) \<and> ed_addr (descriptors s ! i) = a) [0..<length (descriptors s)]"

definition empty_slot :: "coex_sm \<Rightarrow> nat option" where
  "empty_slot s = find (\<lambda>i. \<not> slot_used (descriptors s ! i)) [0..<length (descriptors s)]"

text \<open>The function looks for a station that is not exempt, as its name says; its only caller wants one that is.\<close>
definition first_non_exempted_station_slot :: "coex_sm \<Rightarrow> nat option" where
  "first_non_exempted_station_slot s =
    find (\<lambda>i. slot_used (descriptors s ! i) \<and> supports_coexistence (descriptors s ! i) \<and> \<not> exempt (descriptors s ! i))
      [0..<length (descriptors s)]"

definition count_non_exempted_stations :: "mac_addr option \<Rightarrow> coex_sm \<Rightarrow> nat" where
  "count_non_exempted_stations exception s =
    length (filter (\<lambda>d. slot_used d \<and> supports_coexistence d \<and> \<not> exempt d \<and> exception \<noteq> Some (ed_addr d)) (descriptors s))"

definition count_legacy_stations :: "coex_sm \<Rightarrow> nat" where
  "count_legacy_stations s = length (filter (\<lambda>d. slot_used d \<and> legacy d) (descriptors s))"

definition count_intolerant_stations :: "coex_sm \<Rightarrow> nat" where
  "count_intolerant_stations s = length (filter (\<lambda>d. slot_used d \<and> ed_intolerant d) (descriptors s))"

definition descriptor_upd :: "nat \<Rightarrow> (exemption_descriptor \<Rightarrow> exemption_descriptor) \<Rightarrow> coex_sm \<Rightarrow> coex_sm" where
  "descriptor_upd i f s = s\<lparr>descriptors := (descriptors s)[i := f (descriptors s ! i)]\<rparr>"

definition mtlk_20_40_ap_notify_intolerant_or_legacy_station_connected :: "coex_env \<Rightarrow> coex_sm \<Rightarrow> coex_sm" where
  "mtlk_20_40_ap_notify_intolerant_or_legacy_station_connected env s =
    (if csm_state s \<noteq> CSM_STATE_NOT_STARTED \<and> active env s \<and> csm_state s = CSM_STATE_20_40
     then switch_to_20 (fst (get_cur_channels env)) s else s)"

definition mtlk_20_40_ap_notify_last_40_incapable_station_disconnected :: "coex_env \<Rightarrow> coex_sm \<Rightarrow> coex_sm" where
  "mtlk_20_40_ap_notify_last_40_incapable_station_disconnected env s =
    (if csm_state s \<noteq> CSM_STATE_NOT_STARTED \<and> active env s \<and> csm_state s = CSM_STATE_20 then timer_set_unless_limited s else s)"

definition mtlk_20_40_set_intolerance_at_first_scan_flag :: "coex_env \<Rightarrow> bool \<Rightarrow> coex_sm \<Rightarrow> coex_sm" where
  "mtlk_20_40_set_intolerance_at_first_scan_flag env v s =
    (if intolerance_at_first_scan s \<noteq> v then
       (let s1 = (if intolerance_at_first_scan s \<and> \<not> limited_to_20 s \<and> active env s \<and> csm_state s = CSM_STATE_20
                  then timer_set s else s)
        in s1\<lparr>intolerance_at_first_scan := v\<rparr>)
     else s)"

definition mtlk_sepm_register_station ::
  "coex_env \<Rightarrow> mac_addr \<Rightarrow> bool \<Rightarrow> bool \<Rightarrow> bool \<Rightarrow> bool \<Rightarrow> coex_sm \<Rightarrow> coex_sm" where
  "mtlk_sepm_register_station env a supports ex intol leg s =
    (case slot_by_addr a s of
       Some _ \<Rightarrow> s
     | None \<Rightarrow> (case empty_slot s of
         None \<Rightarrow> s
       | Some i \<Rightarrow>
           let s1 = descriptor_upd i (\<lambda>d. d\<lparr>supports_coexistence := supports, exempt := ex, ed_intolerant := intol, legacy := leg,
                      ed_addr := a, slot_used := True\<rparr>) s
           in if leg \<or> intol then mtlk_20_40_ap_notify_intolerant_or_legacy_station_connected env s1 else s1))"

definition sepm_resume_scanning :: "coex_env \<Rightarrow> coex_sm \<Rightarrow> coex_sm" where
  "sepm_resume_scanning env s =
    (if count_non_exempted_stations None s = 0 then
       (case first_non_exempted_station_slot s of
          None \<Rightarrow> s
        | Some j \<Rightarrow>
            inc_cnt NOF_COEX_EL_SCAN_EXEMPTION_GRANT_CANCELLED
              (mtlk_20_40_set_intolerance_at_first_scan_flag env False
                (descriptor_upd j (\<lambda>d. d\<lparr>exempt := False\<rparr>) (emit (Coex_frame (ed_addr (descriptors s ! j)) False) s))))
     else s)"

definition mtlk_sepm_unregister_station :: "coex_env \<Rightarrow> mac_addr \<Rightarrow> coex_sm \<Rightarrow> coex_sm" where
  "mtlk_sepm_unregister_station env a s =
    (case slot_by_addr a s of
       None \<Rightarrow> s
     | Some i \<Rightarrow>
         let d = descriptors s ! i;
             s1 = descriptor_upd i (\<lambda>d. d\<lparr>slot_used := False\<rparr>) s;
             s2 = (if supports_coexistence d then sepm_resume_scanning env s1 else s1);
             s3 = (if (legacy d \<or> ed_intolerant d) \<and> count_legacy_stations s2 = 0 \<and> count_intolerant_stations s2 = 0
                   then mtlk_20_40_ap_notify_last_40_incapable_station_disconnected env s2 else s2)
         in descriptor_upd i (\<lambda>d. d\<lparr>ed_addr := replicate 6 0, exempt := False, ed_intolerant := False, legacy := False\<rparr>) s3)"

definition mtlk_sepm_process_exemption_request :: "mac_addr \<Rightarrow> coex_sm \<Rightarrow> coex_sm" where
  "mtlk_sepm_process_exemption_request a s =
    (let s1 = inc_cnt NOF_COEX_EL_SCAN_EXEMPTION_REQUESTED s in
     case slot_by_addr a s1 of
       None \<Rightarrow> s1
     | Some i \<Rightarrow>
         if count_non_exempted_stations (Some a) s1 > 0
         then inc_cnt NOF_COEX_EL_SCAN_EXEMPTION_GRANTED (descriptor_upd i (\<lambda>d. d\<lparr>exempt := True\<rparr>) (emit (Coex_frame a True) s1))
         else s1)"

definition mtlk_sepm_register_station_intolerance :: "mac_addr \<Rightarrow> coex_sm \<Rightarrow> coex_sm" where
  "mtlk_sepm_register_station_intolerance a s =
    (case slot_by_addr a s of None \<Rightarrow> s | Some i \<Rightarrow> descriptor_upd i (\<lambda>d. d\<lparr>ed_intolerant := True\<rparr>) s)"

section \<open>The handlers\<close>

definition mtlk_20_40_limit_to_20 :: "coex_env \<Rightarrow> bool \<Rightarrow> coex_sm \<Rightarrow> coex_sm" where
  "mtlk_20_40_limit_to_20 env must s =
    (let s1 = s\<lparr>limited_to_20 := must\<rparr> in
     if must then
       (let s2 = timer_cancel s1 in if csm_state s2 = CSM_STATE_20_40 then switch_to_20 (ce_channel_cur env) s2 else s2)
     else s1)"

definition mtlk_20_40_set_transition_delay_factor :: "nat \<Rightarrow> coex_sm \<Rightarrow> mtlk_error \<times> coex_sm" where
  "mtlk_20_40_set_transition_delay_factor v s =
    (if 1 \<le> v \<and> v \<le> 100 then (MTLK_ERR_OK, s\<lparr>delay_factor := v\<rparr>) else (MTLK_ERR_VALUE, s))"

definition mtlk_20_40_set_scan_interval :: "nat \<Rightarrow> coex_sm \<Rightarrow> mtlk_error \<times> coex_sm" where
  "mtlk_20_40_set_scan_interval v s = (if v \<le> 300 then (MTLK_ERR_OK, s\<lparr>obss_scan_interval := v\<rparr>) else (MTLK_ERR_VALUE, s))"

text \<open>An element that limits the network to 20 MHz, in the states of a started machine.\<close>
definition element_limits :: "coex_env \<Rightarrow> mac_addr \<Rightarrow> coex_sm \<Rightarrow> coex_sm" where
  "element_limits env src s =
    (let s1 = (mtlk_sepm_register_station_intolerance src s)\<lparr>general_detected := True, general_detection_ts := ce_now env\<rparr> in
     case csm_state s1 of
       CSM_STATE_20 \<Rightarrow> timer_set_unless_limited s1
     | CSM_STATE_20_40 \<Rightarrow> timer_set_unless_limited (switch_to_20 (ce_channel_cur env) s1)
     | CSM_STATE_NOT_STARTED \<Rightarrow> s1)"

definition element_permits :: "coex_env \<Rightarrow> coex_sm \<Rightarrow> c_fault + coex_sm" where
  "element_permits env s =
    (if csm_state s = CSM_STATE_20 \<and> \<not> limited_to_20 s \<and> \<not> intolerance_at_first_scan s then
       bind_result (find_available_channel_pair env UMI_CHANNEL_SW_MODE_SCN s) (\<lambda>(r, s1).
         case r of None \<Rightarrow> Inr s1 | Some (p, off) \<Rightarrow> Inr (timer_cancel (switch_to_40 p off s1)))
     else Inr s)"

definition mtlk_20_40_ap_process_coexistence_element ::
  "coex_env \<Rightarrow> coexistence_element \<Rightarrow> mac_addr \<Rightarrow> coex_sm \<Rightarrow> c_fault + coex_sm" where
  "mtlk_20_40_ap_process_coexistence_element env el src s =
    (if csm_state s = CSM_STATE_NOT_STARTED then Inr s
     else let s1 = inc_cnt NOF_COEX_EL_RECEIVED s in
       if \<not> active env s1 then Inr s1
       else bind_result
         (if forty_mhz_intolerant_el el \<or> twenty_mhz_width_request el then Inr (element_limits env src s1) else element_permits env s1)
         (\<lambda>s2. Inr (if scan_exemption_request el then mtlk_sepm_process_exemption_request src s2 else s2)))"

definition mtlk_20_40_ap_process_obss_scan_results :: "coex_env \<Rightarrow> nat list \<Rightarrow> coex_sm \<Rightarrow> c_fault + coex_sm" where
  "mtlk_20_40_ap_process_obss_scan_results env chs s =
    (if csm_state s = CSM_STATE_NOT_STARTED \<or> \<not> active env s then Inr s
     else bind_result (intolerant_db_update_from_frame env chs False s) (\<lambda>(cur, s1).
       case csm_state s1 of
         CSM_STATE_20 \<Rightarrow>
           if limited_to_20 s1 \<or> intolerance_at_first_scan s1 then Inr s1
           else if cur then Inr (timer_set s1) else check_if_can_move_to_40_move_if_so env s1
       | CSM_STATE_20_40 \<Rightarrow> check_if_can_remain_40_move_if_not env s1
       | CSM_STATE_NOT_STARTED \<Rightarrow> Inr s1))"

text \<open>In the last branch the limit to 20 MHz is not tested.\<close>
definition mtlk_20_40_ap_notify_non_ht_beacon_received :: "coex_env \<Rightarrow> nat \<Rightarrow> coex_sm \<Rightarrow> c_fault + coex_sm" where
  "mtlk_20_40_ap_notify_non_ht_beacon_received env ch s =
    (if csm_state s = CSM_STATE_NOT_STARTED \<or> \<not> active env s then Inr s
     else if csm_state s = CSM_STATE_20_40 then check_if_can_remain_40_move_if_not env s
     else if ch = ce_channel_cur env then Inr (timer_set_unless_limited s)
     else check_if_can_move_to_40_move_if_so env s)"

definition mtlk_20_40_register_station ::
  "coex_env \<Rightarrow> mac_addr \<Rightarrow> bool \<Rightarrow> bool \<Rightarrow> bool \<Rightarrow> bool \<Rightarrow> coex_sm \<Rightarrow> coex_sm" where
  "mtlk_20_40_register_station env a supports ex intol leg s =
    (let s1 = mtlk_sepm_register_station env a supports ex intol leg s in
     if supports \<and> \<not> ex then mtlk_20_40_set_intolerance_at_first_scan_flag env False s1 else s1)"

definition transition_delay_timeout_callback :: "coex_env \<Rightarrow> coex_sm \<Rightarrow> c_fault + coex_sm" where
  "transition_delay_timeout_callback env s =
    (let s0 = s\<lparr>transition_timer := None\<rparr> in
     if active env s0 \<and> csm_state s0 = CSM_STATE_20 \<and> \<not> intolerance_at_first_scan s0 then
       bind_result (find_available_channel_pair env UMI_CHANNEL_SW_MODE_SCN s0) (\<lambda>(r, s1).
         case r of None \<Rightarrow> Inr s1 | Some (p, off) \<Rightarrow> Inr (switch_to_40 p off s1))
     else Inr s0)"

section \<open>Start and stop\<close>

text \<open>
  Only the steps of the start that were carried out are undone: the timer is cancelled only when the start itself had set it.
  The guard makes the stop do nothing in the rollback of a failed start.
\<close>
definition mtlk_20_40_stop :: "coex_sm \<Rightarrow> coex_sm" where
  "mtlk_20_40_stop s =
    (if csm_state s = CSM_STATE_NOT_STARTED then s
     else s\<lparr>csm_state := CSM_STATE_NOT_STARTED, transition_timer := (if timer_step s then None else transition_timer s),
       timer_step := False, wss_cntrs := False, wss_node := False, mode_cfg_enabled := True\<rparr>)"

text \<open>The start: \<open>node\<close> and \<open>cntrs\<close> are the outcomes of creating the statistics node and opening its counters.\<close>
definition mtlk_20_40_start :: "bool \<Rightarrow> mtlk_error \<Rightarrow> eCSM_STATES \<Rightarrow> coex_sm \<Rightarrow> mtlk_error \<times> coex_sm" where
  "mtlk_20_40_start node cntrs initial s =
    (let s1 = s\<lparr>mode_cfg_enabled := False, timer_step := False\<rparr> in
     if \<not> node then (MTLK_ERR_NO_MEM, mtlk_20_40_stop s1)
     else let s2 = s1\<lparr>wss_node := True\<rparr> in
       if cntrs \<noteq> MTLK_ERR_OK then (cntrs, mtlk_20_40_stop s2)
       else let s3 = s2\<lparr>wss_cntrs := True\<rparr>;
                s4 = (if \<not> intolerance_at_first_scan s3 \<and> \<not> limited_to_20 s3 \<and> initial = CSM_STATE_20 \<and> coexistence_mode s3
                        \<and> \<not> intolerance_mode s3 then (timer_set s3)\<lparr>timer_step := True\<rparr> else s3)
            in (MTLK_ERR_OK, s4\<lparr>csm_state := initial\<rparr>))"

definition idb_channel_zero :: "nat \<Rightarrow> intolerant_channel" where
  "idb_channel_zero now = \<lparr>primary = False, primary_detection_ts = now, secondary = False, secondary_detection_ts = now,
     intolerant = False, intolerant_detection_ts = now\<rparr>"

definition descriptor_zero :: exemption_descriptor where
  "descriptor_zero = \<lparr>ed_addr = replicate 6 0, slot_used = False, supports_coexistence = False, exempt = False,
     ed_intolerant = False, legacy = False\<rparr>"

definition mtlk_20_40_init :: "nat \<Rightarrow> nat \<Rightarrow> scan_cache \<Rightarrow> coex_sm" where
  "mtlk_20_40_init now max_stations cache =
    \<lparr>coexistence_mode = False, intolerance_mode = False, limited_to_20 = False, exemption_req = False,
     intolerance_at_first_scan = False, delay_factor = 4, obss_scan_interval = 60, transition_timer = None,
     general_detected = False, general_detection_ts = now, channels_list = replicate 14 (idb_channel_zero now),
     csm_state = CSM_STATE_NOT_STARTED, lvt_op_permitted = False, descriptors = replicate max_stations descriptor_zero,
     mode_cfg_enabled = True, timer_step = False, wss_node = False, wss_cntrs = False, coex_cnt = (\<lambda>_. 0), coex_cache = cache, coex_log = []\<rparr>"

section \<open>Runs\<close>

text \<open>
  The calls of the rest of the driver. The configuration of the mode reaches the machine only while the ability is enabled; the
  timer fires only when it is armed; the scan cache changes between the calls.
\<close>
datatype coex_op =
    Element coexistence_element mac_addr | Obss_results "nat list" | Non_ht_beacon_on nat
  | Register_station mac_addr bool bool bool bool | Unregister_station mac_addr | Limit_to_20 bool | Timer_fires
  | First_scan_flag bool | Query_permitted nat nat | Set_mode bool bool | Force_exemption bool | Set_delay nat | Set_interval nat
  | Start bool mtlk_error eCSM_STATES | Stop | Cache_changes scan_cache

fun coex_step :: "coex_env \<Rightarrow> coex_op \<Rightarrow> coex_sm \<Rightarrow> c_fault + coex_sm" where
  "coex_step env (Element el src) s = mtlk_20_40_ap_process_coexistence_element env el src s"
| "coex_step env (Obss_results chs) s = mtlk_20_40_ap_process_obss_scan_results env chs s"
| "coex_step env (Non_ht_beacon_on ch) s = mtlk_20_40_ap_notify_non_ht_beacon_received env ch s"
| "coex_step env (Register_station a supports ex intol leg) s = Inr (mtlk_20_40_register_station env a supports ex intol leg s)"
| "coex_step env (Unregister_station a) s = Inr (mtlk_sepm_unregister_station env a s)"
| "coex_step env (Limit_to_20 v) s = Inr (mtlk_20_40_limit_to_20 env v s)"
| "coex_step env Timer_fires s = (if transition_timer s = None then Inr s else transition_delay_timeout_callback env s)"
| "coex_step env (First_scan_flag v) s = Inr (mtlk_20_40_set_intolerance_at_first_scan_flag env v s)"
| "coex_step env (Query_permitted p off) s = map_sum id snd (mtlk_20_40_is_20_40_operation_permitted env p off s)"
| "coex_step env (Set_mode en intol) s =
    Inr (if mode_cfg_enabled s then s\<lparr>coexistence_mode := en, intolerance_mode := intol\<rparr> else s)"
| "coex_step env (Force_exemption v) s = Inr (s\<lparr>exemption_req := v\<rparr>)"
| "coex_step env (Set_delay v) s = Inr (snd (mtlk_20_40_set_transition_delay_factor v s))"
| "coex_step env (Set_interval v) s = Inr (snd (mtlk_20_40_set_scan_interval v s))"
| "coex_step env (Start node cntrs initial) s = Inr (snd (mtlk_20_40_start node cntrs initial s))"
| "coex_step env Stop s = Inr (mtlk_20_40_stop s)"
| "coex_step env (Cache_changes c) s = Inr (s\<lparr>coex_cache := c\<rparr>)"

end
