(* ===== verification/Coex_Safe.thy ===== *)
theory Coex_Safe
  imports Coex
begin

text \<open>
  What the coexistence machine of \<^verbatim>\<open>Coex\<close> guarantees: the evaluations change only the data base (\<open>db_only\<close>), a switch to
  40 MHz happens only with a permission, no switch keeps a station that cannot bear 40 MHz, and the accesses to the data base
  stay inside it as long as the channels that reach it are those of the 2.4 GHz band; and where the machine does not do what
  it is meant to do: the limit to 20 MHz, channels out of range, exemptions, and the rollback of the start.
\<close>

section \<open>Evaluations change the data base only\<close>

definition without_db :: "coex_sm \<Rightarrow> coex_sm" where
  "without_db s = s\<lparr>general_detected := False, general_detection_ts := 0, channels_list := [], coex_cache := cache_zero,
     lvt_op_permitted := False\<rparr>"

definition db_only :: "coex_sm \<Rightarrow> coex_sm \<Rightarrow> bool" where
  "db_only s s' \<longleftrightarrow> without_db s' = without_db s \<and> length (channels_list s') = length (channels_list s)"

lemma db_only_refl [simp, intro]: "db_only s s"
  by (simp add: db_only_def)

lemma db_only_trans [trans]: "db_only s s' \<Longrightarrow> db_only s' s'' \<Longrightarrow> db_only s s''"
  by (simp add: db_only_def)

lemma db_only_upd [simp]:
  "db_only s (s'\<lparr>coex_cache := c\<rparr>) = db_only s s'" "db_only s (s'\<lparr>lvt_op_permitted := r\<rparr>) = db_only s s'"
  "db_only s (s'\<lparr>general_detected := g, general_detection_ts := t\<rparr>) = db_only s s'"
  by (simp_all add: db_only_def without_db_def)

lemma db_onlyD:
  assumes "db_only s s'"
  shows "csm_state s' = csm_state s" "coexistence_mode s' = coexistence_mode s" "intolerance_mode s' = intolerance_mode s"
    "limited_to_20 s' = limited_to_20 s" "intolerance_at_first_scan s' = intolerance_at_first_scan s"
    "descriptors s' = descriptors s" "mode_cfg_enabled s' = mode_cfg_enabled s" "coex_log s' = coex_log s"
    "transition_timer s' = transition_timer s" "length (channels_list s') = length (channels_list s)"
    "mtlk_20_40_calc_transition_timer s' = mtlk_20_40_calc_transition_timer s" "active env s' = active env s"
    "sepm_is_intolerant_or_legacy_station_connected s' = sepm_is_intolerant_or_legacy_station_connected s"
proof -
  have e: "without_db s' = without_db s" and l: "length (channels_list s') = length (channels_list s)"
    using assms by (simp_all add: db_only_def)
  note f = arg_cong [OF e, of csm_state] arg_cong [OF e, of coexistence_mode] arg_cong [OF e, of intolerance_mode]
    arg_cong [OF e, of limited_to_20] arg_cong [OF e, of intolerance_at_first_scan] arg_cong [OF e, of descriptors]
    arg_cong [OF e, of mode_cfg_enabled] arg_cong [OF e, of coex_log] arg_cong [OF e, of transition_timer]
    arg_cong [OF e, of delay_factor] arg_cong [OF e, of obss_scan_interval]
  show "csm_state s' = csm_state s" "coexistence_mode s' = coexistence_mode s" "intolerance_mode s' = intolerance_mode s"
    "limited_to_20 s' = limited_to_20 s" "intolerance_at_first_scan s' = intolerance_at_first_scan s"
    "descriptors s' = descriptors s" "mode_cfg_enabled s' = mode_cfg_enabled s" "coex_log s' = coex_log s"
    "transition_timer s' = transition_timer s" "length (channels_list s') = length (channels_list s)"
    "mtlk_20_40_calc_transition_timer s' = mtlk_20_40_calc_transition_timer s" "active env s' = active env s"
    "sepm_is_intolerant_or_legacy_station_connected s' = sepm_is_intolerant_or_legacy_station_connected s"
    using f l by (simp_all add: without_db_def mtlk_20_40_calc_transition_timer_def active_def
        sepm_is_intolerant_or_legacy_station_connected_def)
qed

lemma channel_upd_db [intro]: "db_only s (channel_upd ch f s)"
  by (simp add: channel_upd_def db_only_def without_db_def)

lemma mark_intolerant_db: "mark_intolerant i s = Inr s' \<Longrightarrow> db_only s s'"
  by (auto simp: mark_intolerant_def bind_result_Inr split: if_splits)

lemma mark_general_db: "db_only s (mark_general i s)"
  by (simp add: mark_general_def)

lemma mark_primary_db: "mark_primary i s = Inr s' \<Longrightarrow> db_only s s'"
  by (auto simp: mark_primary_def bind_result_Inr)

lemma mark_secondary_db: "mark_secondary i s = Inr s' \<Longrightarrow> db_only s s'"
  by (auto simp: mark_secondary_def bind_result_Inr split: if_splits option.splits)

lemma callback_db: "intolerance_enumerator_callback env i s = Inr s' \<Longrightarrow> db_only s s'"
  unfolding intolerance_enumerator_callback_def
  by (auto simp: bind_result_Inr split: if_splits
      intro: db_only_trans [OF mark_intolerant_db db_only_trans [OF mark_general_db db_only_trans [OF mark_primary_db mark_secondary_db]]])

lemma visit_db: "visit_entries env es s = Inr s' \<Longrightarrow> db_only s s'"
  by (induction es arbitrary: s) (auto simp: bind_result_Inr intro: db_only_trans [OF callback_db])

lemma idb_update_db: "mtlk_20_40_perform_idb_update env s = Inr s' \<Longrightarrow> db_only s s'"
  by (auto simp: mtlk_20_40_perform_idb_update_def Let_def bind_result_Inr visit_db split: prod.splits)

lemma general_bit_db: "is_coex_el_intolerant_bit_detected env s = (d, s') \<Longrightarrow> db_only s s'"
  by (auto simp: is_coex_el_intolerant_bit_detected_def split: if_splits)

lemma permitted_db: "lve_is_operation_permitted env p sec s = Inr (r, s') \<Longrightarrow> db_only s s'"
  by (auto simp: lve_is_operation_permitted_def Let_def bind_result_Inr split: if_splits prod.splits
      intro: db_only_trans [OF general_bit_db idb_update_db] general_bit_db)

lemma evaluate_db: "mtlk_coex_lve_evaluate env p sec s = Inr (r, s') \<Longrightarrow> db_only s s'"
  by (auto simp: mtlk_coex_lve_evaluate_def bind_result_Inr dest: permitted_db)

lemma try_pair_db: "try_pair env off s = Inr (r, s') \<Longrightarrow> db_only s s'"
  by (auto simp: try_pair_def bind_result_Inr dest: evaluate_db split: option.splits)

lemma find_pair_db: "find_available_channel_pair env forced s = Inr (r, s') \<Longrightarrow> db_only s s'"
  by (auto simp: find_available_channel_pair_def bind_result_Inr dest: try_pair_db split: if_splits
      intro: db_only_trans [OF try_pair_db try_pair_db])

section \<open>What a permission means\<close>

text \<open>No channel in the range that the pair affects has a record that is younger than the transition time.\<close>
definition quiet :: "coex_env \<Rightarrow> nat \<Rightarrow> nat \<Rightarrow> coex_sm \<Rightarrow> bool" where
  "quiet env p sec s \<longleftrightarrow> (\<forall>i < length (channels_list s). \<forall>f. is_in_affected_freq_range p sec (i + 1) \<longrightarrow>
     get_required_field f (channels_list s ! i) \<longrightarrow>
     mtlk_20_40_calc_transition_timer s \<le> mtlk_osal_time_passed_ms env (get_required_ts_field f (channels_list s ! i)))"

definition general_fresh :: "coex_env \<Rightarrow> coex_sm \<Rightarrow> bool" where
  "general_fresh env s \<longleftrightarrow>
    general_detected s \<and> mtlk_osal_time_passed_ms env (general_detection_ts s) < mtlk_20_40_calc_transition_timer s"

definition may_use_40 :: "coex_env \<Rightarrow> nat \<Rightarrow> nat \<Rightarrow> coex_sm \<Rightarrow> bool" where
  "may_use_40 env p sec s \<longleftrightarrow> \<not> intolerance_mode s \<and> \<not> sepm_is_intolerant_or_legacy_station_connected s
     \<and> 1 \<le> p \<and> p \<le> 14 \<and> 1 \<le> sec \<and> sec \<le> 14 \<and> quiet env p sec s"

lemma verify_iff:
  "verify_channels_overlapping env p sec f limit n cs \<longleftrightarrow>
    (\<forall>i < length cs. is_in_affected_freq_range p sec (n + i) \<longrightarrow> get_required_field f (cs ! i) \<longrightarrow>
       limit \<le> mtlk_osal_time_passed_ms env (get_required_ts_field f (cs ! i)))"
proof (induction cs arbitrary: n)
  case (Cons c cs)
  show ?case
    by (simp add: Cons All_less_Suc2 not_less)
qed simp

lemma permitted_iff:
  assumes "lve_is_operation_permitted env p sec s = Inr (r, s')" "r"
  shows "may_use_40 env p sec s'" "\<not> general_fresh env s"
proof -
  have im: "\<not> intolerance_mode s" using assms by (auto simp: lve_is_operation_permitted_def)
  obtain d s1 where d: "is_coex_el_intolerant_bit_detected env s = (d, s1)" by fastforce
  have nd: "\<not> d" "\<not> sepm_is_intolerant_or_legacy_station_connected s1" "lve_check_channel_bounds p" "lve_check_channel_bounds sec"
    using assms im d by (auto simp: lve_is_operation_permitted_def split: if_splits)
  then have u: "mtlk_20_40_perform_idb_update env s1 = Inr s'"
    and v: "\<And>f. verify_channels_overlapping env p sec f (mtlk_20_40_calc_transition_timer s') 1 (channels_list s')"
    using assms im d by (auto simp: lve_is_operation_permitted_def Let_def bind_result_Inr)
      (metis (full_types) channel_field.exhaust)
  have "quiet env p sec s'" using v unfolding verify_iff quiet_def by (metis add.commute)
  moreover have "intolerance_mode s' = intolerance_mode s"
    "sepm_is_intolerant_or_legacy_station_connected s' = sepm_is_intolerant_or_legacy_station_connected s1"
    using db_onlyD [OF general_bit_db [OF d]] db_onlyD [OF idb_update_db [OF u]] by simp_all
  ultimately show "may_use_40 env p sec s'"
    using im nd by (simp add: may_use_40_def lve_check_channel_bounds_def)
  show "\<not> general_fresh env s"
    using d nd(1) by (auto simp: is_coex_el_intolerant_bit_detected_def general_fresh_def split: if_splits)
qed

lemma evaluate_true:
  assumes "mtlk_coex_lve_evaluate env p sec s = Inr (True, s')"
  shows "may_use_40 env p sec s'" "\<not> general_fresh env s"
proof -
  obtain s1 where 1: "lve_is_operation_permitted env p sec s = Inr (True, s1)" "s' = s1\<lparr>lvt_op_permitted := True\<rparr>"
    using assms by (auto simp: mtlk_coex_lve_evaluate_def bind_result_Inr)
  show "may_use_40 env p sec s'" "\<not> general_fresh env s"
    using permitted_iff [OF 1(1)] unfolding 1(2)
    by (simp_all add: may_use_40_def quiet_def sepm_is_intolerant_or_legacy_station_connected_def mtlk_20_40_calc_transition_timer_def)
qed

lemma evaluate_false:
  assumes "mtlk_coex_lve_evaluate env p sec s = Inr (r, s')" "general_fresh env s"
  shows "\<not> r" "general_fresh env s'"
  using assms by (auto simp: mtlk_coex_lve_evaluate_def lve_is_operation_permitted_def is_coex_el_intolerant_bit_detected_def
      general_fresh_def bind_result_Inr mtlk_20_40_calc_transition_timer_def split: if_splits)

text \<open>A pair that is found: the channel in use with a secondary channel, and a permission for the two.\<close>
definition pair_ok :: "coex_env \<Rightarrow> nat \<Rightarrow> nat \<Rightarrow> coex_sm \<Rightarrow> bool" where
  "pair_ok env p off s \<longleftrightarrow> p = ce_channel_cur env \<and>
     (\<exists>sec. mtlk_channels_find_secondary_channel_no p off = Some sec \<and> may_use_40 env p sec s)"

lemma try_pair_ok:
  assumes "try_pair env off s = Inr (r, s')"
  shows "r = Some (p, o') \<Longrightarrow> pair_ok env p o' s' \<and> \<not> general_fresh env s" "general_fresh env s \<Longrightarrow> r = None \<and> general_fresh env s'"
  using assms by (auto simp: try_pair_def pair_ok_def bind_result_Inr split: option.splits if_splits dest: evaluate_true evaluate_false)

lemma find_pair_ok:
  assumes "find_available_channel_pair env forced s = Inr (Some (p, off), s')"
  shows "pair_ok env p off s'" "\<not> general_fresh env s"
  using assms by (auto simp: find_available_channel_pair_def bind_result_Inr split: if_splits dest: try_pair_ok)

section \<open>Steps\<close>

lemmas coex_defs = timer_set_def timer_cancel_def timer_set_unless_limited_def inc_cnt_def emit_def switch_to_20_def
  switch_to_40_def descriptor_upd_def

text \<open>What a handler adds to the log, and what a switch to 40 MHz in it says about the state after the handler.\<close>
definition logs_ok :: "coex_env \<Rightarrow> coex_sm \<Rightarrow> coex_sm \<Rightarrow> bool" where
  "logs_ok env s s' \<longleftrightarrow> (\<exists>l. coex_log s' = coex_log s @ l \<and>
     (\<forall>p off. Switch_to_40 p off \<in> set l \<longrightarrow> pair_ok env p off s' \<and> \<not> general_fresh env s))"

text \<open>The parts of the state on which a permission depends.\<close>
definition same_view :: "coex_sm \<Rightarrow> coex_sm \<Rightarrow> bool" where
  "same_view s s' \<longleftrightarrow> intolerance_mode s' = intolerance_mode s \<and> channels_list s' = channels_list s
     \<and> mtlk_20_40_calc_transition_timer s' = mtlk_20_40_calc_transition_timer s
     \<and> sepm_is_intolerant_or_legacy_station_connected s' = sepm_is_intolerant_or_legacy_station_connected s"

lemma pair_ok_view: "same_view s s' \<Longrightarrow> pair_ok env p off s \<Longrightarrow> pair_ok env p off s'"
  by (auto simp: same_view_def pair_ok_def may_use_40_def quiet_def)

definition incapable :: "exemption_descriptor \<Rightarrow> bool" where
  "incapable d \<longleftrightarrow> slot_used d \<and> (ed_intolerant d \<or> legacy d)"

lemma connected_incapable: "sepm_is_intolerant_or_legacy_station_connected s \<longleftrightarrow> (\<exists>d \<in> set (descriptors s). incapable d)"
  by (simp add: sepm_is_intolerant_or_legacy_station_connected_def incapable_def)

lemma set_list_update_same:
  assumes "P (f (xs ! i)) = P (xs ! i)"
  shows "(\<exists>x \<in> set (xs[i := f (xs ! i)]). P x) = (\<exists>x \<in> set xs. P x)"
proof -
  have "map P (xs[i := f (xs ! i)]) = map P xs"
  proof (cases "i < length xs")
    case True
    then have "map P (xs[i := f (xs ! i)]) = (map P xs)[i := map P xs ! i]" by (simp add: map_update assms)
    then show ?thesis by simp
  qed (simp add: list_update_beyond)
  then have "set (map P (xs[i := f (xs ! i)])) = set (map P xs)" by (rule arg_cong)
  then show ?thesis by (auto simp: image_def set_eq_iff)
qed

lemma connected_upd:
  "incapable (f (descriptors s ! i)) = incapable (descriptors s ! i) \<Longrightarrow>
   sepm_is_intolerant_or_legacy_station_connected (descriptor_upd i f s) = sepm_is_intolerant_or_legacy_station_connected s"
  by (simp add: connected_incapable descriptor_upd_def set_list_update_same)

lemma connected_upd_off:
  assumes "\<not> incapable (f (descriptors s ! i))" "sepm_is_intolerant_or_legacy_station_connected (descriptor_upd i f s)"
  shows "sepm_is_intolerant_or_legacy_station_connected s"
  using assms set_update_subset_insert [of "descriptors s" i "f (descriptors s ! i)"]
  by (auto simp: connected_incapable descriptor_upd_def)

lemma connected_frame [simp]:
  "sepm_is_intolerant_or_legacy_station_connected (inc_cnt k s) = sepm_is_intolerant_or_legacy_station_connected s"
  "sepm_is_intolerant_or_legacy_station_connected (emit e s) = sepm_is_intolerant_or_legacy_station_connected s"
  "sepm_is_intolerant_or_legacy_station_connected (timer_set s) = sepm_is_intolerant_or_legacy_station_connected s"
  "sepm_is_intolerant_or_legacy_station_connected (timer_cancel s) = sepm_is_intolerant_or_legacy_station_connected s"
  "sepm_is_intolerant_or_legacy_station_connected (timer_set_unless_limited s) = sepm_is_intolerant_or_legacy_station_connected s"
  "sepm_is_intolerant_or_legacy_station_connected (switch_to_20 p s) = sepm_is_intolerant_or_legacy_station_connected s"
  "sepm_is_intolerant_or_legacy_station_connected (switch_to_40 p off s) = sepm_is_intolerant_or_legacy_station_connected s"
  by (simp_all add: sepm_is_intolerant_or_legacy_station_connected_def coex_defs)

lemma logs_ok_quiet: "coex_log s' = coex_log s \<Longrightarrow> logs_ok env s s'"
  by (simp add: logs_ok_def)

lemma logs_ok_db: "db_only s s' \<Longrightarrow> logs_ok env s s'"
  by (rule logs_ok_quiet) (rule db_onlyD(8))

lemma logs_ok_add:
  assumes "coex_log s' = coex_log s @ l" "\<forall>p off. Switch_to_40 p off \<in> set l \<longrightarrow> pair_ok env p off s' \<and> \<not> general_fresh env s"
  shows "logs_ok env s s'"
  using assms by (auto simp: logs_ok_def)

lemma move_to_40_logs:
  assumes "find_available_channel_pair env forced s = Inr (Some (p, off), s1)"
    "coex_log s' = coex_log s1 @ [Switch_to_40 p off]" "same_view s1 s'"
  shows "logs_ok env s s'"
  using find_pair_ok [OF assms(1)] assms(2) pair_ok_view [OF assms(3)] db_onlyD(8) [OF find_pair_db [OF assms(1)]]
  by (intro logs_ok_add [of _ _ "[Switch_to_40 p off]"]) auto

lemma same_view_switches [simp]:
  "same_view s (timer_cancel (switch_to_40 p off s))" "same_view s (switch_to_40 p off s)"
  "same_view s (inc_cnt k (emit e s))"
  by (simp_all add: same_view_def coex_defs mtlk_20_40_calc_transition_timer_def sepm_is_intolerant_or_legacy_station_connected_def)

lemma move_cases:
  assumes "check_if_can_move_to_40_move_if_so env s = Inr s'"
  obtains (stay) "db_only s s'"
    | (move) forced p off s1 where "find_available_channel_pair env forced s = Inr (Some (p, off), s1)" "\<not> intolerance_at_first_scan s"
        "s' = timer_cancel (switch_to_40 p off s1)"
proof (cases "intolerance_at_first_scan s")
  case False
  with assms obtain forced r s1 where f: "find_available_channel_pair env forced s = Inr (r, s1)"
    and s': "s' = (case r of None \<Rightarrow> s1 | Some (p, off) \<Rightarrow> timer_cancel (switch_to_40 p off s1))"
    by (auto simp: check_if_can_move_to_40_move_if_so_def Let_def bind_result_Inr split: option.splits if_splits)
  with False that find_pair_db [OF f] show ?thesis by (cases r) auto
qed (use assms that in \<open>simp add: check_if_can_move_to_40_move_if_so_def\<close>)

lemma remain_cases:
  assumes "check_if_can_remain_40_move_if_not env s = Inr s'"
  obtains (stay) "db_only s s'"
    | (move) s0 p off s1 where "db_only s s0" "general_fresh env s \<longrightarrow> general_fresh env s0"
        "find_available_channel_pair env UMI_CHANNEL_SW_MODE_SCN s0 = Inr (Some (p, off), s1)"
        "s' = inc_cnt NOF_CHANNEL_SWITCH_40_TO_40 (emit (Switch_to_40 p off) s1)"
    | (leave) s1 where "db_only s s1" "s' = timer_set_unless_limited (switch_to_20 (fst (get_cur_channels env)) s1)"
proof -
  obtain p off where c: "get_cur_channels env = (p, off)" by fastforce
  show ?thesis
  proof (cases "mtlk_channels_find_secondary_channel_no p off")
    case None
    with assms c that(1) show ?thesis by (simp add: check_if_can_remain_40_move_if_not_def)
  next
    case (Some sec)
    with assms c obtain ok s0 where e: "mtlk_coex_lve_evaluate env p sec s = Inr (ok, s0)"
      by (auto simp: check_if_can_remain_40_move_if_not_def bind_result_Inr)
    note d = evaluate_db [OF e]
    show ?thesis
    proof (cases ok)
      case True
      with assms c Some e d that(1) show ?thesis by (simp add: check_if_can_remain_40_move_if_not_def)
    next
      case False
      with assms c Some e obtain r s1 where f: "find_available_channel_pair env UMI_CHANNEL_SW_MODE_SCN s0 = Inr (r, s1)"
        and s': "s' = (case r of Some (p', off') \<Rightarrow> inc_cnt NOF_CHANNEL_SWITCH_40_TO_40 (emit (Switch_to_40 p' off') s1)
           | None \<Rightarrow> timer_set_unless_limited (switch_to_20 (fst (get_cur_channels env)) s1))"
        by (auto simp: check_if_can_remain_40_move_if_not_def bind_result_Inr split: option.splits)
      show ?thesis
      proof (cases r)
        case None
        with s' that(3) [of s1] db_only_trans [OF d find_pair_db [OF f]] show ?thesis by simp
      next
        case (Some q)
        with s' f that(2) [OF d] evaluate_false(2) [OF e] show ?thesis by (cases q) auto
      qed
    qed
  qed
qed

lemma move_logs: "check_if_can_move_to_40_move_if_so env s = Inr s' \<Longrightarrow> logs_ok env s s'"
proof (erule move_cases)
  fix forced p off s1
  assume f: "find_available_channel_pair env forced s = Inr (Some (p, off), s1)" "s' = timer_cancel (switch_to_40 p off s1)"
  show "logs_ok env s s'" by (rule move_to_40_logs [OF f(1)]) (simp_all add: f(2), simp add: coex_defs)
qed (rule logs_ok_db)

lemma logs_ok_before:
  "coex_log s0 = coex_log s \<Longrightarrow> general_fresh env s \<longrightarrow> general_fresh env s0 \<Longrightarrow> logs_ok env s0 s' \<Longrightarrow> logs_ok env s s'"
  by (auto simp: logs_ok_def)

lemma logs_ok_after:
  assumes "logs_ok env s s1" "coex_log s' = coex_log s1 @ l" "\<forall>p off. Switch_to_40 p off \<notin> set l" "same_view s1 s'"
  shows "logs_ok env s s'"
proof -
  obtain k where "coex_log s1 = coex_log s @ k" "\<forall>p off. Switch_to_40 p off \<in> set k \<longrightarrow> pair_ok env p off s1 \<and> \<not> general_fresh env s"
    using assms(1) by (auto simp: logs_ok_def)
  with assms(2,3) pair_ok_view [OF assms(4)] show ?thesis by (intro logs_ok_add [of _ _ "k @ l"]) auto
qed

lemma logs_ok_20: "coex_log s' = coex_log s @ l \<Longrightarrow> \<forall>p off. Switch_to_40 p off \<notin> set l \<Longrightarrow> logs_ok env s s'"
  by (rule logs_ok_add) auto

lemma remain_logs: "check_if_can_remain_40_move_if_not env s = Inr s' \<Longrightarrow> logs_ok env s s'"
proof (erule remain_cases)
  fix s0 p off s1
  assume f: "db_only s s0" "general_fresh env s \<longrightarrow> general_fresh env s0"
    "find_available_channel_pair env UMI_CHANNEL_SW_MODE_SCN s0 = Inr (Some (p, off), s1)"
    "s' = inc_cnt NOF_CHANNEL_SWITCH_40_TO_40 (emit (Switch_to_40 p off) s1)"
  have "logs_ok env s0 s'" by (rule move_to_40_logs [OF f(3)]) (simp_all add: f(4), simp add: coex_defs)
  then show "logs_ok env s s'" by (rule logs_ok_before [OF db_onlyD(8) [OF f(1)] f(2)])
next
  fix s1 assume f: "db_only s s1" "s' = timer_set_unless_limited (switch_to_20 (fst (get_cur_channels env)) s1)"
  show "logs_ok env s s'"
    by (rule logs_ok_add [of _ _ "[Switch_to_20 (fst (get_cur_channels env))]"]) (simp_all add: f(2) coex_defs db_onlyD(8) [OF f(1)])
qed (rule logs_ok_db)

text \<open>An update of the channels from a report.\<close>
definition channels_only :: "coex_sm \<Rightarrow> coex_sm \<Rightarrow> bool" where
  "channels_only s s' \<longleftrightarrow> db_only s s' \<and> general_detected s' = general_detected s \<and> general_detection_ts s' = general_detection_ts s
     \<and> coex_cache s' = coex_cache s"

lemma channels_only_upd: "channels_only s s1 \<Longrightarrow> channels_only s (if b then channel_upd ch f s1 else s1)"
  by (auto simp: channels_only_def channel_upd_def db_only_def without_db_def)

lemma channels_only_trans: "channels_only s s' \<Longrightarrow> channels_only s' s'' \<Longrightarrow> channels_only s s''"
  by (auto simp: channels_only_def intro: db_only_trans)

lemma channels_only_refl [simp]: "channels_only s s"
  by (simp add: channels_only_def)

lemma db_update_frame: "intolerant_db_update_from_frame env chs cur s = Inr (r, s') \<Longrightarrow> channels_only s s'"
proof (induction chs arbitrary: cur s)
  case (Cons ch chs)
  from Cons(2) obtain c where c: "channel_at ch s = Inr c" by (auto simp: bind_result_Inr)
  have "intolerant_db_update_from_frame env chs (cur \<or> ch = ce_channel_cur env)
      (let s1 = (if mtlk_osal_time_after (ce_now env) (intolerant_detection_ts c)
                 then channel_upd ch (\<lambda>c. c\<lparr>intolerant := True, intolerant_detection_ts := ce_now env\<rparr>) s else s)
       in if mtlk_osal_time_after (ce_now env) (primary_detection_ts c)
          then channel_upd ch (\<lambda>c. c\<lparr>primary := True, primary_detection_ts := ce_now env\<rparr>) s1 else s1) = Inr (r, s')"
    using Cons(2) by (simp only: intolerant_db_update_from_frame.simps c bind_result_simps Let_def)
  from channels_only_trans [OF _ Cons(1) [OF this]] show ?case
    unfolding Let_def by (blast intro: channels_only_upd channels_only_refl)
qed simp

lemma permits_cases:
  assumes "element_permits env s = Inr s'"
  obtains (stay) "db_only s s'"
    | (move) forced p off s1 where "find_available_channel_pair env forced s = Inr (Some (p, off), s1)" "\<not> limited_to_20 s"
        "s' = timer_cancel (switch_to_40 p off s1)"
proof (cases "csm_state s = CSM_STATE_20 \<and> \<not> limited_to_20 s \<and> \<not> intolerance_at_first_scan s")
  case True
  with assms obtain r s1 where f: "find_available_channel_pair env UMI_CHANNEL_SW_MODE_SCN s = Inr (r, s1)"
    and s': "s' = (case r of None \<Rightarrow> s1 | Some (p, off) \<Rightarrow> timer_cancel (switch_to_40 p off s1))"
    by (auto simp: element_permits_def bind_result_Inr split: option.splits)
  with True that find_pair_db [OF f] show ?thesis by (cases r) auto
qed (use assms that in \<open>auto simp: element_permits_def\<close>)

lemma timer_cases:
  assumes "transition_delay_timeout_callback env s = Inr s'"
  obtains (stay) "db_only (s\<lparr>transition_timer := None\<rparr>) s'"
    | (move) p off s1 where "find_available_channel_pair env UMI_CHANNEL_SW_MODE_SCN (s\<lparr>transition_timer := None\<rparr>) = Inr (Some (p, off), s1)"
        "s' = switch_to_40 p off s1"
proof (cases "active env s \<and> csm_state s = CSM_STATE_20 \<and> \<not> intolerance_at_first_scan s")
  case True
  then have "active env (s\<lparr>transition_timer := None\<rparr>)" by (simp add: active_def)
  with True assms obtain r s1 where f: "find_available_channel_pair env UMI_CHANNEL_SW_MODE_SCN (s\<lparr>transition_timer := None\<rparr>) = Inr (r, s1)"
    and s': "s' = (case r of None \<Rightarrow> s1 | Some (p, off) \<Rightarrow> switch_to_40 p off s1)"
    by (auto simp: transition_delay_timeout_callback_def Let_def bind_result_Inr split: option.splits)
  with that find_pair_db [OF f] show ?thesis by (cases r) auto
qed (use assms that in \<open>auto simp: transition_delay_timeout_callback_def Let_def active_def split: if_splits\<close>)

text \<open>The parts of the policy of exemptions that leave the channel alone.\<close>
lemma exemption_request_frame:
  "\<exists>l. coex_log (mtlk_sepm_process_exemption_request a s) = coex_log s @ l \<and> (\<forall>p off. Switch_to_40 p off \<notin> set l)"
  "same_view s (mtlk_sepm_process_exemption_request a s)"
proof -
  show "\<exists>l. coex_log (mtlk_sepm_process_exemption_request a s) = coex_log s @ l \<and> (\<forall>p off. Switch_to_40 p off \<notin> set l)"
    by (auto simp: mtlk_sepm_process_exemption_request_def Let_def coex_defs split: option.splits)
  show "same_view s (mtlk_sepm_process_exemption_request a s)"
    by (auto simp: mtlk_sepm_process_exemption_request_def Let_def same_view_def connected_upd incapable_def split: option.splits)
      (simp_all add: coex_defs mtlk_20_40_calc_transition_timer_def)
qed

text \<open>Operations that add no switch to 40 MHz to the log.\<close>
definition no_40 :: "coex_sm \<Rightarrow> coex_sm \<Rightarrow> bool" where
  "no_40 s s' \<longleftrightarrow> (\<exists>l. coex_log s' = coex_log s @ l \<and> (\<forall>p off. Switch_to_40 p off \<notin> set l))"

lemma no_40_refl [simp]: "no_40 s s"
  by (simp add: no_40_def)

lemma no_40_trans: "no_40 s s' \<Longrightarrow> no_40 s' s'' \<Longrightarrow> no_40 s s''"
  unfolding no_40_def by (auto simp: append_assoc)

lemma no_40_logs: "no_40 s s' \<Longrightarrow> logs_ok env s s'"
  unfolding no_40_def by (auto intro: logs_ok_20)

lemma no_40_same: "coex_log s' = coex_log s \<Longrightarrow> no_40 s s'"
  by (simp add: no_40_def)

lemma no_40_basic [simp]:
  "no_40 s (timer_set_unless_limited s')  \<longleftrightarrow> no_40 s s'" "no_40 s (timer_set s') \<longleftrightarrow> no_40 s s'" "no_40 s (timer_cancel s') \<longleftrightarrow> no_40 s s'"
  "no_40 s (inc_cnt k s') \<longleftrightarrow> no_40 s s'" "no_40 s (descriptor_upd i f s') \<longleftrightarrow> no_40 s s'"
  by (simp_all add: no_40_def coex_defs)

lemma no_40_switch_20: "no_40 s s' \<Longrightarrow> no_40 s (switch_to_20 ch s')"
  by (auto simp: no_40_def coex_defs)

lemma no_40_notify:
  "no_40 s (mtlk_20_40_ap_notify_intolerant_or_legacy_station_connected env s)"
  "no_40 s (mtlk_20_40_ap_notify_last_40_incapable_station_disconnected env s)"
  "no_40 s (mtlk_20_40_set_intolerance_at_first_scan_flag env v s)"
  by (simp_all add: mtlk_20_40_ap_notify_intolerant_or_legacy_station_connected_def no_40_switch_20
      mtlk_20_40_ap_notify_last_40_incapable_station_disconnected_def mtlk_20_40_set_intolerance_at_first_scan_flag_def Let_def)
    (simp add: no_40_def coex_defs)

lemma no_40_register: "no_40 s (mtlk_20_40_register_station env a supports ex intol leg s)"
proof -
  have "no_40 s (mtlk_sepm_register_station env a supports ex intol leg s)"
    by (auto simp: mtlk_sepm_register_station_def Let_def split: option.splits intro: no_40_trans [OF _ no_40_notify(1)])
  then show ?thesis
    by (auto simp: mtlk_20_40_register_station_def Let_def intro: no_40_trans [OF _ no_40_notify(3)])
qed

lemma no_40_resume: "no_40 s (sepm_resume_scanning env s)"
  by (auto simp: sepm_resume_scanning_def split: option.splits intro!: no_40_trans [OF _ no_40_notify(3)])
    (simp add: no_40_def emit_def)

lemma no_40_unregister: "no_40 s (mtlk_sepm_unregister_station env a s)"
  by (auto simp: mtlk_sepm_unregister_station_def Let_def split: option.splits
      intro!: no_40_trans [OF _ no_40_notify(2)] no_40_trans [OF _ no_40_resume])

lemma no_40_limits: "no_40 s (element_limits env src s)"
proof -
  have "no_40 s (mtlk_sepm_register_station_intolerance src s)"
    by (simp add: mtlk_sepm_register_station_intolerance_def split: option.splits)
  then have "no_40 s ((mtlk_sepm_register_station_intolerance src s)\<lparr>general_detected := True, general_detection_ts := ce_now env\<rparr>)"
    by (simp add: no_40_def)
  then show ?thesis by (simp add: element_limits_def Let_def no_40_switch_20 split: eCSM_STATES.splits)
qed

lemma permits_logs: "element_permits env s = Inr s' \<Longrightarrow> logs_ok env s s'"
proof (erule permits_cases)
  fix forced p off s1
  assume f: "find_available_channel_pair env forced s = Inr (Some (p, off), s1)" "s' = timer_cancel (switch_to_40 p off s1)"
  show "logs_ok env s s'" by (rule move_to_40_logs [OF f(1)]) (simp_all add: f(2), simp add: coex_defs)
qed (rule logs_ok_db)

lemma timer_logs: "transition_delay_timeout_callback env s = Inr s' \<Longrightarrow> logs_ok env s s'"
proof (erule timer_cases)
  fix p off s1
  assume f: "find_available_channel_pair env UMI_CHANNEL_SW_MODE_SCN (s\<lparr>transition_timer := None\<rparr>) = Inr (Some (p, off), s1)"
    "s' = switch_to_40 p off s1"
  have "logs_ok env (s\<lparr>transition_timer := None\<rparr>) s'"
    by (rule move_to_40_logs [OF f(1)]) (simp_all add: f(2), simp add: coex_defs)
  then show "logs_ok env s s'"
    by (rule logs_ok_before [rotated 2]) (simp_all add: general_fresh_def mtlk_20_40_calc_transition_timer_def)
next
  assume "db_only (s\<lparr>transition_timer := None\<rparr>) s'"
  from db_onlyD(8) [OF this] show "logs_ok env s s'" by (intro logs_ok_quiet) simp
qed

lemma element_logs:
  assumes "mtlk_20_40_ap_process_coexistence_element env el src s = Inr s'"
  shows "logs_ok env s s'"
proof -
  let ?s1 = "inc_cnt NOF_COEX_EL_RECEIVED s"
  consider "s' = s" | "s' = ?s1" | s2 where "logs_ok env ?s1 s2"
      "s' = (if scan_exemption_request el then mtlk_sepm_process_exemption_request src s2 else s2)"
    using assms by (auto simp: mtlk_20_40_ap_process_coexistence_element_def Let_def bind_result_Inr
        dest: permits_logs intro: no_40_logs [OF no_40_limits] split: if_splits)
  then show ?thesis
  proof cases
    case 3
    have "logs_ok env s s2"
      by (rule logs_ok_before [OF _ _ 3(1)])
        (simp_all add: coex_defs general_fresh_def mtlk_20_40_calc_transition_timer_def)
    moreover obtain l where "coex_log (mtlk_sepm_process_exemption_request src s2) = coex_log s2 @ l" "\<forall>p off. Switch_to_40 p off \<notin> set l"
      using exemption_request_frame(1) by blast
    ultimately show ?thesis using 3(2) logs_ok_after exemption_request_frame(2) by simp
  qed (simp_all add: logs_ok_quiet coex_defs)
qed

lemma obss_logs:
  assumes "mtlk_20_40_ap_process_obss_scan_results env chs s = Inr s'"
  shows "logs_ok env s s'"
proof (cases "csm_state s = CSM_STATE_NOT_STARTED \<or> \<not> active env s")
  case False
  with assms obtain cur s1 where u: "intolerant_db_update_from_frame env chs False s = Inr (cur, s1)"
    and c: "s' = s1 \<or> s' = timer_set s1 \<or> check_if_can_move_to_40_move_if_so env s1 = Inr s' \<or> check_if_can_remain_40_move_if_not env s1 = Inr s'"
    by (auto simp: mtlk_20_40_ap_process_obss_scan_results_def bind_result_Inr split: if_splits eCSM_STATES.splits)
  note d = db_update_frame [OF u, unfolded channels_only_def]
  have "logs_ok env s1 s'" using c by (auto intro: move_logs remain_logs logs_ok_quiet simp: coex_defs)
  then show ?thesis
    using d db_onlyD(8,11) [of s s1] by (intro logs_ok_before [of s1 s env s']) (auto simp: general_fresh_def)
qed (use assms in \<open>simp add: mtlk_20_40_ap_process_obss_scan_results_def logs_ok_quiet\<close>)

lemma limit_no_40: "no_40 s (mtlk_20_40_limit_to_20 env v s)"
  by (auto simp: mtlk_20_40_limit_to_20_def Let_def no_40_def coex_defs)

lemma start_stop_log:
  "coex_log (mtlk_20_40_stop s) = coex_log s" "coex_log (snd (mtlk_20_40_start node cntrs initial s)) = coex_log s"
  by (simp_all add: mtlk_20_40_start_def mtlk_20_40_stop_def Let_def coex_defs)

lemma non_ht_cases:
  assumes "mtlk_20_40_ap_notify_non_ht_beacon_received env ch s = Inr s'"
  shows "s' = s \<or> check_if_can_remain_40_move_if_not env s = Inr s' \<or> s' = timer_set_unless_limited s
    \<or> csm_state s = CSM_STATE_20 \<and> ch \<noteq> ce_channel_cur env \<and> check_if_can_move_to_40_move_if_so env s = Inr s'"
  using assms unfolding mtlk_20_40_ap_notify_non_ht_beacon_received_def
  by (cases "csm_state s") (simp_all split: if_split_asm)

lemma query_db:
  assumes "map_sum id snd (mtlk_20_40_is_20_40_operation_permitted env p off s) = Inr s'"
  shows "db_only s s'"
proof (cases "mtlk_20_40_is_20_40_operation_permitted env p off s")
  case (Inr b)
  with assms have "b = (fst b, s')" by (cases b) simp
  with Inr have "mtlk_20_40_is_20_40_operation_permitted env p off s = Inr (fst b, s')" by simp
  then show ?thesis unfolding mtlk_20_40_is_20_40_operation_permitted_def by (rule evaluate_db)
qed (use assms in simp)

lemma step_logs:
  assumes "coex_step env op s = Inr s'"
  shows "logs_ok env s s'"
proof (cases op)
  case (Non_ht_beacon_on ch)
  from non_ht_cases [OF assms [unfolded this coex_step.simps]] show ?thesis
  proof (elim disjE conjE)
    assume "s' = timer_set_unless_limited s"
    then have "no_40 s s'" by (simp only: no_40_basic no_40_refl)
    then show ?thesis by (rule no_40_logs)
  qed (rule move_logs remain_logs, assumption | simp only: no_40_logs [OF no_40_refl])+
next
  case (Query_permitted p off)
  from assms [unfolded this coex_step.simps] show ?thesis by (rule logs_ok_db [OF query_db])
next
  case Timer_fires
  from assms [unfolded this coex_step.simps] show ?thesis by (simp add: no_40_logs timer_logs split: if_split_asm)
next
  case (Element el src)
  from assms [unfolded this coex_step.simps] show ?thesis by (rule element_logs)
next
  case (Obss_results chs)
  from assms [unfolded this coex_step.simps] show ?thesis by (rule obss_logs)
next
  case (Start node cntrs initial)
  with assms have "s' = snd (mtlk_20_40_start node cntrs initial s)" by simp
  then show ?thesis by (simp add: logs_ok_quiet start_stop_log)
next
  case (Register_station a supports ex intol leg)
  with assms have "s' = mtlk_20_40_register_station env a supports ex intol leg s" by simp
  then show ?thesis by (simp add: no_40_logs no_40_register)
qed (use assms in \<open>simp_all add: eq_commute [of _ s'] no_40_logs no_40_unregister no_40_notify limit_no_40 start_stop_log logs_ok_quiet
    mtlk_20_40_set_transition_delay_factor_def mtlk_20_40_set_scan_interval_def split: if_split_asm\<close>)

section \<open>Stations that cannot bear 40 MHz\<close>

definition coex_inv :: "coex_sm \<Rightarrow> bool" where
  "coex_inv s \<longleftrightarrow> (csm_state s \<noteq> CSM_STATE_NOT_STARTED \<longrightarrow> coexistence_mode s \<and> \<not> mode_cfg_enabled s)
     \<and> (csm_state s = CSM_STATE_20_40 \<longrightarrow> \<not> sepm_is_intolerant_or_legacy_station_connected s)"

text \<open>
  The core starts the machine only while the feature is enabled, and in the 40 MHz state only before stations connect.
\<close>
fun op_allowed :: "coex_op \<Rightarrow> coex_sm \<Rightarrow> bool" where
  "op_allowed (Start node cntrs initial) s = (coexistence_mode s \<and> \<not> sepm_is_intolerant_or_legacy_station_connected s)"
| "op_allowed _ s = True"

lemma inv_cong:
  "csm_state s' = csm_state s \<Longrightarrow> coexistence_mode s' = coexistence_mode s \<Longrightarrow> mode_cfg_enabled s' = mode_cfg_enabled s \<Longrightarrow>
   (sepm_is_intolerant_or_legacy_station_connected s' \<Longrightarrow> sepm_is_intolerant_or_legacy_station_connected s) \<Longrightarrow> coex_inv s \<Longrightarrow> coex_inv s'"
  unfolding coex_inv_def by metis

lemma inv_db: "db_only s s' \<Longrightarrow> coex_inv s \<Longrightarrow> coex_inv s'"
  by (rule inv_cong [of s' s]) (simp_all add: db_onlyD)

lemma basic_fields [simp]:
  "csm_state (timer_set s) = csm_state s" "csm_state (timer_cancel s) = csm_state s" "csm_state (inc_cnt k s) = csm_state s"
  "csm_state (emit e s) = csm_state s" "csm_state (descriptor_upd i f s) = csm_state s" "csm_state (switch_to_20 ch s) = CSM_STATE_20"
  "csm_state (switch_to_40 p off s) = CSM_STATE_20_40" "csm_state (timer_set_unless_limited s) = csm_state s"
  "coexistence_mode (timer_set s) = coexistence_mode s" "coexistence_mode (timer_cancel s) = coexistence_mode s"
  "coexistence_mode (inc_cnt k s) = coexistence_mode s" "coexistence_mode (emit e s) = coexistence_mode s"
  "coexistence_mode (descriptor_upd i f s) = coexistence_mode s" "coexistence_mode (switch_to_20 ch s) = coexistence_mode s"
  "coexistence_mode (switch_to_40 p off s) = coexistence_mode s" "coexistence_mode (timer_set_unless_limited s) = coexistence_mode s"
  "mode_cfg_enabled (timer_set s) = mode_cfg_enabled s" "mode_cfg_enabled (timer_cancel s) = mode_cfg_enabled s"
  "mode_cfg_enabled (inc_cnt k s) = mode_cfg_enabled s" "mode_cfg_enabled (emit e s) = mode_cfg_enabled s"
  "mode_cfg_enabled (descriptor_upd i f s) = mode_cfg_enabled s" "mode_cfg_enabled (switch_to_20 ch s) = mode_cfg_enabled s"
  "mode_cfg_enabled (switch_to_40 p off s) = mode_cfg_enabled s" "mode_cfg_enabled (timer_set_unless_limited s) = mode_cfg_enabled s"
  by (simp_all add: coex_defs)

lemma found_not_connected:
  "find_available_channel_pair env forced s = Inr (Some (p, off), s1) \<Longrightarrow> \<not> sepm_is_intolerant_or_legacy_station_connected s1"
  by (drule find_pair_ok(1)) (auto simp: pair_ok_def may_use_40_def)

lemma inv_move:
  assumes "find_available_channel_pair env forced s = Inr (Some (p, off), s1)" "coex_inv s" "csm_state s \<noteq> CSM_STATE_NOT_STARTED"
  shows "coex_inv (switch_to_40 p off s1)" "coex_inv (timer_cancel (switch_to_40 p off s1))"
    "coex_inv (inc_cnt k (emit e s1))"
  using found_not_connected [OF assms(1)] db_onlyD [OF find_pair_db [OF assms(1)]] assms(2,3) by (simp_all add: coex_inv_def)

lemma inv_switch_20: "coex_inv s \<Longrightarrow> csm_state s \<noteq> CSM_STATE_NOT_STARTED \<Longrightarrow> coex_inv (switch_to_20 ch s)"
  by (simp add: coex_inv_def)

lemma inv_timers: "coex_inv (timer_set_unless_limited s) = coex_inv s" "coex_inv (timer_set s) = coex_inv s" "coex_inv (inc_cnt k s) = coex_inv s"
  by (simp_all add: coex_inv_def)

lemma move_inv:
  assumes "check_if_can_move_to_40_move_if_so env s = Inr s'" "coex_inv s" "csm_state s \<noteq> CSM_STATE_NOT_STARTED"
  shows "coex_inv s'"
  using assms(1)
proof (cases rule: move_cases)
  case (move forced p off s1)
  then show ?thesis using inv_move(2) assms by simp
qed (use inv_db assms in simp)

lemma remain_inv:
  assumes "check_if_can_remain_40_move_if_not env s = Inr s'" "coex_inv s" "csm_state s \<noteq> CSM_STATE_NOT_STARTED"
  shows "coex_inv s'"
  using assms(1)
proof (cases rule: remain_cases)
  case (move s0 p off s1)
  then show ?thesis using inv_move(3) inv_db assms db_onlyD(1) by simp
next
  case (leave s1)
  then show ?thesis using inv_switch_20 inv_db assms db_onlyD(1) by (simp add: inv_timers)
qed (use inv_db assms in simp)

lemma limits_inv: "coex_inv s \<Longrightarrow> coex_inv (element_limits env src s)"
proof -
  assume I: "coex_inv s"
  let ?s = "(mtlk_sepm_register_station_intolerance src s)\<lparr>general_detected := True, general_detection_ts := ce_now env\<rparr>"
  have f: "csm_state ?s = csm_state s" "coexistence_mode ?s = coexistence_mode s" "mode_cfg_enabled ?s = mode_cfg_enabled s"
    by (simp_all add: mtlk_sepm_register_station_intolerance_def split: option.splits)
  show ?thesis
    using I f unfolding element_limits_def Let_def by (cases "csm_state s") (simp_all add: coex_inv_def)
qed

lemma request_inv: "coex_inv s \<Longrightarrow> coex_inv (mtlk_sepm_process_exemption_request a s)"
proof -
  assume I: "coex_inv s"
  have "csm_state (mtlk_sepm_process_exemption_request a s) = csm_state s"
    "coexistence_mode (mtlk_sepm_process_exemption_request a s) = coexistence_mode s"
    "mode_cfg_enabled (mtlk_sepm_process_exemption_request a s) = mode_cfg_enabled s"
    by (simp_all add: mtlk_sepm_process_exemption_request_def Let_def split: option.splits)
  with I exemption_request_frame(2) [of s a] show ?thesis by (simp add: coex_inv_def same_view_def)
qed

lemma element_inv:
  assumes "mtlk_20_40_ap_process_coexistence_element env el src s = Inr s'" "coex_inv s"
  shows "coex_inv s'"
proof (cases "csm_state s = CSM_STATE_NOT_STARTED \<or> \<not> active env (inc_cnt NOF_COEX_EL_RECEIVED s)")
  case False
  let ?s1 = "inc_cnt NOF_COEX_EL_RECEIVED s"
  have I: "coex_inv ?s1" "csm_state ?s1 \<noteq> CSM_STATE_NOT_STARTED" using assms(2) False by (simp_all add: inv_timers)
  from assms(1) False obtain s2 where
    2: "(if forty_mhz_intolerant_el el \<or> twenty_mhz_width_request el then Inr (element_limits env src ?s1) else element_permits env ?s1) = Inr s2"
    and s': "s' = (if scan_exemption_request el then mtlk_sepm_process_exemption_request src s2 else s2)"
    unfolding mtlk_20_40_ap_process_coexistence_element_def Let_def by (simp add: bind_result_Inr) metis
  have "coex_inv s2"
  proof (cases "forty_mhz_intolerant_el el \<or> twenty_mhz_width_request el")
    case True
    with 2 have "s2 = element_limits env src ?s1" by simp
    then show ?thesis using limits_inv [OF I(1)] by simp
  next
    case False
    with 2 have "element_permits env ?s1 = Inr s2" by simp
    then show ?thesis
    proof (cases rule: permits_cases)
      case (move forced p off s3)
      then show ?thesis using inv_move(2) I by simp
    qed (use inv_db I in simp)
  qed
  then show ?thesis using s' request_inv by simp
next
  case True
  with assms(1) have "s' = s \<or> s' = inc_cnt NOF_COEX_EL_RECEIVED s"
    unfolding mtlk_20_40_ap_process_coexistence_element_def Let_def by (simp split: if_split_asm)
  then show ?thesis using assms(2) inv_timers(3) by metis
qed

lemma obss_inv:
  assumes "mtlk_20_40_ap_process_obss_scan_results env chs s = Inr s'" "coex_inv s"
  shows "coex_inv s'"
proof (cases "csm_state s = CSM_STATE_NOT_STARTED \<or> \<not> active env s")
  case False
  with assms(1) obtain cur s1 where u: "intolerant_db_update_from_frame env chs False s = Inr (cur, s1)"
    and c: "s' = s1 \<or> s' = timer_set s1 \<or> check_if_can_move_to_40_move_if_so env s1 = Inr s' \<or> check_if_can_remain_40_move_if_not env s1 = Inr s'"
    by (auto simp: mtlk_20_40_ap_process_obss_scan_results_def bind_result_Inr split: if_splits eCSM_STATES.splits)
  have d: "db_only s s1" using db_update_frame [OF u] by (simp add: channels_only_def)
  have I: "coex_inv s1" "csm_state s1 \<noteq> CSM_STATE_NOT_STARTED" using inv_db [OF d assms(2)] db_onlyD(1) [OF d] False by simp_all
  from c show ?thesis using I move_inv remain_inv inv_timers(2) by metis
next
  case True
  with assms(1) have "s' = s" by (simp add: mtlk_20_40_ap_process_obss_scan_results_def)
  with assms(2) show ?thesis by simp
qed

lemma non_ht_inv:
  assumes "mtlk_20_40_ap_notify_non_ht_beacon_received env ch s = Inr s'" "coex_inv s"
  shows "coex_inv s'"
proof (cases "csm_state s = CSM_STATE_NOT_STARTED")
  case False
  from non_ht_cases [OF assms(1)] show ?thesis
    using assms(2) False move_inv remain_inv inv_timers(1) by metis
next
  case True
  with assms(1) have "s' = s" by (simp add: mtlk_20_40_ap_notify_non_ht_beacon_received_def)
  with assms(2) show ?thesis by simp
qed

lemma inv_timer_none: "coex_inv (s\<lparr>transition_timer := t\<rparr>) = coex_inv s"
  by (simp add: coex_inv_def sepm_is_intolerant_or_legacy_station_connected_def)

lemma timer_inv:
  assumes "transition_delay_timeout_callback env s = Inr s'" "coex_inv s"
  shows "coex_inv s'"
proof (cases "csm_state s = CSM_STATE_20")
  case False
  with assms(1) have "s' = s\<lparr>transition_timer := None\<rparr>" by (simp add: transition_delay_timeout_callback_def)
  with assms(2) show ?thesis by (simp add: inv_timer_none)
next
  case True
  have I: "coex_inv (s\<lparr>transition_timer := None\<rparr>)" using assms(2) by (simp add: inv_timer_none)
  from assms(1) show ?thesis
  proof (cases rule: timer_cases)
    case (move p off s1)
    then show ?thesis using inv_move(1) [OF move(1) I] True by simp
  qed (rule inv_db [OF _ I])
qed

lemma first_scan_inv: "coex_inv (mtlk_20_40_set_intolerance_at_first_scan_flag env v s) = coex_inv s"
  by (simp add: mtlk_20_40_set_intolerance_at_first_scan_flag_def Let_def coex_inv_def timer_set_def
      sepm_is_intolerant_or_legacy_station_connected_def)

lemma connected_on:
  assumes "sepm_is_intolerant_or_legacy_station_connected (descriptor_upd i f s)"
  shows "sepm_is_intolerant_or_legacy_station_connected s \<or> incapable (f (descriptors s ! i))"
  using connected_upd_off [of f s i] assms by metis

lemma inv_upd_off:
  assumes "\<not> incapable (f (descriptors s ! i))" "coex_inv s"
  shows "coex_inv (descriptor_upd i f s)"
  using connected_upd_off [of f s i] assms by (simp add: coex_inv_def) metis

lemma register_inv:
  assumes "coex_inv s" "channel_to_band_2_4 (ce_channel_cur env)"
  shows "coex_inv (mtlk_20_40_register_station env a supports ex intol leg s)"
proof -
  let ?f = "\<lambda>d. d\<lparr>supports_coexistence := supports, exempt := ex, ed_intolerant := intol, legacy := leg, ed_addr := a, slot_used := True\<rparr>"
  have a: "active env s" if "csm_state s = CSM_STATE_20_40" using assms that by (simp add: coex_inv_def active_def)
  have d: "active env (descriptor_upd i ?f s) = active env s" for i by (simp add: active_def)
  have n: "coex_inv (mtlk_20_40_ap_notify_intolerant_or_legacy_station_connected env (descriptor_upd i ?f s))" for i
    using assms(1) a d by (cases "csm_state s") (simp_all add: mtlk_20_40_ap_notify_intolerant_or_legacy_station_connected_def coex_inv_def)
  have q: "coex_inv (descriptor_upd i ?f s)" if "\<not> leg" "\<not> intol" for i
    by (rule inv_upd_off) (simp_all add: incapable_def that assms(1))
  have "coex_inv (mtlk_sepm_register_station env a supports ex intol leg s)"
    using assms(1) n q by (simp add: mtlk_sepm_register_station_def Let_def split: option.split)
  then show ?thesis by (cases supports; cases ex) (simp_all add: mtlk_20_40_register_station_def Let_def first_scan_inv)
qed

lemma inv_last_disconnected: "coex_inv (mtlk_20_40_ap_notify_last_40_incapable_station_disconnected env s) = coex_inv s"
  by (simp add: mtlk_20_40_ap_notify_last_40_incapable_station_disconnected_def inv_timers)

lemma inv_same_incapable: "incapable (f (descriptors s ! i)) = incapable (descriptors s ! i) \<Longrightarrow> coex_inv (descriptor_upd i f s) = coex_inv s"
  by (simp add: coex_inv_def connected_upd)

lemma inv_emit: "coex_inv (emit e s) = coex_inv s"
  by (simp add: coex_inv_def)

lemma resume_inv: "coex_inv (sepm_resume_scanning env s) = coex_inv s"
proof -
  have "coex_inv (descriptor_upd j (\<lambda>d. d\<lparr>exempt := False\<rparr>) t) = coex_inv t" for j t
    by (rule inv_same_incapable) (simp add: incapable_def)
  then show ?thesis
    by (simp add: sepm_resume_scanning_def inv_timers first_scan_inv inv_emit split: option.split)
qed

lemma unregister_inv:
  assumes "coex_inv s"
  shows "coex_inv (mtlk_sepm_unregister_station env a s)"
proof (cases "slot_by_addr a s")
  case (Some i)
  have 1: "coex_inv (descriptor_upd i (\<lambda>d. d\<lparr>slot_used := False\<rparr>) s)"
    by (rule inv_upd_off) (simp_all add: incapable_def assms)
  have 2: "coex_inv (descriptor_upd i (\<lambda>d. d\<lparr>ed_addr := replicate 6 0, exempt := False, ed_intolerant := False, legacy := False\<rparr>) t)"
    if "coex_inv t" for t
    by (rule inv_upd_off) (simp_all add: incapable_def that)
  show ?thesis
    unfolding mtlk_sepm_unregister_station_def Some Let_def option.case by (rule 2) (simp add: inv_last_disconnected resume_inv 1)
qed (simp add: mtlk_sepm_unregister_station_def assms)

lemma limit_inv: "coex_inv s \<Longrightarrow> coex_inv (mtlk_20_40_limit_to_20 env v s)"
  by (simp add: mtlk_20_40_limit_to_20_def Let_def coex_inv_def) (simp add: coex_defs sepm_is_intolerant_or_legacy_station_connected_def)

lemma stop_inv: "coex_inv s \<Longrightarrow> coex_inv (mtlk_20_40_stop s)"
  by (simp add: mtlk_20_40_stop_def coex_inv_def)

lemma coex_start_inv:
  assumes "coex_inv s" "coexistence_mode s" "\<not> sepm_is_intolerant_or_legacy_station_connected s"
  shows "coex_inv (snd (mtlk_20_40_start node cntrs initial s))"
  using assms by (simp add: mtlk_20_40_start_def mtlk_20_40_stop_def Let_def coex_inv_def timer_set_def
      sepm_is_intolerant_or_legacy_station_connected_def)

lemma mode_inv:
  assumes "coex_inv s"
  shows "coex_inv (if mode_cfg_enabled s then s\<lparr>coexistence_mode := en, intolerance_mode := intol\<rparr> else s)"
  using assms by (cases "csm_state s") (simp_all add: coex_inv_def sepm_is_intolerant_or_legacy_station_connected_def)

lemma field_inv:
  assumes "coex_inv s"
  shows "coex_inv (s\<lparr>exemption_req := v\<rparr>)" "coex_inv (snd (mtlk_20_40_set_transition_delay_factor n s))"
    "coex_inv (snd (mtlk_20_40_set_scan_interval n s))" "coex_inv (s\<lparr>coex_cache := c\<rparr>)"
  using assms by (simp_all add: coex_inv_def sepm_is_intolerant_or_legacy_station_connected_def
      mtlk_20_40_set_transition_delay_factor_def mtlk_20_40_set_scan_interval_def)

lemma coex_step_inv:
  assumes "coex_step env op s = Inr s'" "coex_inv s" "op_allowed op s" "channel_to_band_2_4 (ce_channel_cur env)"
  shows "coex_inv s'"
proof (cases op)
  case (Element el src)
  show ?thesis by (rule element_inv [OF assms(1) [unfolded Element coex_step.simps] assms(2)])
next
  case (Obss_results chs)
  show ?thesis by (rule obss_inv [OF assms(1) [unfolded Obss_results coex_step.simps] assms(2)])
next
  case (Non_ht_beacon_on ch)
  show ?thesis by (rule non_ht_inv [OF assms(1) [unfolded Non_ht_beacon_on coex_step.simps] assms(2)])
next
  case Timer_fires
  with assms(1) have "s' = s \<or> transition_delay_timeout_callback env s = Inr s'" by (simp split: if_split_asm)
  then show ?thesis using timer_inv assms(2) by metis
next
  case (Query_permitted p off)
  show ?thesis by (rule inv_db [OF query_db [OF assms(1) [unfolded Query_permitted coex_step.simps]] assms(2)])
next
  case (Start node cntrs initial)
  with assms have "s' = snd (mtlk_20_40_start node cntrs initial s)" by simp
  then show ?thesis using coex_start_inv assms(2,3) Start by simp
qed (use assms in \<open>simp_all add: eq_commute [of _ s'] register_inv unregister_inv limit_inv stop_inv first_scan_inv mode_inv field_inv
    del: if_split\<close>)

inductive coex_reach :: "coex_sm \<Rightarrow> bool" where
  Init: "coex_reach (mtlk_20_40_init now n cache)"
| Step: "coex_reach s \<Longrightarrow> op_allowed op s \<Longrightarrow> channel_to_band_2_4 (ce_channel_cur env) \<Longrightarrow> coex_step env op s = Inr s' \<Longrightarrow> coex_reach s'"

lemma coex_reach_inv: "coex_reach s \<Longrightarrow> coex_inv s"
proof (induction rule: coex_reach.induct)
  case (Init now n cache)
  then show ?case by (simp add: coex_inv_def mtlk_20_40_init_def)
next
  case (Step s op env s')
  then show ?case using coex_step_inv by metis
qed

section \<open>What the machine guarantees\<close>

text \<open>An access point on channel 1, alone on the air, started in the 40 MHz state with one station that can bear it.\<close>
definition ex_env :: coex_env where
  "ex_env = \<lparr>ce_now = 1000, ce_to_ms = id, ce_channel_cur = 1, ce_channel_cfg = 0, ce_spectrum_40 = False, ce_bonding = ALTERNATE_UPPER\<rparr>"

definition ex_idle :: coex_sm where
  "ex_idle = (mtlk_20_40_init 0 2 cache_zero)\<lparr>coexistence_mode := True, intolerance_mode := False\<rparr>"

definition ex_started :: "eCSM_STATES \<Rightarrow> coex_sm" where
  "ex_started st = snd (mtlk_20_40_start True MTLK_ERR_OK st ex_idle)"

definition ex_served :: coex_sm where
  "ex_served = mtlk_20_40_register_station ex_env [1, 2, 3, 4, 5, 6] True False False False (ex_started CSM_STATE_20_40)"

lemma ex_band: "channel_to_band_2_4 (ce_channel_cur ex_env)"
  by (simp add: ex_env_def channel_to_band_2_4_def)

lemma ex_reach: "coex_reach (ex_started st)" "coex_reach ex_served"
proof -
  have i: "coex_reach ex_idle"
    by (rule coex_reach.Step [where env = ex_env and op = "Set_mode True False", OF coex_reach.Init [of 0 2 cache_zero] _ ex_band])
      (simp_all add: ex_idle_def mtlk_20_40_init_def)
  show s: "coex_reach (ex_started st)" for st
    by (rule coex_reach.Step [where env = ex_env and op = "Start True MTLK_ERR_OK st", OF i _ ex_band])
      (simp_all add: ex_started_def ex_idle_def mtlk_20_40_init_def sepm_is_intolerant_or_legacy_station_connected_def descriptor_zero_def)
  show "coex_reach ex_served"
    by (rule coex_reach.Step [where env = ex_env and op = "Register_station [1, 2, 3, 4, 5, 6] True False False False", OF s _ ex_band])
      (simp_all add: ex_served_def)
qed

lemmas coex_exec = ex_env_def ex_idle_def ex_started_def mtlk_20_40_init_def mtlk_20_40_start_def Let_def
  mtlk_20_40_ap_notify_non_ht_beacon_received_def active_def channel_to_band_2_4_def check_if_can_move_to_40_move_if_so_def
  get_cur_channels_def find_available_channel_pair_def try_pair_def sw_modes mtlk_channels_find_secondary_channel_no_def
  rest_of_world_2ghz_pairs_def mtlk_coex_lve_evaluate_def lve_is_operation_permitted_def is_coex_el_intolerant_bit_detected_def
  sepm_is_intolerant_or_legacy_station_connected_def descriptor_zero_def lve_check_channel_bounds_def
  mtlk_20_40_perform_idb_update_def mtlk_20_40_calc_transition_timer_def cache_zero_def mtlk_cache_set_expiration_time_def
  cache_entries_def mtlk_cache_rewind_def mtlk_cache_get_next_bss_def verify_iff idb_channel_zero_def coex_defs u32_max_def

text \<open>A beacon of a network without HT on another channel lets the machine look for a pair: the channels 1 and 5 are free.\<close>
lemma ex_move:
  "\<exists>s'. coex_step ex_env (Non_ht_beacon_on 6) (ex_started CSM_STATE_20) = Inr s' \<and> csm_state s' = CSM_STATE_20_40
    \<and> coex_log s' = coex_log (ex_started CSM_STATE_20) @ [Switch_to_40 1 UMI_CHANNEL_SW_MODE_SCA]"
  by (simp add: coex_exec)

text \<open>
  C6: In every history of calls, in which the machine is started as the core starts it, the network never uses 40 MHz with a station that has declared itself intolerant of it or that
  knows only 20 MHz: the first such station takes the machine out of the 40 MHz state, and no evaluation takes it back
  before the last of them has left.
\<close>
theorem coex_40_only_with_capable_stations:
  assumes "coex_reach s" "csm_state s = CSM_STATE_20_40" "d \<in> set (descriptors s)" "slot_used d"
  shows "\<not> ed_intolerant d \<and> \<not> legacy d"
  using coex_reach_inv [OF assms(1)] assms(2-) by (auto simp: coex_inv_def sepm_is_intolerant_or_legacy_station_connected_def)

theorem coex_40_only_with_capable_stations_witness:
  "csm_state ex_served = CSM_STATE_20_40 \<and> slot_used (descriptors ex_served ! 0) \<and> \<not> legacy (descriptors ex_served ! 0)"
proof -
  have "csm_state ex_served = CSM_STATE_20_40" "slot_used (descriptors ex_served ! 0)" "0 < length (descriptors ex_served)"
    by code_simp+
  then show ?thesis using coex_40_only_with_capable_stations [OF ex_reach(2), of "descriptors ex_served ! 0"] by simp
qed

text \<open>
  C19: Whatever call the machine serves, it orders a switch to 40 MHz only for the channel in use with one of its secondary
  channels, and only with a permission: the network is not configured intolerant, no station that cannot bear 40 MHz is
  connected, no channel within 25 MHz of the centre of the pair has a record younger than the transition time, and no
  element had declared intolerance within that time when the call began.
\<close>
theorem coex_switch_to_40_needs_permission:
  assumes "coex_step env op s = Inr s'" "coex_log s' = coex_log s @ l" "Switch_to_40 p off \<in> set l"
  shows "p = ce_channel_cur env \<and> \<not> general_fresh env s \<and> \<not> intolerance_mode s'
    \<and> (\<forall>d \<in> set (descriptors s'). slot_used d \<longrightarrow> \<not> ed_intolerant d \<and> \<not> legacy d)
    \<and> (\<exists>sec. mtlk_channels_find_secondary_channel_no p off = Some sec \<and> quiet env p sec s')"
proof -
  have "pair_ok env p off s'" "\<not> general_fresh env s"
    using step_logs [OF assms(1)] assms(2,3) by (auto simp: logs_ok_def)
  then show ?thesis unfolding pair_ok_def may_use_40_def sepm_is_intolerant_or_legacy_station_connected_def by blast
qed

theorem coex_switch_to_40_needs_permission_witness:
  "\<exists>s'. coex_step ex_env (Non_ht_beacon_on 6) (ex_started CSM_STATE_20) = Inr s' \<and> quiet ex_env 1 5 s'"
proof -
  obtain s' where s': "coex_step ex_env (Non_ht_beacon_on 6) (ex_started CSM_STATE_20) = Inr s'"
    "coex_log s' = coex_log (ex_started CSM_STATE_20) @ [Switch_to_40 1 UMI_CHANNEL_SW_MODE_SCA]"
    using ex_move by metis
  have "mtlk_channels_find_secondary_channel_no 1 UMI_CHANNEL_SW_MODE_SCA = Some 5"
    by (simp add: mtlk_channels_find_secondary_channel_no_def rest_of_world_2ghz_pairs_def sw_modes)
  moreover have "Switch_to_40 1 UMI_CHANNEL_SW_MODE_SCA \<in> set [Switch_to_40 1 UMI_CHANNEL_SW_MODE_SCA]" by simp
  ultimately have "quiet ex_env 1 5 s'" using coex_switch_to_40_needs_permission [OF s'] by (metis option.inject)
  with s'(1) show ?thesis by metis
qed

end
