(* ===== verification/Coex_Bounds.thy ===== *)
theory Coex_Bounds
  imports Coex_Safe
begin

text \<open>
  The accesses of the coexistence machine to its data base of fourteen channels: every call returns as long as the channels of
  the reports and of the cached networks are those of the 2.4 GHz band, and a report with any other channel reaches
  memory outside it. The limit to 20 MHz and the one call that breaks it; the exemptions that are never withdrawn.
\<close>

section \<open>The data base of channels\<close>

lemma cache_entries_total:
  assumes "cache_ok c"
  shows "cache_ok (snd (cache_entries now c))" "set (fst (cache_entries now c)) \<subseteq> set (bss_list c)"
    "bss_list (snd (cache_entries now c)) = fst (cache_entries now c)"
    "cursor_walk mtlk_cache_get_next_bss (\<lambda>_. False) (Suc (length (bss_list c))) (\<lambda>_. now) (mtlk_cache_rewind c) = Some (cache_entries now c)"
proof -
  obtain vis c' where w: "cursor_walk mtlk_cache_get_next_bss (\<lambda>_. False) (Suc (length (bss_list c))) (\<lambda>_. now) (mtlk_cache_rewind c) = Some (vis, c')"
    "cache_ok c'" "cache_seen c' = vis" "cache_todo c' = []" "visits (cache_keep c) (\<lambda>_. now) (bss_list c) vis"
    using bss_scan.full_walk [OF assms, of "Suc (length (bss_list c))" "\<lambda>_. now"] unfolding seen_todo by (metis lessI)
  have e: "cache_entries now c = (vis, c')" unfolding cache_entries_def w(1) by simp
  show "cache_ok (snd (cache_entries now c))" "set (fst (cache_entries now c)) \<subseteq> set (bss_list c)"
    "bss_list (snd (cache_entries now c)) = fst (cache_entries now c)"
    "cursor_walk mtlk_cache_get_next_bss (\<lambda>_. False) (Suc (length (bss_list c))) (\<lambda>_. now) (mtlk_cache_rewind c) = Some (cache_entries now c)"
    using w seen_todo [of c'] subseq_set_subset [of vis "bss_list c"] by (auto simp: e visits_def)
qed

definition in_band :: "nat \<Rightarrow> bool" where
  "in_band ch \<longleftrightarrow> 1 \<le> ch \<and> ch \<le> 14"

text \<open>Fourteen channels, and a scan cache that is in order and holds networks of these channels only.\<close>
definition db_ok :: "coex_sm \<Rightarrow> bool" where
  "db_ok s \<longleftrightarrow> length (channels_list s) = 14 \<and> cache_ok (coex_cache s) \<and> (\<forall>e \<in> set (bss_list (coex_cache s)). in_band (channel (ce_bss e)))"

lemma secondary_bounds:
  assumes "mtlk_channels_find_secondary_channel_no p off = Some sec"
  shows "in_band sec" "in_band p" "in_band (p + 1)"
  using assms by (auto simp: mtlk_channels_find_secondary_channel_no_def rest_of_world_2ghz_pairs_def in_band_def split: if_split_asm)

lemma channel_at_in: "length (channels_list s) = 14 \<Longrightarrow> in_band ch \<Longrightarrow> channel_at ch s = Inr (channels_list s ! (ch - 1))"
  by (simp add: channel_at_def in_band_def)

lemma channel_at_out: "length (channels_list s) = 14 \<Longrightarrow> \<not> in_band ch \<Longrightarrow> channel_at ch s = Inl Out_of_bounds"
  by (auto simp: channel_at_def in_band_def)

lemma channel_upd_length [simp]: "length (channels_list (channel_upd ch f s)) = length (channels_list s)"
  by (simp add: channel_upd_def)

lemma marks_total:
  assumes l: "length (channels_list s) = 14" and b: "in_band (ii_channel i)"
  shows "\<exists>s'. mark_intolerant i s = Inr s' \<and> length (channels_list s') = 14"
    "length (channels_list (mark_general i s)) = 14"
    "\<exists>s'. mark_primary i s = Inr s' \<and> length (channels_list s') = 14"
    "\<exists>s'. mark_secondary i s = Inr s' \<and> length (channels_list s') = 14"
proof -
  note at = channel_at_in [OF l]
  show "\<exists>s'. mark_intolerant i s = Inr s' \<and> length (channels_list s') = 14" "length (channels_list (mark_general i s)) = 14"
    "\<exists>s'. mark_primary i s = Inr s' \<and> length (channels_list s') = 14"
    using at [OF b] l by (simp_all add: mark_intolerant_def mark_general_def mark_primary_def)
  show "\<exists>s'. mark_secondary i s = Inr s' \<and> length (channels_list s') = 14"
  proof (cases "mtlk_channels_find_secondary_channel_no (ii_channel i) (ii_offset i)")
    case (Some sec)
    with at [OF secondary_bounds(1) [OF Some]] at [OF secondary_bounds(3) [OF Some]] l show ?thesis by (simp add: mark_secondary_def)
  qed (simp add: mark_secondary_def l)
qed

lemma callback_total:
  assumes "length (channels_list s) = 14" "in_band (ii_channel i)"
  shows "\<exists>s'. intolerance_enumerator_callback env i s = Inr s' \<and> length (channels_list s') = 14"
proof -
  obtain s1 where 1: "mark_intolerant i s = Inr s1" "length (channels_list s1) = 14" using marks_total(1) [OF assms] by metis
  obtain s2 where 2: "mark_primary i (mark_general i s1) = Inr s2" "length (channels_list s2) = 14"
    using marks_total(3) [OF marks_total(2) [OF 1(2) assms(2)] assms(2)] by metis
  show ?thesis using 1 2 marks_total(4) [OF 2(2) assms(2)] assms(1) by (simp add: intolerance_enumerator_callback_def)
qed

lemma visit_total:
  assumes "\<forall>e \<in> set es. in_band (channel (ce_bss e))" "length (channels_list s) = 14"
  shows "\<exists>s'. visit_entries env es s = Inr s' \<and> length (channels_list s') = 14"
  using assms
proof (induction es arbitrary: s)
  case (Cons e es)
  from Cons.prems obtain s1 where "intolerance_enumerator_callback env (info_of (ce_bss e)) s = Inr s1" "length (channels_list s1) = 14"
    using callback_total [of s "info_of (ce_bss e)" env] by (simp add: info_of_def) metis
  with Cons show ?case by simp
qed simp

lemma idb_total:
  assumes "db_ok s"
  shows "\<exists>s'. mtlk_20_40_perform_idb_update env s = Inr s' \<and> db_ok s'"
proof -
  define c1 where "c1 = (if cache_expire (coex_cache s) < mtlk_20_40_calc_transition_timer s
    then mtlk_cache_set_expiration_time (mtlk_20_40_calc_transition_timer s) (coex_cache s) else coex_cache s)"
  have c1: "cache_ok c1" "bss_list c1 = bss_list (coex_cache s)"
    using assms set_expiration_ok by (simp_all add: c1_def db_ok_def mtlk_cache_set_expiration_time_def)
  obtain es c2 where e: "cache_entries (ce_to_ms env (ce_now env)) c1 = (es, c2)" by fastforce
  have es: "cache_ok c2" "bss_list c2 = es" "\<forall>x \<in> set es. in_band (channel (ce_bss x))"
    using cache_entries_total [OF c1(1), of "ce_to_ms env (ce_now env)"] e assms c1(2) by (auto simp: db_ok_def)
  obtain s' where s': "visit_entries env es s = Inr s'" "length (channels_list s') = 14"
    using visit_total [OF es(3), of s env] assms unfolding db_ok_def by metis
  have "cache_ok (mtlk_cache_set_expiration_time t c2)" "bss_list (mtlk_cache_set_expiration_time t c2) = es" for t
    using es set_expiration_ok by (simp_all add: mtlk_cache_set_expiration_time_def)
  with es s' e show ?thesis by (simp add: mtlk_20_40_perform_idb_update_def Let_def c1_def [symmetric] db_ok_def)
qed

lemma db_ok_cong: "channels_list s' = channels_list s \<Longrightarrow> coex_cache s' = coex_cache s \<Longrightarrow> db_ok s' = db_ok s"
  by (simp add: db_ok_def)

lemma permitted_total:
  assumes "db_ok s"
  shows "\<exists>r s'. lve_is_operation_permitted env p sec s = Inr (r, s') \<and> db_ok s'"
proof -
  obtain d s1 where d: "is_coex_el_intolerant_bit_detected env s = (d, s1)" by fastforce
  have "channels_list s1 = channels_list s" "coex_cache s1 = coex_cache s"
    using d by (auto simp: is_coex_el_intolerant_bit_detected_def split: if_split_asm)
  then have 1: "db_ok s1" using assms db_ok_cong by metis
  obtain s2 where "mtlk_20_40_perform_idb_update env s1 = Inr s2" "db_ok s2" using idb_total [OF 1] by metis
  with d 1 assms show ?thesis by (simp add: lve_is_operation_permitted_def Let_def ex_bool_eq)
qed

lemma evaluate_total:
  assumes "db_ok s"
  shows "\<exists>r s'. mtlk_coex_lve_evaluate env p sec s = Inr (r, s') \<and> db_ok s'"
proof -
  obtain r s1 where p: "lve_is_operation_permitted env p sec s = Inr (r, s1)" "db_ok s1" using permitted_total [OF assms] by metis
  have "db_ok (s1\<lparr>lvt_op_permitted := r\<rparr>)" using p(2) by (simp add: db_ok_def)
  with p(1) show ?thesis by (simp add: mtlk_coex_lve_evaluate_def)
qed

lemma try_pair_total:
  assumes "db_ok s"
  shows "\<exists>r s'. try_pair env off s = Inr (r, s') \<and> db_ok s'"
proof (cases "mtlk_channels_find_secondary_channel_no (ce_channel_cur env) off")
  case (Some sec)
  obtain r s' where "mtlk_coex_lve_evaluate env (ce_channel_cur env) sec s = Inr (r, s')" "db_ok s'"
    using evaluate_total [OF assms] by metis
  then show ?thesis by (simp add: try_pair_def Some)
qed (simp add: try_pair_def assms)

lemma find_total:
  assumes "db_ok s"
  shows "\<exists>r s'. find_available_channel_pair env forced s = Inr (r, s') \<and> db_ok s'"
proof -
  obtain r s1 where 1: "try_pair env (if forced = UMI_CHANNEL_SW_MODE_SCB then UMI_CHANNEL_SW_MODE_SCB else UMI_CHANNEL_SW_MODE_SCA) s = Inr (r, s1)"
    "db_ok s1" using try_pair_total [OF assms] by metis
  with try_pair_total [OF 1(2), of env UMI_CHANNEL_SW_MODE_SCB] show ?thesis by (simp add: find_available_channel_pair_def)
qed

lemma move_total:
  assumes "db_ok s"
  shows "\<exists>s'. check_if_can_move_to_40_move_if_so env s = Inr s'"
proof -
  let ?forced = "if ce_channel_cfg env \<noteq> 0 \<and> fst (get_cur_channels env) = ce_channel_cfg env
    then snd (get_cur_channels env) else UMI_CHANNEL_SW_MODE_SCN"
  obtain r s1 where f: "find_available_channel_pair env ?forced s = Inr (r, s1)" using find_total [OF assms] by metis
  show ?thesis unfolding check_if_can_move_to_40_move_if_so_def Let_def f
    by (cases r) (simp_all add: split_def)
qed

lemma remain_total:
  assumes "db_ok s"
  shows "\<exists>s'. check_if_can_remain_40_move_if_not env s = Inr s'"
proof -
  obtain p off where c: "get_cur_channels env = (p, off)" by fastforce
  show ?thesis
  proof (cases "mtlk_channels_find_secondary_channel_no p off")
    case (Some sec)
    obtain ok s1 where 1: "mtlk_coex_lve_evaluate env p sec s = Inr (ok, s1)" "db_ok s1" using evaluate_total [OF assms] by metis
    obtain r s2 where 2: "find_available_channel_pair env UMI_CHANNEL_SW_MODE_SCN s1 = Inr (r, s2)" using find_total [OF 1(2)] by metis
    show ?thesis by (cases r) (simp_all add: check_if_can_remain_40_move_if_not_def c Some 1 2 split_def)
  qed (simp add: check_if_can_remain_40_move_if_not_def c)
qed

text \<open>A report of channels is written into the data base exactly when all its channels are in the band.\<close>
lemma frame_total:
  assumes "length (channels_list s) = 14"
  shows "(\<forall>ch \<in> set chs. in_band ch) \<Longrightarrow> \<exists>r s'. intolerant_db_update_from_frame env chs cur s = Inr (r, s')"
    "\<not> (\<forall>ch \<in> set chs. in_band ch) \<Longrightarrow> intolerant_db_update_from_frame env chs cur s = Inl Out_of_bounds"
  using assms
proof (induction chs arbitrary: cur s)
  case (Cons ch chs)
  case 1
  with Cons channel_at_in [of s ch] show ?case by (simp add: Let_def)
next
  case (Cons ch chs)
  case 2
  with Cons channel_at_in [of s ch] channel_at_out [of s ch] show ?case by (cases "in_band ch") (simp_all add: Let_def)
qed simp_all

lemma frame_db_ok:
  assumes "intolerant_db_update_from_frame env chs cur s = Inr (r, s')" "db_ok s"
  shows "db_ok s'"
proof -
  have "channels_only s s'" by (rule db_update_frame [OF assms(1)])
  with assms(2) db_onlyD(10) [of s s'] show ?thesis by (simp add: channels_only_def db_ok_def)
qed

text \<open>The channels that a call names.\<close>
fun op_in_band :: "coex_op \<Rightarrow> bool" where
  "op_in_band (Obss_results chs) = (\<forall>ch \<in> set chs. in_band ch)"
| "op_in_band _ = True"

lemma element_total:
  assumes "db_ok s"
  shows "\<exists>s'. mtlk_20_40_ap_process_coexistence_element env el src s = Inr s'"
proof -
  let ?s = "inc_cnt NOF_COEX_EL_RECEIVED s"
  have "db_ok ?s" using assms by (simp add: db_ok_def inc_cnt_def)
  then obtain r s1 where f: "find_available_channel_pair env UMI_CHANNEL_SW_MODE_SCN ?s = Inr (r, s1)" using find_total by metis
  have "\<exists>s2. element_permits env ?s = Inr s2"
    by (cases r) (simp_all add: element_permits_def f split_def)
  then obtain s2 where "element_permits env ?s = Inr s2" ..
  then show ?thesis by (simp add: mtlk_20_40_ap_process_coexistence_element_def Let_def)
qed

lemma obss_total:
  assumes "db_ok s" "\<forall>ch \<in> set chs. in_band ch"
  shows "\<exists>s'. mtlk_20_40_ap_process_obss_scan_results env chs s = Inr s'"
proof -
  obtain r s1 where u: "intolerant_db_update_from_frame env chs False s = Inr (r, s1)"
    using frame_total(1) [of s chs env False] assms by (auto simp: db_ok_def)
  have d: "db_ok s1" by (rule frame_db_ok [OF u assms(1)])
  obtain s2 s3 where "check_if_can_move_to_40_move_if_so env s1 = Inr s2" "check_if_can_remain_40_move_if_not env s1 = Inr s3"
    using move_total [OF d] remain_total [OF d] by metis
  then show ?thesis by (cases "csm_state s1") (simp_all add: mtlk_20_40_ap_process_obss_scan_results_def u)
qed

lemma timer_total:
  assumes "db_ok s"
  shows "\<exists>s'. transition_delay_timeout_callback env s = Inr s'"
proof -
  let ?s = "s\<lparr>transition_timer := None\<rparr>"
  have "db_ok ?s" using assms by (simp add: db_ok_def)
  then obtain r s1 where f: "find_available_channel_pair env UMI_CHANNEL_SW_MODE_SCN ?s = Inr (r, s1)" using find_total by metis
  show ?thesis by (cases r) (simp_all add: transition_delay_timeout_callback_def Let_def f split_def)
qed

lemma non_ht_total:
  assumes "db_ok s"
  shows "\<exists>s'. mtlk_20_40_ap_notify_non_ht_beacon_received env ch s = Inr s'"
  using move_total [OF assms] remain_total [OF assms] by (simp add: mtlk_20_40_ap_notify_non_ht_beacon_received_def)

text \<open>
  C21: As long as the scan cache and the reports hold channels of the 2.4 GHz band only, every call to the machine returns, in
  every state: no access leaves the data base of fourteen channels, also not that of the secondary channel's flag at the
  index after the primary channel.
\<close>
theorem coex_step_returns:
  assumes "db_ok s" "op_in_band op"
  shows "\<exists>s'. coex_step env op s = Inr s'"
proof (cases op)
  case (Query_permitted p off)
  obtain r s' where "mtlk_coex_lve_evaluate env p (case mtlk_channels_find_secondary_channel_no p off of None \<Rightarrow> 0 | Some sec \<Rightarrow> sec) s
      = Inr (r, s')" using evaluate_total [OF assms(1)] by metis
  then show ?thesis by (simp add: Query_permitted mtlk_20_40_is_20_40_operation_permitted_def)
qed (use assms element_total obss_total non_ht_total timer_total in simp_all)

theorem coex_step_returns_witness:
  "\<exists>s'. coex_step ex_env (Obss_results [1, 6, 14]) (ex_started CSM_STATE_20_40) = Inr s'"
proof -
  have "db_ok (ex_started CSM_STATE_20_40)"
    by (simp add: db_ok_def ex_started_def ex_idle_def mtlk_20_40_init_def mtlk_20_40_start_def cache_zero_def cache_ok_def)
  then show ?thesis by (rule coex_step_returns) (simp add: in_band_def)
qed

text \<open>
  C22: A report of overlapping networks is the content of a frame, and its channels are not checked: on a machine that is started
  and active, one channel outside 1 to 14 is enough for a write outside the data base.
\<close>
theorem coex_report_out_of_bounds:
  assumes "length (channels_list s) = 14" "csm_state s \<noteq> CSM_STATE_NOT_STARTED" "active env s" "ch \<in> set chs" "ch = 0 \<or> 14 < ch"
  shows "mtlk_20_40_ap_process_obss_scan_results env chs s = Inl Out_of_bounds"
proof -
  have "\<not> in_band ch" using assms(5) by (auto simp: in_band_def)
  then have "\<not> (\<forall>ch \<in> set chs. in_band ch)" using assms(4) by blast
  with frame_total(2) [OF assms(1)] assms(2,3) show ?thesis by (simp add: mtlk_20_40_ap_process_obss_scan_results_def)
qed

theorem coex_report_out_of_bounds_witness:
  "mtlk_20_40_ap_process_obss_scan_results ex_env [6, 36] (ex_started CSM_STATE_20) = Inl Out_of_bounds"
  by (rule coex_report_out_of_bounds [where ch = 36]) (simp_all add: coex_exec)

section \<open>The limit to 20 MHz\<close>

text \<open>The timer's callback does not look at the limit: what keeps it is that the timer is never armed under the limit.\<close>
definition limit_inv_timer :: "coex_sm \<Rightarrow> bool" where
  "limit_inv_timer s \<longleftrightarrow> (limited_to_20 s \<longrightarrow> transition_timer s = None)"

lemma limit_timer_frame [simp]:
  "limit_inv_timer (inc_cnt k s) = limit_inv_timer s" "limit_inv_timer (emit e s) = limit_inv_timer s"
  "limit_inv_timer (descriptor_upd i f s) = limit_inv_timer s" "limit_inv_timer (switch_to_20 ch s) = limit_inv_timer s"
  "limit_inv_timer (switch_to_40 p off s) = limit_inv_timer s" "limit_inv_timer (timer_set_unless_limited s) = limit_inv_timer s"
  "limit_inv_timer (timer_cancel s)" "limit_inv_timer (s\<lparr>transition_timer := None\<rparr>)"
  by (simp_all add: limit_inv_timer_def coex_defs)

lemma limit_timer_first_scan [simp]: "limit_inv_timer (mtlk_20_40_set_intolerance_at_first_scan_flag env v s) = limit_inv_timer s"
  by (simp add: mtlk_20_40_set_intolerance_at_first_scan_flag_def Let_def limit_inv_timer_def timer_set_def)

lemma limit_timer_db: "db_only s s' \<Longrightarrow> limit_inv_timer s \<Longrightarrow> limit_inv_timer s'"
  by (simp add: limit_inv_timer_def db_onlyD)

lemma limit_timer_move: "check_if_can_move_to_40_move_if_so env s = Inr s' \<Longrightarrow> limit_inv_timer s \<Longrightarrow> limit_inv_timer s'"
  by (erule move_cases) (simp_all add: limit_timer_db)

lemma limit_timer_remain: "check_if_can_remain_40_move_if_not env s = Inr s' \<Longrightarrow> limit_inv_timer s \<Longrightarrow> limit_inv_timer s'"
  by (erule remain_cases) (simp_all add: limit_timer_db limit_timer_db [OF find_pair_db])

lemma limit_timer_request [simp]: "limit_inv_timer (mtlk_sepm_process_exemption_request a s) = limit_inv_timer s"
  by (simp add: mtlk_sepm_process_exemption_request_def Let_def split: option.split)

lemma limit_timer_limits: "limit_inv_timer s \<Longrightarrow> limit_inv_timer (element_limits env src s)"
proof -
  assume "limit_inv_timer s"
  then have "limit_inv_timer ((mtlk_sepm_register_station_intolerance src s)\<lparr>general_detected := True, general_detection_ts := ce_now env\<rparr>)"
    by (simp add: mtlk_sepm_register_station_intolerance_def limit_inv_timer_def descriptor_upd_def split: option.split)
  then show ?thesis by (simp add: element_limits_def Let_def split: eCSM_STATES.split)
qed

lemma element_cases:
  assumes "mtlk_20_40_ap_process_coexistence_element env el src s = Inr s'"
  obtains (ignored) "s' = s \<or> s' = inc_cnt NOF_COEX_EL_RECEIVED s"
    | (handled) s2 where "s2 = element_limits env src (inc_cnt NOF_COEX_EL_RECEIVED s) \<or> element_permits env (inc_cnt NOF_COEX_EL_RECEIVED s) = Inr s2"
        "s' = mtlk_sepm_process_exemption_request src s2 \<or> s' = s2"
proof (cases "csm_state s = CSM_STATE_NOT_STARTED \<or> \<not> active env (inc_cnt NOF_COEX_EL_RECEIVED s)")
  case True
  with assms that(1) show ?thesis unfolding mtlk_20_40_ap_process_coexistence_element_def Let_def by (simp split: if_split_asm)
next
  case False
  with assms obtain s2 where
    "(if forty_mhz_intolerant_el el \<or> twenty_mhz_width_request el then Inr (element_limits env src (inc_cnt NOF_COEX_EL_RECEIVED s))
      else element_permits env (inc_cnt NOF_COEX_EL_RECEIVED s)) = Inr s2"
    "s' = (if scan_exemption_request el then mtlk_sepm_process_exemption_request src s2 else s2)"
    unfolding mtlk_20_40_ap_process_coexistence_element_def Let_def by (simp add: bind_result_Inr) metis
  with that(2) [of s2] show ?thesis by (simp split: if_split_asm)
qed

lemma limit_timer_element:
  assumes "mtlk_20_40_ap_process_coexistence_element env el src s = Inr s'" "limit_inv_timer s"
  shows "limit_inv_timer s'"
  using assms(1)
proof (cases rule: element_cases)
  case ignored
  with assms(2) show ?thesis using limit_timer_frame(1) by metis
next
  case (handled s2)
  have "limit_inv_timer s2" using handled(1)
  proof
    assume "element_permits env (inc_cnt NOF_COEX_EL_RECEIVED s) = Inr s2"
    then show ?thesis by (cases rule: permits_cases) (simp_all add: limit_timer_db [of "inc_cnt NOF_COEX_EL_RECEIVED s"] assms(2))
  qed (simp add: limit_timer_limits assms(2))
  then show ?thesis using handled(2) limit_timer_request by metis
qed

lemma obss_cases:
  assumes "mtlk_20_40_ap_process_obss_scan_results env chs s = Inr s'"
  obtains (ignored) "s' = s"
    | (handled) s1 where "db_only s s1"
       "s' = s1 \<or> \<not> limited_to_20 s \<and> s' = timer_set s1 \<or> \<not> limited_to_20 s \<and> check_if_can_move_to_40_move_if_so env s1 = Inr s'
        \<or> csm_state s = CSM_STATE_20_40 \<and> check_if_can_remain_40_move_if_not env s1 = Inr s'"
proof (cases "csm_state s = CSM_STATE_NOT_STARTED \<or> \<not> active env s")
  case True
  with assms that(1) show ?thesis by (simp add: mtlk_20_40_ap_process_obss_scan_results_def)
next
  case False
  with assms obtain cur s1 where u: "intolerant_db_update_from_frame env chs False s = Inr (cur, s1)"
    unfolding mtlk_20_40_ap_process_obss_scan_results_def by (cases "intolerant_db_update_from_frame env chs False s") auto
  have d: "db_only s s1" using db_update_frame [OF u] by (simp add: channels_only_def)
  show ?thesis
    by (rule that(2) [OF d], use assms False in \<open>cases "csm_state s"\<close>)
      (simp_all add: mtlk_20_40_ap_process_obss_scan_results_def u db_onlyD(1,4) [OF d] split: if_split_asm)
qed

lemma limit_timer_obss:
  assumes "mtlk_20_40_ap_process_obss_scan_results env chs s = Inr s'" "limit_inv_timer s"
  shows "limit_inv_timer s'"
  using assms(1)
proof (cases rule: obss_cases)
  case (handled s1)
  have 1: "limit_inv_timer s1" by (rule limit_timer_db [OF handled(1) assms(2)])
  have "limit_inv_timer (timer_set s1)" if "\<not> limited_to_20 s"
    using that db_onlyD(4) [OF handled(1)] by (simp add: limit_inv_timer_def timer_set_def)
  with handled(2) 1 limit_timer_move limit_timer_remain show ?thesis by metis
qed (simp add: assms(2))

lemma limit_timer_callback: "transition_delay_timeout_callback env s = Inr s' \<Longrightarrow> limit_inv_timer s'"
proof (erule timer_cases)
  fix p off s1
  assume "find_available_channel_pair env UMI_CHANNEL_SW_MODE_SCN (s\<lparr>transition_timer := None\<rparr>) = Inr (Some (p, off), s1)"
    "s' = switch_to_40 p off s1"
  then show "limit_inv_timer s'" using limit_timer_db [OF find_pair_db] by simp
qed (rule limit_timer_db, assumption, simp)

lemma limit_timer_stations:
  "limit_inv_timer (mtlk_20_40_register_station env a supports ex intol leg s) = limit_inv_timer s"
  "limit_inv_timer (mtlk_sepm_unregister_station env a s) = limit_inv_timer s"
proof -
  have "limit_inv_timer (mtlk_20_40_ap_notify_intolerant_or_legacy_station_connected env t) = limit_inv_timer t"
    "limit_inv_timer (mtlk_20_40_ap_notify_last_40_incapable_station_disconnected env t) = limit_inv_timer t" for t
    by (simp_all add: mtlk_20_40_ap_notify_intolerant_or_legacy_station_connected_def
        mtlk_20_40_ap_notify_last_40_incapable_station_disconnected_def)
  note n = this
  have "limit_inv_timer (mtlk_sepm_register_station env a supports ex intol leg s) = limit_inv_timer s" for supports ex
    by (simp add: mtlk_sepm_register_station_def Let_def n split: option.split)
  then show "limit_inv_timer (mtlk_20_40_register_station env a supports ex intol leg s) = limit_inv_timer s"
    by (simp add: mtlk_20_40_register_station_def Let_def)
  have "limit_inv_timer (sepm_resume_scanning env t) = limit_inv_timer t" for t
    by (simp add: sepm_resume_scanning_def split: option.split)
  then show "limit_inv_timer (mtlk_sepm_unregister_station env a s) = limit_inv_timer s"
    by (simp add: mtlk_sepm_unregister_station_def Let_def n split: option.split)
qed

lemma limit_timer_rest:
  assumes "limit_inv_timer s"
  shows "limit_inv_timer (mtlk_20_40_limit_to_20 env v s)" "limit_inv_timer (mtlk_20_40_stop s)"
    "limit_inv_timer (snd (mtlk_20_40_start node cntrs initial s))"
    "limit_inv_timer (if mode_cfg_enabled s then s\<lparr>coexistence_mode := en, intolerance_mode := intol\<rparr> else s)"
    "limit_inv_timer (s\<lparr>exemption_req := v\<rparr>)" "limit_inv_timer (snd (mtlk_20_40_set_transition_delay_factor n s))"
    "limit_inv_timer (snd (mtlk_20_40_set_scan_interval n s))" "limit_inv_timer (s\<lparr>coex_cache := c\<rparr>)"
  using assms by (simp_all add: limit_inv_timer_def mtlk_20_40_limit_to_20_def mtlk_20_40_stop_def mtlk_20_40_start_def Let_def coex_defs
      mtlk_20_40_set_transition_delay_factor_def mtlk_20_40_set_scan_interval_def)

lemma limit_timer_step:
  assumes "coex_step env op s = Inr s'" "limit_inv_timer s"
  shows "limit_inv_timer s'"
proof (cases op)
  case (Element el src)
  show ?thesis by (rule limit_timer_element [OF assms(1) [unfolded Element coex_step.simps] assms(2)])
next
  case (Obss_results chs)
  show ?thesis by (rule limit_timer_obss [OF assms(1) [unfolded Obss_results coex_step.simps] assms(2)])
next
  case (Non_ht_beacon_on ch)
  from non_ht_cases [OF assms(1) [unfolded Non_ht_beacon_on coex_step.simps]] show ?thesis
    using assms(2) limit_timer_move limit_timer_remain limit_timer_frame(6) by metis
next
  case Timer_fires
  with assms(1) have "s' = s \<or> transition_delay_timeout_callback env s = Inr s'" by (simp split: if_split_asm)
  then show ?thesis using limit_timer_callback assms(2) by metis
next
  case (Query_permitted p off)
  show ?thesis by (rule limit_timer_db [OF query_db [OF assms(1) [unfolded Query_permitted coex_step.simps]] assms(2)])
next
  case (Start node cntrs initial)
  with assms have "s' = snd (mtlk_20_40_start node cntrs initial s)" by simp
  then show ?thesis using limit_timer_rest(3) [OF assms(2)] by simp
qed (use assms in \<open>simp_all add: eq_commute [of _ s'] limit_timer_stations limit_timer_rest del: if_split\<close>)

lemma limit_timer_reach: "coex_reach s \<Longrightarrow> limit_inv_timer s"
proof (induction rule: coex_reach.induct)
  case (Init now n cache)
  then show ?case by (simp add: limit_inv_timer_def mtlk_20_40_init_def)
next
  case (Step s op env s')
  then show ?case using limit_timer_step by metis
qed

lemma limited_state:
  assumes "limited_to_20 s" "csm_state s = CSM_STATE_20"
  shows "mtlk_20_40_ap_process_coexistence_element env el src s = Inr s' \<Longrightarrow> csm_state s' = CSM_STATE_20"
    "mtlk_20_40_ap_process_obss_scan_results env chs s = Inr s' \<Longrightarrow> csm_state s' = CSM_STATE_20"
proof -
  have limits: "csm_state (element_limits env src (inc_cnt NOF_COEX_EL_RECEIVED s)) = CSM_STATE_20"
  proof -
    have "csm_state (mtlk_sepm_register_station_intolerance src t) = csm_state t" for t
      by (simp add: mtlk_sepm_register_station_intolerance_def split: option.split)
    with assms(2) show ?thesis by (simp add: element_limits_def Let_def)
  qed
  have permits: "element_permits env (inc_cnt NOF_COEX_EL_RECEIVED s) = Inr s2 \<Longrightarrow> csm_state s2 = CSM_STATE_20" for s2
    using assms by (simp add: element_permits_def inc_cnt_def eq_commute [of _ s2])
  have request: "csm_state (mtlk_sepm_process_exemption_request src t) = csm_state t" for t
    by (simp add: mtlk_sepm_process_exemption_request_def Let_def split: option.split)
  show "csm_state s' = CSM_STATE_20" if "mtlk_20_40_ap_process_coexistence_element env el src s = Inr s'"
    using that
  proof (cases rule: element_cases)
    case ignored
    with assms(2) show ?thesis using basic_fields(3) by metis
  next
    case (handled s2)
    then show ?thesis using limits permits request by metis
  qed
  show "csm_state s' = CSM_STATE_20" if "mtlk_20_40_ap_process_obss_scan_results env chs s = Inr s'"
    using that
  proof (cases rule: obss_cases)
    case (handled s1)
    with assms db_onlyD(1) [OF handled(1)] show ?thesis by simp
  qed (simp add: assms(2))
qed

lemma first_scan_state [simp]: "csm_state (mtlk_20_40_set_intolerance_at_first_scan_flag env v s) = csm_state s"
  by (simp add: mtlk_20_40_set_intolerance_at_first_scan_flag_def Let_def timer_set_def)

lemma stations_state:
  assumes "csm_state s = CSM_STATE_20"
  shows "csm_state (mtlk_20_40_register_station env a supports ex intol leg s) = CSM_STATE_20"
    "csm_state (mtlk_sepm_unregister_station env a s) = CSM_STATE_20"
proof -
  have "csm_state (mtlk_sepm_register_station env a supports ex intol leg s) = CSM_STATE_20" for supports ex
    using assms by (simp add: mtlk_sepm_register_station_def Let_def mtlk_20_40_ap_notify_intolerant_or_legacy_station_connected_def split: option.split)
  then show "csm_state (mtlk_20_40_register_station env a supports ex intol leg s) = CSM_STATE_20"
    by (simp add: mtlk_20_40_register_station_def Let_def)
  have "csm_state (sepm_resume_scanning env t) = csm_state t"
    "csm_state (mtlk_20_40_ap_notify_last_40_incapable_station_disconnected env t) = csm_state t" for t
    by (simp_all add: sepm_resume_scanning_def mtlk_20_40_ap_notify_last_40_incapable_station_disconnected_def split: option.split)
  with assms show "csm_state (mtlk_sepm_unregister_station env a s) = CSM_STATE_20"
    by (simp add: mtlk_sepm_unregister_station_def Let_def split: option.split)
qed

lemma limited_rest_state:
  assumes "csm_state s = CSM_STATE_20"
  shows "csm_state (mtlk_20_40_limit_to_20 env v s) = CSM_STATE_20" "csm_state (mtlk_20_40_stop s) \<noteq> CSM_STATE_20_40"
    "csm_state (snd (mtlk_20_40_start node cntrs initial s)) = CSM_STATE_20_40 \<Longrightarrow> initial = CSM_STATE_20_40"
    "csm_state (if mode_cfg_enabled s then s\<lparr>coexistence_mode := en, intolerance_mode := intol\<rparr> else s) = CSM_STATE_20"
    "csm_state (snd (mtlk_20_40_set_transition_delay_factor n s)) = CSM_STATE_20"
    "csm_state (snd (mtlk_20_40_set_scan_interval n s)) = CSM_STATE_20"
  using assms by (simp_all add: mtlk_20_40_limit_to_20_def mtlk_20_40_stop_def mtlk_20_40_start_def Let_def coex_defs
      mtlk_20_40_set_transition_delay_factor_def mtlk_20_40_set_scan_interval_def split: if_split_asm)

text \<open>
  C20: A network that the user has limited to 20 MHz keeps to it through every call, the transition timer included, with one
  exception besides a new start in the 40 MHz state: the beacon of a network without HT on another channel. The witness is
  a reachable limited network that such a beacon moves to 40 MHz.
\<close>
theorem coex_limit_broken_only_by_beacon:
  assumes "coex_reach s" "limited_to_20 s" "csm_state s = CSM_STATE_20" "coex_step env op s = Inr s'" "csm_state s' = CSM_STATE_20_40"
  shows "(\<exists>ch. op = Non_ht_beacon_on ch \<and> ch \<noteq> ce_channel_cur env) \<or> (\<exists>node cntrs. op = Start node cntrs CSM_STATE_20_40)"
proof (cases op)
  case (Non_ht_beacon_on ch)
  have "ch \<noteq> ce_channel_cur env"
  proof
    assume "ch = ce_channel_cur env"
    with assms(2-4) Non_ht_beacon_on have "s' = s"
      by (simp add: mtlk_20_40_ap_notify_non_ht_beacon_received_def timer_set_unless_limited_def split: if_split_asm)
    with assms(3,5) show False by simp
  qed
  with Non_ht_beacon_on show ?thesis by simp
next
  case Timer_fires
  have "transition_timer s = None" using limit_timer_reach [OF assms(1)] assms(2) by (simp add: limit_inv_timer_def)
  with assms(3-) Timer_fires show ?thesis by simp
next
  case (Query_permitted p off)
  have "csm_state s' = csm_state s" by (rule db_onlyD(1) [OF query_db [OF assms(4) [unfolded Query_permitted coex_step.simps]]])
  with assms(3,5) show ?thesis by simp
next
  case (Element el src)
  have "csm_state s' = CSM_STATE_20" by (rule limited_state(1) [OF assms(2,3) assms(4) [unfolded Element coex_step.simps]])
  with assms(5) show ?thesis by simp
next
  case (Obss_results chs)
  have "csm_state s' = CSM_STATE_20" by (rule limited_state(2) [OF assms(2,3) assms(4) [unfolded Obss_results coex_step.simps]])
  with assms(5) show ?thesis by simp
next
  case (Start node cntrs initial)
  with assms(4) have "s' = snd (mtlk_20_40_start node cntrs initial s)" by simp
  then show ?thesis using limited_rest_state(3) [OF assms(3)] assms(5) Start by simp
qed (use assms(3-) stations_state [OF assms(3)] limited_rest_state [OF assms(3)] in \<open>simp_all add: eq_commute [of _ s'] del: if_split\<close>)

theorem coex_limit_broken_only_by_beacon_witness:
  "\<exists>s s'. coex_reach s \<and> limited_to_20 s \<and> csm_state s = CSM_STATE_20 \<and> coex_step ex_env (Non_ht_beacon_on 6) s = Inr s'
    \<and> csm_state s' = CSM_STATE_20_40 \<and> ce_channel_cur ex_env \<noteq> 6"
proof -
  let ?s = "mtlk_20_40_limit_to_20 ex_env True (ex_started CSM_STATE_20)"
  have r: "coex_reach ?s"
    by (rule coex_reach.Step [where env = ex_env and op = "Limit_to_20 True", OF ex_reach(1) _ ex_band]) simp_all
  have l: "limited_to_20 ?s" "csm_state ?s = CSM_STATE_20" by (simp_all add: mtlk_20_40_limit_to_20_def coex_exec)
  have "\<exists>s'. coex_step ex_env (Non_ht_beacon_on 6) ?s = Inr s' \<and> csm_state s' = CSM_STATE_20_40"
    by (simp add: mtlk_20_40_limit_to_20_def coex_exec)
  then obtain s' where s': "coex_step ex_env (Non_ht_beacon_on 6) ?s = Inr s'" "csm_state s' = CSM_STATE_20_40" by metis
  have "ce_channel_cur ex_env \<noteq> 6" using coex_limit_broken_only_by_beacon [OF r l s'] by simp
  with r l s' show ?thesis by metis
qed

section \<open>Scan exemptions\<close>

lemma resume_does_nothing: "sepm_resume_scanning env s = s"
proof (cases "count_non_exempted_stations None s = 0")
  case True
  then have "\<forall>d \<in> set (descriptors s). \<not> (slot_used d \<and> supports_coexistence d \<and> \<not> exempt d)"
    by (simp add: count_non_exempted_stations_def filter_empty_conv)
  then have "first_non_exempted_station_slot s = None"
    unfolding first_non_exempted_station_slot_def find_None_iff using nth_mem [of _ "descriptors s"] by simp
  then show ?thesis by (simp add: sepm_resume_scanning_def)
qed (simp add: sepm_resume_scanning_def)

text \<open>
  C23: When the last station that still scans leaves, another one's exemption is meant to be withdrawn. It never is: whatever
  station leaves, no coexistence frame is sent and every other station's record stays as it was, because the search for a
  station looks for one that is not exempt and runs only when there is none.
\<close>
theorem coex_exemptions_never_withdrawn:
  assumes "slot_by_addr a s = Some i" "j \<noteq> i"
  shows "coex_log (mtlk_sepm_unregister_station env a s) = coex_log s
    \<and> descriptors (mtlk_sepm_unregister_station env a s) ! j = descriptors s ! j"
proof -
  have n: "coex_log (mtlk_20_40_ap_notify_last_40_incapable_station_disconnected env t) = coex_log t"
    "descriptors (mtlk_20_40_ap_notify_last_40_incapable_station_disconnected env t) = descriptors t" for t
    by (simp_all add: mtlk_20_40_ap_notify_last_40_incapable_station_disconnected_def coex_defs)
  show ?thesis
    using assms by (simp add: mtlk_sepm_unregister_station_def Let_def resume_does_nothing)
      (simp add: descriptor_upd_def n)
qed

theorem coex_exemptions_never_withdrawn_witness:
  "\<exists>s. count_non_exempted_stations None s = 1 \<and> count_non_exempted_stations None (mtlk_sepm_unregister_station ex_env [1, 2, 3, 4, 5, 6] s) = 0
    \<and> exempt (descriptors (mtlk_sepm_unregister_station ex_env [1, 2, 3, 4, 5, 6] s) ! 1)"
proof -
  let ?s = "mtlk_20_40_register_station ex_env [2, 2, 2, 2, 2, 2] True True False False ex_served"
  have r: "slot_by_addr [1, 2, 3, 4, 5, 6] ?s = Some 0" "exempt (descriptors ?s ! 1)" "count_non_exempted_stations None ?s = 1"
    "count_non_exempted_stations None (mtlk_sepm_unregister_station ex_env [1, 2, 3, 4, 5, 6] ?s) = 0"
    by code_simp+
  then show ?thesis using coex_exemptions_never_withdrawn [OF r(1), of 1 ex_env] by (intro exI [of _ ?s]) simp
qed

end
