(* ===== verification/Frame_Coex.thy ===== *)
theory Frame_Coex
  imports Coex_Bounds
begin

text \<open>
  Management frames with the real coexistence machine. The machine enumerates the scan cache while it decides about 40 MHz
  (\<^verbatim>\<open>_mtlk_core_enumerate_external_intolerance_info_callback\<close>), and the enumeration purges the networks that are past their time; the frames that
  make it decide are the ones that fill the cache. The calls of \<^verbatim>\<open>frame.c\<close> to the machine are put in the place of the argument of
  \<open>mtlk_process_man_frame\<close>, and what a beacon does to the shared cache is stated for the two together.
\<close>

section \<open>The calls of a frame\<close>


section \<open>What the machine does to the cache\<close>

text \<open>Networks leave the cache only when they are past their time, for one of the expiration times in force; the others stay as they are.\<close>
definition purged :: "nat set \<Rightarrow> nat \<Rightarrow> scan_cache \<Rightarrow> scan_cache \<Rightarrow> bool" where
  "purged X t c c' \<longleftrightarrow> cache_ok c' \<and> cache_expire c' = cache_expire c \<and> set (bss_list c') \<subseteq> set (bss_list c)
     \<and> (\<forall>e \<in> set (bss_list c) - set (bss_list c'). \<exists>x \<in> X. cache_expired x t e)"

lemma purged_refl: "cache_ok c \<Longrightarrow> purged X t c c"
  by (simp add: purged_def)





definition walks :: "coex_env \<Rightarrow> coex_sm \<Rightarrow> coex_sm \<Rightarrow> bool" where
  "walks env s s' \<longleftrightarrow> length (channels_list s') = length (channels_list s)
     \<and> mtlk_20_40_calc_transition_timer s' = mtlk_20_40_calc_transition_timer s
     \<and> (cache_ok (coex_cache s) \<longrightarrow>
          purged {cache_expire (coex_cache s), mtlk_20_40_calc_transition_timer s} (ce_to_ms env (ce_now env)) (coex_cache s) (coex_cache s'))"

lemma walks_same:
  assumes "length (channels_list s') = length (channels_list s)" "coex_cache s' = coex_cache s" "delay_factor s' = delay_factor s"
    "obss_scan_interval s' = obss_scan_interval s"
  shows "walks env s s'"
  using assms by (simp add: walks_def purged_refl mtlk_20_40_calc_transition_timer_def)

lemma walks_refl [simp]: "walks env s s"
  by (rule walks_same) simp_all

























section \<open>A beacon\<close>















end
