(* ===== verification/Mcast.thy ===== *)
theory Mcast
  imports Sq Frame_Ie
begin

text \<open>
  Reliable multicast of an access point (\<^verbatim>\<open>linux/mcast.c\<close>): the tables of the groups that stations have joined, the parsing
  of the IGMP and MLD messages that change them, the transmission of a multicast packet as one clone per member through the
  send queue, the removal of a station, and the hardware address that a receiving station restores. The functions for IPv4
  and IPv6 have the same text; here they are instances of one function over the hash and the test for local groups.
\<close>

unbundle bit_operations_syntax

section \<open>Groups\<close>

definition MCAST_HASH_SIZE :: nat where "MCAST_HASH_SIZE = 64"

text \<open>A group with the stations that follow it, the one that joined last in front; a station is its address in memory.\<close>
record 'a mcast_gr =
  gr_addr :: 'a
  gr_mcsta :: "nat list"

type_synonym 'a mcast_table = "nat \<Rightarrow> 'a mcast_gr list"
type_synonym in_addr = "32 word"
type_synonym in6_addr = "32 word \<times> 32 word \<times> 32 word \<times> 32 word"

definition find_gr :: "('a \<Rightarrow> nat) \<Rightarrow> 'a mcast_table \<Rightarrow> 'a \<Rightarrow> 'a mcast_gr option" where
  "find_gr h t a = find (\<lambda>g. gr_addr g = a) (t (h a))"

text \<open>A write to the list of members of the group that \<^const>\<open>find_gr\<close> gives, and the removal of that group from its chain.\<close>
fun set_mcsta :: "'a \<Rightarrow> nat list \<Rightarrow> 'a mcast_gr list \<Rightarrow> 'a mcast_gr list" where
  "set_mcsta a m [] = []"
| "set_mcsta a m (g # gs) = (if gr_addr g = a then g\<lparr>gr_mcsta := m\<rparr> # gs else g # set_mcsta a m gs)"

fun unlink_gr :: "'a \<Rightarrow> 'a mcast_gr list \<Rightarrow> 'a mcast_gr list" where
  "unlink_gr a [] = []"
| "unlink_gr a (g # gs) = (if gr_addr g = a then gs else g # unlink_gr a gs)"

definition del_gr :: "('a \<Rightarrow> nat) \<Rightarrow> 'a \<Rightarrow> 'a mcast_table \<Rightarrow> 'a mcast_table" where
  "del_gr h a t = t(h a := unlink_gr a (t (h a)))"

text \<open>The pair says whether a group and whether a member could be allocated.\<close>
definition add_sta :: "('a \<Rightarrow> nat) \<Rightarrow> ('a \<Rightarrow> bool) \<Rightarrow> bool \<times> bool \<Rightarrow> nat option \<Rightarrow> 'a \<Rightarrow> 'a mcast_table \<Rightarrow> 'a mcast_table" where
  "add_sta h local alloc sta a t =
    (case sta of
       None \<Rightarrow> t
     | Some s \<Rightarrow>
         if local a then t
         else (case (case find_gr h t a of
                       Some g \<Rightarrow> Some (g, t)
                     | None \<Rightarrow> if fst alloc then Some (\<lparr>gr_addr = a, gr_mcsta = []\<rparr>, t(h a := \<lparr>gr_addr = a, gr_mcsta = []\<rparr> # t (h a)))
                              else None) of
             None \<Rightarrow> t
           | Some (g, t1) \<Rightarrow>
               if s \<in> set (gr_mcsta g) \<or> \<not> snd alloc then t1
               else t1(h a := set_mcsta a (s # gr_mcsta g) (t1 (h a)))))"

definition del_sta :: "('a \<Rightarrow> nat) \<Rightarrow> nat option \<Rightarrow> 'a \<Rightarrow> 'a mcast_table \<Rightarrow> 'a mcast_table" where
  "del_sta h sta a t =
    (case find_gr h t a of
       None \<Rightarrow> t
     | Some g \<Rightarrow> (case sta of
         None \<Rightarrow> t
       | Some s \<Rightarrow>
           if s \<notin> set (gr_mcsta g) then t
           else (let m = remove1 s (gr_mcsta g) in
                 if m = [] then del_gr h a t else t(h a := set_mcsta a m (t (h a))))))"

text \<open>One chain of \<^verbatim>\<open>mtlk_mc_drop_sta\<close>: in each group the first station with the address leaves, and an empty group with it.\<close>
fun drop_chain :: "(nat \<Rightarrow> mac_addr) \<Rightarrow> mac_addr \<Rightarrow> 'a mcast_gr list \<Rightarrow> 'a mcast_gr list" where
  "drop_chain addr_of mac [] = []"
| "drop_chain addr_of mac (g # gs) =
    (case find (\<lambda>s. addr_of s = mac) (gr_mcsta g) of
       None \<Rightarrow> g # drop_chain addr_of mac gs
     | Some s \<Rightarrow>
         (let m = remove1 s (gr_mcsta g) in
          if m = [] then drop_chain addr_of mac gs else g\<lparr>gr_mcsta := m\<rparr> # drop_chain addr_of mac gs))"

definition drop_table :: "(nat \<Rightarrow> mac_addr) \<Rightarrow> mac_addr \<Rightarrow> 'a mcast_table \<Rightarrow> 'a mcast_table" where
  "drop_table addr_of mac t = (\<lambda>i. if i < MCAST_HASH_SIZE then drop_chain addr_of mac (t i) else t i)"

definition ip4_hash :: "in_addr \<Rightarrow> nat" where
  "ip4_hash a = unat (a AND 63)"

definition ip4_local :: "in_addr \<Rightarrow> bool" where
  "ip4_local a \<longleftrightarrow> a AND 0xFFFFFF00 = 0xE0000000"

fun ip6_hash :: "in6_addr \<Rightarrow> nat" where
  "ip6_hash (a, b, c, d) = unat (d AND 63)"

fun ip6_local :: "in6_addr \<Rightarrow> bool" where
  "ip6_local (a, b, c, d) \<longleftrightarrow> a AND 0xFF0F0000 = 0xFF020000"

definition find_ip4_gr :: "in_addr mcast_table \<Rightarrow> in_addr \<Rightarrow> in_addr mcast_gr option" where "find_ip4_gr = find_gr ip4_hash"
definition add_ip4_sta :: "bool \<times> bool \<Rightarrow> nat option \<Rightarrow> in_addr \<Rightarrow> in_addr mcast_table \<Rightarrow> in_addr mcast_table" where
  "add_ip4_sta = add_sta ip4_hash ip4_local"
definition del_ip4_sta :: "nat option \<Rightarrow> in_addr \<Rightarrow> in_addr mcast_table \<Rightarrow> in_addr mcast_table" where "del_ip4_sta = del_sta ip4_hash"

definition find_ip6_gr :: "in6_addr mcast_table \<Rightarrow> in6_addr \<Rightarrow> in6_addr mcast_gr option" where "find_ip6_gr = find_gr ip6_hash"
definition add_ip6_sta :: "bool \<times> bool \<Rightarrow> nat option \<Rightarrow> in6_addr \<Rightarrow> in6_addr mcast_table \<Rightarrow> in6_addr mcast_table" where
  "add_ip6_sta = add_sta ip6_hash ip6_local"
definition del_ip6_sta :: "nat option \<Rightarrow> in6_addr \<Rightarrow> in6_addr mcast_table \<Rightarrow> in6_addr mcast_table" where "del_ip6_sta = del_sta ip6_hash"

record mcast_ctx =
  mcast_ip4_hash :: "in_addr mcast_table"
  mcast_ip6_hash :: "in6_addr mcast_table"

definition mtlk_mc_init :: mcast_ctx where
  "mtlk_mc_init = \<lparr>mcast_ip4_hash = (\<lambda>_. []), mcast_ip6_hash = (\<lambda>_. [])\<rparr>"

definition mtlk_mc_drop_sta :: "bool \<Rightarrow> (nat \<Rightarrow> mac_addr) \<Rightarrow> mac_addr \<Rightarrow> mcast_ctx \<Rightarrow> mcast_ctx" where
  "mtlk_mc_drop_sta ap addr_of mac c =
    (if \<not> ap then c
     else \<lparr>mcast_ip4_hash = drop_table addr_of mac (mcast_ip4_hash c), mcast_ip6_hash = drop_table addr_of mac (mcast_ip6_hash c)\<rparr>)"

text \<open>The rows of the table shown to the user; \<open>push k\<close> says whether the clipboard takes the k-th row, and a failure purges it.\<close>
datatype mc_row = MTLK_MC_IPV4_ADDR in_addr | MTLK_MC_IPV6_ADDR in6_addr | MTLK_MC_MAC_ADDR mac_addr

definition dump_table :: "('a \<Rightarrow> mc_row) \<Rightarrow> (nat \<Rightarrow> mac_addr) \<Rightarrow> 'a mcast_table \<Rightarrow> mc_row list" where
  "dump_table row addr_of t =
    concat (map (\<lambda>i. concat (map (\<lambda>g. row (gr_addr g) # map (\<lambda>s. MTLK_MC_MAC_ADDR (addr_of s)) (gr_mcsta g)) (t i))) [0..<MCAST_HASH_SIZE])"

definition mtlk_mc_dump_groups :: "(nat \<Rightarrow> mtlk_error) \<Rightarrow> (nat \<Rightarrow> mac_addr) \<Rightarrow> mcast_ctx \<Rightarrow> mtlk_error \<times> mc_row list" where
  "mtlk_mc_dump_groups push addr_of c =
    (let rows = dump_table MTLK_MC_IPV4_ADDR addr_of (mcast_ip4_hash c) @ dump_table MTLK_MC_IPV6_ADDR addr_of (mcast_ip6_hash c) in
     case find (\<lambda>k. push k \<noteq> MTLK_ERR_OK) [0..<length rows] of None \<Rightarrow> (MTLK_ERR_OK, rows) | Some k \<Rightarrow> (push k, []))"

section \<open>Messages of stations\<close>

definition ETH_P_IP :: nat where "ETH_P_IP = 0x0800"
definition ETH_P_IPV6 :: nat where "ETH_P_IPV6 = 0x86DD"

definition rd_be :: "nat \<Rightarrow> byte list \<Rightarrow> nat \<Rightarrow> c_fault + nat" where
  "rd_be n fr i = map_sum id be_val (slice fr i n)"

definition rd_in :: "byte list \<Rightarrow> nat \<Rightarrow> c_fault + in_addr" where
  "rd_in fr i = map_sum id of_nat (rd_be 4 fr i)"

definition rd_in6 :: "byte list \<Rightarrow> nat \<Rightarrow> c_fault + in6_addr" where
  "rd_in6 fr i =
    bind_result (rd_in fr i) (\<lambda>a. bind_result (rd_in fr (i + 4)) (\<lambda>b. bind_result (rd_in fr (i + 8)) (\<lambda>c.
      map_sum id (\<lambda>d. (a, b, c, d)) (rd_in fr (i + 12)))))"

text \<open>
  What a record of a report does: a station that includes no sources leaves, a station that excludes sources joins. The types
  have the same numbers in the two protocols.
\<close>
definition record_effect :: "('a \<Rightarrow> nat) \<Rightarrow> ('a \<Rightarrow> bool) \<Rightarrow> bool \<times> bool \<Rightarrow> nat option \<Rightarrow> nat \<Rightarrow> nat \<Rightarrow> 'a \<Rightarrow> 'a mcast_table \<Rightarrow> 'a mcast_table" where
  "record_effect h local alloc sta ty src_num a t =
    (if ty = 1 \<or> ty = 3 then (if src_num = 0 then del_sta h sta a t else t)
     else if ty = 2 \<or> ty = 4 then add_sta h local alloc sta a t
     else t)"

text \<open>
  The loop over the records of a report: \<open>sz\<close> is the size of an address, \<open>get\<close> reads one, \<open>n\<close> is the number of records left,
  and \<open>al\<close> gives the outcome of the allocations for each of them.
\<close>
primrec report_records ::
  "('a \<Rightarrow> nat) \<Rightarrow> ('a \<Rightarrow> bool) \<Rightarrow> nat \<Rightarrow> (byte list \<Rightarrow> nat \<Rightarrow> c_fault + 'a) \<Rightarrow> (nat \<Rightarrow> bool \<times> bool) \<Rightarrow> nat option \<Rightarrow> byte list
    \<Rightarrow> nat \<Rightarrow> nat \<Rightarrow> 'a mcast_table \<Rightarrow> c_fault + 'a mcast_table" where
  "report_records h local sz get al sta fr 0 p t = Inr t"
| "report_records h local sz get al sta fr (Suc n) p t =
    bind_result (rd_be 2 fr (p + 2)) (\<lambda>src_num. bind_result (get fr (p + 4)) (\<lambda>a. bind_result (rd fr p) (\<lambda>ty.
      bind_result (rd fr (p + 1)) (\<lambda>aux.
        report_records h local sz get al sta fr n (p + 4 + sz + sz * src_num + 4 * unat aux)
          (record_effect h local (al n) sta (unat ty) src_num a t)))))"

definition parse_igmp :: "(nat \<Rightarrow> bool \<times> bool) \<Rightarrow> nat option \<Rightarrow> byte list \<Rightarrow> nat \<Rightarrow> in_addr mcast_table \<Rightarrow> c_fault + in_addr mcast_table" where
  "parse_igmp al sta fr p t =
    bind_result (rd_in fr (p + 4)) (\<lambda>grp. bind_result (rd fr p) (\<lambda>ty.
      if ty = 0x12 \<or> ty = 0x16 then Inr (add_ip4_sta (al 0) sta grp t)
      else if ty = 0x17 then Inr (del_ip4_sta sta grp t)
      else if ty = 0x22 then
        bind_result (rd_be 2 fr (p + 6)) (\<lambda>n. report_records ip4_hash ip4_local 4 rd_in al sta fr n (p + 8) t)
      else Inr t))"

definition parse_icmp6 :: "(nat \<Rightarrow> bool \<times> bool) \<Rightarrow> nat option \<Rightarrow> byte list \<Rightarrow> nat \<Rightarrow> in6_addr mcast_table \<Rightarrow> c_fault + in6_addr mcast_table" where
  "parse_icmp6 al sta fr p t =
    bind_result (rd_in6 fr (p + 8)) (\<lambda>grp. bind_result (rd fr p) (\<lambda>ty.
      if ty = 131 then Inr (add_ip6_sta (al 0) sta grp t)
      else if ty = 132 then Inr (del_ip6_sta sta grp t)
      else if ty = 143 then
        bind_result (rd_be 2 fr (p + 6)) (\<lambda>n. report_records ip6_hash ip6_local 16 rd_in6 al sta fr n (p + 8) t)
      else Inr t))"

text \<open>The packet after its conversion to Ethernet; its headers are followed without looking at its length.\<close>
definition mtlk_mc_parse :: "(nat \<Rightarrow> bool \<times> bool) \<Rightarrow> bool \<Rightarrow> nat option \<Rightarrow> byte list \<Rightarrow> mcast_ctx \<Rightarrow> c_fault + int \<times> mcast_ctx" where
  "mtlk_mc_parse al ap sta fr c =
    (if sta = None \<or> \<not> ap then Inr (-1, c)
     else bind_result (rd_be 2 fr 12) (\<lambda>proto.
       if proto = ETH_P_IP then
         bind_result (rd fr 14) (\<lambda>vihl. bind_result (rd fr 23) (\<lambda>protocol.
           if protocol = 2
           then map_sum id (\<lambda>t. (0, c\<lparr>mcast_ip4_hash := t\<rparr>)) (parse_igmp al sta fr (14 + unat (vihl AND 15) * 4) (mcast_ip4_hash c))
           else Inr (-1, c)))
       else if proto = ETH_P_IPV6 then
         bind_result (rd fr 55) (\<lambda>hdrlen. bind_result (rd fr 20) (\<lambda>nexthdr.
           if nexthdr \<noteq> 0 then Inr (-1, c)
           else bind_result (rd_be 2 fr 56) (\<lambda>option. if option \<noteq> 0x0502 then Inr (-1, c)
           else bind_result (rd_be 2 fr 58) (\<lambda>alert. if alert \<noteq> 0 then Inr (-1, c)
           else bind_result (rd fr 54) (\<lambda>hopnext. if hopnext \<noteq> 58 then Inr (-1, c)
           else map_sum id (\<lambda>t. (0, c\<lparr>mcast_ip6_hash := t\<rparr>)) (parse_icmp6 al sta fr (54 + 8 * (unat hdrlen + 1)) (mcast_ip6_hash c)))))))
       else Inr (-1, c)))"

section \<open>Transmission\<close>

definition MTLK_NBUFF_BROADCAST :: "16 word" where "MTLK_NBUFF_BROADCAST = 0x0008"

datatype mc_counter =
    TX_PACKETS_DISCARDED_DRV_UNKNOWN_DESTINATION_DIRECTED | TX_PACKETS_DISCARDED_DRV_UNKNOWN_DESTINATION_MCAST
  | TX_PACKETS_DISCARDED_DRV_NO_RESOURCES | TX_PACKETS_DISCARDED_SQ_OVERFLOW

text \<open>Effects outside the queue: counters, the station's transmit update, the notice to the channel selection, a buffer freed.\<close>
datatype mc_event =
    Counter mc_counter | Update_tx nat | Msdu_enqueued nat nat nat | Rmcast_dropped | Xmit_err nat | Sta_overflow nat
  | Schedule_flush | Nbuf_freed nat

record mc_env =
  me_ap :: bool
  me_reliable :: bool
  me_src :: "nat option"
  me_extra_ok :: bool
  me_extra :: nat
  me_clone_ok :: "nat \<Rightarrow> bool"
  me_clone :: "nat \<Rightarrow> nat"

datatype mc_route = As_generic | Unknown_group | To_group "nat list"

text \<open>The members of the packet's group.\<close>
definition mc_route_of :: "mcast_ctx \<Rightarrow> byte list \<Rightarrow> c_fault + mc_route" where
  "mc_route_of c fr =
    bind_result (rd_be 2 fr 12) (\<lambda>proto.
      if proto = ETH_P_IP then
        bind_result (rd_in fr 30) (\<lambda>a. Inr
          (if ip4_local a then As_generic
           else case find_ip4_gr (mcast_ip4_hash c) a of None \<Rightarrow> Unknown_group | Some g \<Rightarrow> To_group (gr_mcsta g)))
      else if proto = ETH_P_IPV6 then
        bind_result (rd_in6 fr 38) (\<lambda>a. Inr
          (if ip6_local a then As_generic
           else case find_ip6_gr (mcast_ip6_hash c) a of None \<Rightarrow> Unknown_group | Some g \<Rightarrow> To_group (gr_mcsta g)))
      else Inr As_generic)"

definition msdu_event :: "mc_env \<Rightarrow> nat \<Rightarrow> sq \<Rightarrow> mc_event list" where
  "msdu_event env ac s = (if me_ap env then [Msdu_enqueued ac (q_size s ac mod 2 ^ 16) (global_queue_limit (sq_lim s) ac mod 2 ^ 16)] else [])"

text \<open>One clone for each member but the source; \<open>n\<close> numbers the members.\<close>
fun clone_to :: "mc_env \<Rightarrow> nat \<Rightarrow> sq_pkt \<Rightarrow> nat \<Rightarrow> nat list \<Rightarrow> sq \<Rightarrow> sq \<times> mc_event list" where
  "clone_to env ac k n [] s = (s, [])"
| "clone_to env ac k n (m # ms) s =
    (if me_src env = Some m then clone_to env ac k (Suc n) ms s
     else let (res, s1) = mtlk_sq_enqueue_clone (me_clone_ok env n) (me_clone env n) k m s;
              (s2, es) = clone_to env ac k (Suc n) ms s1
       in (s2, Update_tx m # (if res \<noteq> MTLK_ERR_OK then [Rmcast_dropped, Xmit_err (pk_id k)] else msdu_event env ac s1) @ es))"

definition transmit_generic :: "mc_env \<Rightarrow> nat \<Rightarrow> sq_pkt \<Rightarrow> sq \<Rightarrow> mtlk_error \<times> sq \<times> mc_event list" where
  "transmit_generic env ac k s =
    (let (res, s1) = mtlk_sq_enqueue ac False k s in
     (res, s1,
      if res = MTLK_ERR_OK then msdu_event env ac s1 @ [Schedule_flush]
      else [Xmit_err (pk_id k), case pk_dst k of Some d \<Rightarrow> Sta_overflow d | None \<Rightarrow> Counter TX_PACKETS_DISCARDED_SQ_OVERFLOW,
            Nbuf_freed (pk_id k)]))"

definition transmit_reliable :: "mc_env \<Rightarrow> nat \<Rightarrow> sq_pkt \<Rightarrow> nat list \<Rightarrow> sq \<Rightarrow> mtlk_error \<times> sq \<times> mc_event list" where
  "transmit_reliable env ac k ms s =
    (let (res, k1, s1) = mtlk_sq_enqueue_clone_begin (me_extra_ok env) (me_extra env) ac False
           (k\<lparr>pk_flags := pk_flags k OR MTLK_NBUFF_RMCAST\<rparr>) s in
     if res \<noteq> MTLK_ERR_OK then (MTLK_ERR_OK, s1, [Counter TX_PACKETS_DISCARDED_DRV_NO_RESOURCES, Nbuf_freed (pk_id k)])
     else let (s2, es) = clone_to env ac k1 0 ms s1 in
       (MTLK_ERR_OK, mtlk_sq_enqueue_clone_end k1 s2, es @ [Schedule_flush, Nbuf_freed (pk_id k)]))"

definition mtlk_mc_transmit :: "mc_env \<Rightarrow> nat \<Rightarrow> sq_pkt \<Rightarrow> byte list \<Rightarrow> mcast_ctx \<Rightarrow> sq \<Rightarrow> c_fault + mtlk_error \<times> sq \<times> mc_event list" where
  "mtlk_mc_transmit env ac k fr c s =
    (if pk_flags k AND MTLK_NBUFF_UNICAST \<noteq> 0 then
       (case pk_dst k of
          Some d \<Rightarrow> Inr (map_prod id (map_prod id (Cons (Update_tx d))) (transmit_generic env ac k s))
        | None \<Rightarrow> Inr (MTLK_ERR_OK, s, [Counter TX_PACKETS_DISCARDED_DRV_UNKNOWN_DESTINATION_DIRECTED, Nbuf_freed (pk_id k)]))
     else if pk_flags k AND MTLK_NBUFF_BROADCAST \<noteq> 0 \<or> \<not> me_reliable env \<or> \<not> me_ap env then Inr (transmit_generic env ac k s)
     else bind_result (mc_route_of c fr) (\<lambda>r. Inr (case r of
         As_generic \<Rightarrow> transmit_generic env ac k s
       | Unknown_group \<Rightarrow> (MTLK_ERR_OK, s, [Counter TX_PACKETS_DISCARDED_DRV_UNKNOWN_DESTINATION_MCAST, Nbuf_freed (pk_id k)])
       | To_group ms \<Rightarrow> transmit_reliable env ac k ms s)))"

section \<open>The hardware address of a received multicast packet\<close>

text \<open>
  The classification of addresses by the kernel (\<^verbatim>\<open>ipv4_is_multicast\<close>, \<^verbatim>\<open>ipv4_is_local_multicast\<close>, \<^verbatim>\<open>ipv6_addr_is_multicast\<close>, which looks at the first word
  of the address only) is an argument of the model; its documented behaviour is that of 224.0.0.0/4, 224.0.0.0/24 and ff00::/8.
\<close>
record kernel_addr =
  ipv4_is_multicast :: "in_addr \<Rightarrow> bool"
  ipv4_is_local_multicast :: "in_addr \<Rightarrow> bool"
  ipv6_addr_is_multicast :: "32 word \<Rightarrow> bool"

definition kernel_documented :: "kernel_addr \<Rightarrow> bool" where
  "kernel_documented k \<longleftrightarrow> (\<forall>a. ipv4_is_multicast k a \<longleftrightarrow> a AND 0xF0000000 = 0xE0000000)
    \<and> (\<forall>a. ipv4_is_local_multicast k a \<longleftrightarrow> a AND 0xFFFFFF00 = 0xE0000000)
    \<and> (\<forall>w. ipv6_addr_is_multicast k w \<longleftrightarrow> w AND 0xFF000000 = 0xFF000000)"

text \<open>
  For IPv6 the four bytes are read from the last word of the address in the byte order of the machine, after the word was
  brought into that order.
\<close>
definition last_word_bytes :: "bool \<Rightarrow> in6_addr \<Rightarrow> byte list" where
  "last_word_bytes big_endian a =
    (let bs = be_bytes 4 (unat (snd (snd (snd a)))) in if big_endian then bs else rev bs)"

text \<open>The test of the IPv6 address is that of the source, which leaves multicast packets alone.\<close>
definition mtlk_mc_restore_mac :: "kernel_addr \<Rightarrow> bool \<Rightarrow> byte list \<Rightarrow> c_fault + byte list" where
  "mtlk_mc_restore_mac k big_endian fr =
    bind_result (rd_be 2 fr 12) (\<lambda>proto.
      if proto = ETH_P_IP then
        bind_result (rd_in fr 30) (\<lambda>a. Inr
          (if \<not> ipv4_is_multicast k a \<or> ipv4_is_local_multicast k a then fr
           else [0x01, 0x00, 0x5E, ucast (drop_bit 16 a) AND 0x7F, ucast (drop_bit 8 a), ucast a] @ drop 6 fr))
      else if proto = ETH_P_IPV6 then
        bind_result (rd_in fr 38) (\<lambda>w.
          if ipv6_addr_is_multicast k w then Inr fr
          else bind_result (rd_in6 fr 38) (\<lambda>a. Inr
            (if ip6_local a then fr else [0x33, 0x33] @ last_word_bytes big_endian a @ drop 6 fr)))
      else Inr fr)"

end
