(* ===== verification/Mcast_Groups.thy ===== *)
theory Mcast_Groups
  imports Mcast
begin

text \<open>
  What the multicast component guarantees. The tables of groups refine the relation of stations and the groups they follow; a
  report is processed as the sequence of joins and leaves that it encodes, and one that claims more records than it holds is
  read beyond its end; a reliable packet reaches every member of its group but its source, or is counted as dropped for it;
  the hardware address of IPv4 groups is restored as the standard says, that of IPv6 is not.
\<close>

section \<open>Chains\<close>

abbreviation at :: "'a \<Rightarrow> 'a mcast_gr \<Rightarrow> bool" where "at a \<equiv> \<lambda>g. gr_addr g = a"

lemma set_mcsta_addrs [simp]: "map gr_addr (set_mcsta a m gs) = map gr_addr gs"
  by (induction gs) auto

lemma set_mcsta_in: "g \<in> set (set_mcsta a m gs) \<Longrightarrow> g \<in> set gs \<or> (gr_mcsta g = m \<and> gr_addr g = a)"
  by (induction gs) (auto split: if_splits)

lemma find_set_mcsta:
  "find (at b) (set_mcsta a m gs) = (if b = a then map_option (\<lambda>g. g\<lparr>gr_mcsta := m\<rparr>) (find (at a) gs) else find (at b) gs)"
  by (induction gs) auto

lemma unlink_in: "set (unlink_gr a gs) \<subseteq> set gs"
  by (induction gs) auto

lemma unlink_distinct: "distinct (map gr_addr gs) \<Longrightarrow> distinct (map gr_addr (unlink_gr a gs))"
  by (induction gs) (use unlink_in in \<open>auto simp: image_iff, fastforce\<close>)

lemma find_at_None: "find (at a) gs = None \<longleftrightarrow> a \<notin> gr_addr ` set gs"
  by (auto simp: find_None_iff)

lemma find_unlink:
  "distinct (map gr_addr gs) \<Longrightarrow> find (at b) (unlink_gr a gs) = (if b = a then None else find (at b) gs)"
proof (induction gs)
  case (Cons g gs)
  show ?case
  proof (cases "gr_addr g = a")
    case True
    with Cons(2) have "find (at a) gs = None" by (simp add: find_at_None)
    with True show ?thesis by auto
  next
    case False
    with Cons show ?thesis by (cases "b = a") simp_all
  qed
qed simp

lemma find_at: "find (at a) gs = Some g \<Longrightarrow> g \<in> set gs \<and> gr_addr g = a"
  by (auto simp: find_Some_iff)

lemma find_distinct: "distinct (map gr_addr gs) \<Longrightarrow> g \<in> set gs \<Longrightarrow> find (at (gr_addr g)) gs = Some g"
  by (induction gs) (auto simp: rev_image_eqI)

lemma drop_chain_in:
  "g \<in> set (drop_chain addr_of mac gs) \<Longrightarrow>
    \<exists>g' \<in> set gs. gr_addr g = gr_addr g' \<and> (gr_mcsta g = gr_mcsta g' \<or> (\<exists>s. gr_mcsta g = remove1 s (gr_mcsta g')))"
  by (induction gs) (auto simp: Let_def split: option.splits if_splits)

lemma drop_chain_distinct: "distinct (map gr_addr gs) \<Longrightarrow> distinct (map gr_addr (drop_chain addr_of mac gs))"
proof (induction gs)
  case (Cons g gs)
  have "gr_addr g \<notin> gr_addr ` set (drop_chain addr_of mac gs)"
    using Cons.prems drop_chain_in [of _ addr_of mac gs] by (auto simp: image_iff) metis
  with Cons show ?case by (simp add: Let_def split: option.splits)
qed simp

section \<open>Membership\<close>

definition table_ok :: "('a \<Rightarrow> nat) \<Rightarrow> 'a mcast_table \<Rightarrow> bool" where
  "table_ok h t \<longleftrightarrow> (\<forall>i. distinct (map gr_addr (t i)) \<and> (\<forall>g \<in> set (t i). h (gr_addr g) = i \<and> distinct (gr_mcsta g)))"

definition members :: "('a \<Rightarrow> nat) \<Rightarrow> 'a mcast_table \<Rightarrow> 'a \<Rightarrow> nat set" where
  "members h t a = (case find_gr h t a of None \<Rightarrow> {} | Some g \<Rightarrow> set (gr_mcsta g))"

lemma table_okD:
  assumes "table_ok h t"
  shows "distinct (map gr_addr (t i))" "g \<in> set (t i) \<Longrightarrow> h (gr_addr g) = i" "g \<in> set (t i) \<Longrightarrow> distinct (gr_mcsta g)"
  using assms by (auto simp: table_ok_def)

lemma table_ok_upd:
  assumes "table_ok h t" "distinct (map gr_addr gs)" "\<forall>g \<in> set gs. h (gr_addr g) = i \<and> distinct (gr_mcsta g)"
  shows "table_ok h (t(i := gs))"
  using assms by (simp add: table_ok_def)

lemma found:
  assumes "table_ok h t" "find_gr h t a = Some g"
  shows "g \<in> set (t (h a))" "gr_addr g = a" "distinct (gr_mcsta g)" "members h t a = set (gr_mcsta g)"
  using find_at [of a "t (h a)" g] assms table_okD(3) by (auto simp: find_gr_def members_def)

lemma members_set:
  assumes "table_ok h t" "find_gr h t a = Some g" "distinct m"
  shows "table_ok h (t(h a := set_mcsta a m (t (h a)))) \<and> members h (t(h a := set_mcsta a m (t (h a)))) = (members h t)(a := set m)"
proof
  show "table_ok h (t(h a := set_mcsta a m (t (h a))))"
  proof (rule table_ok_upd [OF assms(1)])
    show "\<forall>x \<in> set (set_mcsta a m (t (h a))). h (gr_addr x) = h a \<and> distinct (gr_mcsta x)"
      using set_mcsta_in [of _ a m "t (h a)"] table_okD(2,3) [OF assms(1)] assms(3) by metis
  qed (simp add: table_okD(1) [OF assms(1)])
  show "members h (t(h a := set_mcsta a m (t (h a)))) = (members h t)(a := set m)"
    using assms(2) by (auto simp: fun_eq_iff members_def find_gr_def find_set_mcsta split: option.splits)
qed

lemma members_new:
  assumes "table_ok h t" "find_gr h t a = None"
  shows "table_ok h (t(h a := \<lparr>gr_addr = a, gr_mcsta = []\<rparr> # t (h a)))"
    "members h (t(h a := \<lparr>gr_addr = a, gr_mcsta = []\<rparr> # t (h a))) = members h t"
    "find_gr h (t(h a := \<lparr>gr_addr = a, gr_mcsta = []\<rparr> # t (h a))) a = Some \<lparr>gr_addr = a, gr_mcsta = []\<rparr>"
proof -
  show "table_ok h (t(h a := \<lparr>gr_addr = a, gr_mcsta = []\<rparr> # t (h a)))"
    using assms table_okD [OF assms(1)] by (intro table_ok_upd) (auto simp: find_gr_def find_at_None)
  show "members h (t(h a := \<lparr>gr_addr = a, gr_mcsta = []\<rparr> # t (h a))) = members h t"
    using assms(2) by (auto simp: fun_eq_iff members_def find_gr_def split: option.splits)
qed (simp add: find_gr_def)

lemma members_del_gr:
  assumes "table_ok h t"
  shows "table_ok h (del_gr h a t)" "members h (del_gr h a t) = (members h t)(a := {})"
proof -
  show "table_ok h (del_gr h a t)"
    unfolding del_gr_def
  proof (rule table_ok_upd [OF assms])
    show "distinct (map gr_addr (unlink_gr a (t (h a))))" by (rule unlink_distinct) (rule table_okD(1) [OF assms])
    show "\<forall>g \<in> set (unlink_gr a (t (h a))). h (gr_addr g) = h a \<and> distinct (gr_mcsta g)"
      using unlink_in [of a "t (h a)"] table_okD(2,3) [OF assms] by (meson subsetD)
  qed
  show "members h (del_gr h a t) = (members h t)(a := {})"
  proof
    fix b show "members h (del_gr h a t) b = ((members h t)(a := {})) b"
      using find_unlink [OF table_okD(1) [OF assms, of "h a"], of b a] by (cases "b = a") (simp_all add: members_def find_gr_def del_gr_def)
  qed
qed

lemma add_members:
  assumes "table_ok h t"
  shows "table_ok h (add_sta h local al (Some s) a t)"
    "members h (add_sta h local al (Some s) a t) =
      (if local a \<or> \<not> snd al \<or> find_gr h t a = None \<and> \<not> fst al then members h t else (members h t)(a := insert s (members h t a)))"
proof -
  have known: "table_ok h (if s \<in> set (gr_mcsta g) \<or> \<not> snd al then t1 else t1(h a := set_mcsta a (s # gr_mcsta g) (t1 (h a))))
      \<and> members h (if s \<in> set (gr_mcsta g) \<or> \<not> snd al then t1 else t1(h a := set_mcsta a (s # gr_mcsta g) (t1 (h a)))) =
         (if \<not> snd al then members h t1 else (members h t1)(a := insert s (members h t1 a)))"
    if "table_ok h t1" "find_gr h t1 a = Some g" for t1 g
    using members_set [OF that, of "s # gr_mcsta g"] found [OF that] that(1) by (auto simp: fun_upd_idem insert_absorb)
  show "table_ok h (add_sta h local al (Some s) a t)"
    "members h (add_sta h local al (Some s) a t) =
      (if local a \<or> \<not> snd al \<or> find_gr h t a = None \<and> \<not> fst al then members h t else (members h t)(a := insert s (members h t a)))"
    using known [OF assms] known [OF members_new(1,3) [OF assms]] members_new(2) [OF assms] assms
    by (cases "find_gr h t a"; simp add: add_sta_def split: if_split_asm)+
qed

lemma del_members:
  assumes "table_ok h t"
  shows "table_ok h (del_sta h (Some s) a t)" "members h (del_sta h (Some s) a t) = (members h t)(a := members h t a - {s})"
proof -
  have "table_ok h (del_sta h (Some s) a t) \<and> members h (del_sta h (Some s) a t) = (members h t)(a := members h t a - {s})"
  proof (cases "find_gr h t a")
    case None
    then have "members h t a = {}" by (simp add: members_def)
    with assms None show ?thesis by (simp add: del_sta_def fun_upd_idem)
  next
    case (Some g)
    note f = found [OF assms Some]
    have "set (remove1 s (gr_mcsta g)) = set (gr_mcsta g) - {s}" "distinct (remove1 s (gr_mcsta g))"
      using f(3) by (simp_all add: set_remove1_eq)
    note m = this
    show ?thesis
    proof (cases "s \<in> set (gr_mcsta g)")
      case True
      show ?thesis
      proof (cases "remove1 s (gr_mcsta g) = []")
        case empty: True
        have "members h t a - {s} = {}" using m(1) f(4) unfolding empty by simp
        then show ?thesis using members_del_gr [OF assms, of a] empty True by (simp only: del_sta_def Some Let_def option.case if_True if_False simp_thms)
      next
        case False
        with members_set [OF assms Some m(2)] m(1) f(4) True show ?thesis by (simp add: del_sta_def Some Let_def)
      qed
    next
      case False
      with f(4) assms show ?thesis by (simp add: del_sta_def Some fun_upd_idem)
    qed
  qed
  then show "table_ok h (del_sta h (Some s) a t)" "members h (del_sta h (Some s) a t) = (members h t)(a := members h t a - {s})"
    by simp_all
qed

text \<open>Of the stations of one group, at most one has the address.\<close>
definition one_per_group :: "(nat \<Rightarrow> mac_addr) \<Rightarrow> mac_addr \<Rightarrow> ('a \<Rightarrow> nat set) \<Rightarrow> bool" where
  "one_per_group addr_of mac M \<longleftrightarrow> (\<forall>a. \<forall>s \<in> M a. \<forall>s' \<in> M a. addr_of s = mac \<longrightarrow> addr_of s' = mac \<longrightarrow> s = s')"

lemma find_drop_chain:
  assumes "distinct (map gr_addr gs)" "\<forall>g \<in> set gs. distinct (gr_mcsta g)"
    "\<forall>g \<in> set gs. \<forall>s \<in> set (gr_mcsta g). \<forall>s' \<in> set (gr_mcsta g). addr_of s = mac \<longrightarrow> addr_of s' = mac \<longrightarrow> s = s'"
  shows "(case find (at a) (drop_chain addr_of mac gs) of None \<Rightarrow> {} | Some g \<Rightarrow> set (gr_mcsta g)) =
    (case find (at a) gs of None \<Rightarrow> {} | Some g \<Rightarrow> set (gr_mcsta g)) - {s. addr_of s = mac}"
  using assms
proof (induction gs)
  case (Cons g gs)
  have IH: "(case find (at a) (drop_chain addr_of mac gs) of None \<Rightarrow> {} | Some g \<Rightarrow> set (gr_mcsta g)) =
      (case find (at a) gs of None \<Rightarrow> {} | Some g \<Rightarrow> set (gr_mcsta g)) - {s. addr_of s = mac}"
    using Cons by simp
  have none: "find (at (gr_addr g)) (drop_chain addr_of mac gs) = None"
  proof -
    have "gr_addr g \<notin> gr_addr ` set gs" using Cons.prems(1) by simp
    moreover have "gr_addr ` set (drop_chain addr_of mac gs) \<subseteq> gr_addr ` set gs"
      using drop_chain_in [of _ addr_of mac gs] by (auto simp: image_iff)
    ultimately show ?thesis unfolding find_at_None by blast
  qed
  show ?case
  proof (cases "find (\<lambda>s. addr_of s = mac) (gr_mcsta g)")
    case None
    then have "set (gr_mcsta g) \<inter> {s. addr_of s = mac} = {}" by (auto simp: find_None_iff)
    with IH None show ?thesis by (cases "gr_addr g = a") auto
  next
    case (Some s)
    then have s: "s \<in> set (gr_mcsta g)" "addr_of s = mac" by (auto simp: find_Some_iff)
    then have "set (gr_mcsta g) - {s. addr_of s = mac} = set (gr_mcsta g) - {s}" using Cons.prems(3) by auto
    moreover have "set (remove1 s (gr_mcsta g)) = set (gr_mcsta g) - {s}" using Cons.prems(2) by (simp add: set_remove1_eq)
    ultimately show ?thesis using IH none Some by (cases "gr_addr g = a") (auto simp: Let_def)
  qed
qed simp

lemma drop_members:
  assumes "table_ok h t" "\<forall>a. h a < MCAST_HASH_SIZE" "one_per_group addr_of mac (members h t)"
  shows "table_ok h (drop_table addr_of mac t)" "members h (drop_table addr_of mac t) = (\<lambda>a. members h t a - {s. addr_of s = mac})"
proof -
  have "distinct (map gr_addr (drop_chain addr_of mac (t i)))" for i
    by (rule drop_chain_distinct) (rule table_okD(1) [OF assms(1)])
  moreover have "h (gr_addr g) = i \<and> distinct (gr_mcsta g)" if "g \<in> set (drop_chain addr_of mac (t i))" for g i
    using drop_chain_in [OF that] table_okD(2,3) [OF assms(1)] by (metis distinct_remove1)
  ultimately show "table_ok h (drop_table addr_of mac t)"
    using assms(1) by (simp add: table_ok_def drop_table_def)
  have find: "find (at (gr_addr g)) (t (h (gr_addr g))) = Some g" if "g \<in> set (t i)" for g i
    using find_distinct [OF table_okD(1) [OF assms(1)] that] table_okD(2) [OF assms(1) that] by simp
  have u: "\<forall>g \<in> set (t i). \<forall>s \<in> set (gr_mcsta g). \<forall>s' \<in> set (gr_mcsta g). addr_of s = mac \<longrightarrow> addr_of s' = mac \<longrightarrow> s = s'" for i
  proof
    fix g assume g: "g \<in> set (t i)"
    have "members h t (gr_addr g) = set (gr_mcsta g)" using find [OF g] by (simp add: members_def find_gr_def)
    with assms(3) show "\<forall>s \<in> set (gr_mcsta g). \<forall>s' \<in> set (gr_mcsta g). addr_of s = mac \<longrightarrow> addr_of s' = mac \<longrightarrow> s = s'"
      unfolding one_per_group_def by metis
  qed
  show "members h (drop_table addr_of mac t) = (\<lambda>a. members h t a - {s. addr_of s = mac})"
    using find_drop_chain [OF table_okD(1) [OF assms(1)] _ u] table_okD(3) [OF assms(1)] assms(2)
    by (simp add: fun_eq_iff members_def find_gr_def drop_table_def)
qed

section \<open>The two families of addresses\<close>

text \<open>
  What the code for a family relies on: a hash below the size of the table, and addresses of one size that are read as they
  were written.
\<close>
locale mcast_family =
  fixes h :: "'a \<Rightarrow> nat" and local :: "'a \<Rightarrow> bool" and sz :: nat and get :: "byte list \<Rightarrow> nat \<Rightarrow> c_fault + 'a" and enc :: "'a \<Rightarrow> byte list"
  assumes hash_bound: "h a < MCAST_HASH_SIZE"
    and enc_length: "length (enc a) = sz"
    and get_enc: "get (pre @ enc a @ post) (length pre) = Inr a"
    and get_short: "length fr < p + sz \<Longrightarrow> get fr p = Inl Out_of_bounds"
    and get_total: "get fr p = Inl Out_of_bounds \<or> (\<exists>a. get fr p = Inr a)"

definition enc_in :: "in_addr \<Rightarrow> byte list" where
  "enc_in a = be_bytes 4 (unat a)"

fun enc_in6 :: "in6_addr \<Rightarrow> byte list" where
  "enc_in6 (a, b, c, d) = enc_in a @ enc_in b @ enc_in c @ enc_in d"

lemma slice_mid: "length bs = n \<Longrightarrow> slice (pre @ bs @ post) (length pre) n = Inr bs"
  by (auto simp: slice_def)

lemma slice_short: "length fr < p + n \<Longrightarrow> slice fr p n = Inl Out_of_bounds"
  by (simp add: slice_def)

lemma rd_be_mid: "length bs = n \<Longrightarrow> rd_be n (pre @ bs @ post) (length pre) = Inr (be_val bs)"
  by (simp add: rd_be_def slice_mid)

lemma enc_in_length [simp]: "length (enc_in a) = 4"
  by (simp add: enc_in_def)

lemma rd_in_mid: "rd_in (pre @ enc_in a @ post) (length pre) = Inr a"
proof -
  have "unat a < 256 ^ 4" using unsigned_less [of a] by simp
  then show ?thesis by (simp add: rd_in_def rd_be_mid enc_in_def be_val_be_bytes)
qed

lemma rd_in_short: "length fr < p + 4 \<Longrightarrow> rd_in fr p = Inl Out_of_bounds"
  by (simp add: rd_in_def rd_be_def slice_short)

lemma rd_in6_mid: "rd_in6 (pre @ enc_in6 a @ post) (length pre) = Inr a"
proof -
  obtain w x y z where a: "a = (w, x, y, z)" by (cases a)
  define fr where "fr = pre @ enc_in w @ enc_in x @ enc_in y @ enc_in z @ post"
  have 1: "rd_in fr (length pre) = Inr w" using rd_in_mid [of pre w] by (simp add: fr_def)
  have 2: "rd_in fr (length pre + 4) = Inr x" using rd_in_mid [of "pre @ enc_in w" x] by (simp add: fr_def)
  have 3: "rd_in fr (length pre + 8) = Inr y" using rd_in_mid [of "pre @ enc_in w @ enc_in x" y] by (simp add: fr_def)
  have 4: "rd_in fr (length pre + 12) = Inr z" using rd_in_mid [of "pre @ enc_in w @ enc_in x @ enc_in y" z] by (simp add: fr_def)
  have "rd_in6 fr (length pre) = Inr a" by (simp add: rd_in6_def 1 2 3 4 a)
  then show ?thesis by (simp add: fr_def a)
qed

lemma reads_total:
  "rd fr q = Inl Out_of_bounds \<or> (\<exists>v. rd fr q = Inr v)" "rd_be n fr q = Inl Out_of_bounds \<or> (\<exists>v. rd_be n fr q = Inr v)"
  "rd_in fr q = Inl Out_of_bounds \<or> (\<exists>a. rd_in fr q = Inr a)" "rd_in6 fr q = Inl Out_of_bounds \<or> (\<exists>a. rd_in6 fr q = Inr a)"
proof -
  have t: "rd_in fr p = Inl Out_of_bounds \<or> (\<exists>a. rd_in fr p = Inr a)" for p by (simp add: rd_in_def rd_be_def slice_def)
  show "rd fr q = Inl Out_of_bounds \<or> (\<exists>v. rd fr q = Inr v)" "rd_be n fr q = Inl Out_of_bounds \<or> (\<exists>v. rd_be n fr q = Inr v)"
    by (simp_all add: rd_def rd_be_def slice_def)
  show "rd_in fr q = Inl Out_of_bounds \<or> (\<exists>a. rd_in fr q = Inr a)" by (rule t)
  show "rd_in6 fr q = Inl Out_of_bounds \<or> (\<exists>a. rd_in6 fr q = Inr a)"
    using t [of q] t [of "q + 4"] t [of "q + 8"] t [of "q + 12"] by (auto simp: rd_in6_def)
qed

lemma rd_in6_short: "length fr < p + 16 \<Longrightarrow> rd_in6 fr p = Inl Out_of_bounds"
  using rd_in_short [of fr "p + 12"] reads_total(3) [of fr p] reads_total(3) [of fr "p + 4"] reads_total(3) [of fr "p + 8"]
  by (auto simp: rd_in6_def)

lemma and_63: "unat (x AND 63 :: 32 word) < 64"
proof -
  have "x AND 63 = take_bit 6 x" by (simp add: take_bit_eq_mask mask_eq_exp_minus_1)
  then have "unat (x AND 63) = take_bit 6 (unat x)" by (simp add: unsigned_take_bit_eq)
  then show ?thesis by (simp add: take_bit_eq_mod)
qed

interpretation ip4: mcast_family ip4_hash ip4_local 4 rd_in enc_in
  by unfold_locales (simp_all add: ip4_hash_def MCAST_HASH_SIZE_def and_63 rd_in_mid rd_in_short reads_total)

interpretation ip6: mcast_family ip6_hash ip6_local 16 rd_in6 enc_in6
proof
  show "ip6_hash a < MCAST_HASH_SIZE" for a by (cases a) (simp add: MCAST_HASH_SIZE_def and_63)
  show "length (enc_in6 a) = 16" for a by (cases a) simp
qed (use rd_in6_mid rd_in6_short reads_total(4) in blast)+

section \<open>Reports\<close>

text \<open>A record of a report: its type, the group, the sources and auxiliary data, which is a number of words of four bytes.\<close>
record 'a group_record =
  rec_type :: byte
  rec_group :: 'a
  rec_sources :: "'a list"
  rec_aux :: "byte list"

definition rec_ok :: "'a group_record \<Rightarrow> bool" where
  "rec_ok r \<longleftrightarrow> length (rec_sources r) < 2 ^ 16 \<and> 4 dvd length (rec_aux r) \<and> length (rec_aux r) < 4 * 256"

definition enc_record :: "('a \<Rightarrow> byte list) \<Rightarrow> 'a group_record \<Rightarrow> byte list" where
  "enc_record enc r = [rec_type r, of_nat (length (rec_aux r) div 4)] @ be_bytes 2 (length (rec_sources r)) @ enc (rec_group r)
     @ concat (map enc (rec_sources r)) @ rec_aux r"

text \<open>The joins and leaves that a report stands for; the allocations are numbered from the last record.\<close>
fun apply_records :: "('a \<Rightarrow> nat) \<Rightarrow> ('a \<Rightarrow> bool) \<Rightarrow> (nat \<Rightarrow> bool \<times> bool) \<Rightarrow> nat option \<Rightarrow> 'a group_record list \<Rightarrow> 'a mcast_table \<Rightarrow> 'a mcast_table" where
  "apply_records h local al sta [] t = t"
| "apply_records h local al sta (r # rs) t = apply_records h local al sta rs
     (record_effect h local (al (length rs)) sta (unat (rec_type r)) (length (rec_sources r)) (rec_group r) t)"

lemma rd_mid: "rd (pre @ b # post) (length pre) = Inr b"
  by (simp add: rd_def nth_append)

context mcast_family
begin

lemma enc_sources_length: "length (concat (map enc as)) = sz * length as"
  by (induction as) (simp_all add: enc_length)

lemma records_applied:
  assumes "\<forall>r \<in> set rs. rec_ok r"
  shows "report_records h local sz get al sta (pre @ concat (map (enc_record enc) rs) @ post) (length rs) (length pre) t =
    Inr (apply_records h local al sta rs t)"
  using assms
proof (induction rs arbitrary: pre t)
  case (Cons r rs)
  define n where "n = length (rec_sources r)"
  define x where "x = length (rec_aux r) div 4"
  have ok: "n < 2 ^ 16" "length (rec_aux r) = 4 * x" "x < 256"
    using Cons.prems by (auto simp: rec_ok_def n_def x_def)
  define rest where "rest = concat (map (enc_record enc) rs) @ post"
  define fr where "fr = pre @ [rec_type r, of_nat x] @ be_bytes 2 n @ enc (rec_group r) @ concat (map enc (rec_sources r)) @ rec_aux r @ rest"
  have 1: "rd_be 2 fr (Suc (Suc (length pre))) = Inr n"
    using rd_be_mid [of "be_bytes 2 n" 2 "pre @ [rec_type r, of_nat x]"] ok(1) by (simp add: fr_def be_val_be_bytes)
  have 2: "get fr (length pre + 4) = Inr (rec_group r)"
    using get_enc [of "pre @ [rec_type r, of_nat x] @ be_bytes 2 n" "rec_group r"] by (simp add: fr_def)
  have 3: "rd fr (length pre) = Inr (rec_type r)" using rd_mid [of pre] by (simp add: fr_def)
  have 4: "rd fr (Suc (length pre)) = Inr (of_nat x)" using rd_mid [of "pre @ [rec_type r]" "of_nat x"] by (simp add: fr_def)
  have u: "unat (of_nat x :: byte) = x" using ok(3) by (simp add: unat_of_nat)
  define pre' where "pre' = pre @ enc_record enc r"
  have fr: "fr = pre' @ concat (map (enc_record enc) rs) @ post"
    by (simp add: fr_def pre'_def rest_def enc_record_def [of enc r] n_def x_def)
  have p: "length pre + 4 + sz + sz * n + 4 * x = length pre'"
    by (simp add: pre'_def enc_record_def enc_length enc_sources_length n_def ok(2))
  have "report_records h local sz get al sta fr (length rs) (length pre') t' = Inr (apply_records h local al sta rs t')" for t'
    using Cons.IH [of pre' t'] Cons.prems unfolding fr by simp
  then have "report_records h local sz get al sta fr (Suc (length rs)) (length pre) t = Inr (apply_records h local al sta (r # rs) t)"
    by (simp add: 1 2 3 4 u p) (simp add: n_def)
  then show ?case by (simp add: fr pre'_def)
qed simp

lemma records_short:
  assumes "length fr < p + (4 + sz) * n" "0 < n"
  shows "report_records h local sz get al sta fr n p t = Inl Out_of_bounds"
  using assms
proof (induction n arbitrary: p t)
  case (Suc n)
  have IH: "report_records h local sz get al sta fr n (p + 4 + sz + sz * m + 4 * k) t' = Inl Out_of_bounds" if "\<not> length fr < p + 4 + sz" for m k t'
  proof -
    have "0 < n" using that Suc.prems by (cases n) auto
    then show ?thesis using Suc.prems by (intro Suc.IH) (simp_all add: algebra_simps)
  qed
  show ?case
    using IH get_short [of fr "p + 4"] get_total [of fr "p + 4"] reads_total(2) [of 2 fr "p + 2"] reads_total(1) [of fr p]
      reads_total(1) [of fr "p + 1"] by (cases "length fr < p + 4 + sz") auto
qed simp

end

section \<open>What the component guarantees\<close>

datatype mc_call =
    Add4 "bool \<times> bool" nat in_addr | Del4 nat in_addr | Add6 "bool \<times> bool" nat in6_addr | Del6 nat in6_addr | Drop_station mac_addr

fun mc_call_step :: "(nat \<Rightarrow> mac_addr) \<Rightarrow> mc_call \<Rightarrow> mcast_ctx \<Rightarrow> mcast_ctx" where
  "mc_call_step addr_of (Add4 al s a) c = c\<lparr>mcast_ip4_hash := add_ip4_sta al (Some s) a (mcast_ip4_hash c)\<rparr>"
| "mc_call_step addr_of (Del4 s a) c = c\<lparr>mcast_ip4_hash := del_ip4_sta (Some s) a (mcast_ip4_hash c)\<rparr>"
| "mc_call_step addr_of (Add6 al s a) c = c\<lparr>mcast_ip6_hash := add_ip6_sta al (Some s) a (mcast_ip6_hash c)\<rparr>"
| "mc_call_step addr_of (Del6 s a) c = c\<lparr>mcast_ip6_hash := del_ip6_sta (Some s) a (mcast_ip6_hash c)\<rparr>"
| "mc_call_step addr_of (Drop_station mac) c = mtlk_mc_drop_sta True addr_of mac c"

text \<open>The specification: which stations follow which groups.\<close>
type_synonym membership = "(in_addr \<Rightarrow> nat set) \<times> (in6_addr \<Rightarrow> nat set)"

definition joined :: "('a \<Rightarrow> bool) \<Rightarrow> bool \<times> bool \<Rightarrow> nat \<Rightarrow> 'a \<Rightarrow> ('a \<Rightarrow> nat set) \<Rightarrow> ('a \<Rightarrow> nat set) \<Rightarrow> bool" where
  "joined local al s a M M' \<longleftrightarrow>
    (if local a \<or> \<not> snd al then M' = M else M' = M(a := insert s (M a)) \<or> \<not> fst al \<and> M a = {} \<and> M' = M)"

fun mc_spec :: "(nat \<Rightarrow> mac_addr) \<Rightarrow> mc_call \<Rightarrow> membership \<Rightarrow> membership \<Rightarrow> bool" where
  "mc_spec addr_of (Add4 al s a) (M, N) (M', N') \<longleftrightarrow> joined ip4_local al s a M M' \<and> N' = N"
| "mc_spec addr_of (Del4 s a) (M, N) (M', N') \<longleftrightarrow> M' = M(a := M a - {s}) \<and> N' = N"
| "mc_spec addr_of (Add6 al s a) (M, N) (M', N') \<longleftrightarrow> M' = M \<and> joined ip6_local al s a N N'"
| "mc_spec addr_of (Del6 s a) (M, N) (M', N') \<longleftrightarrow> M' = M \<and> N' = N(a := N a - {s})"
| "mc_spec addr_of (Drop_station mac) (M, N) (M', N') \<longleftrightarrow>
     M' = (\<lambda>a. M a - {s. addr_of s = mac}) \<and> N' = (\<lambda>a. N a - {s. addr_of s = mac})"

definition mc_view :: "mcast_ctx \<Rightarrow> membership" where
  "mc_view c = (members ip4_hash (mcast_ip4_hash c), members ip6_hash (mcast_ip6_hash c))"

definition mc_ok :: "mcast_ctx \<Rightarrow> bool" where
  "mc_ok c \<longleftrightarrow> table_ok ip4_hash (mcast_ip4_hash c) \<and> table_ok ip6_hash (mcast_ip6_hash c)"

fun mc_call_ok :: "(nat \<Rightarrow> mac_addr) \<Rightarrow> mc_call \<Rightarrow> mcast_ctx \<Rightarrow> bool" where
  "mc_call_ok addr_of (Drop_station mac) c = (one_per_group addr_of mac (fst (mc_view c)) \<and> one_per_group addr_of mac (snd (mc_view c)))"
| "mc_call_ok addr_of _ c = True"

lemma members_None: "find_gr h t a = None \<Longrightarrow> members h t a = {}"
  by (simp add: members_def)

lemma add_joined:
  assumes "table_ok h t"
  shows "table_ok h (add_sta h local al (Some s) a t) \<and> joined local al s a (members h t) (members h (add_sta h local al (Some s) a t))"
  using add_members [OF assms, of local al s a] members_None [of h t a] by (simp add: joined_def)

text \<open>
  C32: The tables of multicast groups, with their hash chains and lists of members, implement the relation of stations and the
  groups they follow: a join adds one pair unless the group is local or memory is missing, a leave removes one pair, and a
  station that disconnects is removed from all groups at once, so that no group keeps a pointer to it, provided no group
  has two members with the hardware address of that station.
\<close>
theorem mcast_tables_refine_membership:
  assumes "mc_ok c" "mc_call_ok addr_of call c"
  shows "mc_ok (mc_call_step addr_of call c) \<and> mc_spec addr_of call (mc_view c) (mc_view (mc_call_step addr_of call c))"
  using assms add_joined [where h = ip4_hash] add_joined [where h = ip6_hash] del_members [where h = ip4_hash] del_members [where h = ip6_hash]
    drop_members [of ip4_hash "mcast_ip4_hash c" addr_of] drop_members [of ip6_hash "mcast_ip6_hash c" addr_of] ip4.hash_bound ip6.hash_bound
  by (cases call) (simp_all add: mc_ok_def mc_view_def add_ip4_sta_def add_ip6_sta_def del_ip4_sta_def del_ip6_sta_def mtlk_mc_drop_sta_def)

definition ex_groups :: mcast_ctx where
  "ex_groups = mc_call_step (\<lambda>_. []) (Add4 (True, True) 7 0xEF010203) (mc_call_step (\<lambda>_. []) (Add4 (True, True) 5 0xEF010203) mtlk_mc_init)"

lemma empty_table [simp]: "table_ok h (\<lambda>_. [])" "members h (\<lambda>_. []) = (\<lambda>_. {})"
  by (simp_all add: table_ok_def fun_eq_iff members_def find_gr_def)

lemma ex_groups_ok: "mc_ok ex_groups" "mc_view ex_groups = ((\<lambda>_. {})(0xEF010203 := {7, 5}), \<lambda>_. {})"
  by (simp_all add: ex_groups_def mtlk_mc_init_def add_ip4_sta_def mc_ok_def mc_view_def add_members ip4_local_def)

theorem mcast_tables_refine_membership_witness:
  "fst (mc_view (mc_call_step (\<lambda>s. [of_nat s]) (Drop_station [5]) ex_groups)) 0xEF010203 = {7}"
proof -
  have o: "mc_call_ok (\<lambda>s. [of_nat s]) (Drop_station [5]) ex_groups"
    by (simp add: ex_groups_ok one_per_group_def)
  obtain M N where v: "mc_view (mc_call_step (\<lambda>s. [of_nat s]) (Drop_station [5]) ex_groups) = (M, N)" by fastforce
  have "M = (\<lambda>a. ((\<lambda>_. {})(0xEF010203 := {7, 5})) a - {s. [of_nat s :: byte] = [5]})"
    using mcast_tables_refine_membership [OF ex_groups_ok(1) o] unfolding v ex_groups_ok(2) mc_spec.simps by simp
  then show ?thesis unfolding v by auto
qed

section \<open>Messages\<close>

text \<open>An IGMP report in a frame: Ethernet addresses, an IP header of any length with its protocol, the report and what follows.\<close>
definition igmp_report :: "byte list \<Rightarrow> byte list \<Rightarrow> byte list \<Rightarrow> in_addr group_record list \<Rightarrow> byte list \<Rightarrow> byte list" where
  "igmp_report macs ip csum rs tail = macs @ [0x08, 0x00] @ ip @ [0x22, 0] @ csum @ [0, 0] @ be_bytes 2 (length rs) @ concat (map (enc_record enc_in) rs) @ tail"

definition ip_header_ok :: "byte list \<Rightarrow> bool" where
  "ip_header_ok ip \<longleftrightarrow> 20 \<le> length ip \<and> length ip = unat (ip ! 0 AND 15) * 4 \<and> ip ! 9 = 2"

text \<open>An MLD report: an IPv6 header, a hop-by-hop header of eight bytes with a router alert, the report and what follows.\<close>
definition mld_report :: "byte list \<Rightarrow> byte list \<Rightarrow> byte list \<Rightarrow> byte list \<Rightarrow> in6_addr group_record list \<Rightarrow> byte list \<Rightarrow> byte list" where
  "mld_report macs ip pad csum rs tail = macs @ [0x86, 0xDD] @ ip @ [58, 0, 5, 2, 0, 0] @ pad @ [143, 0] @ csum @ [0, 0]
     @ be_bytes 2 (length rs) @ concat (map (enc_record enc_in6) rs) @ tail"

lemma rd_nth: "i < length fr \<Longrightarrow> rd fr i = Inr (fr ! i)"
  by (simp add: rd_def)

lemma igmp_applied:
  assumes "\<forall>r \<in> set rs. rec_ok r" "length rs < 2 ^ 16" "length csum = 2"
  shows "parse_igmp al sta (pre @ [0x22, 0] @ csum @ [0, 0] @ be_bytes 2 (length rs) @ concat (map (enc_record enc_in) rs) @ tail) (length pre) t =
    Inr (apply_records ip4_hash ip4_local al sta rs t)"
proof -
  let ?body = "concat (map (enc_record enc_in) rs) @ tail"
  define fr where "fr = pre @ [0x22, 0] @ csum @ [0, 0] @ be_bytes 2 (length rs) @ ?body"
  have "rd fr (length pre) = Inr 0x22" using rd_mid [of pre] by (simp add: fr_def)
  moreover obtain g where "rd_in fr (length pre + 4) = Inr g"
    using assms(3) by (simp add: rd_in_def rd_be_def slice_def fr_def)
  moreover have "rd_be 2 fr (length pre + 6) = Inr (length rs)"
    using rd_be_mid [of "be_bytes 2 (length rs)" 2 "pre @ [0x22, 0] @ csum @ [0, 0]" ?body] assms(2,3) by (simp add: fr_def be_val_be_bytes)
  moreover have "report_records ip4_hash ip4_local 4 rd_in al sta fr (length rs) (length pre + 8) t = Inr (apply_records ip4_hash ip4_local al sta rs t)"
    using ip4.records_applied [OF assms(1), of al sta "pre @ [0x22, 0] @ csum @ [0, 0] @ be_bytes 2 (length rs)" tail t] assms(3)
    by (simp add: fr_def)
  ultimately show ?thesis unfolding fr_def [symmetric] by (simp add: parse_igmp_def)
qed

lemma mld_applied:
  assumes "\<forall>r \<in> set rs. rec_ok r" "length rs < 2 ^ 16" "length csum = 2" "rs \<noteq> []"
  shows "parse_icmp6 al sta (pre @ [143, 0] @ csum @ [0, 0] @ be_bytes 2 (length rs) @ concat (map (enc_record enc_in6) rs) @ tail) (length pre) t =
    Inr (apply_records ip6_hash ip6_local al sta rs t)"
proof -
  let ?body = "concat (map (enc_record enc_in6) rs) @ tail"
  define fr where "fr = pre @ [143, 0] @ csum @ [0, 0] @ be_bytes 2 (length rs) @ ?body"
  have "rd fr (length pre) = Inr 143" using rd_mid [of pre] by (simp add: fr_def)
  moreover have "16 \<le> length ?body" using assms(4) by (cases rs) (simp_all add: enc_record_def ip6.enc_length)
  then have g: "\<exists>a. rd_in fr (length pre + 8 + q) = Inr a" if "q \<le> 12" for q
    using that assms(3) by (simp add: rd_in_def rd_be_def slice_def fr_def)
  define p where "p = length pre + 8"
  obtain a b c d where "rd_in fr p = Inr a" "rd_in fr (p + 4) = Inr b" "rd_in fr (p + 8) = Inr c" "rd_in fr (p + 12) = Inr d"
    using g [of 0] g [of 4] g [of 8] g [of 12] unfolding p_def by auto
  then have "rd_in6 fr (length pre + 8) = Inr (a, b, c, d)" unfolding p_def [symmetric] by (simp add: rd_in6_def)
  moreover have "rd_be 2 fr (length pre + 6) = Inr (length rs)"
    using rd_be_mid [of "be_bytes 2 (length rs)" 2 "pre @ [143, 0] @ csum @ [0, 0]" ?body] assms(2,3) by (simp add: fr_def be_val_be_bytes)
  moreover have "report_records ip6_hash ip6_local 16 rd_in6 al sta fr (length rs) (length pre + 8) t = Inr (apply_records ip6_hash ip6_local al sta rs t)"
    using ip6.records_applied [OF assms(1), of al sta "pre @ [143, 0] @ csum @ [0, 0] @ be_bytes 2 (length rs)" tail t] assms(3)
    by (simp add: fr_def)
  ultimately show ?thesis unfolding fr_def [symmetric] by (simp add: parse_icmp6_def)
qed

lemma report_frames:
  assumes "length macs = 12" "length csum = 2"
  shows "ip_header_ok ip \<Longrightarrow> \<forall>r \<in> set rs. rec_ok r \<Longrightarrow> length rs < 2 ^ 16 \<Longrightarrow>
      mtlk_mc_parse al True (Some s) (igmp_report macs ip csum rs tail) c =
      Inr (0, c\<lparr>mcast_ip4_hash := apply_records ip4_hash ip4_local al (Some s) rs (mcast_ip4_hash c)\<rparr>)"
    and "length ip6 = 40 \<Longrightarrow> ip6 ! 6 = 0 \<Longrightarrow> length pad = 2 \<Longrightarrow> \<forall>r \<in> set rs6. rec_ok r \<Longrightarrow> length rs6 < 2 ^ 16 \<Longrightarrow> rs6 \<noteq> [] \<Longrightarrow>
      mtlk_mc_parse al True (Some s) (mld_report macs ip6 pad csum rs6 tail) c =
      Inr (0, c\<lparr>mcast_ip6_hash := apply_records ip6_hash ip6_local al (Some s) rs6 (mcast_ip6_hash c)\<rparr>)"
proof -
  assume ip: "ip_header_ok ip" and rs: "\<forall>r \<in> set rs. rec_ok r" "length rs < 2 ^ 16"
  define fr where "fr = igmp_report macs ip csum rs tail"
  let ?pre = "macs @ [0x08, 0x00] @ ip"
  have fr: "fr = ?pre @ [0x22, 0] @ csum @ [0, 0] @ be_bytes 2 (length rs) @ concat (map (enc_record enc_in) rs) @ tail"
    by (simp add: fr_def igmp_report_def)
  have 1: "rd_be 2 fr 12 = Inr ETH_P_IP"
    using rd_be_mid [of "[0x08, 0x00]" 2 macs "ip @ [0x22, 0] @ csum @ [0, 0] @ be_bytes 2 (length rs) @ concat (map (enc_record enc_in) rs) @ tail"] assms(1)
    by (simp add: fr ETH_P_IP_def)
  have 2: "rd fr 14 = Inr (ip ! 0)" "rd fr 23 = Inr 2"
    using ip assms(1) by (simp_all add: rd_def fr ip_header_ok_def nth_append)
  have p: "14 + unat (ip ! 0 AND 15) * 4 = length ?pre" using ip assms(1) by (simp add: ip_header_ok_def)
  show "mtlk_mc_parse al True (Some s) (igmp_report macs ip csum rs tail) c =
      Inr (0, c\<lparr>mcast_ip4_hash := apply_records ip4_hash ip4_local al (Some s) rs (mcast_ip4_hash c)\<rparr>)"
    using igmp_applied [OF rs assms(2), of al "Some s" ?pre tail "mcast_ip4_hash c"] unfolding fr_def [symmetric] fr [symmetric]
    by (simp only: mtlk_mc_parse_def 1 2 p bind_result_simps if_True simp_thms option.distinct if_False map_sum.simps)
next
  assume ip: "length ip6 = 40" "ip6 ! 6 = 0" and pad: "length pad = 2" and rs: "\<forall>r \<in> set rs6. rec_ok r" "length rs6 < 2 ^ 16" "rs6 \<noteq> []"
  define fr where "fr = mld_report macs ip6 pad csum rs6 tail"
  let ?pre = "macs @ [0x86, 0xDD] @ ip6 @ [58, 0, 5, 2, 0, 0] @ pad"
  let ?rest = "[143, 0] @ csum @ [0, 0] @ be_bytes 2 (length rs6) @ concat (map (enc_record enc_in6) rs6) @ tail"
  have fr: "fr = ?pre @ ?rest" by (simp add: fr_def mld_report_def)
  have 1: "rd_be 2 fr 12 = Inr ETH_P_IPV6" "rd_be 2 fr 56 = Inr 0x0502" "rd_be 2 fr 58 = Inr 0"
    using rd_be_mid [of "[0x86, 0xDD]" 2 macs "ip6 @ [58, 0, 5, 2, 0, 0] @ pad @ ?rest"]
      rd_be_mid [of "[5, 2]" 2 "macs @ [0x86, 0xDD] @ ip6 @ [58, 0]" "[0, 0] @ pad @ ?rest"]
      rd_be_mid [of "[0, 0]" 2 "macs @ [0x86, 0xDD] @ ip6 @ [58, 0, 5, 2]" "pad @ ?rest"] assms(1) ip
    by (simp_all add: fr ETH_P_IPV6_def)
  have 2: "rd fr 55 = Inr 0" "rd fr 20 = Inr 0" "rd fr 54 = Inr 58"
    using ip assms(1) by (simp_all add: rd_def fr nth_append)
  have p: "54 + 8 * (unat (0 :: byte) + 1) = length ?pre" using ip pad assms(1) by simp
  have n: "ETH_P_IPV6 \<noteq> ETH_P_IP" by (simp add: ETH_P_IPV6_def ETH_P_IP_def)
  show "mtlk_mc_parse al True (Some s) (mld_report macs ip6 pad csum rs6 tail) c =
      Inr (0, c\<lparr>mcast_ip6_hash := apply_records ip6_hash ip6_local al (Some s) rs6 (mcast_ip6_hash c)\<rparr>)"
    using mld_applied [OF rs(1,2) assms(2) rs(3), of al "Some s" ?pre tail "mcast_ip6_hash c"] unfolding fr_def [symmetric] fr [symmetric]
    by (simp only: mtlk_mc_parse_def 1 2 p n bind_result_simps if_True simp_thms option.distinct if_False map_sum.simps)
qed

subsection \<open>What the protocols mean by a report\<close>

text \<open>
  The meaning of a record, from the protocols: the modes EXCLUDE (MODE_IS_EXCLUDE, CHANGE_TO_EXCLUDE_MODE) with whatever sources are a join, the modes
  INCLUDE (MODE_IS_INCLUDE, CHANGE_TO_INCLUDE_MODE) with no source are a leave; INCLUDE with sources, ALLOW_NEW_SOURCES and BLOCK_OLD_SOURCES
  are about sources, which the driver does not distinguish.
\<close>
datatype wish = Join | Leave | No_change

definition wish_of :: "'a group_record \<Rightarrow> wish" where
  "wish_of r =
    (if rec_type r = 2 \<or> rec_type r = 4 then Join
     else if (rec_type r = 1 \<or> rec_type r = 3) \<and> rec_sources r = [] then Leave else No_change)"

text \<open>Whether a station follows the group \<open>a\<close> after a report, when it did so before or not; groups of link-local scope are not tracked.\<close>
fun follows :: "('a \<Rightarrow> bool) \<Rightarrow> 'a \<Rightarrow> 'a group_record list \<Rightarrow> bool \<Rightarrow> bool" where
  "follows local a [] f = f"
| "follows local a (r # rs) f =
    follows local a rs (if rec_group r \<noteq> a then f
      else case wish_of r of Join \<Rightarrow> f \<or> \<not> local a | Leave \<Rightarrow> False | No_change \<Rightarrow> f)"

text \<open>The members of the group \<open>a\<close> after a report of the station \<open>s\<close>: the other stations are members as before.\<close>
definition reported :: "('a \<Rightarrow> bool) \<Rightarrow> nat \<Rightarrow> 'a group_record list \<Rightarrow> 'a \<Rightarrow> nat set \<Rightarrow> nat set" where
  "reported local s rs a M = (if follows local a rs (s \<in> M) then insert s M else M - {s})"

lemma record_members:
  assumes "table_ok h t"
  shows "table_ok h (record_effect h local (True, True) (Some s) (unat (rec_type r)) (length (rec_sources r)) (rec_group r) t)"
    "members h (record_effect h local (True, True) (Some s) (unat (rec_type r)) (length (rec_sources r)) (rec_group r) t) a =
      (if rec_group r \<noteq> a then members h t a
       else case wish_of r of
         Join \<Rightarrow> if local a then members h t a else insert s (members h t a) | Leave \<Rightarrow> members h t a - {s} | No_change \<Rightarrow> members h t a)"
proof -
  have ty: "unat (rec_type r) = Suc 0 \<longleftrightarrow> rec_type r = 1" "unat (rec_type r) = 2 \<longleftrightarrow> rec_type r = 2"
    "unat (rec_type r) = 3 \<longleftrightarrow> rec_type r = 3" "unat (rec_type r) = 4 \<longleftrightarrow> rec_type r = 4"
    by (simp_all add: word_unat_eq_iff)
  show "table_ok h (record_effect h local (True, True) (Some s) (unat (rec_type r)) (length (rec_sources r)) (rec_group r) t)"
    using assms add_members(1) [OF assms] del_members(1) [OF assms] by (simp add: record_effect_def)
  show "members h (record_effect h local (True, True) (Some s) (unat (rec_type r)) (length (rec_sources r)) (rec_group r) t) a =
      (if rec_group r \<noteq> a then members h t a
       else case wish_of r of
         Join \<Rightarrow> if local a then members h t a else insert s (members h t a) | Leave \<Rightarrow> members h t a - {s} | No_change \<Rightarrow> members h t a)"
    using add_members(2) [OF assms, of local "(True, True)" s "rec_group r"] del_members(2) [OF assms, of s "rec_group r"]
    by (auto simp: record_effect_def wish_of_def ty)
qed

lemma apply_records_members:
  assumes "\<forall>n. al n = (True, True)" "table_ok h t"
  shows "table_ok h (apply_records h local al (Some s) rs t)
    \<and> members h (apply_records h local al (Some s) rs t) a = reported local s rs a (members h t a)"
  using assms(2)
proof (induction rs arbitrary: t)
  case Nil
  then show ?case by (auto simp: reported_def)
next
  case (Cons r rs)
  let ?t = "record_effect h local (al (length rs)) (Some s) (unat (rec_type r)) (length (rec_sources r)) (rec_group r) t"
  have t: "table_ok h ?t" using record_members(1) [OF Cons.prems, of local s r] assms(1) by simp
  have m: "members h ?t a = (if rec_group r \<noteq> a then members h t a
       else case wish_of r of
         Join \<Rightarrow> if local a then members h t a else insert s (members h t a) | Leave \<Rightarrow> members h t a - {s} | No_change \<Rightarrow> members h t a)"
    using record_members(2) [OF Cons.prems, of local s r a] assms(1) by simp
  have "s \<in> members h ?t a \<longleftrightarrow> (if rec_group r \<noteq> a then s \<in> members h t a
       else case wish_of r of Join \<Rightarrow> s \<in> members h t a \<or> \<not> local a | Leave \<Rightarrow> False | No_change \<Rightarrow> s \<in> members h t a)"
    unfolding m by (cases "wish_of r") auto
  moreover have "insert s (members h ?t a) = insert s (members h t a)" "members h ?t a - {s} = members h t a - {s}"
    unfolding m by (cases "wish_of r"; auto)+
  ultimately show ?case using Cons.IH [OF t] by (simp add: reported_def)
qed

text \<open>
  C33: A report of a connected station, IGMPv3 or MLDv2, in a well-formed packet makes the tables agree with what the station declares,
  whatever sources, auxiliary data and trailing bytes the packet carries, as long as memory is available.  For each group the
  records about it count in order: a record of a mode EXCLUDE makes the station a member (unless the group is of link-local scope), a record of a mode
  INCLUDE without sources ends its membership, every other record changes nothing.  The memberships of all other stations stay, the table of the other
  protocol is not touched, and no byte outside the packet is read.  A report of MLDv2 has at least one record: the driver reads an
  empty one beyond its end.
\<close>
theorem mcast_report_round_trip:
  assumes "length macs = 12" "length csum = 2" "ip_header_ok ip" "\<forall>r \<in> set rs. rec_ok r" "length rs < 2 ^ 16"
    "length ip6 = 40" "ip6 ! 6 = 0" "length pad = 2" "\<forall>r \<in> set rs6. rec_ok r" "length rs6 < 2 ^ 16" "rs6 \<noteq> []"
    "\<forall>n. al n = (True, True)" "table_ok ip4_hash (mcast_ip4_hash c)" "table_ok ip6_hash (mcast_ip6_hash c)"
  shows "(\<exists>t. mtlk_mc_parse al True (Some s) (igmp_report macs ip csum rs tail) c = Inr (0, c\<lparr>mcast_ip4_hash := t\<rparr>) \<and> table_ok ip4_hash t
      \<and> (\<forall>a. members ip4_hash t a = reported ip4_local s rs a (members ip4_hash (mcast_ip4_hash c) a)))
    \<and> (\<exists>t. mtlk_mc_parse al True (Some s) (mld_report macs ip6 pad csum rs6 tail) c = Inr (0, c\<lparr>mcast_ip6_hash := t\<rparr>) \<and> table_ok ip6_hash t
      \<and> (\<forall>a. members ip6_hash t a = reported ip6_local s rs6 a (members ip6_hash (mcast_ip6_hash c) a)))"
proof
  note F = report_frames [OF assms(1,2)]
  show "\<exists>t. mtlk_mc_parse al True (Some s) (igmp_report macs ip csum rs tail) c = Inr (0, c\<lparr>mcast_ip4_hash := t\<rparr>) \<and> table_ok ip4_hash t
      \<and> (\<forall>a. members ip4_hash t a = reported ip4_local s rs a (members ip4_hash (mcast_ip4_hash c) a))"
    using F(1) assms(3-5) apply_records_members [OF assms(12,13)] by blast
  show "\<exists>t. mtlk_mc_parse al True (Some s) (mld_report macs ip6 pad csum rs6 tail) c = Inr (0, c\<lparr>mcast_ip6_hash := t\<rparr>) \<and> table_ok ip6_hash t
      \<and> (\<forall>a. members ip6_hash t a = reported ip6_local s rs6 a (members ip6_hash (mcast_ip6_hash c) a))"
    using F(2) assms(6-11) apply_records_members [OF assms(12,14)] by blast
qed

definition ex_rec :: "byte \<Rightarrow> 'a \<Rightarrow> 'a group_record" where
  "ex_rec ty a = \<lparr>rec_type = ty, rec_group = a, rec_sources = [], rec_aux = []\<rparr>"

text \<open>A station joins two groups and leaves the first again, in one report.\<close>
theorem mcast_report_round_trip_witness:
  "\<exists>t. mtlk_mc_parse (\<lambda>_. (True, True)) True (Some 5)
     (igmp_report (replicate 12 0) (0x45 # replicate 8 0 @ [2] @ replicate 10 0) [0, 0]
       [ex_rec 4 0xEF010203, ex_rec 2 0xEF010204, ex_rec 3 0xEF010203] []) mtlk_mc_init = Inr (0, mtlk_mc_init\<lparr>mcast_ip4_hash := t\<rparr>)
   \<and> members ip4_hash t 0xEF010203 = {} \<and> members ip4_hash t 0xEF010204 = {5}"
proof -
  let ?rs = "[ex_rec 4 (0xEF010203 :: in_addr), ex_rec 2 0xEF010204, ex_rec 3 0xEF010203]"
  have ip: "ip_header_ok (0x45 # replicate 8 0 @ [2] @ replicate 10 0)" by (simp add: ip_header_ok_def nth_append nth_Cons')
  have r: "\<forall>r \<in> set ?rs. rec_ok r" "\<forall>r \<in> set [ex_rec 4 ((0xFF0E0000, 0, 0, 1) :: in6_addr)]. rec_ok r"
    by (simp_all add: ex_rec_def rec_ok_def)
  have 0: "table_ok ip4_hash (mcast_ip4_hash mtlk_mc_init)" "table_ok ip6_hash (mcast_ip6_hash mtlk_mc_init)"
    "members ip4_hash (mcast_ip4_hash mtlk_mc_init) a = {}" for a
    by (simp_all add: mtlk_mc_init_def table_ok_def members_def find_gr_def)
  have m: "reported ip4_local 5 ?rs 0xEF010203 {} = {}" "reported ip4_local 5 ?rs 0xEF010204 {} = {5}"
    by (simp_all add: reported_def wish_of_def ex_rec_def ip4_local_def)
  note T = mcast_report_round_trip [of "replicate 12 0" "[0, 0]", OF _ _ ip r(1) _ _ _ _ r(2), of "replicate 40 0" "[0, 0]"
      "\<lambda>_. (True, True)" mtlk_mc_init 5 "[]"]
  then obtain t where t: "mtlk_mc_parse (\<lambda>_. (True, True)) True (Some 5)
     (igmp_report (replicate 12 0) (0x45 # replicate 8 0 @ [2] @ replicate 10 0) [0, 0] ?rs []) mtlk_mc_init = Inr (0, mtlk_mc_init\<lparr>mcast_ip4_hash := t\<rparr>)"
    "\<forall>a. members ip4_hash t a = reported ip4_local 5 ?rs a (members ip4_hash (mcast_ip4_hash mtlk_mc_init) a)"
    using 0(1,2) by auto
  then show ?thesis unfolding 0(3) using m by auto
qed

text \<open>
  The number of records of a report is believed: an IGMPv3 report that claims more records than the rest of the packet can
  hold makes the driver read beyond the packet, whatever the records are.
\<close>
lemma mcast_report_overread:
  assumes "p + 8 \<le> length fr" "fr ! p = 0x22" "slice fr (p + 6) 2 = Inr bs" "length fr < p + 8 + 8 * be_val bs"
  shows "parse_igmp al sta fr p t = Inl Out_of_bounds"
proof -
  have "rd_be 2 fr (p + 6) = Inr (be_val bs)" using assms(3) by (simp add: rd_be_def)
  moreover have "rd fr p = Inr 0x22" using assms(1,2) by (simp add: rd_def)
  moreover have "report_records ip4_hash ip4_local 4 rd_in al sta fr (be_val bs) (p + 8) t = Inl Out_of_bounds"
    using assms(1,4) by (intro ip4.records_short) auto
  ultimately show ?thesis using reads_total(3) [of fr "p + 4"] by (auto simp: parse_igmp_def)
qed

theorem mcast_report_overread_witness: "parse_igmp (\<lambda>_. (True, True)) (Some 5) [0x22, 0, 0, 0, 0, 0, 0, 1] 0 (\<lambda>_. []) = Inl Out_of_bounds"
  by (rule mcast_report_overread [of 0 _ "[0, 1]"]) (simp_all add: slice_def)

section \<open>Transmission\<close>

text \<open>The stations for which an event of the queue says that a packet was queued or dropped.\<close>
fun served_by :: "sq_event \<Rightarrow> nat list" where
  "served_by (Pushed (Some d) ac k) = [d]"
| "served_by (Sta_dropped d r) = [d]"
| "served_by _ = []"

definition served :: "sq_event list \<Rightarrow> nat list" where
  "served l = concat (map served_by l)"

fun freed_by :: "mc_event \<Rightarrow> nat list" where
  "freed_by (Nbuf_freed i) = [i]"
| "freed_by _ = []"

definition freed :: "mc_event list \<Rightarrow> nat list" where
  "freed es = concat (map freed_by es)"

lemma served_simps [simp]: "served [] = []" "served (e # l) = served_by e @ served l" "served (l @ l') = served l @ served l'"
  by (simp_all add: served_def)

lemma freed_simps [simp]: "freed [] = []" "freed (e # l) = freed_by e @ freed l" "freed (l @ l') = freed l @ freed l'"
  by (simp_all add: freed_def)

lemma freed_msdu [simp]: "freed (msdu_event env ac s) = []"
  by (simp add: msdu_event_def)

lemma enqueue_pkt_frame:
  "\<exists>l. sq_log (snd (mtlk_sq_enqueue_pkt p k ac front s)) = sq_log s @ l
     \<and> l = (if fst (mtlk_sq_enqueue_pkt p k ac front s) = MTLK_ERR_OK then [Pushed p ac k] else [])"
  "extras (snd (mtlk_sq_enqueue_pkt p k ac front s)) = extras s" "uaf (snd (mtlk_sq_enqueue_pkt p k ac front s)) = uaf s"
  by (simp_all add: mtlk_sq_enqueue_pkt_def upd_peer_def sq_emit_def set_buf_def)

lemma enqueue_clone_serves:
  assumes "pk_extra k = Some e" "extras s e = Some x" "0 < ex_ref x" "Suc (ex_ref x) < u32_max"
  shows "\<exists>l x'. sq_log (snd (mtlk_sq_enqueue_clone al i k d s)) = sq_log s @ l \<and> served l = [d]
    \<and> extras (snd (mtlk_sq_enqueue_clone al i k d s)) e = Some x' \<and> 0 < ex_ref x' \<and> ex_ref x' \<le> Suc (ex_ref x)
    \<and> uaf (snd (mtlk_sq_enqueue_clone al i k d s)) = uaf s"
proof (cases al)
  case True
  define c where "c = k\<lparr>pk_id := i, pk_dst := Some d, pk_extra := Some e\<rparr>"
  define s1 where "s1 = s\<lparr>extras := (extras s)(e \<mapsto> x\<lparr>ex_ref := Suc (ex_ref x)\<rparr>)\<rparr>"
  have a: "mtlk_nbuf_priv_extra_attach k (k\<lparr>pk_id := i, pk_dst := Some d\<rparr>) s = (c, s1)"
    using assms by (simp add: mtlk_nbuf_priv_extra_attach_def with_extra_def c_def s1_def u32_inc_def)
  obtain res s2 where q: "mtlk_sq_enqueue_pkt (Some d) c (ex_ac x) (ex_front x) s1 = (res, s2)" by fastforce
  have 2: "sq_log s2 = sq_log s @ (if res = MTLK_ERR_OK then [Pushed (Some d) (ex_ac x) c] else [])" "extras s2 = extras s1" "uaf s2 = uaf s"
  proof -
    have "sq_log s1 = sq_log s" "uaf s1 = uaf s" by (simp_all add: s1_def)
    with enqueue_pkt_frame [of "Some d" c "ex_ac x" "ex_front x" s1, unfolded q]
    show "sq_log s2 = sq_log s @ (if res = MTLK_ERR_OK then [Pushed (Some d) (ex_ac x) c] else [])" "extras s2 = extras s1" "uaf s2 = uaf s"
      by simp_all
  qed
  have r: "mtlk_sq_enqueue_clone al i k d s = (res, if res \<noteq> MTLK_ERR_OK
      then sq_emit (Clone_freed c) (mtlk_nbuf_priv_extra_detach c (sq_emit (Sta_dropped d ''queue overflow'') s2)) else s2)"
  proof -
    have x1: "extras s1 e = Some (x\<lparr>ex_ref := Suc (ex_ref x)\<rparr>)" by (simp add: s1_def)
    have "mtlk_xmit_sq_enqueue c (ex_ac x) (ex_front x) s1 = (res, s2)" using q by (simp add: mtlk_xmit_sq_enqueue_def c_def)
    then show ?thesis unfolding mtlk_sq_enqueue_clone_def a Let_def prod.case using True assms(1) x1 by simp
  qed
  show ?thesis
  proof (cases "res = MTLK_ERR_OK")
    case True
    with 2 show ?thesis by (simp add: r s1_def)
  next
    case False
    have "u32_dec (Suc (ex_ref x)) = ex_ref x" using assms(4) by (simp add: u32_dec_def)
    with False 2 assms(3) show ?thesis
      by (simp add: r mtlk_nbuf_priv_extra_detach_def extra_detach_def with_extra_def sq_emit_def c_def s1_def)
  qed
qed (use assms in \<open>simp add: mtlk_sq_enqueue_clone_def sq_emit_def\<close>)

lemma clone_to_serves:
  assumes "pk_extra k = Some e" "extras s e = Some x" "0 < ex_ref x" "ex_ref x + length ms < u32_max" "clone_to env ac k n ms s = (s', es)"
  shows "\<exists>l x'. sq_log s' = sq_log s @ l \<and> served l = filter (\<lambda>m. me_src env \<noteq> Some m) ms \<and> extras s' e = Some x' \<and> uaf s' = uaf s
    \<and> freed es = []"
  using assms(2-)
proof (induction ms arbitrary: n s x s' es)
  case (Cons m ms)
  show ?case
  proof (cases "me_src env = Some m")
    case True
    with Cons.IH [OF Cons.prems(1,2)] Cons.prems(3,4) show ?thesis by simp
  next
    case False
    obtain res s1 where 1: "mtlk_sq_enqueue_clone (me_clone_ok env n) (me_clone env n) k m s = (res, s1)" by fastforce
    obtain s2 es2 where 2: "clone_to env ac k (Suc n) ms s1 = (s2, es2)" by fastforce
    obtain l x1 where l: "sq_log s1 = sq_log s @ l" "served l = [m]" "extras s1 e = Some x1" "0 < ex_ref x1" "ex_ref x1 \<le> Suc (ex_ref x)" "uaf s1 = uaf s"
      using enqueue_clone_serves [OF assms(1) Cons.prems(1,2), of "me_clone_ok env n" "me_clone env n" m] Cons.prems(3) by (auto simp: 1)
    obtain l2 x2 where "sq_log s2 = sq_log s1 @ l2" "served l2 = filter (\<lambda>m. me_src env \<noteq> Some m) ms" "extras s2 e = Some x2" "uaf s2 = uaf s1"
      "freed es2 = []"
      using Cons.IH [OF l(3,4) _ 2] Cons.prems(3) l(5) by auto
    with l 1 2 False Cons.prems(4) show ?thesis by auto
  qed
qed simp

text \<open>
  C34: A reliable multicast packet for a known group is offered once to each member of the group, in the order of the list and
  except for the station it came from: for each of them the queue takes a clone or the packet is counted as dropped. The
  object that the clones share, which could be allocated, stays alive, and the packet itself is freed once.
\<close>
theorem mcast_packet_served_once:
  assumes "pk_flags k AND MTLK_NBUFF_UNICAST = 0" "pk_flags k AND MTLK_NBUFF_BROADCAST = 0" "me_reliable env" "me_ap env" "me_extra_ok env"
    "mc_route_of c fr = Inr (To_group ms)" "Suc (length ms) < u32_max"
  shows "\<exists>s' es l. mtlk_mc_transmit env ac k fr c s = Inr (MTLK_ERR_OK, s', es) \<and> sq_log s' = sq_log s @ l
    \<and> served l = filter (\<lambda>m. me_src env \<noteq> Some m) ms \<and> uaf s' = uaf s \<and> freed es = [pk_id k]"
proof -
  obtain ac' front' where u: "mtlk_sq_switch_if_urgent (k\<lparr>pk_flags := pk_flags k OR MTLK_NBUFF_RMCAST\<rparr>) (ac, False) = (ac', front')" by fastforce
  obtain k1 s1 where b: "mtlk_sq_enqueue_clone_begin (me_extra_ok env) (me_extra env) ac False (k\<lparr>pk_flags := pk_flags k OR MTLK_NBUFF_RMCAST\<rparr>) s =
      (MTLK_ERR_OK, k1, s1)"
    and k1: "pk_extra k1 = Some (me_extra env)" "\<exists>x. extras s1 (me_extra env) = Some x \<and> ex_ref x = 1" "sq_log s1 = sq_log s" "uaf s1 = uaf s"
    using assms(5) by (simp add: mtlk_sq_enqueue_clone_begin_def u mtlk_nbuf_priv_extra_create_and_attach_def size_inc_def)
  obtain x where x: "extras s1 (me_extra env) = Some x" "ex_ref x = 1" using k1(2) by blast
  obtain s2 es where 2: "clone_to env ac k1 0 ms s1 = (s2, es)" by fastforce
  obtain l x' where l: "sq_log s2 = sq_log s1 @ l" "served l = filter (\<lambda>m. me_src env \<noteq> Some m) ms" "extras s2 (me_extra env) = Some x'"
    "uaf s2 = uaf s1" "freed es = []"
    using clone_to_serves [OF k1(1) x(1) _ _ 2] x(2) assms(7) by auto
  have e: "sq_log (mtlk_sq_enqueue_clone_end k1 s2) = sq_log s2" "uaf (mtlk_sq_enqueue_clone_end k1 s2) = uaf s2"
    using k1(1) l(3) by (simp_all add: mtlk_sq_enqueue_clone_end_def extra_detach_def with_extra_def size_dec_def)
  have t: "mtlk_mc_transmit env ac k fr c s = Inr (transmit_reliable env ac k ms s)" using assms(1-4,6) by (simp add: mtlk_mc_transmit_def)
  show ?thesis
    unfolding t transmit_reliable_def Let_def b prod.case 2 using k1(3,4) l e by simp
qed

definition ex_mc_env :: mc_env where
  "ex_mc_env = \<lparr>me_ap = True, me_reliable = True, me_src = Some 7, me_extra_ok = True, me_extra = 0, me_clone_ok = (\<lambda>_. True), me_clone = id\<rparr>"

definition ex_mc_packet :: sq_pkt where
  "ex_mc_packet = \<lparr>pk_id = 9, pk_flags = 4, pk_vap = 0, pk_dst = None, pk_extra = None\<rparr>"

definition ex_mc_frame :: "byte list" where
  "ex_mc_frame = replicate 12 0 @ [0x08, 0x00] @ replicate 16 0 @ [0xEF, 1, 2, 3]"

theorem mcast_packet_served_once_witness:
  "\<exists>s' es l. mtlk_mc_transmit ex_mc_env 0 ex_mc_packet ex_mc_frame ex_groups sq_init = Inr (MTLK_ERR_OK, s', es) \<and> served l = [5] \<and> freed es = [9]"
proof -
  have "find_gr ip4_hash (mcast_ip4_hash ex_groups) 0xEF010203 = Some \<lparr>gr_addr = 0xEF010203, gr_mcsta = [7, 5]\<rparr>"
    by (simp add: ex_groups_def mtlk_mc_init_def add_ip4_sta_def add_sta_def find_gr_def ip4_local_def)
  moreover have "rd_be 2 ex_mc_frame 12 = Inr ETH_P_IP" "rd_in ex_mc_frame 30 = Inr 0xEF010203"
    by (simp_all add: ex_mc_frame_def rd_be_def rd_in_def slice_def ETH_P_IP_def)
  ultimately have r: "mc_route_of ex_groups ex_mc_frame = Inr (To_group [7, 5])"
    by (simp add: mc_route_of_def find_ip4_gr_def ip4_local_def)
  have "\<exists>s' es l. mtlk_mc_transmit ex_mc_env 0 ex_mc_packet ex_mc_frame ex_groups sq_init = Inr (MTLK_ERR_OK, s', es) \<and> sq_log s' = sq_log sq_init @ l
    \<and> served l = filter (\<lambda>m. me_src ex_mc_env \<noteq> Some m) [7, 5] \<and> uaf s' = uaf sq_init \<and> freed es = [pk_id ex_mc_packet]"
    by (rule mcast_packet_served_once [OF _ _ _ _ _ r])
      (simp_all add: ex_mc_env_def ex_mc_packet_def MTLK_NBUFF_UNICAST_def MTLK_NBUFF_BROADCAST_def u32_max_def)
  then show ?thesis by (auto simp: ex_mc_env_def ex_mc_packet_def)
qed

section \<open>The hardware address of a group\<close>

lemma low_bytes:
  fixes n :: nat
  shows "(n div 65536) mod 128 * 65536 + (n div 256) mod 256 * 256 + n mod 256 = n mod 2 ^ 23"
proof -
  have "n mod 2 ^ 23 = n mod (65536 * 128)" by simp
  also have "\<dots> = 65536 * (n div 65536 mod 128) + n mod 65536" by (rule mod_mult2_eq)
  also have "n mod 65536 = 256 * (n div 256 mod 256) + n mod 256" using mod_mult2_eq [of n 256 256] by simp
  finally show ?thesis by simp
qed

lemma restored_bytes:
  "be_val [0x01, 0x00, 0x5E, ucast (drop_bit 16 a) AND 0x7F, ucast (drop_bit 8 a), ucast (a :: 32 word)] = 0x01005E000000 + unat a mod 2 ^ 23"
proof -
  have m: "(x :: byte) AND 0x7F = take_bit 7 x" for x by (simp add: take_bit_eq_mask mask_eq_exp_minus_1)
  have d: "unat (drop_bit n a) = unat a div 2 ^ n" for n by (subst unat_drop_bit_eq) (simp add: drop_bit_eq_div)
  have 1: "unat (ucast (drop_bit 16 a) AND 0x7F :: byte) = (unat a div 65536) mod 128"
  proof -
    have "unat (ucast (drop_bit 16 a) AND 0x7F :: byte) = take_bit 7 (take_bit 8 (unat (drop_bit 16 a)))"
      unfolding m by (simp only: unsigned_take_bit_eq unsigned_ucast_eq) simp
    also have "unat (drop_bit 16 a) = unat a div 65536" using d [of 16] by simp
    finally show ?thesis by (simp add: take_bit_eq_mod mod_mod_cancel)
  qed
  have 2: "unat (ucast (drop_bit 8 a) :: byte) = (unat a div 256) mod 256" "unat (ucast a :: byte) = unat a mod 256"
  proof -
    have "unat (ucast v :: byte) = unat v mod 256" for v :: "32 word" by (simp add: unsigned_ucast_eq take_bit_eq_mod)
    with d [of 8] show "unat (ucast (drop_bit 8 a) :: byte) = (unat a div 256) mod 256" "unat (ucast a :: byte) = unat a mod 256" by simp_all
  qed
  show ?thesis using low_bytes [of "unat a"] by (simp add: 1 2)
qed

lemma not_multicast_not_local: 
  assumes "kernel_documented k" "ip6_local (w, x, y, z)"
  shows "ipv6_addr_is_multicast k w"
proof -
  have "w AND 0xFF0F0000 AND 0xFF000000 = 0xFF020000 AND 0xFF000000" using assms(2) by (simp only: ip6_local.simps and.assoc [symmetric])
  then show ?thesis using assms(1) by (simp add: kernel_documented_def)
qed

text \<open>
  C35: A station restores the hardware address of a received IPv4 packet for a group outside 224.0.0.0/24 as the standard maps it, 01:00:5E followed by
  the low 23 bits of the group. For IPv6 the test is inverted: a packet for a group is left alone, and the destination of
  every packet that is not for a group is overwritten with one that begins with 33:33, as if it were. The kernel is assumed to classify addresses
  as documented.
\<close>
theorem mcast_restore_mac_inverted_for_ip6:
  assumes "slice fr 12 2 = Inr [0x08, 0x00]" "rd_in fr 30 = Inr a" "a AND 0xF0000000 = 0xE0000000" "a AND 0xFFFFFF00 \<noteq> 0xE0000000"
    and "slice fr6 12 2 = Inr [0x86, 0xDD]" "rd_in6 fr6 38 = Inr (w, x, y, z)"
    and kernel: "kernel_documented k"
  shows "(\<exists>fr'. mtlk_mc_restore_mac k be fr = Inr fr' \<and> be_val (take 6 fr') = 0x01005E000000 + unat a mod 2 ^ 23 \<and> drop 6 fr' = drop 6 fr)
    \<and> (\<exists>fr'. mtlk_mc_restore_mac k be fr6 = Inr fr' \<and>
         (if w AND 0xFF000000 = 0xFF000000 then fr' = fr6 else take 2 fr' = [0x33, 0x33] \<and> drop 6 fr' = drop 6 fr6))"
proof
  have "rd_be 2 fr 12 = Inr ETH_P_IP" using assms(1) by (simp add: rd_be_def ETH_P_IP_def)
  then show "\<exists>fr'. mtlk_mc_restore_mac k be fr = Inr fr' \<and> be_val (take 6 fr') = 0x01005E000000 + unat a mod 2 ^ 23 \<and> drop 6 fr' = drop 6 fr"
    using assms(2-4) kernel restored_bytes [of a] by (simp add: mtlk_mc_restore_mac_def kernel_documented_def)
  have p: "rd_be 2 fr6 12 = Inr ETH_P_IPV6" "ETH_P_IPV6 \<noteq> ETH_P_IP" using assms(5) by (simp_all add: rd_be_def ETH_P_IPV6_def ETH_P_IP_def)
  have w: "rd_in fr6 38 = Inr w" using assms(6) by (auto simp: rd_in6_def bind_result_Inr map_sum_def split: sum.splits)
  show "\<exists>fr'. mtlk_mc_restore_mac k be fr6 = Inr fr' \<and> (if w AND 0xFF000000 = 0xFF000000 then fr' = fr6 else take 2 fr' = [0x33, 0x33] \<and> drop 6 fr' = drop 6 fr6)"
    using p w assms(6) kernel not_multicast_not_local [of k w x y z]
    by (cases "ipv6_addr_is_multicast k w") (auto simp: mtlk_mc_restore_mac_def last_word_bytes_def Let_def kernel_documented_def)
qed

definition ex_unicast6 :: "byte list" where
  "ex_unicast6 = replicate 12 0 @ [0x86, 0xDD] @ replicate 24 0 @ [0x20, 1, 1, 1, 1, 1, 1, 1, 1, 1, 1, 1, 1, 1, 1, 1]"

definition ex_kernel :: kernel_addr where
  "ex_kernel = \<lparr>ipv4_is_multicast = (\<lambda>a. a AND 0xF0000000 = 0xE0000000), ipv4_is_local_multicast = (\<lambda>a. a AND 0xFFFFFF00 = 0xE0000000),
     ipv6_addr_is_multicast = (\<lambda>w. w AND 0xFF000000 = 0xFF000000)\<rparr>"

theorem mcast_restore_mac_inverted_for_ip6_witness:
  "\<exists>fr'. mtlk_mc_restore_mac ex_kernel False ex_unicast6 = Inr fr' \<and> take 2 fr' = [0x33, 0x33]"
proof -
  have a: "slice ex_mc_frame 12 2 = Inr [0x08, 0x00]" "rd_in ex_mc_frame 30 = Inr 0xEF010203" "(0xEF010203 :: in_addr) AND 0xF0000000 = 0xE0000000" "(0xEF010203 :: in_addr) AND 0xFFFFFF00 \<noteq> 0xE0000000"
    by (simp_all add: ex_mc_frame_def rd_be_def rd_in_def slice_def)
  have b: "slice ex_unicast6 12 2 = Inr [0x86, 0xDD]" "rd_in6 ex_unicast6 38 = Inr (0x20010101, 0x01010101, 0x01010101, 0x01010101)"
    "(0x20010101 :: 32 word) AND 0xFF000000 \<noteq> 0xFF000000"
    by (simp_all add: ex_unicast6_def rd_in6_def rd_be_def rd_in_def slice_def)
  have k: "kernel_documented ex_kernel" by (simp add: kernel_documented_def ex_kernel_def)
  show ?thesis using mcast_restore_mac_inverted_for_ip6 [OF a b(1,2) k, of False] b(3) by auto
qed

end
