(* ===== verification/Spec2Isabelle.thy ===== *)
theory Spec2Isabelle
  imports Txmm_Locked Sq_Flush Station_Safe Stadb_Refs Rates Serializer Frame_Ctl Frame_Coex Mcast_Groups
begin

text \<open>
  A model of the core logic of the WAVE300 wireless driver, the code below \<^verbatim>\<open>src/driver/wireless\<close>, with the theorems that
  make its parts correct, and those that show where a part does not do what it is meant to do. Paths below are relative to
  that directory: \<^verbatim>\<open>shared\<close> is \<^verbatim>\<open>driver/shared\<close>, \<^verbatim>\<open>linux\<close> is \<^verbatim>\<open>driver/linux\<close>, \<^verbatim>\<open>rflib\<close> is \<^verbatim>\<open>driver/rflib/shared\<close>.

  \<^bold>\<open>The program.\<close> The driver runs between a network stack and the firmware of a wireless card. A received packet is
  checked for replays, put in order per station and traffic identifier, and handed over; a packet to send is classified,
  queued per access category and sent as the card's buffers allow. Stations that connect are kept in a data base; for each of
  them the driver negotiates block-ack agreements, which open and close its reordering queues. Management messages to the
  firmware go through a ring of message blocks; requests of the user through a serializer thread. Management frames are parsed,
  networks that are heard of are kept in a scan cache, and an access point decides with them whether it may use 40 MHz.

  \<^bold>\<open>Theories.\<close>
  \<^item> \<open>Wave_Prelude\<close>: C integers with their wrap-around, error codes (\<^verbatim>\<open>shared/mtlkerr.h\<close>), the faults of a C expression,
    sequencing of fallible steps, big-endian byte strings, lemmas on lists.
  \<^item> \<open>Nbuf\<close>: packet buffers with their flags (\<^verbatim>\<open>mtlknbufpriv.h\<close>). \<open>Qos\<close>: the maps between priorities, traffic identifiers
    and access categories with admission control (\<^verbatim>\<open>mtlkqos.c\<close>).
  \<^item> \<open>Rx_Path\<close>: replay detection and hand-over (\<^verbatim>\<open>linux/core.c\<close>). \<open>Rod\<close>: the reordering queue (\<^verbatim>\<open>rod.c\<close>), refined from an abstract
    window over sequence numbers.
  \<^item> \<open>Flctrl\<close>: flow control and the limited reference counter (\<^verbatim>\<open>mtlkflctrl.c\<close>, \<^verbatim>\<open>mtlk_reflim.h\<close>). \<open>Addba\<close>: block-ack
    negotiation and its frames (\<^verbatim>\<open>addba.c\<close>, part of \<^verbatim>\<open>frame.c\<close>).
  \<^item> \<open>Startup\<close>: the macros that initialize an object step by step and undo the steps (\<^verbatim>\<open>mtlkstartup.h\<close>). \<open>Station\<close>, \<open>Station_Safe\<close>:
    one connected station, the composition of \<open>Rod\<close> and \<open>Addba\<close> (\<^verbatim>\<open>stadb.c\<close>). \<open>Hash\<close>: the table keyed by addresses
    (\<^verbatim>\<open>mtlkhash.h\<close>). \<open>Stadb\<close>, \<open>Stadb_Refs\<close>: the data bases of stations and hosts with their reference counts.
  \<^item> \<open>Txmm\<close>: the message blocks of the firmware interface (\<^verbatim>\<open>txmm.c\<close>), with whole calls one after another; \<open>Txmm_Locked\<close>: the same calls cut
    into the sections between taking and releasing the lock, which interleave. \<open>Sq\<close>, \<open>Sq_Inv\<close>, \<open>Sq_Flush\<close>: the transmit queue
    (\<^verbatim>\<open>mtlk_sq.c\<close>). \<open>Serializer\<close>: the task serializer and its thread (\<^verbatim>\<open>mtlk_serializer.c\<close>, \<^verbatim>\<open>mtlk_serializer_osdep.c\<close>).
  \<^item> \<open>Rates\<close>: rate tables, bit fields and network modes (\<^verbatim>\<open>bitrate.c\<close>, \<^verbatim>\<open>mtlkbfield.h\<close>, \<^verbatim>\<open>mtlkaux.c\<close>). \<open>Country\<close>: country
    codes and domains (\<^verbatim>\<open>rflib/mtlk_channels.c\<close>).
  \<^item> \<open>Bss_Cache\<close>: the scan cache (\<^verbatim>\<open>cache.c\<close>). \<open>Frame_Ie\<close>, \<open>Frame_Ctl\<close>: management and control frames (\<^verbatim>\<open>frame.c\<close>), with
    the coexistence machine as an argument.
  \<^item> \<open>Coex\<close>, \<open>Coex_Safe\<close>, \<open>Coex_Bounds\<close>: the coexistence of 20 and 40 MHz (\<^verbatim>\<open>rflib/coex20_40.c\<close>, \<^verbatim>\<open>coexlve.c\<close>,
    \<^verbatim>\<open>scexempt.c\<close>, \<^verbatim>\<open>cbsmgr.c\<close>). \<open>Frame_Coex\<close>: the frames and the coexistence machine together, over the one scan cache that they share. \<open>Mcast\<close>, \<open>Mcast_Groups\<close>: the groups of stations that receive a multicast address, the
    membership reports that change them and the packets sent to them (\<^verbatim>\<open>linux/mcast.c\<close>).

  \<^bold>\<open>How code becomes definitions.\<close> A struct is a record, an enum a datatype; a function of C is a function of the state that
  returns the new state, with the name of the source. Reads and writes outside an array and divisions by zero are values of
  \<^typ>\<open>c_fault\<close>, on the left of a sum. Counters are numbers with the wrap-around written out, bit masks are words. A locked
  section is atomic; where threads meet between sections (\<open>Serializer\<close>, \<open>Txmm_Locked\<close>) a step relation interleaves the sections.
  Calls that leave the model are events of a log in the state. Clocks, the outcome of an allocation, the answers of the
  firmware and the functions of the kernel that classify addresses are arguments. Logging, assertions and statistics that nothing reads are omitted.

  \<^bold>\<open>Fuel.\<close> Loops whose end depends on an invariant take fuel and return an option: the passes of the flush of the transmit
  queue, the loops of the reordering queue, the enumerations of the hash table and of the scan cache. Each has a lemma or a
  theorem that a fuel given in it is enough (the number of queued packets, the size of the window, the number of entries, each
  plus one); all other recursion is structural or has a termination proof, as the loop over information elements.

  \<^bold>\<open>What is shown.\<close> Received packets: a replayed counter is not handed over, every buffer is disposed of once, packets leave the
  reordering queue in order and none is lost, as long as the window divides the sequence space and the numbers stay within half of it, a window of at most 64 is safe; larger windows are not. Block-ack: the limits count
  exactly, a request of an active peer is answered once if its message is free and ignored otherwise, overdue requests end. Stations: a station stays well-formed under all its events
  if the windows and TIDs that peers name are in range, references balance as long as no host roams, and do not when one does. Objects: a failed start
  undoes exactly what had been done. Transmission: the queue keeps its books, serves all it may, message blocks are never lost under any interleaving of the
  locked sections; a cancellation of a message that is being confirmed or timed out corrupts them. Serializer: each
  command is completed exactly once, the worker drains its queues by priority, a stop is clean; and a stop can be lost. Scan
  cache: it refines a map, its enumerations are those of a list. Frames: the elements of a well-formed frame are stored
  unchanged and in order, a beacon registers its network also while the coexistence machine purges the cache, the reads beyond a frame are bounded by three bytes. Coexistence: 40 MHz
  are used only with a permission and never with a station that cannot bear them; the limit to 20 MHz that the user sets is
  broken by a beacon only, a report can index out of the data base, an exemption is never withdrawn. Multicast: the tables
  refine the membership of stations, a report makes the tables agree with what the station declares, a packet is sent once to each member but its source;
  the hardware address of an IPv6 group is not restored by the function that should.

  \<^bold>\<open>Not modelled.\<close> The rest of \<^verbatim>\<open>linux/core.c\<close> and \<^verbatim>\<open>mtlk_df_user.c\<close>, which move requests of the user to configuration
  messages; the access to the hardware (\<^verbatim>\<open>hw_mmb.c\<close>, the bus drivers), which is input and output; channel selection and radar
  (\<^verbatim>\<open>mtlk_aocs.c\<close>, \<^verbatim>\<open>mtlk_dfs.c\<close>) and the calibration data (\<^verbatim>\<open>mtlk_eeprom.c\<close>, \<^verbatim>\<open>mtlk_tpcv4.c\<close>), which are left out for
  their size; the control of scans (\<^verbatim>\<open>scan.c\<close>), the table of virtual access points, the parameter data base and the power
  management, which exchange messages with the firmware or forward values; the
  supplicant \<^verbatim>\<open>hostap08\<close>, which is third-party code; tools and scripts.
\<close>

end
